(* ===== verification/MTPNDD_Prelude.thy ===== *)
theory MTPNDD_Prelude
  imports Main "HOL-Library.Word" "HOL-Library.Monad_Syntax" "HOL-Library.Multiset"
    "HOL-Library.Code_Target_Nat"
begin

text \<open>
  Shared vocabulary of the development.  A C function that reads memory or changes state
  becomes a function into \<open>('a \<times> state) option\<close> written in the option monad: \<open>None\<close> is a run
  that has no C result (a dereference of an address that holds no object, an index outside
  an array, or a recursion whose fuel ran out).  \<open>succeeds m Q\<close> is the total-correctness
  judgement for such a run: it has a result and the result satisfies \<open>Q\<close>.  The theory also
  holds the facts on powers of two, masks, XOR folds and bucket lists that the hash-table
  components share.
\<close>

unbundle bit_operations_syntax

named_theorems run_simps \<open>rewrite rules that push \<open>succeeds\<close> through a run\<close>
named_theorems pow2_simps \<open>facts on power-of-two table sizes\<close>

section \<open>Runs in the option monad\<close>

definition succeeds :: "'a option \<Rightarrow> ('a \<Rightarrow> bool) \<Rightarrow> bool" where
  "succeeds m Q \<longleftrightarrow> (case m of None \<Rightarrow> False | Some x \<Rightarrow> Q x)"

lemma succeeds_Some [simp, run_simps]: "succeeds (Some x) Q = Q x"
  by (simp add: succeeds_def)

lemma succeeds_None [simp, run_simps]: "succeeds None Q = False"
  by (simp add: succeeds_def)

lemma succeeds_bind [run_simps]:
  "succeeds (m \<bind> f) Q = succeeds m (\<lambda>x. succeeds (f x) Q)"
  by (cases m) simp_all

lemma succeeds_iff: "succeeds m Q \<longleftrightarrow> (\<exists>x. m = Some x \<and> Q x)"
  by (cases m) simp_all

lemma succeeds_mono: "succeeds m Q \<Longrightarrow> (\<And>x. Q x \<Longrightarrow> R x) \<Longrightarrow> succeeds m R"
  by (cases m) simp_all

lemma succeeds_seq:
  "succeeds m Q \<Longrightarrow> (\<And>x. Q x \<Longrightarrow> succeeds (f x) R) \<Longrightarrow> succeeds (m \<bind> f) R"
  by (cases m) simp_all

lemma succeeds_seqP:
  "succeeds m (\<lambda>(x, s). Q x s) \<Longrightarrow> (\<And>x s. Q x s \<Longrightarrow> succeeds (f (x, s)) R)
   \<Longrightarrow> succeeds (m \<bind> f) R"
  by (cases m) (auto split: prod.splits)

lemma succeedsD: "succeeds m Q \<Longrightarrow> m = Some x \<Longrightarrow> Q x"
  by simp

definition guard_opt :: "bool \<Rightarrow> unit option" where
  "guard_opt b = (if b then Some () else None)"

lemma guard_opt_simps [simp]: "guard_opt True = Some ()" "guard_opt False = None"
  by (simp_all add: guard_opt_def)

lemma guard_opt_Some [simp]: "guard_opt b = Some u \<longleftrightarrow> b"
  by (simp add: guard_opt_def)

section \<open>Powers of two and masks\<close>

definition is_pow2 :: "nat \<Rightarrow> bool" where
  "is_pow2 n \<longleftrightarrow> (\<exists>k. n = 2 ^ k)"

lemma is_pow2_pos [dest]: "is_pow2 n \<Longrightarrow> 0 < n"
  by (auto simp: is_pow2_def)

lemma is_pow2_power [simp]: "is_pow2 (2 ^ k)"
  by (auto simp: is_pow2_def)

lemma is_pow2_double: "is_pow2 n \<Longrightarrow> is_pow2 (n * 2)"
  unfolding is_pow2_def by (metis mult.commute power_Suc)

text \<open>\<open>mask_index h n\<close> is C's \<open>h & (n - 1)\<close> on a 64-bit hash and a table size \<open>n\<close>.\<close>

definition mask_index :: "64 word \<Rightarrow> nat \<Rightarrow> nat" where
  "mask_index h n = unat (h AND (word_of_nat n - 1))"

lemma mask_index_pow2:
  assumes "is_pow2 n" "n \<le> 2 ^ 63"
  shows "mask_index h n = unat h mod n"
proof -
  obtain k where n: "n = 2 ^ k" using assms(1) by (auto simp: is_pow2_def)
  have "(2::nat) ^ k \<le> 2 ^ 63" using assms(2) n by simp
  then have k: "k \<le> 63" by (rule power_le_imp_le_exp[rotated]) simp
  have "word_of_nat n - 1 = (mask k :: 64 word)"
    using n by (simp add: mask_eq_decr_exp)
  then have "h AND (word_of_nat n - 1) = take_bit k h"
    by (simp add: take_bit_eq_mask)
  moreover have "unat (take_bit k h) = unat h mod 2 ^ k"
    by (simp only: unsigned_take_bit_eq) (simp only: take_bit_eq_mod)
  ultimately show ?thesis using n by (simp add: mask_index_def)
qed

lemma mask_index_less [pow2_simps]: "is_pow2 n \<Longrightarrow> n \<le> 2 ^ 63 \<Longrightarrow> mask_index h n < n"
  by (simp add: mask_index_pow2 is_pow2_pos)

section \<open>XOR folds\<close>

definition xor_fold :: "('a \<Rightarrow> 64 word) \<Rightarrow> 'a list \<Rightarrow> 64 word" where
  "xor_fold f xs = fold (\<lambda>x h. h XOR f x) xs 0"

lemma xor_fold_mset:
  assumes "mset xs = mset ys"
  shows "xor_fold f xs = xor_fold f ys"
  unfolding xor_fold_def
  by (rule fun_cong[OF fold_multiset_equiv[OF _ assms]]) (simp add: fun_eq_iff ac_simps)

lemma xor_fold_map: "xor_fold f (map g xs) = xor_fold (f \<circ> g) xs"
  by (simp add: xor_fold_def fold_map comp_def)

section \<open>Bucket arrays\<close>

text \<open>A bucket array is a list of chains; \<open>concat\<close> visits it the way the C loops do.\<close>

lemma mset_nth_subset_concat: "i < length bs \<Longrightarrow> mset (bs ! i) \<subseteq># mset (concat bs)"
proof (induction bs arbitrary: i)
  case (Cons c bs)
  show ?case
  proof (cases i)
    case (Suc j)
    then have "mset (bs ! j) \<subseteq># mset (concat bs)" using Cons by simp
    then show ?thesis using Suc
      by (metis concat.simps(2) mset_append mset_subset_eq_add_right nth_Cons_Suc
          subset_mset.order_trans)
  qed simp
qed simp

lemma mset_concat_update:
  assumes "i < length bs"
  shows "mset (concat (bs[i := b])) = mset (concat bs) - mset (bs ! i) + mset b"
  using assms
proof (induction bs arbitrary: i)
  case (Cons c bs)
  show ?case
  proof (cases i)
    case (Suc j)
    then have j: "j < length bs" using Cons.prems by simp
    obtain D where D: "mset (concat bs) = mset (bs ! j) + D"
      using mset_nth_subset_concat[OF j] by (auto simp: subset_mset.le_iff_add)
    show ?thesis using Suc Cons.IH[OF j] by (simp add: D union_assoc)
  qed simp
qed simp

lemma set_concat_nth: "x \<in> set (concat bs) \<longleftrightarrow> (\<exists>i<length bs. x \<in> set (bs ! i))"
proof -
  have "x \<in> set (concat bs) \<longleftrightarrow> (\<exists>b\<in>set bs. x \<in> set b)" by simp
  also have "\<dots> \<longleftrightarrow> (\<exists>i<length bs. x \<in> set (bs ! i))" by (metis in_set_conv_nth)
  finally show ?thesis .
qed

lemma concat_replicate_Nil [simp]: "concat (replicate n []) = []"
  by (induction n) simp_all

end
