(* ===== verification/MTPNDD_State.thy ===== *)
theory MTPNDD_State
  imports Complex_Main MTPNDD_Prelude
begin

text \<open>
  The data of the library (\<open>mtpndd_common.h\<close>, \<open>mtpndd_node.h\<close>, \<open>mtpndd_nodetable.h\<close>,
  \<open>mtpndd_leaf_table.h\<close>, \<open>mtpndd_operation_cache.h\<close>, and the pool structures of
  \<open>mtpndd_memory_pool.c\<close>): one record per struct, one datatype per enum, and the record
  \<open>mstate\<close> of every global variable.  Addresses are natural numbers, \<open>NULL\<close> is 0, a linked
  chain is a list, the union of \<open>struct mtpndd_node_s\<close> is the datatype \<open>node_body\<close>.  An edge
  map that belongs to a node is stored in that node; one that is being built is owned by the
  call that builds it and is passed by value.  The Sylvan package is the record \<open>sylvan\<close>.
\<close>

type_synonym ptr = nat
type_synonym bdd = "64 word"

section \<open>Errors\<close>

datatype mtpndd_error =
    MTPNDD_SUCCESS
  | MTPNDD_ERROR_INVALID_PARAM
  | MTPNDD_ERROR_INITIALIZE_FAILED
  | MTPNDD_ERROR_NOT_INITIALIZED
  | MTPNDD_ERROR_IS_INITIALIZED
  | MTPNDD_ERROR_OUT_OF_MEMORY
  | MTPNDD_ERROR_INVALID_FIELD
  | MTPNDD_ERROR_NULL_POINTER
  | MTPNDD_ERROR_PARALLEL_INIT
  | MTPNDD_ERROR_BDD_OPERATION
  | MTPNDD_ERROR_UNKNOWN

fun error_code :: "mtpndd_error \<Rightarrow> int" where
  "error_code MTPNDD_SUCCESS = 0"
| "error_code MTPNDD_ERROR_INVALID_PARAM = 1"
| "error_code MTPNDD_ERROR_INITIALIZE_FAILED = 2"
| "error_code MTPNDD_ERROR_NOT_INITIALIZED = 3"
| "error_code MTPNDD_ERROR_IS_INITIALIZED = 4"
| "error_code MTPNDD_ERROR_OUT_OF_MEMORY = 5"
| "error_code MTPNDD_ERROR_INVALID_FIELD = 6"
| "error_code MTPNDD_ERROR_NULL_POINTER = 7"
| "error_code MTPNDD_ERROR_PARALLEL_INIT = 8"
| "error_code MTPNDD_ERROR_BDD_OPERATION = 9"
| "error_code MTPNDD_ERROR_UNKNOWN = 10"

text \<open>C compares enumerators as integers; the library's linear order does the same.\<close>

instantiation mtpndd_error :: linorder
begin

definition less_eq_mtpndd_error :: "mtpndd_error \<Rightarrow> mtpndd_error \<Rightarrow> bool" where
  "less_eq_mtpndd_error a b \<longleftrightarrow> error_code a \<le> error_code b"

definition less_mtpndd_error :: "mtpndd_error \<Rightarrow> mtpndd_error \<Rightarrow> bool" where
  "less_mtpndd_error a b \<longleftrightarrow> error_code a < error_code b"

lemma error_code_inj: "error_code a = error_code b \<Longrightarrow> a = b"
  by (cases a; cases b) simp_all

instance
  by standard
    (auto simp: less_eq_mtpndd_error_def less_mtpndd_error_def intro: error_code_inj)

end

definition mtpndd_error_messages :: "string list" where
  "mtpndd_error_messages =
     [''Success'', ''Invalid parameter'', ''NDD system initialization failed'',
      ''NDD system not initialized'', ''NDD system already initialized'', ''Out of memory'',
      ''Invalid field ID'', ''Null pointer'', ''Parallel initialization failed'',
      ''BDD operation failed'', ''Unknown error'']"

definition mtpndd_error_string :: "int \<Rightarrow> string" where
  "mtpndd_error_string e =
     (if 0 \<le> e \<and> e \<le> error_code MTPNDD_ERROR_UNKNOWN then mtpndd_error_messages ! nat e
      else ''Invalid error code'')"

lemma error_messages:
  "mtpndd_error_string 1 = ''Invalid parameter''"
  "mtpndd_error_string 4 = ''NDD system already initialized''"
  by (simp_all add: mtpndd_error_string_def mtpndd_error_messages_def)

record error_info =
  ei_code :: mtpndd_error
  ei_message :: "string option"
  ei_function :: "string option"
  ei_line :: nat

section \<open>Hash and size helpers\<close>

definition mtpndd_hash_u64 :: "64 word \<Rightarrow> 64 word" where
  "mtpndd_hash_u64 key =
     (let v = key;
          v = v XOR drop_bit 33 v;
          v = v * 0xff51afd7ed558ccd;
          v = v XOR drop_bit 33 v;
          v = v * 0xc4ceb9fe1a85ec53;
          v = v XOR drop_bit 33 v
      in v)"

definition mtpndd_round_up_pow2 :: "64 word \<Rightarrow> 64 word" where
  "mtpndd_round_up_pow2 v =
     (if v = 0 then 1
      else let v = v - 1;
               v = v OR drop_bit 1 v;
               v = v OR drop_bit 2 v;
               v = v OR drop_bit 4 v;
               v = v OR drop_bit 8 v;
               v = v OR drop_bit 16 v;
               v = v OR drop_bit 32 v
           in v + 1)"

text \<open>The same on a size kept as a natural number below \<open>2 ^ 64\<close>.\<close>

definition round_up_pow2_nat :: "nat \<Rightarrow> nat" where
  "round_up_pow2_nat n = unat (mtpndd_round_up_pow2 (word_of_nat n))"

section \<open>Constants\<close>

definition MTPNDD_FRACTION_LEAF_FIELD_ID :: nat where
  "MTPNDD_FRACTION_LEAF_FIELD_ID = 0xFFFFFFFF"

definition MTPNDD_DOUBLE_LEAF_FIELD_ID :: nat where
  "MTPNDD_DOUBLE_LEAF_FIELD_ID = 0xFFFFFFFE"

definition MTPNDD_LEAF_FIELD_ID_MIN :: nat where
  "MTPNDD_LEAF_FIELD_ID_MIN = MTPNDD_DOUBLE_LEAF_FIELD_ID"

definition MTPNDD_DEFAULT_EDGE_BUCKET_COUNT :: nat where
  "MTPNDD_DEFAULT_EDGE_BUCKET_COUNT = 8"

definition MTPNDD_DEFAULT_NODETABLE_BUCKET_COUNT :: nat where
  "MTPNDD_DEFAULT_NODETABLE_BUCKET_COUNT = 1024"

definition MTPNDD_AND_PENDING_FLUSH_THRESHOLD :: nat where
  "MTPNDD_AND_PENDING_FLUSH_THRESHOLD = 256"

definition MTPNDD_SPAWN_THRESHOLD :: nat where
  "MTPNDD_SPAWN_THRESHOLD = 2"

text \<open>
  The two static leaves have fixed addresses; the linker chooses them, the model takes two
  distinct addresses below every address \<open>malloc\<close> returns.
\<close>

definition MTPNDD_TRUE :: ptr where "MTPNDD_TRUE = 16"
definition MTPNDD_FALSE :: ptr where "MTPNDD_FALSE = 32"

abbreviation (input) NULL :: ptr where "NULL \<equiv> 0"

section \<open>Nodes and edge maps\<close>

record edge_bucket_entry =
  ee_addr :: ptr
  ee_child :: ptr
  ee_label :: bdd

record mtpndd_edge =
  em_addr :: ptr
  edge_count :: nat
  cached_hash :: "64 word"
  buckets :: "edge_bucket_entry list list"
  bucket_count :: nat
  load_threshold :: nat
  buckets_malloced :: bool

datatype node_body = NEdges mtpndd_edge | NLeaf "64 word"

record mtpndd_node =
  ref_count :: "32 word"
  field_id :: nat
  body :: node_body

text \<open>The union word: the edge map's address in an internal node, the packed value in a leaf.\<close>

fun body_word :: "node_body \<Rightarrow> 64 word" where
  "body_word (NEdges m) = word_of_nat (em_addr m)"
| "body_word (NLeaf v) = v"

definition node_hash :: "mtpndd_node \<Rightarrow> 64 word" where
  "node_hash nd =
     (let h = (1469598103934665603 :: 64 word);
          h = h XOR word_of_nat (field_id nd);
          h = h * 1099511628211;
          h = h XOR body_word (body nd);
          h = h * 1099511628211
      in h)"

section \<open>Tables, caches, pools\<close>

record nodetable_bucket_entry =
  nte_addr :: ptr
  nte_edges :: mtpndd_edge
  nte_node :: ptr
  nte_hash :: "64 word"

record mtpndd_nodetable =
  nodetable_bucket_count :: nat
  nt_buckets :: "nodetable_bucket_entry list list"
  nt_entry_count :: nat
  nt_load_threshold :: nat
  nt_bucket_lock_count :: nat

record leaf_bucket_entry =
  le_value :: "64 word"
  le_node :: ptr
  le_marked :: bool

record mtpndd_leaf_table =
  lt_bucket_count :: nat
  lt_buckets :: "leaf_bucket_entry list list"
  lt_entry_count :: nat
  lt_bucket_lock_count :: nat

record op_cache_entry =
  oc_op0 :: ptr
  oc_op1 :: ptr
  oc_result :: ptr

record mtpndd_op_cache =
  oc_entries :: "op_cache_entry list"
  oc_capacity :: nat
  oc_mask :: "64 word"
  oc_arity :: nat

record slab_local =
  sl_free_list :: "ptr list"
  sl_count :: nat
  sl_in_use :: nat

record slab_pool =
  object_size :: nat
  objects_per_slab :: nat
  free_list :: "ptr list"
  blocks :: "ptr list"
  slab_count :: nat
  in_use_global :: nat
  refill_batch :: nat
  local_max :: nat
  lock_initialized :: bool
  locals :: "slab_local list"

text \<open>
  The C heap behind \<open>malloc\<close>: addresses are handed out upwards and never reused, and a
  request that does not fit below the limit returns \<open>NULL\<close>.  \<open>mem_failed\<close> records, for the
  statements only, that a request has failed; no operation reads it.
\<close>

record c_heap =
  brk :: nat
  mem_limit :: nat
  mem_failed :: bool

definition c_malloc :: "nat \<Rightarrow> c_heap \<Rightarrow> ptr \<times> c_heap" where
  "c_malloc n h =
     (if brk h + n \<le> mem_limit h then (brk h, h\<lparr>brk := brk h + n\<rparr>) else (NULL, h\<lparr>mem_failed := True\<rparr>))"

record temp_ref_pool =
  tr_items :: "ptr list"
  tr_capacity :: nat
  tr_inline :: bool

record pal_config =
  n_workers :: int
  lace_dqsize :: nat
  bdd_nodetable_size :: nat
  mtpndd_nodetable_size :: nat
  op_cache_size :: nat
  quick_growth_threshold :: rat
  edge_bucket_count :: nat
  nodetable_bucket_count_cfg :: nat
  node_slab_capacity :: nat
  edge_entry_slab_capacity :: nat
  nodetable_entry_slab_capacity :: nat
  edge_map_slab_capacity :: nat

record field_info =
  fi_field_id :: nat
  fi_bit_width :: nat
  fi_start_var :: nat
  fi_bdd_vars :: "bdd list"
  fi_bdd_not_vars :: "bdd list"
  fi_mtpndd_vars :: "ptr list"
  fi_mtpndd_not_vars :: "ptr list"

section \<open>The Sylvan package\<close>

text \<open>
  Sylvan is a git submodule, not part of the repository: its functions are the fields of a
  record every operation takes.  Calls that only change Sylvan's own bookkeeping
  (references, garbage collection) are recorded in a log of the state.
\<close>

record sylvan =
  sylvan_false :: bdd
  sylvan_true :: bdd
  sylvan_and :: "bdd \<Rightarrow> bdd \<Rightarrow> bdd"
  sylvan_or :: "bdd \<Rightarrow> bdd \<Rightarrow> bdd"
  sylvan_not :: "bdd \<Rightarrow> bdd"
  sylvan_ithvar :: "nat \<Rightarrow> bdd"

datatype syl_event =
  SylRef bdd | SylDeref bdd | SylProtect bdd | SylUnprotect bdd | SylGC
  | SylSizes nat nat nat nat | SylInit | SylHooks | SylQuit

section \<open>Global state\<close>

record mstate =
  c_heap_of :: c_heap
  g_node_pool :: slab_pool
  g_edge_entry_pool :: slab_pool
  g_nodetable_entry_pool :: slab_pool
  g_edge_map_pool :: slab_pool
  g_edge_bucket_count :: nat
  cur_worker :: int
  lace_workers :: nat
  nodes :: "ptr \<rightharpoonup> mtpndd_node"
  g_pal_config :: pal_config
  g_node_count :: nat
  field_count :: nat
  node_tables_by_field :: "nat \<rightharpoonup> mtpndd_nodetable"
  and_cache :: "mtpndd_op_cache option"
  or_cache :: "mtpndd_op_cache option"
  not_cache :: "mtpndd_op_cache option"
  leaf_table :: "mtpndd_leaf_table option"
  double_leaf_table :: "mtpndd_leaf_table option"
  temp_refs_pool :: temp_ref_pool
  temp_ref_pool_count :: nat
  gc_running :: bool
  gc_prehooks :: "nat list"
  gc_posthooks :: "nat list"
  hook_log :: "nat list"
  two_phase_threshold :: int
  last_error :: error_info
  syl_log :: "syl_event list"
  pending_field_bit_widths :: "nat list"
  pending_field_count :: nat
  pending_field_capacity :: nat
  field_capacity :: nat
  max_bit_width :: nat
  fields_generated :: bool
  shared_bdd_vars :: "bdd list"
  shared_bdd_not_vars :: "bdd list"
  field_infos :: "nat \<rightharpoonup> field_info"

definition sylvan_ref :: "bdd \<Rightarrow> mstate \<Rightarrow> mstate" where
  "sylvan_ref l s = s\<lparr>syl_log := SylRef l # syl_log s\<rparr>"

definition sylvan_deref :: "bdd \<Rightarrow> mstate \<Rightarrow> mstate" where
  "sylvan_deref l s = s\<lparr>syl_log := SylDeref l # syl_log s\<rparr>"

definition sylvan_gc :: "mstate \<Rightarrow> mstate" where
  "sylvan_gc s = s\<lparr>syl_log := SylGC # syl_log s\<rparr>"

definition mtpndd_set_error :: "mtpndd_error \<Rightarrow> string \<Rightarrow> nat \<Rightarrow> mstate \<Rightarrow> mstate" where
  "mtpndd_set_error e fn line s =
     s\<lparr>last_error := \<lparr>ei_code = e, ei_message = Some (mtpndd_error_string (error_code e)),
                      ei_function = Some fn, ei_line = line\<rparr>\<rparr>"

definition mtpndd_clear_error :: "mstate \<Rightarrow> mstate" where
  "mtpndd_clear_error s =
     s\<lparr>last_error := \<lparr>ei_code = MTPNDD_SUCCESS, ei_message = None,
                      ei_function = None, ei_line = 0\<rparr>\<rparr>"

definition mtpndd_get_last_error :: "mstate \<Rightarrow> error_info" where
  "mtpndd_get_last_error s = last_error s"

definition malloc :: "nat \<Rightarrow> mstate \<Rightarrow> ptr \<times> mstate" where
  "malloc n s = (let (p, h) = c_malloc n (c_heap_of s) in (p, s\<lparr>c_heap_of := h\<rparr>))"

text \<open>Reads through a node pointer; \<open>None\<close> is a read through an address with no node.\<close>

definition mtpndd_hash_node_identity :: "mstate \<Rightarrow> ptr \<Rightarrow> 64 word option" where
  "mtpndd_hash_node_identity s p =
     (if p = NULL then Some 0 else map_option node_hash (nodes s p))"

definition mtpndd_is_terminal :: "mstate \<Rightarrow> ptr \<Rightarrow> bool option" where
  "mtpndd_is_terminal s p =
     map_option (\<lambda>nd. MTPNDD_LEAF_FIELD_ID_MIN \<le> field_id nd) (nodes s p)"

definition mtpndd_is_true :: "ptr \<Rightarrow> bool" where
  "mtpndd_is_true p \<longleftrightarrow> p = MTPNDD_TRUE"

definition mtpndd_is_false :: "ptr \<Rightarrow> bool" where
  "mtpndd_is_false p \<longleftrightarrow> p = MTPNDD_FALSE"

text \<open>\<open>node->edges\<close> followed; the union word of a leaf is not the address of an edge map.\<close>

definition node_edges :: "mstate \<Rightarrow> ptr \<Rightarrow> mtpndd_edge option" where
  "node_edges s p =
     (case nodes s p of
        None \<Rightarrow> None
      | Some nd \<Rightarrow> (case body nd of NEdges m \<Rightarrow> Some m | NLeaf v \<Rightarrow> None))"

text \<open>\<open>node->edges ? node->edges->edge_count : 0\<close>\<close>

definition node_edge_count :: "mstate \<Rightarrow> ptr \<Rightarrow> nat option" where
  "node_edge_count s p =
     (case nodes s p of
        None \<Rightarrow> None
      | Some nd \<Rightarrow> (case body nd of
                     NEdges m \<Rightarrow> Some (edge_count m)
                   | NLeaf v \<Rightarrow> if v = 0 then Some 0 else None))"

definition node_field :: "mstate \<Rightarrow> ptr \<Rightarrow> nat option" where
  "node_field s p = map_option field_id (nodes s p)"

lemmas log_defs = sylvan_ref_def sylvan_deref_def sylvan_gc_def mtpndd_set_error_def

section \<open>Facts on the size helper\<close>

lemma smear_bit:
  fixes v :: "64 word"
  assumes "\<And>i. bit w i \<longleftrightarrow> (\<exists>j<n. bit v (i + j))"
  shows "bit (w OR drop_bit n w) i \<longleftrightarrow> (\<exists>j<n + n. bit v (i + j))"
proof
  assume "bit (w OR drop_bit n w) i"
  then have "(\<exists>j<n. bit v (i + j)) \<or> (\<exists>j<n. bit v (n + i + j))"
    by (simp add: bit_or_iff bit_drop_bit_eq assms)
  then show "\<exists>j<n + n. bit v (i + j)"
    by (metis add.assoc add.commute nat_add_left_cancel_less trans_less_add1)
next
  assume "\<exists>j<n + n. bit v (i + j)"
  then obtain j where j: "j < n + n" "bit v (i + j)" by blast
  show "bit (w OR drop_bit n w) i"
  proof (cases "j < n")
    case True
    then show ?thesis using j by (auto simp: bit_or_iff assms)
  next
    case False
    then have "bit v (n + i + (j - n))" "j - n < n" using j by (simp_all add: ac_simps)
    then show ?thesis by (auto simp: bit_or_iff bit_drop_bit_eq assms)
  qed
qed

definition smear :: "64 word \<Rightarrow> 64 word" where
  "smear v =
     (let v = v OR drop_bit 1 v; v = v OR drop_bit 2 v; v = v OR drop_bit 4 v;
          v = v OR drop_bit 8 v; v = v OR drop_bit 16 v; v = v OR drop_bit 32 v in v)"

lemma bit_smear: "bit (smear v) i \<longleftrightarrow> (\<exists>j<64. bit v (i + j))"
proof -
  let ?v1 = "v OR drop_bit 1 v" let ?v2 = "?v1 OR drop_bit 2 ?v1"
  let ?v4 = "?v2 OR drop_bit 4 ?v2" let ?v8 = "?v4 OR drop_bit 8 ?v4"
  let ?v16 = "?v8 OR drop_bit 16 ?v8"
  have 1: "bit ?v1 i \<longleftrightarrow> (\<exists>j<2. bit v (i + j))" for i
    using smear_bit[of v 1 v i] by (simp add: less_Suc_eq numeral_2_eq_2)
  have 2: "bit ?v2 i \<longleftrightarrow> (\<exists>j<4. bit v (i + j))" for i using smear_bit[OF 1, of i] by simp
  have 3: "bit ?v4 i \<longleftrightarrow> (\<exists>j<8. bit v (i + j))" for i using smear_bit[OF 2, of i] by simp
  have 4: "bit ?v8 i \<longleftrightarrow> (\<exists>j<16. bit v (i + j))" for i using smear_bit[OF 3, of i] by simp
  have 5: "bit ?v16 i \<longleftrightarrow> (\<exists>j<32. bit v (i + j))" for i using smear_bit[OF 4, of i] by simp
  show ?thesis using smear_bit[OF 5, of i] by (simp add: smear_def Let_def)
qed

text \<open>Smearing fills every position below the top bit.\<close>

lemma smear_eq_mask:
  fixes v :: "64 word"
  assumes "unat v < 2 ^ k" "k \<le> 64" "k = 0 \<or> 2 ^ (k - 1) \<le> unat v"
  shows "smear v = mask k"
proof (rule bit_eqI)
  fix i assume i: "possible_bit TYPE(64 word) i"
  have lt: "\<not> bit v n" if "k \<le> n" for n
  proof -
    have "bit v n = bit (unat v) n" by (simp add: bit_unsigned_iff)
    moreover have "unat v < 2 ^ n"
      by (rule less_le_trans[OF assms(1) power_increasing[OF that]]) simp
    ultimately show ?thesis by (simp add: bit_iff_odd)
  qed
  show "bit (smear v) i = bit (mask k :: 64 word) i"
  proof (cases "i < k")
    case True
    then have "k \<noteq> 0" by simp
    then have "2 ^ (k - 1) \<le> unat v" "unat v < 2 ^ Suc (k - 1)" using assms by simp_all
    then have "bit (unat v) (k - 1)"
      by (simp add: bit_iff_odd) (metis One_nat_def div_nat_eqI even_Suc even_zero
          mult.commute mult.left_neutral mult_2 plus_1_eq_Suc power_Suc)
    then have "bit v (i + (k - 1 - i))" using True by (simp add: bit_unsigned_iff)
    moreover have "k - 1 - i < 64" using assms(2) True by simp
    ultimately have "bit (smear v) i" unfolding bit_smear by blast
    then show ?thesis using True i by (simp add: bit_mask_iff)
  next
    case False
    then have "\<not> bit (smear v) i" unfolding bit_smear using lt by simp
    then show ?thesis using False by (simp add: bit_mask_iff)
  qed
qed

lemma round_up_pow2_smear: "v \<noteq> 0 \<Longrightarrow> mtpndd_round_up_pow2 v = smear (v - 1) + 1"
  by (simp add: mtpndd_round_up_pow2_def smear_def Let_def)

text \<open>The least power of two above the request, whenever it fits in 64 bits.\<close>

lemma round_up_pow2_nat_eq:
  assumes "0 < n" "n \<le> 2 ^ k" "k \<le> 63" "k = 0 \<or> 2 ^ (k - 1) < n"
  shows "round_up_pow2_nat n = 2 ^ k"
proof -
  have p63: "(2::nat) ^ k \<le> 2 ^ 63" using power_increasing[OF assms(3), of "2::nat"] by simp
  then have n: "n < 2 ^ 64" using assms(2) by simp
  then have u: "unat (word_of_nat n :: 64 word) = n" by (simp add: unat_of_nat)
  with assms(1) have nz: "word_of_nat n \<noteq> (0 :: 64 word)" by (metis less_irrefl unat_0)
  then have u1: "unat (word_of_nat n - 1 :: 64 word) = n - 1"
    using u by (metis unat_minus_one)
  have "smear (word_of_nat n - 1) = mask k"
    by (rule smear_eq_mask) (use assms u1 in auto)
  then have "mtpndd_round_up_pow2 (word_of_nat n) = 2 ^ k"
    using round_up_pow2_smear[OF nz] by (simp add: mask_eq_decr_exp)
  moreover have "unat (2 ^ k :: 64 word) = 2 ^ k"
    using unat_of_nat[of "2 ^ k", where 'a = 64] le_less_trans[OF p63, of "2 ^ 64"]
    by simp
  ultimately show ?thesis by (simp add: round_up_pow2_nat_def)
qed

lemma round_up_pow2_nat_0 [simp]: "round_up_pow2_nat 0 = 1"
  by (simp add: round_up_pow2_nat_def mtpndd_round_up_pow2_def)

lemma round_up_pow2_nat_pow2 [pow2_simps]:
  assumes "is_pow2 n" "n \<le> 2 ^ 63"
  shows "round_up_pow2_nat n = n"
proof -
  obtain k where n: "n = 2 ^ k" using assms(1) by (auto simp: is_pow2_def)
  have "(2::nat) ^ k \<le> 2 ^ 63" using assms(2) n by simp
  then have "k \<le> 63" by (rule power_le_imp_le_exp[rotated]) simp
  then show ?thesis using n by (intro trans[OF round_up_pow2_nat_eq[of n k]]) auto
qed

lemma pow2_above:
  assumes "0 < (n :: nat)"
  shows "\<exists>k. n \<le> 2 ^ k \<and> (k = 0 \<or> 2 ^ (k - 1) < n)"
proof -
  define k where "k = (LEAST k. n \<le> 2 ^ k)"
  have le: "n \<le> 2 ^ k"
    unfolding k_def by (rule LeastI[of _ n], rule less_imp_le, rule less_exp)
  have "2 ^ (k - 1) < n" if "k \<noteq> 0"
  proof (rule ccontr)
    assume "\<not> 2 ^ (k - 1) < n"
    then have "n \<le> 2 ^ (k - 1)" by simp
    from Least_le[where P = "\<lambda>k. n \<le> 2 ^ k", OF this] have "k \<le> k - 1"
      unfolding k_def[symmetric] .
    then show False using that by linarith
  qed
  then show ?thesis using le by (intro exI[of _ k]) auto
qed

text \<open>
  C39. \<open>mtpndd_round_up_pow2\<close> returns a power of two that is at least the request and less than
  twice the request, for every request from 1 to \<open>2 ^ 63\<close>.
\<close>

theorem round_up_pow2_least:
  assumes "0 < n" "n \<le> 2 ^ 63"
  shows "is_pow2 (round_up_pow2_nat n) \<and> n \<le> round_up_pow2_nat n
         \<and> round_up_pow2_nat n < 2 * n \<and> round_up_pow2_nat n \<le> 2 ^ 63"
proof -
  obtain k where k: "n \<le> 2 ^ k" "k = 0 \<or> 2 ^ (k - 1) < n" using pow2_above[OF assms(1)] by blast
  have k63: "k \<le> 63"
  proof (rule ccontr)
    assume "\<not> k \<le> 63"
    then have "(2::nat) ^ 63 \<le> 2 ^ (k - 1)" by (intro power_increasing) auto
    then show False using k \<open>\<not> k \<le> 63\<close> assms(2) by auto
  qed
  then have eq: "round_up_pow2_nat n = 2 ^ k" using round_up_pow2_nat_eq assms k by blast
  have "2 ^ k < 2 * n"
    using k(2) assms(1) by (cases k) auto
  moreover have "(2::nat) ^ k \<le> 2 ^ 63" using power_increasing[OF k63, of "2::nat"] by simp
  ultimately show ?thesis using eq k(1) by simp
qed

theorem round_up_pow2_least_witness:
  "is_pow2 (round_up_pow2_nat 1000) \<and> 1000 \<le> round_up_pow2_nat 1000
   \<and> round_up_pow2_nat 1000 < 2 * 1000 \<and> round_up_pow2_nat 1000 \<le> 2 ^ 63"
  by (rule round_up_pow2_least) simp_all

end
