(* ===== verification/Leaf_Value.thy ===== *)
theory Leaf_Value
  imports MTPNDD_State
begin

text \<open>
  The values of terminal nodes (\<open>mtpndd_leaf.h\<close>, \<open>mtpndd_leaf.c\<close> and the fraction helpers of
  \<open>mtpndd_arith.c\<close>): a fraction packs a 32-bit numerator and a 32-bit denominator into one
  64-bit word.  An \<open>int32_t\<close> or \<open>int64_t\<close> is an integer, with the conversions of the source
  written out; a signed overflow, which C leaves undefined, is \<open>None\<close>.
\<close>

section \<open>Integer conversions\<close>

definition INT32_MAX :: int where "INT32_MAX = 2 ^ 31 - 1"
definition INT32_MIN :: int where "INT32_MIN = - (2 ^ 31)"

definition is_i32 :: "int \<Rightarrow> bool" where "is_i32 n \<longleftrightarrow> INT32_MIN \<le> n \<and> n \<le> INT32_MAX"
definition is_i64 :: "int \<Rightarrow> bool" where "is_i64 n \<longleftrightarrow> - (2 ^ 63) \<le> n \<and> n < 2 ^ 63"

text \<open>\<open>(int32_t)x\<close> and \<open>(uint32_t)x\<close>\<close>

definition to_i32 :: "int \<Rightarrow> int" where "to_i32 x = signed_take_bit 31 x"
definition to_u32 :: "int \<Rightarrow> int" where "to_u32 x = take_bit 32 x"

section \<open>Packing\<close>

definition mtpndd_pack_fraction :: "int \<Rightarrow> int \<Rightarrow> 64 word" where
  "mtpndd_pack_fraction numer denom =
     push_bit 32 (word_of_int (to_u32 numer)) OR word_of_int (to_u32 denom)"

definition mtpndd_unpack_numer :: "64 word \<Rightarrow> int" where
  "mtpndd_unpack_numer packed = to_i32 (to_u32 (uint (drop_bit 32 packed)))"

definition mtpndd_unpack_denom :: "64 word \<Rightarrow> int" where
  "mtpndd_unpack_denom packed = to_u32 (uint (packed AND 0xFFFFFFFF))"

section \<open>Normalisation\<close>

fun gcd_u32 :: "nat \<Rightarrow> nat \<Rightarrow> nat" where
  "gcd_u32 a b = (if b \<noteq> 0 then gcd_u32 b (a mod b) else a)"

text \<open>The common tail: divide by the gcd, check the numerator, put the sign back.\<close>

definition reduce_fraction :: "int \<Rightarrow> nat \<Rightarrow> (int \<times> int) option" where
  "reduce_fraction n ud =
     (let abs_n = nat \<bar>n\<bar>;
          g = gcd_u32 abs_n ud;
          abs_n = abs_n div g;
          ud = ud div g
      in if INT32_MAX < int abs_n then None
         else Some (if n < 0 then - int abs_n else int abs_n, int ud))"

text \<open>\<open>-x\<close> on an \<open>int32_t\<close>: the negation of \<open>INT32_MIN\<close> is not representable, hence undefined.\<close>

definition neg_i32 :: "int \<Rightarrow> int option" where
  "neg_i32 x = (if is_i32 (- x) then Some (- x) else None)"

text \<open>The outer \<open>None\<close> is an overflow; the inner \<open>None\<close> is the return value \<open>false\<close>.\<close>

definition normalize_fraction :: "int \<Rightarrow> int \<Rightarrow> (int \<times> int) option option" where
  "normalize_fraction n d =
     (if d = 0 then Some None
      else if d < 0 then
        if d = INT32_MIN then
          if n = INT32_MIN then Some None
          else do {
            n \<leftarrow> neg_i32 n;
            Some (if n = 0 then Some (0, 1) else reduce_fraction n (nat (INT32_MAX + 1)))
          }
        else if n = INT32_MIN then Some None
        else do {
          n \<leftarrow> neg_i32 n;
          d \<leftarrow> neg_i32 d;
          Some (if n = 0 then Some (0, 1) else reduce_fraction n (nat d))
        }
      else Some (if n = 0 then Some (0, 1) else reduce_fraction n (nat d)))"

fun gcd_u64 :: "nat \<Rightarrow> nat \<Rightarrow> nat" where
  "gcd_u64 a b = (if b \<noteq> 0 then gcd_u64 b (a mod b) else a)"

text \<open>
  The arithmetic of \<open>make_fraction_i64\<close>, up to the leaf it then looks up: a numerator of zero
  is the leaf \<open>MTPNDD_FALSE\<close>, otherwise the reduced pair that \<open>mtpndd_make_fraction\<close> is called
  with.  The outer \<open>None\<close> is the overflow of \<open>-n\<close> or \<open>-d\<close>.
\<close>

datatype i64_result = I64Invalid nat | I64Zero | I64Pair int int

definition fraction_i64 :: "int \<Rightarrow> int \<Rightarrow> i64_result option" where
  "fraction_i64 n d =
     (if d = 0 then Some (I64Invalid 105)
      else if n = 0 then Some I64Zero
      else if d < 0 \<and> (\<not> is_i64 (- n) \<or> \<not> is_i64 (- d)) then None
      else let (n, d) = (if d < 0 then (- n, - d) else (n, d))
           in if n < 0 \<and> \<not> is_i64 (- n) then None
              else let abs_n = nat \<bar>n\<bar>;
                       ud = nat d;
                       g = gcd_u64 abs_n ud;
                       abs_n = abs_n div g;
                       ud = ud div g
                   in if INT32_MAX < int abs_n \<or> INT32_MAX < int ud then Some (I64Invalid 123)
                      else Some (I64Pair (if n < 0 then - int abs_n else int abs_n) (int ud)))"

text \<open>The operands of the four leaf operations, in 64-bit arithmetic.\<close>

definition frac_add :: "int \<Rightarrow> int \<Rightarrow> int \<Rightarrow> int \<Rightarrow> int \<times> int" where
  "frac_add na da nb db = (na * db + nb * da, da * db)"

definition frac_sub :: "int \<Rightarrow> int \<Rightarrow> int \<Rightarrow> int \<Rightarrow> int \<times> int" where
  "frac_sub na da nb db = (na * db - nb * da, da * db)"

definition frac_mul :: "int \<Rightarrow> int \<Rightarrow> int \<Rightarrow> int \<Rightarrow> int \<times> int" where
  "frac_mul na da nb db = (na * nb, da * db)"

definition frac_div :: "int \<Rightarrow> int \<Rightarrow> int \<Rightarrow> int \<Rightarrow> int \<times> int" where
  "frac_div na da nb db = (na * db, da * nb)"

declare gcd_u32.simps [simp del] gcd_u64.simps [simp del]

section \<open>Properties\<close>

lemma gcd_u32_eq: "gcd_u32 a b = gcd a b"
  by (induction a b rule: gcd_u32.induct) (metis gcd_0_nat gcd_u32.simps gcd_red_nat)

lemma gcd_u64_eq: "gcd_u64 a b = gcd a b"
  by (induction a b rule: gcd_u64.induct) (metis gcd_0_nat gcd_u64.simps gcd_red_nat)

text \<open>A canonical fraction: positive denominator, lowest terms, numerator above \<open>INT32_MIN\<close>.\<close>

definition canonical_frac :: "int \<Rightarrow> int \<Rightarrow> bool" where
  "canonical_frac n d \<longleftrightarrow> 0 < d \<and> d \<le> 2 ^ 31 \<and> \<bar>n\<bar> \<le> INT32_MAX \<and> coprime n d"

definition frac_val :: "int \<Rightarrow> int \<Rightarrow> rat" where
  "frac_val n d = of_int n / of_int d"

lemma reduce_fraction_spec:
  assumes n: "n \<noteq> 0" "\<bar>n\<bar> \<le> 2 ^ 31" and d: "0 < d" "d \<le> 2 ^ 31"
  shows "case reduce_fraction n d of
           None \<Rightarrow> \<bar>n\<bar> = 2 ^ 31 \<and> coprime n (int d)
         | Some (n', d') \<Rightarrow> canonical_frac n' d' \<and> n * d' = n' * int d"
proof -
  define g where "g = gcd \<bar>n\<bar> (int d)"
  have g0: "0 < g" using n by (simp add: g_def)
  have gn: "gcd_u32 (nat \<bar>n\<bar>) d = nat g"
    unfolding gcd_u32_eq g_def by (metis gcd_int_int_eq abs_ge_zero int_nat_eq nat_int)
  define a where "a = \<bar>n\<bar> div g"
  define b where "b = int d div g"
  have na: "\<bar>n\<bar> = a * g" and db: "int d = b * g"
    unfolding a_def b_def g_def by (rule dvd_div_mult_self[symmetric], simp)+
  have cop: "coprime a b"
    unfolding a_def b_def g_def using n(1) div_gcd_coprime[of "\<bar>n\<bar>" "int d"] by simp
  have "0 < a * g" using n(1) na by linarith
  then have a0: "0 < a" using g0 zero_less_mult_pos2 by blast
  have b0: "0 < b" using db d(1) g0 by (metis of_nat_0_less_iff zero_less_mult_pos2)
  have na': "nat \<bar>n\<bar> div nat g = nat a" "d div nat g = nat b"
    using g0 by (simp_all add: a_def b_def nat_div_distrib)
  have bd: "b \<le> 2 ^ 31"
  proof -
    have "b * 1 \<le> b * g" using b0 g0 by (intro mult_left_mono) auto
    moreover have "int d \<le> 2 ^ 31" using d(2) by simp
    ultimately show ?thesis using db by linarith
  qed
  have an: "a \<le> 2 ^ 31" "a = 2 ^ 31 \<Longrightarrow> g = 1"
  proof -
    have le: "a * 1 \<le> a * g" using a0 g0 by (intro mult_left_mono) auto
    then show "a \<le> 2 ^ 31" using na n(2) by linarith
    assume a31: "a = 2 ^ 31"
    then have "2 ^ 31 * g \<le> 2 ^ 31 * 1" using na n(2) by simp
    then show "g = 1" using g0 by simp
  qed
  have red: "reduce_fraction n d = (if INT32_MAX < a then None else Some (if n < 0 then - a else a, b))"
    unfolding reduce_fraction_def Let_def gn na' using a0 b0 by simp
  show ?thesis
  proof (cases "INT32_MAX < a")
    case True
    then have "a = 2 ^ 31" using an(1) by (simp add: INT32_MAX_def)
    then have g1: "g = 1" and n31: "\<bar>n\<bar> = 2 ^ 31" using an(2) na by auto
    have "gcd n (int d) = g" unfolding g_def by simp
    then have "gcd n (int d) = 1" using g1 by simp
    then have "coprime n (int d)" by (simp only: coprime_iff_gcd_eq_1)
    then show ?thesis using red True n31 by simp
  next
    case False
    have "(if n < 0 then - a else a) * int d = n * b"
      using na db by (auto simp: abs_if split: if_splits)
    then show ?thesis using red False a0 b0 bd cop
      by (auto simp: canonical_frac_def)
  qed
qed

lemma is_i32_iff: "is_i32 k \<longleftrightarrow> - (2 ^ 31) \<le> k \<and> k \<le> 2 ^ 31 - 1"
  by (simp add: is_i32_def INT32_MIN_def INT32_MAX_def)

lemma frac_val_cross:
  assumes "k * d' = n' * e" "e \<noteq> 0" "d' \<noteq> 0"
  shows "frac_val n' d' = frac_val k e"
proof -
  have "of_int k * of_int d' = (of_int n' * of_int e :: rat)" using assms(1) by (metis of_int_mult)
  then show ?thesis using assms(2,3) by (simp add: frac_val_def field_simps)
qed

lemma frac_val_neg: "frac_val (- k) (- e) = frac_val k e" "frac_val (- k) e = - frac_val k e" "frac_val k (- e) = - frac_val k e"
  by (simp_all add: frac_val_def)

lemma int32_min_coprime: "coprime (- (2 ^ 31)) (d :: int) \<longleftrightarrow> odd d" "coprime INT32_MIN d \<longleftrightarrow> odd d"
proof -
  have "coprime ((2 :: int) ^ 31) d \<longleftrightarrow> odd d"
    by (simp only: coprime_power_left_iff coprime_left_2_iff_odd) simp
  then show "coprime (- (2 ^ 31)) d \<longleftrightarrow> odd d" "coprime INT32_MIN d \<longleftrightarrow> odd d"
    by (simp_all only: INT32_MIN_def coprime_minus_left_iff)
qed

text \<open>The division by the gcd, as a rational.\<close>

lemma reduce_fraction_val:
  assumes "k \<noteq> 0" "\<bar>k\<bar> \<le> 2 ^ 31" "0 < e" "e \<le> 2 ^ 31"
  shows "case reduce_fraction k (nat e) of
           None \<Rightarrow> \<bar>k\<bar> = 2 ^ 31 \<and> coprime k e
         | Some (n', d') \<Rightarrow> canonical_frac n' d' \<and> frac_val n' d' = frac_val k e"
proof -
  have "frac_val n' d' = frac_val k e" if "canonical_frac n' d'" "k * d' = n' * e" for n' d'
    using frac_val_cross[OF that(2)] that(1) assms(3) by (simp add: canonical_frac_def)
  then show ?thesis using reduce_fraction_spec[of k "nat e"] assms by (auto split: option.splits)
qed

text \<open>
  A numerator of \<open>INT32_MIN\<close> that is not in lowest terms loses a factor of two, so it fits.
\<close>

lemma reduce_fraction_fits:
  assumes "k \<noteq> 0" "\<bar>k\<bar> \<le> 2 ^ 31" "0 < e" "e \<le> 2 ^ 31" "\<bar>k\<bar> < 2 ^ 31 \<or> even e"
  shows "\<exists>n' d'. reduce_fraction k (nat e) = Some (n', d') \<and> canonical_frac n' d' \<and> frac_val n' d' = frac_val k e"
proof (cases "reduce_fraction k (nat e)")
  case None
  then have c: "\<bar>k\<bar> = 2 ^ 31" "coprime k e" using reduce_fraction_val[OF assms(1-4)] by simp_all
  then have "even e" using assms(5) by simp
  moreover have "even k" using c(1) by (metis dvd_abs_iff even_numeral even_power zero_less_numeral)
  ultimately show ?thesis using c(2) by (metis coprime_common_divisor odd_one)
next
  case (Some x)
  then show ?thesis using reduce_fraction_val[OF assms(1-4)] by (cases x) simp
qed

text \<open>
  The arguments for which \<open>normalize_fraction\<close> returns \<open>false\<close>: a zero denominator, and the
  numerator \<open>INT32_MIN\<close> over a negative or an odd denominator.
\<close>

definition no_canonical :: "int \<Rightarrow> int \<Rightarrow> bool" where
  "no_canonical n d \<longleftrightarrow> d = 0 \<or> n = INT32_MIN \<and> (d < 0 \<or> odd d)"

lemma normalize_fails:
  assumes "is_i32 d" "no_canonical n d"
  shows "normalize_fraction n d = Some None"
proof (cases "d \<le> 0")
  case True
  then show ?thesis using assms(2) by (auto simp: no_canonical_def normalize_fraction_def)
next
  case False
  then have n: "n = INT32_MIN" and d: "0 < d" "odd d" "d \<le> 2 ^ 31" using assms by (auto simp: no_canonical_def is_i32_iff)
  have "reduce_fraction n (nat d) = None"
  proof (cases "reduce_fraction n (nat d)")
    case (Some x)
    obtain n' d' where x: "x = (n', d')" by fastforce
    have r: "canonical_frac n' d'" "n * d' = n' * d"
      using reduce_fraction_spec[of n "nat d"] n d Some x by (auto simp: INT32_MIN_def)
    have "coprime n d" using n d(2) int32_min_coprime(2) by simp
    then have "\<bar>n\<bar> = \<bar>n'\<bar>"
      using r(1) coprime_crossproduct_int[of n d n' d'] arg_cong[OF r(2), of abs] d(1)
      by (simp add: canonical_frac_def abs_mult del: coprime_minus_left_iff)
    then show ?thesis using r(1) n by (simp add: canonical_frac_def INT32_MIN_def INT32_MAX_def)
  qed simp
  then show ?thesis using d n by (simp add: normalize_fraction_def INT32_MIN_def)
qed

lemma normalize_succeeds:
  assumes i: "is_i32 n" "is_i32 d" and "\<not> no_canonical n d"
  shows "\<exists>n' d'. normalize_fraction n d = Some (Some (n', d')) \<and> canonical_frac n' d' \<and> frac_val n' d' = frac_val n d"
proof -
  have zero: "canonical_frac 0 1 \<and> frac_val 0 1 = frac_val 0 d"
    by (simp add: canonical_frac_def frac_val_def INT32_MAX_def)
  have d: "d \<noteq> 0" and n: "n = INT32_MIN \<Longrightarrow> 0 < d \<and> even d" using assms(3) by (auto simp: no_canonical_def)
  have b: "\<bar>n\<bar> \<le> 2 ^ 31" "\<bar>d\<bar> \<le> 2 ^ 31" "n \<noteq> INT32_MIN \<Longrightarrow> \<bar>n\<bar> < 2 ^ 31" using i by (auto simp: is_i32_iff INT32_MIN_def)
  consider "n = 0" | "d < 0" "n \<noteq> 0" | "0 < d" "n \<noteq> 0" using d by linarith
  then show ?thesis
  proof cases
    case 1
    then show ?thesis using zero d i(2)
      by (auto simp: normalize_fraction_def neg_i32_def is_i32_iff INT32_MIN_def)
  next
    case 2
    have nm: "n \<noteq> INT32_MIN" using n 2(1) by auto
    have "normalize_fraction n d = Some (reduce_fraction (- n) (nat (- d)))"
      using 2 i nm by (auto simp: normalize_fraction_def neg_i32_def is_i32_iff INT32_MIN_def INT32_MAX_def)
    then show ?thesis
      using reduce_fraction_fits[of "- n" "- d"] 2 b(1,2) b(3)[OF nm] by (auto simp: frac_val_neg)
  next
    case 3
    have "normalize_fraction n d = Some (reduce_fraction n (nat d))" using 3 by (simp add: normalize_fraction_def)
    then show ?thesis using reduce_fraction_fits[of n d] 3 b n by auto
  qed
qed

text \<open>
  C37. \<open>normalize_fraction\<close> on 32-bit arguments never negates \<open>INT32_MIN\<close>.  It returns \<open>false\<close> exactly
  for a zero denominator and for the numerator \<open>INT32_MIN\<close> over a negative or an odd denominator;
  otherwise it returns the same rational in canonical form: positive denominator, lowest terms.
\<close>

theorem normalize_fraction_correct:
  assumes "is_i32 n" "is_i32 d"
  shows "\<exists>r. normalize_fraction n d = Some r
    \<and> (r = None \<longleftrightarrow> d = 0 \<or> n = INT32_MIN \<and> (d < 0 \<or> odd d))
    \<and> (\<forall>n' d'. r = Some (n', d') \<longrightarrow> canonical_frac n' d' \<and> frac_val n' d' = frac_val n d)"
proof (cases "no_canonical n d")
  case True
  then show ?thesis using normalize_fails[OF assms(2) True] by (simp add: no_canonical_def)
next
  case False
  then show ?thesis using normalize_succeeds[OF assms False] by (auto simp: no_canonical_def)
qed

theorem normalize_fraction_correct_witness:
  "normalize_fraction 6 (- 4) = Some (Some (- 3, 2)) \<and> canonical_frac (- 3) 2 \<and> frac_val (- 3) 2 = frac_val 6 (- 4)
   \<and> normalize_fraction INT32_MIN (- 4) = Some None \<and> normalize_fraction INT32_MIN 6 \<noteq> Some None"
proof -
  have e: "normalize_fraction 6 (- 4) = Some (Some (- 3, 2))" by code_simp
  have i: "is_i32 6" "is_i32 (- 4)" "is_i32 INT32_MIN" by (simp_all add: is_i32_def INT32_MIN_def INT32_MAX_def)
  show ?thesis
    using normalize_fraction_correct[OF i(1,2)] normalize_fraction_correct[OF i(3,2)] normalize_fraction_correct[OF i(3,1)]
    unfolding e by (auto simp: INT32_MIN_def)
qed

lemma to_u32_range: "0 \<le> to_u32 x \<and> to_u32 x < 2 ^ 32"
  unfolding to_u32_def using take_bit_int_less_exp[of 32 x] by simp

lemma to_i32_to_u32: "is_i32 n \<Longrightarrow> to_i32 (to_u32 n) = n"
proof -
  assume n: "is_i32 n"
  have "signed_take_bit 31 (take_bit 32 n) = signed_take_bit 31 n"
    by (rule signed_take_bit_take_bit[of 31 32, simplified]) 
  also have "\<dots> = n"
    using n signed_take_bit_int_eq_self[of 31 n] by (simp add: is_i32_def INT32_MIN_def INT32_MAX_def)
  finally show ?thesis by (simp add: to_i32_def to_u32_def)
qed

lemma pack_fraction_parts:
  assumes "is_i32 n" "0 \<le> d" "d < 2 ^ 32"
  shows "mtpndd_unpack_numer (mtpndd_pack_fraction n d) = n
         \<and> mtpndd_unpack_denom (mtpndd_pack_fraction n d) = d"
proof -
  let ?u = "to_u32 n" and ?p = "mtpndd_pack_fraction n d"
  have dd: "to_u32 d = d" using assms by (simp add: to_u32_def take_bit_int_eq_self)
  have low: "k < 32 \<and> k < 64" if "bit (to_u32 x) k" for x k
    using that by (simp add: to_u32_def bit_take_bit_iff)
  have m: "(0xFFFFFFFF :: 64 word) = mask 32" by (simp add: mask_eq_exp_minus_1)
  have "uint (drop_bit 32 ?p) = ?u"
    unfolding mtpndd_pack_fraction_def
    by (rule bit_eqI) (auto simp: bit_simps uint_word_of_int dest: low)
  moreover have "uint (?p AND 0xFFFFFFFF) = to_u32 d"
    unfolding mtpndd_pack_fraction_def m
    by (rule bit_eqI) (auto simp: bit_simps uint_word_of_int dest: low)
  ultimately show ?thesis
    using to_i32_to_u32[OF assms(1)] dd
    by (simp add: mtpndd_unpack_numer_def mtpndd_unpack_denom_def to_u32_def)
qed

lemmas pack_fraction_numer = pack_fraction_parts[THEN conjunct1]
lemmas pack_fraction_denom = pack_fraction_parts[THEN conjunct2]

text \<open>
  C38. Packing a 32-bit numerator and a 32-bit unsigned denominator into a leaf value and
  unpacking them gives them back.
\<close>

theorem pack_fraction_roundtrip:
  assumes "is_i32 n" "0 \<le> d" "d < 2 ^ 32"
  shows "mtpndd_unpack_numer (mtpndd_pack_fraction n d) = n
         \<and> mtpndd_unpack_denom (mtpndd_pack_fraction n d) = d"
  using pack_fraction_numer[OF assms] pack_fraction_denom[OF assms] by blast

theorem pack_fraction_roundtrip_witness:
  "mtpndd_unpack_numer (mtpndd_pack_fraction (- 7) 3) = - 7
   \<and> mtpndd_unpack_denom (mtpndd_pack_fraction (- 7) 3) = 3"
  by (rule pack_fraction_roundtrip) (simp_all add: is_i32_def INT32_MIN_def INT32_MAX_def)

text \<open>The leaf operations on canonical operands: what \<open>fraction_i64\<close> makes of them.\<close>

lemma canonical_unique:
  assumes "coprime n d" "coprime n' d'" "0 < d" "0 < d'" "frac_val n d = frac_val n' d'"
  shows "n = n' \<and> d = d'"
proof -
  have "of_int (n * d') = (of_int (n' * d) :: rat)"
    using assms(3-5) by (simp add: frac_val_def field_simps)
  then have eq: "n * d' = n' * d" by (simp only: of_int_eq_iff)
  then have "\<bar>n\<bar> * \<bar>d'\<bar> = \<bar>n'\<bar> * \<bar>d\<bar>" by (metis abs_mult)
  then have "d = d'" using coprime_crossproduct_int[OF assms(1,2)] assms(3,4) by simp
  then show ?thesis using eq assms(3) by simp
qed

lemma lowest_terms:
  assumes "n \<noteq> 0" "0 < (d :: int)"
  defines "g \<equiv> gcd_u64 (nat \<bar>n\<bar>) (nat d)"
  defines "a \<equiv> nat \<bar>n\<bar> div g" and "b \<equiv> nat d div g"
  defines "n' \<equiv> if n < 0 then - int a else int a"
  shows "0 < int b \<and> coprime n' (int b) \<and> frac_val n' (int b) = frac_val n d \<and> \<bar>n'\<bar> = int a"
proof -
  have g: "g = gcd (nat \<bar>n\<bar>) (nat d)" by (simp add: g_def gcd_u64_eq)
  have cop: "coprime a b" unfolding a_def b_def g using assms(1) by (intro div_gcd_coprime) simp
  have na: "nat \<bar>n\<bar> = a * g" and nb: "nat d = b * g"
    unfolding a_def b_def g by (rule dvd_div_mult_self[symmetric], rule gcd_dvd1 gcd_dvd2)+
  have g0: "0 < g" and b0: "0 < b" using nb assms(2) by (auto intro: Nat.gr0I)
  have ia: "\<bar>n\<bar> = int a * int g" and ib: "d = int b * int g"
    using na nb assms(2) by (metis abs_ge_zero int_nat_eq of_nat_mult less_imp_le)+
  have sgn: "n = n' * int g" using ia by (auto simp: n'_def)
  have "frac_val n' (int b) = frac_val n d"
    unfolding frac_val_def sgn ib using g0 by simp
  moreover have "coprime n' (int b)" using cop by (simp add: n'_def)
  ultimately show ?thesis using b0 by (simp add: n'_def)
qed

lemma fraction_i64_spec:
  assumes d: "d \<noteq> 0" and n: "\<bar>n\<bar> < 2 ^ 63" and dr: "\<bar>d\<bar> < 2 ^ 63"
  shows "\<exists>r. fraction_i64 n d = Some r \<and>
    (case r of
       I64Zero \<Rightarrow> n = 0
     | I64Pair n' d' \<Rightarrow> canonical_frac n' d' \<and> d' \<le> INT32_MAX \<and> frac_val n' d' = frac_val n d
     | I64Invalid l \<Rightarrow> l = 123 \<and> (\<forall>n' d'. canonical_frac n' d' \<longrightarrow> frac_val n' d' = frac_val n d
                           \<longrightarrow> INT32_MAX < d'))"
proof (cases "n = 0")
  case True
  then show ?thesis using d by (simp add: fraction_i64_def)
next
  case False
  define N where "N = (if d < 0 then - n else n)"
  define g where "g = gcd_u64 (nat \<bar>N\<bar>) (nat \<bar>d\<bar>)"
  define a where "a = nat \<bar>N\<bar> div g"
  define b where "b = nat \<bar>d\<bar> div g"
  define n' where "n' = (if N < 0 then - int a else int a)"
  have val: "frac_val N \<bar>d\<bar> = frac_val n d" by (simp add: N_def frac_val_def)
  have low: "0 < int b \<and> coprime n' (int b) \<and> frac_val n' (int b) = frac_val n d \<and> \<bar>n'\<bar> = int a"
    using lowest_terms[of N "\<bar>d\<bar>"] d False val
    by (simp add: N_def n'_def a_def b_def g_def split: if_splits)
  have i64: "is_i64 (- n)" "is_i64 (- d)" "is_i64 n" using n dr by (auto simp: is_i64_def)
  have eq: "fraction_i64 n d = (if INT32_MAX < int a \<or> INT32_MAX < int b then Some (I64Invalid 123)
      else Some (I64Pair n' (int b)))"
    using d False i64
    by (cases "d < 0") (simp_all add: fraction_i64_def Let_def N_def n'_def a_def b_def g_def)
  show ?thesis
  proof (cases "INT32_MAX < int a \<or> INT32_MAX < int b")
    case True
    have "INT32_MAX < d'" if "canonical_frac k d'" "frac_val k d' = frac_val n d" for k d'
      using canonical_unique[of k d' n' "int b"] that low True by (auto simp: canonical_frac_def)
    then show ?thesis using eq True by simp
  next
    case False
    then show ?thesis using eq low by (auto simp: canonical_frac_def INT32_MAX_def)
  qed
qed

lemma mult_bound:
  fixes x y :: int
  assumes "\<bar>x\<bar> \<le> a" "\<bar>y\<bar> \<le> b"
  shows "\<bar>x * y\<bar> \<le> a * b"
  unfolding abs_mult by (rule mult_mono) (use assms in auto)

text \<open>Even with a denominator of \<open>INT32_MIN\<close> the products and sums stay inside \<open>int64_t\<close>.\<close>

lemma frac_ops_bounds:
  assumes "\<bar>na\<bar> \<le> INT32_MAX" "\<bar>da\<bar> \<le> 2 ^ 31" "\<bar>nb\<bar> \<le> INT32_MAX" "\<bar>db\<bar> \<le> 2 ^ 31"
  shows "\<bar>na * db + nb * da\<bar> < 2 ^ 63" "\<bar>na * db - nb * da\<bar> < 2 ^ 63" "\<bar>na * nb\<bar> < 2 ^ 63"
    "\<bar>da * db\<bar> < 2 ^ 63" "\<bar>na * db\<bar> < 2 ^ 63" "\<bar>da * nb\<bar> < 2 ^ 63"
  using mult_bound[OF assms(1,4)] mult_bound[OF assms(3,2)] mult_bound[OF assms(1,3)] mult_bound[OF assms(2,4)]
    mult_bound[OF assms(2,3)]
  by (auto simp: INT32_MAX_def)

text \<open>The denominator of a canonical fraction, as \<open>mtpndd_get_denom\<close> reads it.\<close>

lemma to_i32_denom:
  assumes "0 < d" "d \<le> 2 ^ 31"
  shows "to_i32 d = (if d \<le> INT32_MAX then d else - d)"
proof (cases "d \<le> INT32_MAX")
  case True
  then show ?thesis using assms signed_take_bit_int_eq_self[of 31 d] by (simp add: to_i32_def INT32_MAX_def)
next
  case False
  then have "d = 2 ^ 31" using assms by (simp add: INT32_MAX_def)
  moreover have "to_i32 (2 ^ 31) = - (2 ^ 31)" by code_simp
  ultimately show ?thesis using False by simp
qed

definition frac_op_ok :: "int \<times> int \<Rightarrow> rat \<Rightarrow> bool" where
  "frac_op_ok nd v \<longleftrightarrow>
     is_i64 (fst nd) \<and> is_i64 (snd nd) \<and>
     (case fraction_i64 (fst nd) (snd nd) of
        Some I64Zero \<Rightarrow> v = 0
      | Some (I64Pair n d) \<Rightarrow> canonical_frac n d \<and> d \<le> INT32_MAX \<and> frac_val n d = v
      | Some (I64Invalid l) \<Rightarrow>
          \<forall>n d. canonical_frac n d \<longrightarrow> frac_val n d = v \<longrightarrow> INT32_MAX < d
      | None \<Rightarrow> False)"

lemma frac_op_okI:
  assumes "d \<noteq> 0" "\<bar>n\<bar> < 2 ^ 63" "\<bar>d\<bar> < 2 ^ 63" "frac_val n d = v"
  shows "frac_op_ok (n, d) v"
proof -
  obtain r where r: "fraction_i64 n d = Some r" and "case r of
       I64Zero \<Rightarrow> n = 0
     | I64Pair n' d' \<Rightarrow> canonical_frac n' d' \<and> d' \<le> INT32_MAX \<and> frac_val n' d' = frac_val n d
     | I64Invalid l \<Rightarrow> l = 123 \<and> (\<forall>n' d'. canonical_frac n' d' \<longrightarrow> frac_val n' d' = frac_val n d
                           \<longrightarrow> INT32_MAX < d')"
    using fraction_i64_spec[OF assms(1-3)] by blast
  moreover have "n = 0 \<Longrightarrow> v = 0" using assms(4) by (auto simp: frac_val_def)
  moreover have "is_i64 n" "is_i64 d" using assms by (auto simp: is_i64_def)
  ultimately show ?thesis using assms(4) by (cases r) (simp_all add: frac_op_ok_def)
qed

text \<open>The value of a leaf as \<open>mtpndd_get_numer\<close> and \<open>mtpndd_get_denom\<close> read it.\<close>

definition read_val :: "64 word \<Rightarrow> rat" where
  "read_val w = frac_val (mtpndd_unpack_numer w) (to_i32 (mtpndd_unpack_denom w))"

lemma canonical_parts:
  assumes "canonical_frac n d"
  shows "mtpndd_unpack_numer (mtpndd_pack_fraction n d) = n"
    "to_i32 (mtpndd_unpack_denom (mtpndd_pack_fraction n d)) = (if d \<le> INT32_MAX then d else - d)"
    "read_val (mtpndd_pack_fraction n d) = (if d \<le> INT32_MAX then frac_val n d else - frac_val n d)"
proof -
  have "is_i32 n" "0 \<le> d" "d < 2 ^ 32" using assms by (auto simp: canonical_frac_def is_i32_iff INT32_MAX_def)
  note p = pack_fraction_parts[OF this]
  show n: "mtpndd_unpack_numer (mtpndd_pack_fraction n d) = n" using p by simp
  show d: "to_i32 (mtpndd_unpack_denom (mtpndd_pack_fraction n d)) = (if d \<le> INT32_MAX then d else - d)"
    using p to_i32_denom[of d] assms by (simp add: canonical_frac_def)
  show "read_val (mtpndd_pack_fraction n d) = (if d \<le> INT32_MAX then frac_val n d else - frac_val n d)"
    unfolding read_val_def n d by (simp add: frac_val_neg)
qed

text \<open>
  C36. The four leaf operations on two stored fractions, with the operands read as the accessors
  read them.  A leaf with a denominator up to \<open>INT32_MAX\<close> reads as the fraction stored, the leaf with
  the denominator \<open>2 ^ 31\<close> as its negative.  On the values read, the 64-bit intermediate results never
  overflow, and \<open>make_fraction_i64\<close> yields zero, the exact sum, difference, product or quotient in
  canonical form, or an error when the result has no canonical form with a denominator in \<open>int32_t\<close>.
\<close>

theorem leaf_arith_exact:
  assumes "canonical_frac na da" "canonical_frac nb db"
  defines "a \<equiv> mtpndd_pack_fraction na da" and "b \<equiv> mtpndd_pack_fraction nb db"
  defines "ra \<equiv> to_i32 (mtpndd_unpack_denom a)" and "rb \<equiv> to_i32 (mtpndd_unpack_denom b)"
  shows "read_val a = (if da \<le> INT32_MAX then frac_val na da else - frac_val na da)
    \<and> read_val b = (if db \<le> INT32_MAX then frac_val nb db else - frac_val nb db)
    \<and> frac_op_ok (frac_add (mtpndd_unpack_numer a) ra (mtpndd_unpack_numer b) rb) (read_val a + read_val b)
    \<and> frac_op_ok (frac_sub (mtpndd_unpack_numer a) ra (mtpndd_unpack_numer b) rb) (read_val a - read_val b)
    \<and> frac_op_ok (frac_mul (mtpndd_unpack_numer a) ra (mtpndd_unpack_numer b) rb) (read_val a * read_val b)
    \<and> (nb \<noteq> 0 \<longrightarrow> frac_op_ok (frac_div (mtpndd_unpack_numer a) ra (mtpndd_unpack_numer b) rb) (read_val a / read_val b))"
proof -
  note A = canonical_parts[OF assms(1), folded a_def] and B = canonical_parts[OF assms(2), folded b_def]
  have r: "\<bar>na\<bar> \<le> INT32_MAX" "\<bar>ra\<bar> \<le> 2 ^ 31" "\<bar>nb\<bar> \<le> INT32_MAX" "\<bar>rb\<bar> \<le> 2 ^ 31" "ra \<noteq> 0" "rb \<noteq> 0"
    using assms(1,2) A(2) B(2) by (auto simp: canonical_frac_def ra_def rb_def)
  have v: "read_val a = frac_val na ra" "read_val b = frac_val nb rb"
    using A(1) B(1) by (simp_all add: read_val_def ra_def rb_def)
  note bnd = frac_ops_bounds[OF r(1-4)]
  have nz: "ra * rb \<noteq> 0" "nb \<noteq> 0 \<Longrightarrow> ra * nb \<noteq> 0" using r(5,6) by auto
  have "frac_op_ok (frac_add na ra nb rb) (frac_val na ra + frac_val nb rb)"
    unfolding frac_add_def
    by (rule frac_op_okI[OF nz(1) bnd(1,4)]) (use r in \<open>simp add: frac_val_def field_simps\<close>)
  moreover have "frac_op_ok (frac_sub na ra nb rb) (frac_val na ra - frac_val nb rb)"
    unfolding frac_sub_def
    by (rule frac_op_okI[OF nz(1) bnd(2,4)]) (use r in \<open>simp add: frac_val_def field_simps\<close>)
  moreover have "frac_op_ok (frac_mul na ra nb rb) (frac_val na ra * frac_val nb rb)"
    unfolding frac_mul_def
    by (rule frac_op_okI[OF nz(1) bnd(3,4)]) (use r in \<open>simp add: frac_val_def\<close>)
  moreover have "frac_op_ok (frac_div na ra nb rb) (frac_val na ra / frac_val nb rb)" if "nb \<noteq> 0"
    unfolding frac_div_def
    by (rule frac_op_okI[OF nz(2)[OF that] bnd(5,6)]) (use r in \<open>simp add: frac_val_def\<close>)
  ultimately show ?thesis using A(1,3) B(1,3) v by simp
qed

theorem leaf_arith_exact_witness:
  "frac_op_ok (1 * 3 + 1 * 6, 6 * 3) (frac_val 1 6 + frac_val 1 3)
   \<and> fraction_i64 (1 * 3 + 1 * 6) (6 * 3) = Some (I64Pair 1 2)"
proof -
  have c: "canonical_frac 1 6" "canonical_frac 1 3"
    by (simp_all add: canonical_frac_def INT32_MAX_def)
  have "frac_op_ok (1 * 3 + 1 * 6, 6 * 3) (frac_val 1 6 + frac_val 1 3)"
    using leaf_arith_exact[OF c] canonical_parts[OF c(1)] canonical_parts[OF c(2)] by (simp add: INT32_MAX_def frac_add_def)
  moreover have "fraction_i64 (1 * 3 + 1 * 6) (6 * 3) = Some (I64Pair 1 2)" by code_simp
  ultimately show ?thesis by blast
qed

text \<open>
  C40. What becomes of a fraction created with the denominator \<open>INT32_MIN\<close>: it is stored, and the
  accessors read it back with the right value when its numerator is even and with the opposite sign
  when its numerator is odd, because then the stored denominator is \<open>2 ^ 31\<close> and does not fit in the
  \<open>int32_t\<close> that \<open>mtpndd_get_denom\<close> returns.
\<close>

theorem denom_int32_min_flips_sign:
  assumes "is_i32 n" "n \<noteq> INT32_MIN"
  shows "\<exists>n' d'. normalize_fraction n INT32_MIN = Some (Some (n', d'))
    \<and> (d' = 2 ^ 31 \<longleftrightarrow> odd n)
    \<and> to_i32 (mtpndd_unpack_denom (mtpndd_pack_fraction n' d')) = (if odd n then INT32_MIN else d')
    \<and> read_val (mtpndd_pack_fraction n' d') = (if odd n then - frac_val n INT32_MIN else frac_val n INT32_MIN)"
proof -
  have m: "is_i32 INT32_MIN" "\<not> no_canonical n INT32_MIN" "INT32_MIN = - (2 ^ 31)"
    using assms(2) by (simp_all add: is_i32_iff no_canonical_def INT32_MIN_def)
  obtain n' d' where r: "normalize_fraction n INT32_MIN = Some (Some (n', d'))" "canonical_frac n' d'"
    "frac_val n' d' = frac_val n INT32_MIN" using normalize_succeeds[OF assms(1) m(1,2)] by blast
  have v: "frac_val n' d' = frac_val (- n) (2 ^ 31)" using r(3) unfolding m(3) by (simp add: frac_val_def)
  have "d' = 2 ^ 31" if "odd n"
  proof -
    have "coprime (- n) (2 ^ 31)" using that int32_min_coprime(1)[of n] by (simp add: coprime_commute)
    then show ?thesis using canonical_unique[of n' d' "- n" "2 ^ 31"] v r(2) by (simp add: canonical_frac_def)
  qed
  moreover have "odd n" if "d' = 2 ^ 31"
  proof -
    have "of_int n' = (of_int (- n) :: rat)" using v that by (simp add: frac_val_def)
    then have "n' = - n" by (simp only: of_int_eq_iff)
    then have "coprime (- (2 ^ 31)) n" using r(2) that by (simp add: canonical_frac_def coprime_commute)
    then show ?thesis using int32_min_coprime(1) by blast
  qed
  ultimately have odd: "d' = 2 ^ 31 \<longleftrightarrow> odd n" by blast
  have "d' \<le> INT32_MAX \<longleftrightarrow> even n" using odd r(2) by (auto simp: canonical_frac_def INT32_MAX_def)
  then show ?thesis using r(1,3) odd canonical_parts(2,3)[OF r(2)] m(3) by auto
qed

theorem denom_int32_min_flips_sign_witness:
  "normalize_fraction 3 INT32_MIN = Some (Some (- 3, 2 ^ 31))
   \<and> read_val (mtpndd_pack_fraction (- 3) (2 ^ 31)) = - frac_val 3 INT32_MIN
   \<and> normalize_fraction 6 INT32_MIN = Some (Some (- 3, 2 ^ 30))
   \<and> read_val (mtpndd_pack_fraction (- 3) (2 ^ 30)) = frac_val 6 INT32_MIN"
proof -
  have e: "normalize_fraction 3 INT32_MIN = Some (Some (- 3, 2 ^ 31))"
    "normalize_fraction 6 INT32_MIN = Some (Some (- 3, 2 ^ 30))" by code_simp+
  have i: "is_i32 3" "3 \<noteq> INT32_MIN" "is_i32 6" "6 \<noteq> INT32_MIN" by (simp_all add: is_i32_iff INT32_MIN_def)
  show ?thesis using denom_int32_min_flips_sign[OF i(1,2)] denom_int32_min_flips_sign[OF i(3,4)] unfolding e by simp
qed

end
