(* ===== verification/Memory_Pool.thy ===== *)
theory Memory_Pool
  imports MTPNDD_State
begin

text \<open>
  \<open>mtpndd_memory_pool.c\<close>: slab pools with one free list per Lace worker in front of a shared
  free list.  A free list threads through the first word of the free objects; the model keeps
  it as the list of their addresses.  The mutex of a pool is not modelled: every operation
  runs to completion.  The invariant \<open>pool_ok\<close> accounts for every object of every slab: it is
  on exactly one free list or held by a client, so an object is never handed out twice.  The
  size of a slab is computed modulo \<open>2 ^ 64\<close>; the invariant includes that it does not wrap.
\<close>

section \<open>Pool operations\<close>

definition MTPNDD_POOL_REFILL_BATCH_DEFAULT :: nat where
  "MTPNDD_POOL_REFILL_BATCH_DEFAULT = 32"

definition MTPNDD_POOL_LOCAL_MAX_DEFAULT :: nat where
  "MTPNDD_POOL_LOCAL_MAX_DEFAULT = 256"

definition mtpndd_align_size :: "64 word \<Rightarrow> 64 word \<Rightarrow> 64 word" where
  "mtpndd_align_size sz alignment =
     (if alignment \<le> 1 then sz else (sz + alignment - 1) AND NOT (alignment - 1))"

definition mtpndd_slab_pool_reset :: "slab_pool \<Rightarrow> slab_pool" where
  "mtpndd_slab_pool_reset pool =
     \<lparr>object_size = 0, objects_per_slab = 0, free_list = [], blocks = [], slab_count = 0,
      in_use_global = 0, refill_batch = MTPNDD_POOL_REFILL_BATCH_DEFAULT,
      local_max = MTPNDD_POOL_LOCAL_MAX_DEFAULT, lock_initialized = False, locals = []\<rparr>"

definition mtpndd_slab_pool_destroy :: "slab_pool \<Rightarrow> slab_pool" where
  "mtpndd_slab_pool_destroy pool =
     pool\<lparr>blocks := [], free_list := [], locals := [], lock_initialized := False\<rparr>"

text \<open>The objects of a slab: the block header holds one pointer, the objects follow it.\<close>

definition slab_capacity :: "slab_pool \<Rightarrow> nat" where
  "slab_capacity pool = (if objects_per_slab pool = 0 then 1 else objects_per_slab pool)"

definition slab_objects :: "slab_pool \<Rightarrow> ptr \<Rightarrow> ptr list" where
  "slab_objects pool block =
     map (\<lambda>i. block + 8 + i * object_size pool) [0..<slab_capacity pool]"

text \<open>The size of a block is computed in \<open>size_t\<close>, where it wraps around.\<close>

definition slab_block_size :: "slab_pool \<Rightarrow> nat" where
  "slab_block_size pool = (8 + object_size pool * slab_capacity pool) mod 2 ^ 64"

definition mtpndd_slab_pool_grow ::
  "slab_pool \<Rightarrow> c_heap \<Rightarrow> mtpndd_error \<times> slab_pool \<times> c_heap" where
  "mtpndd_slab_pool_grow pool h =
     (let (block, h) = c_malloc (slab_block_size pool) h
      in if block = NULL then (MTPNDD_ERROR_OUT_OF_MEMORY, pool, h)
         else (MTPNDD_SUCCESS,
               pool\<lparr>blocks := block # blocks pool, slab_count := slab_count pool + 1,
                    free_list := fold (#) (slab_objects pool block) (free_list pool)\<rparr>, h))"

text \<open>\<open>while (pool->free_list && moved < pool->refill_batch)\<close>\<close>

fun refill_move :: "nat \<Rightarrow> ptr list \<Rightarrow> slab_local \<Rightarrow> ptr list \<times> slab_local" where
  "refill_move k [] lc = ([], lc)"
| "refill_move k (obj # fl) lc =
     (if k = 0 then (obj # fl, lc)
      else refill_move (k - 1) fl
             (lc\<lparr>sl_free_list := obj # sl_free_list lc, sl_count := sl_count lc + 1\<rparr>))"

definition mtpndd_slab_pool_refill_local ::
  "slab_pool \<Rightarrow> slab_local \<Rightarrow> c_heap \<Rightarrow> bool \<Rightarrow> slab_pool \<times> slab_local \<times> c_heap \<times> bool" where
  "mtpndd_slab_pool_refill_local pool lc h new_slab =
     (if \<not> lock_initialized pool then (pool, lc, h, new_slab)
      else let (st, pool, h, grew) =
                 (if free_list pool = []
                  then let (st, pool, h) = mtpndd_slab_pool_grow pool h in (st, pool, h, True)
                  else (MTPNDD_SUCCESS, pool, h, False))
           in if st \<noteq> MTPNDD_SUCCESS then (pool, lc, h, new_slab)
              else let (fl, lc) = refill_move (refill_batch pool) (free_list pool) lc
                   in (pool\<lparr>free_list := fl\<rparr>, lc, h, new_slab \<or> grew))"

text \<open>\<open>while (local->free_list && local->count > local_max / 2 && moved < refill_batch)\<close>\<close>

fun spill_move :: "nat \<Rightarrow> nat \<Rightarrow> ptr list \<Rightarrow> slab_local \<Rightarrow> ptr list \<times> slab_local" where
  "spill_move 0 half fl lc = (fl, lc)"
| "spill_move (Suc k) half fl lc =
     (case sl_free_list lc of
        [] \<Rightarrow> (fl, lc)
      | obj # rest \<Rightarrow>
          if half < sl_count lc
          then spill_move k half (obj # fl) (lc\<lparr>sl_free_list := rest, sl_count := sl_count lc - 1\<rparr>)
          else (fl, lc))"

definition mtpndd_slab_pool_spill_local :: "slab_pool \<Rightarrow> slab_local \<Rightarrow> slab_pool \<times> slab_local" where
  "mtpndd_slab_pool_spill_local pool lc =
     (if \<not> lock_initialized pool then (pool, lc)
      else let (fl, lc) = spill_move (refill_batch pool) (local_max pool div 2) (free_list pool) lc
           in (pool\<lparr>free_list := fl\<rparr>, lc))"

definition has_local :: "slab_pool \<Rightarrow> int \<Rightarrow> bool" where
  "has_local pool wid \<longleftrightarrow> 0 \<le> wid \<and> nat wid < length (locals pool)"

definition mtpndd_slab_pool_acquire ::
  "slab_pool \<Rightarrow> int \<Rightarrow> c_heap \<Rightarrow> ptr \<times> slab_pool \<times> c_heap \<times> bool" where
  "mtpndd_slab_pool_acquire pool wid h =
     (if has_local pool wid then
        let lc = locals pool ! nat wid;
            (pool, lc, h, new_slab) =
              (if sl_free_list lc = [] then mtpndd_slab_pool_refill_local pool lc h False
               else (pool, lc, h, False))
        in case sl_free_list lc of
             [] \<Rightarrow> (NULL, pool\<lparr>locals := (locals pool)[nat wid := lc]\<rparr>, h, new_slab)
           | obj # rest \<Rightarrow>
               (obj, pool\<lparr>locals := (locals pool)[nat wid :=
                  lc\<lparr>sl_free_list := rest,
                     sl_count := (if 0 < sl_count lc then sl_count lc - 1 else sl_count lc),
                     sl_in_use := sl_in_use lc + 1\<rparr>]\<rparr>, h, new_slab)
      else
        let (st, pool, h, new_slab) =
              (if free_list pool = []
               then let (st, pool, h) = mtpndd_slab_pool_grow pool h in (st, pool, h, True)
               else (MTPNDD_SUCCESS, pool, h, False))
        in if st \<noteq> MTPNDD_SUCCESS then (NULL, pool, h, False)
           else case free_list pool of
                  [] \<Rightarrow> (NULL, pool, h, new_slab)
                | obj # rest \<Rightarrow>
                    (obj, pool\<lparr>free_list := rest, in_use_global := in_use_global pool + 1\<rparr>,
                     h, new_slab))"

definition mtpndd_slab_pool_release :: "slab_pool \<Rightarrow> int \<Rightarrow> ptr \<Rightarrow> slab_pool" where
  "mtpndd_slab_pool_release pool wid obj =
     (if obj = NULL then pool
      else if has_local pool wid then
        let lc = locals pool ! nat wid;
            lc = lc\<lparr>sl_free_list := obj # sl_free_list lc, sl_count := sl_count lc + 1,
                    sl_in_use := (if 0 < sl_in_use lc then sl_in_use lc - 1 else sl_in_use lc)\<rparr>;
            (pool, lc) = (if local_max pool < sl_count lc
                          then mtpndd_slab_pool_spill_local pool lc else (pool, lc))
        in pool\<lparr>locals := (locals pool)[nat wid := lc]\<rparr>
      else pool\<lparr>free_list := obj # free_list pool,
                in_use_global := (if 0 < in_use_global pool then in_use_global pool - 1
                                  else in_use_global pool)\<rparr>)"

definition mtpndd_scaled_param :: "nat \<Rightarrow> nat \<Rightarrow> nat \<Rightarrow> nat" where
  "mtpndd_scaled_param base workers max_cap =
     (let workers = (if workers = 0 then 1 else workers);
          scaled = base * workers
      in if max_cap \<noteq> 0 \<and> max_cap < scaled then max_cap else scaled)"

definition mtpndd_slab_pool_setup ::
  "slab_pool \<Rightarrow> nat \<Rightarrow> nat \<Rightarrow> nat \<Rightarrow> nat \<Rightarrow> nat \<Rightarrow> slab_pool" where
  "mtpndd_slab_pool_setup pool sz alignment per_slab batch lmax =
     (let pool = mtpndd_slab_pool_reset pool;
          align = (if alignment < 8 then 8 else alignment)
      in pool\<lparr>object_size := unat (mtpndd_align_size (word_of_nat sz) (word_of_nat align)),
              objects_per_slab := (if per_slab \<noteq> 0 then per_slab else 1),
              refill_batch := (if batch \<noteq> 0 then batch else MTPNDD_POOL_REFILL_BATCH_DEFAULT),
              local_max := (if lmax \<noteq> 0 then lmax else MTPNDD_POOL_LOCAL_MAX_DEFAULT),
              lock_initialized := True\<rparr>)"

definition mtpndd_slab_pool_init_locals ::
  "slab_pool \<Rightarrow> nat \<Rightarrow> c_heap \<Rightarrow> bool \<times> slab_pool \<times> c_heap" where
  "mtpndd_slab_pool_init_locals pool workers h =
     (if \<not> lock_initialized pool then (False, pool, h)
      else if locals pool \<noteq> [] then (True, pool, h)
      else let workers = (if workers = 0 then 1 else workers);
               (p, h) = c_malloc (64 * workers) h
           in if p = NULL then (False, pool, h)
              else (True,
                    pool\<lparr>locals := replicate workers \<lparr>sl_free_list = [], sl_count = 0, sl_in_use = 0\<rparr>\<rparr>,
                    h))"

definition mtpndd_slab_pool_in_use_sum :: "slab_pool \<Rightarrow> nat" where
  "mtpndd_slab_pool_in_use_sum pool = in_use_global pool + sum_list (map sl_in_use (locals pool))"

section \<open>The four pools of the library\<close>

text \<open>
  Object sizes on the 64-bit target: a node 16 bytes, an edge entry 24, a node-table entry 40,
  an edge map 48 plus its inline bucket array.
\<close>

definition mtpndd_memory_pools_init :: "mstate \<Rightarrow> mstate" where
  "mtpndd_memory_pools_init s =
     (let cfg = g_pal_config s;
          workers = lace_workers s;
          edge_refill = mtpndd_scaled_param 64 workers 256;
          edge_local = mtpndd_scaled_param 512 workers 2048;
          np = mtpndd_slab_pool_setup (g_node_pool s) 16 8 (node_slab_capacity cfg)
                 MTPNDD_POOL_REFILL_BATCH_DEFAULT MTPNDD_POOL_LOCAL_MAX_DEFAULT;
          ebc = edge_bucket_count cfg;
          ebc = (if ebc = 0 then MTPNDD_DEFAULT_EDGE_BUCKET_COUNT else ebc);
          ebc = (if ebc < MTPNDD_DEFAULT_EDGE_BUCKET_COUNT then MTPNDD_DEFAULT_EDGE_BUCKET_COUNT
                 else ebc);
          ebc = round_up_pow2_nat ebc;
          offset = unat (mtpndd_align_size 48 8) + 8 * ebc;
          mp = mtpndd_slab_pool_setup (g_edge_map_pool s) offset 8 (edge_map_slab_capacity cfg)
                 edge_refill edge_local;
          ep = mtpndd_slab_pool_setup (g_edge_entry_pool s) 24 8 (edge_entry_slab_capacity cfg)
                 edge_refill edge_local;
          tp = mtpndd_slab_pool_setup (g_nodetable_entry_pool s) 40 8
                 (nodetable_entry_slab_capacity cfg)
                 MTPNDD_POOL_REFILL_BATCH_DEFAULT MTPNDD_POOL_LOCAL_MAX_DEFAULT;
          h = c_heap_of s;
          (_, np, h) = mtpndd_slab_pool_init_locals np workers h;
          (_, ep, h) = mtpndd_slab_pool_init_locals ep workers h;
          (_, tp, h) = mtpndd_slab_pool_init_locals tp workers h;
          (_, mp, h) = mtpndd_slab_pool_init_locals mp workers h
      in s\<lparr>g_node_pool := np, g_edge_entry_pool := ep, g_nodetable_entry_pool := tp,
           g_edge_map_pool := mp, c_heap_of := h, g_edge_bucket_count := ebc,
           g_pal_config := cfg\<lparr>edge_bucket_count := ebc\<rparr>\<rparr>)"

text \<open>Every node but the two static ones lives in a slab, so no other node is left.\<close>

definition mtpndd_memory_pools_shutdown :: "mstate \<Rightarrow> mstate" where
  "mtpndd_memory_pools_shutdown s =
     s\<lparr>g_edge_map_pool := mtpndd_slab_pool_destroy (g_edge_map_pool s),
       g_nodetable_entry_pool := mtpndd_slab_pool_destroy (g_nodetable_entry_pool s),
       g_edge_entry_pool := mtpndd_slab_pool_destroy (g_edge_entry_pool s),
       g_node_pool := mtpndd_slab_pool_destroy (g_node_pool s),
       nodes := nodes s |` {MTPNDD_TRUE, MTPNDD_FALSE}\<rparr>"

definition mtpndd_memory_acquire_node :: "mstate \<Rightarrow> ptr \<times> mstate" where
  "mtpndd_memory_acquire_node s =
     (let (p, pool, h, _) = mtpndd_slab_pool_acquire (g_node_pool s) (cur_worker s) (c_heap_of s);
          s = s\<lparr>g_node_pool := pool, c_heap_of := h\<rparr>
      in if p = NULL
         then (NULL, mtpndd_set_error MTPNDD_ERROR_OUT_OF_MEMORY ''mtpndd_memory_acquire_node'' 379 s)
         else (p, s))"

text \<open>A released node is gone: its address holds no node until the pool hands it out again.\<close>

definition mtpndd_memory_release_node :: "ptr \<Rightarrow> mstate \<Rightarrow> mstate" where
  "mtpndd_memory_release_node p s =
     (if p = NULL then s
      else s\<lparr>g_node_pool := mtpndd_slab_pool_release (g_node_pool s) (cur_worker s) p,
             nodes := (nodes s)(p := None)\<rparr>)"

definition mtpndd_memory_acquire_edge_entry :: "mstate \<Rightarrow> ptr \<times> mstate" where
  "mtpndd_memory_acquire_edge_entry s =
     (let (p, pool, h, _) =
            mtpndd_slab_pool_acquire (g_edge_entry_pool s) (cur_worker s) (c_heap_of s);
          s = s\<lparr>g_edge_entry_pool := pool, c_heap_of := h\<rparr>
      in if p = NULL
         then (NULL, mtpndd_set_error MTPNDD_ERROR_OUT_OF_MEMORY
                       ''mtpndd_memory_acquire_edge_entry'' 405 s)
         else (p, s))"

definition mtpndd_memory_release_edge_entry :: "ptr \<Rightarrow> mstate \<Rightarrow> mstate" where
  "mtpndd_memory_release_edge_entry p s =
     (if p = NULL then s
      else s\<lparr>g_edge_entry_pool := mtpndd_slab_pool_release (g_edge_entry_pool s) (cur_worker s) p\<rparr>)"

definition mtpndd_memory_acquire_nodetable_entry :: "mstate \<Rightarrow> ptr \<times> mstate" where
  "mtpndd_memory_acquire_nodetable_entry s =
     (let (p, pool, h, _) =
            mtpndd_slab_pool_acquire (g_nodetable_entry_pool s) (cur_worker s) (c_heap_of s);
          s = s\<lparr>g_nodetable_entry_pool := pool, c_heap_of := h\<rparr>
      in if p = NULL
         then (NULL, mtpndd_set_error MTPNDD_ERROR_OUT_OF_MEMORY
                       ''mtpndd_memory_acquire_nodetable_entry'' 431 s)
         else (p, s))"

definition mtpndd_memory_release_nodetable_entry :: "ptr \<Rightarrow> mstate \<Rightarrow> mstate" where
  "mtpndd_memory_release_nodetable_entry p s =
     (if p = NULL then s
      else s\<lparr>g_nodetable_entry_pool :=
               mtpndd_slab_pool_release (g_nodetable_entry_pool s) (cur_worker s) p\<rparr>)"

text \<open>
  The inline bucket array of a fresh edge map is not initialised by the pool; every caller
  clears it next, so the model hands it out cleared.
\<close>

definition mtpndd_memory_acquire_edge_map :: "mstate \<Rightarrow> mtpndd_edge option \<times> mstate" where
  "mtpndd_memory_acquire_edge_map s =
     (let (p, pool, h, _) =
            mtpndd_slab_pool_acquire (g_edge_map_pool s) (cur_worker s) (c_heap_of s);
          s = s\<lparr>g_edge_map_pool := pool, c_heap_of := h\<rparr>;
          n = g_edge_bucket_count s
      in if p = NULL
         then (None, mtpndd_set_error MTPNDD_ERROR_OUT_OF_MEMORY
                       ''mtpndd_memory_acquire_edge_map'' 457 s)
         else (Some \<lparr>em_addr = p, edge_count = 0, cached_hash = 0, buckets = replicate n [],
                     bucket_count = n, load_threshold = n - n div 4, buckets_malloced = False\<rparr>,
               s))"

definition mtpndd_memory_release_edge_map :: "mtpndd_edge \<Rightarrow> mstate \<Rightarrow> mstate" where
  "mtpndd_memory_release_edge_map m s =
     s\<lparr>g_edge_map_pool := mtpndd_slab_pool_release (g_edge_map_pool s) (cur_worker s) (em_addr m)\<rparr>"

section \<open>Every object is accounted for\<close>

definition pool_free :: "slab_pool \<Rightarrow> ptr list" where
  "pool_free pool = free_list pool @ concat (map sl_free_list (locals pool))"

definition pool_objects :: "slab_pool \<Rightarrow> ptr list" where
  "pool_objects pool = concat (map (slab_objects pool) (blocks pool))"

text \<open>
  The objects of a slab are inside its block only if the computation of the block size does not wrap
  around.  Nothing in the code checks this; it is a condition on the configured slab capacities.
\<close>

definition slab_sized :: "slab_pool \<Rightarrow> bool" where
  "slab_sized pool \<longleftrightarrow> 8 + object_size pool * slab_capacity pool < 2 ^ 64"

lemma slab_sized_block: "slab_sized pool \<Longrightarrow> slab_block_size pool = 8 + object_size pool * slab_capacity pool"
  by (simp add: slab_sized_def slab_block_size_def)

lemma slab_sized_cong [simp]:
  "slab_sized (pool\<lparr>free_list := fl\<rparr>) = slab_sized pool"
  "slab_sized (pool\<lparr>locals := ls\<rparr>) = slab_sized pool"
  "slab_sized (pool\<lparr>in_use_global := g\<rparr>) = slab_sized pool"
  "slab_sized (pool\<lparr>blocks := bs, slab_count := n\<rparr>) = slab_sized pool"
  by (simp_all add: slab_sized_def slab_capacity_def)

text \<open>\<open>pool_ok pool U h\<close>: the clients hold exactly the objects in \<open>U\<close>.\<close>

definition pool_ok :: "slab_pool \<Rightarrow> ptr set \<Rightarrow> c_heap \<Rightarrow> bool" where
  "pool_ok pool U h \<longleftrightarrow>
     8 \<le> object_size pool \<and> slab_sized pool \<and> lock_initialized pool \<and> 0 < refill_batch pool \<and> 32 < brk h
     \<and> finite U
     \<and> distinct (pool_objects pool)
     \<and> (\<forall>p\<in>set (pool_objects pool). 32 < p \<and> p < brk h)
     \<and> mset (pool_objects pool) = mset (pool_free pool) + mset_set U
     \<and> (\<forall>lc\<in>set (locals pool). sl_count lc = length (sl_free_list lc))"

lemma pool_free_update:
  assumes "i < length (locals pool)"
  shows "mset (pool_free (pool\<lparr>free_list := fl, locals := (locals pool)[i := lc]\<rparr>))
           + mset (free_list pool) + mset (sl_free_list (locals pool ! i))
         = mset (pool_free pool) + mset fl + mset (sl_free_list lc)"
proof -
  let ?fs = "map sl_free_list (locals pool)"
  obtain D where D: "mset (concat ?fs) = mset (sl_free_list (locals pool ! i)) + D"
    using mset_nth_subset_concat[of i ?fs] assms by (auto simp: subset_mset.le_iff_add)
  have "mset (concat (map sl_free_list ((locals pool)[i := lc]))) = D + mset (sl_free_list lc)"
    using mset_concat_update[of i ?fs "sl_free_list lc"] assms D
    by (simp add: map_update del: mset_concat)
  with D show ?thesis by (simp add: pool_free_def del: mset_concat)
qed

lemma refill_move_spec:
  assumes "refill_move k fl lc = (fl', lc')" "sl_count lc = length (sl_free_list lc)"
  shows "mset fl' + mset (sl_free_list lc') = mset fl + mset (sl_free_list lc)
         \<and> sl_count lc' = length (sl_free_list lc') \<and> sl_in_use lc' = sl_in_use lc
         \<and> (0 < k \<longrightarrow> fl \<noteq> [] \<longrightarrow> sl_free_list lc' \<noteq> [])
         \<and> (sl_free_list lc \<noteq> [] \<longrightarrow> sl_free_list lc' \<noteq> [])"
  using assms by (induction k fl lc rule: refill_move.induct) (auto split: if_splits)

lemma spill_move_spec:
  assumes "spill_move k half fl lc = (fl', lc')" "sl_count lc = length (sl_free_list lc)"
  shows "mset fl' + mset (sl_free_list lc') = mset fl + mset (sl_free_list lc)
         \<and> sl_count lc' = length (sl_free_list lc') \<and> sl_in_use lc' = sl_in_use lc"
  using assms
  by (induction k half fl lc rule: spill_move.induct) (auto split: list.splits if_splits)

lemma slab_objects_range:
  assumes "p \<in> set (slab_objects pool b)" "0 < object_size pool"
  shows "b < p \<and> p < b + 8 + object_size pool * slab_capacity pool"
proof -
  obtain i where i: "i < slab_capacity pool" "p = b + 8 + i * object_size pool"
    using assms(1) by (auto simp: slab_objects_def)
  have "i * object_size pool < slab_capacity pool * object_size pool" using i(1) assms(2) by simp
  then show ?thesis using i(2) by (simp add: mult.commute)
qed

lemma distinct_slab_objects: "0 < object_size pool \<Longrightarrow> distinct (slab_objects pool b)"
  by (auto simp: slab_objects_def distinct_map inj_on_def)

lemma slab_objects_cong [simp]:
  "slab_objects (pool\<lparr>free_list := fl\<rparr>) = slab_objects pool"
  "slab_objects (pool\<lparr>locals := ls\<rparr>) = slab_objects pool"
  "slab_objects (pool\<lparr>in_use_global := g\<rparr>) = slab_objects pool"
  "slab_objects (pool\<lparr>blocks := bs, slab_count := n\<rparr>) = slab_objects pool"
  by (simp_all add: slab_objects_def slab_capacity_def fun_eq_iff)

lemma mset_fold_Cons [simp]: "mset (fold (#) xs ys) = mset xs + mset ys"
  by (induction xs arbitrary: ys) auto

lemma pool_ok_free_list:
  assumes "pool_ok pool U h" "mset fl = mset (free_list pool)"
  shows "pool_ok (pool\<lparr>free_list := fl\<rparr>) U h"
  using assms by (simp add: pool_ok_def pool_free_def pool_objects_def)

lemma pool_ok_failed [simp]: "pool_ok pool U (h\<lparr>mem_failed := b\<rparr>) = pool_ok pool U h"
  by (simp add: pool_ok_def)

definition slab_fits :: "slab_pool \<Rightarrow> c_heap \<Rightarrow> bool" where
  "slab_fits pool h \<longleftrightarrow> brk h + (8 + object_size pool * slab_capacity pool) \<le> mem_limit h"

lemma grow_ok:
  assumes ok: "pool_ok pool U h" and g: "mtpndd_slab_pool_grow pool h = (st, pool', h')"
  shows "pool_ok pool' U h' \<and> brk h \<le> brk h' \<and> mem_limit h' = mem_limit h
         \<and> locals pool' = locals pool \<and> refill_batch pool' = refill_batch pool
         \<and> local_max pool' = local_max pool \<and> lock_initialized pool' = lock_initialized pool
         \<and> in_use_global pool' = in_use_global pool
         \<and> (st = MTPNDD_SUCCESS \<longrightarrow> free_list pool' \<noteq> [])
         \<and> (st \<noteq> MTPNDD_SUCCESS \<longrightarrow> pool' = pool \<and> mem_failed h' \<and> \<not> slab_fits pool h)"
proof -
  let ?n = "8 + object_size pool * slab_capacity pool"
  have sz: "0 < object_size pool" and b0: "brk h \<noteq> 0" and bl: "slab_block_size pool = ?n"
    using ok slab_sized_block by (auto simp: pool_ok_def)
  show ?thesis
  proof (cases "brk h + ?n \<le> mem_limit h")
    case True
    have new: "\<forall>p\<in>set (slab_objects pool (brk h)). brk h < p \<and> p < brk h + ?n"
      using slab_objects_range sz by (auto simp: add.assoc)
    have ne: "slab_objects pool (brk h) \<noteq> []" by (simp add: slab_objects_def slab_capacity_def)
    have "fold (#) xs ys \<noteq> []" if "xs \<noteq> []" for xs ys :: "ptr list"
      using mset_fold_Cons[of xs ys] that by (metis mset_zero_iff union_eq_empty)
    then have ne': "fold (#) (slab_objects pool (brk h)) (free_list pool) \<noteq> []" using ne by blast
    let ?pool = "pool\<lparr>blocks := brk h # blocks pool, slab_count := slab_count pool + 1,
                     free_list := fold (#) (slab_objects pool (brk h)) (free_list pool)\<rparr>"
    have eq: "st = MTPNDD_SUCCESS" "pool' = ?pool" "h' = h\<lparr>brk := brk h + ?n\<rparr>"
      using g True b0 by (auto simp: mtpndd_slab_pool_grow_def c_malloc_def bl)
    have objs: "pool_objects ?pool = slab_objects pool (brk h) @ pool_objects pool"
      by (simp add: pool_objects_def)
    have old: "\<forall>p\<in>set (pool_objects pool). 32 < p \<and> p < brk h" and b32: "32 < brk h"
      using ok by (auto simp: pool_ok_def)
    have "set (slab_objects pool (brk h)) \<inter> set (pool_objects pool) = {}"
      using new old by fastforce
    then have dist: "distinct (pool_objects ?pool)"
      using ok distinct_slab_objects[OF sz, of "brk h"] unfolding objs by (simp add: pool_ok_def)
    have bnd: "\<forall>p\<in>set (pool_objects ?pool). 32 < p \<and> p < brk h + ?n"
      using new old b32 unfolding objs by fastforce
    have mem: "mset (pool_objects ?pool) = mset (pool_free ?pool) + mset_set U"
      using ok unfolding objs by (simp add: pool_ok_def pool_free_def ac_simps)
    have "pool_ok ?pool U h'"
      using ok dist bnd mem by (simp add: pool_ok_def eq(3))
    then show ?thesis using eq ne' by simp
  next
    case False
    with g ok show ?thesis
      by (auto simp: mtpndd_slab_pool_grow_def c_malloc_def Let_def slab_fits_def bl)
  qed
qed

lemma refill_local_ok:
  assumes ok: "pool_ok pool U h" and i: "i < length (locals pool)"
    and r: "mtpndd_slab_pool_refill_local pool (locals pool ! i) h ns = (pool', lc', h', ns')"
  shows "pool_ok (pool'\<lparr>locals := (locals pool')[i := lc']\<rparr>) U h' \<and> brk h \<le> brk h'
         \<and> mem_limit h' = mem_limit h \<and> locals pool' = locals pool
         \<and> sl_in_use lc' = sl_in_use (locals pool ! i) \<and> in_use_global pool' = in_use_global pool
         \<and> sl_count lc' = length (sl_free_list lc')
         \<and> (sl_free_list lc' = [] \<longrightarrow> mem_failed h' \<and> \<not> slab_fits pool h)"
proof -
  obtain st pool1 h1 where g: "(if free_list pool = [] then mtpndd_slab_pool_grow pool h
                                else (MTPNDD_SUCCESS, pool, h)) = (st, pool1, h1)"
    by (metis prod_cases3)
  have p1: "pool_ok pool1 U h1 \<and> brk h \<le> brk h1 \<and> mem_limit h1 = mem_limit h
            \<and> locals pool1 = locals pool \<and> refill_batch pool1 = refill_batch pool
            \<and> in_use_global pool1 = in_use_global pool
            \<and> (st = MTPNDD_SUCCESS \<longrightarrow> free_list pool1 \<noteq> [])
            \<and> (st \<noteq> MTPNDD_SUCCESS
               \<longrightarrow> pool1 = pool \<and> mem_failed h1 \<and> free_list pool = [] \<and> \<not> slab_fits pool h)"
  proof (cases "free_list pool = []")
    case True
    with g grow_ok[OF ok, of st pool1 h1] show ?thesis by simp
  qed (use g ok in auto)
  have cnt: "sl_count (locals pool ! i) = length (sl_free_list (locals pool ! i))"
    and lk: "lock_initialized pool" and rb: "0 < refill_batch pool"
    using ok i by (auto simp: pool_ok_def)
  show ?thesis
  proof (cases "st = MTPNDD_SUCCESS")
    case False
    then have "pool' = pool" "lc' = locals pool ! i" "h' = h1"
      using r g p1 lk by (auto simp: mtpndd_slab_pool_refill_local_def split: if_splits)
    moreover have "pool_ok pool U h1" using p1 False by metis
    ultimately show ?thesis using ok cnt p1 False by simp
  next
    case True
    obtain fl where m: "refill_move (refill_batch pool1) (free_list pool1) (locals pool ! i)
                        = (fl, lc')"
      and eq: "pool' = pool1\<lparr>free_list := fl\<rparr>" "h' = h1"
      using r g lk True
      by (cases "refill_move (refill_batch pool1) (free_list pool1) (locals pool ! i)")
        (auto simp: mtpndd_slab_pool_refill_local_def split: if_splits)
    note ms = refill_move_spec[OF m cnt]
    have i1: "i < length (locals pool1)" using p1 i by simp
    let ?pool = "pool1\<lparr>free_list := fl, locals := (locals pool1)[i := lc']\<rparr>"
    have "mset (pool_free ?pool) = mset (pool_free pool1)"
      using pool_free_update[OF i1, where fl = fl and lc = lc'] ms p1 by (simp add: add.assoc)
    then have "pool_ok ?pool U h1"
      using p1 ms set_update_subset_insert[of "locals pool1" i lc']
      by (auto simp: pool_ok_def pool_objects_def)
    then show ?thesis using p1 ms eq True rb by auto
  qed
qed

lemma in_pool_free_local:
  "i < length (locals pool) \<Longrightarrow> x \<in> set (sl_free_list (locals pool ! i)) \<Longrightarrow> x \<in> set (pool_free pool)"
  by (auto simp: pool_free_def intro!: bexI[of _ "locals pool ! i"])

lemma pool_ok_free_fresh:
  assumes "pool_ok pool U h" "x \<in> set (pool_free pool)"
  shows "x \<notin> U \<and> 32 < x \<and> x < brk h"
proof -
  have m: "mset (pool_objects pool) = mset (pool_free pool) + mset_set U" "finite U"
    and d: "distinct (pool_objects pool)" using assms(1) by (auto simp: pool_ok_def)
  have "count (mset (pool_objects pool)) x \<le> 1"
    using d by (simp add: distinct_count_atmost_1)
  moreover have "0 < count (mset (pool_free pool)) x" using assms(2) by simp
  moreover have "count (mset (pool_objects pool)) x
                 = count (mset (pool_free pool)) x + count (mset_set U) x" using m(1) by simp
  ultimately have "count (mset_set U) x = 0" by linarith
  then have "x \<notin> U" using m(2) by (metis count_mset_set(1) zero_neq_one)
  moreover have "x \<in> set (pool_objects pool)" using assms(2) m(1) by (metis set_mset_mset union_iff)
  ultimately show ?thesis using assms(1) by (auto simp: pool_ok_def)
qed

lemma pool_ok_take:
  assumes ok: "pool_ok pool U h"
    and m: "mset (pool_free pool) = add_mset x (mset (pool_free pool'))"
    and eq: "pool_objects pool' = pool_objects pool" "object_size pool' = object_size pool" "slab_sized pool' = slab_sized pool"
      "lock_initialized pool' = lock_initialized pool" "refill_batch pool' = refill_batch pool"
      "\<forall>lc\<in>set (locals pool'). sl_count lc = length (sl_free_list lc)"
  shows "pool_ok pool' (insert x U) h \<and> x \<notin> U \<and> 32 < x \<and> x < brk h"
proof -
  have "x \<in> set (pool_free pool)" using m by (metis set_mset_mset union_single_eq_member)
  note fr = pool_ok_free_fresh[OF ok this]
  then show ?thesis using ok eq m by (simp add: pool_ok_def)
qed

text \<open>
  An acquisition takes the head of the worker's own list, refilled first when it is empty, or the
  head of the global list, grown first when it is empty.
\<close>
lemma acquire_local_ok:
  assumes ok: "pool_ok pool U h" and a: "mtpndd_slab_pool_acquire pool w h = (x, pool', h', ns)"
    and loc: "has_local pool w"
  shows "brk h \<le> brk h' \<and> mem_limit h' = mem_limit h
         \<and> (if x = NULL then pool_ok pool' U h' \<and> \<not> slab_fits pool h \<and> mem_failed h'
            else pool_ok pool' (insert x U) h' \<and> x \<notin> U \<and> 32 < x \<and> x < brk h')"
proof -
  define i where "i = nat w"
  have i: "i < length (locals pool)" using loc by (simp add: i_def has_local_def)
  obtain pool1 lc h1 ns1 where
    r: "(if sl_free_list (locals pool ! i) = []
         then mtpndd_slab_pool_refill_local pool (locals pool ! i) h False
         else (pool, locals pool ! i, h, False)) = (pool1, lc, h1, ns1)"
    by (metis prod_cases4)
  let ?pool = "pool1\<lparr>locals := (locals pool1)[i := lc]\<rparr>"
  have p1: "pool_ok ?pool U h1 \<and> brk h \<le> brk h1 \<and> mem_limit h1 = mem_limit h
            \<and> locals pool1 = locals pool \<and> sl_count lc = length (sl_free_list lc)
            \<and> (sl_free_list lc = [] \<longrightarrow> \<not> slab_fits pool h \<and> mem_failed h1)"
  proof (cases "sl_free_list (locals pool ! i) = []")
    case True
    then show ?thesis using refill_local_ok[OF ok i, of False pool1 lc h1 ns1] r by auto
  next
    case False
    then have "pool1 = pool" "lc = locals pool ! i" "h1 = h" using r by auto
    then show ?thesis using ok i False by (simp add: pool_ok_def)
  qed
  show ?thesis
  proof (cases "sl_free_list lc")
    case Nil
    then show ?thesis using a loc r p1
      by (auto simp: mtpndd_slab_pool_acquire_def i_def[symmetric])
  next
    case (Cons obj rest)
    let ?lc = "lc\<lparr>sl_free_list := rest, sl_count := sl_count lc - 1, sl_in_use := sl_in_use lc + 1\<rparr>"
    let ?pool' = "pool1\<lparr>locals := (locals pool1)[i := ?lc]\<rparr>"
    have eq: "x = obj" "pool' = ?pool'" "h' = h1"
      using a loc r Cons p1 by (auto simp: mtpndd_slab_pool_acquire_def i_def[symmetric])
    have i1: "i < length (locals ?pool)" using p1 i by simp
    have m: "mset (pool_free ?pool) = add_mset obj (mset (pool_free ?pool'))"
      using pool_free_update[OF i1, where fl = "free_list pool1" and lc = ?lc] Cons p1 i by simp
    have cs: "\<forall>l\<in>set (locals ?pool'). sl_count l = length (sl_free_list l)"
    proof
      fix l assume "l \<in> set (locals ?pool')"
      then have "l = ?lc \<or> l \<in> set (locals pool)"
        using set_update_subset_insert[of "locals pool1" i ?lc] p1 by auto
      then show "sl_count l = length (sl_free_list l)" using ok p1 Cons by (auto simp: pool_ok_def)
    qed
    have "pool_ok ?pool' (insert obj U) h1 \<and> obj \<notin> U \<and> 32 < obj \<and> obj < brk h1"
      by (rule pool_ok_take[OF conjunct1[OF p1] m _ _ _ _ _ cs]) (simp_all add: pool_objects_def)
    then show ?thesis using eq p1 by auto
  qed
qed

lemma acquire_global_ok:
  assumes ok: "pool_ok pool U h" and a: "mtpndd_slab_pool_acquire pool w h = (x, pool', h', ns)"
    and loc: "\<not> has_local pool w"
  shows "brk h \<le> brk h' \<and> mem_limit h' = mem_limit h
         \<and> (if x = NULL then pool_ok pool' U h' \<and> \<not> slab_fits pool h \<and> mem_failed h'
            else pool_ok pool' (insert x U) h' \<and> x \<notin> U \<and> 32 < x \<and> x < brk h')"
proof -
  obtain st pool1 h1 where g: "(if free_list pool = [] then mtpndd_slab_pool_grow pool h
                                else (MTPNDD_SUCCESS, pool, h)) = (st, pool1, h1)"
    by (metis prod_cases3)
  have p1: "pool_ok pool1 U h1 \<and> brk h \<le> brk h1 \<and> mem_limit h1 = mem_limit h
            \<and> (st = MTPNDD_SUCCESS \<longrightarrow> free_list pool1 \<noteq> [])
            \<and> (st \<noteq> MTPNDD_SUCCESS \<longrightarrow> \<not> slab_fits pool h \<and> mem_failed h1)"
    using g grow_ok[OF ok, of st pool1 h1] ok by (cases "free_list pool = []") auto
  show ?thesis
  proof (cases "st = MTPNDD_SUCCESS")
    case True
    then obtain obj rest where fl: "free_list pool1 = obj # rest"
      using p1 by (cases "free_list pool1") auto
    let ?pool' = "pool1\<lparr>free_list := rest, in_use_global := in_use_global pool1 + 1\<rparr>"
    have eq: "x = obj" "pool' = ?pool'" "h' = h1"
      using a loc g fl True by (auto simp: mtpndd_slab_pool_acquire_def split: if_splits)
    have "pool_ok ?pool' (insert obj U) h1 \<and> obj \<notin> U \<and> 32 < obj \<and> obj < brk h1"
      by (rule pool_ok_take[OF conjunct1[OF p1]])
        (use fl p1 in \<open>auto simp: pool_free_def pool_objects_def pool_ok_def\<close>)
    then show ?thesis using eq p1 by auto
  next
    case stF: False
    then have "x = NULL" "pool' = pool1" "h' = h1"
      using a loc g by (auto simp: mtpndd_slab_pool_acquire_def split: if_splits)
    then show ?thesis using p1 stF by simp
  qed
qed

lemma acquire_ok:
  assumes "pool_ok pool U h" and "mtpndd_slab_pool_acquire pool w h = (x, pool', h', ns)"
  shows "brk h \<le> brk h' \<and> mem_limit h' = mem_limit h
         \<and> (if x = NULL then pool_ok pool' U h' \<and> \<not> slab_fits pool h \<and> mem_failed h'
            else pool_ok pool' (insert x U) h' \<and> x \<notin> U \<and> 32 < x \<and> x < brk h')"
  using acquire_local_ok[OF assms] acquire_global_ok[OF assms] by blast

text \<open>
  What the library relies on for the pools whose objects it does not account for: a pool that
  is set up and has no null pointer on a free list returns \<open>NULL\<close> only when \<open>malloc\<close> failed.
\<close>

definition pool_ready :: "slab_pool \<Rightarrow> bool" where
  "pool_ready pool \<longleftrightarrow> slab_sized pool \<and> lock_initialized pool \<and> 0 < refill_batch pool \<and> NULL \<notin> set (free_list pool)
     \<and> (\<forall>lc\<in>set (locals pool). NULL \<notin> set (sl_free_list lc))"

lemma refill_move_set:
  "refill_move k fl lc = (fl', lc') \<Longrightarrow>
     set fl' \<union> set (sl_free_list lc') = set fl \<union> set (sl_free_list lc)
     \<and> (fl \<noteq> [] \<and> 0 < k \<or> sl_free_list lc \<noteq> [] \<longrightarrow> sl_free_list lc' \<noteq> [])"
  by (induction k fl lc rule: refill_move.induct) (auto split: if_splits)

lemma spill_move_set:
  "spill_move k half fl lc = (fl', lc') \<Longrightarrow>
     set fl' \<union> set (sl_free_list lc') = set fl \<union> set (sl_free_list lc)"
  by (induction k half fl lc rule: spill_move.induct) (auto split: list.splits if_splits)

lemma set_fold_Cons: "set (fold (#) xs ys) = set xs \<union> set ys"
  by (induction xs arbitrary: ys) auto

lemma ready_upd:
  "pool_ready pool \<Longrightarrow> NULL \<notin> set (sl_free_list lc) \<Longrightarrow>
     pool_ready (pool\<lparr>locals := (locals pool)[i := lc]\<rparr>)"
  by (auto simp: pool_ready_def dest!: subsetD[OF set_update_subset_insert])

lemma c_malloc_mono:
  "c_malloc n h = (p, h') \<Longrightarrow> brk h \<le> brk h' \<and> mem_limit h' = mem_limit h
     \<and> (mem_failed h \<or> p = NULL \<and> 0 < brk h \<longrightarrow> mem_failed h')"
  by (auto simp: c_malloc_def split: if_splits)

lemma grow_mono:
  "mtpndd_slab_pool_grow pool h = (st, pool', h') \<Longrightarrow> brk h \<le> brk h' \<and> mem_limit h' = mem_limit h
     \<and> (mem_failed h \<or> st \<noteq> MTPNDD_SUCCESS \<and> 0 < brk h \<longrightarrow> mem_failed h')
     \<and> (st = MTPNDD_SUCCESS \<longrightarrow> free_list pool' \<noteq> []) \<and> locals pool' = locals pool
     \<and> (pool_ready pool \<longrightarrow> pool_ready pool')"
proof -
  assume g: "mtpndd_slab_pool_grow pool h = (st, pool', h')"
  obtain b h1 where c: "c_malloc (slab_block_size pool) h = (b, h1)" by fastforce
  have "slab_objects pool b \<noteq> []" by (simp add: slab_objects_def slab_capacity_def)
  then have "set (fold (#) (slab_objects pool b) (free_list pool)) \<noteq> {}" by (simp add: set_fold_Cons)
  then have ne: "fold (#) (slab_objects pool b) (free_list pool) \<noteq> []" by auto
  have "NULL \<notin> set (slab_objects pool b)" by (auto simp: slab_objects_def)
  then show ?thesis using g c c_malloc_mono[OF c] ne
    by (auto simp: mtpndd_slab_pool_grow_def pool_ready_def set_fold_Cons split: if_splits)
qed

lemma refill_mono:
  assumes "mtpndd_slab_pool_refill_local pool lc h ns = (pool', lc', h', ns')"
  shows "brk h \<le> brk h' \<and> mem_limit h' = mem_limit h \<and> (mem_failed h \<longrightarrow> mem_failed h')
     \<and> locals pool' = locals pool
     \<and> (pool_ready pool \<and> NULL \<notin> set (sl_free_list lc) \<longrightarrow>
          pool_ready pool' \<and> NULL \<notin> set (sl_free_list lc')
          \<and> (sl_free_list lc' = [] \<and> 0 < brk h \<longrightarrow> mem_failed h'))"
proof (cases "lock_initialized pool")
  case True
  obtain st pool1 h1 where g: "(if free_list pool = [] then mtpndd_slab_pool_grow pool h
                                else (MTPNDD_SUCCESS, pool, h)) = (st, pool1, h1)"
    by (metis prod_cases3)
  have p1: "brk h \<le> brk h1 \<and> mem_limit h1 = mem_limit h \<and> (mem_failed h \<longrightarrow> mem_failed h1)
     \<and> (st \<noteq> MTPNDD_SUCCESS \<and> 0 < brk h \<longrightarrow> mem_failed h1)
     \<and> (st = MTPNDD_SUCCESS \<longrightarrow> free_list pool1 \<noteq> []) \<and> locals pool1 = locals pool
     \<and> (pool_ready pool \<longrightarrow> pool_ready pool1)"
    using g grow_mono[of pool h st pool1 h1] by (cases "free_list pool = []") auto
  obtain fl lc1 where m: "refill_move (refill_batch pool1) (free_list pool1) lc = (fl, lc1)" by fastforce
  have r: "(pool', lc', h') = (if st = MTPNDD_SUCCESS then (pool1\<lparr>free_list := fl\<rparr>, lc1, h1) else (pool1, lc, h1))"
    using assms True g m by (auto simp: mtpndd_slab_pool_refill_local_def split: prod.splits if_splits)
  show ?thesis using r p1 refill_move_set[OF m]
    by (auto simp: pool_ready_def split: if_splits)
qed (use assms in \<open>auto simp: mtpndd_slab_pool_refill_local_def pool_ready_def\<close>)

lemma acquire_mono:
  assumes "mtpndd_slab_pool_acquire pool w h = (x, pool', h', ns)"
  shows "brk h \<le> brk h' \<and> mem_limit h' = mem_limit h \<and> (mem_failed h \<longrightarrow> mem_failed h')
     \<and> (pool_ready pool \<longrightarrow> pool_ready pool' \<and> (x = NULL \<and> 0 < brk h \<longrightarrow> mem_failed h'))"
proof (cases "has_local pool w")
  case True
  let ?lc = "locals pool ! nat w"
  have wl: "pool_ready pool \<Longrightarrow> NULL \<notin> set (sl_free_list ?lc)"
    using True nth_mem[of "nat w" "locals pool"] by (auto simp: pool_ready_def has_local_def)
  obtain pool1 lc1 h1 ns1 where
    r: "(if sl_free_list ?lc = [] then mtpndd_slab_pool_refill_local pool ?lc h False
         else (pool, ?lc, h, False)) = (pool1, lc1, h1, ns1)"
    by (metis prod_cases4)
  have p1: "brk h \<le> brk h1 \<and> mem_limit h1 = mem_limit h \<and> (mem_failed h \<longrightarrow> mem_failed h1)
     \<and> (pool_ready pool \<longrightarrow> pool_ready pool1 \<and> NULL \<notin> set (sl_free_list lc1)
          \<and> (sl_free_list lc1 = [] \<and> 0 < brk h \<longrightarrow> mem_failed h1))"
    using r refill_mono[of pool ?lc h False pool1 lc1 h1 ns1] wl by (cases "sl_free_list ?lc = []") auto
  have rd: "pool_ready pool1 \<Longrightarrow> NULL \<notin> set (sl_free_list l) \<Longrightarrow>
      pool_ready (pool1\<lparr>locals := (locals pool1)[nat w := l]\<rparr>)" for l by (rule ready_upd)
  show ?thesis
  proof (cases "sl_free_list lc1")
    case Nil
    then show ?thesis using assms True r p1 rd[of lc1] by (auto simp: mtpndd_slab_pool_acquire_def Let_def)
  next
    case (Cons obj rest)
    let ?l = "lc1\<lparr>sl_free_list := rest, sl_count := (if 0 < sl_count lc1 then sl_count lc1 - 1 else sl_count lc1),
               sl_in_use := sl_in_use lc1 + 1\<rparr>"
    have "x = obj" "pool' = pool1\<lparr>locals := (locals pool1)[nat w := ?l]\<rparr>" "h' = h1"
      using assms True r Cons by (auto simp: mtpndd_slab_pool_acquire_def Let_def)
    then show ?thesis using p1 rd[of ?l] Cons by auto
  qed
next
  case False
  obtain st pool1 h1 where g: "(if free_list pool = [] then mtpndd_slab_pool_grow pool h
                                else (MTPNDD_SUCCESS, pool, h)) = (st, pool1, h1)"
    by (metis prod_cases3)
  have p1: "brk h \<le> brk h1 \<and> mem_limit h1 = mem_limit h \<and> (mem_failed h \<longrightarrow> mem_failed h1)
     \<and> (st \<noteq> MTPNDD_SUCCESS \<and> 0 < brk h \<longrightarrow> mem_failed h1)
     \<and> (st = MTPNDD_SUCCESS \<longrightarrow> free_list pool1 \<noteq> []) \<and> (pool_ready pool \<longrightarrow> pool_ready pool1)"
    using g grow_mono[of pool h st pool1 h1] by (cases "free_list pool = []") auto
  have "(x, pool', h') = (if st \<noteq> MTPNDD_SUCCESS then (NULL, pool1, h1)
      else (hd (free_list pool1), pool1\<lparr>free_list := tl (free_list pool1), in_use_global := in_use_global pool1 + 1\<rparr>, h1))"
    using assms False g p1 by (cases "free_list pool1") (auto simp: mtpndd_slab_pool_acquire_def split: if_splits)
  then show ?thesis using p1 by (cases "free_list pool1") (auto simp: pool_ready_def split: if_splits)
qed

lemma release_ready:
  assumes "pool_ready pool" shows "pool_ready (mtpndd_slab_pool_release pool w x)"
proof (cases "x = NULL \<or> \<not> has_local pool w")
  case True
  then show ?thesis using assms by (auto simp: mtpndd_slab_pool_release_def pool_ready_def)
next
  case False
  let ?lc = "locals pool ! nat w"
  let ?l = "?lc\<lparr>sl_free_list := x # sl_free_list ?lc, sl_count := sl_count ?lc + 1,
              sl_in_use := (if 0 < sl_in_use ?lc then sl_in_use ?lc - 1 else sl_in_use ?lc)\<rparr>"
  have l0: "NULL \<notin> set (sl_free_list ?l)"
    using assms False nth_mem[of "nat w" "locals pool"] by (auto simp: pool_ready_def has_local_def)
  obtain fl lc2 where m: "spill_move (refill_batch pool) (local_max pool div 2) (free_list pool) ?l = (fl, lc2)"
    by fastforce
  have "pool_ready (pool\<lparr>free_list := fl\<rparr>)" "NULL \<notin> set (sl_free_list lc2)"
    using assms l0 spill_move_set[OF m] by (auto simp: pool_ready_def)
  then have "pool_ready (pool\<lparr>free_list := fl, locals := (locals pool)[nat w := lc2]\<rparr>)"
    using ready_upd[of "pool\<lparr>free_list := fl\<rparr>" lc2 "nat w"] by simp
  then show ?thesis using False m ready_upd[OF assms l0] assms
    by (auto simp: mtpndd_slab_pool_release_def mtpndd_slab_pool_spill_local_def Let_def pool_ready_def)
qed

lemma pool_ok_give:
  assumes ok: "pool_ok pool U h" and x: "x \<in> U"
    and m: "mset (pool_free pool') = add_mset x (mset (pool_free pool))"
    and eq: "pool_objects pool' = pool_objects pool" "object_size pool' = object_size pool" "slab_sized pool' = slab_sized pool"
      "lock_initialized pool' = lock_initialized pool" "refill_batch pool' = refill_batch pool"
      "\<forall>lc\<in>set (locals pool'). sl_count lc = length (sl_free_list lc)"
  shows "pool_ok pool' (U - {x}) h"
proof -
  have "mset_set U = add_mset x (mset_set (U - {x}))"
    using x ok by (metis mset_set.remove pool_ok_def)
  then show ?thesis using ok eq m by (simp add: pool_ok_def)
qed

lemma release_ok:
  assumes ok: "pool_ok pool U h" and x: "x \<in> U"
  shows "pool_ok (mtpndd_slab_pool_release pool w x) (U - {x}) h"
proof -
  have "x \<in># mset (pool_objects pool)" using ok x by (auto simp: pool_ok_def)
  then have x0: "x \<noteq> NULL" using ok by (auto simp: pool_ok_def)
  have lcs: "\<forall>l\<in>set (locals pool). sl_count l = length (sl_free_list l)"
    and lk: "lock_initialized pool" using ok by (auto simp: pool_ok_def)
  show ?thesis
  proof (cases "has_local pool w")
    case True
    define i where "i = nat w"
    have i: "i < length (locals pool)" using True by (simp add: i_def has_local_def)
    let ?lc0 = "locals pool ! i"
    let ?lc = "?lc0\<lparr>sl_free_list := x # sl_free_list ?lc0, sl_count := sl_count ?lc0 + 1,
                 sl_in_use := (if 0 < sl_in_use ?lc0 then sl_in_use ?lc0 - 1 else sl_in_use ?lc0)\<rparr>"
    have cnt: "sl_count ?lc = length (sl_free_list ?lc)" using lcs i by simp
    obtain fl lc where
      sp: "(if local_max pool < sl_count ?lc
            then spill_move (refill_batch pool) (local_max pool div 2) (free_list pool) ?lc
            else (free_list pool, ?lc)) = (fl, lc)" by fastforce
    have ms: "mset fl + mset (sl_free_list lc) = mset (free_list pool) + mset (sl_free_list ?lc)
              \<and> sl_count lc = length (sl_free_list lc)"
      using sp spill_move_spec[OF _ cnt, of "refill_batch pool" "local_max pool div 2"
          "free_list pool" fl lc] cnt by (auto split: if_splits)
    let ?pool' = "pool\<lparr>free_list := fl, locals := (locals pool)[i := lc]\<rparr>"
    have eq: "mtpndd_slab_pool_release pool w x = ?pool'"
    proof (cases "local_max pool < sl_count ?lc")
      case spill: True
      then have "spill_move (refill_batch pool) (local_max pool div 2) (free_list pool) ?lc = (fl, lc)"
        using sp by simp
      then show ?thesis using True x0 lk spill
        by (simp add: mtpndd_slab_pool_release_def mtpndd_slab_pool_spill_local_def
            i_def[symmetric] Let_def)
    next
      case False
      then have "fl = free_list pool" "lc = ?lc" using sp by (simp_all add: prod_eq_iff)
      then show ?thesis using True x0 False
        by (simp add: mtpndd_slab_pool_release_def i_def[symmetric] Let_def)
    qed
    have m: "mset (pool_free ?pool') = add_mset x (mset (pool_free pool))"
      using pool_free_update[OF i, where fl = fl and lc = lc] ms by (simp add: add.assoc)
    have "\<forall>l\<in>set (locals ?pool'). sl_count l = length (sl_free_list l)"
      using set_update_subset_insert[of "locals pool" i lc] ms lcs by auto
    then show ?thesis unfolding eq
      by (intro pool_ok_give[OF ok x m]) (simp_all add: pool_objects_def)
  next
    case False
    show ?thesis
      by (rule pool_ok_give[OF ok x])
        (use False x0 lcs in \<open>simp_all add: mtpndd_slab_pool_release_def pool_free_def
            pool_objects_def\<close>)
  qed
qed

section \<open>The contract of a pool\<close>

text \<open>
  What the clients of a pool rely on, whatever the pool is: an acquired object is not one a
  client still holds, a held object can be given back by any worker.  A client is a sequence
  of commands; \<open>pool_run\<close> collects the objects it holds and stops (\<open>None\<close>) at a release of
  an object it does not hold.
\<close>

datatype pool_cmd = PAcquire int | PRelease int ptr

fun pool_run ::
  "('p \<Rightarrow> int \<Rightarrow> 'h \<Rightarrow> ptr \<times> 'p \<times> 'h \<times> bool) \<Rightarrow> ('p \<Rightarrow> int \<Rightarrow> ptr \<Rightarrow> 'p)
   \<Rightarrow> pool_cmd list \<Rightarrow> 'p \<times> ptr list \<times> 'h \<Rightarrow> ('p \<times> ptr list \<times> 'h) option" where
  "pool_run acq rel [] st = Some st"
| "pool_run acq rel (PAcquire w # cs) (pool, held, h) =
     (let (x, pool, h, _) = acq pool w h
      in pool_run acq rel cs (pool, if x = NULL then held else x # held, h))"
| "pool_run acq rel (PRelease w x # cs) (pool, held, h) =
     (if x \<in> set held then pool_run acq rel cs (rel pool w x, remove1 x held, h) else None)"

locale object_pool =
  fixes acq :: "'p \<Rightarrow> int \<Rightarrow> 'h \<Rightarrow> ptr \<times> 'p \<times> 'h \<times> bool"
    and rel :: "'p \<Rightarrow> int \<Rightarrow> ptr \<Rightarrow> 'p"
    and ok :: "'p \<Rightarrow> ptr set \<Rightarrow> 'h \<Rightarrow> bool"
  assumes acq_null: "ok pool U h \<Longrightarrow> acq pool w h = (NULL, pool', h', ns) \<Longrightarrow> ok pool' U h'"
    and acq_fresh: "ok pool U h \<Longrightarrow> acq pool w h = (x, pool', h', ns) \<Longrightarrow> x \<noteq> NULL
                    \<Longrightarrow> x \<notin> U \<and> ok pool' (insert x U) h'"
    and rel_ok: "ok pool U h \<Longrightarrow> x \<in> U \<Longrightarrow> ok (rel pool w x) (U - {x}) h"
begin

lemma run_distinct:
  assumes "pool_run acq rel cs (pool, held, h) = Some (pool', held', h')"
    and "ok pool (set held) h" "distinct held"
  shows "distinct held' \<and> ok pool' (set held') h'"
  using assms
proof (induction cs arbitrary: pool held h)
  case (Cons c cs)
  show ?case
  proof (cases c)
    case (PAcquire w)
    obtain x p1 h1 ns where a: "acq pool w h = (x, p1, h1, ns)" by (metis prod_cases4)
    show ?thesis
    proof (cases "x = NULL")
      case True
      then show ?thesis using Cons PAcquire a acq_null by auto
    next
      case False
      from acq_fresh[OF Cons.prems(2) a False] show ?thesis
        using Cons PAcquire a False by auto
    qed
  next
    case (PRelease w x)
    then have x: "x \<in> set held" using Cons.prems(1) by (auto split: if_splits)
    moreover have "set (remove1 x held) = set held - {x}" using Cons.prems(3) by simp
    ultimately show ?thesis
      using Cons.IH[of "rel pool w x" "remove1 x held" h] Cons.prems PRelease
        rel_ok[OF Cons.prems(2) x, of w] by (simp add: distinct_remove1)
  qed
qed simp

end

interpretation slab: object_pool mtpndd_slab_pool_acquire mtpndd_slab_pool_release pool_ok
proof
  fix pool pool' :: slab_pool and U h h' w x ns
  assume "pool_ok pool U h" "mtpndd_slab_pool_acquire pool w h = (x, pool', h', ns)" "x \<noteq> NULL"
  then show "x \<notin> U \<and> pool_ok pool' (insert x U) h'" using acquire_ok by fastforce
next
  fix pool pool' :: slab_pool and U h h' w ns
  assume "pool_ok pool U h" "mtpndd_slab_pool_acquire pool w h = (NULL, pool', h', ns)"
  then show "pool_ok pool' U h'" using acquire_ok by fastforce
qed (rule release_ok)

text \<open>A pool set up for objects of at least one byte, before any object is handed out.\<close>

lemma word_8_not_le_1: "\<not> (8 :: 64 word) \<le> 1"
  by code_simp

lemma align_size_8:
  assumes "0 < n" "n + 7 < 2 ^ 64"
  shows "8 \<le> unat (mtpndd_align_size (word_of_nat n) 8)
         \<and> n \<le> unat (mtpndd_align_size (word_of_nat n) 8)
         \<and> unat (mtpndd_align_size (word_of_nat n) 8) = (n + 7) div 8 * 8"
proof -
  let ?w = "word_of_nat n + 7 :: 64 word"
  have u: "unat ?w = n + 7"
    using assms(2) unat_of_nat[of "n + 7", where 'a = 64] by simp
  have m7: "(7 :: 64 word) = mask 3" by (simp add: mask_eq_exp_minus_1)
  have "?w AND NOT 7 = push_bit 3 (drop_bit 3 ?w)"
    unfolding m7 by (rule bit_eqI) (auto simp: bit_simps)
  moreover have "unat (push_bit 3 (drop_bit 3 ?w)) = (n + 7) div 8 * 8"
    using assms(2)
    by (simp only: unsigned_push_bit_eq unsigned_drop_bit_eq u)
      (simp add: push_bit_eq_mult drop_bit_eq_div take_bit_eq_mod)
  ultimately have "unat (mtpndd_align_size (word_of_nat n) 8) = (n + 7) div 8 * 8"
    by (simp add: mtpndd_align_size_def word_8_not_le_1 add.commute)
  then show ?thesis using assms(1) by presburger
qed

lemma pool_ok_brk_mono: "pool_ok pool U h \<Longrightarrow> brk h \<le> brk h' \<Longrightarrow> pool_ok pool U h'"
  unfolding pool_ok_def by (meson less_le_trans)

lemma pool_ok_new_locals:
  assumes "pool_ok pool U h" "locals pool = []"
  shows "pool_ok (pool\<lparr>locals := replicate k \<lparr>sl_free_list = [], sl_count = 0, sl_in_use = 0\<rparr>\<rparr>)
           U h"
  using assms by (simp add: pool_ok_def pool_objects_def pool_free_def)

lemma init_locals_shape:
  assumes "mtpndd_slab_pool_init_locals pool n h = (r, pool', h')"
  shows "brk h \<le> brk h' \<and> (pool' = pool \<or> locals pool = [] \<and>
     pool' = pool\<lparr>locals := replicate (max 1 n) \<lparr>sl_free_list = [], sl_count = 0, sl_in_use = 0\<rparr>\<rparr>)"
  using assms
  by (cases "n = 0") (auto simp: mtpndd_slab_pool_init_locals_def c_malloc_def Let_def
      split: if_splits)

lemma slab_fits_size:
  assumes "8 + (sz + 7) div 8 * 8 * max 1 cap < (2 :: nat) ^ 64"
  shows "sz + 7 < 2 ^ 64"
proof -
  have "(sz + 7) div 8 * 8 \<le> (sz + 7) div 8 * 8 * max 1 cap" by simp
  moreover have "sz \<le> (sz + 7) div 8 * 8" by presburger
  ultimately show ?thesis using assms by linarith
qed

lemma setup_sized:
  assumes "0 < sz" "8 + (sz + 7) div 8 * 8 * max 1 cap < 2 ^ 64"
  shows "slab_sized (mtpndd_slab_pool_setup pool sz 8 cap b lm)"
  using align_size_8[OF assms(1) slab_fits_size[OF assms(2)]] assms(2)
  by (auto simp: slab_sized_def slab_capacity_def mtpndd_slab_pool_setup_def mtpndd_slab_pool_reset_def max_def
      mult.commute split: if_splits)

lemma setup_ok:
  assumes "0 < sz" "8 + (sz + 7) div 8 * 8 * max 1 cap < 2 ^ 64" "32 < brk h"
    and "mtpndd_slab_pool_init_locals (mtpndd_slab_pool_setup pool sz 8 cap b lm) n h = (r, pool', h')"
  shows "pool_ok pool' {} h'"
proof -
  let ?p = "mtpndd_slab_pool_setup pool sz 8 cap b lm"
  have "8 \<le> unat (mtpndd_align_size (word_of_nat sz) 8)" using align_size_8[OF assms(1) slab_fits_size[OF assms(2)]] by blast
  then have "pool_ok ?p {} h"
    using assms(3) setup_sized[OF assms(1,2), of pool b lm]
    by (simp add: mtpndd_slab_pool_setup_def mtpndd_slab_pool_reset_def pool_ok_def
        pool_objects_def pool_free_def Let_def MTPNDD_POOL_REFILL_BATCH_DEFAULT_def)
  then show ?thesis
    using init_locals_shape[OF assms(4)] pool_ok_new_locals pool_ok_brk_mono by metis
qed

text \<open>
  C35. Starting from a pool that has just been set up, with an object size and a slab capacity for
  which the size of a slab fits in \<open>size_t\<close>, no sequence of acquires and releases by any workers makes
  the clients hold one object twice: the held objects are distinct, their addresses lie inside the memory
  allocated so far, and every other object of every slab is on exactly one free list.
\<close>

theorem pool_never_double_allocates:
  assumes "0 < sz" "8 + (sz + 7) div 8 * 8 * max 1 cap < 2 ^ 64" "32 < brk h0"
    and "mtpndd_slab_pool_init_locals (mtpndd_slab_pool_setup pool0 sz 8 cap b lm) n h0
         = (r, pool, h)"
    and "pool_run mtpndd_slab_pool_acquire mtpndd_slab_pool_release cs (pool, [], h)
         = Some (pool', held, h')"
  shows "distinct held \<and> pool_ok pool' (set held) h'"
  using slab.run_distinct[OF assms(5)] setup_ok[OF assms(1-4)] by simp

definition pool_zero :: slab_pool where
  "pool_zero =
     \<lparr>object_size = 0, objects_per_slab = 0, free_list = [], blocks = [], slab_count = 0,
      in_use_global = 0, refill_batch = 0, local_max = 0, lock_initialized = False, locals = []\<rparr>"

definition demo_heap :: c_heap where
  "demo_heap = \<lparr>brk = 4096, mem_limit = 2 ^ 40, mem_failed = False\<rparr>"

definition demo_pool :: "slab_pool \<times> c_heap" where
  "demo_pool =
     snd (mtpndd_slab_pool_init_locals
            (mtpndd_slab_pool_setup pool_zero 16 8 2 1 2) 2 demo_heap)"

definition demo_pool_run where
  "demo_pool_run = pool_run mtpndd_slab_pool_acquire mtpndd_slab_pool_release
     [PAcquire 0, PAcquire 1, PAcquire 0, PRelease 1 4248, PAcquire 1]
     (fst demo_pool, [], snd demo_pool)"

theorem pool_never_double_allocates_witness:
  "\<exists>pool' held h'. demo_pool_run = Some (pool', held, h') \<and> held = [4248, 4288, 4232]
     \<and> distinct held \<and> pool_ok pool' (set held) h'"
proof -
  have set_up: "mtpndd_slab_pool_init_locals (mtpndd_slab_pool_setup pool_zero 16 8 2 1 2) 2 demo_heap
                = (True, fst demo_pool, snd demo_pool)" by code_simp
  have "map_option (\<lambda>(_, held, _). held) demo_pool_run = Some [4248, 4288, 4232]" by code_simp
  then obtain pool' h' where run: "demo_pool_run = Some (pool', [4248, 4288, 4232], h')" by auto
  have "distinct [4248, 4288, 4232 :: ptr] \<and> pool_ok pool' (set [4248, 4288, 4232]) h'"
    by (rule pool_never_double_allocates[OF _ _ _ set_up run[unfolded demo_pool_run_def]])
      (simp_all add: demo_heap_def)
  with run show ?thesis by blast
qed

end
