(* ===== verification/Ref_Count.thy ===== *)
theory Ref_Count
  imports Memory_Pool
begin

text \<open>
  Reference counts (\<open>mtpndd_ref\<close>, \<open>mtpndd_deref\<close>, \<open>mtpndd_protect\<close>, \<open>mtpndd_unprotect\<close> of
  \<open>mtpndd_nodetable.c\<close>) and the per-worker stack of temporary references of \<open>mtpndd_node.c\<close>.
  A count is a 32-bit word; the value \<open>UINT32_MAX\<close> marks a node that is never collected.  The
  items of the temporary stack are kept top first.
\<close>

section \<open>Operations\<close>

definition set_ref_count :: "ptr \<Rightarrow> 32 word \<Rightarrow> mstate \<Rightarrow> mstate option" where
  "set_ref_count p c s =
     (case nodes s p of
        None \<Rightarrow> None
      | Some nd \<Rightarrow> Some (s\<lparr>nodes := (nodes s)(p \<mapsto> nd\<lparr>ref_count := c\<rparr>)\<rparr>))"

definition mtpndd_ref :: "ptr \<Rightarrow> mstate \<Rightarrow> (mtpndd_error \<times> mstate) option" where
  "mtpndd_ref p s =
     (if p = NULL
      then Some (MTPNDD_ERROR_NULL_POINTER,
                 mtpndd_set_error MTPNDD_ERROR_NULL_POINTER ''mtpndd_ref'' 253 s)
      else do {
        nd \<leftarrow> nodes s p;
        if ref_count nd = - 1 then Some (MTPNDD_SUCCESS, s)
        else do {
          s \<leftarrow> set_ref_count p (ref_count nd + 1) s;
          Some (MTPNDD_SUCCESS, s)
        }
      })"

definition mtpndd_deref :: "ptr \<Rightarrow> mstate \<Rightarrow> (mtpndd_error \<times> mstate) option" where
  "mtpndd_deref p s =
     (if p = NULL
      then Some (MTPNDD_ERROR_NULL_POINTER,
                 mtpndd_set_error MTPNDD_ERROR_NULL_POINTER ''mtpndd_deref'' 266 s)
      else do {
        nd \<leftarrow> nodes s p;
        if ref_count nd = - 1 then Some (MTPNDD_SUCCESS, s)
        else do {
          s \<leftarrow> set_ref_count p (ref_count nd - 1) s;
          Some (MTPNDD_SUCCESS, s)
        }
      })"

definition mtpndd_protect :: "ptr \<Rightarrow> mstate \<Rightarrow> (mtpndd_error \<times> mstate) option" where
  "mtpndd_protect p s =
     (if p = NULL
      then Some (MTPNDD_ERROR_NULL_POINTER,
                 mtpndd_set_error MTPNDD_ERROR_NULL_POINTER ''mtpndd_protect'' 279 s)
      else do {
        s \<leftarrow> set_ref_count p (- 1) s;
        Some (MTPNDD_SUCCESS, s)
      })"

definition mtpndd_unprotect :: "ptr \<Rightarrow> mstate \<Rightarrow> (mtpndd_error \<times> mstate) option" where
  "mtpndd_unprotect p s =
     (if p = NULL
      then Some (MTPNDD_ERROR_NULL_POINTER,
                 mtpndd_set_error MTPNDD_ERROR_NULL_POINTER ''mtpndd_unprotect'' 288 s)
      else do {
        s \<leftarrow> set_ref_count p 0 s;
        Some (MTPNDD_SUCCESS, s)
      })"

text \<open>
  \<open>if (!mtpndd_is_terminal(child)) mtpndd_ref(child)\<close> and its opposite; with the test
  \<open>child &&\<close> in front in \<open>ref_child\<close> and \<open>deref_child\<close>.
\<close>

definition ref_nonterminal :: "ptr \<Rightarrow> mstate \<Rightarrow> mstate option" where
  "ref_nonterminal p s = do {
     t \<leftarrow> mtpndd_is_terminal s p;
     if t then Some s else do { (_, s) \<leftarrow> mtpndd_ref p s; Some s }
   }"

definition deref_nonterminal :: "ptr \<Rightarrow> mstate \<Rightarrow> mstate option" where
  "deref_nonterminal p s = do {
     t \<leftarrow> mtpndd_is_terminal s p;
     if t then Some s else do { (_, s) \<leftarrow> mtpndd_deref p s; Some s }
   }"

definition ref_child :: "ptr \<Rightarrow> mstate \<Rightarrow> mstate option" where
  "ref_child p s = (if p = NULL then Some s else ref_nonterminal p s)"

definition deref_child :: "ptr \<Rightarrow> mstate \<Rightarrow> mstate option" where
  "deref_child p s = (if p = NULL then Some s else deref_nonterminal p s)"

fun iter_state :: "('a \<Rightarrow> mstate \<Rightarrow> mstate option) \<Rightarrow> 'a list \<Rightarrow> mstate \<Rightarrow> mstate option" where
  "iter_state f [] s = Some s"
| "iter_state f (x # xs) s = do { s \<leftarrow> f x s; iter_state f xs s }"

section \<open>Temporary references\<close>

definition mtpndd_temp_ref_pool_init :: temp_ref_pool where
  "mtpndd_temp_ref_pool_init = \<lparr>tr_items = [], tr_capacity = 32, tr_inline = True\<rparr>"

text \<open>The frame of a call is the height of the stack when the call began.\<close>

definition mtpndd_temp_refs_init :: "mstate \<Rightarrow> nat" where
  "mtpndd_temp_refs_init s = length (tr_items (temp_refs_pool s))"

definition mtpndd_temp_refs_reserve_slot :: "mstate \<Rightarrow> bool \<times> mstate" where
  "mtpndd_temp_refs_reserve_slot s =
     (let pool = temp_refs_pool s
      in if length (tr_items pool) = tr_capacity pool
         then let new_cap = (if tr_capacity pool \<noteq> 0 then tr_capacity pool * 2 else 64);
                  (next, s) = malloc (new_cap * 8) s
              in if next = NULL then (False, s)
                 else (True, s\<lparr>temp_refs_pool := pool\<lparr>tr_capacity := new_cap, tr_inline := False\<rparr>\<rparr>)
         else (True, s))"

definition temp_refs_put :: "ptr \<Rightarrow> mstate \<Rightarrow> mstate" where
  "temp_refs_put p s =
     s\<lparr>temp_refs_pool := (temp_refs_pool s)\<lparr>tr_items := p # tr_items (temp_refs_pool s)\<rparr>\<rparr>"

definition mtpndd_temp_refs_push :: "ptr \<Rightarrow> mstate \<Rightarrow> (bool \<times> mstate) option" where
  "mtpndd_temp_refs_push p s =
     (if p = NULL then Some (True, s)
      else let (ok, s) = mtpndd_temp_refs_reserve_slot s
           in if \<not> ok then Some (False, s)
              else do {
                (_, s) \<leftarrow> mtpndd_ref p s;
                Some (True, temp_refs_put p s)
              })"

definition mtpndd_temp_refs_push_owned :: "ptr \<Rightarrow> mstate \<Rightarrow> bool \<times> mstate" where
  "mtpndd_temp_refs_push_owned p s =
     (if p = NULL then (True, s)
      else let (ok, s) = mtpndd_temp_refs_reserve_slot s
           in if \<not> ok then (False, s) else (True, temp_refs_put p s))"

text \<open>\<open>while (pool->count > list->frame_base) mtpndd_deref(pool->items[--pool->count])\<close>\<close>

fun temp_refs_pop :: "nat \<Rightarrow> mstate \<Rightarrow> mstate option" where
  "temp_refs_pop 0 s = Some s"
| "temp_refs_pop (Suc k) s =
     (case tr_items (temp_refs_pool s) of
        [] \<Rightarrow> None
      | p # rest \<Rightarrow> do {
          (_, s) \<leftarrow> mtpndd_deref p (s\<lparr>temp_refs_pool := (temp_refs_pool s)\<lparr>tr_items := rest\<rparr>\<rparr>);
          temp_refs_pop k s
        })"

definition mtpndd_temp_refs_release :: "nat \<Rightarrow> mstate \<Rightarrow> mstate option" where
  "mtpndd_temp_refs_release frame_base s =
     temp_refs_pop (length (tr_items (temp_refs_pool s)) - frame_base) s"

end
