(* ===== verification/Edge_Map.thy ===== *)
theory Edge_Map
  imports Ref_Count
begin

text \<open>
  The edge maps of \<open>mtpndd_node.c\<close>: a hash map from child to BDD label, chained, keyed by the
  content hash of the child.  \<open>mtpndd_add_edge\<close> is the map's only insertion: it merges the new
  label into the label of an entry with the same child, drops an edge to \<open>MTPNDD_FALSE\<close>, and
  rehashes at the load threshold.  A map whose bucket array could not be allocated has the
  empty array.
\<close>

section \<open>Operations\<close>

definition edge_map_bucket_count :: "mstate \<Rightarrow> mtpndd_edge \<Rightarrow> nat" where
  "edge_map_bucket_count s m =
     (if bucket_count m \<noteq> 0 then bucket_count m else edge_bucket_count (g_pal_config s))"

definition edge_map_bucket_index :: "mstate \<Rightarrow> mtpndd_edge \<Rightarrow> ptr \<Rightarrow> nat option" where
  "edge_map_bucket_index s m key =
     (if edge_map_bucket_count s m \<noteq> 0
      then do {
        h \<leftarrow> mtpndd_hash_node_identity s key;
        Some (mask_index h (edge_map_bucket_count s m))
      }
      else Some 0)"

definition edge_bucket :: "mtpndd_edge \<Rightarrow> nat \<Rightarrow> edge_bucket_entry list option" where
  "edge_bucket m i = (if i < length (buckets m) then Some (buckets m ! i) else None)"

text \<open>The entries in the order \<open>FOR_EACH_ENTRY_IN_ALL_BUCKETS\<close> visits them.\<close>

definition for_each_entry :: "mstate \<Rightarrow> mtpndd_edge \<Rightarrow> edge_bucket_entry list option" where
  "for_each_entry s m =
     (if edge_map_bucket_count s m \<le> length (buckets m)
      then Some (concat (take (edge_map_bucket_count s m) (buckets m)))
      else None)"

definition mtpndd_edge_entry_hash :: "ptr \<Rightarrow> bdd \<Rightarrow> 64 word" where
  "mtpndd_edge_entry_hash child label =
     mtpndd_hash_u64 (word_of_nat child) XOR mtpndd_hash_u64 label"

definition entry_hash :: "edge_bucket_entry \<Rightarrow> 64 word" where
  "entry_hash e = mtpndd_edge_entry_hash (ee_child e) (ee_label e)"

definition mtpndd_edge_map_compute_hash :: "mstate \<Rightarrow> mtpndd_edge \<Rightarrow> 64 word option" where
  "mtpndd_edge_map_compute_hash s m =
     (if buckets m = [] then Some 0
      else do { es \<leftarrow> for_each_entry s m; Some (xor_fold entry_hash es) })"

text \<open>The bucket count both \<open>mtpndd_edge_map_init\<close> and \<open>mtpndd_edge_map_deep_clone\<close> compute.\<close>

definition edge_bucket_target :: "mstate \<Rightarrow> mtpndd_edge \<Rightarrow> nat" where
  "edge_bucket_target s m =
     round_up_pow2_nat (max MTPNDD_DEFAULT_EDGE_BUCKET_COUNT (edge_map_bucket_count s m))"

definition mtpndd_edge_map_init :: "mstate \<Rightarrow> mtpndd_edge \<Rightarrow> mtpndd_edge option" where
  "mtpndd_edge_map_init s m =
     (let n = edge_bucket_target s m
      in if n \<le> length (buckets m)
         then Some (m\<lparr>bucket_count := n, load_threshold := n - n div 8, edge_count := 0,
                      cached_hash := 0, buckets_malloced := False,
                      buckets := replicate n [] @ drop n (buckets m)\<rparr>)
         else None)"

definition release_entry :: "edge_bucket_entry \<Rightarrow> mstate \<Rightarrow> mstate option" where
  "release_entry e s = Some (mtpndd_memory_release_edge_entry (ee_addr e) (sylvan_deref (ee_label e) s))"

definition mtpndd_edge_map_reset :: "mtpndd_edge \<Rightarrow> mstate \<Rightarrow> (mtpndd_edge \<times> mstate) option" where
  "mtpndd_edge_map_reset m s =
     (if buckets m = [] then Some (m\<lparr>edge_count := 0, cached_hash := 0\<rparr>, s)
      else do {
        es \<leftarrow> for_each_entry s m;
        s \<leftarrow> iter_state release_entry es s;
        Some (m\<lparr>buckets := map (\<lambda>_. []) (buckets m), edge_count := 0, cached_hash := 0\<rparr>, s)
      })"

definition mtpndd_edge_map_free :: "mtpndd_edge \<Rightarrow> mstate \<Rightarrow> mstate option" where
  "mtpndd_edge_map_free m s = do {
     (m, s) \<leftarrow> mtpndd_edge_map_reset m s;
     Some (mtpndd_memory_release_edge_map m s)
   }"

text \<open>One chain of \<open>mtpndd_edge_map_deep_clone\<close>; \<open>None\<close> in the second component: out of memory.\<close>

fun clone_chain ::
  "edge_bucket_entry list \<Rightarrow> mstate \<Rightarrow> (edge_bucket_entry list option \<times> mstate) option" where
  "clone_chain [] s = Some (Some [], s)"
| "clone_chain (e # es) s =
     (let (p, s) = mtpndd_memory_acquire_edge_entry s
      in if p = NULL then Some (None, s)
         else do {
           s \<leftarrow> ref_child (ee_child e) s;
           let s = sylvan_ref (ee_label e) s;
           (rest, s) \<leftarrow> clone_chain es s;
           Some (map_option (\<lambda>rest. e\<lparr>ee_addr := p\<rparr> # rest) rest, s)
         })"

fun clone_buckets ::
  "nat \<Rightarrow> edge_bucket_entry list list \<Rightarrow> mtpndd_edge \<Rightarrow> mstate
   \<Rightarrow> (mtpndd_error \<times> mtpndd_edge \<times> mstate) option" where
  "clone_buckets i [] dest s = Some (MTPNDD_SUCCESS, dest, s)"
| "clone_buckets i (b # bs) dest s = do {
     (c, s) \<leftarrow> clone_chain b s;
     case c of
       None \<Rightarrow> do {
         (dest, s) \<leftarrow> mtpndd_edge_map_reset dest s;
         Some (MTPNDD_ERROR_OUT_OF_MEMORY, dest, s)
       }
     | Some es \<Rightarrow> clone_buckets (i + 1) bs (dest\<lparr>buckets := (buckets dest)[i := es]\<rparr>) s
   }"

definition mtpndd_edge_map_deep_clone ::
  "mtpndd_edge \<Rightarrow> mtpndd_edge \<Rightarrow> mstate \<Rightarrow> (mtpndd_error \<times> mtpndd_edge \<times> mstate) option" where
  "mtpndd_edge_map_deep_clone source dest s =
     (let dest = dest\<lparr>edge_count := edge_count source, cached_hash := cached_hash source\<rparr>;
          n = edge_bucket_target s source;
          (ok, dest, s) =
            (if n \<noteq> bucket_count dest
             then let (p, s) = malloc (n * 8) s
                  in if p = NULL
                     then (False, dest\<lparr>buckets := [], bucket_count := 0, load_threshold := 0,
                                       buckets_malloced := False\<rparr>, s)
                     else (True, dest\<lparr>buckets := replicate n [], buckets_malloced := True,
                                      bucket_count := n, load_threshold := n - n div 4\<rparr>, s)
             else (True, dest\<lparr>buckets := map (\<lambda>_. []) (buckets dest)\<rparr>, s))
      in if \<not> ok then Some (MTPNDD_ERROR_OUT_OF_MEMORY, dest, s)
         else if buckets source = [] then Some (MTPNDD_SUCCESS, dest, s)
         else if n \<le> length (buckets source) \<and> n \<le> length (buckets dest)
         then clone_buckets 0 (take n (buckets source)) dest s
         else None)"

definition rehash_entry ::
  "mstate \<Rightarrow> nat \<Rightarrow> edge_bucket_entry \<Rightarrow> edge_bucket_entry list list
   \<Rightarrow> edge_bucket_entry list list option" where
  "rehash_entry s n e bs = do {
     h \<leftarrow> mtpndd_hash_node_identity s (ee_child e);
     let i = unat h mod n;
     Some (bs[i := e # bs ! i])
   }"

fun rehash_entries ::
  "mstate \<Rightarrow> nat \<Rightarrow> edge_bucket_entry list \<Rightarrow> edge_bucket_entry list list
   \<Rightarrow> edge_bucket_entry list list option" where
  "rehash_entries s n [] bs = Some bs"
| "rehash_entries s n (e # es) bs = do { bs \<leftarrow> rehash_entry s n e bs; rehash_entries s n es bs }"

definition mtpndd_edge_map_rehash ::
  "mtpndd_edge \<Rightarrow> nat \<Rightarrow> mstate \<Rightarrow> (bool \<times> mtpndd_edge \<times> mstate) option" where
  "mtpndd_edge_map_rehash m new_bucket_count s =
     (let n = round_up_pow2_nat (max MTPNDD_DEFAULT_EDGE_BUCKET_COUNT new_bucket_count);
          (p, s) = malloc (n * 8) s
      in if p = NULL then Some (False, m, s)
         else do {
           es \<leftarrow> for_each_entry s m;
           bs \<leftarrow> rehash_entries s n es (replicate n []);
           Some (True, m\<lparr>buckets := bs, buckets_malloced := True, bucket_count := n,
                         load_threshold := n - n div 8\<rparr>, s)
         })"

definition mtpndd_edge_map_maybe_rehash ::
  "mtpndd_edge \<Rightarrow> mstate \<Rightarrow> (mtpndd_edge \<times> mstate) option" where
  "mtpndd_edge_map_maybe_rehash m s =
     (if load_threshold m \<le> edge_count m
      then let target = (if bucket_count m \<noteq> 0 then bucket_count m * 2
                         else if edge_bucket_count (g_pal_config s) \<noteq> 0
                         then edge_bucket_count (g_pal_config s) * 2 else 16)
           in do { (_, m, s) \<leftarrow> mtpndd_edge_map_rehash m target s; Some (m, s) }
      else Some (m, s))"

definition find_edge_entry :: "mstate \<Rightarrow> mtpndd_edge \<Rightarrow> ptr \<Rightarrow> edge_bucket_entry option option" where
  "find_edge_entry s m key =
     (if key = NULL \<or> buckets m = [] then Some None
      else do {
        i \<leftarrow> edge_map_bucket_index s m key;
        b \<leftarrow> edge_bucket m i;
        Some (find (\<lambda>e. ee_child e = key) b)
      })"

text \<open>The chain without its first entry for \<open>key\<close>, and that entry.\<close>

fun unlink_child ::
  "ptr \<Rightarrow> edge_bucket_entry list \<Rightarrow> edge_bucket_entry option \<times> edge_bucket_entry list" where
  "unlink_child key [] = (None, [])"
| "unlink_child key (e # es) =
     (if ee_child e = key then (Some e, es)
      else let (r, es) = unlink_child key es in (r, e # es))"

definition mtpndd_add_edge ::
  "sylvan \<Rightarrow> mtpndd_edge \<Rightarrow> ptr \<Rightarrow> bdd \<Rightarrow> mstate
   \<Rightarrow> (mtpndd_error \<times> mtpndd_edge \<times> mstate) option" where
  "mtpndd_add_edge S m descendant label s =
     (if mtpndd_is_false descendant then Some (MTPNDD_SUCCESS, m, sylvan_deref label s)
      else do {
        hash \<leftarrow> edge_map_bucket_index s m descendant;
        bucket_head \<leftarrow> edge_bucket m hash;
        let (found, chain) = unlink_child descendant bucket_head;
        let old_label = (case found of None \<Rightarrow> sylvan_false S | Some e \<Rightarrow> ee_label e);
        let m = (case found of None \<Rightarrow> m | Some e \<Rightarrow> m\<lparr>edge_count := edge_count m - 1\<rparr>);
        let (entry, s) =
              (case found of
                 Some e \<Rightarrow> (Some e, s)
               | None \<Rightarrow>
                   let (p, s) = mtpndd_memory_acquire_edge_entry s
                   in if p = NULL
                      then (None, mtpndd_set_error MTPNDD_ERROR_OUT_OF_MEMORY ''mtpndd_add_edge'' 487 s)
                      else (Some \<lparr>ee_addr = p, ee_child = descendant, ee_label = 0\<rparr>, s));
        case entry of
          None \<Rightarrow> Some (MTPNDD_ERROR_OUT_OF_MEMORY, m, s)
        | Some e \<Rightarrow> do {
            let new_label = sylvan_or S old_label label;
            let s = sylvan_deref label (sylvan_deref old_label (sylvan_ref new_label s));
            let m = m\<lparr>buckets := (buckets m)[hash := e\<lparr>ee_label := new_label\<rparr> # chain],
                      edge_count := edge_count m + 1\<rparr>;
            (m, s) \<leftarrow> mtpndd_edge_map_maybe_rehash m s;
            Some (MTPNDD_SUCCESS, m, s)
          }
      })"

text \<open>
  \<open>nodetable_edges_equal\<close>: every entry of \<open>a\<close> is in \<open>b\<close>, after the address, the hash and the
  count.  Two references to one map object are two equal records, two objects differ in
  \<open>em_addr\<close>, so the comparison of addresses is the comparison of the records.
\<close>

fun edges_in_map :: "mstate \<Rightarrow> edge_bucket_entry list \<Rightarrow> mtpndd_edge \<Rightarrow> bool option" where
  "edges_in_map s [] b = Some True"
| "edges_in_map s (e # es) b =
     (if buckets b = [] then Some False
      else do {
        i \<leftarrow> edge_map_bucket_index s b (ee_child e);
        chain \<leftarrow> edge_bucket b i;
        case find (\<lambda>e'. ee_child e' = ee_child e) chain of
          Some e' \<Rightarrow> if ee_label e = ee_label e' then edges_in_map s es b else Some False
        | None \<Rightarrow> Some False
      })"

definition nodetable_edges_equal :: "mstate \<Rightarrow> mtpndd_edge \<Rightarrow> mtpndd_edge \<Rightarrow> bool option" where
  "nodetable_edges_equal s a b =
     (if a = b then Some True
      else if cached_hash a \<noteq> cached_hash b then Some False
      else if edge_count a \<noteq> edge_count b then Some False
      else if edge_count a = 0 then Some True
      else if buckets a = [] then Some True
      else do { es \<leftarrow> for_each_entry s a; edges_in_map s es b })"

section \<open>State changes outside the diagram\<close>

text \<open>
  The state changes of the edge-map operations: allocator bookkeeping, the log of Sylvan calls
  and the error record.  Nodes, tables and caches stay as they are.
\<close>

definition pools_ready :: "mstate \<Rightarrow> bool" where
  "pools_ready s \<longleftrightarrow> pool_ready (g_edge_entry_pool s) \<and> pool_ready (g_nodetable_entry_pool s)
     \<and> pool_ready (g_edge_map_pool s)"

text \<open>The pools stay ready, and a failed allocation stays recorded.\<close>

definition res_mono :: "mstate \<Rightarrow> mstate \<Rightarrow> bool" where
  "res_mono s s' \<longleftrightarrow> (pools_ready s \<longrightarrow> pools_ready s')
     \<and> (mem_failed (c_heap_of s) \<longrightarrow> mem_failed (c_heap_of s'))"

lemma res_mono_refl [simp]: "res_mono s s"
  by (simp add: res_mono_def)

lemma res_mono_trans: "res_mono s t \<Longrightarrow> res_mono t u \<Longrightarrow> res_mono s u"
  by (simp add: res_mono_def)

lemma res_mono_same:
  "c_heap_of s' = c_heap_of s \<Longrightarrow> g_edge_entry_pool s' = g_edge_entry_pool s \<Longrightarrow>
   g_nodetable_entry_pool s' = g_nodetable_entry_pool s \<Longrightarrow> g_edge_map_pool s' = g_edge_map_pool s
   \<Longrightarrow> res_mono s s'"
  by (simp add: res_mono_def pools_ready_def)

definition quiet :: "mstate \<Rightarrow> mstate \<Rightarrow> bool" where
  "quiet s s' \<longleftrightarrow>
     s' = s\<lparr>c_heap_of := c_heap_of s', g_edge_entry_pool := g_edge_entry_pool s',
            g_nodetable_entry_pool := g_nodetable_entry_pool s',
            g_edge_map_pool := g_edge_map_pool s', syl_log := syl_log s',
            last_error := last_error s'\<rparr>
     \<and> brk (c_heap_of s) \<le> brk (c_heap_of s')
     \<and> mem_limit (c_heap_of s') = mem_limit (c_heap_of s) \<and> res_mono s s'"

lemma quiet_refl [simp]: "quiet s s"
  by (simp add: quiet_def)

lemma quiet_trans [trans]: "quiet s t \<Longrightarrow> quiet t u \<Longrightarrow> quiet s u"
  using res_mono_trans[of s t u] by (cases s; cases t; cases u) (simp add: quiet_def)

lemma quiet_fields:
  assumes "quiet s s'"
  shows "nodes s' = nodes s" "g_node_pool s' = g_node_pool s"
    "g_edge_bucket_count s' = g_edge_bucket_count s" "cur_worker s' = cur_worker s"
    "lace_workers s' = lace_workers s" "g_pal_config s' = g_pal_config s"
    "g_node_count s' = g_node_count s" "field_count s' = field_count s"
    "node_tables_by_field s' = node_tables_by_field s" "and_cache s' = and_cache s"
    "or_cache s' = or_cache s" "not_cache s' = not_cache s" "leaf_table s' = leaf_table s"
    "double_leaf_table s' = double_leaf_table s" "temp_refs_pool s' = temp_refs_pool s"
    "gc_running s' = gc_running s" "two_phase_threshold s' = two_phase_threshold s"
    "mem_limit (c_heap_of s') = mem_limit (c_heap_of s)" "brk (c_heap_of s) \<le> brk (c_heap_of s')"
    "res_mono s s'"
proof -
  have eq: "s' = s\<lparr>c_heap_of := c_heap_of s', g_edge_entry_pool := g_edge_entry_pool s',
            g_nodetable_entry_pool := g_nodetable_entry_pool s',
            g_edge_map_pool := g_edge_map_pool s', syl_log := syl_log s',
            last_error := last_error s'\<rparr>" using assms unfolding quiet_def by blast
  show "nodes s' = nodes s" by (subst eq) simp
  show "g_node_pool s' = g_node_pool s" by (subst eq) simp
  show "g_edge_bucket_count s' = g_edge_bucket_count s" by (subst eq) simp
  show "cur_worker s' = cur_worker s" by (subst eq) simp
  show "lace_workers s' = lace_workers s" by (subst eq) simp
  show "g_pal_config s' = g_pal_config s" by (subst eq) simp
  show "g_node_count s' = g_node_count s" by (subst eq) simp
  show "field_count s' = field_count s" by (subst eq) simp
  show "node_tables_by_field s' = node_tables_by_field s" by (subst eq) simp
  show "and_cache s' = and_cache s" by (subst eq) simp
  show "or_cache s' = or_cache s" by (subst eq) simp
  show "not_cache s' = not_cache s" by (subst eq) simp
  show "leaf_table s' = leaf_table s" by (subst eq) simp
  show "double_leaf_table s' = double_leaf_table s" by (subst eq) simp
  show "temp_refs_pool s' = temp_refs_pool s" by (subst eq) simp
  show "gc_running s' = gc_running s" by (subst eq) simp
  show "two_phase_threshold s' = two_phase_threshold s" by (subst eq) simp
qed (use assms quiet_def in blast)+

lemma quiet_log [simp, intro]:
  "quiet s (sylvan_ref l s)" "quiet s (sylvan_deref l s)" "quiet s (mtpndd_set_error e f n s)"
  by (simp_all add: quiet_def log_defs res_mono_def pools_ready_def)

lemma malloc_quiet:
  assumes "malloc n s = (p, s')" shows "quiet s s'"
proof -
  obtain q h where c: "c_malloc n (c_heap_of s) = (q, h)" by fastforce
  then have "s' = s\<lparr>c_heap_of := h\<rparr>" using assms by (simp add: malloc_def)
  then show ?thesis using c_malloc_mono[OF c] by (simp add: quiet_def res_mono_def pools_ready_def)
qed

lemma malloc_failed: "malloc n s = (NULL, s') \<Longrightarrow> 0 < brk (c_heap_of s) \<Longrightarrow> mem_failed (c_heap_of s')"
  by (auto simp: malloc_def dest: c_malloc_mono split: prod.splits)

lemma malloc_bound:
  assumes "malloc n s = (p, s')" "p \<noteq> NULL"
  shows "n \<le> mem_limit (c_heap_of s)"
  using assms by (auto simp: malloc_def c_malloc_def split: if_splits)

lemma acquire_edge_entry_quiet:
  assumes "mtpndd_memory_acquire_edge_entry s = (p, s')" shows "quiet s s'"
proof -
  obtain q pool h ns where a:
    "mtpndd_slab_pool_acquire (g_edge_entry_pool s) (cur_worker s) (c_heap_of s) = (q, pool, h, ns)"
    by (metis prod_cases4)
  then show ?thesis using assms acquire_mono[OF a]
    by (auto simp: mtpndd_memory_acquire_edge_entry_def quiet_def log_defs Let_def res_mono_def pools_ready_def
        split: if_splits)
qed

lemma acquire_nodetable_entry_quiet:
  assumes "mtpndd_memory_acquire_nodetable_entry s = (p, s')" shows "quiet s s'"
proof -
  obtain q pool h ns where a:
    "mtpndd_slab_pool_acquire (g_nodetable_entry_pool s) (cur_worker s) (c_heap_of s)
     = (q, pool, h, ns)" by (metis prod_cases4)
  then show ?thesis using assms acquire_mono[OF a]
    by (auto simp: mtpndd_memory_acquire_nodetable_entry_def quiet_def log_defs Let_def res_mono_def pools_ready_def
        split: if_splits)
qed

lemma acquire_edge_map_quiet:
  assumes "mtpndd_memory_acquire_edge_map s = (p, s')" shows "quiet s s'"
proof -
  obtain q pool h ns where a:
    "mtpndd_slab_pool_acquire (g_edge_map_pool s) (cur_worker s) (c_heap_of s) = (q, pool, h, ns)"
    by (metis prod_cases4)
  then show ?thesis using assms acquire_mono[OF a]
    by (auto simp: mtpndd_memory_acquire_edge_map_def quiet_def log_defs Let_def res_mono_def pools_ready_def
        split: if_splits)
qed

text \<open>A pool that is ready runs dry only when the C heap does.\<close>

definition heap_ready :: "mstate \<Rightarrow> bool" where
  "heap_ready s \<longleftrightarrow> pools_ready s \<and> 0 < brk (c_heap_of s)"

lemma heap_ready_quiet: "quiet s s' \<Longrightarrow> heap_ready s \<Longrightarrow> heap_ready s'"
  using quiet_fields(19,20)[of s s'] by (auto simp: heap_ready_def res_mono_def)

lemma acquire_edge_entry_failed:
  assumes "mtpndd_memory_acquire_edge_entry s = (NULL, s')" "heap_ready s"
  shows "mem_failed (c_heap_of s')"
proof -
  obtain q pool h ns where a:
    "mtpndd_slab_pool_acquire (g_edge_entry_pool s) (cur_worker s) (c_heap_of s) = (q, pool, h, ns)"
    by (metis prod_cases4)
  then show ?thesis using assms acquire_mono[OF a]
    by (auto simp: mtpndd_memory_acquire_edge_entry_def log_defs Let_def heap_ready_def pools_ready_def
        split: if_splits)
qed

lemma acquire_nodetable_entry_failed:
  assumes "mtpndd_memory_acquire_nodetable_entry s = (NULL, s')" "heap_ready s"
  shows "mem_failed (c_heap_of s')"
proof -
  obtain q pool h ns where a:
    "mtpndd_slab_pool_acquire (g_nodetable_entry_pool s) (cur_worker s) (c_heap_of s)
     = (q, pool, h, ns)" by (metis prod_cases4)
  then show ?thesis using assms acquire_mono[OF a]
    by (auto simp: mtpndd_memory_acquire_nodetable_entry_def log_defs Let_def heap_ready_def pools_ready_def
        split: if_splits)
qed

lemma acquire_edge_map_failed:
  assumes "mtpndd_memory_acquire_edge_map s = (None, s')" "heap_ready s"
  shows "mem_failed (c_heap_of s')"
proof -
  obtain q pool h ns where a:
    "mtpndd_slab_pool_acquire (g_edge_map_pool s) (cur_worker s) (c_heap_of s) = (q, pool, h, ns)"
    by (metis prod_cases4)
  then show ?thesis using assms acquire_mono[OF a]
    by (auto simp: mtpndd_memory_acquire_edge_map_def log_defs Let_def heap_ready_def pools_ready_def
        split: if_splits)
qed

lemma release_quiet [simp, intro]:
  "quiet s (mtpndd_memory_release_edge_entry p s)"
  "quiet s (mtpndd_memory_release_nodetable_entry p s)"
  "quiet s (mtpndd_memory_release_edge_map m s)"
  by (simp_all add: quiet_def mtpndd_memory_release_edge_entry_def res_mono_def pools_ready_def
      mtpndd_memory_release_nodetable_entry_def mtpndd_memory_release_edge_map_def release_ready)

lemma hash_identity_quiet:
  "nodes s' = nodes s \<Longrightarrow> mtpndd_hash_node_identity s' p = mtpndd_hash_node_identity s p"
  by (simp add: mtpndd_hash_node_identity_def)

section \<open>Well-formed maps and what they mean\<close>

definition entries :: "mtpndd_edge \<Rightarrow> edge_bucket_entry list" where
  "entries m = concat (buckets m)"

definition placed :: "mstate \<Rightarrow> nat \<Rightarrow> edge_bucket_entry list list \<Rightarrow> bool" where
  "placed s n bs \<longleftrightarrow>
     (\<forall>i<length bs. \<forall>e\<in>set (bs ! i).
        map_option (\<lambda>h. mask_index h n) (mtpndd_hash_node_identity s (ee_child e)) = Some i)"

definition wf_map :: "mstate \<Rightarrow> mtpndd_edge \<Rightarrow> bool" where
  "wf_map s m \<longleftrightarrow>
     is_pow2 (bucket_count m) \<and> MTPNDD_DEFAULT_EDGE_BUCKET_COUNT \<le> bucket_count m
     \<and> bucket_count m \<le> 2 ^ 60 \<and> length (buckets m) = bucket_count m
     \<and> edge_count m = length (entries m) \<and> distinct (map ee_child (entries m))
     \<and> placed s (bucket_count m) (buckets m)"

text \<open>The abstract value of a map: the partial function from children to labels.\<close>

definition emap :: "mtpndd_edge \<Rightarrow> ptr \<rightharpoonup> bdd" where
  "emap m = map_of (map (\<lambda>e. (ee_child e, ee_label e)) (entries m))"

lemma wf_map_bounds:
  assumes "wf_map s m"
  shows "is_pow2 (bucket_count m)" "bucket_count m \<noteq> 0" "bucket_count m \<le> 2 ^ 60"
    "bucket_count m \<le> 2 ^ 63" "length (buckets m) = bucket_count m" "buckets m \<noteq> []"
  using assms by (auto simp: wf_map_def MTPNDD_DEFAULT_EDGE_BUCKET_COUNT_def)

lemma wf_map_cong:
  assumes "\<And>e. e \<in> set (entries m) \<Longrightarrow> mtpndd_hash_node_identity s' (ee_child e)
                                       = mtpndd_hash_node_identity s (ee_child e)"
  shows "wf_map s' m = wf_map s m"
proof -
  have "e \<in> set (entries m)" if "i < length (buckets m)" "e \<in> set (buckets m ! i)" for i e
    using that unfolding entries_def set_concat_nth by blast
  then have "placed s' n (buckets m) = placed s n (buckets m)" for n
    unfolding placed_def using assms by simp
  then show ?thesis by (simp add: wf_map_def)
qed

lemma wf_map_quiet: "quiet s s' \<Longrightarrow> wf_map s' m = wf_map s m"
  by (rule wf_map_cong) (rule hash_identity_quiet, erule quiet_fields)

lemma emap_Some:
  assumes "distinct (map ee_child (entries m))"
  shows "emap m c = Some l \<longleftrightarrow> (\<exists>e\<in>set (entries m). ee_child e = c \<and> ee_label e = l)"
proof -
  have "distinct (map fst (map (\<lambda>e. (ee_child e, ee_label e)) (entries m)))"
    using assms by (simp add: comp_def)
  then show ?thesis unfolding emap_def by (subst map_of_eq_Some_iff) auto
qed

lemma emap_None: "emap m c = None \<longleftrightarrow> c \<notin> ee_child ` set (entries m)"
  unfolding emap_def map_of_eq_None_iff by force

lemma dom_emap: "dom (emap m) = ee_child ` set (entries m)"
  using emap_None by (auto simp: dom_def)

lemma for_each_entry_wf [simp]: "wf_map s m \<Longrightarrow> for_each_entry s' m = Some (entries m)"
  using wf_map_bounds[of s m] by (simp add: for_each_entry_def edge_map_bucket_count_def entries_def)

lemma bucket_index_wf:
  "wf_map s m \<Longrightarrow> edge_map_bucket_index s' m c =
     map_option (\<lambda>h. mask_index h (bucket_count m)) (mtpndd_hash_node_identity s' c)"
  using wf_map_bounds[of s m]
  by (cases "mtpndd_hash_node_identity s' c")
    (simp_all add: edge_map_bucket_index_def edge_map_bucket_count_def)

lemma placed_bucket:
  assumes "placed s n bs" "e \<in> set (concat bs)"
    "mtpndd_hash_node_identity s (ee_child e) = Some h"
  shows "mask_index h n < length bs \<and> e \<in> set (bs ! mask_index h n)"
proof -
  obtain i where i: "i < length bs" "e \<in> set (bs ! i)" using assms(2) unfolding set_concat_nth by blast
  then have "map_option (\<lambda>h. mask_index h n) (mtpndd_hash_node_identity s (ee_child e)) = Some i"
    using assms(1) by (simp add: placed_def)
  then have "i = mask_index h n" using assms(3) by simp
  then show ?thesis using i by simp
qed

lemma distinct_concat_nth: "distinct (concat bs) \<Longrightarrow> i < length bs \<Longrightarrow> distinct (bs ! i)"
  by (meson distinct_concat_iff nth_mem)

lemma find_unique:
  assumes "distinct (map f es)" "e \<in> set es"
  shows "find (\<lambda>x. f x = f e) es = Some e"
  using assms by (induction es) auto

lemma find_bucket:
  assumes wf: "wf_map s m" and h: "mtpndd_hash_node_identity s c = Some h"
  shows "mask_index h (bucket_count m) < length (buckets m)"
    "map_option ee_label (find (\<lambda>e. ee_child e = c) (buckets m ! mask_index h (bucket_count m)))
     = emap m c"
proof -
  let ?i = "mask_index h (bucket_count m)"
  note b = wf_map_bounds[OF wf]
  show i: "?i < length (buckets m)" using mask_index_less[OF b(1,4)] b(5) by simp
  have dist: "distinct (map ee_child (entries m))" and pl: "placed s (bucket_count m) (buckets m)"
    using wf by (auto simp: wf_map_def)
  have sub: "set (buckets m ! ?i) \<subseteq> set (entries m)"
    using i unfolding entries_def by (auto simp: in_set_conv_nth intro: nth_mem)
  have db: "distinct (map ee_child (buckets m ! ?i))"
    using dist i distinct_concat_nth[of "map (map ee_child) (buckets m)" ?i]
    by (simp add: entries_def map_concat)
  show "map_option ee_label (find (\<lambda>e. ee_child e = c) (buckets m ! ?i)) = emap m c"
  proof (cases "emap m c")
    case None
    then have "\<forall>e\<in>set (buckets m ! ?i). ee_child e \<noteq> c" using sub by (auto simp: emap_None)
    then have "find (\<lambda>e. ee_child e = c) (buckets m ! ?i) = None" by (auto simp: find_None_iff)
    then show ?thesis using None by simp
  next
    case (Some l)
    then obtain e where e: "e \<in> set (entries m)" "ee_child e = c" "ee_label e = l"
      using emap_Some[OF dist] by blast
    then have "e \<in> set (buckets m ! ?i)"
      using placed_bucket[OF pl, of e h] h by (simp add: entries_def)
    from find_unique[OF db this] show ?thesis using e Some by simp
  qed
qed

lemma emap_mset_cong:
  assumes "mset (entries m') = mset (entries m)" "distinct (map ee_child (entries m))"
  shows "distinct (map ee_child (entries m')) \<and> emap m' = emap m"
proof -
  have "mset (map ee_child (entries m')) = mset (map ee_child (entries m))" using assms(1) by simp
  then have d: "distinct (map ee_child (entries m'))" using assms(2) by (metis mset_eq_imp_distinct_iff)
  have "set (entries m') = set (entries m)" using assms(1) by (metis set_mset_mset)
  then have "emap m' c = Some l \<longleftrightarrow> emap m c = Some l" for c l
    by (simp add: emap_Some d assms(2))
  then have "emap m' c = emap m c" for c by (metis option.exhaust)
  then show ?thesis using d by blast
qed

lemma placed_hash:
  assumes "placed s n bs" "e \<in> set (concat bs)"
  shows "\<exists>h. mtpndd_hash_node_identity s (ee_child e) = Some h"
proof -
  obtain i where "i < length bs" "e \<in> set (bs ! i)" using assms(2) unfolding set_concat_nth by blast
  then have "map_option (\<lambda>h. mask_index h n) (mtpndd_hash_node_identity s (ee_child e)) = Some i"
    using assms(1) unfolding placed_def by blast
  then show ?thesis by auto
qed

lemma placed_update:
  assumes "placed s n bs" "\<forall>e\<in>set b. map_option (\<lambda>h. mask_index h n)
      (mtpndd_hash_node_identity s (ee_child e)) = Some i"
  shows "placed s n (bs[i := b])"
  unfolding placed_def
proof (intro allI impI)
  fix j assume "j < length (bs[i := b])"
  then show "\<forall>e\<in>set (bs[i := b] ! j). map_option (\<lambda>h. mask_index h n)
               (mtpndd_hash_node_identity s (ee_child e)) = Some j"
    using assms unfolding placed_def by (cases "j = i") simp_all
qed

lemma rehash_entries_spec:
  assumes "is_pow2 n" "n \<le> 2 ^ 63" "length bs = n" "placed s n bs"
    and "\<forall>e\<in>set es. \<exists>h. mtpndd_hash_node_identity s (ee_child e) = Some h"
  shows "\<exists>bs'. rehash_entries s n es bs = Some bs' \<and> length bs' = n \<and> placed s n bs'
           \<and> mset (concat bs') = mset (concat bs) + mset es"
  using assms
proof (induction es arbitrary: bs)
  case (Cons e es)
  obtain h where h: "mtpndd_hash_node_identity s (ee_child e) = Some h" using Cons.prems(5) by auto
  define i where "i = mask_index h n"
  have i: "i < length bs" "unat h mod n = i"
    using mask_index_less[of n h] mask_index_pow2[of n h] Cons.prems by (simp_all add: i_def)
  let ?bs = "bs[i := e # bs ! i]"
  have "placed s n ?bs"
    by (rule placed_update[OF Cons.prems(4)])
      (use Cons.prems(4) i h in \<open>auto simp: placed_def i_def[symmetric]\<close>)
  then obtain bs' where bs': "rehash_entries s n es ?bs = Some bs'" "length bs' = n" "placed s n bs'"
    "mset (concat bs') = mset (concat ?bs) + mset es"
    using Cons.IH[of ?bs] Cons.prems by auto
  obtain D where "mset (concat bs) = mset (bs ! i) + D"
    using mset_nth_subset_concat[OF i(1)] by (auto simp: subset_mset.le_iff_add)
  then have "mset (concat ?bs) = mset (concat bs) + {#e#}"
    using mset_concat_update[OF i(1), of "e # bs ! i"] by simp
  then show ?case using bs' h i by (simp add: rehash_entry_def Let_def)
qed simp

lemma placed_replicate_Nil [simp]: "placed s n (replicate k [])"
  by (simp add: placed_def)

lemma edge_rehash_spec:
  assumes wf: "wf_map s m" and lim: "mem_limit (c_heap_of s) \<le> 2 ^ 60"
    and t: "is_pow2 t" "8 \<le> t" "t \<le> 2 ^ 63"
  shows "succeeds (mtpndd_edge_map_rehash m t s) (\<lambda>(ok, m', s'). quiet s s' \<and> wf_map s' m'
           \<and> mset (entries m') = mset (entries m) \<and> em_addr m' = em_addr m)"
proof -
  obtain p s1 where ml: "malloc (t * 8) s = (p, s1)" by fastforce
  have q: "quiet s s1" by (rule malloc_quiet[OF ml])
  have n: "round_up_pow2_nat (max MTPNDD_DEFAULT_EDGE_BUCKET_COUNT t) = t"
    using t by (simp add: MTPNDD_DEFAULT_EDGE_BUCKET_COUNT_def max_def round_up_pow2_nat_pow2)
  show ?thesis
  proof (cases "p = NULL")
    case True
    then show ?thesis using wf q n ml wf_map_quiet[OF q]
      by (simp add: mtpndd_edge_map_rehash_def Let_def)
  next
    case False
    have wf1: "wf_map s1 m" using wf wf_map_quiet[OF q] by simp
    have "t * 8 \<le> 2 ^ 60" using malloc_bound[OF ml False] lim by simp
    then have t60: "t \<le> 2 ^ 60" by simp
    have "\<forall>e\<in>set (entries m). \<exists>h. mtpndd_hash_node_identity s1 (ee_child e) = Some h"
      using wf1 placed_hash[of s1 "bucket_count m" "buckets m"] by (auto simp: wf_map_def entries_def)
    then obtain bs where bs: "rehash_entries s1 t (entries m) (replicate t []) = Some bs"
      "length bs = t" "placed s1 t bs" "mset (concat bs) = mset (entries m)"
      using rehash_entries_spec[OF t(1,3), of "replicate t []" s1 "entries m"] by auto
    let ?m = "m\<lparr>buckets := bs, buckets_malloced := True, bucket_count := t,
                load_threshold := t - t div 8\<rparr>"
    have en: "mset (entries ?m) = mset (entries m)" using bs by (simp add: entries_def)
    have "distinct (map ee_child (entries ?m))"
      using emap_mset_cong[OF en] wf by (simp add: wf_map_def)
    moreover have "length (entries ?m) = length (entries m)" using en by (metis size_mset)
    ultimately have "wf_map s1 ?m" using wf bs t t60
      by (simp add: wf_map_def MTPNDD_DEFAULT_EDGE_BUCKET_COUNT_def)
    then show ?thesis using q n ml False bs en for_each_entry_wf[OF wf1]
      by (simp add: mtpndd_edge_map_rehash_def Let_def)
  qed
qed

lemma maybe_rehash_spec:
  assumes wf: "wf_map s m" and lim: "mem_limit (c_heap_of s) \<le> 2 ^ 60"
  shows "succeeds (mtpndd_edge_map_maybe_rehash m s) (\<lambda>(m', s'). quiet s s' \<and> wf_map s' m'
           \<and> mset (entries m') = mset (entries m) \<and> em_addr m' = em_addr m)"
proof (cases "load_threshold m \<le> edge_count m")
  case True
  note b = wf_map_bounds[OF wf]
  have "succeeds (mtpndd_edge_map_rehash m (bucket_count m * 2) s) (\<lambda>(ok, m', s').
          quiet s s' \<and> wf_map s' m' \<and> mset (entries m') = mset (entries m) \<and> em_addr m' = em_addr m)"
    by (rule edge_rehash_spec[OF wf lim])
      (use wf is_pow2_double in \<open>auto simp: wf_map_def MTPNDD_DEFAULT_EDGE_BUCKET_COUNT_def\<close>)
  then show ?thesis using True b(2)
    by (auto simp: mtpndd_edge_map_maybe_rehash_def Let_def succeeds_iff split: prod.splits)
qed (use wf in \<open>simp add: mtpndd_edge_map_maybe_rehash_def\<close>)

lemma unlink_child_None:
  "unlink_child c b = (None, b') \<Longrightarrow> b' = b \<and> (\<forall>e\<in>set b. ee_child e \<noteq> c)"
  by (induction b arbitrary: b') (auto split: if_splits prod.splits)

lemma unlink_child_Some:
  "unlink_child c b = (Some e, b') \<Longrightarrow> ee_child e = c \<and> mset b = add_mset e (mset b')"
  by (induction b arbitrary: b') (auto split: if_splits prod.splits)

text \<open>The label \<open>mtpndd_add_edge\<close> gives to \<open>c\<close>.\<close>

definition merged_label :: "sylvan \<Rightarrow> mtpndd_edge \<Rightarrow> ptr \<Rightarrow> bdd \<Rightarrow> bdd" where
  "merged_label S m c l =
     sylvan_or S (case emap m c of None \<Rightarrow> sylvan_false S | Some old \<Rightarrow> old) l"

text \<open>Replacing the entry of \<open>c\<close> in its chain, or putting a new one in front.\<close>

text \<open>
  \<open>mtpndd_add_edge\<close> unlinks the entry of the child, when there is one, from its bucket and puts an
  entry at the head of that bucket: the entries are the old one, what stays in the bucket, and what
  is in the other buckets.
\<close>
lemma unlink_bucket_split:
  assumes wf: "wf_map s m" and h: "mtpndd_hash_node_identity s c = Some h"
    and i: "i = mask_index h (bucket_count m)"
    and u: "unlink_child c (buckets m ! i) = (f, b')"
  obtains D where "mset (entries m) = mset (case_option [] (\<lambda>e. [e]) f @ b' @ D)"
    and "\<And>e n. mset (entries (m\<lparr>buckets := (buckets m)[i := e # b'], edge_count := n\<rparr>)) = mset (e # b' @ D)"
    and "c \<notin> ee_child ` set (b' @ D)"
proof -
  note b = wf_map_bounds[OF wf]
  have il: "i < length (buckets m)" using mask_index_less[OF b(1,4)] b(5) i by simp
  have dist: "distinct (map ee_child (entries m))" and pl: "placed s (bucket_count m) (buckets m)"
    using wf by (auto simp: wf_map_def)
  obtain D where D: "mset (entries m) = mset (buckets m ! i) + mset D"
    using mset_nth_subset_concat[OF il] ex_mset
    by (metis entries_def subset_mset.le_iff_add)
  have en: "mset (entries m) = mset (case_option [] (\<lambda>e. [e]) f @ b' @ D)"
    using D u unlink_child_None[of c "buckets m ! i" b'] unlink_child_Some[of c "buckets m ! i" _ b']
    by (cases f) auto
  have en': "mset (entries (m\<lparr>buckets := (buckets m)[i := e # b'], edge_count := n\<rparr>)) = mset (e # b' @ D)" for e n
    using mset_concat_update[OF il, of "e # b'"] D by (simp add: entries_def)
  have d0: "distinct (map ee_child (case_option [] (\<lambda>e. [e]) f @ b' @ D))"
    using dist en by (metis mset_eq_imp_distinct_iff mset_map)
  have "c \<notin> ee_child ` set (b' @ D)"
  proof (cases f)
    case (Some e0)
    then show ?thesis using d0 u unlink_child_Some[of c "buckets m ! i" e0 b'] by auto
  next
    case None
    have "x \<in> set (buckets m ! i)" if "x \<in> set (entries m)" "ee_child x = c" for x
      using placed_bucket[OF pl, of x h] h i that by (simp add: entries_def)
    then have "c \<notin> ee_child ` set (entries m)" using unlink_child_None u None by blast
    moreover have "set (entries m) = set (b' @ D)"
      using en None by (metis append_Nil option.case(1) set_mset_mset)
    ultimately show ?thesis by simp
  qed
  then show thesis using en en' by (intro that)
qed

lemma placed_replace:
  assumes wf: "wf_map s m" and h: "mtpndd_hash_node_identity s c = Some h"
    and i: "i = mask_index h (bucket_count m)"
    and u: "unlink_child c (buckets m ! i) = (f, b')" and e: "ee_child e = c"
  shows "placed s (bucket_count m) ((buckets m)[i := e # b'])"
proof -
  note b = wf_map_bounds[OF wf]
  have il: "i < length (buckets m)" using mask_index_less[OF b(1,4)] b(5) i by simp
  have pl: "placed s (bucket_count m) (buckets m)" using wf by (simp add: wf_map_def)
  have "\<forall>x\<in>set (buckets m ! i). map_option (\<lambda>h. mask_index h (bucket_count m))
          (mtpndd_hash_node_identity s (ee_child x)) = Some i" using pl il by (simp add: placed_def)
  moreover have "set b' \<subseteq> set (buckets m ! i)"
    using u unlink_child_None[of c "buckets m ! i" b'] unlink_child_Some[of c "buckets m ! i" _ b']
    by (cases f) (auto dest: arg_cong[of _ _ set_mset])
  ultimately have "\<forall>x\<in>set (e # b'). map_option (\<lambda>h. mask_index h (bucket_count m))
          (mtpndd_hash_node_identity s (ee_child x)) = Some i" using h i e by auto
  then show ?thesis by (rule placed_update[OF pl])
qed

lemma replace_entry_wf:
  assumes wf: "wf_map s m" and h: "mtpndd_hash_node_identity s c = Some h"
    and i: "i = mask_index h (bucket_count m)"
    and u: "unlink_child c (buckets m ! i) = (f, b')" and e: "ee_child e = c" "ee_label e = l"
    and n: "n = (case f of None \<Rightarrow> edge_count m | Some _ \<Rightarrow> edge_count m - 1) + 1"
  defines "m' \<equiv> m\<lparr>buckets := (buckets m)[i := e # b'], edge_count := n\<rparr>"
  shows "wf_map s m' \<and> emap m' = (emap m)(c \<mapsto> l)
         \<and> map_option ee_label f = emap m c"
proof -
  define old where "old = (case f of None \<Rightarrow> [] | Some e0 \<Rightarrow> [e0])"
  obtain D where en: "mset (entries m) = mset (old @ b' @ D)"
    and en': "mset (entries m') = mset (e # b' @ D)" and fresh: "c \<notin> ee_child ` set (b' @ D)"
    using unlink_bucket_split[OF wf h i u] unfolding m'_def old_def by metis
  from fresh have other: "\<forall>z\<in>set (b' @ D). ee_child z \<noteq> c" by auto
  have oldc: "\<forall>x\<in>set old. ee_child x = c"
    using u unlink_child_Some[of c "buckets m ! i" _ b'] by (cases f) (auto simp: old_def)
  have dist: "distinct (map ee_child (entries m))" using wf by (simp add: wf_map_def)
  then have "distinct (map ee_child (old @ b' @ D))"
    using en by (metis mset_eq_imp_distinct_iff mset_map)
  then have "distinct (map ee_child (e # b' @ D))" using fresh e by auto
  then have dm': "distinct (map ee_child (entries m'))"
    using en' by (metis mset_eq_imp_distinct_iff mset_map)
  have em: "emap m x = Some y \<longleftrightarrow> (\<exists>z\<in>set (old @ b' @ D). ee_child z = x \<and> ee_label z = y)" for x y
    using en emap_Some[OF dist] by (metis set_mset_mset)
  have em': "emap m' x = Some y \<longleftrightarrow> (\<exists>z\<in>set (e # b' @ D). ee_child z = x \<and> ee_label z = y)" for x y
    using en' emap_Some[OF dm'] by (metis set_mset_mset)
  have "emap m' x = Some y \<longleftrightarrow> (if x = c then y = l else emap m x = Some y)" for x y
    using em em' oldc e other by auto
  then have "emap m' x = ((emap m)(c \<mapsto> l)) x" for x
    by (metis fun_upd_apply option.exhaust)
  moreover have "map_option ee_label f = emap m c"
    using em[of c] oldc other by (cases f; cases "emap m c") (auto simp: old_def)
  moreover have "n = length (entries m')"
    using arg_cong[OF en, of size] arg_cong[OF en', of size] n wf
    by (cases f) (auto simp: wf_map_def old_def)
  then have "wf_map s m'"
    using wf dm' placed_replace[OF wf h i u e(1)] by (simp add: wf_map_def m'_def)
  ultimately show ?thesis by blast
qed

text \<open>
  The entry \<open>mtpndd_add_edge\<close> writes to: the one that was unlinked, or one acquired from the pool.
\<close>
definition target_entry :: "ptr \<Rightarrow> edge_bucket_entry option \<Rightarrow> mstate \<Rightarrow> edge_bucket_entry option \<times> mstate" where
  "target_entry c f s = (case f of Some e \<Rightarrow> (Some e, s)
      | None \<Rightarrow> let (p, s) = mtpndd_memory_acquire_edge_entry s in
          if p = NULL
          then (None, mtpndd_set_error MTPNDD_ERROR_OUT_OF_MEMORY ''mtpndd_add_edge'' 487 s)
          else (Some \<lparr>ee_addr = p, ee_child = c, ee_label = 0\<rparr>, s))"

lemma target_entry_spec:
  assumes "target_entry c f s = (eo, s1)" and "\<And>e. f = Some e \<Longrightarrow> ee_child e = c"
  shows "quiet s s1" and "eo = Some e \<Longrightarrow> ee_child e = c"
    and "eo = None \<Longrightarrow> f = None \<and> (heap_ready s \<longrightarrow> mem_failed (c_heap_of s1))"
proof -
  show "quiet s s1" "eo = Some e \<Longrightarrow> ee_child e = c"
    using assms acquire_edge_entry_quiet[of s]
    by (auto simp: target_entry_def Let_def split: option.splits prod.splits if_splits intro: quiet_trans)
  show "f = None \<and> (heap_ready s \<longrightarrow> mem_failed (c_heap_of s1))" if "eo = None"
    using assms(1) that acquire_edge_entry_failed[of s]
    by (auto simp: target_entry_def Let_def mtpndd_set_error_def split: option.splits prod.splits if_splits)
qed

lemma add_edge_unfold:
  fixes S :: sylvan
  assumes wf: "wf_map s m" and h: "mtpndd_hash_node_identity s c = Some h"
    and i: "i = mask_index h (bucket_count m)" and u: "unlink_child c (buckets m ! i) = (f, b')"
    and t: "target_entry c f s = (eo, s1)" and nf: "c \<noteq> MTPNDD_FALSE"
    and n: "n = (case f of None \<Rightarrow> edge_count m | Some _ \<Rightarrow> edge_count m - 1) + 1"
  defines "old \<equiv> (case emap m c of None \<Rightarrow> sylvan_false S | Some y \<Rightarrow> y)"
  shows "mtpndd_add_edge S m c l s = (case eo of
      None \<Rightarrow> Some (MTPNDD_ERROR_OUT_OF_MEMORY, m, s1)
    | Some e \<Rightarrow> do {
        (m', s') \<leftarrow> mtpndd_edge_map_maybe_rehash
            (m\<lparr>buckets := (buckets m)[i := e\<lparr>ee_label := merged_label S m c l\<rparr> # b'], edge_count := n\<rparr>)
            (sylvan_deref l (sylvan_deref old (sylvan_ref (merged_label S m c l) s1)));
        Some (MTPNDD_SUCCESS, m', s')
      })"
proof -
  have bi: "edge_map_bucket_index s m c = Some i" using bucket_index_wf[OF wf] h i by simp
  have il: "i < length (buckets m)" using find_bucket(1)[OF wf h] i by simp
  have lab: "(case f of None \<Rightarrow> sylvan_false S | Some e \<Rightarrow> ee_label e) = old"
    using replace_entry_wf[OF wf h i u, of "\<lparr>ee_addr = 0, ee_child = c, ee_label = 0\<rparr>", OF _ _ n]
    by (cases f) (auto simp: old_def dest: sym)
  show ?thesis using t nf bi il u lab n
    by (cases f) (auto simp: target_entry_def mtpndd_add_edge_def mtpndd_is_false_def edge_bucket_def
        merged_label_def old_def Let_def split: prod.splits if_splits)
qed

lemma add_edge_spec:
  assumes wf: "wf_map s m" and c: "nodes s c \<noteq> None" "c \<noteq> NULL"
    and lim: "mem_limit (c_heap_of s) \<le> 2 ^ 60"
  shows "succeeds (mtpndd_add_edge S m c l s) (\<lambda>(st, m', s'). quiet s s' \<and> wf_map s' m'
           \<and> em_addr m' = em_addr m
           \<and> (if st = MTPNDD_SUCCESS
              then emap m' = (if c = MTPNDD_FALSE then emap m
                              else (emap m)(c \<mapsto> merged_label S m c l))
              else st = MTPNDD_ERROR_OUT_OF_MEMORY \<and> m' = m
                   \<and> (heap_ready s \<longrightarrow> mem_failed (c_heap_of s'))))"
proof (cases "c = MTPNDD_FALSE")
  case True
  then show ?thesis using wf wf_map_quiet[of s "sylvan_deref l s" m]
    by (simp add: mtpndd_add_edge_def mtpndd_is_false_def)
next
  case False
  obtain h where h: "mtpndd_hash_node_identity s c = Some h"
    using c by (auto simp: mtpndd_hash_node_identity_def)
  define i where "i = mask_index h (bucket_count m)"
  obtain f b' where u: "unlink_child c (buckets m ! i) = (f, b')" by fastforce
  define n where "n = (case f of None \<Rightarrow> edge_count m | Some _ \<Rightarrow> edge_count m - 1) + 1"
  obtain eo s1 where eo: "target_entry c f s = (eo, s1)" by fastforce
  have "ee_child e = c" if "f = Some e" for e
    using that u unlink_child_Some[of c "buckets m ! i" e b'] by simp
  note te = target_entry_spec[OF eo this]
  note unf = add_edge_unfold[OF wf h i_def u eo False n_def]
  show ?thesis
  proof (cases eo)
    case None
    then show ?thesis using unf te wf wf_map_quiet[OF te(1)] by simp
  next
    case (Some e)
    let ?l = "merged_label S m c l"
    let ?m = "m\<lparr>buckets := (buckets m)[i := e\<lparr>ee_label := ?l\<rparr> # b'], edge_count := n\<rparr>"
    define s2 where "s2 = sylvan_deref l (sylvan_deref
        (case emap m c of None \<Rightarrow> sylvan_false S | Some old \<Rightarrow> old) (sylvan_ref ?l s1))"
    have q2: "quiet s s2" unfolding s2_def using te(1) by (blast intro: quiet_trans)
    have "wf_map s ?m \<and> emap ?m = (emap m)(c \<mapsto> ?l)"
      using replace_entry_wf[OF wf h i_def u _ _ n_def, of "e\<lparr>ee_label := ?l\<rparr>" ?l] te(2)[OF _ Some] by simp
    then have wf2: "wf_map s2 ?m" and em: "emap ?m = (emap m)(c \<mapsto> ?l)"
      using wf_map_quiet[OF q2] by auto
    have "succeeds (mtpndd_edge_map_maybe_rehash ?m s2) (\<lambda>(m', s'). quiet s2 s' \<and> wf_map s' m'
            \<and> mset (entries m') = mset (entries ?m) \<and> em_addr m' = em_addr ?m)"
      by (rule maybe_rehash_spec[OF wf2]) (use lim quiet_fields(18)[OF q2] in simp)
    then obtain m' s' where r: "mtpndd_edge_map_maybe_rehash ?m s2 = Some (m', s')"
      and r': "quiet s2 s'" "wf_map s' m'" "mset (entries m') = mset (entries ?m)"
        "em_addr m' = em_addr m"
      by (auto simp: succeeds_iff)
    have "emap m' = (emap m)(c \<mapsto> ?l)"
      using emap_mset_cong[OF r'(3)] wf2 em by (simp add: wf_map_def)
    then show ?thesis using unf Some r r' False quiet_trans[OF q2 r'(1)]
      by (simp add: s2_def)
  qed
qed

section \<open>Lookup, comparison, release\<close>

lemma find_edge_entry_spec:
  assumes "wf_map s m" "nodes s c \<noteq> None" "c \<noteq> NULL"
  shows "\<exists>r. find_edge_entry s m c = Some r \<and> map_option ee_label r = emap m c"
proof -
  obtain h where h: "mtpndd_hash_node_identity s c = Some h"
    using assms by (auto simp: mtpndd_hash_node_identity_def)
  show ?thesis
    using find_bucket[OF assms(1) h] assms(3) h wf_map_bounds[OF assms(1)] bucket_index_wf[OF assms(1)]
    by (simp add: find_edge_entry_def edge_bucket_def)
qed

definition hash_ok :: "mtpndd_edge \<Rightarrow> bool" where
  "hash_ok m \<longleftrightarrow> cached_hash m = xor_fold entry_hash (entries m)"

lemma compute_hash_wf:
  "wf_map s m \<Longrightarrow> mtpndd_edge_map_compute_hash s' m = Some (xor_fold entry_hash (entries m))"
  using wf_map_bounds[of s m] by (simp add: mtpndd_edge_map_compute_hash_def)

abbreviation pair_of :: "edge_bucket_entry \<Rightarrow> ptr \<times> bdd" where
  "pair_of e \<equiv> (ee_child e, ee_label e)"

lemma emap_eq_mset:
  assumes "distinct (map ee_child (entries a))" "distinct (map ee_child (entries b))"
    and "emap a = emap b"
  shows "mset (map pair_of (entries a)) = mset (map pair_of (entries b))"
proof -
  have d: "distinct (map pair_of (entries x))" if "distinct (map ee_child (entries x))" for x
    using that by (auto simp: distinct_map inj_on_def)
  have "set (map pair_of (entries x)) = {(c, l). emap x c = Some l}"
    if "distinct (map ee_child (entries x))" for x
    using emap_Some[OF that] by (auto simp: image_iff)
  then have "set (map pair_of (entries a)) = set (map pair_of (entries b))"
    using assms by simp
  then show ?thesis using set_eq_iff_mset_eq_distinct d assms(1,2) by blast
qed

lemma edges_in_map_spec:
  assumes "wf_map s b" "\<forall>e\<in>set es. \<exists>h. mtpndd_hash_node_identity s (ee_child e) = Some h"
  shows "edges_in_map s es b = Some (\<forall>e\<in>set es. emap b (ee_child e) = Some (ee_label e))"
  using assms(2)
proof (induction es)
  case (Cons e es)
  obtain h where h: "mtpndd_hash_node_identity s (ee_child e) = Some h" using Cons.prems by auto
  note f = find_bucket[OF assms(1) h]
  show ?case
    using Cons f h wf_map_bounds[OF assms(1)] bucket_index_wf[OF assms(1), of s "ee_child e"]
    by (cases "find (\<lambda>e'. ee_child e' = ee_child e) (buckets b ! mask_index h (bucket_count b))")
      (auto simp: edge_bucket_def dest: sym)
qed simp

lemma edges_equal_spec:
  assumes a: "wf_map s a" "hash_ok a" and b: "wf_map s b" "hash_ok b"
  shows "nodetable_edges_equal s a b = Some (emap a = emap b)"
proof -
  have da: "distinct (map ee_child (entries a))" and db: "distinct (map ee_child (entries b))"
    and ca: "edge_count a = length (entries a)" and cb: "edge_count b = length (entries b)"
    using a b by (auto simp: wf_map_def)
  have kn: "\<forall>e\<in>set (entries a). \<exists>h. mtpndd_hash_node_identity s (ee_child e) = Some h"
    using a placed_hash[of s "bucket_count a" "buckets a"] by (auto simp: wf_map_def entries_def)
  show ?thesis
  proof (cases "emap a = emap b")
    case True
    note ms = emap_eq_mset[OF da db True]
    have eh: "entry_hash = (\<lambda>(c, l). mtpndd_edge_entry_hash c l) \<circ> pair_of"
      by (simp add: fun_eq_iff entry_hash_def)
    have "cached_hash a = cached_hash b"
      using a(2) b(2) xor_fold_mset[OF ms] unfolding hash_ok_def eh xor_fold_map[symmetric] by metis
    moreover have "edge_count a = edge_count b"
      using mset_eq_length[OF ms] ca cb by simp
    moreover have "emap a (ee_child e) = Some (ee_label e)" if "e \<in> set (entries a)" for e
      using emap_Some[OF da] that by blast
    then have "edges_in_map s (entries a) b = Some True"
      unfolding edges_in_map_spec[OF b(1) kn] using True by simp
    ultimately show ?thesis using True a(1) by (simp add: nodetable_edges_equal_def)
  next
    case False
    have "\<not> (\<forall>e\<in>set (entries a). emap b (ee_child e) = Some (ee_label e))"
      if len: "edge_count a = edge_count b"
    proof
      assume sub: "\<forall>e\<in>set (entries a). emap b (ee_child e) = Some (ee_label e)"
      have le: "emap a \<subseteq>\<^sub>m emap b" using sub emap_Some[OF da] by (force simp: map_le_def dom_def)
      have "card (dom (emap a)) = card (dom (emap b))"
        using len ca cb da db unfolding dom_emap
        by (metis distinct_card length_map set_map)
      moreover have "finite (dom (emap b))" unfolding dom_emap by simp
      ultimately have "dom (emap a) = dom (emap b)"
        using map_le_implies_dom_le[OF le] by (simp add: card_subset_eq)
      then have "emap a = emap b" using le
        by (metis map_le_antisym map_le_def)
      then show False using False by simp
    qed
    moreover have "edge_count a = 0 \<Longrightarrow> edge_count b = 0 \<Longrightarrow> emap a = emap b"
      using ca cb by (simp add: emap_def)
    ultimately show ?thesis
      using False a(1) wf_map_bounds(6)[OF a(1)] edges_in_map_spec[OF b(1) kn]
      by (auto simp: nodetable_edges_equal_def)
  qed
qed

lemma release_entries_quiet:
  "\<exists>s'. iter_state release_entry es s = Some s' \<and> quiet s s'"
proof (induction es arbitrary: s)
  case (Cons e es)
  let ?s = "mtpndd_memory_release_edge_entry (ee_addr e) (sylvan_deref (ee_label e) s)"
  obtain s' where "iter_state release_entry es ?s = Some s'" "quiet ?s s'" using Cons by blast
  moreover have "quiet s ?s" by (blast intro: quiet_trans)
  moreover have "iter_state release_entry (e # es) s = iter_state release_entry es ?s"
    by (simp add: release_entry_def)
  ultimately show ?case by (metis quiet_trans)
qed simp

lemma edge_map_free_spec:
  assumes "wf_map s0 m"
  shows "succeeds (mtpndd_edge_map_free m s) (\<lambda>s'. quiet s s')"
proof -
  obtain s1 where "iter_state release_entry (entries m) s = Some s1" "quiet s s1"
    using release_entries_quiet by blast
  then show ?thesis using assms wf_map_bounds(6)[OF assms]
    by (auto simp: mtpndd_edge_map_free_def mtpndd_edge_map_reset_def intro: quiet_trans)
qed

text \<open>The bucket count the pool hands out is a power of two of at least 8.\<close>

definition bucket_cfg_ok :: "mstate \<Rightarrow> bool" where
  "bucket_cfg_ok s \<longleftrightarrow> is_pow2 (g_edge_bucket_count s) \<and> 8 \<le> g_edge_bucket_count s
     \<and> g_edge_bucket_count s \<le> 2 ^ 60"

lemma new_edge_map:
  assumes cfg: "bucket_cfg_ok s" and a: "mtpndd_memory_acquire_edge_map s = (Some m0, s')"
  shows "\<exists>m. mtpndd_edge_map_init s' m0 = Some m \<and> wf_map s' m \<and> emap m = Map.empty
           \<and> entries m = [] \<and> quiet s s' \<and> bucket_count m = g_edge_bucket_count s"
proof -
  note q = acquire_edge_map_quiet[OF a]
  let ?n = "g_edge_bucket_count s"
  have m0: "bucket_count m0 = ?n" "buckets m0 = replicate ?n []"
    using a quiet_fields(3)[OF q]
    by (auto simp: mtpndd_memory_acquire_edge_map_def Let_def split: prod.splits if_splits)
  have "?n \<le> 2 ^ 63" using cfg by (simp add: bucket_cfg_ok_def)
  then have "edge_bucket_target s' m0 = ?n"
    using cfg m0 by (simp add: edge_bucket_target_def edge_map_bucket_count_def max_def
        MTPNDD_DEFAULT_EDGE_BUCKET_COUNT_def bucket_cfg_ok_def round_up_pow2_nat_pow2)
  then show ?thesis using cfg m0 q
    by (simp add: Let_def mtpndd_edge_map_init_def wf_map_def entries_def emap_def bucket_cfg_ok_def
        MTPNDD_DEFAULT_EDGE_BUCKET_COUNT_def)
qed

section \<open>The contract of an edge map\<close>

text \<open>
  An edge map promises a partial function from children to labels: \<open>val\<close> is the function, a
  child is \<open>known\<close> when it can be hashed, \<open>add\<close> merges with \<open>join\<close> and drops the child \<open>drop\<close>,
  \<open>find\<close> reads it.  Adding edges one after another joins the labels per child.
\<close>

locale label_map =
  fixes wf :: "'s \<Rightarrow> 'm \<Rightarrow> bool" and val :: "'m \<Rightarrow> ptr \<rightharpoonup> bdd"
    and known :: "'s \<Rightarrow> ptr \<Rightarrow> bool"
    and add :: "'m \<Rightarrow> ptr \<Rightarrow> bdd \<Rightarrow> 's \<Rightarrow> (mtpndd_error \<times> 'm \<times> 's) option"
    and look :: "'s \<Rightarrow> 'm \<Rightarrow> ptr \<Rightarrow> bdd option option"
    and join :: "bdd \<Rightarrow> bdd \<Rightarrow> bdd" and unit :: bdd and skip :: ptr
  assumes add_val: "wf s m \<Longrightarrow> known s c \<Longrightarrow> succeeds (add m c l s) (\<lambda>(st, m', s').
            wf s' m' \<and> (\<forall>d. known s d \<longrightarrow> known s' d) \<and>
            (if st = MTPNDD_SUCCESS
             then val m' = (if c = skip then val m
                            else (val m)(c \<mapsto> join (case val m c of None \<Rightarrow> unit | Some x \<Rightarrow> x) l))
             else m' = m))"
    and look_val: "wf s m \<Longrightarrow> known s c \<Longrightarrow> look s m c = Some (val m c)"
begin

lemma look_after_add:
  assumes "wf s m" "known s c" "known s d"
  shows "succeeds (add m c l s) (\<lambda>(st, m', s'). st = MTPNDD_SUCCESS \<longrightarrow>
           look s' m' d =
             Some (if d = c \<and> c \<noteq> skip then Some (join (case val m c of None \<Rightarrow> unit | Some x \<Rightarrow> x) l)
                   else val m d))"
  by (rule succeeds_mono[OF add_val[OF assms(1,2)]]) (use assms(3) look_val in auto)

end

definition node_known :: "mstate \<Rightarrow> ptr \<Rightarrow> bool" where
  "node_known s c \<longleftrightarrow> c \<noteq> NULL \<and> nodes s c \<noteq> None"

definition edge_map_ok :: "mstate \<Rightarrow> mtpndd_edge \<Rightarrow> bool" where
  "edge_map_ok s m \<longleftrightarrow> wf_map s m \<and> mem_limit (c_heap_of s) \<le> 2 ^ 60"

definition edge_label_of :: "mstate \<Rightarrow> mtpndd_edge \<Rightarrow> ptr \<Rightarrow> bdd option option" where
  "edge_label_of s m c = map_option (map_option ee_label) (find_edge_entry s m c)"

interpretation em: label_map edge_map_ok emap node_known "mtpndd_add_edge S" edge_label_of
  "sylvan_or S" "sylvan_false S" MTPNDD_FALSE for S
proof
  fix s m c l
  assume ok: "edge_map_ok s m" and c: "node_known s c"
  note add_edge_spec[of s m c S l]
  then show "succeeds (mtpndd_add_edge S m c l s) (\<lambda>(st, m', s').
      edge_map_ok s' m' \<and> (\<forall>d. node_known s d \<longrightarrow> node_known s' d) \<and>
      (if st = MTPNDD_SUCCESS
       then emap m' = (if c = MTPNDD_FALSE then emap m
         else (emap m)(c \<mapsto> sylvan_or S (case emap m c of None \<Rightarrow> sylvan_false S | Some x \<Rightarrow> x) l))
       else m' = m))"
    using ok c
    by (auto elim!: succeeds_mono simp: edge_map_ok_def node_known_def merged_label_def quiet_fields(1,18))
next
  fix s m c
  assume "edge_map_ok s m" "node_known s c"
  then show "edge_label_of s m c = Some (emap m c)"
    using find_edge_entry_spec[of s m c] by (auto simp: edge_map_ok_def node_known_def edge_label_of_def)
qed

end
