(* ===== verification/Op_Cache.thy ===== *)
theory Op_Cache
  imports Edge_Map
begin

text \<open>
  \<open>mtpndd_operation_cache.c\<close>: direct-mapped caches from operands to results, one slot per hash
  index, a store overwrites the slot.  This theory runs each call to completion.  A cache is a memo table: it returns a
  result only for operands that were stored with it, so a property of all stored triples is a
  property of every hit (locale \<open>memo_table\<close>).
\<close>

section \<open>Operations\<close>

definition kMtpnddOpCacheMinSize :: nat where
  "kMtpnddOpCacheMinSize = 1024"

definition kMtpnddOpCacheWriteLock :: ptr where
  "kMtpnddOpCacheWriteLock = 1"

text \<open>The doubling loop; \<open>capacity\<close> is \<open>2 ^ k\<close>, \<open>SIZE_MAX\<close> is \<open>2 ^ 64 - 1\<close>.\<close>

function adjust_size_loop :: "nat \<Rightarrow> nat \<Rightarrow> nat" where
  "adjust_size_loop k requested =
     (if 2 ^ k < requested
      then if (2 ^ 64 - 1) div 2 < (2 :: nat) ^ k then 2 ^ 63 else adjust_size_loop (k + 1) requested
      else 2 ^ k)"
  by pat_completeness auto
termination
  by (relation "measure (\<lambda>(k, requested). requested - 2 ^ k)") (auto intro!: diff_less_mono2)

definition mtpndd_op_cache_adjust_size :: "nat \<Rightarrow> nat" where
  "mtpndd_op_cache_adjust_size requested =
     (let capacity = adjust_size_loop 0 requested
      in if capacity \<noteq> 0 then capacity else kMtpnddOpCacheMinSize)"

definition empty_entry :: op_cache_entry where
  "empty_entry = \<lparr>oc_op0 = NULL, oc_op1 = NULL, oc_result = NULL\<rparr>"

definition mtpndd_op_cache_create :: "nat \<Rightarrow> nat \<Rightarrow> mstate \<Rightarrow> mtpndd_op_cache option \<times> mstate" where
  "mtpndd_op_cache_create requested_size arity s =
     (let capacity = mtpndd_op_cache_adjust_size requested_size;
          (p, s) = malloc 32 s
      in if p = NULL then (None, s)
         else let (q, s) = malloc (capacity * 24) s
              in if q = NULL then (None, s)
                 else (Some \<lparr>oc_entries = replicate capacity empty_entry, oc_capacity = capacity,
                             oc_mask = word_of_nat capacity - 1, oc_arity = arity\<rparr>, s))"

definition mtpndd_op_cache_hash_binary_index ::
  "mstate \<Rightarrow> mtpndd_op_cache \<Rightarrow> ptr \<Rightarrow> ptr \<Rightarrow> nat option" where
  "mtpndd_op_cache_hash_binary_index s cache lhs rhs = do {
     h1 \<leftarrow> mtpndd_hash_node_identity s lhs;
     h2 \<leftarrow> mtpndd_hash_node_identity s rhs;
     let hash = h1 XOR (h2 + 0x9e3779b97f4a7c15 + push_bit 6 h1 + drop_bit 2 h1);
     Some (unat (hash AND oc_mask cache))
   }"

definition mtpndd_op_cache_hash_unary_index :: "mstate \<Rightarrow> mtpndd_op_cache \<Rightarrow> ptr \<Rightarrow> nat option" where
  "mtpndd_op_cache_hash_unary_index s cache operand = do {
     hash \<leftarrow> mtpndd_hash_node_identity s operand;
     let hash = hash XOR drop_bit 33 hash;
     let hash = hash * 0xff51afd7ed558ccd;
     let hash = hash XOR drop_bit 33 hash;
     let hash = hash * 0xc4ceb9fe1a85ec53;
     let hash = hash XOR drop_bit 33 hash;
     Some (unat (hash AND oc_mask cache))
   }"

definition mtpndd_op_cache_initialize :: "nat \<Rightarrow> mstate \<Rightarrow> bool \<times> mstate" where
  "mtpndd_op_cache_initialize sz s =
     (case mtpndd_op_cache_create sz 2 s of
        (None, s) \<Rightarrow> (False, s)
      | (Some andc, s) \<Rightarrow>
          (case mtpndd_op_cache_create sz 2 s of
             (None, s) \<Rightarrow> (False, s)
           | (Some orc, s) \<Rightarrow>
               (case mtpndd_op_cache_create sz 1 s of
                  (None, s) \<Rightarrow> (False, s)
                | (Some notc, s) \<Rightarrow>
                    (True, s\<lparr>and_cache := Some andc, or_cache := Some orc, not_cache := Some notc\<rparr>))))"

definition mtpndd_op_cache_destroy :: "mstate \<Rightarrow> mstate" where
  "mtpndd_op_cache_destroy s = s\<lparr>and_cache := None, or_cache := None, not_cache := None\<rparr>"

text \<open>
  \<open>mtpndd_op_cache_lock_entry\<close> run alone: it returns at once, or spins forever on a slot that
  is left locked.
\<close>

definition mtpndd_op_cache_lock_entry :: "op_cache_entry \<Rightarrow> op_cache_entry option" where
  "mtpndd_op_cache_lock_entry e =
     (if oc_result e = kMtpnddOpCacheWriteLock then None
      else Some (e\<lparr>oc_result := kMtpnddOpCacheWriteLock\<rparr>))"

definition store_slot :: "ptr \<Rightarrow> ptr \<Rightarrow> ptr \<Rightarrow> op_cache_entry \<Rightarrow> op_cache_entry option" where
  "store_slot a b r e = do {
     e \<leftarrow> mtpndd_op_cache_lock_entry e;
     Some (e\<lparr>oc_op0 := a, oc_op1 := b, oc_result := r\<rparr>)
   }"

fun clear_slots :: "op_cache_entry list \<Rightarrow> op_cache_entry list option" where
  "clear_slots [] = Some []"
| "clear_slots (e # es) = do { e \<leftarrow> store_slot NULL NULL NULL e; es \<leftarrow> clear_slots es; Some (e # es) }"

definition mtpndd_op_cache_clear :: "mtpndd_op_cache option \<Rightarrow> mtpndd_op_cache option option" where
  "mtpndd_op_cache_clear cache =
     (case cache of
        None \<Rightarrow> Some None
      | Some c \<Rightarrow> if oc_entries c = [] then Some (Some c)
                  else if oc_capacity c \<le> length (oc_entries c)
                  then do {
                    es \<leftarrow> clear_slots (take (oc_capacity c) (oc_entries c));
                    Some (Some (c\<lparr>oc_entries := es @ drop (oc_capacity c) (oc_entries c)\<rparr>))
                  } else None)"

definition cache_slot :: "mtpndd_op_cache \<Rightarrow> nat \<Rightarrow> op_cache_entry option" where
  "cache_slot c i = (if i < length (oc_entries c) then Some (oc_entries c ! i) else None)"

definition mtpndd_op_cache_lookup_binary ::
  "mstate \<Rightarrow> mtpndd_op_cache option \<Rightarrow> ptr \<Rightarrow> ptr \<Rightarrow> ptr option" where
  "mtpndd_op_cache_lookup_binary s cache lhs rhs =
     (case cache of
        None \<Rightarrow> Some NULL
      | Some c \<Rightarrow>
          if oc_arity c \<noteq> 2 \<or> oc_capacity c = 0 then Some NULL
          else do {
            i \<leftarrow> mtpndd_op_cache_hash_binary_index s c lhs rhs;
            e \<leftarrow> cache_slot c i;
            if oc_result e = NULL \<or> oc_result e = kMtpnddOpCacheWriteLock then Some NULL
            else if oc_op0 e = lhs \<and> oc_op1 e = rhs then Some (oc_result e) else Some NULL
          })"

definition mtpndd_op_cache_store_binary ::
  "mstate \<Rightarrow> mtpndd_op_cache option \<Rightarrow> ptr \<Rightarrow> ptr \<Rightarrow> ptr \<Rightarrow> mtpndd_op_cache option option" where
  "mtpndd_op_cache_store_binary s cache lhs rhs result =
     (case cache of
        None \<Rightarrow> Some None
      | Some c \<Rightarrow>
          if oc_arity c \<noteq> 2 \<or> oc_capacity c = 0 \<or> result = NULL then Some (Some c)
          else do {
            i \<leftarrow> mtpndd_op_cache_hash_binary_index s c lhs rhs;
            e \<leftarrow> cache_slot c i;
            e \<leftarrow> store_slot lhs rhs result e;
            Some (Some (c\<lparr>oc_entries := (oc_entries c)[i := e]\<rparr>))
          })"

definition mtpndd_op_cache_lookup_unary ::
  "mstate \<Rightarrow> mtpndd_op_cache option \<Rightarrow> ptr \<Rightarrow> ptr option" where
  "mtpndd_op_cache_lookup_unary s cache operand =
     (case cache of
        None \<Rightarrow> Some NULL
      | Some c \<Rightarrow>
          if oc_arity c \<noteq> 1 \<or> oc_capacity c = 0 then Some NULL
          else do {
            i \<leftarrow> mtpndd_op_cache_hash_unary_index s c operand;
            e \<leftarrow> cache_slot c i;
            if oc_result e = NULL \<or> oc_result e = kMtpnddOpCacheWriteLock then Some NULL
            else if oc_op0 e = operand then Some (oc_result e) else Some NULL
          })"

definition mtpndd_op_cache_store_unary ::
  "mstate \<Rightarrow> mtpndd_op_cache option \<Rightarrow> ptr \<Rightarrow> ptr \<Rightarrow> mtpndd_op_cache option option" where
  "mtpndd_op_cache_store_unary s cache operand result =
     (case cache of
        None \<Rightarrow> Some None
      | Some c \<Rightarrow>
          if oc_arity c \<noteq> 1 \<or> oc_capacity c = 0 \<or> result = NULL then Some (Some c)
          else do {
            i \<leftarrow> mtpndd_op_cache_hash_unary_index s c operand;
            e \<leftarrow> cache_slot c i;
            e \<leftarrow> store_slot operand NULL result e;
            Some (Some (c\<lparr>oc_entries := (oc_entries c)[i := e]\<rparr>))
          })"

section \<open>Size of a cache\<close>

lemma adjust_size_loop_pow2:
  assumes "k \<le> 63"
  shows "is_pow2 (adjust_size_loop k n) \<and> adjust_size_loop k n \<le> 2 ^ 63
         \<and> (n \<le> 2 ^ 63 \<longrightarrow> n \<le> adjust_size_loop k n)"
  using assms
proof (induction k n rule: adjust_size_loop.induct)
  case (1 k n)
  have p63: "(2 :: nat) ^ k \<le> 2 ^ 63" using power_increasing[OF 1(2), of "2 :: nat"] by simp
  show ?case
  proof (cases "2 ^ k < n \<and> \<not> (2 ^ 64 - 1) div 2 < (2 :: nat) ^ k")
    case True
    then have "k \<noteq> 63" by auto
    then show ?thesis using 1 True by (subst adjust_size_loop.simps) auto
  next
    case False
    have "is_pow2 (2 ^ 63)" by (rule is_pow2_power)
    then show ?thesis using p63 False is_pow2_power[of k]
      by (subst (1 2 3) adjust_size_loop.simps) (auto simp del: power_numeral)
  qed
qed

lemma adjust_size_pow2:
  "is_pow2 (mtpndd_op_cache_adjust_size n) \<and> mtpndd_op_cache_adjust_size n \<le> 2 ^ 63
   \<and> (n \<le> 2 ^ 63 \<longrightarrow> n \<le> mtpndd_op_cache_adjust_size n)"
  using adjust_size_loop_pow2[of 0 n] is_pow2_pos
  by (simp add: mtpndd_op_cache_adjust_size_def Let_def)

section \<open>A cache is a memo table\<close>

definition cache_ok :: "mtpndd_op_cache \<Rightarrow> bool" where
  "cache_ok c \<longleftrightarrow> is_pow2 (oc_capacity c) \<and> oc_capacity c \<le> 2 ^ 63
     \<and> length (oc_entries c) = oc_capacity c \<and> oc_mask c = word_of_nat (oc_capacity c) - 1
     \<and> (\<forall>e\<in>set (oc_entries c). oc_result e \<noteq> kMtpnddOpCacheWriteLock)"

definition cached :: "mtpndd_op_cache option \<Rightarrow> ptr \<Rightarrow> ptr \<Rightarrow> ptr \<Rightarrow> bool" where
  "cached cache a b r \<longleftrightarrow>
     (case cache of
        None \<Rightarrow> False
      | Some c \<Rightarrow> r \<noteq> NULL \<and> (\<exists>e\<in>set (oc_entries c). oc_op0 e = a \<and> oc_op1 e = b \<and> oc_result e = r))"

definition opt_cache_ok :: "nat \<Rightarrow> mtpndd_op_cache option \<Rightarrow> bool" where
  "opt_cache_ok n cache \<longleftrightarrow> (case cache of None \<Rightarrow> True | Some c \<Rightarrow> cache_ok c \<and> oc_arity c = n)"

lemma mask_slot:
  assumes "cache_ok c"
  shows "unat (h AND oc_mask c) < length (oc_entries c)"
  using assms mask_index_less[of "oc_capacity c" h] by (simp add: cache_ok_def mask_index_def)

lemma binary_index_less:
  "cache_ok c \<Longrightarrow> mtpndd_op_cache_hash_binary_index s c a b = Some i \<Longrightarrow> i < length (oc_entries c)"
  using mask_slot by (auto simp: mtpndd_op_cache_hash_binary_index_def Let_def bind_eq_Some_conv)

lemma unary_index_less:
  "cache_ok c \<Longrightarrow> mtpndd_op_cache_hash_unary_index s c a = Some i \<Longrightarrow> i < length (oc_entries c)"
  using mask_slot by (auto simp: mtpndd_op_cache_hash_unary_index_def Let_def bind_eq_Some_conv)

lemma node_known_hash: "node_known s p \<Longrightarrow> \<exists>h. mtpndd_hash_node_identity s p = Some h"
  by (auto simp: node_known_def mtpndd_hash_node_identity_def)

lemma lookup_binary_spec:
  assumes "opt_cache_ok 2 cache" "node_known s a" "node_known s b"
  shows "\<exists>r. mtpndd_op_cache_lookup_binary s cache a b = Some r \<and> (r \<noteq> NULL \<longrightarrow> cached cache a b r)"
proof (cases cache)
  case (Some c)
  then have ok: "cache_ok c" and ar: "oc_arity c = 2" using assms(1) by (auto simp: opt_cache_ok_def)
  obtain i where i: "mtpndd_op_cache_hash_binary_index s c a b = Some i"
    using node_known_hash[OF assms(2)] node_known_hash[OF assms(3)]
    by (auto simp: mtpndd_op_cache_hash_binary_index_def Let_def)
  then have "i < length (oc_entries c)" using binary_index_less[OF ok] by simp
  then show ?thesis using Some i ar nth_mem[of i "oc_entries c"]
    by (force simp: mtpndd_op_cache_lookup_binary_def cache_slot_def cached_def)
qed (simp add: mtpndd_op_cache_lookup_binary_def)

lemma lookup_unary_spec:
  assumes "opt_cache_ok 1 cache" "node_known s a"
  shows "\<exists>r. mtpndd_op_cache_lookup_unary s cache a = Some r
             \<and> (r \<noteq> NULL \<longrightarrow> (\<exists>b. cached cache a b r))"
proof (cases cache)
  case (Some c)
  then have ok: "cache_ok c" and ar: "oc_arity c = 1" using assms(1) by (auto simp: opt_cache_ok_def)
  obtain i where i: "mtpndd_op_cache_hash_unary_index s c a = Some i"
    using node_known_hash[OF assms(2)] by (auto simp: mtpndd_op_cache_hash_unary_index_def Let_def)
  then have "i < length (oc_entries c)" using unary_index_less[OF ok] by simp
  then show ?thesis using Some i ar nth_mem[of i "oc_entries c"]
    by (force simp: mtpndd_op_cache_lookup_unary_def cache_slot_def cached_def)
qed (simp add: mtpndd_op_cache_lookup_unary_def)

lemma store_slot_ok:
  "oc_result e \<noteq> kMtpnddOpCacheWriteLock \<Longrightarrow>
   store_slot a b r e = Some \<lparr>oc_op0 = a, oc_op1 = b, oc_result = r\<rparr>"
  by (cases e) (simp add: store_slot_def mtpndd_op_cache_lock_entry_def)

lemma update_slot_ok:
  fixes a b r :: ptr
  assumes ok: "cache_ok c" and i: "i < length (oc_entries c)" and r: "r \<noteq> kMtpnddOpCacheWriteLock"
  defines "e \<equiv> \<lparr>oc_op0 = a, oc_op1 = b, oc_result = r\<rparr>"
  defines "c' \<equiv> c\<lparr>oc_entries := (oc_entries c)[i := e]\<rparr>"
  shows "store_slot a b r (oc_entries c ! i) = Some e \<and> cache_ok c' \<and> oc_arity c' = oc_arity c
         \<and> (\<forall>x y z. cached (Some c') x y z \<longrightarrow> cached (Some c) x y z \<or> (x = a \<and> y = b \<and> z = r))
         \<and> (r \<noteq> NULL \<longrightarrow> cached (Some c') a b r)"
proof -
  have sub: "set (oc_entries c') \<subseteq> insert e (set (oc_entries c))"
    unfolding c'_def using set_update_subset_insert[of "oc_entries c" i e] by simp
  have "e \<in> set (oc_entries c')" unfolding c'_def using i by (simp add: set_update_memI)
  then have hit: "r \<noteq> NULL \<longrightarrow> cached (Some c') a b r"
    by (auto simp: cached_def e_def intro!: bexI[of _ e])
  have "oc_result (oc_entries c ! i) \<noteq> kMtpnddOpCacheWriteLock"
    using ok i by (simp add: cache_ok_def)
  then have "store_slot a b r (oc_entries c ! i) = Some e" by (simp add: store_slot_ok e_def)
  moreover have "cache_ok c'"
    using ok sub r unfolding cache_ok_def by (auto simp: c'_def e_def)
  moreover have "cached (Some c) x y z \<or> (x = a \<and> y = b \<and> z = r)" if "cached (Some c') x y z" for x y z
    using that sub by (auto simp: cached_def e_def)
  ultimately show ?thesis using hit by (auto simp: c'_def)
qed

lemma store_binary_spec:
  assumes "opt_cache_ok 2 cache" "node_known s a" "node_known s b" "r \<noteq> kMtpnddOpCacheWriteLock"
  shows "\<exists>cache'. mtpndd_op_cache_store_binary s cache a b r = Some cache' \<and> opt_cache_ok 2 cache'
           \<and> (\<forall>x y z. cached cache' x y z \<longrightarrow> cached cache x y z \<or> (x = a \<and> y = b \<and> z = r))"
proof (cases cache)
  case (Some c)
  then have ok: "cache_ok c" and ar: "oc_arity c = 2" using assms(1) by (auto simp: opt_cache_ok_def)
  obtain i where i: "mtpndd_op_cache_hash_binary_index s c a b = Some i"
    using node_known_hash[OF assms(2)] node_known_hash[OF assms(3)]
    by (auto simp: mtpndd_op_cache_hash_binary_index_def Let_def)
  then have il: "i < length (oc_entries c)" using binary_index_less[OF ok] by simp
  show ?thesis
  proof (cases "oc_capacity c = 0 \<or> r = NULL")
    case True
    then show ?thesis using Some ar assms(1) by (auto simp: mtpndd_op_cache_store_binary_def)
  next
    case False
    then show ?thesis
      using Some i il ar update_slot_ok[OF ok il assms(4), of a b]
      by (simp add: mtpndd_op_cache_store_binary_def cache_slot_def opt_cache_ok_def)
  qed
qed (use assms in \<open>simp add: mtpndd_op_cache_store_binary_def\<close>)

lemma store_unary_spec:
  assumes "opt_cache_ok 1 cache" "node_known s a" "r \<noteq> kMtpnddOpCacheWriteLock"
  shows "\<exists>cache'. mtpndd_op_cache_store_unary s cache a r = Some cache' \<and> opt_cache_ok 1 cache'
           \<and> (\<forall>x y z. cached cache' x y z \<longrightarrow> cached cache x y z \<or> (x = a \<and> y = NULL \<and> z = r))"
proof (cases cache)
  case (Some c)
  then have ok: "cache_ok c" and ar: "oc_arity c = 1" using assms(1) by (auto simp: opt_cache_ok_def)
  obtain i where i: "mtpndd_op_cache_hash_unary_index s c a = Some i"
    using node_known_hash[OF assms(2)] by (auto simp: mtpndd_op_cache_hash_unary_index_def Let_def)
  then have il: "i < length (oc_entries c)" using unary_index_less[OF ok] by simp
  show ?thesis
  proof (cases "oc_capacity c = 0 \<or> r = NULL")
    case True
    then show ?thesis using Some ar assms(1) by (auto simp: mtpndd_op_cache_store_unary_def)
  next
    case False
    then show ?thesis
      using Some i il ar update_slot_ok[OF ok il assms(3), of a NULL]
      by (simp add: mtpndd_op_cache_store_unary_def cache_slot_def opt_cache_ok_def)
  qed
qed (use assms in \<open>simp add: mtpndd_op_cache_store_unary_def\<close>)

lemma clear_slots_spec:
  assumes "\<forall>e\<in>set es. oc_result e \<noteq> kMtpnddOpCacheWriteLock"
  shows "clear_slots es = Some (replicate (length es) empty_entry)"
  using assms by (induction es) (simp_all add: store_slot_ok empty_entry_def)

lemma clear_spec:
  assumes "opt_cache_ok n cache"
  shows "\<exists>cache'. mtpndd_op_cache_clear cache = Some cache' \<and> opt_cache_ok n cache'
           \<and> (\<forall>x y z. \<not> cached cache' x y z)"
proof (cases cache)
  case (Some c)
  then have ok: "cache_ok c" and ar: "oc_arity c = n" using assms by (auto simp: opt_cache_ok_def)
  then have "0 < oc_capacity c" using is_pow2_pos by (auto simp: cache_ok_def)
  then have ne: "oc_entries c \<noteq> []" using ok by (auto simp: cache_ok_def)
  let ?c = "c\<lparr>oc_entries := replicate (length (oc_entries c)) empty_entry\<rparr>"
  have cl: "clear_slots (oc_entries c) = Some (replicate (length (oc_entries c)) empty_entry)"
    by (rule clear_slots_spec) (use ok in \<open>simp add: cache_ok_def\<close>)
  have "mtpndd_op_cache_clear cache = Some (Some ?c)"
    using Some ne ok cl by (simp add: mtpndd_op_cache_clear_def cache_ok_def)
  moreover have "cache_ok ?c \<and> (\<forall>x y z. \<not> cached (Some ?c) x y z)"
    using ok by (auto simp: cache_ok_def cached_def empty_entry_def kMtpnddOpCacheWriteLock_def)
  ultimately show ?thesis using ar by (auto simp: opt_cache_ok_def)
qed (simp add: mtpndd_op_cache_clear_def opt_cache_ok_def cached_def)

section \<open>The contract of a cache\<close>

text \<open>
  A memo table may forget, never invent: a hit is a result that was stored for exactly that
  key.  \<open>memo_run\<close> plays a sequence of stores and clears; \<open>memo_log\<close> lists the stores since the
  last clear.
\<close>

datatype 'k memo_cmd = MStore 'k ptr | MClear

fun memo_run :: "('c \<Rightarrow> 'k \<Rightarrow> ptr \<Rightarrow> 'c option) \<Rightarrow> ('c \<Rightarrow> 'c option) \<Rightarrow> 'k memo_cmd list \<Rightarrow> 'c \<Rightarrow> 'c option"
where
  "memo_run st cl [] c = Some c"
| "memo_run st cl (MStore k r # cs) c = do { c \<leftarrow> st c k r; memo_run st cl cs c }"
| "memo_run st cl (MClear # cs) c = do { c \<leftarrow> cl c; memo_run st cl cs c }"

fun memo_log :: "'k memo_cmd list \<Rightarrow> ('k \<times> ptr) set \<Rightarrow> ('k \<times> ptr) set" where
  "memo_log [] L = L"
| "memo_log (MStore k r # cs) L = memo_log cs (insert (k, r) L)"
| "memo_log (MClear # cs) L = memo_log cs {}"

fun memo_cmd_ok :: "('k \<Rightarrow> bool) \<Rightarrow> (ptr \<Rightarrow> bool) \<Rightarrow> 'k memo_cmd \<Rightarrow> bool" where
  "memo_cmd_ok key val (MStore k r) \<longleftrightarrow> key k \<and> val r"
| "memo_cmd_ok key val MClear \<longleftrightarrow> True"

locale memo_table =
  fixes ok :: "'c \<Rightarrow> bool" and stored :: "'c \<Rightarrow> 'k \<Rightarrow> ptr \<Rightarrow> bool"
    and look :: "'c \<Rightarrow> 'k \<Rightarrow> ptr option" and put :: "'c \<Rightarrow> 'k \<Rightarrow> ptr \<Rightarrow> 'c option"
    and clear :: "'c \<Rightarrow> 'c option" and key :: "'k \<Rightarrow> bool" and val :: "ptr \<Rightarrow> bool"
  assumes look_stored: "ok c \<Longrightarrow> key k \<Longrightarrow> \<exists>r. look c k = Some r \<and> (r \<noteq> NULL \<longrightarrow> stored c k r)"
    and put_stored: "ok c \<Longrightarrow> key k \<Longrightarrow> val r \<Longrightarrow> \<exists>c'. put c k r = Some c' \<and> ok c'
          \<and> (\<forall>k' r'. stored c' k' r' \<longrightarrow> stored c k' r' \<or> (k' = k \<and> r' = r))"
    and clear_stored: "ok c \<Longrightarrow> \<exists>c'. clear c = Some c' \<and> ok c' \<and> (\<forall>k r. \<not> stored c' k r)"
begin

lemma run_ok:
  assumes "ok c" "\<forall>k r. stored c k r \<longrightarrow> (k, r) \<in> L" "list_all (memo_cmd_ok key val) cs"
  shows "\<exists>c'. memo_run put clear cs c = Some c' \<and> ok c'
           \<and> (\<forall>k r. stored c' k r \<longrightarrow> (k, r) \<in> memo_log cs L)"
  using assms
proof (induction cs arbitrary: c L)
  case (Cons cmd cs)
  show ?case
  proof (cases cmd)
    case (MStore k r)
    then obtain c1 where c1: "put c k r = Some c1" "ok c1"
      "\<forall>k' r'. stored c1 k' r' \<longrightarrow> stored c k' r' \<or> (k' = k \<and> r' = r)"
      using put_stored[OF Cons.prems(1), of k r] Cons.prems(3) by auto
    then have "\<forall>k' r'. stored c1 k' r' \<longrightarrow> (k', r') \<in> insert (k, r) L" using Cons.prems(2) by blast
    from Cons.IH[OF c1(2) this] show ?thesis using Cons.prems(3) MStore c1(1) by simp
  next
    case MClear
    then obtain c1 where c1: "clear c = Some c1" "ok c1" "\<forall>k r. \<not> stored c1 k r"
      using clear_stored[OF Cons.prems(1)] by blast
    then have "\<forall>k r. stored c1 k r \<longrightarrow> (k, r) \<in> {}" by blast
    from Cons.IH[OF c1(2) this] show ?thesis using Cons.prems(3) MClear c1(1) by simp
  qed
qed auto

lemma hit_was_stored:
  assumes "ok c" "\<forall>k r. \<not> stored c k r" "list_all (memo_cmd_ok key val) cs" "key k"
  shows "\<exists>c' r. memo_run put clear cs c = Some c' \<and> look c' k = Some r
           \<and> (r \<noteq> NULL \<longrightarrow> (k, r) \<in> memo_log cs {})"
  using run_ok[OF assms(1) _ assms(3), of "{}"] assms(2,4) look_stored by blast

end

interpretation bin: memo_table "opt_cache_ok 2" "\<lambda>c k. cached c (fst k) (snd k)"
  "\<lambda>c k. mtpndd_op_cache_lookup_binary s c (fst k) (snd k)"
  "\<lambda>c k. mtpndd_op_cache_store_binary s c (fst k) (snd k)" mtpndd_op_cache_clear
  "\<lambda>k. node_known s (fst k) \<and> node_known s (snd k)" "\<lambda>r. r \<noteq> kMtpnddOpCacheWriteLock" for s
proof
  fix c :: "mtpndd_op_cache option" and k :: "ptr \<times> ptr" and r
  assume "opt_cache_ok 2 c" "node_known s (fst k) \<and> node_known s (snd k)" "r \<noteq> kMtpnddOpCacheWriteLock"
  then show "\<exists>c'. mtpndd_op_cache_store_binary s c (fst k) (snd k) r = Some c' \<and> opt_cache_ok 2 c'
      \<and> (\<forall>k' r'. cached c' (fst k') (snd k') r' \<longrightarrow>
           cached c (fst k') (snd k') r' \<or> (k' = k \<and> r' = r))"
    using store_binary_spec[of c s "fst k" "snd k" r] by (metis prod.collapse)
qed (use lookup_binary_spec clear_spec in metis)+

interpretation una: memo_table "opt_cache_ok 1" "\<lambda>c a r. \<exists>b. cached c a b r"
  "mtpndd_op_cache_lookup_unary s" "mtpndd_op_cache_store_unary s" mtpndd_op_cache_clear
  "node_known s" "\<lambda>r. r \<noteq> kMtpnddOpCacheWriteLock" for s
proof
  fix c :: "mtpndd_op_cache option" and a r
  assume "opt_cache_ok 1 c" "node_known s a" "r \<noteq> kMtpnddOpCacheWriteLock"
  then show "\<exists>c'. mtpndd_op_cache_store_unary s c a r = Some c' \<and> opt_cache_ok 1 c'
      \<and> (\<forall>k r'. (\<exists>b. cached c' k b r') \<longrightarrow> (\<exists>b. cached c k b r') \<or> (k = a \<and> r' = r))"
    using store_unary_spec[of c s a r] by metis
qed (use lookup_unary_spec clear_spec in metis)+

end
