(* ===== verification/Leaf_Table.thy ===== *)
theory Leaf_Table
  imports Leaf_Value Op_Cache
begin

text \<open>
  \<open>mtpndd_leaf_table.c\<close> and the leaf constructors of \<open>mtpndd_leaf.c\<close>: one canonical node per
  packed value, and the mark-and-sweep collection of leaves that no internal node uses.  The
  spin locks of the table are not modelled; the re-check after the allocation, which another
  thread's insertion may make succeed, is kept.
\<close>

section \<open>The table\<close>

definition MTPNDD_LEAF_TABLE_DEFAULT_BUCKETS :: nat where
  "MTPNDD_LEAF_TABLE_DEFAULT_BUCKETS = 1024"

definition MTPNDD_LEAF_TABLE_LOCK_CAP :: nat where
  "MTPNDD_LEAF_TABLE_LOCK_CAP = 64"

definition leaf_bucket_index :: "mtpndd_leaf_table \<Rightarrow> 64 word \<Rightarrow> nat" where
  "leaf_bucket_index t v = mask_index (mtpndd_hash_u64 v) (lt_bucket_count t)"

definition mtpndd_leaf_table_create :: "nat \<Rightarrow> mstate \<Rightarrow> mtpndd_leaf_table option \<times> mstate" where
  "mtpndd_leaf_table_create bucket_cnt s =
     (let n = (if bucket_cnt = 0 then MTPNDD_LEAF_TABLE_DEFAULT_BUCKETS else bucket_cnt);
          n = round_up_pow2_nat n;
          n = (if n < 16 then 16 else n);
          (p, s) = malloc 40 s
      in if p = NULL then (None, s)
         else let (q, s) = malloc (n * 8) s
              in if q = NULL then (None, s)
                 else let locks = (if MTPNDD_LEAF_TABLE_LOCK_CAP < n then MTPNDD_LEAF_TABLE_LOCK_CAP else n);
                          locks = (if locks < 4 then 4 else locks);
                          locks = round_up_pow2_nat locks;
                          (r, s) = malloc (locks * 4) s
                      in if r = NULL then (None, s)
                         else (Some \<lparr>lt_bucket_count = n, lt_buckets = replicate n [],
                                     lt_entry_count = 0, lt_bucket_lock_count = locks\<rparr>, s))"

definition leaf_bucket :: "mtpndd_leaf_table \<Rightarrow> nat \<Rightarrow> leaf_bucket_entry list option" where
  "leaf_bucket t i = (if i < length (lt_buckets t) then Some (lt_buckets t ! i) else None)"

definition leaf_link :: "mtpndd_leaf_table \<Rightarrow> nat \<Rightarrow> leaf_bucket_entry \<Rightarrow> mtpndd_leaf_table" where
  "leaf_link t i e =
     t\<lparr>lt_buckets := (lt_buckets t)[i := e # lt_buckets t ! i], lt_entry_count := lt_entry_count t + 1\<rparr>"

definition mtpndd_leaf_table_insert_sentinel ::
  "mtpndd_leaf_table option \<Rightarrow> 64 word \<Rightarrow> ptr \<Rightarrow> mstate
   \<Rightarrow> (mtpndd_error \<times> mtpndd_leaf_table option \<times> mstate) option" where
  "mtpndd_leaf_table_insert_sentinel tab v node s =
     (case tab of
        None \<Rightarrow> Some (MTPNDD_ERROR_NULL_POINTER, tab, s)
      | Some t \<Rightarrow>
          if node = NULL then Some (MTPNDD_ERROR_NULL_POINTER, tab, s)
          else let (p, s) = malloc 32 s
               in if p = NULL then Some (MTPNDD_ERROR_OUT_OF_MEMORY, tab, s)
                  else do {
                    _ \<leftarrow> leaf_bucket t (leaf_bucket_index t v);
                    Some (MTPNDD_SUCCESS,
                          Some (leaf_link t (leaf_bucket_index t v)
                                  \<lparr>le_value = v, le_node = node, le_marked = False\<rparr>), s)
                  })"

text \<open>
  The table of leaf field \<open>lf\<close>; \<open>lookup_or_insert\<close> works on the table in place.
\<close>

definition leaf_table_of :: "nat \<Rightarrow> mstate \<Rightarrow> mtpndd_leaf_table option" where
  "leaf_table_of lf s =
     (if lf = MTPNDD_FRACTION_LEAF_FIELD_ID then leaf_table s else double_leaf_table s)"

definition set_leaf_table :: "nat \<Rightarrow> mtpndd_leaf_table \<Rightarrow> mstate \<Rightarrow> mstate" where
  "set_leaf_table lf t s =
     (if lf = MTPNDD_FRACTION_LEAF_FIELD_ID then s\<lparr>leaf_table := Some t\<rparr>
      else s\<lparr>double_leaf_table := Some t\<rparr>)"

definition leaf_scan :: "mtpndd_leaf_table \<Rightarrow> 64 word \<Rightarrow> leaf_bucket_entry option option" where
  "leaf_scan t v = do {
     b \<leftarrow> leaf_bucket t (leaf_bucket_index t v);
     Some (find (\<lambda>e. le_value e = v) b)
   }"

definition mtpndd_leaf_table_lookup_or_insert :: "nat \<Rightarrow> 64 word \<Rightarrow> mstate \<Rightarrow> (ptr \<times> mstate) option" where
  "mtpndd_leaf_table_lookup_or_insert lf v s =
     (case leaf_table_of lf s of
        None \<Rightarrow> Some (NULL, mtpndd_set_error MTPNDD_ERROR_NULL_POINTER
                              ''mtpndd_leaf_table_lookup_or_insert'' 114 s)
      | Some t \<Rightarrow> do {
          found \<leftarrow> leaf_scan t v;
          case found of
            Some e \<Rightarrow> Some (le_node e, s)
          | None \<Rightarrow>
              let (node, s) = mtpndd_memory_acquire_node s
              in if node = NULL
                 then Some (NULL, mtpndd_set_error MTPNDD_ERROR_OUT_OF_MEMORY
                                    ''mtpndd_leaf_table_lookup_or_insert'' 134 s)
                 else let s = s\<lparr>nodes := (nodes s)(node \<mapsto>
                                \<lparr>ref_count = - 1, field_id = lf, body = NLeaf v\<rparr>)\<rparr>;
                          (p, s) = malloc 32 s
                      in if p = NULL
                         then Some (NULL, mtpndd_set_error MTPNDD_ERROR_OUT_OF_MEMORY
                                            ''mtpndd_leaf_table_lookup_or_insert'' 145
                                            (mtpndd_memory_release_node node s))
                         else do {
                           again \<leftarrow> leaf_scan t v;
                           case again of
                             Some e \<Rightarrow> Some (le_node e, mtpndd_memory_release_node node s)
                           | None \<Rightarrow>
                               Some (node, set_leaf_table lf
                                       (leaf_link t (leaf_bucket_index t v)
                                          \<lparr>le_value = v, le_node = node, le_marked = False\<rparr>) s)
                         }
        })"

definition mtpndd_leaf_table_size :: "mtpndd_leaf_table option \<Rightarrow> nat" where
  "mtpndd_leaf_table_size tab = (case tab of None \<Rightarrow> 0 | Some t \<Rightarrow> lt_entry_count t)"

definition release_leaf :: "leaf_bucket_entry \<Rightarrow> mstate \<Rightarrow> mstate" where
  "release_leaf e s =
     (if le_node e \<noteq> MTPNDD_TRUE \<and> le_node e \<noteq> MTPNDD_FALSE
      then mtpndd_memory_release_node (le_node e) s else s)"

definition mtpndd_leaf_table_free :: "mtpndd_leaf_table option \<Rightarrow> mstate \<Rightarrow> mstate" where
  "mtpndd_leaf_table_free tab s =
     (case tab of None \<Rightarrow> s | Some t \<Rightarrow> fold release_leaf (concat (lt_buckets t)) s)"

section \<open>Leaf constructors and accessors\<close>

definition mtpndd_make_fraction :: "int \<Rightarrow> int \<Rightarrow> mstate \<Rightarrow> (ptr \<times> mstate) option" where
  "mtpndd_make_fraction numer denom s =
     (case normalize_fraction numer denom of
        None \<Rightarrow> None
      | Some None \<Rightarrow> Some (NULL, mtpndd_set_error MTPNDD_ERROR_INVALID_PARAM ''mtpndd_make_fraction'' 85 s)
      | Some (Some (n, d)) \<Rightarrow>
          if leaf_table s = None
          then Some (NULL, mtpndd_set_error MTPNDD_ERROR_NOT_INITIALIZED ''mtpndd_make_fraction'' 91 s)
          else mtpndd_leaf_table_lookup_or_insert MTPNDD_FRACTION_LEAF_FIELD_ID
                 (mtpndd_pack_fraction n d) s)"

text \<open>A double is its bit pattern.\<close>

definition mtpndd_make_double :: "64 word \<Rightarrow> mstate \<Rightarrow> (ptr \<times> mstate) option" where
  "mtpndd_make_double bits s =
     (if double_leaf_table s = None
      then Some (NULL, mtpndd_set_error MTPNDD_ERROR_NOT_INITIALIZED ''mtpndd_make_double'' 101 s)
      else mtpndd_leaf_table_lookup_or_insert MTPNDD_DOUBLE_LEAF_FIELD_ID bits s)"

definition mtpndd_is_leaf :: "mstate \<Rightarrow> ptr \<Rightarrow> bool option" where
  "mtpndd_is_leaf s p =
     (if p = NULL then Some False
      else map_option (\<lambda>nd. MTPNDD_LEAF_FIELD_ID_MIN \<le> field_id nd) (nodes s p))"

definition mtpndd_is_fraction_leaf :: "mstate \<Rightarrow> ptr \<Rightarrow> bool option" where
  "mtpndd_is_fraction_leaf s p =
     (if p = NULL then Some False
      else map_option (\<lambda>nd. field_id nd = MTPNDD_FRACTION_LEAF_FIELD_ID) (nodes s p))"

definition mtpndd_is_double_leaf :: "mstate \<Rightarrow> ptr \<Rightarrow> bool option" where
  "mtpndd_is_double_leaf s p =
     (if p = NULL then Some False
      else map_option (\<lambda>nd. field_id nd = MTPNDD_DOUBLE_LEAF_FIELD_ID) (nodes s p))"

definition leaf_word :: "mstate \<Rightarrow> ptr \<Rightarrow> 64 word option" where
  "leaf_word s p = map_option (\<lambda>nd. body_word (body nd)) (nodes s p)"

definition mtpndd_get_numer :: "mstate \<Rightarrow> ptr \<Rightarrow> int option" where
  "mtpndd_get_numer s p = do {
     f \<leftarrow> mtpndd_is_fraction_leaf s p;
     if \<not> f then Some 0 else map_option mtpndd_unpack_numer (leaf_word s p)
   }"

definition mtpndd_get_denom :: "mstate \<Rightarrow> ptr \<Rightarrow> int option" where
  "mtpndd_get_denom s p = do {
     f \<leftarrow> mtpndd_is_fraction_leaf s p;
     if \<not> f then Some 0 else map_option (\<lambda>v. to_i32 (mtpndd_unpack_denom v)) (leaf_word s p)
   }"

definition mtpndd_get_double :: "mstate \<Rightarrow> ptr \<Rightarrow> 64 word option" where
  "mtpndd_get_double s p = do {
     f \<leftarrow> mtpndd_is_double_leaf s p;
     if \<not> f then Some 0 else leaf_word s p
   }"

definition mtpndd_get_leaf_value :: "mstate \<Rightarrow> ptr \<Rightarrow> 64 word option" where
  "mtpndd_get_leaf_value s p = do {
     f \<leftarrow> mtpndd_is_leaf s p;
     if \<not> f then Some 0 else leaf_word s p
   }"

section \<open>Mark and sweep\<close>

definition mtpndd_leaf_table_clear_marks :: "mtpndd_leaf_table \<Rightarrow> mtpndd_leaf_table" where
  "mtpndd_leaf_table_clear_marks t =
     t\<lparr>lt_buckets := map (map (\<lambda>e. e\<lparr>le_marked := False\<rparr>)) (lt_buckets t)\<rparr>"

fun mark_first :: "ptr \<Rightarrow> leaf_bucket_entry list \<Rightarrow> leaf_bucket_entry list" where
  "mark_first leaf [] = []"
| "mark_first leaf (e # es) =
     (if le_node e = leaf then e\<lparr>le_marked := True\<rparr> # es else e # mark_first leaf es)"

definition mtpndd_leaf_table_mark ::
  "mstate \<Rightarrow> ptr \<Rightarrow> mtpndd_leaf_table \<Rightarrow> mtpndd_leaf_table option" where
  "mtpndd_leaf_table_mark s leaf t =
     (if leaf = NULL then Some t
      else do {
        v \<leftarrow> leaf_word s leaf;
        b \<leftarrow> leaf_bucket t (leaf_bucket_index t v);
        Some (t\<lparr>lt_buckets := (lt_buckets t)[leaf_bucket_index t v := mark_first leaf b]\<rparr>)
      })"

definition is_sentinel :: "leaf_bucket_entry \<Rightarrow> bool" where
  "is_sentinel e \<longleftrightarrow> le_node e = MTPNDD_TRUE \<or> le_node e = MTPNDD_FALSE"

definition leaf_dead :: "leaf_bucket_entry \<Rightarrow> bool" where
  "leaf_dead e \<longleftrightarrow> \<not> le_marked e \<and> \<not> is_sentinel e"

definition mtpndd_leaf_table_sweep_unmarked ::
  "mtpndd_leaf_table \<Rightarrow> mstate \<Rightarrow> nat \<times> mtpndd_leaf_table \<times> mstate" where
  "mtpndd_leaf_table_sweep_unmarked t s =
     (let dead = filter leaf_dead (concat (lt_buckets t))
      in (length dead,
          t\<lparr>lt_buckets := map (filter (\<lambda>e. \<not> leaf_dead e)) (lt_buckets t),
            lt_entry_count := lt_entry_count t - length dead\<rparr>,
          fold (\<lambda>e. mtpndd_memory_release_node (le_node e)) dead s))"

text \<open>Mark one child in the table of its type.\<close>

definition mark_child ::
  "mstate \<Rightarrow> ptr \<Rightarrow> mtpndd_leaf_table option \<times> mtpndd_leaf_table option
   \<Rightarrow> (mtpndd_leaf_table option \<times> mtpndd_leaf_table option) option" where
  "mark_child s child tabs =
     (if child = NULL then Some tabs
      else do {
        nd \<leftarrow> nodes s child;
        case tabs of (fr, dbl) \<Rightarrow>
          if field_id nd = MTPNDD_FRACTION_LEAF_FIELD_ID \<and> fr \<noteq> None
          then do { t \<leftarrow> fr; t \<leftarrow> mtpndd_leaf_table_mark s child t; Some (Some t, dbl) }
          else if field_id nd = MTPNDD_DOUBLE_LEAF_FIELD_ID \<and> dbl \<noteq> None
          then do { t \<leftarrow> dbl; t \<leftarrow> mtpndd_leaf_table_mark s child t; Some (fr, Some t) }
          else Some tabs
      })"

fun mark_children ::
  "mstate \<Rightarrow> ptr list \<Rightarrow> mtpndd_leaf_table option \<times> mtpndd_leaf_table option
   \<Rightarrow> (mtpndd_leaf_table option \<times> mtpndd_leaf_table option) option" where
  "mark_children s [] tabs = Some tabs"
| "mark_children s (c # cs) tabs = do { tabs \<leftarrow> mark_child s c tabs; mark_children s cs tabs }"

text \<open>The children of every node in every field's table, in the order of the three loops.\<close>

definition entry_children :: "mstate \<Rightarrow> nodetable_bucket_entry \<Rightarrow> ptr list option" where
  "entry_children s ne =
     (if nte_node ne = NULL then Some []
      else do {
        m \<leftarrow> node_edges s (nte_node ne);
        if buckets m = [] then Some []
        else do { es \<leftarrow> for_each_entry s m; Some (map ee_child es) }
      })"

fun concat_opt :: "('a \<Rightarrow> 'b list option) \<Rightarrow> 'a list \<Rightarrow> 'b list option" where
  "concat_opt f [] = Some []"
| "concat_opt f (x # xs) = do { ys \<leftarrow> f x; zs \<leftarrow> concat_opt f xs; Some (ys @ zs) }"

definition table_children :: "mstate \<Rightarrow> nat \<Rightarrow> ptr list option" where
  "table_children s field =
     (case node_tables_by_field s field of
        None \<Rightarrow> Some []
      | Some nt \<Rightarrow>
          if nodetable_bucket_count nt \<le> length (nt_buckets nt)
          then concat_opt (entry_children s) (concat (take (nodetable_bucket_count nt) (nt_buckets nt)))
          else None)"

definition mtpndd_leaf_gc_mark_from_roots ::
  "mstate \<Rightarrow> mtpndd_leaf_table option \<times> mtpndd_leaf_table option
   \<Rightarrow> (mtpndd_leaf_table option \<times> mtpndd_leaf_table option) option" where
  "mtpndd_leaf_gc_mark_from_roots s tabs = do {
     tabs \<leftarrow> (case tabs of
                (Some fr, dbl) \<Rightarrow> do {
                  fr \<leftarrow> mtpndd_leaf_table_mark s MTPNDD_TRUE fr;
                  fr \<leftarrow> mtpndd_leaf_table_mark s MTPNDD_FALSE fr;
                  Some (Some fr, dbl)
                }
              | (None, dbl) \<Rightarrow> Some (None, dbl));
     cs \<leftarrow> concat_opt (table_children s) [1..<Suc (field_count s)];
     mark_children s cs tabs
   }"

definition sweep_opt ::
  "mtpndd_leaf_table option \<Rightarrow> mstate \<Rightarrow> nat \<times> mtpndd_leaf_table option \<times> mstate" where
  "sweep_opt tab s =
     (case tab of
        None \<Rightarrow> (0, None, s)
      | Some t \<Rightarrow> let (n, t, s) = mtpndd_leaf_table_sweep_unmarked t s in (n, Some t, s))"

definition mtpndd_leaf_gc :: "mstate \<Rightarrow> (nat \<times> mstate) option" where
  "mtpndd_leaf_gc s =
     (if leaf_table s = None \<and> double_leaf_table s = None then Some (0, s)
      else do {
        let fr = map_option mtpndd_leaf_table_clear_marks (leaf_table s);
        let dbl = map_option mtpndd_leaf_table_clear_marks (double_leaf_table s);
        (fr, dbl) \<leftarrow> mtpndd_leaf_gc_mark_from_roots s (fr, dbl);
        let (n1, fr, s) = sweep_opt fr s;
        let (n2, dbl, s) = sweep_opt dbl s;
        Some (n1 + n2, s\<lparr>leaf_table := fr, double_leaf_table := dbl\<rparr>)
      })"

end
