(* ===== verification/Node_Table.thy ===== *)
theory Node_Table
  imports Leaf_Table
begin

text \<open>
  \<open>mtpndd_nodetable.c\<close>: one unique table per field, from edge maps to nodes, the constructor
  \<open>mtpndd_mk\<close>, and garbage collection.  Locks and the debug statistics are left out.  In the
  model Sylvan collects where the library asks it to (\<open>sylvan_gc\<close> in \<open>gcOrGrow\<close>); its hook
  \<open>mtpndd_gc_before_sylvan\<close>, which Sylvan also calls in the collections it starts itself, is an
  operation of its own.
\<close>

section \<open>Tables\<close>

definition mtpndd_nodetable_lock_index :: "mtpndd_nodetable \<Rightarrow> 64 word \<Rightarrow> nat" where
  "mtpndd_nodetable_lock_index t h =
     (if nt_bucket_lock_count t = 0 then 0 else mask_index h (nt_bucket_lock_count t))"

definition mtpndd_nodetable_declare_field :: "mstate \<Rightarrow> mtpndd_nodetable option \<times> mstate" where
  "mtpndd_nodetable_declare_field s =
     (let (p, s) = malloc 72 s
      in if p = NULL then (None, s)
         else let n = nodetable_bucket_count_cfg (g_pal_config s);
                  n = (if n = 0 then MTPNDD_DEFAULT_NODETABLE_BUCKET_COUNT else n);
                  n = (if 2 ^ 23 < n then 2 ^ 23 else n);
                  n = (if n < 16 then 16 else n);
                  n = round_up_pow2_nat n;
                  locks = (if 2 ^ 12 < n then 2 ^ 12 else n);
                  locks = (if locks < 16 then 16 else locks);
                  locks = round_up_pow2_nat locks;
                  (q, s) = malloc (locks * 4) s
              in if q = NULL then (None, s)
                 else let (r, s) = malloc (n * 8) s
                      in if r = NULL then (None, s)
                         else (Some \<lparr>nodetable_bucket_count = n, nt_buckets = replicate n [],
                                     nt_entry_count = 0, nt_load_threshold = n - n div 4,
                                     nt_bucket_lock_count = locks\<rparr>, s))"

text \<open>
  The bucket array, the locks and the table itself are freed and the caller clears the pointer to it:
  the field has no table any more.  The entries and the nodes belong to the pools.
\<close>

definition mtpndd_nodetable_free :: "nat \<Rightarrow> mstate \<Rightarrow> mstate" where
  "mtpndd_nodetable_free field s = s\<lparr>node_tables_by_field := (node_tables_by_field s)(field := None)\<rparr>"

definition nodetable_hash_val :: "mtpndd_edge \<Rightarrow> mtpndd_nodetable \<Rightarrow> nat" where
  "nodetable_hash_val m t =
     (if nodetable_bucket_count t \<noteq> 0 then mask_index (cached_hash m) (nodetable_bucket_count t) else 0)"

definition nt_bucket :: "mtpndd_nodetable \<Rightarrow> nat \<Rightarrow> nodetable_bucket_entry list option" where
  "nt_bucket t i = (if i < length (nt_buckets t) then Some (nt_buckets t ! i) else None)"

fun find_in_chain ::
  "mstate \<Rightarrow> mtpndd_edge \<Rightarrow> nodetable_bucket_entry list \<Rightarrow> nodetable_bucket_entry option option" where
  "find_in_chain s m [] = Some None"
| "find_in_chain s m (e # es) =
     (if nte_hash e \<noteq> cached_hash m then find_in_chain s m es
      else do {
        eq \<leftarrow> nodetable_edges_equal s (nte_edges e) m;
        if eq then Some (Some e) else find_in_chain s m es
      })"

definition find_node_in_nodetable :: "mstate \<Rightarrow> mtpndd_nodetable \<Rightarrow> mtpndd_edge \<Rightarrow> ptr option" where
  "find_node_in_nodetable s t m = do {
     b \<leftarrow> nt_bucket t (nodetable_hash_val m t);
     r \<leftarrow> find_in_chain s m b;
     Some (case r of None \<Rightarrow> NULL | Some e \<Rightarrow> nte_node e)
   }"

fun nt_rehash_entries ::
  "nat \<Rightarrow> nodetable_bucket_entry list \<Rightarrow> nodetable_bucket_entry list list
   \<Rightarrow> nodetable_bucket_entry list list" where
  "nt_rehash_entries n [] bs = bs"
| "nt_rehash_entries n (e # es) bs =
     (let i = mask_index (nte_hash e) n in nt_rehash_entries n es (bs[i := e # bs ! i]))"

definition mtpndd_nodetable_rehash ::
  "mtpndd_nodetable \<Rightarrow> nat \<Rightarrow> mstate \<Rightarrow> (bool \<times> mtpndd_nodetable \<times> mstate) option" where
  "mtpndd_nodetable_rehash t new_bucket_count s =
     (if new_bucket_count = 0 then Some (False, t, s)
      else let n = round_up_pow2_nat (if new_bucket_count < 16 then 16 else new_bucket_count);
               (p, s) = malloc (n * 8) s
           in if p = NULL then Some (False, t, s)
              else if nodetable_bucket_count t \<le> length (nt_buckets t)
              then Some (True,
                     t\<lparr>nt_buckets := nt_rehash_entries n
                         (concat (take (nodetable_bucket_count t) (nt_buckets t))) (replicate n []),
                       nodetable_bucket_count := n, nt_load_threshold := n - n div 4\<rparr>, s)
              else None)"

definition set_table :: "nat \<Rightarrow> mtpndd_nodetable \<Rightarrow> mstate \<Rightarrow> mstate" where
  "set_table field t s = s\<lparr>node_tables_by_field := (node_tables_by_field s)(field \<mapsto> t)\<rparr>"

definition mtpndd_nodetable_maybe_rehash :: "nat \<Rightarrow> mstate \<Rightarrow> mstate option" where
  "mtpndd_nodetable_maybe_rehash field s = do {
     t \<leftarrow> node_tables_by_field s field;
     if nt_load_threshold t \<le> nt_entry_count t
     then do {
       let target = (if nodetable_bucket_count t \<noteq> 0 then nodetable_bucket_count t * 2 else 16);
       (ok, t, s) \<leftarrow> mtpndd_nodetable_rehash t target s;
       let s = set_table field t s;
       Some (if ok \<and> nodetable_bucket_count_cfg (g_pal_config s) < target
             then s\<lparr>g_pal_config := (g_pal_config s)\<lparr>nodetable_bucket_count_cfg := target\<rparr>\<rparr> else s)
     }
     else Some s
   }"

section \<open>Garbage collection\<close>

definition MTPNDD_GC_HOOK_CAPACITY :: nat where
  "MTPNDD_GC_HOOK_CAPACITY = 16"

text \<open>A hook is a number, 0 the null pointer; running a hook is recorded in the log.\<close>

definition mtpndd_gc_hook_pregc :: "nat \<Rightarrow> mstate \<Rightarrow> mstate" where
  "mtpndd_gc_hook_pregc hook s =
     (if hook = 0 \<or> MTPNDD_GC_HOOK_CAPACITY \<le> length (gc_prehooks s) then s
      else s\<lparr>gc_prehooks := gc_prehooks s @ [hook]\<rparr>)"

definition mtpndd_gc_hook_postgc :: "nat \<Rightarrow> mstate \<Rightarrow> mstate" where
  "mtpndd_gc_hook_postgc hook s =
     (if hook = 0 \<or> MTPNDD_GC_HOOK_CAPACITY \<le> length (gc_posthooks s) then s
      else s\<lparr>gc_posthooks := gc_posthooks s @ [hook]\<rparr>)"

definition mtpndd_gc_run_prehooks :: "mstate \<Rightarrow> mstate" where
  "mtpndd_gc_run_prehooks s = s\<lparr>hook_log := rev (gc_prehooks s) @ hook_log s\<rparr>"

definition mtpndd_gc_run_posthooks :: "mstate \<Rightarrow> mstate" where
  "mtpndd_gc_run_posthooks s = s\<lparr>hook_log := rev (gc_posthooks s) @ hook_log s\<rparr>"

text \<open>Unlink the entry of a dead node, drop its children, free its map, the node and the entry.\<close>

definition mtpndd_release_node ::
  "nat \<Rightarrow> nat \<Rightarrow> nodetable_bucket_entry \<Rightarrow> ptr \<Rightarrow> mstate \<Rightarrow> mstate option" where
  "mtpndd_release_node field i entry node s = do {
     t \<leftarrow> node_tables_by_field s field;
     b \<leftarrow> nt_bucket t i;
     let s = set_table field (t\<lparr>nt_buckets := (nt_buckets t)[i := remove1 entry b]\<rparr>) s;
     m \<leftarrow> node_edges s node;
     es \<leftarrow> (if buckets m = [] then Some [] else for_each_entry s m);
     s \<leftarrow> iter_state deref_child (map ee_child es) s;
     s \<leftarrow> mtpndd_edge_map_free m s;
     let s = mtpndd_memory_release_node node s;
     let s = mtpndd_memory_release_nodetable_entry (nte_addr entry) s;
     t \<leftarrow> node_tables_by_field s field;
     Some (if 0 < nt_entry_count t then set_table field (t\<lparr>nt_entry_count := nt_entry_count t - 1\<rparr>) s
           else s)
   }"

fun sweep_chain ::
  "nat \<Rightarrow> nat \<Rightarrow> nodetable_bucket_entry list \<Rightarrow> nat \<times> mstate \<Rightarrow> (nat \<times> mstate) option" where
  "sweep_chain field i [] (n, s) = Some (n, s)"
| "sweep_chain field i (e # es) (n, s) = do {
     nd \<leftarrow> nodes s (nte_node e);
     if ref_count nd = 0
     then do {
       s \<leftarrow> mtpndd_release_node field i e (nte_node e) s;
       sweep_chain field i es (n + 1, s)
     }
     else sweep_chain field i es (n, s)
   }"

fun sweep_buckets :: "nat \<Rightarrow> nat list \<Rightarrow> nat \<times> mstate \<Rightarrow> (nat \<times> mstate) option" where
  "sweep_buckets field [] (n, s) = Some (n, s)"
| "sweep_buckets field (i # is) (n, s) = do {
     t \<leftarrow> node_tables_by_field s field;
     b \<leftarrow> nt_bucket t i;
     r \<leftarrow> sweep_chain field i b (n, s);
     sweep_buckets field is r
   }"

fun sweep_fields :: "nat list \<Rightarrow> nat \<times> mstate \<Rightarrow> (nat \<times> mstate) option" where
  "sweep_fields [] (n, s) = Some (n, s)"
| "sweep_fields (f # fs) (n, s) =
     (case node_tables_by_field s f of
        None \<Rightarrow> sweep_fields fs (n, s)
      | Some t \<Rightarrow> do {
          r \<leftarrow> sweep_buckets f [0..<nodetable_bucket_count t] (n, s);
          sweep_fields fs r
        })"

definition mtpndd_gc_sweep :: "mstate \<Rightarrow> (nat \<times> mstate) option" where
  "mtpndd_gc_sweep s = sweep_fields [1..<Suc (field_count s)] (0, s)"

definition gc_internal :: "mstate \<Rightarrow> mstate option" where
  "gc_internal s = do {
     let s = mtpndd_gc_run_prehooks s;
     (reclaimed, s) \<leftarrow> mtpndd_gc_sweep s;
     (_, s) \<leftarrow> mtpndd_leaf_gc s;
     let s = (if 0 < reclaimed
              then s\<lparr>g_node_count := (g_node_count s + 2 ^ 64 - reclaimed) mod 2 ^ 64\<rparr> else s);
     Some (mtpndd_gc_run_posthooks s)
   }"

definition clear_caches :: "mstate \<Rightarrow> mstate option" where
  "clear_caches s = do {
     a \<leftarrow> mtpndd_op_cache_clear (and_cache s);
     o' \<leftarrow> mtpndd_op_cache_clear (or_cache s);
     n \<leftarrow> mtpndd_op_cache_clear (not_cache s);
     Some (s\<lparr>and_cache := a, or_cache := o', not_cache := n\<rparr>)
   }"

definition mtpndd_gc_before_sylvan :: "mstate \<Rightarrow> mstate option" where
  "mtpndd_gc_before_sylvan s =
     (if gc_running s then Some s
      else do {
        s \<leftarrow> gc_internal (s\<lparr>gc_running := True\<rparr>);
        s \<leftarrow> clear_caches s;
        Some (s\<lparr>gc_running := False\<rparr>)
      })"

text \<open>\<open>sylvan_gc\<close> runs the hook \<open>mtpndd_gc_hook_sylvan_pre\<close> before it collects.\<close>

definition sylvan_gc_with_hook :: "mstate \<Rightarrow> mstate option" where
  "sylvan_gc_with_hook s = do { s \<leftarrow> mtpndd_gc_before_sylvan s; Some (sylvan_gc s) }"

fun grow_fields :: "nat list \<Rightarrow> mstate \<Rightarrow> (bool \<times> mstate) option" where
  "grow_fields [] s = Some (True, s)"
| "grow_fields (f # fs) s =
     (case node_tables_by_field s f of
        None \<Rightarrow> grow_fields fs s
      | Some t \<Rightarrow> do {
          let n = (if nodetable_bucket_count t \<noteq> 0 then nodetable_bucket_count t * 2
                   else MTPNDD_DEFAULT_NODETABLE_BUCKET_COUNT);
          (ok, t, s) \<leftarrow> mtpndd_nodetable_rehash t n s;
          let s = set_table f t s;
          if ok then grow_fields fs s else Some (False, s)
        })"

definition grow_internal :: "mstate \<Rightarrow> mstate option" where
  "grow_internal s = do {
     let new_capacity = mtpndd_nodetable_size (g_pal_config s) * 2;
     (ok, s) \<leftarrow> grow_fields [1..<Suc (field_count s)] s;
     if \<not> ok then Some s
     else do {
       let config_bucket = nodetable_bucket_count_cfg (g_pal_config s);
       let config_bucket = (if config_bucket = 0 then MTPNDD_DEFAULT_NODETABLE_BUCKET_COUNT
                            else config_bucket);
       Some (s\<lparr>g_pal_config := (g_pal_config s)\<lparr>mtpndd_nodetable_size := new_capacity,
                                nodetable_bucket_count_cfg := config_bucket * 2\<rparr>\<rparr>)
     }
   }"

text \<open>
  The test \<open>size - count < threshold * size\<close>: the difference is unsigned 64-bit; both sides are then
  computed in \<open>double\<close>.  The threshold is the value of a finite \<open>double\<close>, so the conversions of the two
  integers and the product round to 53 significant bits, to nearest and ties to even.
\<close>

fun bit_count :: "nat \<Rightarrow> nat" where
  "bit_count n = (if n = 0 then 0 else Suc (bit_count (n div 2)))"

definition pow2 :: "int \<Rightarrow> rat" where
  "pow2 k = (if 0 \<le> k then 2 ^ nat k else 1 / 2 ^ nat (- k))"

text \<open>The \<open>k\<close> with \<open>2 ^ k \<le> x < 2 ^ (k + 1)\<close>, for a positive \<open>x\<close>.\<close>

definition binary_exponent :: "rat \<Rightarrow> int" where
  "binary_exponent x =
     (let (n, d) = quotient_of x;
          k = int (bit_count (nat n)) - int (bit_count (nat d))
      in if pow2 k \<le> x then k else k - 1)"

definition round_half_even :: "rat \<Rightarrow> int" where
  "round_half_even x =
     (let f = \<lfloor>x\<rfloor>; r = x - of_int f
      in if r < 1 / 2 \<or> r = 1 / 2 \<and> even f then f else f + 1)"

definition to_double :: "rat \<Rightarrow> rat" where
  "to_double x =
     (if x \<le> 0 then 0
      else let u = pow2 (binary_exponent x - 52) in of_int (round_half_even (x / u)) * u)"

definition grow_needed :: "mstate \<Rightarrow> bool" where
  "grow_needed s \<longleftrightarrow>
     (let sz = mtpndd_nodetable_size (g_pal_config s)
      in to_double (of_nat ((sz + 2 ^ 64 - g_node_count s) mod 2 ^ 64))
         < to_double (quick_growth_threshold (g_pal_config s) * to_double (of_nat sz)))"

declare bit_count.simps [simp del]

text \<open>An integer below \<open>2 ^ 53\<close> is a \<open>double\<close>: no rounding takes place.\<close>

lemma bit_count_le: "n < 2 ^ k \<Longrightarrow> bit_count n \<le> k"
proof (induction k arbitrary: n)
  case (Suc k)
  then show ?case using bit_count.simps[of n] Suc.IH[of "n div 2"] by (cases "n = 0") auto
qed (simp add: bit_count.simps)

lemma to_double_exact:
  assumes "n < 2 ^ 53"
  shows "to_double (of_nat n) = of_nat n"
proof (cases "n = 0")
  case False
  have q: "quotient_of (of_nat n) = (int n, 1)"
    using quotient_of_int[of "int n"] by simp
  have one: "bit_count 1 = 1" by (simp add: bit_count.simps)
  have "binary_exponent (of_nat n) \<le> 52"
    using bit_count_le[OF assms] by (simp add: binary_exponent_def q one[unfolded One_nat_def] Let_def)
  then obtain j where j: "binary_exponent (of_nat n) - 52 = - int j" by (metis add.inverse_inverse diff_le_0_iff_le neg_0_le_iff_le nonneg_eq_int)
  have p: "pow2 (- int j) = 1 / 2 ^ j" by (cases "j = 0") (simp_all add: pow2_def)
  have e: "of_nat n / pow2 (- int j) = of_int (int n * 2 ^ j)" by (simp add: p)
  have r: "round_half_even (of_int k) = k" for k by (simp add: round_half_even_def)
  have "to_double (of_nat n) = of_int (int n * 2 ^ j) * pow2 (- int j)"
    using False unfolding to_double_def Let_def j e r by simp
  then show ?thesis by (simp add: p)
qed (simp add: to_double_def)

definition gcOrGrow :: "mstate \<Rightarrow> mstate option" where
  "gcOrGrow s =
     (if gc_running s then Some s
      else do {
        s \<leftarrow> gc_internal (s\<lparr>gc_running := True\<rparr>);
        s \<leftarrow> (if grow_needed s then grow_internal s else Some s);
        s \<leftarrow> clear_caches s;
        s \<leftarrow> sylvan_gc_with_hook s;
        Some (s\<lparr>gc_running := False\<rparr>)
      })"

section \<open>Labels marked for Sylvan\<close>

definition entry_labels :: "sylvan \<Rightarrow> mstate \<Rightarrow> nodetable_bucket_entry \<Rightarrow> bdd list option" where
  "entry_labels S s ne =
     (if nte_node ne = NULL then Some []
      else do {
        m \<leftarrow> node_edges s (nte_node ne);
        if buckets m = [] then Some []
        else do {
          es \<leftarrow> for_each_entry s m;
          Some (filter (\<lambda>l. l \<noteq> sylvan_false S \<and> l \<noteq> sylvan_true S) (map ee_label es))
        }
      })"

definition table_labels :: "sylvan \<Rightarrow> mstate \<Rightarrow> nat \<Rightarrow> bdd list option" where
  "table_labels S s field =
     (case node_tables_by_field s field of
        None \<Rightarrow> Some []
      | Some t \<Rightarrow>
          if nodetable_bucket_count t \<le> length (nt_buckets t)
          then concat_opt (entry_labels S s) (concat (take (nodetable_bucket_count t) (nt_buckets t)))
          else None)"

text \<open>The labels \<open>mtbdd_gc_mark_rec\<close> is called on, in order.\<close>

definition mtpndd_gc_mark_bdd_labels :: "sylvan \<Rightarrow> mstate \<Rightarrow> bdd list option" where
  "mtpndd_gc_mark_bdd_labels S s = concat_opt (table_labels S s) [1..<Suc (field_count s)]"

section \<open>Creating nodes\<close>

definition deref_labels :: "edge_bucket_entry list \<Rightarrow> mstate \<Rightarrow> mstate" where
  "deref_labels es s = fold (\<lambda>e. sylvan_deref (ee_label e)) es s"

definition deref_edge :: "edge_bucket_entry \<Rightarrow> mstate \<Rightarrow> mstate option" where
  "deref_edge e s = do { s \<leftarrow> deref_nonterminal (ee_child e) s; Some (sylvan_deref (ee_label e) s) }"

text \<open>The last part of \<open>mtpndd_mk\<close>: insert the new node, unless its map is in the table by now.\<close>

definition mk_link :: "nat \<Rightarrow> mtpndd_edge \<Rightarrow> ptr \<Rightarrow> ptr \<Rightarrow> mstate \<Rightarrow> (ptr \<times> mstate) option" where
  "mk_link field m node addr s = do {
     t \<leftarrow> node_tables_by_field s field;
     let i = nodetable_hash_val m t;
     b \<leftarrow> nt_bucket t i;
     existing \<leftarrow> find_in_chain s m b;
     case existing of
       Some e \<Rightarrow> do {
         let s = mtpndd_memory_release_node node (mtpndd_memory_release_nodetable_entry addr s);
         es \<leftarrow> for_each_entry s m;
         s \<leftarrow> iter_state deref_edge es s;
         Some (nte_node e, s)
       }
     | None \<Rightarrow> do {
         let e = \<lparr>nte_addr = addr, nte_edges = m, nte_node = node, nte_hash = cached_hash m\<rparr>;
         let s = set_table field (t\<lparr>nt_buckets := (nt_buckets t)[i := e # b],
                                    nt_entry_count := nt_entry_count t + 1\<rparr>) s;
         s \<leftarrow> mtpndd_nodetable_maybe_rehash field s;
         Some (node, s\<lparr>g_node_count := g_node_count s + 1\<rparr>)
       }
   }"

definition mk_new :: "nat \<Rightarrow> mtpndd_edge \<Rightarrow> mstate \<Rightarrow> (ptr \<times> mstate) option" where
  "mk_new field m s = do {
     es \<leftarrow> for_each_entry s m;
     s \<leftarrow> iter_state ref_nonterminal (map ee_child es) s;
     s \<leftarrow> (if mtpndd_nodetable_size (g_pal_config s) \<le> g_node_count s then gcOrGrow s else Some s);
     let (node, s) = mtpndd_memory_acquire_node s;
     if node = NULL
     then Some (NULL, mtpndd_set_error MTPNDD_ERROR_OUT_OF_MEMORY ''mtpndd_mk'' 429 s)
     else do {
       let s = s\<lparr>nodes := (nodes s)(node \<mapsto> \<lparr>ref_count = 0, field_id = field, body = NEdges m\<rparr>)\<rparr>;
       let (addr, s) = mtpndd_memory_acquire_nodetable_entry s;
       if addr = NULL
       then Some (NULL, mtpndd_set_error MTPNDD_ERROR_OUT_OF_MEMORY ''mtpndd_mk'' 445
                          (mtpndd_memory_release_node node s))
       else mk_link field m node addr s
     }
   }"

definition mtpndd_mk :: "sylvan \<Rightarrow> nat \<Rightarrow> mtpndd_edge \<Rightarrow> mstate \<Rightarrow> (ptr \<times> mstate) option" where
  "mtpndd_mk S field m s =
     (if edge_count m = 0 then Some (MTPNDD_FALSE, s)
      else do {
        es \<leftarrow> (if buckets m = [] then Some [] else for_each_entry s m);
        if edge_count m = 1 \<and> es \<noteq> [] \<and> ee_label (hd es) = sylvan_true S
        then Some (ee_child (hd es), s)
        else do {
          h \<leftarrow> mtpndd_edge_map_compute_hash s m;
          let m = m\<lparr>cached_hash := h\<rparr>;
          t \<leftarrow> node_tables_by_field s field;
          found \<leftarrow> find_node_in_nodetable s t m;
          if found \<noteq> NULL
          then do { es \<leftarrow> for_each_entry s m; Some (found, deref_labels es s) }
          else mk_new field m s
        }
      })"

end
