(* ===== verification/Bool_Ops.thy ===== *)
theory Bool_Ops
  imports Node_Table
begin

text \<open>
  The Boolean operations of \<open>mtpndd_node.c\<close>: AND, OR, NOT with their item, merge and drain
  functions, the two-phase AND, difference, quantification, the batch and reduce forms.

  Lace tasks: a spawned task is put on the list of pending tasks, newest first, and runs when
  it is synchronised, in the worker that spawned it; a dropped task does not run.  (Tasks that
  another worker steals are not modelled.)  The loops visit the entries of \<open>a->edges\<close> and
  \<open>b->edges\<close>; the test \<open>alive\<close> in front of every visit is that the operands still are the nodes
  whose entries the loop walks, so a run in which a collection freed an operand has no result.

  The recursion is bounded by fuel: \<open>None\<close> when it runs out.  Every call goes to a later field, so
  the fuel of the wrappers, two more than the number of fields, is enough.
\<close>

section \<open>Items\<close>

record op_item =
  it_status :: mtpndd_error
  it_emit :: bool
  it_child :: ptr
  it_label :: bdd

definition no_item :: "mtpndd_error \<Rightarrow> op_item" where
  "no_item st = \<lparr>it_status = st, it_emit = False, it_child = NULL, it_label = 0\<rparr>"

definition mtpndd_set_two_phase_threshold :: "int \<Rightarrow> mstate \<Rightarrow> mstate" where
  "mtpndd_set_two_phase_threshold v s = s\<lparr>two_phase_threshold := v\<rparr>"

definition mtpndd_get_two_phase_threshold :: "mstate \<Rightarrow> int" where
  "mtpndd_get_two_phase_threshold s = two_phase_threshold s"

definition mtpndd_should_spawn :: "mstate \<Rightarrow> ptr \<Rightarrow> ptr \<Rightarrow> bool option" where
  "mtpndd_should_spawn s a b =
     (if lace_workers s \<le> 1 then Some False
      else do {
        ta \<leftarrow> mtpndd_is_terminal s a;
        tb \<leftarrow> (if ta then Some True else mtpndd_is_terminal s b);
        if ta \<or> tb then Some False
        else do {
          edges_a \<leftarrow> node_edge_count s a;
          edges_b \<leftarrow> node_edge_count s b;
          fa \<leftarrow> node_field s a;
          fb \<leftarrow> node_field s b;
          let prod = edges_a * edges_b mod 2 ^ 64;
          if fa \<le> 2 \<and> fb \<le> 2 then Some True else Some (MTPNDD_SPAWN_THRESHOLD \<le> prod)
        }
      })"

definition mtpndd_should_spawn_unary :: "mstate \<Rightarrow> ptr \<Rightarrow> bool option" where
  "mtpndd_should_spawn_unary s a =
     (if lace_workers s \<le> 1 then Some False
      else do {
        ta \<leftarrow> mtpndd_is_terminal s a;
        if ta then Some False
        else do { edges_a \<leftarrow> node_edge_count s a; Some (MTPNDD_SPAWN_THRESHOLD \<le> edges_a) }
      })"

definition mtpndd_edge_label_load :: "sylvan \<Rightarrow> edge_bucket_entry option \<Rightarrow> bdd" where
  "mtpndd_edge_label_load S e = (case e of None \<Rightarrow> sylvan_false S | Some e \<Rightarrow> ee_label e)"

type_synonym rec2 = "ptr \<Rightarrow> ptr \<Rightarrow> mstate \<Rightarrow> (ptr \<times> mstate) option"
type_synonym rec1 = "ptr \<Rightarrow> mstate \<Rightarrow> (ptr \<times> mstate) option"

text \<open>The end of every item task: report a failed recursion, or take a reference to its result.\<close>

definition finish_item :: "bdd \<Rightarrow> ptr \<times> mstate \<Rightarrow> (op_item \<times> mstate) option" where
  "finish_item label rs =
     (case rs of (sub_result, s) \<Rightarrow> do {
        (_, s) \<leftarrow> mtpndd_ref sub_result s;
        Some (\<lparr>it_status = MTPNDD_SUCCESS, it_emit = True, it_child = sub_result, it_label = label\<rparr>, s)
      })"

definition mtpndd_and_same_field_item ::
  "sylvan \<Rightarrow> rec2 \<Rightarrow> edge_bucket_entry \<times> edge_bucket_entry \<Rightarrow> mstate \<Rightarrow> (op_item \<times> mstate) option" where
  "mtpndd_and_same_field_item S rec es s =
     (case es of (entry_a, entry_b) \<Rightarrow>
        let label_a = mtpndd_edge_label_load S (Some entry_a);
            label_b = mtpndd_edge_label_load S (Some entry_b);
            combined_label = sylvan_and S label_a label_b;
            s = sylvan_ref combined_label s
        in if combined_label = sylvan_false S
           then Some (no_item MTPNDD_SUCCESS, sylvan_deref combined_label s)
           else do {
             (sub_result, s) \<leftarrow> rec (ee_child entry_a) (ee_child entry_b) s;
             if sub_result = NULL
             then let s = sylvan_deref combined_label s
                  in Some (no_item (ei_code (mtpndd_get_last_error s)), s)
             else finish_item combined_label (sub_result, s)
           })"

definition mtpndd_and_diff_field_item ::
  "sylvan \<Rightarrow> rec2 \<Rightarrow> ptr \<Rightarrow> edge_bucket_entry \<Rightarrow> mstate \<Rightarrow> (op_item \<times> mstate) option" where
  "mtpndd_and_diff_field_item S rec b entry_a s =
     (let label_a = mtpndd_edge_label_load S (Some entry_a);
          s = sylvan_ref label_a s
      in do {
        (sub_result, s) \<leftarrow> rec (ee_child entry_a) b s;
        if sub_result = NULL
        then let s = sylvan_deref label_a s
             in Some (no_item (ei_code (mtpndd_get_last_error s)), s)
        else finish_item label_a (sub_result, s)
      })"

record and_pair =
  child_a :: ptr
  child_b :: ptr
  pair_label :: bdd

definition mtpndd_and_recurse_pair :: "rec2 \<Rightarrow> and_pair \<Rightarrow> mstate \<Rightarrow> (op_item \<times> mstate) option" where
  "mtpndd_and_recurse_pair rec pair s = do {
     (sub_result, s) \<leftarrow> rec (child_a pair) (child_b pair) s;
     if sub_result = NULL
     then let s = sylvan_deref (pair_label pair) s
          in Some (no_item (ei_code (mtpndd_get_last_error s)), s)
     else finish_item (pair_label pair) (sub_result, s)
   }"

text \<open>\<open>mtpndd_or_merge_item\<close> and \<open>mtpndd_not_merge_item\<close> have the same statements.\<close>

definition mtpndd_and_merge_item ::
  "sylvan \<Rightarrow> mtpndd_edge \<Rightarrow> op_item \<Rightarrow> mstate \<Rightarrow> (mtpndd_error \<times> mtpndd_edge \<times> mstate) option" where
  "mtpndd_and_merge_item S res_edges item s =
     (if \<not> it_emit item then Some (it_status item, res_edges, s)
      else if it_status item \<noteq> MTPNDD_SUCCESS \<or> it_child item = NULL
      then do {
        let s = (if it_label item \<noteq> 0 then sylvan_deref (it_label item) s else s);
        s \<leftarrow> (if it_child item \<noteq> NULL then do { (_, s) \<leftarrow> mtpndd_deref (it_child item) s; Some s }
              else Some s);
        Some (if it_status item \<noteq> MTPNDD_SUCCESS then it_status item else MTPNDD_ERROR_UNKNOWN,
              res_edges, s)
      }
      else let (ok, s) = mtpndd_temp_refs_push_owned (it_child item) s
           in if \<not> ok
              then do {
                (_, s) \<leftarrow> mtpndd_deref (it_child item) (sylvan_deref (it_label item) s);
                Some (MTPNDD_ERROR_OUT_OF_MEMORY, res_edges, s)
              }
              else do {
                (status, res_edges, s) \<leftarrow> mtpndd_add_edge S res_edges (it_child item) (it_label item) s;
                if status \<noteq> MTPNDD_SUCCESS
                then Some (status, res_edges, sylvan_deref (it_label item) s)
                else Some (MTPNDD_SUCCESS, res_edges, s)
              })"

definition mtpndd_or_merge_item ::
  "sylvan \<Rightarrow> mtpndd_edge \<Rightarrow> op_item \<Rightarrow> mstate \<Rightarrow> (mtpndd_error \<times> mtpndd_edge \<times> mstate) option" where
  "mtpndd_or_merge_item = mtpndd_and_merge_item"

definition mtpndd_not_merge_item ::
  "sylvan \<Rightarrow> mtpndd_edge \<Rightarrow> op_item \<Rightarrow> mstate \<Rightarrow> (mtpndd_error \<times> mtpndd_edge \<times> mstate) option" where
  "mtpndd_not_merge_item = mtpndd_and_merge_item"

section \<open>Tasks\<close>

text \<open>
  \<open>'t\<close> is the argument of a task, \<open>'x\<close> the data the tasks of one operation share (nothing for
  AND, the two residual maps or the residual label for OR, the residual label for NOT).
  \<open>drain_items\<close> synchronises the newest pending tasks and merges their items; it returns the
  tasks that are left.
\<close>

type_synonym 'x item_result = "(op_item \<times> 'x \<times> mstate) option"
type_synonym merge_fn = "mtpndd_edge \<Rightarrow> op_item \<Rightarrow> mstate \<Rightarrow> (mtpndd_error \<times> mtpndd_edge \<times> mstate) option"

fun drain_items ::
  "(mstate \<Rightarrow> bool) \<Rightarrow> merge_fn \<Rightarrow> ('t \<Rightarrow> 'x \<Rightarrow> mstate \<Rightarrow> 'x item_result) \<Rightarrow> nat \<Rightarrow> 't list
   \<Rightarrow> mtpndd_edge \<Rightarrow> 'x \<Rightarrow> mstate \<Rightarrow> (mtpndd_error \<times> 't list \<times> mtpndd_edge \<times> 'x \<times> mstate) option" where
  "drain_items alive merge item 0 pending m x s = Some (MTPNDD_SUCCESS, pending, m, x, s)"
| "drain_items alive merge item (Suc n) pending m x s =
     (case pending of
        [] \<Rightarrow> Some (MTPNDD_SUCCESS, [], m, x, s)
      | t # pending \<Rightarrow> do {
          _ \<leftarrow> guard_opt (alive s);
          (it, x, s) \<leftarrow> item t x s;
          (status, m, s) \<leftarrow> merge m it s;
          if status \<noteq> MTPNDD_SUCCESS then Some (status, pending, m, x, s)
          else drain_items alive merge item n pending m x s
        })"

text \<open>One iteration of the loop: spawn or call, then drain when too many tasks are pending.\<close>

definition flush_count :: "nat \<Rightarrow> nat" where
  "flush_count pending =
     (let keep = MTPNDD_AND_PENDING_FLUSH_THRESHOLD div 2;
          keep = (if keep = 0 then 1 else keep)
      in if keep < pending then pending - keep else pending)"

fun for_items ::
  "(mstate \<Rightarrow> bool) \<Rightarrow> (mstate \<Rightarrow> 't \<Rightarrow> bool option) \<Rightarrow> merge_fn \<Rightarrow> ('t \<Rightarrow> 'x \<Rightarrow> mstate \<Rightarrow> 'x item_result)
   \<Rightarrow> 't list \<Rightarrow> 't list \<Rightarrow> mtpndd_edge \<Rightarrow> 'x \<Rightarrow> mstate
   \<Rightarrow> (mtpndd_error \<times> 't list \<times> mtpndd_edge \<times> 'x \<times> mstate) option" where
  "for_items alive spawn merge item [] pending m x s = Some (MTPNDD_SUCCESS, pending, m, x, s)"
| "for_items alive spawn merge item (t # ts) pending m x s = do {
     _ \<leftarrow> guard_opt (alive s);
     sp \<leftarrow> spawn s t;
     (status, pending, m, x, s) \<leftarrow>
       (if sp then Some (MTPNDD_SUCCESS, t # pending, m, x, s)
        else do {
          (it, x, s) \<leftarrow> item t x s;
          (status, m, s) \<leftarrow> merge m it s;
          Some (status, pending, m, x, s)
        });
     if status \<noteq> MTPNDD_SUCCESS then Some (status, pending, m, x, s)
     else do {
       (status, pending, m, x, s) \<leftarrow>
         (if MTPNDD_AND_PENDING_FLUSH_THRESHOLD \<le> length pending
          then drain_items alive merge item (flush_count (length pending)) pending m x s
          else Some (MTPNDD_SUCCESS, pending, m, x, s));
       if status \<noteq> MTPNDD_SUCCESS then Some (status, pending, m, x, s)
       else for_items alive spawn merge item ts pending m x s
     }
   }"

text \<open>The whole loop and the final drain; tasks left after a failure are dropped.\<close>

definition run_items ::
  "(mstate \<Rightarrow> bool) \<Rightarrow> (mstate \<Rightarrow> 't \<Rightarrow> bool option) \<Rightarrow> merge_fn \<Rightarrow> ('t \<Rightarrow> 'x \<Rightarrow> mstate \<Rightarrow> 'x item_result)
   \<Rightarrow> 't list \<Rightarrow> mtpndd_edge \<Rightarrow> 'x \<Rightarrow> mstate \<Rightarrow> (mtpndd_error \<times> mtpndd_edge \<times> 'x \<times> mstate) option" where
  "run_items alive spawn merge item ts m x s = do {
     (status, pending, m, x, s) \<leftarrow> for_items alive spawn merge item ts [] m x s;
     if status \<noteq> MTPNDD_SUCCESS then Some (status, m, x, s)
     else do {
       (status, pending, m, x, s) \<leftarrow> drain_items alive merge item (length pending) pending m x s;
       Some (status, m, x, s)
     }
   }"

definition plain_item ::
  "('t \<Rightarrow> mstate \<Rightarrow> (op_item \<times> mstate) option) \<Rightarrow> 't \<Rightarrow> unit \<Rightarrow> mstate \<Rightarrow> unit item_result" where
  "plain_item f t x s = map_option (\<lambda>(it, s). (it, (), s)) (f t s)"

definition operands :: "ptr \<Rightarrow> mtpndd_edge \<Rightarrow> ptr \<Rightarrow> mtpndd_edge \<Rightarrow> mstate \<Rightarrow> bool" where
  "operands a ma b mb s \<longleftrightarrow> node_edges s a = Some ma \<and> node_edges s b = Some mb"

section \<open>AND\<close>

fun filter_pairs ::
  "sylvan \<Rightarrow> (edge_bucket_entry \<times> edge_bucket_entry) list \<Rightarrow> mstate \<Rightarrow> and_pair list \<times> mstate" where
  "filter_pairs S [] s = ([], s)"
| "filter_pairs S ((entry_a, entry_b) # es) s =
     (let combined = sylvan_and S (mtpndd_edge_label_load S (Some entry_a))
                       (mtpndd_edge_label_load S (Some entry_b))
      in if combined \<noteq> sylvan_false S
         then let (ps, s) = filter_pairs S es (sylvan_ref combined s)
              in (\<lparr>child_a = ee_child entry_a, child_b = ee_child entry_b, pair_label = combined\<rparr> # ps, s)
         else filter_pairs S es s)"

definition mtpndd_and_two_phase_same_field ::
  "sylvan \<Rightarrow> rec2 \<Rightarrow> ptr \<Rightarrow> ptr \<Rightarrow> mtpndd_edge \<Rightarrow> mstate \<Rightarrow> (mtpndd_error \<times> mtpndd_edge \<times> mstate) option" where
  "mtpndd_and_two_phase_same_field S rec a b res_edges s = do {
     ma \<leftarrow> node_edges s a;
     mb \<leftarrow> node_edges s b;
     let max_pairs = edge_count ma * edge_count mb;
     let (ok, s) = (if max_pairs \<le> 64 then (True, s)
                    else let (p, s) = malloc (max_pairs * 24) s in (p \<noteq> NULL, s));
     if \<not> ok then Some (MTPNDD_ERROR_OUT_OF_MEMORY, res_edges, s)
     else do {
       es_a \<leftarrow> for_each_entry s ma;
       es_b \<leftarrow> for_each_entry s mb;
       let (pairs, s) = filter_pairs S (List.product es_a es_b) s;
       (status, res_edges, _, s) \<leftarrow>
         run_items (\<lambda>_. True) (\<lambda>s p. mtpndd_should_spawn s (child_a p) (child_b p))
           (mtpndd_and_merge_item S) (plain_item (mtpndd_and_recurse_pair rec)) pairs res_edges () s;
       Some (status, res_edges, s)
     }
   }"

definition and_build_same ::
  "sylvan \<Rightarrow> rec2 \<Rightarrow> ptr \<Rightarrow> ptr \<Rightarrow> mtpndd_edge \<Rightarrow> mstate \<Rightarrow> (mtpndd_error \<times> mtpndd_edge \<times> mstate) option" where
  "and_build_same S rec a b res_edges s = do {
     ma \<leftarrow> node_edges s a;
     mb \<leftarrow> node_edges s b;
     if 1 < lace_workers s \<and> 0 < two_phase_threshold s
        \<and> two_phase_threshold s \<le> sint (word_of_nat (edge_count ma * edge_count mb) :: 32 word)
     then mtpndd_and_two_phase_same_field S rec a b res_edges s
     else do {
       es_a \<leftarrow> for_each_entry s ma;
       es_b \<leftarrow> for_each_entry s mb;
       (status, res_edges, _, s) \<leftarrow>
         run_items (operands a ma b mb)
           (\<lambda>s (entry_a, entry_b). mtpndd_should_spawn s (ee_child entry_a) (ee_child entry_b))
           (mtpndd_and_merge_item S) (plain_item (mtpndd_and_same_field_item S rec))
           (List.product es_a es_b) res_edges () s;
       Some (status, res_edges, s)
     }
   }"

definition and_build_diff ::
  "sylvan \<Rightarrow> rec2 \<Rightarrow> ptr \<Rightarrow> ptr \<Rightarrow> mtpndd_edge \<Rightarrow> mstate \<Rightarrow> (mtpndd_error \<times> mtpndd_edge \<times> mstate) option" where
  "and_build_diff S rec a b res_edges s = do {
     ma \<leftarrow> node_edges s a;
     es_a \<leftarrow> for_each_entry s ma;
     (status, res_edges, _, s) \<leftarrow>
       run_items (\<lambda>s. node_edges s a = Some ma) (\<lambda>s entry_a. mtpndd_should_spawn s (ee_child entry_a) b)
         (mtpndd_and_merge_item S) (plain_item (mtpndd_and_diff_field_item S rec b))
         es_a res_edges () s;
     Some (status, res_edges, s)
   }"

text \<open>Release the temporary references, free the map that was being built, return \<open>NULL\<close>.\<close>

definition give_up :: "nat \<Rightarrow> mtpndd_edge \<Rightarrow> mstate \<Rightarrow> (ptr \<times> mstate) option" where
  "give_up frame res_edges s = do {
     s \<leftarrow> mtpndd_temp_refs_release frame s;
     s \<leftarrow> mtpndd_edge_map_free res_edges s;
     Some (NULL, s)
   }"

text \<open>The other order, which some of the exits have.\<close>

definition give_up_free :: "nat \<Rightarrow> mtpndd_edge \<Rightarrow> mstate \<Rightarrow> (ptr \<times> mstate) option" where
  "give_up_free frame res_edges s = do {
     s \<leftarrow> mtpndd_edge_map_free res_edges s;
     s \<leftarrow> mtpndd_temp_refs_release frame s;
     Some (NULL, s)
   }"

definition sort_operands :: "ptr \<Rightarrow> ptr \<Rightarrow> ptr \<times> ptr" where
  "sort_operands a b = (if b < a then (b, a) else (a, b))"

definition and_body :: "sylvan \<Rightarrow> rec2 \<Rightarrow> rec2" where
  "and_body S rec a b s =
     (if mtpndd_is_false a \<or> mtpndd_is_true b then Some (a, s)
      else if mtpndd_is_false b \<or> mtpndd_is_true a \<or> a = b then Some (b, s)
      else do {
        let (cache_a, cache_b) = sort_operands a b;
        cached \<leftarrow> mtpndd_op_cache_lookup_binary s (and_cache s) cache_a cache_b;
        if cached \<noteq> NULL then Some (cached, s)
        else case mtpndd_memory_acquire_edge_map s of
          (None, s) \<Rightarrow> Some (NULL, mtpndd_set_error MTPNDD_ERROR_OUT_OF_MEMORY ''mtpndd_and_rec'' 981 s)
        | (Some res_edges, s) \<Rightarrow> do {
            res_edges \<leftarrow> mtpndd_edge_map_init s res_edges;
            let frame = mtpndd_temp_refs_init s;
            fa \<leftarrow> node_field s a;
            fb \<leftarrow> node_field s b;
            let (a, b) = (if fb < fa then (b, a) else (a, b));
            (status, res_edges, s) \<leftarrow> (if fa = fb then and_build_same S rec a b res_edges s
                                        else and_build_diff S rec a b res_edges s);
            if status \<noteq> MTPNDD_SUCCESS then give_up frame res_edges s
            else do {
              field \<leftarrow> node_field s a;
              (res_node, s) \<leftarrow> mtpndd_mk S field res_edges s;
              if res_node = NULL then give_up frame res_edges s
              else do {
                s \<leftarrow> mtpndd_temp_refs_release frame s;
                c \<leftarrow> mtpndd_op_cache_store_binary s (and_cache s) cache_a cache_b res_node;
                Some (res_node, s\<lparr>and_cache := c\<rparr>)
              }
            }
          }
      })"

primrec mtpndd_and_rec :: "nat \<Rightarrow> sylvan \<Rightarrow> rec2" where
  "mtpndd_and_rec 0 S = (\<lambda>a b s. None)"
| "mtpndd_and_rec (Suc k) S = and_body S (mtpndd_and_rec k S)"

definition op_fuel :: "mstate \<Rightarrow> nat" where
  "op_fuel s = field_count s + 2"

definition mtpndd_and :: "sylvan \<Rightarrow> rec2" where
  "mtpndd_and S a b s = mtpndd_and_rec (op_fuel s) S a b s"

section \<open>OR\<close>

text \<open>The residual maps: the labels of the operands minus what the pairs have covered so far.\<close>

definition set_entry_label :: "ptr \<Rightarrow> bdd \<Rightarrow> mtpndd_edge \<Rightarrow> mtpndd_edge" where
  "set_entry_label c l m =
     m\<lparr>buckets := map (map (\<lambda>e. if ee_child e = c then e\<lparr>ee_label := l\<rparr> else e)) (buckets m)\<rparr>"

definition mtpndd_residual_apply_mask ::
  "sylvan \<Rightarrow> edge_bucket_entry option \<Rightarrow> bdd \<Rightarrow> mtpndd_edge \<Rightarrow> mstate \<Rightarrow> mtpndd_edge \<times> mstate" where
  "mtpndd_residual_apply_mask S entry msk residual s =
     (case entry of
        None \<Rightarrow> (residual, s)
      | Some e \<Rightarrow>
          if ee_label e \<noteq> sylvan_false S
          then let updated = sylvan_and S (ee_label e) msk
               in (set_entry_label (ee_child e) updated residual,
                   sylvan_deref (ee_label e) (sylvan_ref updated s))
          else (residual, s))"

definition mtpndd_or_same_field_item ::
  "sylvan \<Rightarrow> rec2 \<Rightarrow> edge_bucket_entry \<times> edge_bucket_entry \<Rightarrow> mtpndd_edge \<times> mtpndd_edge \<Rightarrow> mstate
   \<Rightarrow> (mtpndd_edge \<times> mtpndd_edge) item_result" where
  "mtpndd_or_same_field_item S rec es ctx s =
     (case (es, ctx) of ((entry_a, entry_b), (residualA, residualB)) \<Rightarrow>
        let label_a = mtpndd_edge_label_load S (Some entry_a);
            label_b = mtpndd_edge_label_load S (Some entry_b);
            intersect = sylvan_and S label_a label_b;
            s = sylvan_ref intersect s
        in if intersect = sylvan_false S
           then Some (no_item MTPNDD_SUCCESS, (residualA, residualB), sylvan_deref intersect s)
           else do {
             let notIntersect = sylvan_not S intersect;
             let s = sylvan_ref notIntersect s;
             residual_entry_a \<leftarrow> find_edge_entry s residualA (ee_child entry_a);
             residual_entry_b \<leftarrow> find_edge_entry s residualB (ee_child entry_b);
             let (residualA, s) = mtpndd_residual_apply_mask S residual_entry_a notIntersect residualA s;
             let (residualB, s) = mtpndd_residual_apply_mask S residual_entry_b notIntersect residualB s;
             let s = sylvan_deref notIntersect s;
             (sub_result, s) \<leftarrow> rec (ee_child entry_a) (ee_child entry_b) s;
             if sub_result = NULL
             then let s = sylvan_deref intersect s
                  in Some (no_item (ei_code (mtpndd_get_last_error s)), (residualA, residualB), s)
             else do {
               (it, s) \<leftarrow> finish_item intersect (sub_result, s);
               Some (it, (residualA, residualB), s)
             }
           })"

text \<open>The compare-and-swap loop of the shared residual label, run by one worker.\<close>

definition residual_cut :: "sylvan \<Rightarrow> bdd \<Rightarrow> bdd \<Rightarrow> mstate \<Rightarrow> bdd \<times> mstate" where
  "residual_cut S label residual s =
     (let notIntersect = sylvan_not S label;
          s = sylvan_ref notIntersect s;
          updated = sylvan_and S residual notIntersect
      in (updated, sylvan_deref notIntersect (sylvan_deref residual (sylvan_ref updated s))))"

definition mtpndd_or_diff_field_item ::
  "sylvan \<Rightarrow> rec2 \<Rightarrow> ptr \<Rightarrow> edge_bucket_entry \<Rightarrow> bdd \<Rightarrow> mstate \<Rightarrow> bdd item_result" where
  "mtpndd_or_diff_field_item S rec b entry_a residualB s =
     (let label_a = mtpndd_edge_label_load S (Some entry_a);
          (residualB, s) = residual_cut S label_a residualB s
      in do {
        (sub_result, s) \<leftarrow> rec (ee_child entry_a) b s;
        if sub_result = NULL
        then Some (no_item (ei_code (mtpndd_get_last_error s)), residualB, s)
        else do {
          (it, s) \<leftarrow> finish_item label_a (sub_result, s);
          Some (it, residualB, sylvan_ref label_a s)
        }
      })"

text \<open>Adding what is left of an operand; \<open>False\<close> when a push or an insertion failed.\<close>

fun add_residual ::
  "sylvan \<Rightarrow> edge_bucket_entry list \<Rightarrow> mtpndd_edge \<Rightarrow> mstate \<Rightarrow> (bool \<times> mtpndd_edge \<times> mstate) option" where
  "add_residual S [] m s = Some (True, m, s)"
| "add_residual S (entry_res # es) m s =
     (let res_label = mtpndd_edge_label_load S (Some entry_res)
      in if res_label = sylvan_false S then add_residual S es m s
         else do {
           (ok, s) \<leftarrow> mtpndd_temp_refs_push (ee_child entry_res) s;
           if \<not> ok then Some (False, m, s)
           else do {
             (status, m, s) \<leftarrow> mtpndd_add_edge S m (ee_child entry_res) res_label (sylvan_ref res_label s);
             if status \<noteq> MTPNDD_SUCCESS then Some (False, m, s) else add_residual S es m s
           }
         })"

text \<open>
  The two halves of \<open>mtpndd_or_rec\<close>.  The result is the map to give to \<open>mtpndd_mk\<close>, or \<open>None\<close> when the
  operation has cleaned up and returns \<open>NULL\<close>.
\<close>

definition or_fail :: "nat \<Rightarrow> mtpndd_edge \<Rightarrow> mstate \<Rightarrow> (mtpndd_edge option \<times> mstate) option" where
  "or_fail frame res_edges s = do { (_, s) \<leftarrow> give_up frame res_edges s; Some (None, s) }"

fun free_maps :: "mtpndd_edge list \<Rightarrow> mstate \<Rightarrow> mstate option" where
  "free_maps [] s = Some s"
| "free_maps (m # ms) s = do { s \<leftarrow> mtpndd_edge_map_free m s; free_maps ms s }"

definition or_no_memory ::
  "nat \<Rightarrow> mtpndd_edge list \<Rightarrow> nat \<Rightarrow> mstate \<Rightarrow> (mtpndd_edge option \<times> mstate) option" where
  "or_no_memory frame ms line s = do {
     s \<leftarrow> free_maps ms s;
     s \<leftarrow> mtpndd_temp_refs_release frame s;
     Some (None, mtpndd_set_error MTPNDD_ERROR_OUT_OF_MEMORY ''mtpndd_or_rec'' line s)
   }"

definition or_pairs ::
  "sylvan \<Rightarrow> rec2 \<Rightarrow> nat \<Rightarrow> ptr \<Rightarrow> mtpndd_edge \<Rightarrow> ptr \<Rightarrow> mtpndd_edge \<Rightarrow> mtpndd_edge \<Rightarrow> mtpndd_edge \<Rightarrow> mtpndd_edge
   \<Rightarrow> mstate \<Rightarrow> (mtpndd_edge option \<times> mstate) option" where
  "or_pairs S rec frame a ma b mb residualA residualB res_edges s = do {
     es_a \<leftarrow> for_each_entry s ma;
     es_b \<leftarrow> for_each_entry s mb;
     (status, res_edges, (residualA, residualB), s) \<leftarrow>
       run_items (operands a ma b mb)
         (\<lambda>s (entry_a, entry_b). mtpndd_should_spawn s (ee_child entry_a) (ee_child entry_b))
         (mtpndd_or_merge_item S) (mtpndd_or_same_field_item S rec)
         (List.product es_a es_b) res_edges (residualA, residualB) s;
     if status \<noteq> MTPNDD_SUCCESS
     then do { s \<leftarrow> free_maps [residualA, residualB] s; or_fail frame res_edges s }
     else do {
       es \<leftarrow> for_each_entry s residualA;
       (ok, res_edges, s) \<leftarrow> add_residual S es res_edges s;
       if \<not> ok then do { s \<leftarrow> free_maps [residualA, residualB] s; or_fail frame res_edges s }
       else do {
         es \<leftarrow> for_each_entry s residualB;
         (ok, res_edges, s) \<leftarrow> add_residual S es res_edges s;
         s \<leftarrow> free_maps [residualA, residualB] s;
         if \<not> ok then or_fail frame res_edges s else Some (Some res_edges, s)
       }
     }
   }"

definition or_build_same ::
  "sylvan \<Rightarrow> rec2 \<Rightarrow> nat \<Rightarrow> ptr \<Rightarrow> ptr \<Rightarrow> mtpndd_edge \<Rightarrow> mstate \<Rightarrow> (mtpndd_edge option \<times> mstate) option" where
  "or_build_same S rec frame a b res_edges s = do {
     ma \<leftarrow> node_edges s a;
     mb \<leftarrow> node_edges s b;
     case mtpndd_memory_acquire_edge_map s of
       (None, s) \<Rightarrow> or_no_memory frame [res_edges] 1408 s
     | (Some residualA, s) \<Rightarrow> do {
         (status, residualA, s) \<leftarrow> mtpndd_edge_map_deep_clone ma residualA s;
         if status \<noteq> MTPNDD_SUCCESS then or_no_memory frame [residualA, res_edges] 1415 s
         else case mtpndd_memory_acquire_edge_map s of
           (None, s) \<Rightarrow> or_no_memory frame [residualA, res_edges] 1423 s
         | (Some residualB, s) \<Rightarrow> do {
             (status, residualB, s) \<leftarrow> mtpndd_edge_map_deep_clone mb residualB s;
             if status \<noteq> MTPNDD_SUCCESS then or_no_memory frame [residualA, residualB, res_edges] 1431 s
             else or_pairs S rec frame a ma b mb residualA residualB res_edges s
           }
       }
   }"

definition or_build_diff ::
  "sylvan \<Rightarrow> rec2 \<Rightarrow> nat \<Rightarrow> ptr \<Rightarrow> ptr \<Rightarrow> mtpndd_edge \<Rightarrow> mstate \<Rightarrow> (mtpndd_edge option \<times> mstate) option" where
  "or_build_diff S rec frame a b res_edges s = do {
     ma \<leftarrow> node_edges s a;
     es_a \<leftarrow> for_each_entry s ma;
     (status, res_edges, residualB, s) \<leftarrow>
       run_items (\<lambda>s. node_edges s a = Some ma) (\<lambda>s entry_a. mtpndd_should_spawn s (ee_child entry_a) b)
         (mtpndd_or_merge_item S) (mtpndd_or_diff_field_item S rec b)
         es_a res_edges (sylvan_true S) s;
     if status \<noteq> MTPNDD_SUCCESS then or_fail frame res_edges s
     else if residualB = sylvan_false S then Some (Some res_edges, s)
     else do {
       (ok, s) \<leftarrow> mtpndd_temp_refs_push b s;
       if \<not> ok then or_fail frame res_edges (sylvan_deref residualB s)
       else do {
         (status, res_edges, s) \<leftarrow> mtpndd_add_edge S res_edges b residualB s;
         if status \<noteq> MTPNDD_SUCCESS then or_fail frame res_edges (sylvan_deref residualB s)
         else Some (Some res_edges, s)
       }
     }
   }"

definition or_body :: "sylvan \<Rightarrow> rec2 \<Rightarrow> rec2" where
  "or_body S rec a b s =
     (if mtpndd_is_true a \<or> mtpndd_is_false b then Some (a, s)
      else if mtpndd_is_true b \<or> mtpndd_is_false a \<or> a = b then Some (b, s)
      else do {
        let (cache_a, cache_b) = sort_operands a b;
        cached \<leftarrow> mtpndd_op_cache_lookup_binary s (or_cache s) cache_a cache_b;
        if cached \<noteq> NULL then Some (cached, s)
        else case mtpndd_memory_acquire_edge_map s of
          (None, s) \<Rightarrow> Some (NULL, mtpndd_set_error MTPNDD_ERROR_OUT_OF_MEMORY ''mtpndd_or_rec'' 1393 s)
        | (Some res_edges, s) \<Rightarrow> do {
            res_edges \<leftarrow> mtpndd_edge_map_init s res_edges;
            let frame = mtpndd_temp_refs_init s;
            fa \<leftarrow> node_field s a;
            fb \<leftarrow> node_field s b;
            let (a, b) = (if fb < fa then (b, a) else (a, b));
            (built, s) \<leftarrow> (if fa = fb then or_build_same S rec frame a b res_edges s
                            else or_build_diff S rec frame a b res_edges s);
            case built of
              None \<Rightarrow> Some (NULL, s)
            | Some res_edges \<Rightarrow> do {
                field \<leftarrow> node_field s a;
                (res_node, s) \<leftarrow> mtpndd_mk S field res_edges s;
                if res_node = NULL then give_up_free frame res_edges s
                else do {
                  s \<leftarrow> mtpndd_temp_refs_release frame s;
                  c \<leftarrow> mtpndd_op_cache_store_binary s (or_cache s) cache_a cache_b res_node;
                  Some (res_node, s\<lparr>or_cache := c\<rparr>)
                }
              }
          }
      })"

primrec mtpndd_or_rec :: "nat \<Rightarrow> sylvan \<Rightarrow> rec2" where
  "mtpndd_or_rec 0 S = (\<lambda>a b s. None)"
| "mtpndd_or_rec (Suc k) S = or_body S (mtpndd_or_rec k S)"

definition mtpndd_or :: "sylvan \<Rightarrow> rec2" where
  "mtpndd_or S a b s = mtpndd_or_rec (op_fuel s) S a b s"

section \<open>NOT\<close>

definition mtpndd_not_expand_item ::
  "sylvan \<Rightarrow> rec1 \<Rightarrow> edge_bucket_entry \<Rightarrow> bdd \<Rightarrow> mstate \<Rightarrow> bdd item_result" where
  "mtpndd_not_expand_item S rec entry_a residual s =
     (let label_a = mtpndd_edge_label_load S (Some entry_a);
          (residual, s) = residual_cut S label_a residual s
      in do {
        (sub_result, s) \<leftarrow> rec (ee_child entry_a) s;
        if sub_result = NULL
        then Some (no_item (ei_code (mtpndd_get_last_error s)), residual, s)
        else do {
          (it, s) \<leftarrow> finish_item label_a (sub_result, s);
          Some (it, residual, sylvan_ref label_a s)
        }
      })"

text \<open>From \<open>not_build_ok\<close> on: what no edge covers goes to TRUE, then the node is made.\<close>

definition not_close ::
  "sylvan \<Rightarrow> nat \<Rightarrow> ptr \<Rightarrow> bdd \<Rightarrow> mtpndd_edge \<Rightarrow> mstate \<Rightarrow> (ptr \<times> mstate) option" where
  "not_close S frame a residual res_edges s = do {
     (ok, res_edges, s) \<leftarrow>
       (if residual = sylvan_false S then Some (True, res_edges, s)
        else do {
          (ok, s) \<leftarrow> mtpndd_temp_refs_push MTPNDD_TRUE s;
          if \<not> ok then Some (False, res_edges, sylvan_deref residual s)
          else do {
            (status, res_edges, s) \<leftarrow> mtpndd_add_edge S res_edges MTPNDD_TRUE residual s;
            if status \<noteq> MTPNDD_SUCCESS then Some (False, res_edges, sylvan_deref residual s)
            else Some (True, res_edges, s)
          }
        });
     if \<not> ok then give_up_free frame res_edges s
     else do {
       field \<leftarrow> node_field s a;
       (res_node, s) \<leftarrow> mtpndd_mk S field res_edges s;
       if res_node = NULL then give_up_free frame res_edges s
       else do {
         s \<leftarrow> mtpndd_temp_refs_release frame s;
         c \<leftarrow> mtpndd_op_cache_store_unary s (not_cache s) a res_node;
         Some (res_node, s\<lparr>not_cache := c\<rparr>)
       }
     }
   }"

definition not_body :: "sylvan \<Rightarrow> rec1 \<Rightarrow> rec1" where
  "not_body S rec a s =
     (if mtpndd_is_true a then Some (MTPNDD_FALSE, s)
      else if mtpndd_is_false a then Some (MTPNDD_TRUE, s)
      else do {
        cached \<leftarrow> mtpndd_op_cache_lookup_unary s (not_cache s) a;
        if cached \<noteq> NULL then Some (cached, s)
        else case mtpndd_memory_acquire_edge_map s of
          (None, s) \<Rightarrow> Some (NULL, mtpndd_set_error MTPNDD_ERROR_OUT_OF_MEMORY ''mtpndd_not_rec'' 1717 s)
        | (Some res_edges, s) \<Rightarrow> do {
            res_edges \<leftarrow> mtpndd_edge_map_init s res_edges;
            let frame = mtpndd_temp_refs_init s;
            ma \<leftarrow> node_edges s a;
            es_a \<leftarrow> for_each_entry s ma;
            (status, res_edges, residual, s) \<leftarrow>
              run_items (\<lambda>s. node_edges s a = Some ma)
                (\<lambda>s entry_a. mtpndd_should_spawn_unary s (ee_child entry_a))
                (mtpndd_not_merge_item S) (mtpndd_not_expand_item S rec)
                es_a res_edges (sylvan_true S) s;
            if status \<noteq> MTPNDD_SUCCESS then give_up frame res_edges s
            else not_close S frame a residual res_edges s
          }
      })"

primrec mtpndd_not_rec :: "nat \<Rightarrow> sylvan \<Rightarrow> rec1" where
  "mtpndd_not_rec 0 S = (\<lambda>a s. None)"
| "mtpndd_not_rec (Suc k) S = not_body S (mtpndd_not_rec k S)"

definition mtpndd_not :: "sylvan \<Rightarrow> rec1" where
  "mtpndd_not S a s = mtpndd_not_rec (op_fuel s) S a s"

section \<open>Derived operations\<close>

definition mtpndd_diff :: "sylvan \<Rightarrow> rec2" where
  "mtpndd_diff S a b s = do {
     (not_b, s) \<leftarrow> mtpndd_not S b s;
     if not_b = NULL then Some (NULL, s) else mtpndd_and S a not_b s
   }"

definition mtpndd_or_demorgan :: "sylvan \<Rightarrow> rec2" where
  "mtpndd_or_demorgan S a b s = do {
     (not_a, s) \<leftarrow> mtpndd_not S a s;
     if not_a = NULL then Some (NULL, s)
     else do {
       (_, s) \<leftarrow> mtpndd_ref not_a s;
       (not_b, s) \<leftarrow> mtpndd_not S b s;
       if not_b = NULL then do { (_, s) \<leftarrow> mtpndd_deref not_a s; Some (NULL, s) }
       else do {
         (_, s) \<leftarrow> mtpndd_ref not_b s;
         (and_result, s) \<leftarrow> mtpndd_and S not_a not_b s;
         (_, s) \<leftarrow> mtpndd_deref not_a s;
         (_, s) \<leftarrow> mtpndd_deref not_b s;
         if and_result = NULL then Some (NULL, s)
         else do {
           (_, s) \<leftarrow> mtpndd_ref and_result s;
           (result, s) \<leftarrow> mtpndd_not S and_result s;
           (_, s) \<leftarrow> mtpndd_deref and_result s;
           Some (result, s)
         }
       }
     }
   }"

text \<open>\<open>mtpndd_exist_rec\<close>: the result of \<open>mtpndd_or\<close> is not referenced while the next child is added.\<close>

fun exist_or_children ::
  "sylvan \<Rightarrow> (mstate \<Rightarrow> bool) \<Rightarrow> edge_bucket_entry list \<Rightarrow> ptr \<Rightarrow> mstate \<Rightarrow> (mtpndd_error \<times> ptr \<times> mstate) option" where
  "exist_or_children S alive [] res_node s = Some (MTPNDD_SUCCESS, res_node, s)"
| "exist_or_children S alive (entry_a # es) res_node s = do {
     _ \<leftarrow> guard_opt (alive s);
     (res_node, s) \<leftarrow> mtpndd_or S res_node (ee_child entry_a) s;
     if res_node = NULL then Some (ei_code (mtpndd_get_last_error s), NULL, s)
     else exist_or_children S alive es res_node s
   }"

definition mtpndd_exist_expand ::
  "sylvan \<Rightarrow> (ptr \<Rightarrow> mstate \<Rightarrow> (mtpndd_error \<times> ptr \<times> mstate) option) \<Rightarrow> edge_bucket_entry \<Rightarrow> mtpndd_edge
   \<Rightarrow> mstate \<Rightarrow> (mtpndd_error \<times> mtpndd_edge \<times> mstate) option" where
  "mtpndd_exist_expand S rec entry_a res_edges s = do {
     (status, subResult, s) \<leftarrow> rec (ee_child entry_a) s;
     if status \<noteq> MTPNDD_SUCCESS then Some (status, res_edges, s)
     else do {
       let label_a = mtpndd_edge_label_load S (Some entry_a);
       (ok, s) \<leftarrow> mtpndd_temp_refs_push subResult s;
       if \<not> ok then Some (MTPNDD_ERROR_OUT_OF_MEMORY, res_edges, sylvan_deref label_a s)
       else do {
         (status, res_edges, s) \<leftarrow> mtpndd_add_edge S res_edges subResult label_a (sylvan_ref label_a s);
         Some (status, res_edges, if status \<noteq> MTPNDD_SUCCESS then sylvan_deref label_a s else s)
       }
     }
   }"

fun exist_loop ::
  "(mstate \<Rightarrow> bool) \<Rightarrow> (edge_bucket_entry \<Rightarrow> mtpndd_edge \<Rightarrow> mstate \<Rightarrow> (mtpndd_error \<times> mtpndd_edge \<times> mstate) option)
   \<Rightarrow> edge_bucket_entry list \<Rightarrow> mtpndd_edge \<Rightarrow> mstate \<Rightarrow> (mtpndd_error \<times> mtpndd_edge \<times> mstate) option" where
  "exist_loop alive expand [] m s = Some (MTPNDD_SUCCESS, m, s)"
| "exist_loop alive expand (entry_a # es) m s = do {
     _ \<leftarrow> guard_opt (alive s);
     (status, m, s) \<leftarrow> expand entry_a m s;
     if status \<noteq> MTPNDD_SUCCESS then Some (status, m, s) else exist_loop alive expand es m s
   }"

primrec mtpndd_exist_rec ::
  "nat \<Rightarrow> sylvan \<Rightarrow> nat \<Rightarrow> ptr \<Rightarrow> mstate \<Rightarrow> (mtpndd_error \<times> ptr \<times> mstate) option" where
  "mtpndd_exist_rec 0 S field = (\<lambda>a s. None)"
| "mtpndd_exist_rec (Suc k) S field = (\<lambda>a s. do {
     t \<leftarrow> mtpndd_is_terminal s a;
     if t then Some (MTPNDD_SUCCESS, a, s)
     else do {
       fa \<leftarrow> node_field s a;
       ma \<leftarrow> node_edges s a;
       es \<leftarrow> for_each_entry s ma;
       if fa = field then exist_or_children S (\<lambda>s. node_edges s a = Some ma) es MTPNDD_FALSE s
       else case mtpndd_memory_acquire_edge_map s of
         (None, s) \<Rightarrow> Some (MTPNDD_ERROR_OUT_OF_MEMORY, NULL,
                        mtpndd_set_error MTPNDD_ERROR_OUT_OF_MEMORY ''mtpndd_exist_rec'' 1834 s)
       | (Some res_edges, s) \<Rightarrow> do {
           res_edges \<leftarrow> mtpndd_edge_map_init s res_edges;
           let frame = mtpndd_temp_refs_init s;
           (status, res_edges, s) \<leftarrow>
             exist_loop (\<lambda>s. node_edges s a = Some ma)
               (mtpndd_exist_expand S (mtpndd_exist_rec k S field)) es res_edges s;
           if status \<noteq> MTPNDD_SUCCESS
           then do { (_, s) \<leftarrow> give_up_free frame res_edges s; Some (status, NULL, s) }
           else do {
             fa \<leftarrow> node_field s a;
             (res_node, s) \<leftarrow> mtpndd_mk S fa res_edges s;
             if res_node = NULL
             then do {
               (_, s) \<leftarrow> give_up_free frame res_edges s;
               Some (ei_code (mtpndd_get_last_error s), NULL, s)
             }
             else do {
               s \<leftarrow> mtpndd_temp_refs_release frame s;
               Some (MTPNDD_SUCCESS, res_node, s)
             }
           }
         }
     }
   })"

definition mtpndd_exist :: "sylvan \<Rightarrow> ptr \<Rightarrow> nat \<Rightarrow> mstate \<Rightarrow> (ptr \<times> mstate) option" where
  "mtpndd_exist S a field s = do {
     (status, result, s) \<leftarrow> mtpndd_exist_rec (op_fuel s) S field a s;
     Some (if status \<noteq> MTPNDD_SUCCESS then NULL else result, s)
   }"

text \<open>
  Tree reduction of an array: the left half is spawned and synchronised after the right half was
  computed.
\<close>

function reduce_rec :: "rec2 \<Rightarrow> ptr \<Rightarrow> ptr list \<Rightarrow> mstate \<Rightarrow> (ptr \<times> mstate) option" where
  "reduce_rec oper unit_node values s =
     (case values of
        [] \<Rightarrow> Some (unit_node, s)
      | [v] \<Rightarrow> Some (v, s)
      | [v, w] \<Rightarrow> oper v w s
      | _ \<Rightarrow> do {
          let mid = length values div 2;
          let frame = mtpndd_temp_refs_init s;
          (right, s) \<leftarrow> reduce_rec oper unit_node (drop mid values) s;
          (_, s) \<leftarrow> mtpndd_temp_refs_push right s;
          (left, s) \<leftarrow> reduce_rec oper unit_node (take mid values) s;
          (_, s) \<leftarrow> mtpndd_temp_refs_push left s;
          (result, s) \<leftarrow> (if left \<noteq> NULL \<and> right \<noteq> NULL then oper left right s else Some (NULL, s));
          s \<leftarrow> mtpndd_temp_refs_release frame s;
          Some (result, s)
        })"
  by pat_completeness auto
termination
  by (relation "measure (\<lambda>(oper, u, values, s). length values)") auto

declare reduce_rec.simps [simp del]

definition mtpndd_or_reduce_rec :: "sylvan \<Rightarrow> ptr list \<Rightarrow> mstate \<Rightarrow> (ptr \<times> mstate) option" where
  "mtpndd_or_reduce_rec S values s = reduce_rec (mtpndd_or S) MTPNDD_FALSE values s"

definition mtpndd_and_reduce_rec :: "sylvan \<Rightarrow> ptr list \<Rightarrow> mstate \<Rightarrow> (ptr \<times> mstate) option" where
  "mtpndd_and_reduce_rec S values s = reduce_rec (mtpndd_and S) MTPNDD_TRUE values s"

definition mtpndd_or_reduce :: "sylvan \<Rightarrow> ptr list \<Rightarrow> mstate \<Rightarrow> (ptr \<times> mstate) option" where
  "mtpndd_or_reduce S values s =
     (case values of [] \<Rightarrow> Some (MTPNDD_FALSE, s) | [v] \<Rightarrow> Some (v, s)
      | _ \<Rightarrow> mtpndd_or_reduce_rec S values s)"

definition mtpndd_and_reduce :: "sylvan \<Rightarrow> ptr list \<Rightarrow> mstate \<Rightarrow> (ptr \<times> mstate) option" where
  "mtpndd_and_reduce S values s =
     (case values of [] \<Rightarrow> Some (MTPNDD_TRUE, s) | [v] \<Rightarrow> Some (v, s)
      | _ \<Rightarrow> mtpndd_and_reduce_rec S values s)"

fun and_batch_loop :: "sylvan \<Rightarrow> (ptr \<times> ptr) list \<Rightarrow> mstate \<Rightarrow> (ptr list \<times> mstate) option" where
  "and_batch_loop S [] s = Some ([], s)"
| "and_batch_loop S ((l, r) # ps) s = do {
     (res, s) \<leftarrow> mtpndd_and S l r s;
     s \<leftarrow> (if res \<noteq> NULL then do { (_, s) \<leftarrow> mtpndd_ref res s; Some s } else Some s);
     (rest, s) \<leftarrow> and_batch_loop S ps s;
     Some (res # rest, s)
   }"

text \<open>\<open>None\<close> in the result is the null array.\<close>

definition mtpndd_and_batch :: "sylvan \<Rightarrow> (ptr \<times> ptr) list \<Rightarrow> mstate \<Rightarrow> (ptr list option \<times> mstate) option" where
  "mtpndd_and_batch S pairs s =
     (if pairs = [] then Some (None, s)
      else let (p, s) = malloc (length pairs * 8) s
           in if p = NULL then Some (None, s)
              else do { (rs, s) \<leftarrow> and_batch_loop S pairs s; Some (Some rs, s) })"

end
