(* ===== verification/Engine.thy ===== *)
theory Engine
  imports Bool_Ops
begin

text \<open>
  The life cycle of the library (\<open>mtpndd_common.c\<close>): \<open>mtpndd_init\<close>, the declaration and generation of
  fields with their variable nodes, the accessors, and \<open>mtpndd_quit\<close>.  \<open>lace_start\<close> is a parameter: the
  number of workers Lace runs for a requested number of workers and a queue size.  Counters and
  capacities are \<open>uint32_t\<close>: additions and doublings are taken modulo \<open>2 ^ 32\<close>.  The C array
  \<open>pending_field_bit_widths\<close> is a list as long as its capacity.
\<close>

section \<open>Configuration\<close>

text \<open>The \<open>double\<close> closest to 0.1.\<close>

definition DEFAULT_QUICK_GROWTH_THRESHOLD :: rat where
  "DEFAULT_QUICK_GROWTH_THRESHOLD = 3602879701896397 / 36028797018963968"

definition DEFAULT_FIELD_CAPACITY :: nat where "DEFAULT_FIELD_CAPACITY = 8"
definition MTPNDD_DEFAULT_NODE_SLAB_CAPACITY :: nat where "MTPNDD_DEFAULT_NODE_SLAB_CAPACITY = 1024"
definition MTPNDD_DEFAULT_EDGE_ENTRY_SLAB_CAPACITY :: nat where "MTPNDD_DEFAULT_EDGE_ENTRY_SLAB_CAPACITY = 4096"
definition MTPNDD_DEFAULT_NODETABLE_ENTRY_SLAB_CAPACITY :: nat where
  "MTPNDD_DEFAULT_NODETABLE_ENTRY_SLAB_CAPACITY = 2048"
definition MTPNDD_DEFAULT_EDGE_MAP_SLAB_CAPACITY :: nat where "MTPNDD_DEFAULT_EDGE_MAP_SLAB_CAPACITY = 2048"

definition mtpndd_is_initialized :: "mstate \<Rightarrow> bool" where
  "mtpndd_is_initialized s \<longleftrightarrow>
     (let cfg = g_pal_config s
      in 0 < lace_dqsize cfg \<or> 0 < bdd_nodetable_size cfg \<or> 0 < mtpndd_nodetable_size cfg
         \<or> 0 < op_cache_size cfg \<or> 0 < field_count s)"

definition or_default :: "nat \<Rightarrow> nat \<Rightarrow> nat" where
  "or_default d n = (if n = 0 then d else n)"

definition mtpndd_apply_pal_config_defaults :: "mstate \<Rightarrow> mstate" where
  "mtpndd_apply_pal_config_defaults s =
     (let cfg = g_pal_config s
      in s\<lparr>g_pal_config := cfg
         \<lparr>edge_bucket_count := or_default MTPNDD_DEFAULT_EDGE_BUCKET_COUNT (edge_bucket_count cfg),
          nodetable_bucket_count_cfg :=
            or_default MTPNDD_DEFAULT_NODETABLE_BUCKET_COUNT (nodetable_bucket_count_cfg cfg),
          node_slab_capacity := or_default MTPNDD_DEFAULT_NODE_SLAB_CAPACITY (node_slab_capacity cfg),
          edge_entry_slab_capacity :=
            or_default MTPNDD_DEFAULT_EDGE_ENTRY_SLAB_CAPACITY (edge_entry_slab_capacity cfg),
          nodetable_entry_slab_capacity :=
            or_default MTPNDD_DEFAULT_NODETABLE_ENTRY_SLAB_CAPACITY (nodetable_entry_slab_capacity cfg),
          edge_map_slab_capacity :=
            or_default MTPNDD_DEFAULT_EDGE_MAP_SLAB_CAPACITY (edge_map_slab_capacity cfg)\<rparr>\<rparr>)"

definition return_error :: "mtpndd_error \<Rightarrow> string \<Rightarrow> nat \<Rightarrow> mstate \<Rightarrow> mtpndd_error \<times> mstate" where
  "return_error e fn line s = (e, mtpndd_set_error e fn line s)"

section \<open>Initialisation\<close>

text \<open>
  The stack of the calling thread is \<open>temp_refs_pool\<close>; the runtime's array of stacks replaces it
  when the thread is a worker.  A stack is 280 bytes.
\<close>

definition mtpndd_temp_refs_runtime_init :: "mstate \<Rightarrow> mtpndd_error \<times> mstate" where
  "mtpndd_temp_refs_runtime_init s =
     (if temp_ref_pool_count s \<noteq> 0 then (MTPNDD_SUCCESS, s)
      else let worker_count = (if lace_workers s = 0 then 1 else lace_workers s);
               (p, s) = malloc (worker_count * 280) s
           in if p = NULL
              then return_error MTPNDD_ERROR_OUT_OF_MEMORY ''mtpndd_temp_refs_runtime_init'' 2860 s
              else (MTPNDD_SUCCESS,
                    s\<lparr>temp_ref_pool_count := worker_count,
                      temp_refs_pool :=
                        (if 0 \<le> cur_worker s \<and> nat (cur_worker s) < worker_count
                         then mtpndd_temp_ref_pool_init else temp_refs_pool s)\<rparr>))"

definition mtpndd_lace_init :: "(int \<Rightarrow> nat \<Rightarrow> nat) \<Rightarrow> mstate \<Rightarrow> bool \<times> mstate" where
  "mtpndd_lace_init lace_start s =
     (let cfg = g_pal_config s
      in (True, s\<lparr>lace_workers := lace_start (n_workers cfg) (lace_dqsize cfg),
                  syl_log := SylInit # SylSizes (bdd_nodetable_size cfg) (bdd_nodetable_size cfg)
                               (op_cache_size cfg) (op_cache_size cfg) # syl_log s\<rparr>))"

text \<open>\<open>MTPNDD_TRUE\<close> and \<open>MTPNDD_FALSE\<close> are static variables: they always exist.\<close>

definition init_static_leaf :: "ptr \<Rightarrow> 64 word \<Rightarrow> mstate \<Rightarrow> mstate option" where
  "init_static_leaf p v s = do {
     let s = s\<lparr>nodes := (nodes s)(p \<mapsto> \<lparr>ref_count = 0, field_id = MTPNDD_FRACTION_LEAF_FIELD_ID,
                                        body = NLeaf v\<rparr>)\<rparr>;
     (_, s) \<leftarrow> mtpndd_protect p s;
     Some s
   }"

text \<open>\<open>memset(&g_mtpndd_config, 0, ...)\<close> and the assignments of constants after it.\<close>

definition clear_config :: "mstate \<Rightarrow> mstate" where
  "clear_config s =
     s\<lparr>field_count := 0, field_capacity := DEFAULT_FIELD_CAPACITY, field_infos := Map.empty,
       node_tables_by_field := Map.empty, and_cache := None, or_cache := None, not_cache := None,
       leaf_table := None, double_leaf_table := None, pending_field_count := 0,
       pending_field_capacity := 0, pending_field_bit_widths := [], max_bit_width := 0,
       fields_generated := False, shared_bdd_vars := [], shared_bdd_not_vars := []\<rparr>"

definition alloc_config :: "mstate \<Rightarrow> mtpndd_error \<times> mstate" where
  "alloc_config s =
     (let (p, s) = malloc (DEFAULT_FIELD_CAPACITY * 8) s
      in if p = NULL then return_error MTPNDD_ERROR_OUT_OF_MEMORY ''mtpndd_init'' 621 s
         else let (q, s) = malloc (DEFAULT_FIELD_CAPACITY * 8) s
              in if q = NULL then return_error MTPNDD_ERROR_OUT_OF_MEMORY ''mtpndd_init'' 629 s
                 else let s = s\<lparr>pending_field_capacity := DEFAULT_FIELD_CAPACITY\<rparr>;
                          (r, s) = malloc (DEFAULT_FIELD_CAPACITY * 4) s
                      in if r = NULL then return_error MTPNDD_ERROR_OUT_OF_MEMORY ''mtpndd_init'' 641 s
                         else (MTPNDD_SUCCESS,
                               s\<lparr>pending_field_bit_widths := replicate DEFAULT_FIELD_CAPACITY 0\<rparr>))"

text \<open>The two leaf tables and the leaves TRUE and FALSE in the first.\<close>

definition init_leaf_tables :: "mstate \<Rightarrow> (mtpndd_error \<times> mstate) option" where
  "init_leaf_tables s =
     (let (t, s) = mtpndd_leaf_table_create 0 s; s = s\<lparr>leaf_table := t\<rparr>
      in if t = None then Some (return_error MTPNDD_ERROR_INITIALIZE_FAILED ''mtpndd_init'' 670 s)
         else let (u, s) = mtpndd_leaf_table_create 0 s; s = s\<lparr>double_leaf_table := u\<rparr>
              in if u = None then Some (return_error MTPNDD_ERROR_INITIALIZE_FAILED ''mtpndd_init'' 674 s)
                 else do {
                   (st, t, s) \<leftarrow> mtpndd_leaf_table_insert_sentinel t (mtpndd_pack_fraction 0 1) MTPNDD_FALSE s;
                   let s = s\<lparr>leaf_table := t\<rparr>;
                   if st \<noteq> MTPNDD_SUCCESS
                   then Some (return_error MTPNDD_ERROR_INITIALIZE_FAILED ''mtpndd_init'' 679 s)
                   else do {
                     (st, t, s) \<leftarrow> mtpndd_leaf_table_insert_sentinel t (mtpndd_pack_fraction 1 1) MTPNDD_TRUE s;
                     let s = s\<lparr>leaf_table := t\<rparr>;
                     if st \<noteq> MTPNDD_SUCCESS
                     then Some (return_error MTPNDD_ERROR_INITIALIZE_FAILED ''mtpndd_init'' 684 s)
                     else Some (MTPNDD_SUCCESS, s)
                   }
                 })"

definition config_ok :: "pal_config \<Rightarrow> bool" where
  "config_ok config \<longleftrightarrow> 0 \<le> n_workers config \<and> 0 < lace_dqsize config \<and> 0 < bdd_nodetable_size config
     \<and> 0 < mtpndd_nodetable_size config \<and> 0 < op_cache_size config"

text \<open>The hooks the library registers for its own collection only write the log: hooks 1 and 2.\<close>

definition attach_hooks :: "mstate \<Rightarrow> mstate" where
  "attach_hooks s = mtpndd_gc_hook_postgc 2 (mtpndd_gc_hook_pregc 1 (s\<lparr>syl_log := SylHooks # syl_log s\<rparr>))"

definition mtpndd_init ::
  "(int \<Rightarrow> nat \<Rightarrow> nat) \<Rightarrow> pal_config option \<Rightarrow> mstate \<Rightarrow> (mtpndd_error \<times> mstate) option" where
  "mtpndd_init lace_start config s =
     (if mtpndd_is_initialized s
      then Some (return_error MTPNDD_ERROR_IS_INITIALIZED ''mtpndd_init'' 575 s)
      else case config of
        None \<Rightarrow> Some (return_error MTPNDD_ERROR_INVALID_PARAM ''mtpndd_init'' 584 s)
      | Some config \<Rightarrow>
          if \<not> config_ok config
          then Some (return_error MTPNDD_ERROR_INVALID_PARAM ''mtpndd_init'' 584 s)
          else do {
            let s = mtpndd_apply_pal_config_defaults
                  (s\<lparr>g_pal_config := config
                     \<lparr>quick_growth_threshold :=
                        (if 0 \<le> quick_growth_threshold config then quick_growth_threshold config
                         else DEFAULT_QUICK_GROWTH_THRESHOLD)\<rparr>\<rparr>);
            s \<leftarrow> init_static_leaf MTPNDD_TRUE (mtpndd_pack_fraction 1 1) s;
            s \<leftarrow> init_static_leaf MTPNDD_FALSE (mtpndd_pack_fraction 0 1) s;
            let (st, s) = alloc_config (clear_config s);
            if st \<noteq> MTPNDD_SUCCESS then Some (st, s)
            else let (ok, s) = mtpndd_lace_init lace_start s
              in if \<not> ok then Some (return_error MTPNDD_ERROR_PARALLEL_INIT ''mtpndd_init'' 650 s)
              else let (st, s) = mtpndd_temp_refs_runtime_init s
                in if st \<noteq> MTPNDD_SUCCESS
                then Some (return_error MTPNDD_ERROR_OUT_OF_MEMORY ''mtpndd_init'' 653 s)
                else let (ok, s) = mtpndd_op_cache_initialize (op_cache_size config) s
                  in if \<not> ok then Some (return_error MTPNDD_ERROR_INITIALIZE_FAILED ''mtpndd_init'' 660 s)
                  else do {
                    (st, s) \<leftarrow> init_leaf_tables (mtpndd_memory_pools_init s);
                    if st \<noteq> MTPNDD_SUCCESS then Some (st, s)
                    else Some (MTPNDD_SUCCESS, (attach_hooks s)\<lparr>g_node_count := 0\<rparr>)
                  }
          })"

section \<open>Fields\<close>

definition mtpndd_declare_field :: "nat \<Rightarrow> mstate \<Rightarrow> (mtpndd_error \<times> mstate) option" where
  "mtpndd_declare_field bit_width s =
     (if \<not> mtpndd_is_initialized s
      then Some (return_error MTPNDD_ERROR_NOT_INITIALIZED ''mtpndd_declare_field'' 228 s)
      else if bit_width = 0
      then Some (return_error MTPNDD_ERROR_INVALID_PARAM ''mtpndd_declare_field'' 229 s)
      else if fields_generated s
      then Some (return_error MTPNDD_ERROR_INVALID_PARAM ''mtpndd_declare_field'' 231 s)
      else do {
        let n = (pending_field_count s + 1) mod 2 ^ 32;
        let s = s\<lparr>pending_field_count := n\<rparr>;
        let old_capacity = pending_field_capacity s;
        let new_capacity = (if old_capacity \<noteq> 0 then old_capacity * 2 mod 2 ^ 32 else DEFAULT_FIELD_CAPACITY);
        let new_capacity = (if new_capacity \<le> n then (n + 1) mod 2 ^ 32 else new_capacity);
        let (p, s) = (if old_capacity \<le> n then malloc (new_capacity * 4) s else (1, s));
        if p = NULL then Some (return_error MTPNDD_ERROR_OUT_OF_MEMORY ''mtpndd_declare_field'' 246 s)
        else do {
          let s = (if old_capacity \<le> n
                   then s\<lparr>pending_field_bit_widths :=
                            take new_capacity (pending_field_bit_widths s
                              @ replicate (new_capacity - old_capacity) 0),
                          pending_field_capacity := new_capacity\<rparr>
                   else s);
          _ \<leftarrow> guard_opt (n \<noteq> 0 \<and> n - 1 < length (pending_field_bit_widths s));
          Some (MTPNDD_SUCCESS,
                s\<lparr>pending_field_bit_widths := (pending_field_bit_widths s)[n - 1 := bit_width]\<rparr>)
        }
      })"

text \<open>
  One variable node: the node of the field with the single edge \<open>label\<close> to TRUE, protected.  \<open>lines\<close>
  are the source lines of the four error returns.  The second component of the result is the node.
\<close>

definition make_var_node ::
  "sylvan \<Rightarrow> nat \<Rightarrow> bdd \<Rightarrow> nat \<times> nat \<times> nat \<Rightarrow> mstate \<Rightarrow> (((mtpndd_error \<times> nat) + ptr) \<times> mstate) option" where
  "make_var_node S field label lines s =
     (case (lines, mtpndd_memory_acquire_edge_map s) of
        ((l1, l2, l3), (None, s)) \<Rightarrow> Some (Inl (MTPNDD_ERROR_OUT_OF_MEMORY, l1), s)
      | ((l1, l2, l3), (Some edges, s)) \<Rightarrow> do {
          edges \<leftarrow> mtpndd_edge_map_init s edges;
          (err, edges, s) \<leftarrow> mtpndd_add_edge S edges MTPNDD_TRUE label (sylvan_ref label s);
          if err \<noteq> MTPNDD_SUCCESS
          then do { s \<leftarrow> mtpndd_edge_map_free edges s; Some (Inl (err, l2), s) }
          else do {
            (node, s) \<leftarrow> mtpndd_mk S field edges s;
            if node = NULL
            then do {
              s \<leftarrow> mtpndd_edge_map_free edges s;
              Some (Inl (ei_code (mtpndd_get_last_error s), l3), s)
            }
            else do { (_, s) \<leftarrow> mtpndd_protect node s; Some (Inr node, s) }
          }
        })"

text \<open>
  \<open>FREE_MTPNDD_VARS_WITH_NODES\<close>: the edge maps go back to the pool, the nodes stay where they are with a
  dangling pointer, which is a union word with no edge map behind it.
\<close>

definition free_var_edges :: "ptr \<Rightarrow> mstate \<Rightarrow> mstate option" where
  "free_var_edges p s = do {
     nd \<leftarrow> nodes s p;
     m \<leftarrow> node_edges s p;
     s \<leftarrow> mtpndd_edge_map_free m s;
     Some (s\<lparr>nodes := (nodes s)(p \<mapsto> nd\<lparr>body := NLeaf (word_of_nat (em_addr m))\<rparr>)\<rparr>)
   }"

text \<open>The loop over the bits of a field; the error branch frees what was made so far, pair by pair.\<close>

fun interleave :: "'a list \<Rightarrow> 'a list \<Rightarrow> 'a list" where
  "interleave (x # xs) (y # ys) = x # y # interleave xs ys"
| "interleave xs [] = xs"
| "interleave [] ys = ys"

fun make_vars ::
  "sylvan \<Rightarrow> nat \<Rightarrow> (bdd \<times> bdd) list \<Rightarrow> ptr list \<Rightarrow> ptr list \<Rightarrow> mstate
   \<Rightarrow> ((mtpndd_error + ptr list \<times> ptr list) \<times> mstate) option" where
  "make_vars S field [] vars not_vars s = Some (Inr (vars, not_vars), s)"
| "make_vars S field ((v, nv) # ls) vars not_vars s = do {
     (r, s) \<leftarrow> make_var_node S field v (402, 410, 417) s;
     case r of
       Inl (err, line) \<Rightarrow> do {
         s \<leftarrow> iter_state free_var_edges (interleave vars not_vars) s;
         Some (Inl err, mtpndd_set_error err ''mtpndd_generate_fields'' line s)
       }
     | Inr node_var \<Rightarrow> do {
         (r, s) \<leftarrow> make_var_node S field nv (429, 437, 444) s;
         case r of
           Inl (err, line) \<Rightarrow> do {
             s \<leftarrow> iter_state free_var_edges (interleave (vars @ [node_var]) not_vars) s;
             Some (Inl err, mtpndd_set_error err ''mtpndd_generate_fields'' line s)
           }
         | Inr node_not \<Rightarrow> make_vars S field ls (vars @ [node_var]) (not_vars @ [node_not]) s
       }
   }"

text \<open>
  One field: its record, its table, the arrays of labels and of nodes.  \<open>Inl\<close> is an early return of
  \<open>mtpndd_generate_fields\<close>.
\<close>

definition out_of_memory :: "nat \<Rightarrow> mstate \<Rightarrow> ((mtpndd_error + 'a) \<times> mstate) option" where
  "out_of_memory line s =
     Some (Inl MTPNDD_ERROR_OUT_OF_MEMORY,
           mtpndd_set_error MTPNDD_ERROR_OUT_OF_MEMORY ''mtpndd_generate_fields'' line s)"

definition generate_field :: "sylvan \<Rightarrow> nat \<Rightarrow> nat \<Rightarrow> mstate \<Rightarrow> ((mtpndd_error + unit) \<times> mstate) option" where
  "generate_field S field bit_width s = do {
     let offset = max_bit_width s - bit_width;
     let (p, s) = malloc 48 s;
     if p = NULL then out_of_memory 337 s
     else case mtpndd_nodetable_declare_field s of
       (None, s) \<Rightarrow> out_of_memory 347 s
     | (Some t, s) \<Rightarrow> do {
         _ \<leftarrow> guard_opt (field < field_capacity s);
         let s = set_table field t s;
         let (p, s) = malloc (bit_width * 8) s;
         let (q, s) = malloc (bit_width * 8) s;
         if p = NULL \<or> q = NULL then out_of_memory 377 s
         else do {
           _ \<leftarrow> guard_opt (offset + bit_width \<le> length (shared_bdd_vars s)
                 \<and> offset + bit_width \<le> length (shared_bdd_not_vars s));
           let bdd_vars = take bit_width (drop offset (shared_bdd_vars s));
           let bdd_not_vars = take bit_width (drop offset (shared_bdd_not_vars s));
           let (p, s) = malloc (bit_width * 8) s;
           let (q, s) = malloc (bit_width * 8) s;
           if p = NULL \<or> q = NULL then out_of_memory 392 s
           else do {
             (r, s) \<leftarrow> make_vars S field (zip bdd_vars bdd_not_vars) [] [] s;
             case r of
               Inl err \<Rightarrow> Some (Inl err, s)
             | Inr (vars, not_vars) \<Rightarrow>
                 Some (Inr (), s\<lparr>field_infos := (field_infos s)(field \<mapsto>
                   \<lparr>fi_field_id = field, fi_bit_width = bit_width, fi_start_var = offset,
                    fi_bdd_vars = bdd_vars, fi_bdd_not_vars = bdd_not_vars,
                    fi_mtpndd_vars = vars, fi_mtpndd_not_vars = not_vars\<rparr>)\<rparr>)
           }
         }
       }
   }"

fun generate_loop :: "sylvan \<Rightarrow> (nat \<times> nat) list \<Rightarrow> mstate \<Rightarrow> ((mtpndd_error + unit) \<times> mstate) option" where
  "generate_loop S [] s = Some (Inr (), s)"
| "generate_loop S ((field, w) # fs) s = do {
     (r, s) \<leftarrow> generate_field S field w s;
     case r of Inl err \<Rightarrow> Some (Inl err, s) | Inr _ \<Rightarrow> generate_loop S fs s
   }"

text \<open>The one-time growth of the arrays indexed by fields.\<close>

definition grow_field_arrays :: "mstate \<Rightarrow> mtpndd_error \<times> mstate" where
  "grow_field_arrays s =
     (let required = (pending_field_count s + 1) mod 2 ^ 32
      in if required \<le> field_capacity s then (MTPNDD_SUCCESS, s)
         else let (p, s) = malloc (required * 8) s
              in if p = NULL
                 then return_error MTPNDD_ERROR_OUT_OF_MEMORY ''mtpndd_generate_fields'' 279 s
                 else let (q, s) = malloc (required * 8) s
                      in if q = NULL
                         then return_error MTPNDD_ERROR_OUT_OF_MEMORY ''mtpndd_generate_fields'' 290 s
                         else (MTPNDD_SUCCESS, s\<lparr>field_capacity := required\<rparr>))"

text \<open>The shared BDD variables and their negations, protected one pair after the other.\<close>

definition make_shared_vars :: "sylvan \<Rightarrow> nat \<Rightarrow> mstate \<Rightarrow> mtpndd_error \<times> mstate" where
  "make_shared_vars S max_width s =
     (let s = s\<lparr>max_bit_width := max_width\<rparr>;
          (p, s) = malloc (max_width * 8) s;
          (q, s) = malloc (max_width * 8) s
      in if p = NULL \<or> q = NULL
         then return_error MTPNDD_ERROR_OUT_OF_MEMORY ''mtpndd_generate_fields'' 318 s
         else let vars = map (sylvan_ithvar S) [0..<max_width];
                  not_vars = map (sylvan_not S) vars
              in (MTPNDD_SUCCESS,
                  s\<lparr>shared_bdd_vars := vars, shared_bdd_not_vars := not_vars,
                    syl_log := rev (map SylProtect (interleave vars not_vars)) @ syl_log s\<rparr>))"

definition mtpndd_generate_fields :: "sylvan \<Rightarrow> mstate \<Rightarrow> (mtpndd_error \<times> mstate) option" where
  "mtpndd_generate_fields S s =
     (if \<not> mtpndd_is_initialized s
      then Some (return_error MTPNDD_ERROR_NOT_INITIALIZED ''mtpndd_generate_fields'' 261 s)
      else if fields_generated s
      then Some (return_error MTPNDD_ERROR_INVALID_PARAM ''mtpndd_generate_fields'' 263 s)
      else if pending_field_count s = 0
      then Some (return_error MTPNDD_ERROR_INVALID_PARAM ''mtpndd_generate_fields'' 266 s)
      else let (st, s) = grow_field_arrays s
           in if st \<noteq> MTPNDD_SUCCESS then Some (st, s)
           else do {
             _ \<leftarrow> guard_opt (pending_field_count s \<le> length (pending_field_bit_widths s));
             let widths = take (pending_field_count s) (pending_field_bit_widths s);
             let (st, s) = make_shared_vars S (fold max widths 0) s;
             if st \<noteq> MTPNDD_SUCCESS then Some (st, s)
             else do {
               let s = s\<lparr>field_count := pending_field_count s\<rparr>;
               (r, s) \<leftarrow> generate_loop S (enumerate 1 widths) s;
               case r of
                 Inl err \<Rightarrow> Some (err, s)
               | Inr _ \<Rightarrow> Some (MTPNDD_SUCCESS, s\<lparr>fields_generated := True\<rparr>)
             }
           })"

section \<open>Accessors\<close>

text \<open>\<open>field_info[field]\<close> is inside the array, since the index is at most the number of fields.\<close>

definition mtpndd_get_field_info :: "nat \<Rightarrow> mstate \<Rightarrow> field_info option \<times> mstate" where
  "mtpndd_get_field_info field s =
     (if \<not> mtpndd_is_initialized s
      then (None, mtpndd_set_error MTPNDD_ERROR_NOT_INITIALIZED ''mtpndd_get_field_info'' 215 s)
      else if field = 0 \<or> field_count s < field
      then (None, mtpndd_set_error MTPNDD_ERROR_INVALID_FIELD ''mtpndd_get_field_info'' 219 s)
      else (field_infos s field, s))"

text \<open>
  The four accessors of a variable differ in the array they read, the function name and the lines
  of the three errors.
\<close>

definition get_field_var ::
  "(field_info \<Rightarrow> 'a list) \<Rightarrow> 'a \<Rightarrow> string \<Rightarrow> nat \<times> nat \<times> nat \<Rightarrow> nat \<Rightarrow> nat \<Rightarrow> mstate \<Rightarrow> ('a \<times> mstate) option" where
  "get_field_var arr none fn lines field i s =
     (case lines of (l1, l2, l3) \<Rightarrow>
        if \<not> mtpndd_is_initialized s then Some (none, mtpndd_set_error MTPNDD_ERROR_NOT_INITIALIZED fn l1 s)
        else if field = 0 \<or> field_count s < field
        then Some (none, mtpndd_set_error MTPNDD_ERROR_INVALID_FIELD fn l2 s)
        else case field_infos s field of
          None \<Rightarrow> Some (none, mtpndd_set_error MTPNDD_ERROR_INVALID_PARAM fn l3 s)
        | Some fi \<Rightarrow>
            if fi_bit_width fi \<le> i then Some (none, mtpndd_set_error MTPNDD_ERROR_INVALID_PARAM fn l3 s)
            else if i < length (arr fi) then Some (arr fi ! i, s) else None)"

definition mtpndd_get_var :: "nat \<Rightarrow> nat \<Rightarrow> mstate \<Rightarrow> (ptr \<times> mstate) option" where
  "mtpndd_get_var = get_field_var fi_mtpndd_vars NULL ''mtpndd_get_var'' (467, 471, 476)"

definition mtpndd_get_not_var :: "nat \<Rightarrow> nat \<Rightarrow> mstate \<Rightarrow> (ptr \<times> mstate) option" where
  "mtpndd_get_not_var = get_field_var fi_mtpndd_not_vars NULL ''mtpndd_get_not_var'' (485, 489, 494)"

definition mtpndd_get_bdd_var :: "nat \<Rightarrow> nat \<Rightarrow> mstate \<Rightarrow> (bdd \<times> mstate) option" where
  "mtpndd_get_bdd_var = get_field_var fi_bdd_vars 0 ''mtpndd_get_bdd_var'' (503, 507, 512)"

definition mtpndd_get_bdd_not_var :: "nat \<Rightarrow> nat \<Rightarrow> mstate \<Rightarrow> (bdd \<times> mstate) option" where
  "mtpndd_get_bdd_not_var = get_field_var fi_bdd_not_vars 0 ''mtpndd_get_bdd_not_var'' (521, 525, 530)"

section \<open>Shutdown\<close>

definition mtpndd_temp_refs_runtime_shutdown :: "mstate \<Rightarrow> mstate option" where
  "mtpndd_temp_refs_runtime_shutdown s = do {
     s \<leftarrow> temp_refs_pop (length (tr_items (temp_refs_pool s))) s;
     Some (s\<lparr>temp_ref_pool_count := 0, temp_refs_pool := mtpndd_temp_ref_pool_init\<rparr>)
   }"

definition free_var_node :: "ptr \<Rightarrow> mstate \<Rightarrow> mstate option" where
  "free_var_node p s =
     (if p = NULL then Some s
      else do {
        m \<leftarrow> node_edges s p;
        s \<leftarrow> mtpndd_edge_map_free m s;
        Some (mtpndd_memory_release_node p s)
      })"

definition mtpndd_field_info_free :: "field_info \<Rightarrow> mstate \<Rightarrow> mstate option" where
  "mtpndd_field_info_free fi s = do {
     s \<leftarrow> iter_state free_var_node (take (fi_bit_width fi) (fi_mtpndd_vars fi)) s;
     iter_state free_var_node (take (fi_bit_width fi) (fi_mtpndd_not_vars fi)) s
   }"

definition free_field :: "nat \<Rightarrow> mstate \<Rightarrow> mstate option" where
  "free_field field s = do {
     s \<leftarrow> (case field_infos s field of None \<Rightarrow> Some s | Some fi \<Rightarrow> mtpndd_field_info_free fi s);
     let s = s\<lparr>field_infos := (field_infos s)(field := None)\<rparr>;
     Some (case node_tables_by_field s field of None \<Rightarrow> s | Some t \<Rightarrow> mtpndd_nodetable_free field s)
   }"

definition mtpndd_quit :: "mstate \<Rightarrow> (mtpndd_error \<times> mstate) option" where
  "mtpndd_quit s =
     (if \<not> mtpndd_is_initialized s
      then Some (return_error MTPNDD_ERROR_NOT_INITIALIZED ''mtpndd_quit'' 796 s)
      else do {
        s \<leftarrow> mtpndd_temp_refs_runtime_shutdown s;
        s \<leftarrow> iter_state free_field [1..<Suc (field_count s)] s;
        let s = s\<lparr>field_infos := Map.empty, node_tables_by_field := Map.empty, field_count := 0,
                  field_capacity := 0,
                  syl_log := rev (map SylUnprotect (shared_bdd_vars s @ shared_bdd_not_vars s)) @ syl_log s,
                  shared_bdd_vars := [], shared_bdd_not_vars := [], max_bit_width := 0,
                  pending_field_bit_widths := [], pending_field_count := 0, pending_field_capacity := 0,
                  fields_generated := False\<rparr>;
        let s = (mtpndd_leaf_table_free (leaf_table s) s)\<lparr>leaf_table := None\<rparr>;
        let s = (mtpndd_leaf_table_free (double_leaf_table s) s)\<lparr>double_leaf_table := None\<rparr>;
        let s = mtpndd_memory_pools_shutdown (mtpndd_op_cache_destroy s);
        let s = s\<lparr>syl_log := SylQuit # syl_log s,
                  g_pal_config :=
                    \<lparr>n_workers = 0, lace_dqsize = 0, bdd_nodetable_size = 0, mtpndd_nodetable_size = 0,
                     op_cache_size = 0, quick_growth_threshold = 0, edge_bucket_count = 0,
                     nodetable_bucket_count_cfg = 0, node_slab_capacity = 0, edge_entry_slab_capacity = 0,
                     nodetable_entry_slab_capacity = 0, edge_map_slab_capacity = 0\<rparr>,
                  g_node_count := 0\<rparr>;
        Some (MTPNDD_SUCCESS, mtpndd_clear_error s)
      })"

end
