(* ===== verification/Setup_Frame.thy ===== *)
theory Setup_Frame
  imports Engine
begin

text \<open>
  The record of the fields and of the shared variables is written by declaration and generation of
  fields only, the stack of temporary references by the operations only: \<open>mtpndd_mk\<close>, with the
  collection it may run, and everything below it keep \<open>fsetup\<close>.
\<close>

definition fsetup ::
  "mstate \<Rightarrow> nat \<times> (nat \<rightharpoonup> field_info) \<times> nat \<times> bool \<times> nat \<times> bdd list \<times> bdd list \<times> nat \<times> nat list \<times> nat
   \<times> temp_ref_pool" where
  "fsetup s = (field_count s, field_infos s, field_capacity s, fields_generated s, max_bit_width s, shared_bdd_vars s,
     shared_bdd_not_vars s, pending_field_count s, pending_field_bit_widths s, pending_field_capacity s,
     temp_refs_pool s)"

section \<open>Memory, errors, reference counts\<close>

lemma quiet_setup: "quiet s s' \<Longrightarrow> fsetup s' = fsetup s"
  by (cases s; cases s') (simp add: quiet_def fsetup_def)

lemma log_setup [simp]: "fsetup (sylvan_ref l s) = fsetup s" "fsetup (sylvan_deref l s) = fsetup s" "fsetup (sylvan_gc s) = fsetup s"
  "fsetup (mtpndd_set_error e f n s) = fsetup s"
  by (simp_all add: fsetup_def sylvan_ref_def sylvan_deref_def sylvan_gc_def mtpndd_set_error_def)

lemma release_setup [simp]:
  "fsetup (mtpndd_memory_release_node p s) = fsetup s" "fsetup (mtpndd_memory_release_nodetable_entry p s) = fsetup s"
  "fsetup (mtpndd_memory_release_edge_entry p s) = fsetup s" "fsetup (mtpndd_memory_release_edge_map m s) = fsetup s"
  by (simp_all add: fsetup_def mtpndd_memory_release_node_def mtpndd_memory_release_nodetable_entry_def
      mtpndd_memory_release_edge_entry_def mtpndd_memory_release_edge_map_def)

lemma set_table_setup [simp]: "fsetup (set_table f t s) = fsetup s"
  by (simp add: fsetup_def set_table_def)

lemma malloc_setup: "malloc n s = (p, s') \<Longrightarrow> fsetup s' = fsetup s"
  by (rule quiet_setup[OF malloc_quiet])

lemma acquire_setup:
  "fsetup (snd (mtpndd_memory_acquire_node s)) = fsetup s"
  "fsetup (snd (mtpndd_memory_acquire_nodetable_entry s)) = fsetup s"
  by (auto simp: mtpndd_memory_acquire_node_def mtpndd_memory_acquire_nodetable_entry_def Let_def fsetup_def
      mtpndd_set_error_def split: prod.splits if_splits)

lemma set_ref_count_setup: "set_ref_count p c s = Some s' \<Longrightarrow> fsetup s' = fsetup s"
  by (auto simp: set_ref_count_def fsetup_def split: option.splits)

lemma ref_setup:
  "mtpndd_ref p s = Some (st, s') \<Longrightarrow> fsetup s' = fsetup s" "mtpndd_deref p s = Some (st, s') \<Longrightarrow> fsetup s' = fsetup s"
  "mtpndd_protect p s = Some (st, s') \<Longrightarrow> fsetup s' = fsetup s"
  by (auto simp: mtpndd_ref_def mtpndd_deref_def mtpndd_protect_def Option.bind_eq_Some_conv dest: set_ref_count_setup
      split: if_splits)

lemma ref_nonterminal_setup:
  "ref_nonterminal p s = Some s' \<Longrightarrow> fsetup s' = fsetup s" "deref_nonterminal p s = Some s' \<Longrightarrow> fsetup s' = fsetup s"
  "deref_child p s = Some s' \<Longrightarrow> fsetup s' = fsetup s"
  by (auto simp: ref_nonterminal_def deref_nonterminal_def deref_child_def Option.bind_eq_Some_conv dest: ref_setup
      split: if_splits)

lemma deref_edge_setup: "deref_edge e s = Some s' \<Longrightarrow> fsetup s' = fsetup s"
  by (auto simp: deref_edge_def Option.bind_eq_Some_conv dest: ref_nonterminal_setup)

lemma iter_state_setup:
  assumes "iter_state f xs s = Some s'" and "\<And>x s s'. f x s = Some s' \<Longrightarrow> fsetup s' = fsetup s"
  shows "fsetup s' = fsetup s"
  using assms(1) by (induction xs arbitrary: s) (auto simp: Option.bind_eq_Some_conv dest: assms(2))

lemma edge_map_free_setup: "mtpndd_edge_map_free m s = Some s' \<Longrightarrow> fsetup s' = fsetup s"
  by (auto simp: mtpndd_edge_map_free_def mtpndd_edge_map_reset_def release_entry_def Option.bind_eq_Some_conv
      dest!: iter_state_setup split: if_splits)

section \<open>Collection\<close>

lemma release_node_setup: "mtpndd_release_node f i e p s = Some s' \<Longrightarrow> fsetup s' = fsetup s"
  by (auto simp: mtpndd_release_node_def Option.bind_eq_Some_conv Let_def dest!: edge_map_free_setup
      iter_state_setup[OF _ ref_nonterminal_setup(3)] split: if_splits)

lemma sweep_chain_setup: "sweep_chain f i es (n, s) = Some (n', s') \<Longrightarrow> fsetup s' = fsetup s"
  by (induction es arbitrary: n s) (auto simp: Option.bind_eq_Some_conv dest!: release_node_setup split: if_splits)

lemma sweep_buckets_setup: "sweep_buckets f is (n, s) = Some (n', s') \<Longrightarrow> fsetup s' = fsetup s"
  by (induction "is" arbitrary: n s) (auto simp: Option.bind_eq_Some_conv dest!: sweep_chain_setup split: if_splits)

lemma sweep_fields_setup: "sweep_fields fs (n, s) = Some (n', s') \<Longrightarrow> fsetup s' = fsetup s"
  by (induction fs arbitrary: n s) (auto simp: Option.bind_eq_Some_conv dest!: sweep_buckets_setup split: option.splits)

lemma gc_sweep_setup: "mtpndd_gc_sweep s = Some (n, s') \<Longrightarrow> fsetup s' = fsetup s"
  unfolding mtpndd_gc_sweep_def by (rule sweep_fields_setup)

lemma release_nodes_setup: "fsetup (fold (\<lambda>e. mtpndd_memory_release_node (g e)) es s) = fsetup s"
  by (induction es arbitrary: s) simp_all

lemma sweep_opt_setup: "fsetup (snd (snd (sweep_opt t s))) = fsetup s"
  by (auto simp: sweep_opt_def mtpndd_leaf_table_sweep_unmarked_def Let_def release_nodes_setup split: option.splits)

lemma leaf_gc_setup: "mtpndd_leaf_gc s = Some (n, s') \<Longrightarrow> fsetup s' = fsetup s"
proof -
  have u: "fsetup (s\<lparr>leaf_table := a, double_leaf_table := b\<rparr>) = fsetup s" for s a b by (simp add: fsetup_def)
  assume "mtpndd_leaf_gc s = Some (n, s')"
  then show ?thesis
    by (auto simp: mtpndd_leaf_gc_def Option.bind_eq_Some_conv Let_def u case_prod_beta sweep_opt_setup split: if_splits)
qed

lemma hooks_setup [simp]: "fsetup (mtpndd_gc_run_prehooks s) = fsetup s" "fsetup (mtpndd_gc_run_posthooks s) = fsetup s"
  by (simp_all add: fsetup_def mtpndd_gc_run_prehooks_def mtpndd_gc_run_posthooks_def)

lemma flags_setup [simp]: "fsetup (s\<lparr>g_node_count := n\<rparr>) = fsetup s" "fsetup (s\<lparr>gc_running := b\<rparr>) = fsetup s"
  "fsetup (s\<lparr>g_pal_config := c\<rparr>) = fsetup s" "fsetup (s\<lparr>nodes := ns\<rparr>) = fsetup s"
  by (simp_all add: fsetup_def)

lemma gc_internal_setup: "gc_internal s = Some s' \<Longrightarrow> fsetup s' = fsetup s"
  by (auto simp: gc_internal_def Option.bind_eq_Some_conv Let_def dest!: gc_sweep_setup leaf_gc_setup split: if_splits)

lemma clear_caches_setup: "clear_caches s = Some s' \<Longrightarrow> fsetup s' = fsetup s"
  by (auto simp: clear_caches_def Option.bind_eq_Some_conv fsetup_def)

lemma sylvan_gc_setup: "sylvan_gc_with_hook s = Some s' \<Longrightarrow> fsetup s' = fsetup s"
  by (auto simp: sylvan_gc_with_hook_def mtpndd_gc_before_sylvan_def Option.bind_eq_Some_conv
      dest!: gc_internal_setup clear_caches_setup split: if_splits)

lemma rehash_setup: "mtpndd_nodetable_rehash t n s = Some (b, t', s') \<Longrightarrow> fsetup s' = fsetup s"
  by (auto simp: mtpndd_nodetable_rehash_def Let_def dest: malloc_setup split: if_splits prod.splits)

lemma maybe_rehash_setup: "mtpndd_nodetable_maybe_rehash f s = Some s' \<Longrightarrow> fsetup s' = fsetup s"
proof -
  assume m: "mtpndd_nodetable_maybe_rehash f s = Some s'"
  obtain t where t: "node_tables_by_field s f = Some t"
    using m unfolding mtpndd_nodetable_maybe_rehash_def Option.bind_eq_Some_conv by blast
  define n where "n = (if 0 < nodetable_bucket_count t then nodetable_bucket_count t * 2 else 16)"
  show ?thesis
  proof (cases "nt_load_threshold t \<le> nt_entry_count t")
    case True
    obtain ok t' s1 where r: "mtpndd_nodetable_rehash t n s = Some (ok, t', s1)"
      using m t True by (cases "mtpndd_nodetable_rehash t n s") (auto simp: mtpndd_nodetable_maybe_rehash_def n_def)
    then have "s' = (let s = set_table f t' s1 in if ok \<and> nodetable_bucket_count_cfg (g_pal_config s) < n
        then s\<lparr>g_pal_config := (g_pal_config s)\<lparr>nodetable_bucket_count_cfg := n\<rparr>\<rparr> else s)"
      using m t True by (simp add: mtpndd_nodetable_maybe_rehash_def Let_def split del: if_split flip: n_def)
    then show ?thesis using rehash_setup[OF r] by (simp add: Let_def)
  qed (use m t in \<open>simp add: mtpndd_nodetable_maybe_rehash_def\<close>)
qed

lemma grow_fields_setup: "grow_fields fs s = Some (b, s') \<Longrightarrow> fsetup s' = fsetup s"
proof (induction fs arbitrary: s)
  case (Cons f fs)
  show ?case
  proof (cases "node_tables_by_field s f")
    case (Some t)
    let ?n = "if nodetable_bucket_count t \<noteq> 0 then nodetable_bucket_count t * 2 else MTPNDD_DEFAULT_NODETABLE_BUCKET_COUNT"
    obtain ok t' s1 where r: "mtpndd_nodetable_rehash t ?n s = Some (ok, t', s1)"
      "(if ok then grow_fields fs (set_table f t' s1) else Some (False, set_table f t' s1)) = Some (b, s')"
      using Cons.prems Some by (cases "mtpndd_nodetable_rehash t ?n s") (simp_all add: Let_def, force)
    show ?thesis using Cons.IH[of "set_table f t' s1"] r(2) rehash_setup[OF r(1)] by (auto split: if_splits)
  qed (use Cons in simp)
qed simp

lemma grow_internal_setup: "grow_internal s = Some s' \<Longrightarrow> fsetup s' = fsetup s"
proof -
  assume g: "grow_internal s = Some s'"
  obtain ok s1 where r: "grow_fields [1..<Suc (field_count s)] s = Some (ok, s1)"
    using g by (cases "grow_fields [1..<Suc (field_count s)] s") (auto simp: grow_internal_def simp del: upt_Suc)
  then show ?thesis using g grow_fields_setup[OF r] by (auto simp: grow_internal_def Let_def simp del: upt_Suc split: if_splits)
qed

lemma gcOrGrow_setup: "gcOrGrow s = Some s' \<Longrightarrow> fsetup s' = fsetup s"
  by (auto simp: gcOrGrow_def Option.bind_eq_Some_conv
      dest!: gc_internal_setup grow_internal_setup clear_caches_setup sylvan_gc_setup split: if_splits)

section \<open>Creation of nodes\<close>

lemma mk_link_setup: "mk_link f m node addr s = Some (r, s') \<Longrightarrow> fsetup s' = fsetup s"
  by (auto simp: mk_link_def Let_def Option.bind_eq_Some_conv
      dest!: iter_state_setup[OF _ deref_edge_setup] maybe_rehash_setup split: option.splits)

lemma mk_new_setup: "mk_new f m s = Some (r, s') \<Longrightarrow> fsetup s' = fsetup s"
proof -
  assume k: "mk_new f m s = Some (r, s')"
  obtain es s1 where s1: "for_each_entry s m = Some es" "iter_state ref_nonterminal (map ee_child es) s = Some s1"
    using k unfolding mk_new_def Option.bind_eq_Some_conv by blast
  obtain s2 where s2: "(if mtpndd_nodetable_size (g_pal_config s1) \<le> g_node_count s1 then gcOrGrow s1 else Some s1) = Some s2"
    using k s1 unfolding mk_new_def by (auto simp: Option.bind_eq_Some_conv)
  obtain node s3 where s3: "mtpndd_memory_acquire_node s2 = (node, s3)" by fastforce
  let ?s3 = "s3\<lparr>nodes := (nodes s3)(node \<mapsto> \<lparr>ref_count = 0, field_id = f, body = NEdges m\<rparr>)\<rparr>"
  obtain addr s4 where s4: "mtpndd_memory_acquire_nodetable_entry ?s3 = (addr, s4)" by fastforce
  have "fsetup s2 = fsetup s"
    using s2 iter_state_setup[OF s1(2) ref_nonterminal_setup(1)] gcOrGrow_setup by (auto split: if_splits)
  then have e: "fsetup s3 = fsetup s" "fsetup s4 = fsetup s"
    using acquire_setup(1)[of s2] s3 acquire_setup(2)[of ?s3] s4 by simp_all
  have "mk_new f m s = (if node = NULL then Some (NULL, mtpndd_set_error MTPNDD_ERROR_OUT_OF_MEMORY ''mtpndd_mk'' 429 s3)
      else if addr = NULL then Some (NULL, mtpndd_set_error MTPNDD_ERROR_OUT_OF_MEMORY ''mtpndd_mk'' 445
        (mtpndd_memory_release_node node s4)) else mk_link f m node addr s4)"
    by (simp add: mk_new_def s1 s2 s3 s4)
  then show ?thesis using k e mk_link_setup[of f m node addr s4 r s'] by (simp split: if_splits)
qed

lemma deref_labels_setup [simp]: "fsetup (deref_labels es s) = fsetup s"
  unfolding deref_labels_def by (induction es arbitrary: s) simp_all

lemma mk_setup: "mtpndd_mk S f m s = Some (r, s') \<Longrightarrow> fsetup s' = fsetup s"
  by (auto simp: mtpndd_mk_def Let_def Option.bind_eq_Some_conv dest!: mk_new_setup split: if_splits)

section \<open>Variable nodes\<close>

lemma add_edge_setup: "mtpndd_add_edge S m c l s = Some (st, m', s') \<Longrightarrow> fsetup s' = fsetup s"
proof -
  have a: "fsetup (snd (mtpndd_memory_acquire_edge_entry s)) = fsetup s" for s
    by (rule quiet_setup[OF acquire_edge_entry_quiet[OF prod.collapse[symmetric]]])
  have r: "mtpndd_edge_map_rehash m n s = Some (b, m', s') \<Longrightarrow> fsetup s' = fsetup s" for m n s b m' s'
    by (auto simp: mtpndd_edge_map_rehash_def Let_def Option.bind_eq_Some_conv dest: malloc_setup split: if_splits prod.splits)
  have mr: "mtpndd_edge_map_maybe_rehash m s = Some (m', s') \<Longrightarrow> fsetup s' = fsetup s" for m s m' s'
    unfolding mtpndd_edge_map_maybe_rehash_def Let_def by (auto simp: Option.bind_eq_Some_conv dest!: r split: if_split_asm)
  assume "mtpndd_add_edge S m c l s = Some (st, m', s')"
  then show ?thesis
    by (auto simp: mtpndd_add_edge_def Let_def Option.bind_eq_Some_conv case_prod_beta a dest!: mr
        split: if_split_asm option.split_asm)
qed

lemma make_var_node_setup:
  assumes "make_var_node S f l lines s = Some (r, s')" shows "fsetup s' = fsetup s"
proof -
  obtain l1 l2 l3 where ls: "lines = (l1, l2, l3)" by (metis prod_cases3)
  obtain r1 s1 where a: "mtpndd_memory_acquire_edge_map s = (r1, s1)" by fastforce
  have "fsetup s1 = fsetup s" by (rule quiet_setup[OF acquire_edge_map_quiet[OF a]])
  then show ?thesis using assms a ls
    by (auto simp: make_var_node_def Option.bind_eq_Some_conv
        dest!: add_edge_setup edge_map_free_setup mk_setup ref_setup(3) split: option.split_asm if_split_asm)
qed

lemma free_var_edges_setup: "free_var_edges p s = Some s' \<Longrightarrow> fsetup s' = fsetup s"
  by (auto simp: free_var_edges_def Option.bind_eq_Some_conv dest!: edge_map_free_setup)

lemma make_vars_setup: "make_vars S f ls vars nots s = Some (r, s') \<Longrightarrow> fsetup s' = fsetup s"
proof (induction ls arbitrary: vars nots s)
  case (Cons x ls)
  obtain v nv where x: "x = (v, nv)" by fastforce
  obtain r1 s1 where r1: "make_var_node S f v (402, 410, 417) s = Some (r1, s1)"
    using Cons.prems x by (cases "make_var_node S f v (402, 410, 417) s") auto
  note e1 = make_var_node_setup[OF r1] and fr = iter_state_setup[OF _ free_var_edges_setup]
  show ?case
  proof (cases r1)
    case (Inl e)
    then show ?thesis using Cons.prems x r1 e1 by (cases e) (auto simp: Option.bind_eq_Some_conv dest!: fr)
  next
    case (Inr p)
    obtain r2 s2 where r2: "make_var_node S f nv (429, 437, 444) s1 = Some (r2, s2)"
      using Cons.prems x r1 Inr by (cases "make_var_node S f nv (429, 437, 444) s1") auto
    note e2 = make_var_node_setup[OF r2]
    show ?thesis using Cons.prems x r1 Inr r2 e1 e2 Cons.IH[of "vars @ [p]" _ s2]
      by (cases r2) (auto simp: Option.bind_eq_Some_conv dest!: fr)
  qed
qed simp

lemma declare_table_setup: "fsetup (snd (mtpndd_nodetable_declare_field s)) = fsetup s"
proof -
  have m: "fsetup (snd (case malloc n t of (p, u) \<Rightarrow> if p = NULL then (None, u) else k u)) = fsetup t"
    if "\<And>u. fsetup u = fsetup t \<Longrightarrow> fsetup (snd (k u)) = fsetup t" for n t and k :: "mstate \<Rightarrow> mtpndd_nodetable option \<times> mstate"
    using that malloc_setup[of n t] by (cases "malloc n t") simp
  show ?thesis unfolding mtpndd_nodetable_declare_field_def Let_def
    by (rule m, rule trans, rule m, rule trans, rule m) simp_all
qed

lemma out_of_memory_setup: "out_of_memory line s = Some (r, s') \<Longrightarrow> fsetup s' = fsetup s"
  by (auto simp: out_of_memory_def)

lemma generate_field_flag:
  assumes "generate_field S f w s = Some (r, s')" shows "fields_generated s' = fields_generated s"
proof -
  have g: "fsetup u = fsetup t \<Longrightarrow> fields_generated u = fields_generated t" for t u by (simp add: fsetup_def)
  obtain p1 s1 where m1: "malloc 48 s = (p1, s1)" by fastforce
  obtain t s2 where t: "mtpndd_nodetable_declare_field s1 = (t, s2)" by fastforce
  have e2: "fsetup s1 = fsetup s" "fsetup s2 = fsetup s"
    using malloc_setup[OF m1] declare_table_setup[of s1] t by simp_all
  show ?thesis
  proof (cases "p1 = NULL \<or> t = None")
    case True
    then have "generate_field S f w s = (if p1 = NULL then out_of_memory 337 s1 else out_of_memory 347 s2)"
      using m1 t by (auto simp: generate_field_def Let_def)
    then show ?thesis using assms e2 out_of_memory_setup[of _ s1 r s'] out_of_memory_setup[of _ s2 r s']
      by (intro g) (simp split: if_split_asm)
  next
    case False
    then obtain u where u: "t = Some u" by auto
    obtain p4 s4 where m4: "malloc (w * 8) (set_table f u s2) = (p4, s4)" by fastforce
    obtain p5 s5 where m5: "malloc (w * 8) s4 = (p5, s5)" by fastforce
    obtain p6 s6 where m6: "malloc (w * 8) s5 = (p6, s6)" by fastforce
    obtain p7 s7 where m7: "malloc (w * 8) s6 = (p7, s7)" by fastforce
    have e: "fsetup s5 = fsetup s" "fsetup s7 = fsetup s"
      using malloc_setup[OF m4] malloc_setup[OF m5] malloc_setup[OF m6] malloc_setup[OF m7] e2 by simp_all
    note g5 = g[OF e(1)] and g7 = g[OF e(2)]
    let ?o = "max_bit_width s - w"
    let ?ls = "zip (take w (drop ?o (shared_bdd_vars s5))) (take w (drop ?o (shared_bdd_not_vars s5)))"
    have k: "out_of_memory line v = Some (x :: mtpndd_error + unit, v') \<Longrightarrow> fields_generated v' = fields_generated v"
      for line v x v' by (rule g[OF out_of_memory_setup])
    show ?thesis
    proof (cases "p4 = NULL \<or> p5 = NULL \<or> p6 = NULL \<or> p7 = NULL")
      case True
      then have "out_of_memory 377 s5 = Some (r, s') \<or> out_of_memory 392 s7 = Some (r, s')"
        using assms m1 m4 m5 m6 m7 t u False
        by (auto simp: generate_field_def Let_def Option.bind_eq_Some_conv split: if_split_asm)
      then show ?thesis using k g5 g7 by auto
    next
      case ok: False
      obtain r1 s8 where v: "make_vars S f ?ls [] [] s7 = Some (r1, s8)"
        using assms m1 m4 m5 m6 m7 t u False ok
        by (cases "make_vars S f ?ls [] [] s7") (auto simp: generate_field_def Let_def Option.bind_eq_Some_conv)
      then have "fields_generated s' = fields_generated s8"
        using assms m1 m4 m5 m6 m7 t u False ok
        by (cases r1) (auto simp: generate_field_def Let_def Option.bind_eq_Some_conv)
      then show ?thesis using g[OF make_vars_setup[OF v]] g7 by simp
    qed
  qed
qed

lemma generate_loop_flag: "generate_loop S fs s = Some (r, s') \<Longrightarrow> fields_generated s' = fields_generated s"
proof (induction fs arbitrary: s)
  case (Cons x fs)
  obtain f w where x: "x = (f, w)" by fastforce
  obtain r1 s1 where r1: "generate_field S f w s = Some (r1, s1)" using Cons.prems x by (cases "generate_field S f w s") auto
  show ?case using Cons.prems x r1 generate_field_flag[OF r1] Cons.IH[of s1] by (cases r1) auto
qed simp

end
