(* ===== verification/Sylvan_Interface.thy ===== *)
theory Sylvan_Interface
  imports MTPNDD_State
begin

text \<open>
  What the library relies on from Sylvan, as the locale \<open>sylvan_laws\<close>: some handles are valid,
  valid handles denote Boolean functions of the BDD variables, the connectives compute the
  connectives of the denotations, and a function has one handle.  The interpretation
  \<open>tt\<close> discharges the laws for 64-bit truth tables over six variables, where a handle is the
  table itself; it is the instance the witnesses evaluate.
\<close>

type_synonym assignment = "nat \<Rightarrow> bool"

record bdd_model =
  bdd_ok :: "bdd \<Rightarrow> bool"
  bdd_sem :: "bdd \<Rightarrow> assignment \<Rightarrow> bool"

locale sylvan_laws =
  fixes S :: sylvan and M :: bdd_model
  assumes ok_false [simp]: "bdd_ok M (sylvan_false S)"
    and ok_true [simp]: "bdd_ok M (sylvan_true S)"
    and ok_and [simp]: "bdd_ok M a \<Longrightarrow> bdd_ok M b \<Longrightarrow> bdd_ok M (sylvan_and S a b)"
    and ok_or [simp]: "bdd_ok M a \<Longrightarrow> bdd_ok M b \<Longrightarrow> bdd_ok M (sylvan_or S a b)"
    and ok_not [simp]: "bdd_ok M a \<Longrightarrow> bdd_ok M (sylvan_not S a)"
    and sem_false [simp]: "\<not> bdd_sem M (sylvan_false S) v"
    and sem_true [simp]: "bdd_sem M (sylvan_true S) v"
    and sem_and [simp]: "bdd_ok M a \<Longrightarrow> bdd_ok M b \<Longrightarrow>
          bdd_sem M (sylvan_and S a b) v \<longleftrightarrow> bdd_sem M a v \<and> bdd_sem M b v"
    and sem_or [simp]: "bdd_ok M a \<Longrightarrow> bdd_ok M b \<Longrightarrow>
          bdd_sem M (sylvan_or S a b) v \<longleftrightarrow> bdd_sem M a v \<or> bdd_sem M b v"
    and sem_not [simp]: "bdd_ok M a \<Longrightarrow> bdd_sem M (sylvan_not S a) v \<longleftrightarrow> \<not> bdd_sem M a v"
    and canonical: "bdd_ok M a \<Longrightarrow> bdd_ok M b \<Longrightarrow> bdd_sem M a = bdd_sem M b \<Longrightarrow> a = b"
begin

lemma eq_false_iff: "bdd_ok M a \<Longrightarrow> a = sylvan_false S \<longleftrightarrow> (\<forall>v. \<not> bdd_sem M a v)"
  using canonical[of a "sylvan_false S"] by (auto simp: fun_eq_iff)

lemma eq_true_iff: "bdd_ok M a \<Longrightarrow> a = sylvan_true S \<longleftrightarrow> (\<forall>v. bdd_sem M a v)"
  using canonical[of a "sylvan_true S"] by (auto simp: fun_eq_iff)

lemma true_neq_false: "sylvan_true S \<noteq> sylvan_false S"
  by (metis sem_false sem_true)

lemma nonfalse_sat: "bdd_ok M a \<Longrightarrow> a \<noteq> sylvan_false S \<Longrightarrow> \<exists>v. bdd_sem M a v"
  using eq_false_iff by blast

lemma or_nonfalse:
  "bdd_ok M a \<Longrightarrow> bdd_ok M b \<Longrightarrow> b \<noteq> sylvan_false S \<Longrightarrow> sylvan_or S a b \<noteq> sylvan_false S"
  by (metis eq_false_iff ok_or sem_or)

end

text \<open>The variables: \<open>sylvan_ithvar\<close> below the number of variables the package supports.\<close>

locale sylvan_vars = sylvan_laws +
  fixes nvars :: nat
  assumes ok_ithvar [simp]: "i < nvars \<Longrightarrow> bdd_ok M (sylvan_ithvar S i)"
    and sem_ithvar [simp]: "i < nvars \<Longrightarrow> bdd_sem M (sylvan_ithvar S i) v \<longleftrightarrow> v i"
begin

lemma ithvar_proper:
  assumes "i < nvars"
  shows "sylvan_ithvar S i \<noteq> sylvan_false S" "sylvan_ithvar S i \<noteq> sylvan_true S"
    "sylvan_not S (sylvan_ithvar S i) \<noteq> sylvan_false S" "sylvan_not S (sylvan_ithvar S i) \<noteq> sylvan_true S"
proof -
  have v: "bdd_sem M (sylvan_ithvar S i) (\<lambda>_. True)" "\<not> bdd_sem M (sylvan_ithvar S i) (\<lambda>_. False)"
    using assms by simp_all
  have w: "\<not> bdd_sem M (sylvan_not S (sylvan_ithvar S i)) (\<lambda>_. True)"
    "bdd_sem M (sylvan_not S (sylvan_ithvar S i)) (\<lambda>_. False)" using assms by simp_all
  show "sylvan_ithvar S i \<noteq> sylvan_false S" using v(1) sem_false by metis
  show "sylvan_ithvar S i \<noteq> sylvan_true S" using v(2) sem_true by metis
  show "sylvan_not S (sylvan_ithvar S i) \<noteq> sylvan_false S" using w(2) sem_false by metis
  show "sylvan_not S (sylvan_ithvar S i) \<noteq> sylvan_true S" using w(1) sem_true by metis
qed

end

section \<open>Truth tables as handles\<close>

definition tt_index :: "assignment \<Rightarrow> nat" where
  "tt_index v = of_bool (v 0) + 2 * of_bool (v 1) + 4 * of_bool (v 2)
     + 8 * of_bool (v 3) + 16 * of_bool (v 4) + 32 * of_bool (v 5)"

definition tt_model :: bdd_model where
  "tt_model = \<lparr>bdd_ok = (\<lambda>_. True), bdd_sem = (\<lambda>w v. bit w (tt_index v))\<rparr>"

definition tt_sylvan :: sylvan where
  "tt_sylvan =
     \<lparr>sylvan_false = 0, sylvan_true = - 1, sylvan_and = (AND), sylvan_or = (OR),
      sylvan_not = NOT,
      sylvan_ithvar = (\<lambda>i. if i = 0 then 0xAAAAAAAAAAAAAAAA
                           else if i = 1 then 0xCCCCCCCCCCCCCCCC
                           else if i = 2 then 0xF0F0F0F0F0F0F0F0
                           else if i = 3 then 0xFF00FF00FF00FF00
                           else if i = 4 then 0xFFFF0000FFFF0000
                           else 0xFFFFFFFF00000000)\<rparr>"

lemma tt_index_less: "tt_index v < 64"
  by (simp add: tt_index_def of_bool_def)

lemma tt_index_surj: "i < 64 \<Longrightarrow> tt_index (bit i) = i"
proof -
  have "\<forall>i\<in>set [0..<64]. tt_index (bit i) = i" by code_simp
  then show "i < 64 \<Longrightarrow> tt_index (bit i) = i" by simp
qed

interpretation tt: sylvan_laws tt_sylvan tt_model
proof
  fix a b :: bdd
  assume eq: "bdd_sem tt_model a = bdd_sem tt_model b"
  show "a = b"
  proof (rule bit_eqI)
    fix i assume "possible_bit TYPE(64 word) i"
    then have "i < 64" by simp
    then have "bit a i = bit a (tt_index (bit i))" "bit b i = bit b (tt_index (bit i))"
      by (simp_all add: tt_index_surj)
    then show "bit a i = bit b i" using fun_cong[OF eq, of "bit i"] by (simp add: tt_model_def)
  qed
qed (use tt_index_less in \<open>simp_all add: tt_model_def tt_sylvan_def
       bit_and_iff bit_or_iff bit_not_iff\<close>)

lemma of_bool_bits: "bit (of_bool b + 2 * n :: nat) i \<longleftrightarrow> (if i = 0 then b else bit n (i - 1))"
  by (cases i; cases b) (simp_all add: bit_0 bit_Suc)

lemma tt_index_bit: "i < 6 \<Longrightarrow> bit (tt_index v) i \<longleftrightarrow> v i"
proof -
  have "tt_index v = of_bool (v 0) + 2 * (of_bool (v 1) + 2 * (of_bool (v 2) + 2 * (of_bool (v 3)
      + 2 * (of_bool (v 4) + 2 * (of_bool (v 5) + 2 * 0)))))" by (simp add: tt_index_def)
  then show "i < 6 \<Longrightarrow> bit (tt_index v) i \<longleftrightarrow> v i"
    by (simp only: of_bool_bits) (auto simp: less_Suc_eq numeral_eq_Suc)
qed

lemma tt_ithvar: "i < 6 \<Longrightarrow> bit (sylvan_ithvar tt_sylvan i) (tt_index v) \<longleftrightarrow> v i"
proof -
  have "\<forall>i\<in>set [0..<6]. \<forall>n\<in>set [0..<64]. bit (sylvan_ithvar tt_sylvan i) n = bit n i" by code_simp
  moreover assume "i < 6"
  ultimately show ?thesis using tt_index_less[of v] tt_index_bit by auto
qed

interpretation ttv: sylvan_vars tt_sylvan tt_model 6
  by unfold_locales (simp_all add: tt_model_def tt_ithvar)

lemma tt_vars: "sylvan_vars tt_sylvan tt_model 6"
  by (rule ttv.sylvan_vars_axioms)

lemma tt_laws: "sylvan_laws tt_sylvan tt_model"
  by (rule tt.sylvan_laws_axioms)

end
