(* ===== verification/Heap_Invariant.thy ===== *)
theory Heap_Invariant
  imports Node_Table Sylvan_Interface
begin

text \<open>
  The invariant of the shared state.  \<open>sinv\<close> is its structure: every node is well formed and
  ordered, its labels are valid, satisfiable and disjoint, the unique tables hold exactly the
  internal nodes and no two nodes of a field have the same edges, the leaf tables hold leaves.
  \<open>refs_ok E\<close> is the accounting of reference counts: a count that is not the sentinel covers
  the parents of the node and the references \<open>E\<close> held outside the diagram (by the user and
  the temporary stack).  \<open>rinv\<close> is the allocator's part.  \<open>live E\<close> are the nodes a collection
  must keep.
\<close>

section \<open>Structure\<close>

definition content :: "mstate \<Rightarrow> ptr \<Rightarrow> (nat \<times> node_body) option" where
  "content s p = map_option (\<lambda>nd. (field_id nd, body nd)) (nodes s p)"

definition internal :: "mstate \<Rightarrow> ptr \<Rightarrow> bool" where
  "internal s p \<longleftrightarrow> node_edges s p \<noteq> None"

abbreviation fieldof :: "mstate \<Rightarrow> ptr \<Rightarrow> nat" where
  "fieldof s p \<equiv> the (node_field s p)"

definition child_ok :: "mstate \<Rightarrow> nat \<Rightarrow> ptr \<Rightarrow> bool" where
  "child_ok s f c \<longleftrightarrow> c \<noteq> MTPNDD_FALSE \<and> nodes s c \<noteq> None \<and> f < fieldof s c"

definition labels_ok :: "sylvan \<Rightarrow> bdd_model \<Rightarrow> (ptr \<rightharpoonup> bdd) \<Rightarrow> bool" where
  "labels_ok S M e \<longleftrightarrow>
     (\<forall>c l. e c = Some l \<longrightarrow> bdd_ok M l \<and> l \<noteq> sylvan_false S)
     \<and> (\<forall>c l d k v. e c = Some l \<longrightarrow> e d = Some k \<longrightarrow> c \<noteq> d \<longrightarrow> bdd_sem M l v \<longrightarrow> \<not> bdd_sem M k v)"

definition map_wf :: "sylvan \<Rightarrow> bdd_model \<Rightarrow> mstate \<Rightarrow> nat \<Rightarrow> mtpndd_edge \<Rightarrow> bool" where
  "map_wf S M s f m \<longleftrightarrow> wf_map s m \<and> labels_ok S M (emap m) \<and> (\<forall>c\<in>dom (emap m). child_ok s f c)"

definition reduced :: "sylvan \<Rightarrow> (ptr \<rightharpoonup> bdd) \<Rightarrow> bool" where
  "reduced S e \<longleftrightarrow> e \<noteq> Map.empty \<and> (\<forall>c. e \<noteq> [c \<mapsto> sylvan_true S])"

text \<open>The fields that have a table; \<open>mtpndd_generate_fields\<close> sets the number of fields before it makes the tables.\<close>

definition tabled :: "mstate \<Rightarrow> nat set" where
  "tabled s = {f \<in> {1..field_count s}. node_tables_by_field s f \<noteq> None}"

definition node_wf :: "sylvan \<Rightarrow> bdd_model \<Rightarrow> mstate \<Rightarrow> nat \<times> node_body \<Rightarrow> bool" where
  "node_wf S M s nd \<longleftrightarrow>
     (case nd of
        (f, NLeaf v) \<Rightarrow> f = MTPNDD_FRACTION_LEAF_FIELD_ID \<or> f = MTPNDD_DOUBLE_LEAF_FIELD_ID
      | (f, NEdges m) \<Rightarrow> f \<in> tabled s \<and> map_wf S M s f m \<and> hash_ok m
                        \<and> reduced S (emap m))"

definition tentries :: "mtpndd_nodetable \<Rightarrow> nodetable_bucket_entry list" where
  "tentries t = concat (nt_buckets t)"

definition table_shape :: "mtpndd_nodetable \<Rightarrow> bool" where
  "table_shape t \<longleftrightarrow>
     is_pow2 (nodetable_bucket_count t) \<and> 16 \<le> nodetable_bucket_count t
     \<and> nodetable_bucket_count t \<le> 2 ^ 60
     \<and> length (nt_buckets t) = nodetable_bucket_count t
     \<and> (\<forall>i<length (nt_buckets t). \<forall>e\<in>set (nt_buckets t ! i).
          mask_index (nte_hash e) (nodetable_bucket_count t) = i)
     \<and> nt_entry_count t = length (tentries t)
     \<and> distinct (map nte_node (tentries t))"

definition entry_ok :: "mstate \<Rightarrow> nat \<Rightarrow> nodetable_bucket_entry \<Rightarrow> bool" where
  "entry_ok s f e \<longleftrightarrow> content s (nte_node e) = Some (f, NEdges (nte_edges e))
     \<and> nte_hash e = cached_hash (nte_edges e)"

definition table_wf :: "mstate \<Rightarrow> nat \<Rightarrow> mtpndd_nodetable \<Rightarrow> bool" where
  "table_wf s f t \<longleftrightarrow> table_shape t \<and> (\<forall>e\<in>set (tentries t). entry_ok s f e)
     \<and> (\<forall>p m. content s p = Some (f, NEdges m) \<longrightarrow> p \<in> nte_node ` set (tentries t))"

definition tables_ok :: "mstate \<Rightarrow> bool" where
  "tables_ok s \<longleftrightarrow> (\<forall>f\<in>tabled s. \<exists>t. node_tables_by_field s f = Some t \<and> table_wf s f t)"

definition unique_nodes :: "mstate \<Rightarrow> bool" where
  "unique_nodes s \<longleftrightarrow> (\<forall>p q f m m'. content s p = Some (f, NEdges m) \<longrightarrow>
     content s q = Some (f, NEdges m') \<longrightarrow> emap m = emap m' \<longrightarrow> p = q)"

definition leaf_shape :: "mtpndd_leaf_table \<Rightarrow> bool" where
  "leaf_shape t \<longleftrightarrow>
     is_pow2 (lt_bucket_count t) \<and> lt_bucket_count t \<le> 2 ^ 60
     \<and> length (lt_buckets t) = lt_bucket_count t
     \<and> (\<forall>i<length (lt_buckets t). \<forall>e\<in>set (lt_buckets t ! i). leaf_bucket_index t (le_value e) = i)
     \<and> distinct (map le_node (concat (lt_buckets t)))
     \<and> distinct (map le_value (concat (lt_buckets t)))"

definition leaf_table_wf :: "mstate \<Rightarrow> nat \<Rightarrow> mtpndd_leaf_table \<Rightarrow> bool" where
  "leaf_table_wf s lf t \<longleftrightarrow> leaf_shape t
     \<and> (\<forall>e\<in>set (concat (lt_buckets t)). content s (le_node e) = Some (lf, NLeaf (le_value e)))"

definition leaf_tables_ok :: "mstate \<Rightarrow> bool" where
  "leaf_tables_ok s \<longleftrightarrow>
     (\<forall>lf\<in>{MTPNDD_FRACTION_LEAF_FIELD_ID, MTPNDD_DOUBLE_LEAF_FIELD_ID}.
        \<forall>t. leaf_table_of lf s = Some t \<longrightarrow> leaf_table_wf s lf t)"

definition sentinels_ok :: "mstate \<Rightarrow> bool" where
  "sentinels_ok s \<longleftrightarrow>
     content s MTPNDD_TRUE = Some (MTPNDD_FRACTION_LEAF_FIELD_ID, NLeaf (mtpndd_pack_fraction 1 1))
     \<and> content s MTPNDD_FALSE = Some (MTPNDD_FRACTION_LEAF_FIELD_ID, NLeaf (mtpndd_pack_fraction 0 1))"

definition sinv :: "sylvan \<Rightarrow> bdd_model \<Rightarrow> mstate \<Rightarrow> bool" where
  "sinv S M s \<longleftrightarrow> sentinels_ok s \<and> (\<forall>p nd. content s p = Some nd \<longrightarrow> node_wf S M s nd)
     \<and> tables_ok s \<and> unique_nodes s \<and> leaf_tables_ok s
     \<and> field_count s < MTPNDD_LEAF_FIELD_ID_MIN"

section \<open>References\<close>

definition parents :: "mstate \<Rightarrow> ptr \<Rightarrow> ptr set" where
  "parents s p = {q. \<exists>f m. content s q = Some (f, NEdges m) \<and> p \<in> dom (emap m)}"

definition refs_ok :: "ptr multiset \<Rightarrow> mstate \<Rightarrow> bool" where
  "refs_ok E s \<longleftrightarrow>
     (\<forall>p nd. nodes s p = Some nd \<longrightarrow>
        (case body nd of
           NLeaf v \<Rightarrow> ref_count nd = - 1
         | NEdges m \<Rightarrow> ref_count nd = - 1 \<or> card (parents s p) + count E p \<le> unat (ref_count nd)))
     \<and> (\<forall>p\<in>#E. internal s p \<or> p = MTPNDD_TRUE \<or> p = MTPNDD_FALSE)"

definition rinv :: "mstate \<Rightarrow> bool" where
  "rinv s \<longleftrightarrow> bucket_cfg_ok s \<and> mem_limit (c_heap_of s) \<le> 2 ^ 60
     \<and> pool_ok (g_node_pool s) (dom (nodes s) - {MTPNDD_TRUE, MTPNDD_FALSE}) (c_heap_of s)"

definition hinv :: "sylvan \<Rightarrow> bdd_model \<Rightarrow> ptr multiset \<Rightarrow> mstate \<Rightarrow> bool" where
  "hinv S M E s \<longleftrightarrow> sinv S M s \<and> refs_ok E s \<and> rinv s"

inductive live :: "ptr multiset \<Rightarrow> mstate \<Rightarrow> ptr \<Rightarrow> bool" for E s where
  live_true: "live E s MTPNDD_TRUE"
| live_false: "live E s MTPNDD_FALSE"
| live_held: "p \<in># E \<Longrightarrow> internal s p \<Longrightarrow> live E s p"
| live_protected: "nodes s p = Some nd \<Longrightarrow> ref_count nd = - 1 \<Longrightarrow> internal s p \<Longrightarrow> live E s p"
| live_child: "live E s p \<Longrightarrow> node_edges s p = Some m \<Longrightarrow> c \<in> dom (emap m) \<Longrightarrow> live E s c"

text \<open>What every operation owes its caller: the live nodes are still there, unchanged.\<close>

definition keeps :: "ptr multiset \<Rightarrow> mstate \<Rightarrow> mstate \<Rightarrow> bool" where
  "keeps E s s' \<longleftrightarrow> (\<forall>p. live E s p \<longrightarrow> live E s' p \<and> content s' p = content s p)
     \<and> field_count s' = field_count s \<and> tabled s' = tabled s"

section \<open>Basic facts\<close>

lemma content_Some: "content s p = Some (f, b) \<longleftrightarrow> (\<exists>nd. nodes s p = Some nd \<and> field_id nd = f \<and> body nd = b)"
  by (auto simp: content_def)

lemma content_None: "content s p = None \<longleftrightarrow> nodes s p = None"
  by (simp add: content_def)

lemma node_edges_content: "node_edges s p = Some m \<longleftrightarrow> (\<exists>f. content s p = Some (f, NEdges m))"
  by (auto simp: node_edges_def content_def split: option.splits node_body.splits)

lemma node_field_content: "node_field s p = map_option fst (content s p)"
  by (simp add: node_field_def content_def option.map_comp comp_def)

lemma internal_content: "internal s p \<longleftrightarrow> (\<exists>f m. content s p = Some (f, NEdges m))"
  using node_edges_content by (fastforce simp: internal_def)

lemma terminal_content:
  "mtpndd_is_terminal s p = map_option (\<lambda>(f, b). MTPNDD_LEAF_FIELD_ID_MIN \<le> f) (content s p)"
  by (simp add: mtpndd_is_terminal_def content_def option.map_comp comp_def)

lemma hash_content:
  "p \<noteq> NULL \<Longrightarrow> mtpndd_hash_node_identity s p =
     map_option (\<lambda>(f, b). node_hash \<lparr>ref_count = 0, field_id = f, body = b\<rparr>) (content s p)"
  by (cases "nodes s p") (simp_all add: mtpndd_hash_node_identity_def content_def node_hash_def)

lemma hash_content_cong:
  "content s' p = content s p \<Longrightarrow> mtpndd_hash_node_identity s' p = mtpndd_hash_node_identity s p"
  by (cases "p = NULL") (simp_all add: hash_content, simp add: mtpndd_hash_node_identity_def)

lemma child_ok_cong: "content s' c = content s c \<Longrightarrow> child_ok s' f c = child_ok s f c"
  by (simp add: child_ok_def node_field_content flip: content_None)

lemma map_wf_cong:
  assumes "\<And>c. c \<in> dom (emap m) \<Longrightarrow> content s' c = content s c"
  shows "map_wf S M s' f m = map_wf S M s f m"
proof -
  have "wf_map s' m = wf_map s m"
    by (rule wf_map_cong, rule hash_content_cong, rule assms) (simp add: dom_emap)
  then show ?thesis using assms child_ok_cong unfolding map_wf_def by blast
qed

lemma node_wf_cong:
  assumes "\<And>c m. nd = (f, NEdges m) \<Longrightarrow> c \<in> dom (emap m) \<Longrightarrow> content s' c = content s c"
    and "tabled s' = tabled s" "fst nd = f"
  shows "node_wf S M s' nd = node_wf S M s nd"
  using assms map_wf_cong[of _ s' s S M f]
  by (cases nd) (auto simp: node_wf_def split: node_body.splits)

lemma tabled_cong:
  "field_count s' = field_count s \<Longrightarrow> node_tables_by_field s' = node_tables_by_field s \<Longrightarrow> tabled s' = tabled s"
  by (simp add: tabled_def)

lemma tabled_upd:
  "field_count s' = field_count s \<Longrightarrow> node_tables_by_field s' = (node_tables_by_field s)(f \<mapsto> t) \<Longrightarrow>
   f \<in> tabled s \<Longrightarrow> tabled s' = tabled s"
  by (auto simp: tabled_def)

lemma tabled_config [simp]: "tabled (s\<lparr>g_pal_config := c\<rparr>) = tabled s"
  by (simp add: tabled_def)

lemma tabledD: "f \<in> tabled s \<Longrightarrow> f \<in> {1..field_count s} \<and> 1 \<le> f \<and> f \<le> field_count s"
  by (simp add: tabled_def)

lemma sinv_cong:
  assumes c: "content s' = content s" and "node_tables_by_field s' = node_tables_by_field s"
    "leaf_table s' = leaf_table s" "double_leaf_table s' = double_leaf_table s"
    "field_count s' = field_count s"
  shows "sinv S M s' = sinv S M s"
proof -
  have tb: "tabled s' = tabled s" by (rule tabled_cong) (use assms in auto)
  have n: "node_wf S M s' nd = node_wf S M s nd" for nd
    by (rule node_wf_cong[where f = "fst nd"]) (use assms tb in auto)
  show ?thesis
    unfolding sinv_def sentinels_ok_def tables_ok_def table_wf_def entry_ok_def unique_nodes_def
      leaf_tables_ok_def leaf_table_wf_def leaf_table_of_def assms tb n by (rule refl)
qed

lemma parents_cong: "content s' = content s \<Longrightarrow> parents s' p = parents s p"
  by (simp add: parents_def)

lemma sinv_node:
  assumes "sinv S M s" "content s p = Some (f, NEdges m)"
  shows "1 \<le> f" "f \<le> field_count s" "map_wf S M s f m" "hash_ok m" "reduced S (emap m)" "wf_map s m"
    "f < MTPNDD_LEAF_FIELD_ID_MIN" "f \<in> tabled s"
proof -
  have "node_wf S M s (f, NEdges m)" using assms unfolding sinv_def by blast
  then show "1 \<le> f" "f \<le> field_count s" "map_wf S M s f m" "hash_ok m" "reduced S (emap m)" "wf_map s m"
    "f \<in> tabled s" by (auto simp: node_wf_def map_wf_def tabled_def)
  then show "f < MTPNDD_LEAF_FIELD_ID_MIN" using assms by (simp add: sinv_def)
qed

lemma sinv_child:
  assumes "sinv S M s" "content s p = Some (f, NEdges m)" "c \<in> dom (emap m)"
  shows "child_ok s f c"
  using sinv_node(3)[OF assms(1,2)] assms(3) by (simp add: map_wf_def)

lemma sinv_leaf:
  assumes "sinv S M s" "content s p = Some (f, NLeaf v)"
  shows "MTPNDD_LEAF_FIELD_ID_MIN \<le> f"
proof -
  have "node_wf S M s (f, NLeaf v)" using assms unfolding sinv_def by blast
  then show ?thesis by (auto simp: node_wf_def MTPNDD_LEAF_FIELD_ID_MIN_def
        MTPNDD_DOUBLE_LEAF_FIELD_ID_def MTPNDD_FRACTION_LEAF_FIELD_ID_def)
qed

lemma sinv_terminal:
  assumes "sinv S M s" "nodes s p \<noteq> None"
  shows "mtpndd_is_terminal s p = Some (\<not> internal s p)"
proof -
  obtain f b where c: "content s p = Some (f, b)" using assms(2) by (auto simp: content_def)
  then show ?thesis
    using sinv_node(7)[OF assms(1)] sinv_leaf[OF assms(1)]
    by (cases b) (auto simp: terminal_content internal_content not_le)
qed

lemma sentinels_not_internal:
  "sinv S M s \<Longrightarrow> \<not> internal s MTPNDD_TRUE \<and> \<not> internal s MTPNDD_FALSE"
  by (simp add: sinv_def sentinels_ok_def internal_content)

lemma rinv_finite: "rinv s \<Longrightarrow> finite (dom (nodes s))"
  unfolding rinv_def pool_ok_def by simp

lemma rinv_null: assumes "rinv s" shows "nodes s NULL = None"
proof (rule ccontr)
  let ?U = "dom (nodes s) - {MTPNDD_TRUE, MTPNDD_FALSE}"
  assume "nodes s NULL \<noteq> None"
  then have "NULL \<in> ?U" by (auto simp: MTPNDD_TRUE_def MTPNDD_FALSE_def)
  then have "NULL \<in># mset_set ?U" using rinv_finite[OF assms] by simp
  moreover have "mset (pool_objects (g_node_pool s)) = mset (pool_free (g_node_pool s)) + mset_set ?U"
    using assms by (simp add: rinv_def pool_ok_def)
  ultimately have "NULL \<in># mset (pool_objects (g_node_pool s))" by simp
  then have "NULL \<in> set (pool_objects (g_node_pool s))" by simp
  then show False using assms by (auto simp: rinv_def pool_ok_def)
qed

lemma finite_parents: "rinv s \<Longrightarrow> finite (parents s p)"
  by (rule finite_subset[OF _ rinv_finite]) (auto simp: parents_def content_Some)

section \<open>Steps that change no node\<close>

lemma content_nodes: "nodes s' = nodes s \<Longrightarrow> content s' = content s"
  by (simp add: content_def fun_eq_iff)

lemma refs_ok_cong:
  assumes n: "nodes s' = nodes s" shows "refs_ok E s' = refs_ok E s"
proof -
  have pi: "parents s' = parents s" "internal s' = internal s"
    using content_nodes[OF n] by (simp_all add: fun_eq_iff parents_def internal_content)
  show ?thesis unfolding refs_ok_def n pi by (rule refl)
qed

lemma rinv_cong:
  assumes "nodes s' = nodes s" "g_node_pool s' = g_node_pool s"
    "g_edge_bucket_count s' = g_edge_bucket_count s"
    "mem_limit (c_heap_of s') = mem_limit (c_heap_of s)" "brk (c_heap_of s) \<le> brk (c_heap_of s')"
  shows "rinv s \<Longrightarrow> rinv s'"
  using assms pool_ok_brk_mono[of "g_node_pool s" _ "c_heap_of s" "c_heap_of s'"]
  by (simp add: rinv_def bucket_cfg_ok_def)

lemma live_cong:
  assumes "nodes s' = nodes s" shows "live E s' p \<longleftrightarrow> live E s p"
proof -
  have e: "node_edges s' = node_edges s" "internal s' = internal s"
    using assms by (simp_all add: fun_eq_iff node_edges_def internal_def)
  have "live E s p \<Longrightarrow> live E s' p" for p
    by (induction rule: live.induct) (auto intro: live.intros simp: assms e)
  moreover have "live E s' p \<Longrightarrow> live E s p" for p
    by (induction rule: live.induct) (auto intro: live.intros simp: assms e)
  ultimately show ?thesis by blast
qed

lemma keeps_refl [simp]: "keeps E s s"
  by (simp add: keeps_def)

lemma keeps_trans: "keeps E s t \<Longrightarrow> keeps E t u \<Longrightarrow> keeps E s u"
  by (simp add: keeps_def)

lemma keeps_tabled: "keeps E s s' \<Longrightarrow> tabled s' = tabled s"
  by (simp add: keeps_def)

lemma keeps_nodes:
  assumes n: "nodes s' = nodes s" and f: "field_count s' = field_count s" "tabled s' = tabled s"
  shows "keeps E s s'"
  using live_cong[OF n, of E] content_nodes[OF n] f unfolding keeps_def by simp

text \<open>Two states that differ only in fields the invariant does not read.\<close>

definition same_heap :: "mstate \<Rightarrow> mstate \<Rightarrow> bool" where
  "same_heap s s' \<longleftrightarrow> nodes s' = nodes s \<and> node_tables_by_field s' = node_tables_by_field s
     \<and> leaf_table s' = leaf_table s \<and> double_leaf_table s' = double_leaf_table s
     \<and> field_count s' = field_count s \<and> g_node_pool s' = g_node_pool s
     \<and> g_edge_bucket_count s' = g_edge_bucket_count s
     \<and> mem_limit (c_heap_of s') = mem_limit (c_heap_of s)
     \<and> brk (c_heap_of s) \<le> brk (c_heap_of s')"

lemma hinv_same_heap:
  assumes h: "hinv S M E s" and sh: "same_heap s s'"
  shows "hinv S M E s' \<and> keeps E s s'"
proof -
  have n: "nodes s' = nodes s" and fc: "field_count s' = field_count s" and tb: "tabled s' = tabled s"
    using sh tabled_cong[of s' s] unfolding same_heap_def by blast+
  have "sinv S M s' = sinv S M s"
    by (rule sinv_cong[OF content_nodes[OF n]]) (use sh same_heap_def in blast)+
  moreover have "rinv s'"
    by (rule rinv_cong[OF n]) (use sh h same_heap_def hinv_def in blast)+
  ultimately show ?thesis
    using h refs_ok_cong[OF n, of E] keeps_nodes[OF n fc tb] by (simp add: hinv_def)
qed

lemma quiet_same_heap: "quiet s s' \<Longrightarrow> same_heap s s'"
  by (simp add: same_heap_def quiet_fields)

lemma hinv_quiet: "hinv S M E s \<Longrightarrow> quiet s s' \<Longrightarrow> hinv S M E s' \<and> keeps E s s'"
  using hinv_same_heap quiet_same_heap by blast

section \<open>Reference counts\<close>

lemma live_mono: "live E s p \<Longrightarrow> E \<subseteq># E' \<Longrightarrow> live E' s p"
  by (induction rule: live.induct) (auto intro: live.intros dest: mset_subset_eqD)

lemma live_known:
  assumes "sinv S M s" "live E s p" shows "nodes s p \<noteq> None"
  using assms(2)
proof (cases rule: live.cases)
  case (live_child q m)
  then obtain f where "content s q = Some (f, NEdges m)" by (auto simp: node_edges_content)
  from sinv_child[OF assms(1) this live_child(3)] show ?thesis by (simp add: child_ok_def)
qed (use assms(1) in \<open>auto simp: sinv_def sentinels_ok_def content_Some internal_content\<close>)

text \<open>Two states that differ at most in reference counts and in fields the invariant ignores.\<close>

definition protected_kept :: "mstate \<Rightarrow> mstate \<Rightarrow> bool" where
  "protected_kept s s' \<longleftrightarrow> (\<forall>p nd. nodes s p = Some nd \<longrightarrow> ref_count nd = - 1 \<longrightarrow>
     (\<exists>nd'. nodes s' p = Some nd' \<and> ref_count nd' = - 1))"

lemma protected_kept_trans: "protected_kept s t \<Longrightarrow> protected_kept t u \<Longrightarrow> protected_kept s u"
  unfolding protected_kept_def by meson

lemma protected_kept_nodes: "nodes s' = nodes s \<Longrightarrow> protected_kept s s'"
  by (simp add: protected_kept_def)

definition touch :: "mstate \<Rightarrow> mstate \<Rightarrow> bool" where
  "touch s s' \<longleftrightarrow> content s' = content s \<and> node_tables_by_field s' = node_tables_by_field s
     \<and> leaf_table s' = leaf_table s \<and> double_leaf_table s' = double_leaf_table s
     \<and> field_count s' = field_count s \<and> g_node_pool s' = g_node_pool s
     \<and> g_edge_bucket_count s' = g_edge_bucket_count s
     \<and> mem_limit (c_heap_of s') = mem_limit (c_heap_of s)
     \<and> brk (c_heap_of s) \<le> brk (c_heap_of s')
     \<and> and_cache s' = and_cache s \<and> or_cache s' = or_cache s \<and> not_cache s' = not_cache s
     \<and> gc_running s' = gc_running s \<and> protected_kept s s' \<and> res_mono s s'"

lemma touch_refl [simp]: "touch s s"
  by (simp add: touch_def protected_kept_nodes)

lemma touch_trans:
  assumes "touch s t" "touch t u" shows "touch s u"
proof -
  have "protected_kept s u" "res_mono s u"
    using assms protected_kept_trans res_mono_trans unfolding touch_def by blast+
  then show ?thesis using assms by (simp add: touch_def)
qed

lemma quiet_touch: "quiet s s' \<Longrightarrow> touch s s'"
  unfolding touch_def
  by (intro conjI; (rule content_nodes protected_kept_nodes)?; erule quiet_fields)

lemma touch_internal: "touch s s' \<Longrightarrow> internal s' = internal s"
  by (simp add: touch_def internal_content fun_eq_iff)

lemma touch_edges: "touch s s' \<Longrightarrow> node_edges s' = node_edges s"
proof
  fix p assume "touch s s'"
  then have "node_edges s' p = Some m \<longleftrightarrow> node_edges s p = Some m" for m
    by (simp add: touch_def node_edges_content)
  then show "node_edges s' p = node_edges s p" by (metis option.exhaust)
qed

lemma touch_live:
  assumes t: "touch s s'" shows "live E s p \<Longrightarrow> live E s' p"
proof (induction rule: live.induct)
  case (live_protected p nd)
  then obtain nd' where "nodes s' p = Some nd'" "ref_count nd' = - 1" using t
    unfolding touch_def protected_kept_def by blast
  then show ?case using live_protected touch_internal[OF t] by (auto intro: live.live_protected)
qed (use touch_internal[OF t] touch_edges[OF t] in \<open>auto intro: live.intros\<close>)

lemma touch_keeps: "touch s s' \<Longrightarrow> keeps E s s'"
  using touch_live[of s s' E] tabled_cong[of s' s] unfolding keeps_def by (simp add: touch_def)

lemma touch_known: "touch s s' \<Longrightarrow> nodes s' p = None \<longleftrightarrow> nodes s p = None"
  by (simp add: touch_def flip: content_None)

lemma hinv_touch:
  assumes h: "hinv S M E s" and t: "touch s s'" and r: "refs_ok E' s'"
  shows "hinv S M E' s'"
proof -
  have "sinv S M s' = sinv S M s"
    by (rule sinv_cong) (use t touch_def in blast)+
  moreover have "dom (nodes s') = dom (nodes s)" using touch_known[OF t] by (auto simp: dom_def)
  then have "rinv s'"
    using h t pool_ok_brk_mono[of "g_node_pool s" "dom (nodes s) - {MTPNDD_TRUE, MTPNDD_FALSE}"
        "c_heap_of s" "c_heap_of s'"]
    by (simp add: hinv_def rinv_def touch_def bucket_cfg_ok_def)
  ultimately show ?thesis using h r by (simp add: hinv_def)
qed

text \<open>One count changes.\<close>

lemma set_rc_touch:
  assumes "nodes s p = Some nd" "ref_count nd = - 1 \<longrightarrow> c = - 1"
  shows "touch s (s\<lparr>nodes := (nodes s)(p \<mapsto> nd\<lparr>ref_count := c\<rparr>)\<rparr>)"
  using assms by (auto simp: touch_def protected_kept_def content_def fun_eq_iff intro!: res_mono_same)

lemma refs_ok_set_rc:
  assumes r: "refs_ok E s" and p: "nodes s p = Some nd" "body nd = NEdges m"
    and c: "c = - 1 \<or> card (parents s p) + count E' p \<le> unat c"
    and E: "\<And>q. q \<noteq> p \<Longrightarrow> count E' q \<le> count E q"
  shows "refs_ok E' (s\<lparr>nodes := (nodes s)(p \<mapsto> nd\<lparr>ref_count := c\<rparr>)\<rparr>)"
proof -
  let ?s = "s\<lparr>nodes := (nodes s)(p \<mapsto> nd\<lparr>ref_count := c\<rparr>)\<rparr>"
  have ct: "content ?s = content s" using p by (auto simp: content_def fun_eq_iff)
  then have par: "parents ?s = parents s" and int: "internal ?s = internal s"
    by (simp_all add: fun_eq_iff parents_def internal_content)
  have ip: "internal s p" using p by (auto simp: internal_content content_Some)
  show ?thesis
    unfolding refs_ok_def par int
  proof (intro conjI allI impI ballI)
    fix q qd assume q: "nodes ?s q = Some qd"
    show "case body qd of NLeaf v \<Rightarrow> ref_count qd = - 1
      | NEdges m \<Rightarrow> ref_count qd = - 1 \<or> card (parents s q) + count E' q \<le> unat (ref_count qd)"
    proof (cases "q = p")
      case True
      then show ?thesis using q p c by auto
    next
      case False
      then have "nodes s q = Some qd" using q by simp
      then show ?thesis using r E[OF False] unfolding refs_ok_def
        by (fastforce split: node_body.splits)
    qed
  next
    fix q assume "q \<in># E'"
    then have "q = p \<or> q \<in># E" using E[of q] by (metis count_eq_zero_iff le_zero_eq)
    then show "internal s q \<or> q = MTPNDD_TRUE \<or> q = MTPNDD_FALSE"
      using r ip by (auto simp: refs_ok_def)
  qed
qed

lemma refs_ok_node:
  "refs_ok E s \<Longrightarrow> nodes s p = Some nd \<Longrightarrow> body nd = NEdges m \<Longrightarrow>
     ref_count nd = - 1 \<or> card (parents s p) + count E p \<le> unat (ref_count nd)"
  unfolding refs_ok_def by fastforce

lemma refs_ok_leaf:
  "refs_ok E s \<Longrightarrow> nodes s p = Some nd \<Longrightarrow> body nd = NLeaf v \<Longrightarrow> ref_count nd = - 1"
  unfolding refs_ok_def by fastforce

lemma refs_ok_sub:
  assumes r: "refs_ok E s" and sub: "E' \<subseteq># E"
  shows "refs_ok E' s"
  unfolding refs_ok_def
proof (intro conjI allI impI ballI)
  fix p nd assume p: "nodes s p = Some nd"
  have "count E' p \<le> count E p" using sub by (rule mset_subset_eq_count)
  then show "case body nd of NLeaf v \<Rightarrow> ref_count nd = - 1
      | NEdges m \<Rightarrow> ref_count nd = - 1 \<or> card (parents s p) + count E' p \<le> unat (ref_count nd)"
    using refs_ok_node[OF r p] refs_ok_leaf[OF r p] by (fastforce split: node_body.splits)
next
  fix p assume "p \<in># E'"
  then show "internal s p \<or> p = MTPNDD_TRUE \<or> p = MTPNDD_FALSE"
    using r mset_subset_eqD[OF sub] by (auto simp: refs_ok_def)
qed

lemma refs_ok_add_leaf:
  assumes r: "refs_ok E s" and p: "p = MTPNDD_TRUE \<or> p = MTPNDD_FALSE" "\<not> internal s p"
  shows "refs_ok (add_mset p E) s"
  unfolding refs_ok_def
proof (intro conjI allI impI ballI)
  fix q qd assume q: "nodes s q = Some qd"
  show "case body qd of NLeaf v \<Rightarrow> ref_count qd = - 1
      | NEdges m \<Rightarrow> ref_count qd = - 1 \<or> card (parents s q) + count (add_mset p E) q \<le> unat (ref_count qd)"
  proof (cases "body qd")
    case (NEdges m)
    then have "q \<noteq> p" using q p by (auto simp: internal_content content_Some)
    then show ?thesis using refs_ok_node[OF r q NEdges] NEdges by simp
  qed (use refs_ok_leaf[OF r q] in simp)
next
  fix q assume "q \<in># add_mset p E"
  then show "internal s q \<or> q = MTPNDD_TRUE \<or> q = MTPNDD_FALSE"
    using r p by (auto simp: refs_ok_def)
qed

text \<open>A node that may be referenced from outside: internal, or one of the two sentinels.\<close>

definition holdable :: "mstate \<Rightarrow> ptr \<Rightarrow> bool" where
  "holdable s p \<longleftrightarrow> internal s p \<or> p = MTPNDD_TRUE \<or> p = MTPNDD_FALSE"

lemma holdable_known:
  assumes "hinv S M E s" "holdable s p" shows "nodes s p \<noteq> None \<and> p \<noteq> NULL"
proof -
  have "nodes s p \<noteq> None" using assms
    by (auto simp: holdable_def hinv_def sinv_def sentinels_ok_def internal_content content_Some)
  then show ?thesis using rinv_null[of s] assms(1) unfolding hinv_def by metis
qed

lemma word_Suc_unat: "c \<noteq> - 1 \<Longrightarrow> unat (c + 1 :: 32 word) = Suc (unat c)"
  by (metis add.commute add_eq_0_iff unatSuc)

lemma ref_spec:
  assumes h: "hinv S M E s" and p: "holdable s p"
  shows "\<exists>s'. mtpndd_ref p s = Some (MTPNDD_SUCCESS, s') \<and> touch s s' \<and> hinv S M (add_mset p E) s'
           \<and> temp_refs_pool s' = temp_refs_pool s"
proof -
  obtain nd where nd: "nodes s p = Some nd" and p0: "p \<noteq> NULL"
    using holdable_known[OF h p] by auto
  have r: "refs_ok E s" using h by (simp add: hinv_def)
  show ?thesis
  proof (cases "body nd")
    case (NLeaf v)
    then have ni: "\<not> internal s p" using nd by (simp add: internal_content content_Some)
    then have tf: "p = MTPNDD_TRUE \<or> p = MTPNDD_FALSE" using p by (simp add: holdable_def)
    have "mtpndd_ref p s = Some (MTPNDD_SUCCESS, s)"
      using refs_ok_leaf[OF r nd NLeaf] nd p0 by (simp add: mtpndd_ref_def)
    then show ?thesis using hinv_touch[OF h touch_refl refs_ok_add_leaf[OF r tf ni]] by auto
  next
    case (NEdges m)
    note rn = refs_ok_node[OF r nd NEdges]
    define c where "c = (if ref_count nd = - 1 then - 1 else ref_count nd + 1)"
    let ?s = "s\<lparr>nodes := (nodes s)(p \<mapsto> nd\<lparr>ref_count := c\<rparr>)\<rparr>"
    have "mtpndd_ref p s = Some (MTPNDD_SUCCESS, ?s)"
      using nd p0 by (auto simp: mtpndd_ref_def set_ref_count_def c_def fun_upd_idem)
    moreover have t: "touch s ?s" by (rule set_rc_touch[OF nd]) (simp add: c_def)
    moreover have "refs_ok (add_mset p E) ?s"
      by (rule refs_ok_set_rc[OF r nd NEdges]) (use rn in \<open>auto simp: c_def word_Suc_unat\<close>)
    ultimately show ?thesis using hinv_touch[OF h t] by auto
  qed
qed

lemma deref_spec:
  assumes h: "hinv S M (add_mset p E) s"
  shows "\<exists>s'. mtpndd_deref p s = Some (MTPNDD_SUCCESS, s') \<and> touch s s' \<and> hinv S M E s'
           \<and> temp_refs_pool s' = temp_refs_pool s"
proof -
  have r: "refs_ok (add_mset p E) s" using h by (simp add: hinv_def)
  then have p: "holdable s p" by (simp add: refs_ok_def holdable_def)
  obtain nd where nd: "nodes s p = Some nd" and p0: "p \<noteq> NULL"
    using holdable_known[OF h p] by auto
  have rE: "refs_ok E s" by (rule refs_ok_sub[OF r]) simp
  show ?thesis
  proof (cases "ref_count nd = - 1")
    case True
    then have "mtpndd_deref p s = Some (MTPNDD_SUCCESS, s)" using nd p0 by (simp add: mtpndd_deref_def)
    then show ?thesis using hinv_touch[OF h touch_refl rE] by auto
  next
    case False
    then obtain m where m: "body nd = NEdges m" using refs_ok_leaf[OF r nd] by (cases "body nd") auto
    let ?s = "s\<lparr>nodes := (nodes s)(p \<mapsto> nd\<lparr>ref_count := ref_count nd - 1\<rparr>)\<rparr>"
    have le: "card (parents s p) + count E p + 1 \<le> unat (ref_count nd)"
      using refs_ok_node[OF r nd m] False by simp
    then have "ref_count nd \<noteq> 0" by auto
    then have "unat (ref_count nd - 1) = unat (ref_count nd) - 1" by (rule unat_minus_one)
    then have "refs_ok E ?s"
      by (intro refs_ok_set_rc[OF r nd m]) (use le in auto)
    moreover have t: "touch s ?s" by (rule set_rc_touch[OF nd]) (simp add: False)
    moreover have "mtpndd_deref p s = Some (MTPNDD_SUCCESS, ?s)"
      using nd p0 False by (simp add: mtpndd_deref_def set_ref_count_def)
    ultimately show ?thesis using hinv_touch[OF h t] by auto
  qed
qed

lemma hinv_terminal:
  "hinv S M E s \<Longrightarrow> nodes s p \<noteq> None \<Longrightarrow> mtpndd_is_terminal s p = Some (\<not> internal s p)"
  using sinv_terminal unfolding hinv_def by blast

lemma ref_nonterminal_spec:
  assumes h: "hinv S M E s" and p: "nodes s p \<noteq> None"
  shows "\<exists>s'. ref_nonterminal p s = Some s' \<and> touch s s'
           \<and> hinv S M (if internal s p then add_mset p E else E) s'
           \<and> temp_refs_pool s' = temp_refs_pool s"
proof (cases "internal s p")
  case True
  then obtain s' where "mtpndd_ref p s = Some (MTPNDD_SUCCESS, s')" "touch s s'"
    "hinv S M (add_mset p E) s'" "temp_refs_pool s' = temp_refs_pool s"
    using ref_spec[OF h] by (auto simp: holdable_def)
  then show ?thesis using True hinv_terminal[OF h p] by (simp add: ref_nonterminal_def)
next
  case False
  then show ?thesis using h hinv_terminal[OF h p] by (simp add: ref_nonterminal_def)
qed

lemma deref_nonterminal_spec:
  assumes h: "hinv S M (if internal s p then add_mset p E else E) s" and p: "nodes s p \<noteq> None"
  shows "\<exists>s'. deref_nonterminal p s = Some s' \<and> touch s s' \<and> hinv S M E s'
           \<and> temp_refs_pool s' = temp_refs_pool s"
proof (cases "internal s p")
  case True
  then obtain s' where "mtpndd_deref p s = Some (MTPNDD_SUCCESS, s')" "touch s s'" "hinv S M E s'"
    "temp_refs_pool s' = temp_refs_pool s"
    using deref_spec[of S M p E s] h by auto
  then show ?thesis using True hinv_terminal[OF h p] by (simp add: deref_nonterminal_def)
next
  case False
  then show ?thesis using h hinv_terminal[OF h p] by (simp add: deref_nonterminal_def)
qed

text \<open>The same for the children of an edge map.\<close>

lemma ref_children_spec:
  assumes "hinv S M E s" "\<forall>c\<in>set cs. nodes s c \<noteq> None"
  shows "\<exists>s'. iter_state ref_nonterminal cs s = Some s' \<and> touch s s'
           \<and> hinv S M (E + mset (filter (internal s) cs)) s' \<and> temp_refs_pool s' = temp_refs_pool s"
  using assms
proof (induction cs arbitrary: s E)
  case (Cons c cs)
  let ?E = "if internal s c then add_mset c E else E"
  obtain s1 where s1: "ref_nonterminal c s = Some s1" "touch s s1" "hinv S M ?E s1"
    "temp_refs_pool s1 = temp_refs_pool s"
    using ref_nonterminal_spec[OF Cons.prems(1)] Cons.prems(2) by auto
  have "\<forall>c\<in>set cs. nodes s1 c \<noteq> None" using Cons.prems(2) touch_known[OF s1(2)] by simp
  from Cons.IH[OF s1(3) this] obtain s2 where s2: "iter_state ref_nonterminal cs s1 = Some s2"
    "touch s1 s2" "hinv S M (?E + mset (filter (internal s1) cs)) s2"
    "temp_refs_pool s2 = temp_refs_pool s1" by blast
  have "?E + mset (filter (internal s1) cs) = E + mset (filter (internal s) (c # cs))"
    using touch_internal[OF s1(2)] by simp
  then show ?case using s1 s2 touch_trans[OF s1(2) s2(2)] by auto
qed simp

lemma deref_children_spec:
  assumes "hinv S M (E + mset (filter (internal s) cs)) s" "\<forall>c\<in>set cs. nodes s c \<noteq> None"
  shows "\<exists>s'. iter_state deref_nonterminal cs s = Some s' \<and> touch s s' \<and> hinv S M E s'
           \<and> temp_refs_pool s' = temp_refs_pool s"
  using assms
proof (induction cs arbitrary: s)
  case (Cons c cs)
  let ?E = "E + mset (filter (internal s) cs)"
  have "hinv S M (if internal s c then add_mset c ?E else ?E) s"
    using Cons.prems(1) by (auto split: if_splits)
  then obtain s1 where s1: "deref_nonterminal c s = Some s1" "touch s s1" "hinv S M ?E s1"
    "temp_refs_pool s1 = temp_refs_pool s"
    using deref_nonterminal_spec[of S M s c ?E] Cons.prems(2) by auto
  have "hinv S M (E + mset (filter (internal s1) cs)) s1" using s1(3) touch_internal[OF s1(2)] by simp
  moreover have "\<forall>c\<in>set cs. nodes s1 c \<noteq> None" using Cons.prems(2) touch_known[OF s1(2)] by simp
  ultimately obtain s2 where "iter_state deref_nonterminal cs s1 = Some s2" "touch s1 s2" "hinv S M E s2"
    "temp_refs_pool s2 = temp_refs_pool s1" using Cons.IH by blast
  then show ?case using s1 touch_trans[OF s1(2)] by auto
qed simp

end
