(* ===== verification/Sweep_Correct.thy ===== *)
theory Sweep_Correct
  imports Heap_Invariant
begin

text \<open>
  The invariant is kept by the temporary references, by node removal (\<open>mtpndd_release_node\<close>), by
  the sweep, the leaf collection, the rehash of a table and by \<open>mtpndd_mk\<close>.  Removal and
  insertion of a node are stated for any state that has the right components, so that the
  order of the single assignments in the code does not matter to the proof.
\<close>

section \<open>Temporary references\<close>

abbreviation stack :: "mstate \<Rightarrow> ptr list" where
  "stack s \<equiv> tr_items (temp_refs_pool s)"

lemma reserve_slot_touch:
  assumes "mtpndd_temp_refs_reserve_slot s = (ok, s')"
  shows "touch s s' \<and> nodes s' = nodes s \<and> stack s' = stack s
         \<and> (\<not> ok \<longrightarrow> heap_ready s \<longrightarrow> mem_failed (c_heap_of s'))"
proof (cases "length (stack s) = tr_capacity (temp_refs_pool s)")
  case True
  define n where "n = (if tr_capacity (temp_refs_pool s) \<noteq> 0
                       then tr_capacity (temp_refs_pool s) * 2 else 64)"
  obtain p s1 where m: "malloc (n * 8) s = (p, s1)" by fastforce
  note q = malloc_quiet[OF m]
  have t1: "touch s s1" by (rule quiet_touch[OF q])
  have f1: "nodes s1 = nodes s" "temp_refs_pool s1 = temp_refs_pool s" using quiet_fields[OF q] by auto
  have s': "s' = (if p = NULL then s1
      else s1\<lparr>temp_refs_pool := (temp_refs_pool s)\<lparr>tr_capacity := n, tr_inline := False\<rparr>\<rparr>)"
    using assms m True by (auto simp: mtpndd_temp_refs_reserve_slot_def Let_def n_def split: if_splits)
  have "touch s1 s'" unfolding s'
    by (simp add: touch_def protected_kept_def content_def fun_eq_iff res_mono_same)
  moreover have "\<not> ok \<longrightarrow> p = NULL"
    using assms m True by (auto simp: mtpndd_temp_refs_reserve_slot_def Let_def n_def split: if_splits)
  ultimately show ?thesis using touch_trans[OF t1] f1 s' malloc_failed[of "n * 8" s s1] m
    by (auto simp: heap_ready_def)
next
  case False
  then show ?thesis using assms by (simp add: mtpndd_temp_refs_reserve_slot_def)
qed

lemma temp_put_touch: "touch s (temp_refs_put p s)" "nodes (temp_refs_put p s) = nodes s"
  by (simp_all add: temp_refs_put_def touch_def protected_kept_def content_def fun_eq_iff res_mono_same)

lemma hinv_touch_nodes: "hinv S M E s \<Longrightarrow> touch s s' \<Longrightarrow> nodes s' = nodes s \<Longrightarrow> hinv S M E s'"
  using hinv_touch refs_ok_cong hinv_def by metis

lemma push_owned_spec:
  assumes h: "hinv S M E s" and a: "mtpndd_temp_refs_push_owned p s = (ok, s')"
  shows "touch s s' \<and> hinv S M E s' \<and> nodes s' = nodes s
         \<and> stack s' = (if ok \<and> p \<noteq> NULL then p # stack s else stack s)
         \<and> (\<not> ok \<longrightarrow> heap_ready s \<longrightarrow> mem_failed (c_heap_of s'))"
proof (cases "p = NULL")
  case False
  obtain ok1 s1 where r: "mtpndd_temp_refs_reserve_slot s = (ok1, s1)" by fastforce
  note rs = reserve_slot_touch[OF r]
  have eq: "ok = ok1" "s' = (if ok1 then temp_refs_put p s1 else s1)"
    using a False r by (auto simp: mtpndd_temp_refs_push_owned_def split: if_splits)
  have "touch s s'" "nodes s' = nodes s" "stack s' = (if ok then p # stack s else stack s)"
    using eq rs temp_put_touch[where s = s1 and p = p] touch_trans by (auto simp: temp_refs_put_def)
  then show ?thesis using hinv_touch_nodes[OF h] False eq rs by auto
qed (use assms in \<open>simp add: mtpndd_temp_refs_push_owned_def\<close>)

lemma push_spec:
  assumes h: "hinv S M E s" and p: "holdable s p"
  shows "\<exists>ok s'. mtpndd_temp_refs_push p s = Some (ok, s') \<and> touch s s'
     \<and> (if ok then hinv S M (add_mset p E) s' \<and> stack s' = p # stack s
        else hinv S M E s' \<and> stack s' = stack s \<and> (heap_ready s \<longrightarrow> mem_failed (c_heap_of s')))"
proof -
  obtain ok1 s1 where r: "mtpndd_temp_refs_reserve_slot s = (ok1, s1)" by fastforce
  note rs = reserve_slot_touch[OF r]
  have h1: "hinv S M E s1" using hinv_touch_nodes[OF h] rs by simp
  have p1: "holdable s1 p" using p rs touch_internal[of s s1] by (simp add: holdable_def)
  have p0: "p \<noteq> NULL" using holdable_known[OF h p] by simp
  show ?thesis
  proof (cases ok1)
    case True
    obtain s2 where s2: "mtpndd_ref p s1 = Some (MTPNDD_SUCCESS, s2)" "touch s1 s2"
      "hinv S M (add_mset p E) s2" "temp_refs_pool s2 = temp_refs_pool s1"
      using ref_spec[OF h1 p1] by blast
    let ?s = "temp_refs_put p s2"
    have "touch s ?s" using rs s2(2) temp_put_touch[where s = s2 and p = p] touch_trans by blast
    moreover have "hinv S M (add_mset p E) ?s"
      using hinv_touch_nodes[OF s2(3)] temp_put_touch[where s = s2 and p = p] by blast
    ultimately show ?thesis using True r s2 p0 rs
      by (intro exI[of _ True] exI[of _ ?s]) (simp add: mtpndd_temp_refs_push_def temp_refs_put_def)
  next
    case False
    then show ?thesis using r p0 rs h1
      by (intro exI[of _ False] exI[of _ s1]) (simp add: mtpndd_temp_refs_push_def)
  qed
qed

lemma temp_refs_pop_spec:
  assumes "hinv S M (E + mset F) s" "stack s = F @ base"
  shows "\<exists>s'. temp_refs_pop (length F) s = Some s' \<and> touch s s' \<and> hinv S M E s' \<and> stack s' = base"
  using assms
proof (induction F arbitrary: s)
  case (Cons p F)
  let ?s = "s\<lparr>temp_refs_pool := (temp_refs_pool s)\<lparr>tr_items := F @ base\<rparr>\<rparr>"
  have t0: "touch s ?s" by (simp add: touch_def protected_kept_def content_def fun_eq_iff res_mono_same)
  have "hinv S M (add_mset p (E + mset F)) ?s" using hinv_touch_nodes[OF Cons.prems(1) t0] by simp
  then obtain s1 where s1: "mtpndd_deref p ?s = Some (MTPNDD_SUCCESS, s1)" "touch ?s s1"
    "hinv S M (E + mset F) s1" "temp_refs_pool s1 = temp_refs_pool ?s"
    using deref_spec by blast
  have "stack s1 = F @ base" using s1(4) by simp
  from Cons.IH[OF s1(3) this] obtain s2 where s2: "temp_refs_pop (length F) s1 = Some s2"
    "touch s1 s2" "hinv S M E s2" "stack s2 = base" by blast
  then show ?case using Cons.prems(2) s1 touch_trans[OF touch_trans[OF t0 s1(2)] s2(2)] by simp
qed simp

lemma temp_refs_release_spec:
  assumes "hinv S M (E + mset F) s" "stack s = F @ base"
  shows "\<exists>s'. mtpndd_temp_refs_release (length base) s = Some s' \<and> touch s s' \<and> hinv S M E s'
           \<and> stack s' = base"
  using temp_refs_pop_spec[OF assms] assms(2) by (simp add: mtpndd_temp_refs_release_def)

text \<open>
  What popping does to the reference counts: every node loses as many references as the frame held,
  and a protected node, whose count is all ones, keeps its count.
\<close>

definition drop_refs :: "nat \<Rightarrow> mtpndd_node \<Rightarrow> mtpndd_node" where
  "drop_refs k nd = nd\<lparr>ref_count := (if ref_count nd = - 1 then - 1 else word_of_nat (unat (ref_count nd) - k))\<rparr>"

lemma drop_refs_0 [simp]: "drop_refs 0 nd = nd"
  by (simp add: drop_refs_def)

lemma drop_refs_Suc: "drop_refs k (drop_refs (Suc 0) nd) = drop_refs (Suc k) nd"
proof (cases "ref_count nd = - 1")
  case False
  define w where "w = ref_count nd"
  have "unat w - Suc 0 < 2 ^ 32" using unsigned_less[of w, where 'a = nat] by simp
  then have u: "unat (word_of_nat (unat w - Suc 0) :: 32 word) = unat w - Suc 0" by (simp add: unat_of_nat)
  have m: "unat (- 1 :: 32 word) = 2 ^ 32 - 1" by (simp add: unsigned_minus_1_eq_mask mask_eq_exp_minus_1)
  have "unat w \<noteq> 2 ^ 32 - 1" using False m unfolding w_def[symmetric] by (metis word_unat_eq_iff)
  then have "unat w - Suc 0 \<noteq> 2 ^ 32 - 1" using unsigned_less[of w, where 'a = nat] by simp
  then have "(word_of_nat (unat w - Suc 0) :: 32 word) \<noteq> - 1" using u m by metis
  then show ?thesis using False u unfolding drop_refs_def w_def[symmetric] by (simp add: w_def[symmetric])
qed (simp add: drop_refs_def)

lemma drop_refs_unat:
  assumes "ref_count nd \<noteq> - 1" "k \<le> unat (ref_count nd)"
  shows "unat (ref_count nd) = unat (ref_count (drop_refs k nd)) + k"
proof -
  define m where "m = unat (ref_count nd) - k"
  have "m < 2 ^ 32" using unsigned_less[of "ref_count nd", where 'a = nat] by (simp add: m_def)
  then have "unat (word_of_nat m :: 32 word) = m" by (simp add: unat_of_nat)
  moreover have "ref_count (drop_refs k nd) = word_of_nat m" using assms(1) by (simp add: drop_refs_def m_def)
  ultimately show ?thesis using assms(2) m_def by simp
qed

lemma refs_ok_bound:
  assumes "refs_ok E s" "nodes s p = Some nd" "ref_count nd \<noteq> - 1"
  shows "count E p \<le> unat (ref_count nd)"
  using assms refs_ok_leaf[OF assms(1,2)] refs_ok_node[OF assms(1,2)] by (cases "body nd") auto

lemma deref_counts:
  assumes h: "hinv S M (add_mset p E) s" and d: "mtpndd_deref p s = Some (st, s')"
  shows "nodes s' = (nodes s)(p := map_option (drop_refs 1) (nodes s p))"
proof -
  have r: "refs_ok (add_mset p E) s" using h by (simp add: hinv_def)
  then have "holdable s p" by (simp add: refs_ok_def holdable_def)
  from holdable_known[OF h this] obtain nd where nd: "nodes s p = Some nd" "p \<noteq> NULL" by auto
  show ?thesis
  proof (cases "ref_count nd = - 1")
    case True
    then show ?thesis using d nd by (simp add: mtpndd_deref_def drop_refs_def fun_upd_idem)
  next
    case False
    then obtain m where m: "body nd = NEdges m" using refs_ok_leaf[OF r nd(1)] by (cases "body nd") auto
    have "1 \<le> unat (ref_count nd)" using refs_ok_node[OF r nd(1) m] False by simp
    then have "ref_count nd \<noteq> 0" by auto
    then have "word_of_nat (unat (ref_count nd) - 1) = ref_count nd - 1"
      by (simp add: Suc_le_eq unat_gt_0)
    then show ?thesis using d nd False by (auto simp: mtpndd_deref_def set_ref_count_def drop_refs_def)
  qed
qed

lemma temp_refs_pop_counts:
  assumes "hinv S M (E + mset F) s" "stack s = F @ base" "temp_refs_pop (length F) s = Some s'"
  shows "nodes s' p = map_option (drop_refs (count (mset F) p)) (nodes s p)"
  using assms
proof (induction F arbitrary: s)
  case (Cons q F)
  let ?s = "s\<lparr>temp_refs_pool := (temp_refs_pool s)\<lparr>tr_items := F @ base\<rparr>\<rparr>"
  have t0: "touch s ?s" by (simp add: touch_def protected_kept_def content_def fun_eq_iff res_mono_same)
  have h: "hinv S M (add_mset q (E + mset F)) ?s" using hinv_touch_nodes[OF Cons.prems(1) t0] by simp
  obtain s1 where s1: "mtpndd_deref q ?s = Some (MTPNDD_SUCCESS, s1)" "hinv S M (E + mset F) s1"
    "temp_refs_pool s1 = temp_refs_pool ?s" using deref_spec[OF h] by blast
  have "temp_refs_pop (length F) s1 = Some s'" using Cons.prems(2,3) s1(1) by simp
  from Cons.IH[OF s1(2) _ this] have "nodes s' p = map_option (drop_refs (count (mset F) p)) (nodes s1 p)"
    using s1(3) by simp
  then show ?case unfolding deref_counts[OF h s1(1)]
    by (auto simp: option.map_comp comp_def drop_refs_Suc intro: option.map_cong0)
qed (simp add: option.map_ident_strong)

lemma temp_refs_release_counts:
  assumes "hinv S M (E + mset F) s" "stack s = F @ base" "mtpndd_temp_refs_release (length base) s = Some s'"
  shows "nodes s' p = map_option (drop_refs (count (mset F) p)) (nodes s p)"
  using temp_refs_pop_counts[OF assms(1,2)] assms(2,3) by (simp add: mtpndd_temp_refs_release_def)

section \<open>Live nodes have references\<close>

lemma hinvD:
  assumes "hinv S M E s" shows "sinv S M s" "refs_ok E s" "rinv s"
  using assms by (simp_all add: hinv_def)

lemma node_rc:
  assumes "refs_ok E s" "nodes s p = Some nd" "body nd = NEdges m" "ref_count nd = 0" "rinv s"
  shows "p \<notin># E \<and> parents s p = {}"
proof -
  have "ref_count nd \<noteq> - 1" using assms(4) by simp
  then have "card (parents s p) + count E p \<le> 0" using refs_ok_node[OF assms(1-3)] assms(4) by simp
  then show ?thesis using finite_parents[OF assms(5)] by (simp add: not_in_iff)
qed

lemma live_rc:
  assumes h: "hinv S M E s" and l: "live E s p" and nd: "nodes s p = Some nd" "body nd = NEdges m"
  shows "ref_count nd \<noteq> 0"
proof
  assume z: "ref_count nd = 0"
  then have n: "p \<notin># E" "parents s p = {}"
    using node_rc[OF _ nd z] h by (auto simp: hinv_def)
  from l show False
  proof (cases rule: live.cases)
    case (live_child q m')
    then have "q \<in> parents s p" by (auto simp: parents_def node_edges_content)
    then show False using n by simp
  qed (use n z nd sentinels_not_internal[of S M s] h in
        \<open>auto simp: hinv_def internal_content content_Some\<close>)
qed

section \<open>Removing a node\<close>

definition dec_ref :: "mtpndd_node \<Rightarrow> mtpndd_node" where
  "dec_ref nd = (if MTPNDD_LEAF_FIELD_ID_MIN \<le> field_id nd \<or> ref_count nd = - 1 then nd
                 else nd\<lparr>ref_count := ref_count nd - 1\<rparr>)"

text \<open>The effect of dropping the references to distinct children.\<close>

lemma deref_children_effect:
  assumes "distinct cs" "\<forall>c\<in>set cs. nodes s c \<noteq> None" "nodes s NULL = None"
  shows "iter_state deref_child cs s =
     Some (s\<lparr>nodes := (\<lambda>q. if q \<in> set cs then map_option dec_ref (nodes s q) else nodes s q)\<rparr>)"
  using assms
proof (induction cs arbitrary: s)
  case (Cons c cs)
  obtain nd where nd: "nodes s c = Some nd" using Cons.prems(2) by auto
  let ?s = "s\<lparr>nodes := (nodes s)(c \<mapsto> dec_ref nd)\<rparr>"
  have c0: "c \<noteq> NULL" using nd Cons.prems(3) by (metis option.distinct(1))
  have "deref_child c s = Some ?s"
    using nd c0 by (auto simp: deref_child_def deref_nonterminal_def mtpndd_is_terminal_def
        mtpndd_deref_def set_ref_count_def dec_ref_def fun_upd_idem)
  moreover have "iter_state deref_child cs ?s = Some (?s\<lparr>nodes := (\<lambda>q. if q \<in> set cs
      then map_option dec_ref (nodes ?s q) else nodes ?s q)\<rparr>)"
    by (rule Cons.IH) (use Cons.prems c0 in auto)
  moreover have "(\<lambda>q. if q \<in> set cs then map_option dec_ref (nodes ?s q) else nodes ?s q)
      = (\<lambda>q. if q \<in> set (c # cs) then map_option dec_ref (nodes s q) else nodes s q)"
    using nd Cons.prems(1) by (auto simp: fun_eq_iff)
  ultimately show ?case by simp
qed simp

definition removed_nodes :: "ptr \<Rightarrow> mtpndd_edge \<Rightarrow> mstate \<Rightarrow> ptr \<rightharpoonup> mtpndd_node" where
  "removed_nodes p m s = (\<lambda>q. if q = p then None
     else if q \<in> dom (emap m) then map_option dec_ref (nodes s q) else nodes s q)"

lemma dec_ref_simps [simp]: "field_id (dec_ref nd) = field_id nd" "body (dec_ref nd) = body nd"
  by (simp_all add: dec_ref_def)

lemma removed_content:
  "nodes s' = removed_nodes p m s \<Longrightarrow> content s' q = (if q = p then None else content s q)"
  by (simp add: content_def removed_nodes_def option.map_comp comp_def)

lemma node_count_le_parents:
  assumes "rinv s" "content s p = Some (f, NEdges m)" "q \<in> dom (emap m)"
  shows "card (parents s q) = Suc (card (parents s q - {p}))"
proof -
  have "p \<in> parents s q" using assms by (auto simp: parents_def)
  then show ?thesis using finite_parents[OF assms(1)] by (metis card.remove)
qed

lemma remove_refs:
  assumes h: "hinv S M E s" and p: "nodes s p = Some nd" "body nd = NEdges m" "ref_count nd = 0"
    and n: "nodes s' = removed_nodes p m s"
  shows "refs_ok E s'"
proof -
  have si: "sinv S M s" and r: "refs_ok E s" and ri: "rinv s" using h by (auto simp: hinv_def)
  have pc: "content s p = Some (field_id nd, NEdges m)" using p by (simp add: content_Some)
  have np: "p \<notin># E" "parents s p = {}" using node_rc[OF r p ri] by auto
  have par: "parents s' q = parents s q - {p}" for q
    using removed_content[OF n] by (auto simp: parents_def)
  have int: "internal s' q \<longleftrightarrow> internal s q \<and> q \<noteq> p" for q
    using removed_content[OF n] by (auto simp: internal_content)
  show ?thesis
    unfolding refs_ok_def
  proof (intro conjI allI impI ballI)
    fix q qd assume q: "nodes s' q = Some qd"
    then have qp: "q \<noteq> p" using n by (auto simp: removed_nodes_def)
    then obtain qd0 where qd0: "nodes s q = Some qd0" "body qd = body qd0"
      "qd = (if q \<in> dom (emap m) then dec_ref qd0 else qd0)"
      using q n by (auto simp: removed_nodes_def split: if_splits)
    show "case body qd of NLeaf v \<Rightarrow> ref_count qd = - 1
      | NEdges m' \<Rightarrow> ref_count qd = - 1 \<or> card (parents s' q) + count E q \<le> unat (ref_count qd)"
    proof (cases "body qd0")
      case (NLeaf v)
      then show ?thesis using refs_ok_leaf[OF r qd0(1)] qd0 by (simp add: dec_ref_def)
    next
      case (NEdges m')
      note rn = refs_ok_node[OF r qd0(1) NEdges]
      have nf: "\<not> MTPNDD_LEAF_FIELD_ID_MIN \<le> field_id qd0"
        using sinv_node(7)[OF si, of q] qd0(1) NEdges by (auto simp: content_Some)
      show ?thesis
      proof (cases "q \<in> dom (emap m) \<and> ref_count qd0 \<noteq> - 1")
        case True
        then have le: "Suc (card (parents s' q)) + count E q \<le> unat (ref_count qd0)"
          using rn node_count_le_parents[OF ri pc, of q] par by simp
        then have "unat (ref_count qd0 - 1) = unat (ref_count qd0) - 1"
          by (intro unat_minus_one) auto
        then show ?thesis using le True nf qd0 NEdges by (auto simp: dec_ref_def)
      next
        case False
        have "card (parents s' q) \<le> card (parents s q)"
          unfolding par by (rule card_mono[OF finite_parents[OF ri]]) auto
        then show ?thesis using False rn qd0 NEdges by (auto simp: dec_ref_def)
      qed
    qed
  next
    fix q assume "q \<in># E"
    then show "internal s' q \<or> q = MTPNDD_TRUE \<or> q = MTPNDD_FALSE"
      using r np by (auto simp: refs_ok_def int)
  qed
qed

lemma mset_remove_entry:
  assumes "i < length bs" "e \<in> set (bs ! i)"
  shows "mset (concat bs) = add_mset e (mset (concat (bs[i := remove1 e (bs ! i)])))"
proof -
  obtain D where D: "mset (concat bs) = mset (bs ! i) + D"
    using mset_nth_subset_concat[OF assms(1)] by (auto simp: subset_mset.le_iff_add)
  then have "mset (concat (bs[i := remove1 e (bs ! i)])) = mset (remove1 e (bs ! i)) + D"
    using mset_concat_update[OF assms(1), of "remove1 e (bs ! i)"] by simp
  then show ?thesis using D assms(2) by simp
qed

lemma table_shape_remove:
  assumes t: "table_shape t" and i: "i < length (nt_buckets t)" "e \<in> set (nt_buckets t ! i)"
    and t': "nodetable_bucket_count t' = nodetable_bucket_count t"
      "nt_buckets t' = (nt_buckets t)[i := remove1 e (nt_buckets t ! i)]"
      "nt_entry_count t' = nt_entry_count t - 1"
  shows "table_shape t' \<and> mset (tentries t) = add_mset e (mset (tentries t'))"
proof -
  have ms: "mset (tentries t) = add_mset e (mset (tentries t'))"
    using mset_remove_entry[OF i] t'(2) by (simp add: tentries_def)
  have len: "length (tentries t) = Suc (length (tentries t'))"
    using arg_cong[OF ms, of size] by simp
  have "mset (map nte_node (tentries t)) = mset (nte_node e # map nte_node (tentries t'))"
    using ms by simp
  then have "distinct (nte_node e # map nte_node (tentries t'))"
    using t mset_eq_imp_distinct_iff unfolding table_shape_def by blast
  moreover have "\<forall>j<length (nt_buckets t'). \<forall>x\<in>set (nt_buckets t' ! j).
      mask_index (nte_hash x) (nodetable_bucket_count t) = j"
  proof (intro allI impI ballI)
    fix j x assume j: "j < length (nt_buckets t')" and x: "x \<in> set (nt_buckets t' ! j)"
    then have "x \<in> set (nt_buckets t ! j)"
      using t'(2) i(1) set_remove1_subset[of e "nt_buckets t ! i"]
      by (cases "j = i") auto
    then show "mask_index (nte_hash x) (nodetable_bucket_count t) = j"
      using t j t'(2) by (simp add: table_shape_def)
  qed
  ultimately show ?thesis using t ms len t' by (simp add: table_shape_def)
qed

lemma sinv_table: "sinv S M s \<Longrightarrow> f \<in> tabled s \<Longrightarrow>
    \<exists>t. node_tables_by_field s f = Some t \<and> table_wf s f t"
  unfolding sinv_def tables_ok_def by blast

lemma sinv_table_wf: "sinv S M s \<Longrightarrow> f \<in> tabled s \<Longrightarrow>
    node_tables_by_field s f = Some t \<Longrightarrow> table_wf s f t"
  using sinv_table[of S M s f] by auto

lemma remove_nodes_wf:
  assumes si: "sinv S M s" and np: "parents s p = {}" and n: "nodes s' = removed_nodes p m s"
    and tb: "tabled s' = tabled s" and x: "content s' q = Some x"
  shows "node_wf S M s' x"
proof -
  note ct = removed_content[OF n]
  have q: "content s q = Some x" using x ct by (simp split: if_splits)
  have "content s' c = content s c" if "x = (fst x, NEdges m')" "c \<in> dom (emap m')" for c m'
  proof -
    have "q \<in> parents s c" using q that by (cases x) (auto simp: parents_def)
    then have "c \<noteq> p" using np by auto
    then show ?thesis using ct by simp
  qed
  then have "node_wf S M s' x = node_wf S M s x"
    by (intro node_wf_cong[where f = "fst x"]) (use tb in auto)
  then show ?thesis using si q unfolding sinv_def by blast
qed

lemma remove_table_wf:
  assumes tw: "table_wf s f t" and n: "nodes s' = removed_nodes p m s"
    and i: "i < length (nt_buckets t)" "e \<in> set (nt_buckets t ! i)" "nte_node e = p"
    and t': "nodetable_bucket_count t' = nodetable_bucket_count t"
      "nt_buckets t' = (nt_buckets t)[i := remove1 e (nt_buckets t ! i)]"
      "nt_entry_count t' = nt_entry_count t - 1"
  shows "table_wf s' f t'"
proof -
  have ctp: "content s' q = Some x \<longleftrightarrow> q \<noteq> p \<and> content s q = Some x" for q x
    using removed_content[OF n] by simp
  have ts: "table_shape t" using tw by (simp add: table_wf_def)
  note sh = table_shape_remove[OF ts i(1,2) t']
  have "mset (map nte_node (tentries t)) = mset (nte_node e # map nte_node (tentries t'))"
    using sh by simp
  then have "distinct (nte_node e # map nte_node (tentries t'))"
    using ts mset_eq_imp_distinct_iff unfolding table_shape_def by blast
  then have dist: "nte_node e \<notin> nte_node ` set (tentries t')" by simp
  have set_t: "set (tentries t) = insert e (set (tentries t'))"
    using sh by (metis set_mset_add_mset_insert set_mset_mset)
  have "entry_ok s' f x" if x: "x \<in> set (tentries t')" for x
  proof -
    have "nte_node x \<noteq> p" using dist i(3) imageI[OF x, of nte_node] by metis
    moreover have "entry_ok s f x" using tw set_t x by (simp add: table_wf_def)
    ultimately show ?thesis by (simp add: entry_ok_def ctp)
  qed
  moreover have "q \<in> nte_node ` set (tentries t')" if "content s' q = Some (f, NEdges m')" for q m'
  proof -
    have "q \<noteq> p" "q \<in> nte_node ` set (tentries t)" using that tw ctp[of q] by (auto simp: table_wf_def)
    then show ?thesis using set_t i(3) by auto
  qed
  ultimately show ?thesis using sh unfolding table_wf_def by blast
qed

lemma remove_other_table:
  assumes u: "table_wf s g u" and n: "nodes s' = removed_nodes p m s"
    and p: "content s p = Some (f, b)" "f \<noteq> g"
  shows "table_wf s' g u"
proof -
  have ctp: "content s' q = Some x \<longleftrightarrow> q \<noteq> p \<and> content s q = Some x" for q x
    using removed_content[OF n] by simp
  have "entry_ok s' g x" if "x \<in> set (tentries u)" for x
  proof -
    have x: "entry_ok s g x" using u that by (simp add: table_wf_def)
    then have "nte_node x \<noteq> p" using p by (auto simp: entry_ok_def)
    then show ?thesis using x by (simp add: entry_ok_def ctp)
  qed
  then show ?thesis using u by (auto simp: table_wf_def ctp)
qed

lemma remove_struct:
  assumes h: "hinv S M E s" and p: "nodes s p = Some nd" "body nd = NEdges m" "ref_count nd = 0"
    and n: "nodes s' = removed_nodes p m s"
    and t: "node_tables_by_field s (field_id nd) = Some t"
    and i: "i < length (nt_buckets t)" "e \<in> set (nt_buckets t ! i)" "nte_node e = p"
    and t': "nodetable_bucket_count t' = nodetable_bucket_count t"
      "nt_buckets t' = (nt_buckets t)[i := remove1 e (nt_buckets t ! i)]"
      "nt_entry_count t' = nt_entry_count t - 1"
    and nt: "node_tables_by_field s' = (node_tables_by_field s)(field_id nd \<mapsto> t')"
    and same: "leaf_table s' = leaf_table s" "double_leaf_table s' = double_leaf_table s"
      "field_count s' = field_count s"
  shows "sinv S M s'"
proof -
  have si: "sinv S M s" and r: "refs_ok E s" and ri: "rinv s" using h by (auto simp: hinv_def)
  let ?f = "field_id nd"
  have pc: "content s p = Some (?f, NEdges m)" using p by (simp add: content_Some)
  have np: "parents s p = {}" using node_rc[OF r p ri] by auto
  have tb: "tabled s' = tabled s" by (rule tabled_upd[OF same(3) nt sinv_node(8)[OF si pc]])
  note ct = removed_content[OF n]
  have ctp: "content s' q = Some x \<longleftrightarrow> q \<noteq> p \<and> content s q = Some x" for q x using ct by simp
  have tf: "p \<noteq> MTPNDD_TRUE" "p \<noteq> MTPNDD_FALSE"
    using pc si by (auto simp: sinv_def sentinels_ok_def)
  have tw: "table_wf s ?f t" by (rule sinv_table_wf[OF si sinv_node(8)[OF si pc] t])
  have tables: "\<exists>u. node_tables_by_field s' g = Some u \<and> table_wf s' g u"
    if g: "g \<in> tabled s'" for g
  proof (cases "g = ?f")
    case True
    then show ?thesis using remove_table_wf[OF tw n i t'] nt by simp
  next
    case False
    then obtain u where u: "node_tables_by_field s g = Some u" "table_wf s g u"
      using si g tb by (fastforce simp: sinv_def tables_ok_def)
    then show ?thesis using remove_other_table[OF u(2) n pc] False nt by simp
  qed
  have "leaf_table_wf s' lf u" if "leaf_table_wf s lf u" for lf u
    using that pc by (auto simp: leaf_table_wf_def ctp)
  then have leaf: "leaf_tables_ok s'"
    using si same by (auto simp: sinv_def leaf_tables_ok_def leaf_table_of_def)
  have "sentinels_ok s'" using si tf by (simp add: sinv_def sentinels_ok_def ct)
  moreover have "unique_nodes s'" using si by (auto simp: sinv_def unique_nodes_def ctp)
  ultimately show ?thesis
    using remove_nodes_wf[OF si np n tb] tables leaf si same(3) by (auto simp: sinv_def tables_ok_def)
qed

lemma remove_keeps:
  assumes h: "hinv S M E s" and p: "nodes s p = Some nd" "body nd = NEdges m" "ref_count nd = 0"
    and n: "nodes s' = removed_nodes p m s" and f: "field_count s' = field_count s" "tabled s' = tabled s"
  shows "keeps E s s'"
proof -
  note ct = removed_content[OF n]
  have np: "q \<noteq> p" if "live E s q" for q using live_rc[OF h that] p by auto
  have ed: "node_edges s' q = Some m' \<longleftrightarrow> q \<noteq> p \<and> node_edges s q = Some m'" for q m'
    by (simp add: node_edges_content ct)
  have "live E s' q" if "live E s q" for q
    using that
  proof (induction rule: live.induct)
    case (live_held q)
    then have "q \<noteq> p" using np live.live_held by blast
    then have "internal s' q" using live_held(2) ct by (simp add: internal_content)
    then show ?case using live_held(1) by (rule live.live_held[rotated])
  next
    case (live_protected q nd)
    have qp: "q \<noteq> p" using np live.live_protected[OF live_protected(1-3)] by blast
    then have "internal s' q" using live_protected(3) ct by (simp add: internal_content)
    moreover obtain nd' where "nodes s' q = Some nd'" "ref_count nd' = - 1"
      using n qp live_protected(1,2) by (cases "q \<in> dom (emap m)") (auto simp: removed_nodes_def dec_ref_def)
    ultimately show ?case using live.live_protected by blast
  next
    case (live_child q m' c)
    have "q \<noteq> p" using np live_child(1) by blast
    then have "node_edges s' q = Some m'" using live_child(2) ed by simp
    then show ?case using live_child by (auto intro: live.live_child)
  qed (auto intro: live.intros)
  then show ?thesis using ct np f by (simp add: keeps_def)
qed

text \<open>
  \<open>low_same f\<close>: the nodes of fields up to \<open>f\<close> are unchanged or gone.  Removing a node of
  field \<open>f\<close> only lowers counts in later fields.
\<close>

definition low_same :: "nat \<Rightarrow> mstate \<Rightarrow> mstate \<Rightarrow> bool" where
  "low_same f s s' \<longleftrightarrow> (\<forall>q nd. nodes s' q = Some nd \<longrightarrow> field_id nd \<le> f \<longrightarrow> nodes s q = Some nd)"

lemma low_same_refl [simp]: "low_same f s s"
  by (simp add: low_same_def)

lemma low_same_trans: "low_same f s t \<Longrightarrow> low_same f t u \<Longrightarrow> low_same f s u"
  by (simp add: low_same_def)

text \<open>What a collection leaves alone outside the heap proper.\<close>

definition gc_frame :: "mstate \<Rightarrow> mstate \<Rightarrow> bool" where
  "gc_frame s s' \<longleftrightarrow> leaf_table s' = leaf_table s \<and> double_leaf_table s' = double_leaf_table s
     \<and> field_count s' = field_count s \<and> temp_refs_pool s' = temp_refs_pool s
     \<and> and_cache s' = and_cache s \<and> or_cache s' = or_cache s \<and> not_cache s' = not_cache s
     \<and> gc_running s' = gc_running s \<and> g_pal_config s' = g_pal_config s
     \<and> g_edge_bucket_count s' = g_edge_bucket_count s \<and> res_mono s s'"

lemma gc_frame_refl [simp]: "gc_frame s s"
  by (simp add: gc_frame_def)

lemma gc_frame_trans: "gc_frame s t \<Longrightarrow> gc_frame t u \<Longrightarrow> gc_frame s u"
  using res_mono_trans[of s t u] by (simp add: gc_frame_def)

definition entry_removed ::
  "nat \<Rightarrow> nat \<Rightarrow> nodetable_bucket_entry \<Rightarrow> mtpndd_nodetable \<Rightarrow> mstate \<Rightarrow> mstate \<Rightarrow> bool" where
  "entry_removed f i e t s s' \<longleftrightarrow>
     (\<exists>t'. node_tables_by_field s' = (node_tables_by_field s)(f \<mapsto> t')
        \<and> nodetable_bucket_count t' = nodetable_bucket_count t
        \<and> nt_buckets t' = (nt_buckets t)[i := remove1 e (nt_buckets t ! i)]
        \<and> nt_entry_count t' = nt_entry_count t - 1)"

lemma table_entry_content:
  assumes si: "sinv S M s" and t: "node_tables_by_field s f = Some t" and f: "f \<in> tabled s"
    and i: "i < length (nt_buckets t)" "e \<in> set (nt_buckets t ! i)"
  shows "content s (nte_node e) = Some (f, NEdges (nte_edges e))" "0 < nt_entry_count t"
proof -
  have tw: "table_wf s f t" using sinv_table_wf[OF si f t] by simp
  have e: "e \<in> set (tentries t)" unfolding tentries_def set_concat_nth using i by blast
  then show "content s (nte_node e) = Some (f, NEdges (nte_edges e))"
    using tw by (simp add: table_wf_def entry_ok_def)
  show "0 < nt_entry_count t"
    using tw e length_pos_if_in_set[OF e] by (simp add: table_wf_def table_shape_def)
qed

lemma release_node_run:
  assumes si: "sinv S M s" and ri: "rinv s" and t: "node_tables_by_field s f = Some t"
    and f: "f \<in> tabled s"
    and i: "i < length (nt_buckets t)" "e \<in> set (nt_buckets t ! i)"
  shows "\<exists>s' w. mtpndd_release_node f i e (nte_node e) s = Some s'
     \<and> nodes s' = removed_nodes (nte_node e) (nte_edges e) s
     \<and> entry_removed f i e t s s' \<and> gc_frame s s'
     \<and> g_node_pool s' = mtpndd_slab_pool_release (g_node_pool s) w (nte_node e)
     \<and> mem_limit (c_heap_of s') = mem_limit (c_heap_of s) \<and> brk (c_heap_of s) \<le> brk (c_heap_of s')"
proof -
  let ?p = "nte_node e" and ?m = "nte_edges e"
  note ct = table_entry_content(1)[OF si t f i] and cnt = table_entry_content(2)[OF si t f i]
  have wf: "wf_map s ?m" using sinv_node(6)[OF si ct] .
  let ?cs = "map ee_child (entries ?m)"
  have cs: "distinct ?cs" "set ?cs = dom (emap ?m)" using wf by (simp_all add: wf_map_def dom_emap)
  have known: "\<forall>c\<in>set ?cs. nodes s c \<noteq> None"
    unfolding cs(2) using sinv_child[OF si ct] unfolding child_ok_def by blast
  have p0: "?p \<noteq> NULL" using ct rinv_null[OF ri] by (metis content_None option.distinct(1))
  define t1 where "t1 = t\<lparr>nt_buckets := (nt_buckets t)[i := remove1 e (nt_buckets t ! i)]\<rparr>"
  define s1 where "s1 = set_table f t1 s"
  define s2 where "s2 = s1\<lparr>nodes := (\<lambda>q. if q \<in> set ?cs then map_option dec_ref (nodes s1 q) else nodes s1 q)\<rparr>"
  have n1: "nodes s1 = nodes s" by (simp add: s1_def set_table_def)
  have it: "iter_state deref_child ?cs s1 = Some s2"
    unfolding s2_def by (rule deref_children_effect) (use cs known rinv_null[OF ri] n1 in auto)
  obtain s3 where s3: "mtpndd_edge_map_free ?m s2 = Some s3" "quiet s2 s3"
    using edge_map_free_spec[OF wf, of s2] by (auto simp: succeeds_iff)
  define s4 where "s4 = mtpndd_memory_release_nodetable_entry (nte_addr e) (mtpndd_memory_release_node ?p s3)"
  define t4 where "t4 = t1\<lparr>nt_entry_count := nt_entry_count t1 - 1\<rparr>"
  note q3 = quiet_fields[OF s3(2)]
  note rel = s4_def mtpndd_memory_release_nodetable_entry_def mtpndd_memory_release_node_def
  have s2f: "node_tables_by_field s2 = (node_tables_by_field s)(f \<mapsto> t1)"
    "c_heap_of s2 = c_heap_of s" "g_node_pool s2 = g_node_pool s" "gc_frame s s2"
    by (simp_all add: s2_def s1_def set_table_def gc_frame_def res_mono_same)
  have s3f: "node_tables_by_field s3 = (node_tables_by_field s)(f \<mapsto> t1)"
    "g_node_pool s3 = g_node_pool s" "gc_frame s s3" "nodes s3 = nodes s2"
    using q3 s2f res_mono_trans[of s s2 s3] by (simp_all add: gc_frame_def)
  have r4: "res_mono s s4"
    using s3f(3) by (simp add: gc_frame_def rel res_mono_def pools_ready_def release_ready)
  have s4f: "node_tables_by_field s4 = (node_tables_by_field s)(f \<mapsto> t1)" "gc_frame s s4"
    "g_node_pool s4 = mtpndd_slab_pool_release (g_node_pool s) (cur_worker s3) ?p"
    "c_heap_of s4 = c_heap_of s3" "nodes s4 = removed_nodes ?p ?m s"
    using s3f p0 n1 cs(2) r4 by (auto simp: rel gc_frame_def s2_def removed_nodes_def fun_eq_iff)
  have "node_edges s1 ?p = Some ?m" using ct n1 by (auto simp: node_edges_content content_def)
  moreover have "nt_bucket t i = Some (nt_buckets t ! i)" using i by (simp add: nt_bucket_def)
  moreover have "set_table f (t\<lparr>nt_buckets := (nt_buckets t)[i := remove1 e (nt_buckets t ! i)]\<rparr>) s = s1"
    by (simp add: s1_def t1_def)
  ultimately have "mtpndd_release_node f i e ?p s = Some (set_table f t4 s4)"
    unfolding mtpndd_release_node_def
    using t it s3(1) s4f(1) cnt wf_map_bounds(6)[OF wf] for_each_entry_wf[OF wf, of s1]
    by (simp add: Let_def s4_def[symmetric] t4_def t1_def)
  moreover have "entry_removed f i e t s (set_table f t4 s4)"
    unfolding entry_removed_def by (rule exI[of _ t4]) (simp add: set_table_def s4f(1) t4_def t1_def)
  ultimately show ?thesis
    using s4f q3(18,19) s2f(2)
    by (intro exI[of _ "set_table f t4 s4"] exI[of _ "cur_worker s3"])
      (simp add: set_table_def gc_frame_def res_mono_def pools_ready_def)
qed

lemma removed_low_same:
  assumes si: "sinv S M s" and ct: "content s p = Some (f, NEdges m)"
    and n: "nodes s' = removed_nodes p m s"
  shows "low_same f s s'"
proof (unfold low_same_def, intro allI impI)
  fix q qd assume q: "nodes s' q = Some qd" "field_id qd \<le> f"
  show "nodes s q = Some qd"
  proof (cases "q \<in> dom (emap m)")
    case True
    then have "f < fieldof s q" using sinv_child[OF si ct] by (simp add: child_ok_def)
    then have "f < field_id qd"
      using q(1) True by (auto simp: n removed_nodes_def node_field_def split: if_splits)
    then show ?thesis using q(2) by simp
  qed (use q n in \<open>auto simp: removed_nodes_def split: if_splits\<close>)
qed

lemma removed_rinv:
  assumes si: "sinv S M s" and ri: "rinv s" and ct: "content s p = Some (f, NEdges m)"
    and n: "nodes s' = removed_nodes p m s"
    and pool: "g_node_pool s' = mtpndd_slab_pool_release (g_node_pool s) w p"
    and hp: "mem_limit (c_heap_of s') = mem_limit (c_heap_of s)" "brk (c_heap_of s) \<le> brk (c_heap_of s')"
    and bc: "g_edge_bucket_count s' = g_edge_bucket_count s"
  shows "rinv s'"
proof -
  let ?U = "dom (nodes s) - {MTPNDD_TRUE, MTPNDD_FALSE}"
  have pU: "p \<in> ?U" using ct si by (auto simp: sinv_def sentinels_ok_def content_Some)
  have d: "dom (nodes s') - {MTPNDD_TRUE, MTPNDD_FALSE} = ?U - {p}"
    unfolding n removed_nodes_def by (auto split: if_splits)
  have ok: "pool_ok (g_node_pool s) ?U (c_heap_of s)" using ri unfolding rinv_def by blast
  have "pool_ok (g_node_pool s') (?U - {p}) (c_heap_of s')"
    unfolding pool by (rule pool_ok_brk_mono[OF release_ok[OF ok pU] hp(2)])
  then show ?thesis using ri hp(1) bc d unfolding rinv_def bucket_cfg_ok_def by metis
qed

lemma release_node_spec:
  assumes h: "hinv S M E s" and t: "node_tables_by_field s f = Some t" and f: "f \<in> tabled s"
    and i: "i < length (nt_buckets t)" "e \<in> set (nt_buckets t ! i)"
    and nd: "nodes s (nte_node e) = Some nd" "ref_count nd = 0"
  shows "\<exists>s'. mtpndd_release_node f i e (nte_node e) s = Some s' \<and> hinv S M E s' \<and> keeps E s s'
     \<and> low_same f s s' \<and> gc_frame s s' \<and> entry_removed f i e t s s'
     \<and> dom (nodes s') = dom (nodes s) - {nte_node e}"
proof -
  have si: "sinv S M s" and ri: "rinv s" using h by (auto simp: hinv_def)
  let ?p = "nte_node e" and ?m = "nte_edges e"
  note ct = table_entry_content(1)[OF si t f i]
  have b: "body nd = NEdges ?m" "field_id nd = f" using ct nd(1) by (auto simp: content_Some)
  obtain s' w where run: "mtpndd_release_node f i e ?p s = Some s'"
    and n: "nodes s' = removed_nodes ?p ?m s" and er: "entry_removed f i e t s s'" and fr: "gc_frame s s'"
    and pool: "g_node_pool s' = mtpndd_slab_pool_release (g_node_pool s) w ?p"
    and hp: "mem_limit (c_heap_of s') = mem_limit (c_heap_of s)" "brk (c_heap_of s) \<le> brk (c_heap_of s')"
    using release_node_run[OF si ri t f i] by blast
  obtain t' where t': "node_tables_by_field s' = (node_tables_by_field s)(f \<mapsto> t')"
    "nodetable_bucket_count t' = nodetable_bucket_count t"
    "nt_buckets t' = (nt_buckets t)[i := remove1 e (nt_buckets t ! i)]"
    "nt_entry_count t' = nt_entry_count t - 1"
    using er unfolding entry_removed_def by blast
  have frs: "leaf_table s' = leaf_table s" "double_leaf_table s' = double_leaf_table s"
    "field_count s' = field_count s" "g_edge_bucket_count s' = g_edge_bucket_count s"
    using fr by (simp_all add: gc_frame_def)
  have "sinv S M s'"
    by (rule remove_struct[OF h nd(1) b(1) nd(2) n, where t = t and t' = t' and e = e and i = i])
      (use t t' b i frs in simp_all)
  moreover have "refs_ok E s'" by (rule remove_refs[OF h nd(1) b(1) nd(2) n])
  moreover have "rinv s'" by (rule removed_rinv[OF si ri ct n pool hp frs(4)])
  moreover have "keeps E s s'" by (rule remove_keeps[OF h nd(1) b(1) nd(2) n frs(3) tabled_upd[OF frs(3) t'(1) f]])
  moreover have "dom (nodes s') = dom (nodes s) - {?p}"
    unfolding n removed_nodes_def by (auto split: if_splits)
  ultimately show ?thesis using run fr er removed_low_same[OF si ct n] by (simp add: hinv_def)
qed

section \<open>The sweep\<close>

definition bucket_of :: "mstate \<Rightarrow> nat \<Rightarrow> nat \<Rightarrow> nodetable_bucket_entry list" where
  "bucket_of s f i = (case node_tables_by_field s f of None \<Rightarrow> [] | Some t \<Rightarrow> nt_buckets t ! i)"

text \<open>Sweeping field \<open>f\<close> removes entries of that field's table and nothing else of any table.\<close>

definition swept :: "nat \<Rightarrow> mstate \<Rightarrow> mstate \<Rightarrow> bool" where
  "swept f s s' \<longleftrightarrow> low_same f s s' \<and> gc_frame s s' \<and> dom (nodes s') \<subseteq> dom (nodes s)
     \<and> (\<forall>g. g \<noteq> f \<longrightarrow> node_tables_by_field s' g = node_tables_by_field s g)
     \<and> (\<forall>t. node_tables_by_field s f = Some t \<longrightarrow>
          (\<exists>t'. node_tables_by_field s' f = Some t' \<and> nodetable_bucket_count t' = nodetable_bucket_count t
             \<and> length (nt_buckets t') = length (nt_buckets t)
             \<and> (\<forall>i<length (nt_buckets t). set (nt_buckets t' ! i) \<subseteq> set (nt_buckets t ! i))))"

lemma swept_refl [simp]: "swept f s s"
  by (simp add: swept_def)

lemma swept_trans:
  assumes "swept f s u" "swept f u v" shows "swept f s v"
proof -
  have "\<exists>t'. node_tables_by_field v f = Some t' \<and> nodetable_bucket_count t' = nodetable_bucket_count t
      \<and> length (nt_buckets t') = length (nt_buckets t)
      \<and> (\<forall>i<length (nt_buckets t). set (nt_buckets t' ! i) \<subseteq> set (nt_buckets t ! i))"
    if t: "node_tables_by_field s f = Some t" for t
  proof -
    obtain tu where tu: "node_tables_by_field u f = Some tu" "nodetable_bucket_count tu = nodetable_bucket_count t"
      "length (nt_buckets tu) = length (nt_buckets t)"
      "\<forall>i<length (nt_buckets t). set (nt_buckets tu ! i) \<subseteq> set (nt_buckets t ! i)"
      using assms(1) t unfolding swept_def by blast
    obtain tv where tv: "node_tables_by_field v f = Some tv" "nodetable_bucket_count tv = nodetable_bucket_count tu"
      "length (nt_buckets tv) = length (nt_buckets tu)"
      "\<forall>i<length (nt_buckets tu). set (nt_buckets tv ! i) \<subseteq> set (nt_buckets tu ! i)"
      using assms(2) tu(1) unfolding swept_def by blast
    show ?thesis using tu tv by (intro exI[of _ tv]) fastforce
  qed
  moreover have "low_same f s v" "gc_frame s v" "dom (nodes v) \<subseteq> dom (nodes s)"
    using assms low_same_trans gc_frame_trans unfolding swept_def by blast+
  moreover have "\<forall>g. g \<noteq> f \<longrightarrow> node_tables_by_field v g = node_tables_by_field s g"
    using assms by (simp add: swept_def)
  ultimately show ?thesis unfolding swept_def by blast
qed

lemma entry_removed_swept:
  assumes t: "node_tables_by_field s f = Some t" and i: "i < length (nt_buckets t)"
    and r: "entry_removed f i e t s s'" "low_same f s s'" "gc_frame s s'"
      "dom (nodes s') = dom (nodes s) - {p}"
  shows "swept f s s'"
proof -
  obtain t' where t': "node_tables_by_field s' = (node_tables_by_field s)(f \<mapsto> t')"
    "nodetable_bucket_count t' = nodetable_bucket_count t"
    "nt_buckets t' = (nt_buckets t)[i := remove1 e (nt_buckets t ! i)]"
    using r(1) unfolding entry_removed_def by blast
  have "set (nt_buckets t' ! j) \<subseteq> set (nt_buckets t ! j)" for j
    using t'(3) i set_remove1_subset[of e "nt_buckets t ! i"] by (cases "j = i") auto
  then show ?thesis using t t' r unfolding swept_def by (auto simp: fun_upd_def)
qed

text \<open>An entry that is still in its bucket after the sweep of that bucket has references.\<close>

definition referenced :: "mstate \<Rightarrow> ptr \<Rightarrow> bool" where
  "referenced s p \<longleftrightarrow> (\<forall>nd. nodes s p = Some nd \<longrightarrow> ref_count nd \<noteq> 0)"

lemma swept_referenced:
  assumes sw: "swept f s s'" and h: "hinv S M E s'" and f: "f \<in> tabled s'"
    and t: "node_tables_by_field s' f = Some t" and i: "i < length (nt_buckets t)"
    and e: "e \<in> set (nt_buckets t ! i)" and r: "referenced s (nte_node e)"
  shows "referenced s' (nte_node e)"
proof -
  have "content s' (nte_node e) = Some (f, NEdges (nte_edges e))"
    by (rule table_entry_content(1)[OF hinvD(1)[OF h] t f i e])
  then have "nodes s' (nte_node e) = nodes s (nte_node e)"
    using sw by (auto simp: content_Some swept_def low_same_def)
  then show ?thesis using r by (simp add: referenced_def)
qed

lemma bucket_distinct:
  assumes "table_shape t" "i < length (nt_buckets t)"
  shows "distinct (nt_buckets t ! i)"
proof -
  have "distinct (concat (nt_buckets t))"
    using assms(1) distinct_map by (auto simp: table_shape_def tentries_def)
  then show ?thesis using distinct_concat_nth assms(2) by blast
qed

lemma sweep_chain_spec:
  assumes "hinv S M E s" "node_tables_by_field s f = Some t" "f \<in> tabled s"
    "i < length (nt_buckets t)" "set es \<subseteq> set (nt_buckets t ! i)" "distinct es"
  shows "\<exists>n' s' t'. sweep_chain f i es (n, s) = Some (n', s') \<and> hinv S M E s' \<and> keeps E s s' \<and> swept f s s'
     \<and> n' + card (dom (nodes s')) = n + card (dom (nodes s))
     \<and> node_tables_by_field s' f = Some t'
     \<and> (\<forall>e\<in>set es \<inter> set (nt_buckets t' ! i). referenced s' (nte_node e))"
  using assms
proof (induction es arbitrary: n s t)
  case (Cons e es)
  note h = Cons.prems(1) and t = Cons.prems(2) and f = Cons.prems(3) and i = Cons.prems(4)
  have e: "e \<in> set (nt_buckets t ! i)" using Cons.prems(5) by simp
  have si: "sinv S M s" by (rule hinvD(1)[OF h])
  obtain nd where nd: "nodes s (nte_node e) = Some nd"
    using table_entry_content(1)[OF si t f i e] by (auto simp: content_Some)
  have dis: "distinct (nt_buckets t ! i)"
    using bucket_distinct[OF _ i] sinv_table_wf[OF si f t] by (simp add: table_wf_def)
  show ?case
  proof (cases "ref_count nd = 0")
    case True
    obtain s1 where s1: "mtpndd_release_node f i e (nte_node e) s = Some s1" "hinv S M E s1" "keeps E s s1"
      "low_same f s s1" "gc_frame s s1" "entry_removed f i e t s s1"
      "dom (nodes s1) = dom (nodes s) - {nte_node e}"
      using release_node_spec[OF h t f i e nd True] by blast
    have sw: "swept f s s1" by (rule entry_removed_swept[OF t i s1(6,4,5,7)])
    obtain t1 where t1: "node_tables_by_field s1 f = Some t1" "length (nt_buckets t1) = length (nt_buckets t)"
      "nt_buckets t1 ! i = remove1 e (nt_buckets t ! i)"
      using s1(6) i unfolding entry_removed_def by auto
    have f1: "f \<in> tabled s1" using f keeps_tabled[OF s1(3)] by simp
    have sub: "set es \<subseteq> set (nt_buckets t1 ! i)"
      using Cons.prems(5,6) t1(3) dis by auto
    obtain n' s' t' where r: "sweep_chain f i es (Suc n, s1) = Some (n', s')" "hinv S M E s'" "keeps E s1 s'"
      "swept f s1 s'" "n' + card (dom (nodes s')) = Suc n + card (dom (nodes s1))"
      "node_tables_by_field s' f = Some t'"
      "\<forall>e\<in>set es \<inter> set (nt_buckets t' ! i). referenced s' (nte_node e)"
      using Cons.IH[OF s1(2) t1(1) f1 _ sub, of "Suc n"] Cons.prems(6) i t1(2) by auto
    have "e \<notin> set (nt_buckets t' ! i)"
      using r(4,6) t1 i dis unfolding swept_def by fastforce
    moreover have "Suc (card (dom (nodes s1))) = card (dom (nodes s))"
      unfolding s1(7) by (rule card_Suc_Diff1[OF rinv_finite[OF hinvD(3)[OF h]]]) (use nd in auto)
    ultimately show ?thesis
      using nd True s1(1) r keeps_trans[OF s1(3) r(3)] swept_trans[OF sw r(4)] by auto
  next
    case False
    obtain n' s' t' where r: "sweep_chain f i es (n, s) = Some (n', s')" "hinv S M E s'" "keeps E s s'"
      "swept f s s'" "n' + card (dom (nodes s')) = n + card (dom (nodes s))"
      "node_tables_by_field s' f = Some t'"
      "\<forall>e\<in>set es \<inter> set (nt_buckets t' ! i). referenced s' (nte_node e)"
      using Cons.IH[OF h t f i, of n] Cons.prems(5,6) by auto
    have "i < length (nt_buckets t')" "f \<in> tabled s'"
      using r(4,6) t i f keeps_tabled[OF r(3)] by (auto simp: swept_def gc_frame_def)
    moreover have "referenced s (nte_node e)" using nd False by (simp add: referenced_def)
    ultimately have "e \<in> set (nt_buckets t' ! i) \<Longrightarrow> referenced s' (nte_node e)"
      using swept_referenced[OF r(4,2) _ r(6)] by blast
    then show ?thesis using nd False r by auto
  qed
qed (auto intro!: exI)

lemma sweep_buckets_spec:
  assumes "hinv S M E s" "node_tables_by_field s f = Some t" "f \<in> tabled s"
    "\<forall>i\<in>set is. i < length (nt_buckets t)"
  shows "\<exists>n' s' t'. sweep_buckets f is (n, s) = Some (n', s') \<and> hinv S M E s' \<and> keeps E s s' \<and> swept f s s'
     \<and> n' + card (dom (nodes s')) = n + card (dom (nodes s))
     \<and> node_tables_by_field s' f = Some t' \<and> length (nt_buckets t') = length (nt_buckets t)
     \<and> (\<forall>i\<in>set is. \<forall>e\<in>set (nt_buckets t' ! i). referenced s' (nte_node e))"
  using assms
proof (induction "is" arbitrary: n s t)
  case (Cons i "is")
  note h = Cons.prems(1) and t = Cons.prems(2) and f = Cons.prems(3)
  have i: "i < length (nt_buckets t)" using Cons.prems(4) by simp
  have "table_shape t" using sinv_table_wf[OF hinvD(1)[OF h] f t] by (simp add: table_wf_def)
  note dis = bucket_distinct[OF this i]
  obtain n1 s1 t1 where r1: "sweep_chain f i (nt_buckets t ! i) (n, s) = Some (n1, s1)" "hinv S M E s1"
    "keeps E s s1" "swept f s s1" "n1 + card (dom (nodes s1)) = n + card (dom (nodes s))"
    "node_tables_by_field s1 f = Some t1"
    "\<forall>e\<in>set (nt_buckets t ! i) \<inter> set (nt_buckets t1 ! i). referenced s1 (nte_node e)"
    using sweep_chain_spec[OF h t f i subset_refl dis] by blast
  have l1: "length (nt_buckets t1) = length (nt_buckets t)" "set (nt_buckets t1 ! i) \<subseteq> set (nt_buckets t ! i)"
    "f \<in> tabled s1"
    using r1(4,6) t i f keeps_tabled[OF r1(3)] by (auto simp: swept_def gc_frame_def)
  obtain n' s' t' where r: "sweep_buckets f is (n1, s1) = Some (n', s')" "hinv S M E s'" "keeps E s1 s'"
    "swept f s1 s'" "n' + card (dom (nodes s')) = n1 + card (dom (nodes s1))"
    "node_tables_by_field s' f = Some t'" "length (nt_buckets t') = length (nt_buckets t1)"
    "\<forall>i\<in>set is. \<forall>e\<in>set (nt_buckets t' ! i). referenced s' (nte_node e)"
    using Cons.IH[OF r1(2,6) l1(3), of n1] Cons.prems(4) l1(1) by auto
  have f': "f \<in> tabled s'" using l1(3) keeps_tabled[OF r(3)] by simp
  have "referenced s' (nte_node e)" if e: "e \<in> set (nt_buckets t' ! i)" for e
  proof -
    have "e \<in> set (nt_buckets t1 ! i)" using r(4,6) r1(6) e i l1(1) unfolding swept_def by fastforce
    then have "referenced s1 (nte_node e)" using r1(7) l1(2) by blast
    then show ?thesis using swept_referenced[OF r(4,2) f' r(6) _ e] r(7) l1(1) i by simp
  qed
  then show ?case
    using t i r1(1) r keeps_trans[OF r1(3) r(3)] swept_trans[OF r1(4) r(4)] l1(1) r1(5)
    by (auto simp: nt_bucket_def)
qed (auto intro!: exI)

lemma sweep_field_complete:
  assumes h: "hinv S M E s" and t: "node_tables_by_field s f = Some t" and f: "f \<in> tabled s"
    and r: "\<forall>i\<in>set [0..<length (nt_buckets t)]. \<forall>e\<in>set (nt_buckets t ! i). referenced s (nte_node e)"
    and p: "content s p = Some (f, NEdges m)"
  shows "referenced s p"
proof -
  have "p \<in> nte_node ` set (concat (nt_buckets t))"
    using sinv_table_wf[OF hinvD(1)[OF h] f t] p unfolding table_wf_def tentries_def by fastforce
  then show ?thesis using r unfolding image_iff Bex_def set_concat_nth by fastforce
qed

lemma sweep_field_spec:
  assumes h: "hinv S M E s" and fc: "f \<in> {1..field_count s}"
  shows "\<exists>n' s'. (case node_tables_by_field s f of None \<Rightarrow> Some (n, s)
       | Some t \<Rightarrow> sweep_buckets f [0..<nodetable_bucket_count t] (n, s)) = Some (n', s')
     \<and> hinv S M E s' \<and> keeps E s s' \<and> gc_frame s s' \<and> n' + card (dom (nodes s')) = n + card (dom (nodes s))
     \<and> dom (nodes s') \<subseteq> dom (nodes s) \<and> low_same f s s'
     \<and> (\<forall>p m. content s' p = Some (f, NEdges m) \<longrightarrow> referenced s' p)"
proof (cases "f \<in> tabled s")
  case True
  note f = True
  obtain t where t: "node_tables_by_field s f = Some t" "table_wf s f t"
    using sinv_table[OF hinvD(1)[OF h] f] by blast
  have bc: "nodetable_bucket_count t = length (nt_buckets t)" using t(2) by (simp add: table_wf_def table_shape_def)
  obtain n1 s1 t1 where r1: "sweep_buckets f [0..<length (nt_buckets t)] (n, s) = Some (n1, s1)"
    "hinv S M E s1" "keeps E s s1" "swept f s s1" "n1 + card (dom (nodes s1)) = n + card (dom (nodes s))"
    "node_tables_by_field s1 f = Some t1" "length (nt_buckets t1) = length (nt_buckets t)"
    "\<forall>i\<in>set [0..<length (nt_buckets t)]. \<forall>e\<in>set (nt_buckets t1 ! i). referenced s1 (nte_node e)"
    using sweep_buckets_spec[OF h t(1) f, of "[0..<length (nt_buckets t)]" n] by auto
  have "referenced s1 p" if c: "content s1 p = Some (f, NEdges m)" for p m
    by (rule sweep_field_complete[OF r1(2,6) _ _ c]) (use f keeps_tabled[OF r1(3)] r1(7,8) in auto)
  then show ?thesis using t(1) bc r1 unfolding swept_def by auto
next
  case False
  then have "node_tables_by_field s f = None" using fc by (simp add: tabled_def)
  moreover have "content s p \<noteq> Some (f, NEdges m)" for p m using False sinv_node(8)[OF hinvD(1)[OF h]] by blast
  ultimately show ?thesis using h by simp
qed

lemma sweep_fields_spec:
  assumes "hinv S M E s" "set fs \<subseteq> {1..field_count s}" "sorted fs"
  shows "\<exists>n' s'. sweep_fields fs (n, s) = Some (n', s') \<and> hinv S M E s' \<and> keeps E s s' \<and> gc_frame s s'
     \<and> n' + card (dom (nodes s')) = n + card (dom (nodes s)) \<and> dom (nodes s') \<subseteq> dom (nodes s)
     \<and> (\<forall>f. (\<forall>g\<in>set fs. f \<le> g) \<longrightarrow> low_same f s s')
     \<and> (\<forall>f\<in>set fs. \<forall>p m. content s' p = Some (f, NEdges m) \<longrightarrow> referenced s' p)"
  using assms
proof (induction fs arbitrary: n s)
  case (Cons f fs)
  note h = Cons.prems(1)
  have f: "f \<in> {1..field_count s}" using Cons.prems(2) by simp
  obtain n1 s1 where r1: "(case node_tables_by_field s f of None \<Rightarrow> Some (n, s)
       | Some t \<Rightarrow> sweep_buckets f [0..<nodetable_bucket_count t] (n, s)) = Some (n1, s1)"
    "hinv S M E s1" "keeps E s s1" "gc_frame s s1" "n1 + card (dom (nodes s1)) = n + card (dom (nodes s))"
    "dom (nodes s1) \<subseteq> dom (nodes s)" "low_same f s s1"
    "\<forall>p m. content s1 p = Some (f, NEdges m) \<longrightarrow> referenced s1 p"
    using sweep_field_spec[OF h f, of n] by blast
  have fc: "field_count s1 = field_count s" using r1(4) by (simp add: gc_frame_def)
  obtain n' s' where r: "sweep_fields fs (n1, s1) = Some (n', s')" "hinv S M E s'" "keeps E s1 s'"
    "gc_frame s1 s'" "n' + card (dom (nodes s')) = n1 + card (dom (nodes s1))"
    "dom (nodes s') \<subseteq> dom (nodes s1)" "\<forall>f. (\<forall>g\<in>set fs. f \<le> g) \<longrightarrow> low_same f s1 s'"
    "\<forall>f\<in>set fs. \<forall>p m. content s' p = Some (f, NEdges m) \<longrightarrow> referenced s' p"
    using Cons.IH[OF r1(2)] Cons.prems(2,3) fc by (metis insert_subset list.simps(15) sorted_simps(2))
  have low: "low_same f s1 s'" using r(7) Cons.prems(3) by simp
  have "referenced s' p" if p: "content s' p = Some (f, NEdges m)" for p m
  proof -
    have same: "nodes s1 p = nodes s' p" using low p by (auto simp: low_same_def content_Some)
    then have c: "content s1 p = Some (f, NEdges m)" using p by (simp add: content_def)
    have "referenced s1 p" using r1(8) c by blast
    then show ?thesis using same by (simp add: referenced_def)
  qed
  moreover have "low_same g s s'" if "\<forall>h\<in>set (f # fs). g \<le> h" for g
  proof (rule low_same_trans)
    show "low_same g s1 s'" using r(7) that by simp
    show "low_same g s s1" using r1(7) that by (auto simp: low_same_def)
  qed
  moreover have "gc_frame s s'" "dom (nodes s') \<subseteq> dom (nodes s)"
    using r1(4,6) r(4,6) gc_frame_trans by blast+
  moreover have "sweep_fields (f # fs) (n, s) = sweep_fields fs (n1, s1)"
    using r1(1) by (auto split: option.splits)
  ultimately show ?case
    using r1(5) r keeps_trans[OF r1(3) r(3)] by auto
qed simp

text \<open>One pass is enough: children lie in later fields, so a node whose last parent dies is still ahead.\<close>

lemma gc_sweep_spec:
  assumes h: "hinv S M E s"
  shows "\<exists>n s'. mtpndd_gc_sweep s = Some (n, s') \<and> hinv S M E s' \<and> keeps E s s' \<and> gc_frame s s'
     \<and> n + card (dom (nodes s')) = card (dom (nodes s)) \<and> dom (nodes s') \<subseteq> dom (nodes s)
     \<and> (\<forall>p. internal s' p \<longrightarrow> referenced s' p)"
proof -
  have sub: "set [1..<Suc (field_count s)] \<subseteq> {1..field_count s}" by auto
  obtain n s' where r: "sweep_fields [1..<Suc (field_count s)] (0, s) = Some (n, s')" "hinv S M E s'"
    "keeps E s s'" "gc_frame s s'" "n + card (dom (nodes s')) = card (dom (nodes s))"
    "dom (nodes s') \<subseteq> dom (nodes s)"
    "\<forall>f\<in>set [1..<Suc (field_count s)]. \<forall>p m. content s' p = Some (f, NEdges m) \<longrightarrow> referenced s' p"
    using sweep_fields_spec[OF h sub sorted_upt, of 0] by (auto simp del: upt_Suc)
  have "referenced s' p" if "internal s' p" for p
  proof -
    obtain f m where c: "content s' p = Some (f, NEdges m)" using \<open>internal s' p\<close> by (auto simp: internal_content)
    then have "f \<in> set [1..<Suc (field_count s)]"
      using sinv_node(1,2)[OF hinvD(1)[OF r(2)] c] r(4) by (auto simp: gc_frame_def simp del: upt_Suc)
    then show ?thesis using r(7) c by blast
  qed
  then show ?thesis using r(1-6) by (auto simp: mtpndd_gc_sweep_def)
qed

end
