(* ===== verification/Leaf_Gc_Correct.thy ===== *)
theory Leaf_Gc_Correct
  imports Sweep_Correct
begin

text \<open>
  The leaf collection keeps every leaf an internal node points to and the two sentinels, and
  frees the rest of both leaf tables.  A leaf that only the program holds is freed.
\<close>

section \<open>Marking\<close>

abbreviation lentries :: "mtpndd_leaf_table \<Rightarrow> leaf_bucket_entry list" where
  "lentries t \<equiv> concat (lt_buckets t)"

definition unmark :: "leaf_bucket_entry \<Rightarrow> leaf_bucket_entry" where
  "unmark e = e\<lparr>le_marked := False\<rparr>"

lemma unmark_simps [simp]: "le_value (unmark e) = le_value e" "le_node (unmark e) = le_node e"
  "\<not> le_marked (unmark e)"
  by (simp_all add: unmark_def)

lemma clear_marks_unmark:
  "mtpndd_leaf_table_clear_marks t = t\<lparr>lt_buckets := map (map unmark) (lt_buckets t)\<rparr>"
  by (simp add: mtpndd_leaf_table_clear_marks_def unmark_def[abs_def])

definition same_leaves :: "mtpndd_leaf_table \<Rightarrow> mtpndd_leaf_table \<Rightarrow> bool" where
  "same_leaves t t' \<longleftrightarrow> mtpndd_leaf_table_clear_marks t' = mtpndd_leaf_table_clear_marks t"

lemma same_leaves_refl [simp]: "same_leaves t t"
  by (simp add: same_leaves_def)

lemma same_leaves_trans: "same_leaves t u \<Longrightarrow> same_leaves u v \<Longrightarrow> same_leaves t v"
  by (simp add: same_leaves_def)

lemma leaf_shape_clear: "leaf_shape (mtpndd_leaf_table_clear_marks t) = leaf_shape t"
proof -
  have c: "concat (map (map unmark) (lt_buckets t)) = map unmark (lentries t)"
    by (simp add: map_concat)
  have d: "map le_node (map unmark xs) = map le_node xs" "map le_value (map unmark xs) = map le_value xs"
    for xs by simp_all
  show ?thesis
    unfolding leaf_shape_def clear_marks_unmark
    by (simp add: c d leaf_bucket_index_def del: map_map)
qed

lemma same_leaves_shape: "same_leaves t t' \<Longrightarrow> leaf_shape t' = leaf_shape t"
  unfolding same_leaves_def using leaf_shape_clear[of t] leaf_shape_clear[of t'] by simp

lemma same_leaves_unmark:
  assumes "same_leaves t t'"
  shows "map (map unmark) (lt_buckets t') = map (map unmark) (lt_buckets t)"
    "map unmark (lentries t') = map unmark (lentries t)" "lt_bucket_count t' = lt_bucket_count t"
proof -
  show b: "map (map unmark) (lt_buckets t') = map (map unmark) (lt_buckets t)"
    using arg_cong[OF assms[unfolded same_leaves_def], of lt_buckets]
    by (simp add: clear_marks_unmark)
  then show "map unmark (lentries t') = map unmark (lentries t)"
    unfolding map_concat by simp
  show "lt_bucket_count t' = lt_bucket_count t"
    using arg_cong[OF assms[unfolded same_leaves_def], of lt_bucket_count]
    by (simp add: clear_marks_unmark)
qed

lemma same_leaves_entries:
  assumes "same_leaves t t'" "e' \<in> set (lentries t')"
  shows "\<exists>e\<in>set (lentries t). le_value e = le_value e' \<and> le_node e = le_node e'"
proof -
  have "unmark e' \<in> set (map unmark (lentries t'))" using assms(2) by auto
  then obtain e where e: "e \<in> set (lentries t)" "unmark e = unmark e'"
    unfolding same_leaves_unmark(2)[OF assms(1)] set_map by (metis imageE)
  have "le_value e = le_value e'" "le_node e = le_node e'"
    using arg_cong[OF e(2), of le_value] arg_cong[OF e(2), of le_node] by simp_all
  then show ?thesis using e(1) by blast
qed

lemma same_leaves_sym: "same_leaves t t' \<Longrightarrow> same_leaves t' t"
  by (simp add: same_leaves_def)

lemma same_leaves_wf:
  assumes "same_leaves t t'" "leaf_table_wf s lf t" shows "leaf_table_wf s lf t'"
  unfolding leaf_table_wf_def
proof (intro conjI ballI)
  show "leaf_shape t'" using assms same_leaves_shape by (simp add: leaf_table_wf_def)
  fix e' assume "e' \<in> set (lentries t')"
  from same_leaves_entries[OF assms(1) this] obtain e where e: "e \<in> set (lentries t)"
    "le_value e = le_value e'" "le_node e = le_node e'" by blast
  have "content s (le_node e) = Some (lf, NLeaf (le_value e))"
    using assms(2) e(1) unfolding leaf_table_wf_def by blast
  then show "content s (le_node e') = Some (lf, NLeaf (le_value e'))" using e by simp
qed

definition marks :: "mtpndd_leaf_table \<Rightarrow> ptr set" where
  "marks t = le_node ` {e \<in> set (lentries t). le_marked e}"

lemma mark_first_unmark: "map unmark (mark_first p b) = map unmark b"
  by (induction b) (simp_all add: unmark_def)

lemma mark_first_marks:
  "le_node ` {e \<in> set b. le_marked e} \<subseteq> le_node ` {e \<in> set (mark_first p b). le_marked e}"
proof (induction b)
  case (Cons a b)
  have "le_node e \<in> le_node ` {e \<in> set (mark_first p (a # b)). le_marked e}"
    if "e \<in> set (a # b)" "le_marked e" for e
  proof (cases "e = a")
    case True
    then show ?thesis using that by (cases "le_node a = p") (auto intro!: image_eqI[where x = "a\<lparr>le_marked := True\<rparr>"])
  next
    case False
    then have "le_node e \<in> le_node ` {e \<in> set b. le_marked e}" using that by auto
    then have "le_node e \<in> le_node ` {e \<in> set (mark_first p b). le_marked e}" using Cons by blast
    then show ?thesis using that False by (cases "le_node a = p") auto
  qed
  then show ?case by blast
qed simp

lemma mark_first_hit: "e \<in> set b \<Longrightarrow> \<exists>e'\<in>set (mark_first (le_node e) b). le_node e' = le_node e \<and> le_marked e'"
  by (induction b) auto

lemma mark_spec:
  assumes wf: "leaf_table_wf s lf t" and p: "content s p = Some (lf, NLeaf v)"
  shows "\<exists>t'. mtpndd_leaf_table_mark s p t = Some t' \<and> same_leaves t t' \<and> marks t \<subseteq> marks t'
           \<and> (p \<noteq> NULL \<longrightarrow> p \<in> le_node ` set (lentries t) \<longrightarrow> p \<in> marks t')"
proof (cases "p = NULL")
  case False
  let ?i = "leaf_bucket_index t v"
  have sh: "leaf_shape t" using wf by (simp add: leaf_table_wf_def)
  have i: "?i < length (lt_buckets t)"
    using sh mask_index_less[of "lt_bucket_count t"] by (simp add: leaf_shape_def leaf_bucket_index_def)
  define t' where "t' = t\<lparr>lt_buckets := (lt_buckets t)[?i := mark_first p (lt_buckets t ! ?i)]\<rparr>"
  have nth: "lt_buckets t' ! j = (if j = ?i then mark_first p (lt_buckets t ! ?i) else lt_buckets t ! j)" for j
    using i by (simp add: t'_def)
  have "mtpndd_leaf_table_mark s p t = Some t'"
    using p i False by (auto simp: mtpndd_leaf_table_mark_def leaf_word_def content_Some leaf_bucket_def t'_def)
  moreover have "same_leaves t t'"
    using arg_cong[OF mark_first_unmark[of p "lt_buckets t ! ?i"],
        of "\<lambda>b. (map (map unmark) (lt_buckets t))[?i := b]"]
    by (simp add: same_leaves_def clear_marks_unmark t'_def flip: map_update)
  moreover have "marks t \<subseteq> marks t'"
  proof
    fix q assume "q \<in> marks t"
    then obtain e where "e \<in> set (lentries t)" and q: "q = le_node e" and m: "le_marked e"
      unfolding marks_def by blast
    then obtain j where j: "j < length (lt_buckets t)" "e \<in> set (lt_buckets t ! j)"
      unfolding set_concat_nth by blast
    obtain e' where "e' \<in> set (lt_buckets t' ! j)" "le_marked e'" "le_node e' = q"
      using mark_first_marks[of "lt_buckets t ! ?i" p] j m q nth[of j] by (cases "j = ?i") auto
    moreover have "j < length (lt_buckets t')" using j by (simp add: t'_def)
    ultimately show "q \<in> marks t'" unfolding marks_def set_concat_nth by blast
  qed
  moreover have "p \<in> marks t'" if pin: "p \<in> le_node ` set (lentries t)"
  proof -
    obtain e where e: "e \<in> set (lentries t)" "p = le_node e" using pin by blast
    then obtain j where j: "j < length (lt_buckets t)" "e \<in> set (lt_buckets t ! j)"
      unfolding set_concat_nth by blast
    have "content s (le_node e) = Some (lf, NLeaf (le_value e))"
      using wf e(1) unfolding leaf_table_wf_def by blast
    then have "le_value e = v" using p e(2) by simp
    moreover have "leaf_bucket_index t (le_value e) = j" using sh j by (simp add: leaf_shape_def)
    ultimately have "j = ?i" by simp
    then obtain e' where "e' \<in> set (lt_buckets t' ! ?i)" "le_node e' = p" "le_marked e'"
      using mark_first_hit[OF j(2)] e(2) nth[of ?i] by auto
    moreover have "?i < length (lt_buckets t')" using i by (simp add: t'_def)
    ultimately show ?thesis unfolding marks_def set_concat_nth by blast
  qed
  ultimately show ?thesis by blast
qed (simp add: mtpndd_leaf_table_mark_def)

text \<open>Both tables at once: \<open>tabs_ok\<close> relates the tables being marked to those of the state.\<close>

definition marking :: "mstate \<Rightarrow> nat \<Rightarrow> ptr set \<Rightarrow> mtpndd_leaf_table option \<Rightarrow> bool" where
  "marking s lf P tab \<longleftrightarrow>
     (case (leaf_table_of lf s, tab) of
        (None, None) \<Rightarrow> True
      | (Some t, Some t') \<Rightarrow> same_leaves t t'
          \<and> (\<forall>p\<in>P. p \<in> le_node ` set (lentries t) \<longrightarrow> p \<in> marks t')
      | _ \<Rightarrow> False)"

lemma markingE:
  assumes "marking s lf P (Some t')"
  obtains t where "leaf_table_of lf s = Some t" "same_leaves t t'"
    "\<forall>p\<in>P. p \<in> le_node ` set (lentries t) \<longrightarrow> p \<in> marks t'"
  using assms by (auto simp: marking_def split: option.splits)

lemma marking_step:
  assumes si: "sinv S M s" and lf: "lf \<in> {MTPNDD_FRACTION_LEAF_FIELD_ID, MTPNDD_DOUBLE_LEAF_FIELD_ID}"
    and m: "marking s lf P (Some t)" and p: "content s p = Some (lf, NLeaf v)" and p0: "p \<noteq> NULL"
  shows "\<exists>t'. mtpndd_leaf_table_mark s p t = Some t' \<and> marking s lf (insert p P) (Some t')"
proof -
  obtain t0 where t0: "leaf_table_of lf s = Some t0" "same_leaves t0 t"
    "\<forall>p\<in>P. p \<in> le_node ` set (lentries t0) \<longrightarrow> p \<in> marks t" using m by (rule markingE)
  have "leaf_table_wf s lf t0" using si lf t0(1) unfolding sinv_def leaf_tables_ok_def by blast
  from mark_spec[OF same_leaves_wf[OF t0(2) this] p] obtain t' where
    t': "mtpndd_leaf_table_mark s p t = Some t'" "same_leaves t t'" "marks t \<subseteq> marks t'"
    "p \<in> le_node ` set (lentries t) \<longrightarrow> p \<in> marks t'" using p0 by blast
  have "p \<in> le_node ` set (lentries t)" if pin: "p \<in> le_node ` set (lentries t0)"
  proof -
    obtain e where e: "e \<in> set (lentries t0)" "le_node e = p" using pin by blast
    from same_leaves_entries[OF same_leaves_sym[OF t0(2)] e(1)] show ?thesis
      using e(2) by (metis imageI)
  qed
  then have "marking s lf (insert p P) (Some t')"
    using t0(1,3) t'(3,4) same_leaves_trans[OF t0(2) t'(2)] unfolding marking_def
    by (simp del: set_concat) blast
  then show ?thesis using t'(1) by blast
qed

lemma marking_weaken:
  assumes "marking s lf P tab" "\<And>t. leaf_table_of lf s = Some t \<Longrightarrow> p \<notin> le_node ` set (lentries t)"
  shows "marking s lf (insert p P) tab"
  using assms unfolding marking_def by (auto split: option.splits)

lemma foreign_leaf:
  assumes "sinv S M s" "lf \<in> {MTPNDD_FRACTION_LEAF_FIELD_ID, MTPNDD_DOUBLE_LEAF_FIELD_ID}"
    "content s p = Some (f, b)" "f \<noteq> lf" "leaf_table_of lf s = Some t"
  shows "p \<notin> le_node ` set (lentries t)"
proof
  assume "p \<in> le_node ` set (lentries t)"
  moreover have "leaf_table_wf s lf t" using assms(1,2,5) unfolding sinv_def leaf_tables_ok_def by blast
  ultimately have "\<exists>v. content s p = Some (lf, NLeaf v)" unfolding leaf_table_wf_def by blast
  then show False using assms(3,4) by simp
qed

abbreviation "FR \<equiv> MTPNDD_FRACTION_LEAF_FIELD_ID"
abbreviation "DB \<equiv> MTPNDD_DOUBLE_LEAF_FIELD_ID"

lemma FR_DB: "FR \<noteq> DB"
  by (simp add: MTPNDD_FRACTION_LEAF_FIELD_ID_def MTPNDD_DOUBLE_LEAF_FIELD_ID_def)

lemma marking_None: "marking s lf P tab \<Longrightarrow> tab = None \<longleftrightarrow> leaf_table_of lf s = None"
  by (auto simp: marking_def split: option.splits)

lemma mark_child_spec:
  assumes si: "sinv S M s" and ri: "rinv s" and fr: "marking s FR P fr" and db: "marking s DB P db"
    and c: "nodes s c \<noteq> None"
  shows "\<exists>fr' db'. mark_child s c (fr, db) = Some (fr', db')
           \<and> marking s FR (insert c P) fr' \<and> marking s DB (insert c P) db'"
proof -
  obtain nd where nd: "nodes s c = Some nd" using c by blast
  let ?f = "field_id nd"
  have c0: "c \<noteq> NULL" using c rinv_null[OF ri] by metis
  have ct: "content s c = Some (?f, body nd)" using nd by (simp add: content_Some)
  have leafy: "\<exists>v. body nd = NLeaf v" if "?f = FR \<or> ?f = DB"
  proof (cases "body nd")
    case (NEdges m)
    then have "?f < MTPNDD_LEAF_FIELD_ID_MIN" using sinv_node(7)[OF si] ct by simp
    then show ?thesis using that
      by (auto simp: MTPNDD_LEAF_FIELD_ID_MIN_def MTPNDD_FRACTION_LEAF_FIELD_ID_def
          MTPNDD_DOUBLE_LEAF_FIELD_ID_def)
  qed simp
  have other: "marking s lf (insert c P) tab"
    if "marking s lf P tab" "?f \<noteq> lf \<or> tab = None" "lf = FR \<or> lf = DB" for lf tab
    by (rule marking_weaken[OF that(1)])
      (use that marking_None[OF that(1)] foreign_leaf[OF si _ ct, of lf] in auto)
  consider (fr) t where "?f = FR" "fr = Some t" | (db) t where "?f = DB" "db = Some t"
    | (no) "?f \<noteq> FR \<or> fr = None" "?f \<noteq> DB \<or> db = None" by blast
  then show ?thesis
  proof cases
    case (fr t)
    then obtain v where "content s c = Some (FR, NLeaf v)" using leafy ct by auto
    then obtain t' where "mtpndd_leaf_table_mark s c t = Some t'" "marking s FR (insert c P) (Some t')"
      using marking_step[OF si, of FR P t c v] assms(3) fr c0 by auto
    then show ?thesis using fr nd c0 other[OF db] FR_DB by (simp add: mark_child_def)
  next
    case (db t)
    then obtain v where "content s c = Some (DB, NLeaf v)" using leafy ct by auto
    then obtain t' where "mtpndd_leaf_table_mark s c t = Some t'" "marking s DB (insert c P) (Some t')"
      using marking_step[OF si, of DB P t c v] assms(4) db c0 by auto
    then show ?thesis using db nd c0 other[OF fr] FR_DB by (simp add: mark_child_def)
  next
    case no
    then show ?thesis using nd c0 other[OF fr] other[OF db] by (auto simp: mark_child_def)
  qed
qed

lemma mark_children_spec:
  assumes "sinv S M s" "rinv s" "marking s FR P fr" "marking s DB P db" "\<forall>c\<in>set cs. nodes s c \<noteq> None"
  shows "\<exists>fr' db'. mark_children s cs (fr, db) = Some (fr', db')
           \<and> marking s FR (set cs \<union> P) fr' \<and> marking s DB (set cs \<union> P) db'"
  using assms
proof (induction cs arbitrary: P fr db)
  case (Cons c cs)
  obtain fr1 db1 where 1: "mark_child s c (fr, db) = Some (fr1, db1)"
    "marking s FR (insert c P) fr1" "marking s DB (insert c P) db1"
    using mark_child_spec[OF Cons.prems(1-4), of c] Cons.prems(5) by auto
  from Cons.IH[OF Cons.prems(1,2) 1(2,3)] Cons.prems(5) show ?case using 1(1) by auto
qed simp

text \<open>The list of children the loops visit is every child of every internal node.\<close>

lemma concat_opt_map: "(\<And>x. x \<in> set xs \<Longrightarrow> f x = Some (g x)) \<Longrightarrow> concat_opt f xs = Some (concat (map g xs))"
  by (induction xs) simp_all

definition node_children :: "nodetable_bucket_entry \<Rightarrow> ptr list" where
  "node_children e = map ee_child (entries (nte_edges e))"

lemma table_children_spec:
  assumes h: "hinv S M E s" and f: "f \<in> tabled s"
  shows "\<exists>t. node_tables_by_field s f = Some t \<and> table_wf s f t
           \<and> table_children s f = Some (concat (map node_children (tentries t)))"
proof -
  note si = hinvD(1)[OF h]
  obtain t where t: "node_tables_by_field s f = Some t" "table_wf s f t" using sinv_table[OF si f] by blast
  have "entry_children s e = Some (node_children e)" if "e \<in> set (tentries t)" for e
  proof -
    have c: "content s (nte_node e) = Some (f, NEdges (nte_edges e))"
      using t(2) that unfolding table_wf_def entry_ok_def by blast
    then have "nte_node e \<noteq> NULL" using rinv_null[OF hinvD(3)[OF h]] by (metis content_None option.distinct(1))
    moreover have "node_edges s (nte_node e) = Some (nte_edges e)" using c by (auto simp: node_edges_content)
    moreover note wf = sinv_node(6)[OF si c]
    ultimately show ?thesis using wf_map_bounds(6)[OF wf] for_each_entry_wf[OF wf, of s]
      by (simp add: entry_children_def node_children_def)
  qed
  then have "concat_opt (entry_children s) (tentries t) = Some (concat (map node_children (tentries t)))"
    by (rule concat_opt_map)
  then show ?thesis using t by (simp add: table_children_def table_wf_def table_shape_def tentries_def)
qed

lemma all_children_spec:
  assumes h: "hinv S M E s"
  shows "\<exists>cs. concat_opt (table_children s) [1..<Suc (field_count s)] = Some cs
           \<and> set cs = {c. parents s c \<noteq> {}}"
proof -
  note si = hinvD(1)[OF h]
  let ?fs = "[1..<Suc (field_count s)]"
  define C where "C f = (case node_tables_by_field s f of None \<Rightarrow> [] | Some t \<Rightarrow> tentries t)" for f
  have C: "table_children s f = Some (concat (map node_children (C f)))" if "f \<in> set ?fs" for f
  proof (cases "f \<in> tabled s")
    case True
    then show ?thesis using table_children_spec[OF h] unfolding C_def by fastforce
  next
    case False
    then show ?thesis using that by (auto simp: tabled_def table_children_def C_def)
  qed
  have wf: "\<exists>t. C f = tentries t \<and> table_wf s f t" if "f \<in> tabled s" for f
    using sinv_table[OF si that] by (auto simp: C_def)
  define cs where "cs = concat (map (\<lambda>f. concat (map node_children (C f))) ?fs)"
  have "concat_opt (table_children s) ?fs = Some cs"
    unfolding cs_def by (rule concat_opt_map) (rule C)
  moreover have "c \<in> set cs \<longleftrightarrow> parents s c \<noteq> {}" for c
  proof
    assume "c \<in> set cs"
    then obtain f e where f: "f \<in> set ?fs" and e: "e \<in> set (C f)" "c \<in> set (node_children e)"
      unfolding cs_def by (auto simp del: upt_Suc)
    have "node_tables_by_field s f \<noteq> None" using e(1) by (cases "node_tables_by_field s f") (simp_all add: C_def)
    then have "f \<in> tabled s" using f by (auto simp: tabled_def)
    then obtain t where t: "C f = tentries t" "table_wf s f t" using wf by blast
    have "content s (nte_node e) = Some (f, NEdges (nte_edges e))"
      using t e(1) unfolding table_wf_def entry_ok_def by auto
    moreover have "c \<in> dom (emap (nte_edges e))" using e(2) by (simp add: node_children_def dom_emap)
    ultimately show "parents s c \<noteq> {}" by (auto simp: parents_def)
  next
    assume "parents s c \<noteq> {}"
    then obtain q f m where q: "content s q = Some (f, NEdges m)" "c \<in> dom (emap m)"
      by (auto simp: parents_def)
    have f: "f \<in> set ?fs" using sinv_node(1,2)[OF si q(1)] by auto
    obtain t where t: "C f = tentries t" "table_wf s f t" using wf[OF sinv_node(8)[OF si q(1)]] by blast
    obtain e where e: "e \<in> set (C f)" "nte_node e = q"
      using t q(1) unfolding table_wf_def by auto
    then have "nte_edges e = m" using t q(1) unfolding table_wf_def entry_ok_def by force
    then have "c \<in> set (node_children e)" using q(2) by (simp add: node_children_def dom_emap)
    then show "c \<in> set cs" unfolding cs_def using f e(1) by (auto simp del: upt_Suc)
  qed
  ultimately show ?thesis by blast
qed

section \<open>Sweeping\<close>

lemma pool_used_pos:
  assumes ok: "pool_ok pool U h" and x: "x \<in> U"
  shows "0 < x"
proof -
  have "x \<in># mset_set U" using ok x by (simp add: pool_ok_def)
  then have "x \<in># mset (pool_objects pool)" using ok unfolding pool_ok_def by (metis union_iff)
  then have "x \<in> set (pool_objects pool)" by simp
  then have "32 < x" using ok unfolding pool_ok_def by blast
  then show ?thesis by simp
qed

lemma release_nodes_fold:
  assumes "distinct ps" "set ps \<subseteq> U" "pool_ok (g_node_pool s) U (c_heap_of s)"
  shows "\<exists>pl. fold mtpndd_memory_release_node ps s =
             s\<lparr>g_node_pool := pl, nodes := (\<lambda>q. if q \<in> set ps then None else nodes s q)\<rparr>
           \<and> pool_ok pl (U - set ps) (c_heap_of s)"
  using assms
proof (induction ps arbitrary: s U)
  case (Cons p ps)
  let ?pl = "mtpndd_slab_pool_release (g_node_pool s) (cur_worker s) p"
  let ?s = "s\<lparr>g_node_pool := ?pl, nodes := (nodes s)(p := None)\<rparr>"
  have pU: "p \<in> U" using Cons.prems(2) by simp
  have p0: "p \<noteq> NULL" using pool_used_pos[OF Cons.prems(3) pU] by simp
  have ok: "pool_ok (g_node_pool ?s) (U - {p}) (c_heap_of ?s)"
    using release_ok[OF Cons.prems(3) pU] by simp
  have "set ps \<subseteq> U - {p}" "distinct ps" using Cons.prems by auto
  from Cons.IH[OF this(2,1) ok] obtain pl where pl: "fold mtpndd_memory_release_node ps ?s =
      ?s\<lparr>g_node_pool := pl, nodes := (\<lambda>q. if q \<in> set ps then None else nodes ?s q)\<rparr>"
    "pool_ok pl (U - {p} - set ps) (c_heap_of s)" by auto
  have "(\<lambda>q. if q \<in> set ps then None else nodes ?s q) = (\<lambda>q. if q \<in> set (p # ps) then None else nodes s q)"
    by (auto simp: fun_eq_iff)
  moreover have "mtpndd_memory_release_node p s = ?s" using p0 by (simp add: mtpndd_memory_release_node_def)
  moreover have "U - {p} - set ps = U - set (p # ps)" by auto
  ultimately show ?case using pl by auto
next
  case Nil
  then show ?case by (intro exI[of _ "g_node_pool s"]) simp
qed

text \<open>Dropping leaves nobody points to keeps the invariant.\<close>

lemma drop_leaves_live:
  assumes si: "sinv S M s" and X: "\<And>p. p \<in> X \<Longrightarrow> parents s p = {} \<and> p \<noteq> MTPNDD_TRUE \<and> p \<noteq> MTPNDD_FALSE \<and> \<not> internal s p"
    and l: "live E s p"
  shows "p \<notin> X"
  using l
proof (cases rule: live.cases)
  case (live_child q m)
  then have "q \<in> parents s p" by (auto simp: parents_def node_edges_content)
  then show ?thesis using X by blast
qed (use X in blast)+

lemma drop_leaves:
  assumes h: "hinv S M E s"
    and X: "\<And>p. p \<in> X \<Longrightarrow> parents s p = {} \<and> p \<noteq> MTPNDD_TRUE \<and> p \<noteq> MTPNDD_FALSE \<and> \<not> internal s p"
    and n: "nodes s' = (\<lambda>q. if q \<in> X then None else nodes s q)"
    and nt: "node_tables_by_field s' = node_tables_by_field s" and fc: "field_count s' = field_count s"
    and lt: "\<And>lf t. lf \<in> {FR, DB} \<Longrightarrow> leaf_table_of lf s' = Some t \<Longrightarrow>
               leaf_table_wf s lf t \<and> le_node ` set (lentries t) \<inter> X = {}"
    and ri: "rinv s'"
  shows "hinv S M E s' \<and> keeps E s s'"
proof -
  note si = hinvD(1)[OF h] and r = hinvD(2)[OF h]
  have ct: "content s' q = (if q \<in> X then None else content s q)" for q by (simp add: content_def n)
  have ctI: "content s' q = Some (f, NEdges m) \<longleftrightarrow> content s q = Some (f, NEdges m)" for q f m
    using X[of q] by (auto simp: ct internal_content)
  have tb: "tabled s' = tabled s" by (rule tabled_cong[OF fc nt])
  have int: "internal s' = internal s" by (simp add: fun_eq_iff internal_content ctI)
  have par: "parents s' = parents s" by (simp add: fun_eq_iff parents_def ctI)
  have "node_wf S M s' x" if q: "content s' q = Some x" for q x
  proof -
    have q': "content s q = Some x" using q by (simp add: ct split: if_splits)
    have "content s' c = content s c" if "x = (fst x, NEdges m)" "c \<in> dom (emap m)" for c m
    proof -
      have "q \<in> parents s c" using q' that by (cases x) (auto simp: parents_def)
      then show ?thesis using X[of c] by (auto simp: ct)
    qed
    then have "node_wf S M s' x = node_wf S M s x" by (intro node_wf_cong[where f = "fst x"]) (use tb in auto)
    then show ?thesis using si q' unfolding sinv_def by blast
  qed
  moreover have "sentinels_ok s'" using si X unfolding sinv_def sentinels_ok_def by (auto simp: ct)
  moreover have "tables_ok s'"
    using si unfolding sinv_def tables_ok_def table_wf_def entry_ok_def nt tb ctI by blast
  moreover have "unique_nodes s'" using si unfolding sinv_def unique_nodes_def ctI by blast
  moreover have "leaf_table_wf s' lf t" if "lf \<in> {FR, DB}" "leaf_table_of lf s' = Some t" for lf t
  proof -
    have "content s' (le_node e) = content s (le_node e)" if "e \<in> set (lentries t)" for e
      using lt[OF \<open>lf \<in> {FR, DB}\<close> \<open>leaf_table_of lf s' = Some t\<close>] imageI[OF that, of le_node]
      by (auto simp: ct simp del: set_concat)
    then show ?thesis using lt[OF that] unfolding leaf_table_wf_def by simp
  qed
  ultimately have si': "sinv S M s'" using si unfolding sinv_def leaf_tables_ok_def fc by blast
  have r': "refs_ok E s'"
    using r unfolding refs_ok_def int par by (auto simp: n split: if_splits)
  have nl: "p \<notin> X" if "live E s p" for p using drop_leaves_live[OF si X that] by blast
  have "live E s' p" if "live E s p" for p using that
  proof (induction rule: live.induct)
    case (live_protected p nd)
    then have "nodes s' p = Some nd" using X[of p] by (auto simp: n)
    then show ?case using live_protected int by (auto intro: live.live_protected)
  next
    case (live_child p m c)
    have "node_edges s' p = Some m" using live_child(2) by (simp add: node_edges_content ctI)
    then show ?case using live_child by (auto intro: live.live_child)
  qed (use int in \<open>auto intro: live.intros\<close>)
  then have "keeps E s s'" using nl fc tb by (auto simp: keeps_def ct)
  then show ?thesis using si' r' ri by (simp add: hinv_def)
qed

text \<open>What \<open>mtpndd_leaf_gc\<close> does to the two tables and the nodes.\<close>

definition dead_leaves :: "mtpndd_leaf_table option \<Rightarrow> ptr list" where
  "dead_leaves tab = (case tab of None \<Rightarrow> [] | Some t \<Rightarrow> map le_node (filter leaf_dead (lentries t)))"

definition cut_leaves :: "mtpndd_leaf_table \<Rightarrow> mtpndd_leaf_table" where
  "cut_leaves t = t\<lparr>lt_buckets := map (filter (\<lambda>e. \<not> leaf_dead e)) (lt_buckets t),
     lt_entry_count := lt_entry_count t - length (filter leaf_dead (lentries t))\<rparr>"

lemma sweep_opt_eq:
  "sweep_opt tab s = (length (dead_leaves tab), map_option cut_leaves tab,
     fold mtpndd_memory_release_node (dead_leaves tab) s)"
  by (cases tab) (simp_all add: sweep_opt_def dead_leaves_def cut_leaves_def
      mtpndd_leaf_table_sweep_unmarked_def fold_map comp_def Let_def)

lemma cut_entries: "lentries (cut_leaves t) = filter (\<lambda>e. \<not> leaf_dead e) (lentries t)"
  by (simp add: cut_leaves_def filter_concat)

lemma cut_wf:
  assumes "leaf_table_wf s lf t" shows "leaf_table_wf s lf (cut_leaves t)"
proof -
  have sh: "leaf_shape t" using assms by (simp add: leaf_table_wf_def)
  then have d: "distinct (map le_node (lentries t))" "distinct (map le_value (lentries t))"
    by (simp_all add: leaf_shape_def)
  have "\<forall>i<length (lt_buckets (cut_leaves t)). \<forall>e\<in>set (lt_buckets (cut_leaves t) ! i).
      leaf_bucket_index (cut_leaves t) (le_value e) = i"
    using sh by (simp add: leaf_shape_def cut_leaves_def leaf_bucket_index_def)
  then have "leaf_shape (cut_leaves t)"
    using sh d[THEN distinct_map_filter] unfolding leaf_shape_def cut_entries by (simp add: cut_leaves_def)
  then show ?thesis using assms unfolding leaf_table_wf_def cut_entries set_filter by blast
qed

lemma cut_dead_disjoint:
  assumes "distinct (map le_node (lentries t))"
  shows "le_node ` set (lentries (cut_leaves t)) \<inter> set (dead_leaves (Some t)) = {}"
proof -
  have "e = e'" if "e \<in> set (lentries t)" "e' \<in> set (lentries t)" "le_node e = le_node e'" for e e'
    using assms that by (metis distinct_map inj_onD)
  then show ?thesis unfolding cut_entries dead_leaves_def by (auto simp del: set_concat)
qed

text \<open>The dead leaves of a marked table: in the table, without parents, not sentinels.\<close>

lemma marked_dead:
  assumes m: "marking s lf {c. parents s c \<noteq> {}} tab" and si: "sinv S M s" and lf: "lf \<in> {FR, DB}"
    and p: "p \<in> set (dead_leaves tab)"
  shows "parents s p = {} \<and> p \<noteq> MTPNDD_TRUE \<and> p \<noteq> MTPNDD_FALSE \<and> (\<exists>v. content s p = Some (lf, NLeaf v))"
proof -
  obtain t' e where t': "tab = Some t'" and e: "e \<in> set (lentries t')" "leaf_dead e" "p = le_node e"
    using p by (auto simp: dead_leaves_def simp del: set_concat split: option.splits)
  obtain t where t: "leaf_table_of lf s = Some t" "same_leaves t t'"
    "\<forall>p\<in>{c. parents s c \<noteq> {}}. p \<in> le_node ` set (lentries t) \<longrightarrow> p \<in> marks t'"
    using m unfolding t' by (rule markingE)
  have "leaf_table_wf s lf t" using si lf t(1) unfolding sinv_def leaf_tables_ok_def by blast
  then have wf: "leaf_table_wf s lf t'" by (rule same_leaves_wf[OF t(2)])
  have "p \<notin> marks t'"
  proof
    assume "p \<in> marks t'"
    then obtain e' where e': "e' \<in> set (lentries t')" "le_marked e'" "le_node e' = p"
      unfolding marks_def by blast
    have "distinct (map le_node (lentries t'))" using wf by (simp add: leaf_table_wf_def leaf_shape_def)
    then have "e' = e" using e e' by (metis distinct_map inj_onD)
    then show False using e(2) e'(2) by (simp add: leaf_dead_def)
  qed
  moreover have "p \<in> le_node ` set (lentries t)"
    using same_leaves_entries[OF t(2) e(1)] e(3) by (metis imageI)
  ultimately have "parents s p = {}" using t(3) by blast
  moreover have "content s p = Some (lf, NLeaf (le_value e))"
    using wf e(1,3) unfolding leaf_table_wf_def by blast
  ultimately show ?thesis using e(2,3) by (simp add: leaf_dead_def is_sentinel_def)
qed

lemma marking_cut:
  assumes m: "marking s lf P tab" and si: "sinv S M s" and lf: "lf \<in> {FR, DB}"
    and t: "map_option cut_leaves tab = Some t"
  shows "leaf_table_wf s lf t \<and> le_node ` set (lentries t) \<inter> set (dead_leaves tab) = {}"
proof -
  obtain t' where t': "tab = Some t'" "t = cut_leaves t'" using t by auto
  obtain t0 where t0: "leaf_table_of lf s = Some t0" "same_leaves t0 t'"
    using m unfolding t'(1) by (rule markingE)
  have "leaf_table_wf s lf t0" using si lf t0(1) unfolding sinv_def leaf_tables_ok_def by blast
  then have wf: "leaf_table_wf s lf t'" by (rule same_leaves_wf[OF t0(2)])
  then have "distinct (map le_node (lentries t'))" by (simp add: leaf_table_wf_def leaf_shape_def)
  then show ?thesis using cut_wf[OF wf] cut_dead_disjoint t' by blast
qed

lemma marking_dead_distinct:
  assumes m: "marking s lf P tab" and si: "sinv S M s" and lf: "lf \<in> {FR, DB}"
  shows "distinct (dead_leaves tab)"
proof (cases tab)
  case (Some t')
  obtain t0 where t0: "leaf_table_of lf s = Some t0" "same_leaves t0 t'"
    using m unfolding Some by (rule markingE)
  have "leaf_table_wf s lf t0" using si lf t0(1) unfolding sinv_def leaf_tables_ok_def by blast
  from same_leaves_wf[OF t0(2) this] have "leaf_shape t'" unfolding leaf_table_wf_def by blast
  then have "distinct (map le_node (lentries t'))" by (simp add: leaf_shape_def)
  then show ?thesis using Some distinct_map_filter by (simp add: dead_leaves_def)
qed (simp add: dead_leaves_def)

text \<open>The two collections together.\<close>

definition gc_ctx :: "mstate \<Rightarrow> mstate \<Rightarrow> bool" where
  "gc_ctx s s' \<longleftrightarrow> field_count s' = field_count s \<and> temp_refs_pool s' = temp_refs_pool s
     \<and> and_cache s' = and_cache s \<and> or_cache s' = or_cache s \<and> not_cache s' = not_cache s
     \<and> gc_running s' = gc_running s \<and> g_edge_bucket_count s' = g_edge_bucket_count s
     \<and> dom (nodes s') \<subseteq> dom (nodes s) \<and> res_mono s s'"

lemma gc_ctx_trans: "gc_ctx s t \<Longrightarrow> gc_ctx t u \<Longrightarrow> gc_ctx s u"
  using res_mono_trans[of s t u] by (simp add: gc_ctx_def) (meson subset_trans)

lemma gc_ctx_refl [simp]: "gc_ctx s s"
  by (simp add: gc_ctx_def)

lemma both_tables_marked:
  assumes h: "hinv S M E s"
  shows "\<exists>fr db. mtpndd_leaf_gc_mark_from_roots s
             (map_option mtpndd_leaf_table_clear_marks (leaf_table s),
              map_option mtpndd_leaf_table_clear_marks (double_leaf_table s)) = Some (fr, db)
           \<and> marking s FR {c. parents s c \<noteq> {}} fr \<and> marking s DB {c. parents s c \<noteq> {}} db"
proof -
  note si = hinvD(1)[OF h] and ri = hinvD(3)[OF h]
  have cl: "mtpndd_leaf_table_clear_marks (mtpndd_leaf_table_clear_marks t) = mtpndd_leaf_table_clear_marks t" for t
    by (simp add: mtpndd_leaf_table_clear_marks_def comp_def)
  let ?fr = "map_option mtpndd_leaf_table_clear_marks (leaf_table s)"
  let ?db = "map_option mtpndd_leaf_table_clear_marks (double_leaf_table s)"
  have m0: "marking s FR {} ?fr" "marking s DB {} ?db"
    using FR_DB by (simp_all add: marking_def leaf_table_of_def same_leaves_def cl split: option.splits)
  obtain cs where cs: "concat_opt (table_children s) [1..<Suc (field_count s)] = Some cs"
    "set cs = {c. parents s c \<noteq> {}}" using all_children_spec[OF h] by blast
  have known: "\<forall>c\<in>set cs. nodes s c \<noteq> None"
    using cs(2) sinv_child[OF si] by (fastforce simp: parents_def child_ok_def)
  have sent: "content s MTPNDD_TRUE = Some (FR, NLeaf (mtpndd_pack_fraction 1 1))"
    "content s MTPNDD_FALSE = Some (FR, NLeaf (mtpndd_pack_fraction 0 1))"
    using si by (simp_all add: sinv_def sentinels_ok_def)
  define roots where "roots = (case (?fr, ?db) of
      (Some fr, dbl) \<Rightarrow> do {
        fr \<leftarrow> mtpndd_leaf_table_mark s MTPNDD_TRUE fr;
        fr \<leftarrow> mtpndd_leaf_table_mark s MTPNDD_FALSE fr;
        Some (Some fr, dbl)
      }
    | (None, dbl) \<Rightarrow> Some (None, dbl))"
  have "\<exists>fr1 P. roots = Some (fr1, ?db) \<and> marking s FR P fr1"
  proof (cases ?fr)
    case (Some t)
    obtain t1 where t1: "mtpndd_leaf_table_mark s MTPNDD_TRUE t = Some t1"
      "marking s FR {MTPNDD_TRUE} (Some t1)"
      using marking_step[OF si _ m0(1)[unfolded Some] sent(1)] by (auto simp: MTPNDD_TRUE_def)
    obtain t2 where "mtpndd_leaf_table_mark s MTPNDD_FALSE t1 = Some t2"
      "marking s FR {MTPNDD_FALSE, MTPNDD_TRUE} (Some t2)"
      using marking_step[OF si _ t1(2) sent(2)] by (auto simp: MTPNDD_FALSE_def)
    then show ?thesis unfolding roots_def Some using t1(1) by auto
  qed (use m0(1) in \<open>auto simp: roots_def\<close>)
  then obtain fr1 P where r1: "roots = Some (fr1, ?db)" "marking s FR P fr1" by blast
  have m1: "marking s FR {} fr1" using r1(2) unfolding marking_def by (auto split: option.splits)
  from mark_children_spec[OF si ri m1 m0(2) known] obtain fr db where
    "mark_children s cs (fr1, ?db) = Some (fr, db)" "marking s FR (set cs) fr" "marking s DB (set cs) db"
    by auto
  then show ?thesis unfolding mtpndd_leaf_gc_mark_from_roots_def roots_def[symmetric] using r1(1) cs by simp
qed

text \<open>
  The two sweeps together: what a sweep cuts from one table is not in the other, so no table keeps an
  entry of a released leaf.
\<close>
lemma both_tables_cut:
  assumes si: "sinv S M s" and m: "marking s FR {c. parents s c \<noteq> {}} fr" "marking s DB {c. parents s c \<noteq> {}} db"
    and lf: "lf \<in> {FR, DB}" and t: "map_option cut_leaves (if lf = FR then fr else db) = Some t"
  shows "leaf_table_wf s lf t \<and> le_node ` set (lentries t) \<inter> set (dead_leaves fr @ dead_leaves db) = {}"
proof -
  note dead = marked_dead[OF m(1) si] marked_dead[OF m(2) si]
  define tab oth where "tab = (if lf = FR then fr else db)" and "oth = (if lf = FR then db else fr)"
  have tab: "marking s lf {c. parents s c \<noteq> {}} tab" "map_option cut_leaves tab = Some t"
    using lf t m FR_DB by (auto simp: tab_def)
  have "le_node ` set (lentries t) \<inter> set (dead_leaves oth) = {}"
    using marking_cut[OF tab(1) si lf tab(2)] dead FR_DB lf unfolding leaf_table_wf_def oth_def
    by (fastforce simp del: set_concat)
  moreover have "set (dead_leaves fr @ dead_leaves db) = set (dead_leaves tab) \<union> set (dead_leaves oth)"
    by (auto simp: tab_def oth_def)
  ultimately show ?thesis using marking_cut[OF tab(1) si lf tab(2)] by blast
qed

lemma card_dom_removed:
  assumes fin: "finite (dom m)" and ps: "distinct ps" "set ps \<subseteq> dom m" and m': "dom m' = dom m - set ps"
  shows "length ps + card (dom m') = card (dom m)"
proof -
  have "card (dom m - set ps) = card (dom m) - length ps"
    using ps by (subst card_Diff_subset) (auto simp: distinct_card)
  moreover have "length ps \<le> card (dom m)"
    using card_mono[OF fin ps(2)] distinct_card[OF ps(1)] by simp
  ultimately show ?thesis using m' by simp
qed

lemma leaf_gc_spec:
  assumes h: "hinv S M E s"
  shows "\<exists>n s'. mtpndd_leaf_gc s = Some (n, s') \<and> hinv S M E s' \<and> keeps E s s' \<and> gc_ctx s s'
     \<and> g_pal_config s' = g_pal_config s \<and> n + card (dom (nodes s')) = card (dom (nodes s))
     \<and> (\<forall>p. internal s' p = internal s p) \<and> (\<forall>p. internal s p \<longrightarrow> nodes s' p = nodes s p)"
proof (cases "leaf_table s = None \<and> double_leaf_table s = None")
  case True
  then show ?thesis using h by (simp add: mtpndd_leaf_gc_def)
next
  case False
  note si = hinvD(1)[OF h] and ri = hinvD(3)[OF h]
  obtain fr db where mk: "mtpndd_leaf_gc_mark_from_roots s
      (map_option mtpndd_leaf_table_clear_marks (leaf_table s),
       map_option mtpndd_leaf_table_clear_marks (double_leaf_table s)) = Some (fr, db)"
    and m: "marking s FR {c. parents s c \<noteq> {}} fr" "marking s DB {c. parents s c \<noteq> {}} db"
    using both_tables_marked[OF h] by blast
  define ps where "ps = dead_leaves fr @ dead_leaves db"
  note dead = marked_dead[OF m(1) si] marked_dead[OF m(2) si]
  have X: "parents s p = {} \<and> p \<noteq> MTPNDD_TRUE \<and> p \<noteq> MTPNDD_FALSE \<and> \<not> internal s p" if "p \<in> set ps" for p
    using that dead[of p] unfolding ps_def by (auto simp: internal_content)
  let ?U = "dom (nodes s) - {MTPNDD_TRUE, MTPNDD_FALSE}"
  have dist: "distinct ps"
    using marking_dead_distinct[OF m(1) si] marking_dead_distinct[OF m(2) si] dead FR_DB
    unfolding ps_def distinct_append by fastforce
  have sub: "set ps \<subseteq> ?U" using X dead unfolding ps_def by (fastforce simp: content_Some)
  have ok: "pool_ok (g_node_pool s) ?U (c_heap_of s)" using ri unfolding rinv_def by blast
  obtain pl where pl: "fold mtpndd_memory_release_node ps s =
      s\<lparr>g_node_pool := pl, nodes := (\<lambda>q. if q \<in> set ps then None else nodes s q)\<rparr>"
    "pool_ok pl (?U - set ps) (c_heap_of s)" using release_nodes_fold[OF dist sub ok] by blast
  define s' where "s' = s\<lparr>g_node_pool := pl, nodes := (\<lambda>q. if q \<in> set ps then None else nodes s q),
      leaf_table := map_option cut_leaves fr, double_leaf_table := map_option cut_leaves db\<rparr>"
  have run: "mtpndd_leaf_gc s = Some (length ps, s')"
    using mk pl(1) unfolding mtpndd_leaf_gc_def if_not_P[OF False]
    by (simp add: Let_def sweep_opt_eq s'_def ps_def split: prod.splits)
  have dom': "dom (nodes s') = dom (nodes s) - set ps" by (auto simp: s'_def split: if_splits)
  then have "dom (nodes s') - {MTPNDD_TRUE, MTPNDD_FALSE} = ?U - set ps" by auto
  then have ri': "rinv s'" using ri pl(2) by (simp add: rinv_def s'_def bucket_cfg_ok_def)
  have lt: "leaf_table_wf s lf t \<and> le_node ` set (lentries t) \<inter> set ps = {}"
    if "lf \<in> {FR, DB}" "leaf_table_of lf s' = Some t" for lf t
    unfolding ps_def by (rule both_tables_cut[OF si m that(1)]) (use that FR_DB in \<open>auto simp: leaf_table_of_def s'_def\<close>)
  have "hinv S M E s' \<and> keeps E s s'"
    by (rule drop_leaves[OF h X _ _ _ lt ri']) (simp_all add: s'_def)
  moreover have "length ps + card (dom (nodes s')) = card (dom (nodes s))"
    by (rule card_dom_removed[OF rinv_finite[OF ri] dist _ dom']) (use sub in blast)
  moreover have "nodes s' p = nodes s p" if "internal s p" for p using X that by (auto simp: s'_def)
  moreover have "internal s' p = internal s p" for p
    using X by (auto simp: s'_def internal_def node_edges_def split: option.splits)
  moreover have "gc_ctx s s'" using dom' by (auto simp: gc_ctx_def s'_def intro!: res_mono_same)
  ultimately show ?thesis using run by (auto simp: s'_def)
qed

end
