(* ===== verification/Gc_Correct.thy ===== *)
theory Gc_Correct
  imports Leaf_Gc_Correct
begin

text \<open>
  Rehashing and growing the unique tables, and the whole collection \<open>gcOrGrow\<close>: it keeps the
  invariant and every live node, leaves no internal node without a reference, and empties
  the operation caches.
\<close>

section \<open>Rehash\<close>

lemma nt_rehash_entries_spec:
  assumes "is_pow2 n" "n \<le> 2 ^ 63" "length bs = n"
    "\<forall>i<n. \<forall>e\<in>set (bs ! i). mask_index (nte_hash e) n = i"
  shows "length (nt_rehash_entries n es bs) = n
     \<and> (\<forall>i<n. \<forall>e\<in>set (nt_rehash_entries n es bs ! i). mask_index (nte_hash e) n = i)
     \<and> mset (concat (nt_rehash_entries n es bs)) = mset (concat bs) + mset es"
  using assms
proof (induction es arbitrary: bs)
  case (Cons e es)
  define i where "i = mask_index (nte_hash e) n"
  have i: "i < length bs" using mask_index_less[of n "nte_hash e"] Cons.prems by (simp add: i_def)
  let ?bs = "bs[i := e # bs ! i]"
  have "\<forall>j<n. \<forall>x\<in>set (?bs ! j). mask_index (nte_hash x) n = j"
  proof (intro allI impI ballI)
    fix j x assume "j < n" "x \<in> set (?bs ! j)"
    then show "mask_index (nte_hash x) n = j"
      using Cons.prems(4) i i_def by (cases "j = i") auto
  qed
  then have ih: "length (nt_rehash_entries n es ?bs) = n"
    "\<forall>i<n. \<forall>e\<in>set (nt_rehash_entries n es ?bs ! i). mask_index (nte_hash e) n = i"
    "mset (concat (nt_rehash_entries n es ?bs)) = mset (concat ?bs) + mset es"
    using Cons.IH[of ?bs] Cons.prems by auto
  obtain D where "mset (concat bs) = mset (bs ! i) + D"
    using mset_nth_subset_concat[OF i] by (auto simp: subset_mset.le_iff_add)
  then have "mset (concat ?bs) = mset (concat bs) + {#e#}"
    using mset_concat_update[OF i, of "e # bs ! i"] by simp
  then show ?case using ih by (simp add: Let_def i_def[symmetric])
qed simp

lemma table_shape_mset:
  assumes t: "table_shape t" and n: "is_pow2 (nodetable_bucket_count t')" "16 \<le> nodetable_bucket_count t'"
      "nodetable_bucket_count t' \<le> 2 ^ 60" "length (nt_buckets t') = nodetable_bucket_count t'"
      "nt_entry_count t' = nt_entry_count t" "mset (tentries t') = mset (tentries t)"
    and p: "\<forall>i<length (nt_buckets t'). \<forall>e\<in>set (nt_buckets t' ! i).
          mask_index (nte_hash e) (nodetable_bucket_count t') = i"
  shows "table_shape t'"
proof -
  have "length (tentries t') = length (tentries t)" using n(6) by (metis size_mset)
  moreover have "mset (map nte_node (tentries t')) = mset (map nte_node (tentries t))" using n(6) by simp
  then have "distinct (map nte_node (tentries t'))"
    using t mset_eq_imp_distinct_iff unfolding table_shape_def by blast
  ultimately show ?thesis using t n p by (simp add: table_shape_def)
qed

lemma nodetable_rehash_spec:
  assumes t: "table_shape t" and lim: "mem_limit (c_heap_of s) \<le> 2 ^ 60"
  shows "\<exists>ok t' s'. mtpndd_nodetable_rehash t (nodetable_bucket_count t * 2) s = Some (ok, t', s')
     \<and> quiet s s' \<and> table_shape t' \<and> mset (tentries t') = mset (tentries t)"
proof -
  let ?n = "nodetable_bucket_count t * 2"
  have n: "is_pow2 ?n" "16 \<le> ?n" "?n \<le> 2 ^ 63" using t is_pow2_double by (auto simp: table_shape_def)
  have r: "round_up_pow2_nat (if ?n < 16 then 16 else ?n) = ?n"
    using n round_up_pow2_nat_pow2[of ?n] by simp
  obtain p s1 where ml: "malloc (?n * 8) s = (p, s1)" by fastforce
  note q = malloc_quiet[OF ml]
  show ?thesis
  proof (cases "p = NULL")
    case True
    then have "mtpndd_nodetable_rehash t ?n s = Some (False, t, s1)"
      using n(2) r ml by (simp add: mtpndd_nodetable_rehash_def Let_def)
    then show ?thesis using q t by blast
  next
    case False
    have n60: "?n \<le> 2 ^ 60" using malloc_bound[OF ml False] lim by simp
    have bc: "nodetable_bucket_count t = length (nt_buckets t)" using t by (simp add: table_shape_def)
    define bs where "bs = nt_rehash_entries ?n (tentries t) (replicate ?n [])"
    define t' where "t' = t\<lparr>nt_buckets := bs, nodetable_bucket_count := ?n, nt_load_threshold := ?n - ?n div 4\<rparr>"
    have b: "length bs = ?n" "\<forall>i<?n. \<forall>e\<in>set (bs ! i). mask_index (nte_hash e) ?n = i"
      "mset (concat bs) = mset (tentries t)"
      using nt_rehash_entries_spec[OF n(1,3), of "replicate ?n []" "tentries t"] unfolding bs_def by auto
    have "table_shape t'"
      by (rule table_shape_mset[OF t]) (use n n60 b in \<open>simp_all add: t'_def tentries_def\<close>)
    moreover have "mtpndd_nodetable_rehash t ?n s = Some (True, t', s1)"
      using n(2) r ml False bc
      by (auto simp: mtpndd_nodetable_rehash_def Let_def t'_def bs_def tentries_def)
    moreover have "mset (tentries t') = mset (tentries t)" using b(3) by (simp add: t'_def tentries_def)
    ultimately show ?thesis using q by blast
  qed
qed

text \<open>A table replaced by one with the same entries.\<close>

lemma hinv_retable:
  assumes h: "hinv S M E s" and q: "quiet s s1" and f: "f \<in> tabled s"
    and t: "node_tables_by_field s f = Some t" and t': "table_shape t'" "mset (tentries t') = mset (tentries t)"
  shows "hinv S M E (set_table f t' s1)" "keeps E s (set_table f t' s1)"
proof -
  let ?s = "set_table f t' s1"
  note qf = quiet_fields[OF q]
  have n: "nodes ?s = nodes s" and fc: "field_count ?s = field_count s"
    using qf by (simp_all add: set_table_def)
  have c: "content ?s = content s" by (rule content_nodes[OF n])
  have tb: "tabled ?s = tabled s"
    by (rule tabled_upd[where t = t', OF fc _ f]) (use qf(9) in \<open>simp add: set_table_def\<close>)
  have st: "set (tentries t') = set (tentries t)" using t'(2) by (metis set_mset_mset)
  have "table_wf ?s g u" if "table_wf s g u" for g u using that unfolding table_wf_def entry_ok_def c .
  moreover have "table_wf ?s f t'"
    using sinv_table_wf[OF hinvD(1)[OF h] f t] t'(1) unfolding table_wf_def entry_ok_def c st by simp
  ultimately have "tables_ok ?s"
    using hinvD(1)[OF h] qf(9) unfolding sinv_def tables_ok_def tb by (auto simp: set_table_def)
  moreover have "node_wf S M ?s nd = node_wf S M s nd" for nd
    by (rule node_wf_cong[where f = "fst nd"]) (use c tb in auto)
  moreover have "leaf_tables_ok ?s" "sentinels_ok ?s" "unique_nodes ?s"
    using hinvD(1)[OF h] qf(13,14)
    unfolding sinv_def leaf_tables_ok_def leaf_table_wf_def leaf_table_of_def sentinels_ok_def unique_nodes_def c
    by (simp_all add: set_table_def)
  ultimately have "sinv S M ?s" using hinvD(1)[OF h] unfolding sinv_def fc c by blast
  moreover have "rinv ?s" by (rule rinv_cong[OF n]) (use qf hinvD(3)[OF h] in \<open>simp_all add: set_table_def\<close>)
  ultimately show "hinv S M E ?s" using hinvD(2)[OF h] refs_ok_cong[OF n] by (simp add: hinv_def)
  show "keeps E s ?s" by (rule keeps_nodes[OF n fc tb])
qed

section \<open>Growing\<close>

text \<open>What growing a table changes: the tables, the configuration and the C heap.\<close>

definition grown :: "mstate \<Rightarrow> mstate \<Rightarrow> bool" where
  "grown s s' \<longleftrightarrow> nodes s' = nodes s \<and> field_count s' = field_count s \<and> tabled s' = tabled s
     \<and> temp_refs_pool s' = temp_refs_pool s
     \<and> and_cache s' = and_cache s \<and> or_cache s' = or_cache s \<and> not_cache s' = not_cache s
     \<and> gc_running s' = gc_running s \<and> g_edge_bucket_count s' = g_edge_bucket_count s
     \<and> mem_limit (c_heap_of s') = mem_limit (c_heap_of s) \<and> g_node_count s' = g_node_count s
     \<and> res_mono s s'"

lemma grown_refl [simp]: "grown s s"
  by (simp add: grown_def)

lemma grown_trans: "grown s t \<Longrightarrow> grown t u \<Longrightarrow> grown s u"
  using res_mono_trans[of s t u] by (simp add: grown_def)

lemma grown_retable: "quiet s s1 \<Longrightarrow> f \<in> tabled s \<Longrightarrow> grown s (set_table f t s1)"
  using quiet_fields[of s s1] by (auto simp: grown_def set_table_def res_mono_def pools_ready_def tabled_def)

lemma hinv_lim: "hinv S M E s \<Longrightarrow> mem_limit (c_heap_of s) \<le> 2 ^ 60"
  by (simp add: hinv_def rinv_def)

lemma grow_table_spec:
  assumes h: "hinv S M E s" and f: "f \<in> tabled s" and t: "node_tables_by_field s f = Some t"
  shows "\<exists>ok t' s1. mtpndd_nodetable_rehash t (nodetable_bucket_count t * 2) s = Some (ok, t', s1)
     \<and> nodetable_bucket_count t \<noteq> 0 \<and> hinv S M E (set_table f t' s1) \<and> grown s (set_table f t' s1)"
proof -
  have sh: "table_shape t" using sinv_table_wf[OF hinvD(1)[OF h] f t] by (simp add: table_wf_def)
  obtain ok t' s1 where r: "mtpndd_nodetable_rehash t (nodetable_bucket_count t * 2) s = Some (ok, t', s1)"
    "quiet s s1" "table_shape t'" "mset (tentries t') = mset (tentries t)"
    using nodetable_rehash_spec[OF sh hinv_lim[OF h]] by blast
  then show ?thesis using hinv_retable(1)[OF h r(2) f t r(3,4)] grown_retable[OF r(2) f] sh
    by (auto simp: table_shape_def)
qed

lemma grow_fields_spec:
  assumes "hinv S M E s" "set fs \<subseteq> {1..field_count s}"
  shows "\<exists>ok s'. grow_fields fs s = Some (ok, s') \<and> hinv S M E s' \<and> grown s s'"
  using assms
proof (induction fs arbitrary: s)
  case (Cons f fs)
  have f: "f \<in> {1..field_count s}" using Cons.prems(2) by simp
  show ?case
  proof (cases "node_tables_by_field s f")
    case None
    then show ?thesis using Cons.IH[OF Cons.prems(1)] Cons.prems(2) by simp
  next
    case (Some t)
    then have tb: "f \<in> tabled s" using f by (simp add: tabled_def)
    obtain ok t' s1 where r: "mtpndd_nodetable_rehash t (nodetable_bucket_count t * 2) s = Some (ok, t', s1)"
      "nodetable_bucket_count t \<noteq> 0" "hinv S M E (set_table f t' s1)" "grown s (set_table f t' s1)"
      using grow_table_spec[OF Cons.prems(1) tb Some] by blast
    show ?thesis
    proof (cases ok)
      case True
      have "set fs \<subseteq> {1..field_count (set_table f t' s1)}" using Cons.prems(2) r(4) by (simp add: grown_def)
      from Cons.IH[OF r(3) this] show ?thesis using Some r True grown_trans[OF r(4)] by (auto simp: Let_def)
    qed (use Some r in \<open>auto simp: Let_def\<close>)
  qed
qed auto

lemma hinv_config:
  "hinv S M E s \<Longrightarrow> hinv S M E (s\<lparr>g_pal_config := c\<rparr>)"
  using hinv_same_heap[of S M E s "s\<lparr>g_pal_config := c\<rparr>"] by (simp add: same_heap_def)

lemma grow_internal_spec:
  assumes h: "hinv S M E s"
  shows "\<exists>s'. grow_internal s = Some s' \<and> hinv S M E s' \<and> grown s s'"
proof -
  have "set [1..<Suc (field_count s)] \<subseteq> {1..field_count s}" by auto
  from grow_fields_spec[OF h this] obtain ok s1 where
    "grow_fields [1..<Suc (field_count s)] s = Some (ok, s1)" "hinv S M E s1" "grown s s1" by blast
  then show ?thesis using hinv_config[of S M E s1]
    by (cases ok) (simp_all add: grow_internal_def Let_def grown_def res_mono_def pools_ready_def del: upt_Suc)
qed

lemma nodetable_maybe_rehash_spec:
  assumes h: "hinv S M E s" and f: "f \<in> tabled s"
  shows "\<exists>s'. mtpndd_nodetable_maybe_rehash f s = Some s' \<and> hinv S M E s' \<and> grown s s'"
proof -
  obtain t where t: "node_tables_by_field s f = Some t" using sinv_table[OF hinvD(1)[OF h] f] by blast
  obtain ok t' s1 where r: "mtpndd_nodetable_rehash t (nodetable_bucket_count t * 2) s = Some (ok, t', s1)"
    "nodetable_bucket_count t \<noteq> 0" "hinv S M E (set_table f t' s1)" "grown s (set_table f t' s1)"
    using grow_table_spec[OF h f t] by blast
  show ?thesis
  proof (cases "nt_load_threshold t \<le> nt_entry_count t")
    case True
    then show ?thesis using t r hinv_config[OF r(3)]
      by (auto simp: mtpndd_nodetable_maybe_rehash_def Let_def grown_def res_mono_def pools_ready_def)
  qed (use t h in \<open>simp add: mtpndd_nodetable_maybe_rehash_def\<close>)
qed

section \<open>Collection\<close>

definition caches_shape :: "mstate \<Rightarrow> bool" where
  "caches_shape s \<longleftrightarrow> opt_cache_ok 2 (and_cache s) \<and> opt_cache_ok 2 (or_cache s) \<and> opt_cache_ok 1 (not_cache s)"

definition caches_empty :: "mstate \<Rightarrow> bool" where
  "caches_empty s \<longleftrightarrow> (\<forall>a b r. \<not> cached (and_cache s) a b r \<and> \<not> cached (or_cache s) a b r
     \<and> \<not> cached (not_cache s) a b r)"

lemma clear_caches_spec:
  assumes "caches_shape s"
  shows "\<exists>a o' n. clear_caches s = Some (s\<lparr>and_cache := a, or_cache := o', not_cache := n\<rparr>)
     \<and> caches_shape (s\<lparr>and_cache := a, or_cache := o', not_cache := n\<rparr>)
     \<and> caches_empty (s\<lparr>and_cache := a, or_cache := o', not_cache := n\<rparr>)"
proof -
  obtain a where a: "mtpndd_op_cache_clear (and_cache s) = Some a" "opt_cache_ok 2 a" "\<forall>x y z. \<not> cached a x y z"
    using clear_spec assms unfolding caches_shape_def by blast
  obtain b where b: "mtpndd_op_cache_clear (or_cache s) = Some b" "opt_cache_ok 2 b" "\<forall>x y z. \<not> cached b x y z"
    using clear_spec assms unfolding caches_shape_def by blast
  obtain n where n: "mtpndd_op_cache_clear (not_cache s) = Some n" "opt_cache_ok 1 n" "\<forall>x y z. \<not> cached n x y z"
    using clear_spec assms unfolding caches_shape_def by blast
  show ?thesis using a b n
    by (intro exI[of _ a] exI[of _ b] exI[of _ n])
      (simp add: clear_caches_def caches_shape_def caches_empty_def)
qed

text \<open>
  The sweep and the leaf collection.  Afterwards every internal node has a reference, and the
  nodes that are gone were not live.
\<close>

lemma gc_internal_spec:
  assumes h: "hinv S M E s"
  shows "\<exists>s'. gc_internal s = Some s' \<and> hinv S M E s' \<and> keeps E s s' \<and> gc_ctx s s'
     \<and> (\<forall>p. internal s' p \<longrightarrow> referenced s' p)"
proof -
  let ?s0 = "mtpndd_gc_run_prehooks s"
  have h0: "hinv S M E ?s0 \<and> keeps E s ?s0"
    by (rule hinv_same_heap[OF h]) (simp add: same_heap_def mtpndd_gc_run_prehooks_def)
  obtain n s1 where s1: "mtpndd_gc_sweep ?s0 = Some (n, s1)" "hinv S M E s1" "keeps E ?s0 s1" "gc_frame ?s0 s1"
    "dom (nodes s1) \<subseteq> dom (nodes ?s0)" "\<forall>p. internal s1 p \<longrightarrow> referenced s1 p"
    using gc_sweep_spec[of S M E ?s0] h0 by blast
  obtain k s2 where s2: "mtpndd_leaf_gc s1 = Some (k, s2)" "hinv S M E s2" "keeps E s1 s2" "gc_ctx s1 s2"
    "\<forall>p. internal s2 p = internal s1 p" "\<forall>p. internal s1 p \<longrightarrow> nodes s2 p = nodes s1 p"
    using leaf_gc_spec[OF s1(2)] by blast
  define s3 where "s3 = (if 0 < n then s2\<lparr>g_node_count := (g_node_count s2 + 2 ^ 64 - n) mod 2 ^ 64\<rparr> else s2)"
  let ?s4 = "mtpndd_gc_run_posthooks s3"
  have "same_heap s2 ?s4" by (simp add: same_heap_def mtpndd_gc_run_posthooks_def s3_def)
  then have h4: "hinv S M E ?s4 \<and> keeps E s2 ?s4" by (rule hinv_same_heap[OF s2(2)])
  have n4: "nodes ?s4 = nodes s2" by (simp add: mtpndd_gc_run_posthooks_def s3_def)
  have "internal ?s4 p \<longrightarrow> referenced ?s4 p" for p
    using s2(5,6) s1(6) n4 by (simp add: internal_def node_edges_def referenced_def)
  moreover have "keeps E s ?s4" using h0 s1(3) s2(3) h4 keeps_trans by blast
  moreover have "gc_ctx s s1" using s1(4,5)
    by (simp add: gc_ctx_def gc_frame_def mtpndd_gc_run_prehooks_def res_mono_def pools_ready_def)
  then have "gc_ctx s s2" using gc_ctx_trans s2(4) by blast
  then have "gc_ctx s ?s4"
    by (simp add: gc_ctx_def mtpndd_gc_run_posthooks_def s3_def res_mono_def pools_ready_def)
  moreover have "gc_internal s = Some ?s4"
    using s1(1) s2(1) by (simp add: gc_internal_def Let_def s3_def)
  ultimately show ?thesis using h4 by blast
qed

text \<open>A whole collection: the caches are empty, so no stale pointer survives in them.\<close>

definition collected :: "mstate \<Rightarrow> mstate \<Rightarrow> bool" where
  "collected s s' \<longleftrightarrow> caches_shape s' \<and> caches_empty s' \<and> temp_refs_pool s' = temp_refs_pool s
     \<and> gc_running s' = gc_running s \<and> (\<forall>p. internal s' p \<longrightarrow> referenced s' p)
     \<and> dom (nodes s') \<subseteq> dom (nodes s) \<and> field_count s' = field_count s \<and> res_mono s s'"

text \<open>
  The hook that every collection of Sylvan runs first, when no collection of this library is under
  way: the same collection, without the growth of the tables.
\<close>

lemma gc_before_sylvan_spec:
  assumes h: "hinv S M E s" and c: "caches_shape s" and g: "\<not> gc_running s"
  shows "\<exists>s'. mtpndd_gc_before_sylvan s = Some s' \<and> hinv S M E s' \<and> keeps E s s' \<and> collected s s'"
proof -
  let ?s0 = "s\<lparr>gc_running := True\<rparr>"
  have h0: "hinv S M E ?s0 \<and> keeps E s ?s0" by (rule hinv_same_heap[OF h]) (simp add: same_heap_def)
  obtain s1 where s1: "gc_internal ?s0 = Some s1" "hinv S M E s1" "keeps E ?s0 s1" "gc_ctx ?s0 s1"
    "\<forall>p. internal s1 p \<longrightarrow> referenced s1 p" using gc_internal_spec[of S M E ?s0] h0 by blast
  have c1: "caches_shape s1" using c s1(4) by (simp add: caches_shape_def gc_ctx_def)
  obtain a b n where cl: "clear_caches s1 = Some (s1\<lparr>and_cache := a, or_cache := b, not_cache := n\<rparr>)"
    "caches_shape (s1\<lparr>and_cache := a, or_cache := b, not_cache := n\<rparr>)"
    "caches_empty (s1\<lparr>and_cache := a, or_cache := b, not_cache := n\<rparr>)"
    using clear_caches_spec[OF c1] by blast
  let ?s2 = "s1\<lparr>and_cache := a, or_cache := b, not_cache := n, gc_running := False\<rparr>"
  have run: "mtpndd_gc_before_sylvan s = Some ?s2" using g s1(1) cl(1) by (simp add: mtpndd_gc_before_sylvan_def)
  have h2: "hinv S M E ?s2 \<and> keeps E s1 ?s2" by (rule hinv_same_heap[OF s1(2)]) (simp add: same_heap_def)
  have "collected s ?s2"
    using cl(2,3) s1(4,5) g
    by (simp add: collected_def caches_shape_def caches_empty_def gc_ctx_def internal_def node_edges_def referenced_def
        res_mono_def pools_ready_def)
  moreover have "keeps E s ?s2" using h0 s1(3) h2 keeps_trans by blast
  ultimately show ?thesis using run h2 by blast
qed

lemma gcOrGrow_spec:
  assumes h: "hinv S M E s" and c: "caches_shape s" and g: "\<not> gc_running s"
  shows "\<exists>s'. gcOrGrow s = Some s' \<and> hinv S M E s' \<and> keeps E s s' \<and> collected s s'"
proof -
  let ?s0 = "s\<lparr>gc_running := True\<rparr>"
  have h0: "hinv S M E ?s0 \<and> keeps E s ?s0" by (rule hinv_same_heap[OF h]) (simp add: same_heap_def)
  obtain s1 where s1: "gc_internal ?s0 = Some s1" "hinv S M E s1" "keeps E ?s0 s1" "gc_ctx ?s0 s1"
    "\<forall>p. internal s1 p \<longrightarrow> referenced s1 p" using gc_internal_spec[of S M E ?s0] h0 by blast
  obtain s2 where s2: "(if grow_needed s1 then grow_internal s1 else Some s1) = Some s2" "hinv S M E s2"
    "grown s1 s2" using grow_internal_spec[OF s1(2)] s1(2) by (cases "grow_needed s1") auto
  have k2: "keeps E s1 s2" by (rule keeps_nodes) (use s2(3) in \<open>simp_all add: grown_def\<close>)
  have c2: "caches_shape s2" using c s1(4) s2(3) by (simp add: caches_shape_def gc_ctx_def grown_def)
  obtain a b n where cl: "clear_caches s2 = Some (s2\<lparr>and_cache := a, or_cache := b, not_cache := n\<rparr>)"
    "caches_shape (s2\<lparr>and_cache := a, or_cache := b, not_cache := n\<rparr>)"
    "caches_empty (s2\<lparr>and_cache := a, or_cache := b, not_cache := n\<rparr>)"
    using clear_caches_spec[OF c2] by blast
  define s3 where "s3 = s2\<lparr>and_cache := a, or_cache := b, not_cache := n\<rparr>"
  define s4 where "s4 = (sylvan_gc s3)\<lparr>gc_running := False\<rparr>"
  have run3: "gc_running s3" using s1(4) s2(3) by (simp add: s3_def gc_ctx_def grown_def)
  have run: "gcOrGrow s = Some s4"
    using g s1(1) s2(1) cl(1) run3 unfolding gcOrGrow_def s4_def
    by (simp add: sylvan_gc_with_hook_def mtpndd_gc_before_sylvan_def s3_def)
  have "same_heap s2 s4" by (simp add: same_heap_def s4_def s3_def sylvan_gc_def)
  then have h4: "hinv S M E s4 \<and> keeps E s2 s4" by (rule hinv_same_heap[OF s2(2)])
  have n4: "nodes s4 = nodes s1" using s2(3) by (simp add: s4_def s3_def sylvan_gc_def grown_def)
  have "collected s s4"
    using cl(2,3) s1(4,5) s2(3) g n4
    by (simp add: collected_def s4_def s3_def sylvan_gc_def caches_shape_def caches_empty_def gc_ctx_def
        grown_def internal_def node_edges_def referenced_def res_mono_def pools_ready_def)
  moreover have "keeps E s s4" using h0 s1(3) k2 h4 keeps_trans by blast
  ultimately show ?thesis using run h4 by blast
qed

end
