(* ===== verification/Mk_Correct.thy ===== *)
theory Mk_Correct
  imports Gc_Correct
begin

text \<open>
  \<open>mtpndd_mk\<close> returns a node with exactly the requested edges: an existing one when the
  unique table holds it, a new one otherwise, the child itself for a single edge labelled
  true, FALSE for no edge.  It keeps the invariant, in particular uniqueness, and every live
  node, also when it collects garbage on the way.
\<close>

section \<open>Looking up an edge map\<close>

lemma hash_emap:
  assumes "wf_map s a" "hash_ok a" "wf_map s b" "hash_ok b" "emap a = emap b"
  shows "cached_hash a = cached_hash b"
proof -
  have "distinct (map ee_child (entries a))" "distinct (map ee_child (entries b))"
    using assms(1,3) by (simp_all add: wf_map_def)
  note ms = emap_eq_mset[OF this assms(5)]
  have eh: "entry_hash = (\<lambda>(c, l). mtpndd_edge_entry_hash c l) \<circ> pair_of"
    by (simp add: fun_eq_iff entry_hash_def)
  show ?thesis
    using assms(2,4) xor_fold_mset[OF ms] unfolding hash_ok_def eh xor_fold_map[symmetric] by metis
qed

lemma find_SomeD: "find P xs = Some x \<Longrightarrow> x \<in> set xs \<and> P x"
  by (induction xs) (auto split: if_splits)

lemma find_in_chain_spec:
  assumes "wf_map s m" "hash_ok m"
    "\<forall>e\<in>set es. wf_map s (nte_edges e) \<and> hash_ok (nte_edges e) \<and> nte_hash e = cached_hash (nte_edges e)"
  shows "find_in_chain s m es = Some (find (\<lambda>e. emap (nte_edges e) = emap m) es)"
  using assms(3)
proof (induction es)
  case (Cons e es)
  have e: "wf_map s (nte_edges e)" "hash_ok (nte_edges e)" "nte_hash e = cached_hash (nte_edges e)"
    using Cons.prems by simp_all
  have "nte_hash e \<noteq> cached_hash m \<Longrightarrow> emap (nte_edges e) \<noteq> emap m"
    using hash_emap[OF e(1,2) assms(1,2)] e(3) by auto
  then show ?case using Cons edges_equal_spec[OF e(1,2) assms(1,2)] by simp
qed simp

lemma table_bucket:
  assumes "table_shape t"
  shows "nodetable_hash_val m t < length (nt_buckets t)"
    "nodetable_hash_val m t = mask_index (cached_hash m) (nodetable_bucket_count t)"
  using assms mask_index_less[of "nodetable_bucket_count t"]
  by (auto simp: table_shape_def nodetable_hash_val_def)

text \<open>Only the bucket of its hash can hold an entry with the edges looked for.\<close>

lemma find_table_spec:
  assumes sh: "table_shape t" and m: "wf_map s m" "hash_ok m"
    and es: "\<forall>e\<in>set (tentries t). wf_map s (nte_edges e) \<and> hash_ok (nte_edges e)
               \<and> nte_hash e = cached_hash (nte_edges e)"
  shows "\<exists>r. find_in_chain s m (nt_buckets t ! nodetable_hash_val m t) = Some r
     \<and> (case r of None \<Rightarrow> \<forall>e\<in>set (tentries t). emap (nte_edges e) \<noteq> emap m
        | Some e \<Rightarrow> e \<in> set (tentries t) \<and> emap (nte_edges e) = emap m)"
proof -
  let ?i = "nodetable_hash_val m t"
  note i = table_bucket[OF sh, of m]
  have sub: "set (nt_buckets t ! ?i) \<subseteq> set (tentries t)"
    unfolding tentries_def using i(1) by (auto simp: set_concat_nth simp del: set_concat)
  let ?r = "find (\<lambda>e. emap (nte_edges e) = emap m) (nt_buckets t ! ?i)"
  have run: "find_in_chain s m (nt_buckets t ! ?i) = Some ?r"
    by (rule find_in_chain_spec[OF m]) (use es sub in blast)
  have none: "\<forall>e\<in>set (tentries t). emap (nte_edges e) \<noteq> emap m" if r: "?r = None"
  proof (intro ballI notI)
    fix e assume e: "e \<in> set (tentries t)" and eq: "emap (nte_edges e) = emap m"
    then obtain j where j: "j < length (nt_buckets t)" "e \<in> set (nt_buckets t ! j)"
      unfolding tentries_def set_concat_nth by blast
    have "nte_hash e = cached_hash m" using es e hash_emap[OF _ _ m eq] by metis
    then have "j = ?i" using sh j i(2) unfolding table_shape_def by metis
    then show False using r j(2) eq by (simp add: find_None_iff)
  qed
  show ?thesis
  proof (cases ?r)
    case None
    show ?thesis by (rule exI[of _ None]) (use run none[OF None] None in simp)
  next
    case (Some e)
    show ?thesis by (rule exI[of _ "Some e"]) (use run Some find_SomeD[OF Some] sub in auto)
  qed
qed

lemma table_entries_wf:
  assumes si: "sinv S M s" and f: "f \<in> tabled s" and t: "node_tables_by_field s f = Some t"
    and e: "e \<in> set (tentries t)"
  shows "content s (nte_node e) = Some (f, NEdges (nte_edges e))"
    "wf_map s (nte_edges e) \<and> hash_ok (nte_edges e) \<and> nte_hash e = cached_hash (nte_edges e)"
proof -
  have eo: "entry_ok s f e" using sinv_table_wf[OF si f t] e by (simp add: table_wf_def)
  then show c: "content s (nte_node e) = Some (f, NEdges (nte_edges e))" by (simp add: entry_ok_def)
  show "wf_map s (nte_edges e) \<and> hash_ok (nte_edges e) \<and> nte_hash e = cached_hash (nte_edges e)"
    using sinv_node(4,6)[OF si c] eo by (simp add: entry_ok_def)
qed

section \<open>Inserting a node\<close>

text \<open>
  \<open>with_node p f m s\<close> is a state whose nodes are those of \<open>s\<close> and a new one.
\<close>

definition new_node :: "nat \<Rightarrow> mtpndd_edge \<Rightarrow> mtpndd_node" where
  "new_node f m = \<lparr>ref_count = 0, field_id = f, body = NEdges m\<rparr>"

lemma insert_content:
  "nodes s' = (nodes s)(p \<mapsto> new_node f m) \<Longrightarrow>
     content s' q = (if q = p then Some (f, NEdges m) else content s q)"
  by (simp add: content_def new_node_def)

definition child_refs :: "mstate \<Rightarrow> mtpndd_edge \<Rightarrow> ptr multiset" where
  "child_refs s m = mset (filter (internal s) (map ee_child (entries m)))"

lemma count_child_refs:
  assumes "wf_map s m" "internal s c"
  shows "count (child_refs s m) c = (if c \<in> dom (emap m) then 1 else 0)"
proof -
  have d: "distinct (filter (internal s) (map ee_child (entries m)))"
    using assms(1) by (simp add: wf_map_def)
  show ?thesis
    unfolding child_refs_def distinct_count_atmost_1[THEN iffD1, OF d, rule_format] dom_emap
    using assms(2) by auto
qed

lemma insert_refs:
  assumes r: "refs_ok (E + child_refs s m) s" and si: "sinv S M s" and ri: "rinv s"
    and m: "wf_map s m" and p: "nodes s p = None"
    and n: "nodes s' = (nodes s)(p \<mapsto> new_node f m)"
    and known: "\<forall>c\<in>dom (emap m). nodes s c \<noteq> None"
  shows "refs_ok E s'"
proof -
  note ct = insert_content[OF n]
  have par: "parents s' q = (if q \<in> dom (emap m) then insert p (parents s q) else parents s q)" for q
    using p[folded content_None] by (auto simp: parents_def ct)
  have pp: "p \<notin> parents s q" for q using p by (auto simp: parents_def content_Some)
  have int: "internal s' q \<longleftrightarrow> q = p \<or> internal s q" for q by (auto simp: internal_content ct)
  have known': "nodes s q \<noteq> None" if "parents s q \<noteq> {}" for q
    using that sinv_child[OF si] by (fastforce simp: parents_def child_ok_def)
  have Ek: "holdable s q" if "q \<in># E" for q using r that by (auto simp: refs_ok_def holdable_def)
  have hk: "nodes s q \<noteq> None" if "holdable s q" for q
    using that si by (auto simp: holdable_def sinv_def sentinels_ok_def internal_content content_Some)
  show ?thesis
    unfolding refs_ok_def
  proof (intro conjI allI impI ballI)
    fix q qd assume q: "nodes s' q = Some qd"
    show "case body qd of NLeaf v \<Rightarrow> ref_count qd = - 1
      | NEdges m' \<Rightarrow> ref_count qd = - 1 \<or> card (parents s' q) + count E q \<le> unat (ref_count qd)"
    proof (cases "q = p")
      case True
      have "parents s p = {}" "p \<notin> dom (emap m)" "p \<notin># E"
        using known'[of p] known Ek[of p] hk[of p] p by blast+
      moreover have "qd = new_node f m" using q n True by simp
      ultimately show ?thesis using True par[of p] by (simp add: new_node_def not_in_iff)
    next
      case False
      then have q0: "nodes s q = Some qd" using q n by simp
      show ?thesis
      proof (cases "body qd")
        case (NEdges m')
        have iq: "internal s q" using q0 NEdges by (auto simp: internal_content content_Some)
        have "card (parents s' q) + count E q = card (parents s q) + count (E + child_refs s m) q"
          using count_child_refs[OF m iq] par[of q] pp finite_parents[OF ri] by simp
        then show ?thesis using refs_ok_node[OF r q0 NEdges] NEdges by (simp add: ac_simps)
      qed (use refs_ok_leaf[OF r q0] in simp)
    qed
  next
    fix q assume "q \<in># E"
    then show "internal s' q \<or> q = MTPNDD_TRUE \<or> q = MTPNDD_FALSE" using Ek int by (auto simp: holdable_def)
  qed
qed

lemma table_shape_insert:
  assumes t: "table_shape t" and i: "i = mask_index (nte_hash e) (nodetable_bucket_count t)"
    and fresh: "nte_node e \<notin> nte_node ` set (tentries t)"
    and t': "nodetable_bucket_count t' = nodetable_bucket_count t"
      "nt_buckets t' = (nt_buckets t)[i := e # nt_buckets t ! i]"
      "nt_entry_count t' = nt_entry_count t + 1"
  shows "table_shape t' \<and> mset (tentries t') = add_mset e (mset (tentries t))"
proof -
  have il: "i < length (nt_buckets t)"
    using t i mask_index_less[of "nodetable_bucket_count t"] by (simp add: table_shape_def)
  obtain D where D: "mset (concat (nt_buckets t)) = mset (nt_buckets t ! i) + D"
    using mset_nth_subset_concat[OF il] by (auto simp: subset_mset.le_iff_add)
  have ms: "mset (tentries t') = add_mset e (mset (tentries t))"
    using mset_concat_update[OF il, of "e # nt_buckets t ! i"] D t'(2) by (simp add: tentries_def)
  have "length (tentries t') = Suc (length (tentries t))" using arg_cong[OF ms, of size] by simp
  moreover have "mset (map nte_node (tentries t')) = mset (map nte_node (e # tentries t))"
    using ms by simp
  then have "distinct (map nte_node (tentries t'))"
    using t fresh mset_eq_imp_distinct_iff[of "map nte_node (tentries t')" "map nte_node (e # tentries t)"]
    by (simp add: table_shape_def)
  moreover have "\<forall>j<length (nt_buckets t'). \<forall>x\<in>set (nt_buckets t' ! j).
      mask_index (nte_hash x) (nodetable_bucket_count t) = j"
  proof (intro allI impI ballI)
    fix j x assume j: "j < length (nt_buckets t')" and x: "x \<in> set (nt_buckets t' ! j)"
    show "mask_index (nte_hash x) (nodetable_bucket_count t) = j"
      using t x j t'(2) i il by (cases "j = i") (auto simp: table_shape_def)
  qed
  ultimately show ?thesis using t ms t' by (simp add: table_shape_def)
qed

lemma insert_nodes_wf:
  assumes si: "sinv S M s" and f: "f \<in> tabled s" and tb: "tabled s' = tabled s"
    and p: "nodes s p = None" and n: "nodes s' = (nodes s)(p \<mapsto> new_node f m)"
    and m: "map_wf S M s f m" "hash_ok m" "reduced S (emap m)" and q: "content s' q = Some x"
  shows "node_wf S M s' x"
proof -
  note ct = insert_content[OF n]
  have kc: "content s' c = content s c" if "nodes s c \<noteq> None" for c using that ct p by auto
  show ?thesis
  proof (cases "q = p")
    case True
    have "content s' c = content s c" if "c \<in> dom (emap m)" for c
      by (rule kc) (use m(1) that in \<open>auto simp: map_wf_def child_ok_def\<close>)
    then have "map_wf S M s' f m" using map_wf_cong[of m s' s] m(1) by blast
    moreover have "x = (f, NEdges m)" using q ct True by simp
    ultimately show ?thesis using m(2,3) f tb by (simp add: node_wf_def)
  next
    case False
    then have q': "content s q = Some x" using q ct by simp
    have "content s' c = content s c" if "x = (fst x, NEdges k)" "c \<in> dom (emap k)" for c k
    proof (rule kc)
      have "content s q = Some (fst x, NEdges k)" using q' that(1) by simp
      from sinv_child[OF si this that(2)] show "nodes s c \<noteq> None" by (simp add: child_ok_def)
    qed
    then have "node_wf S M s' x = node_wf S M s x"
      by (intro node_wf_cong[where f = "fst x"]) (use tb in auto)
    then show ?thesis using si q' unfolding sinv_def by blast
  qed
qed

lemma insert_table_wf:
  assumes tw: "table_wf s f t" and p: "nodes s p = None" and n: "nodes s' = (nodes s)(p \<mapsto> new_node f m)"
    and e: "nte_edges e = m" "nte_node e = p" "nte_hash e = cached_hash m"
    and t': "nodetable_bucket_count t' = nodetable_bucket_count t"
      "nt_buckets t' = (nt_buckets t)[i := e # nt_buckets t ! i]" "nt_entry_count t' = nt_entry_count t + 1"
    and i: "i = nodetable_hash_val m t"
  shows "table_wf s' f t'"
proof -
  note ct = insert_content[OF n]
  have cp: "content s p = None" using p by (simp add: content_None)
  have ts: "table_shape t" using tw by (simp add: table_wf_def)
  have fresh: "p \<notin> nte_node ` set (tentries t)"
    using tw cp unfolding table_wf_def entry_ok_def by (metis image_iff option.distinct(1))
  have "i = mask_index (nte_hash e) (nodetable_bucket_count t)" using i table_bucket(2)[OF ts] e(3) by simp
  then have sh: "table_shape t'" "mset (tentries t') = add_mset e (mset (tentries t))"
    using table_shape_insert[OF ts _ _ t'] fresh e(2) by auto
  have set_t: "set (tentries t') = insert e (set (tentries t))"
    using sh(2) by (metis set_mset_add_mset_insert set_mset_mset)
  have "entry_ok s' f x" if x: "x \<in> set (tentries t')" for x
  proof (cases "x = e")
    case True
    then show ?thesis using e ct by (simp add: entry_ok_def)
  next
    case False
    then have "entry_ok s f x" using x tw set_t unfolding table_wf_def by blast
    then show ?thesis using ct cp unfolding entry_ok_def by auto
  qed
  moreover have "q \<in> nte_node ` set (tentries t')" if "content s' q = Some (f, NEdges k)" for q k
    using that tw e(2) ct unfolding set_t table_wf_def by (cases "q = p") auto
  ultimately show ?thesis using sh(1) unfolding table_wf_def by blast
qed

lemma insert_struct:
  assumes si: "sinv S M s" and f: "f \<in> tabled s" and t: "node_tables_by_field s f = Some t"
    and p: "nodes s p = None" and n: "nodes s' = (nodes s)(p \<mapsto> new_node f m)"
    and m: "map_wf S M s f m" "hash_ok m" "reduced S (emap m)"
    and new: "\<forall>e\<in>set (tentries t). emap (nte_edges e) \<noteq> emap m"
    and e: "nte_edges e = m" "nte_node e = p" "nte_hash e = cached_hash m"
    and t': "nodetable_bucket_count t' = nodetable_bucket_count t"
      "nt_buckets t' = (nt_buckets t)[i := e # nt_buckets t ! i]" "nt_entry_count t' = nt_entry_count t + 1"
    and i: "i = nodetable_hash_val m t"
    and nt: "node_tables_by_field s' = (node_tables_by_field s)(f \<mapsto> t')"
    and same: "leaf_table s' = leaf_table s" "double_leaf_table s' = double_leaf_table s"
      "field_count s' = field_count s"
  shows "sinv S M s'"
proof -
  note ct = insert_content[OF n]
  have cp: "content s p = None" using p by (simp add: content_None)
  have keep: "content s q = Some x \<Longrightarrow> content s' q = Some x" for q x using ct cp by auto
  have tb: "tabled s' = tabled s" by (rule tabled_upd[OF same(3) nt f])
  have tw: "table_wf s f t" using sinv_table_wf[OF si f t] by simp
  have tables: "\<exists>u. node_tables_by_field s' g = Some u \<and> table_wf s' g u"
    if g: "g \<in> tabled s'" for g
  proof (cases "g = f")
    case True
    then show ?thesis using insert_table_wf[OF tw p n e t' i] nt by simp
  next
    case False
    then obtain u where u: "node_tables_by_field s g = Some u" "table_wf s g u"
      using sinv_table[OF si, of g] g tb by auto
    have "table_wf s' g u"
      using u(2) keep ct False unfolding table_wf_def entry_ok_def by (auto split: if_splits)
    then show ?thesis using u(1) False nt by simp
  qed
  have "emap k \<noteq> emap m" if q: "content s q = Some (f, NEdges k)" for q k
  proof -
    obtain x where "x \<in> set (tentries t)" "nte_node x = q" using tw q unfolding table_wf_def by blast
    then show ?thesis using new tw q unfolding table_wf_def entry_ok_def by fastforce
  qed
  then have "unique_nodes s'"
    using si unfolding sinv_def unique_nodes_def ct by (metis (no_types) Pair_inject node_body.inject(1) option.inject)
  moreover have "leaf_table_wf s' lf u" if "leaf_table_wf s lf u" for lf u
    using that keep unfolding leaf_table_wf_def by blast
  then have "leaf_tables_ok s'" using si same unfolding sinv_def leaf_tables_ok_def leaf_table_of_def by auto
  moreover have "sentinels_ok s'" using si keep unfolding sinv_def sentinels_ok_def by blast
  ultimately show ?thesis using insert_nodes_wf[OF si f tb p n m] tables si same(3) unfolding sinv_def tables_ok_def by auto
qed

lemma insert_keeps:
  assumes p: "nodes s p = None" and n: "nodes s' = (nodes s)(p \<mapsto> new_node f m)"
    and fc: "field_count s' = field_count s" "tabled s' = tabled s" and si: "sinv S M s"
  shows "keeps E s s'"
proof -
  note ct = insert_content[OF n]
  have cp: "content s p = None" using p by (simp add: content_None)
  have int: "internal s q \<Longrightarrow> internal s' q" for q using ct cp by (auto simp: internal_content)
  have "live E s' q" if "live E s q" for q using that
  proof (induction rule: live.induct)
    case (live_protected q nd)
    then have "nodes s' q = Some nd" using n p by auto
    then show ?case using live_protected int by (auto intro: live.live_protected)
  next
    case (live_child q k c)
    have "node_edges s' q = Some k" using live_child(2) ct cp by (auto simp: node_edges_content)
    then show ?case using live_child by (auto intro: live.live_child)
  qed (use int in \<open>auto intro: live.intros\<close>)
  moreover have "q \<noteq> p" if "live E s q" for q using live_known[OF si that] p by auto
  ultimately show ?thesis using ct fc by (simp add: keeps_def)
qed

section \<open>The node pool\<close>

text \<open>States that differ only in the node pool, the C heap and fields the invariant ignores.\<close>

definition same_nodes :: "mstate \<Rightarrow> mstate \<Rightarrow> bool" where
  "same_nodes s s' \<longleftrightarrow> nodes s' = nodes s \<and> node_tables_by_field s' = node_tables_by_field s
     \<and> leaf_table s' = leaf_table s \<and> double_leaf_table s' = double_leaf_table s
     \<and> field_count s' = field_count s \<and> g_edge_bucket_count s' = g_edge_bucket_count s
     \<and> mem_limit (c_heap_of s') = mem_limit (c_heap_of s)"

lemma hinv_pool:
  assumes h: "hinv S M E s" and sn: "same_nodes s s'"
    and ok: "pool_ok (g_node_pool s') (dom (nodes s) - {MTPNDD_TRUE, MTPNDD_FALSE}) (c_heap_of s')"
  shows "hinv S M E s' \<and> keeps E s s'"
proof -
  have n: "nodes s' = nodes s" and fc: "field_count s' = field_count s" and tb: "tabled s' = tabled s"
    using sn tabled_cong[of s' s] unfolding same_nodes_def by blast+
  have "sinv S M s' = sinv S M s"
    by (rule sinv_cong[OF content_nodes[OF n]]) (use sn same_nodes_def in blast)+
  moreover have "rinv s'" using hinvD(3)[OF h] ok sn unfolding rinv_def same_nodes_def bucket_cfg_ok_def by simp
  ultimately show ?thesis
    using h refs_ok_cong[OF n, of E] keeps_nodes[OF n fc tb] by (simp add: hinv_def)
qed

text \<open>The fields no allocation changes.\<close>

definition rest_same :: "mstate \<Rightarrow> mstate \<Rightarrow> bool" where
  "rest_same s s' \<longleftrightarrow> node_tables_by_field s' = node_tables_by_field s
     \<and> leaf_table s' = leaf_table s \<and> double_leaf_table s' = double_leaf_table s
     \<and> field_count s' = field_count s \<and> g_edge_bucket_count s' = g_edge_bucket_count s
     \<and> mem_limit (c_heap_of s') = mem_limit (c_heap_of s) \<and> temp_refs_pool s' = temp_refs_pool s
     \<and> and_cache s' = and_cache s \<and> or_cache s' = or_cache s \<and> not_cache s' = not_cache s
     \<and> gc_running s' = gc_running s \<and> res_mono s s'"

lemma rest_same_refl [simp]: "rest_same s s"
  by (simp add: rest_same_def)

lemma rest_same_trans: "rest_same s t \<Longrightarrow> rest_same t u \<Longrightarrow> rest_same s u"
  using res_mono_trans[of s t u] by (simp add: rest_same_def)

lemma quiet_rest: "quiet s s' \<Longrightarrow> rest_same s s'"
  using quiet_fields[of s s'] by (simp add: rest_same_def)

lemma acquire_node_spec:
  assumes ri: "rinv s" and a: "mtpndd_memory_acquire_node s = (p, s')"
  defines "U \<equiv> dom (nodes s) - {MTPNDD_TRUE, MTPNDD_FALSE}"
  shows "rest_same s s' \<and> nodes s' = nodes s
     \<and> pool_ok (g_node_pool s') (if p = NULL then U else insert p U) (c_heap_of s')
     \<and> (if p = NULL then mem_failed (c_heap_of s')
        else nodes s p = None \<and> p \<noteq> MTPNDD_TRUE \<and> p \<noteq> MTPNDD_FALSE)"
proof -
  obtain x pool h ns where sl: "mtpndd_slab_pool_acquire (g_node_pool s) (cur_worker s) (c_heap_of s)
      = (x, pool, h, ns)" using prod_cases4 by blast
  have ok: "pool_ok (g_node_pool s) U (c_heap_of s)" using ri unfolding rinv_def U_def by blast
  note acq = acquire_ok[OF ok sl]
  have p: "p = x" using a sl by (auto simp: mtpndd_memory_acquire_node_def Let_def split: if_splits)
  have s': "g_node_pool s' = pool" "c_heap_of s' = h" "nodes s' = nodes s"
    using a sl by (auto simp: mtpndd_memory_acquire_node_def Let_def mtpndd_set_error_def split: if_splits)
  have "rest_same s s'"
    using a sl acq acquire_mono[OF sl] by (auto simp: rest_same_def mtpndd_memory_acquire_node_def Let_def mtpndd_set_error_def
        res_mono_def pools_ready_def split: if_splits)
  moreover have "nodes s p = None \<and> p \<noteq> MTPNDD_TRUE \<and> p \<noteq> MTPNDD_FALSE" if "p \<noteq> NULL"
  proof -
    have "x \<notin> U" "32 < x" using acq that p by auto
    then show ?thesis using p by (auto simp: U_def MTPNDD_TRUE_def MTPNDD_FALSE_def)
  qed
  ultimately show ?thesis using acq p s' by auto
qed

text \<open>Giving a freshly acquired node back.\<close>

lemma release_new_node:
  assumes h: "hinv S M E s" and p: "nodes s p = None" "p \<noteq> NULL" "p \<noteq> MTPNDD_TRUE" "p \<noteq> MTPNDD_FALSE"
    and s1: "rest_same s s1" "nodes s1 = (nodes s)(p \<mapsto> nd)"
    and ok: "pool_ok (g_node_pool s1) (insert p (dom (nodes s) - {MTPNDD_TRUE, MTPNDD_FALSE})) (c_heap_of s1)"
  shows "hinv S M E (mtpndd_memory_release_node p s1) \<and> keeps E s (mtpndd_memory_release_node p s1)
     \<and> rest_same s (mtpndd_memory_release_node p s1) \<and> nodes (mtpndd_memory_release_node p s1) = nodes s"
proof -
  let ?s = "mtpndd_memory_release_node p s1"
  let ?U = "dom (nodes s) - {MTPNDD_TRUE, MTPNDD_FALSE}"
  have n: "nodes ?s = nodes s" using s1(2) p(1,2) by (auto simp: mtpndd_memory_release_node_def)
  have r: "rest_same s ?s" using s1(1)
    by (simp add: rest_same_def mtpndd_memory_release_node_def res_mono_def pools_ready_def)
  have pU: "insert p ?U - {p} = ?U" using p(1) by auto
  have "pool_ok (g_node_pool ?s) ?U (c_heap_of ?s)"
    using release_ok[OF ok, of p "cur_worker s1"] p(2) unfolding pU
    by (simp add: mtpndd_memory_release_node_def)
  moreover have "same_nodes s ?s" using r n by (simp add: rest_same_def same_nodes_def)
  ultimately show ?thesis using hinv_pool[OF h] r n by blast
qed

section \<open>The constructor\<close>

definition ctx_ok :: "mstate \<Rightarrow> bool" where
  "ctx_ok s \<longleftrightarrow> caches_shape s \<and> \<not> gc_running s \<and> pools_ready s"

text \<open>
  What a step that may collect owes the caches: they are unchanged and every node they may
  name is unchanged, or they are empty.
\<close>

definition op_frame :: "mstate \<Rightarrow> mstate \<Rightarrow> bool" where
  "op_frame s s' \<longleftrightarrow> ctx_ok s' \<and> res_mono s s' \<and>
     (and_cache s' = and_cache s \<and> or_cache s' = or_cache s \<and> not_cache s' = not_cache s
        \<and> (\<forall>p. nodes s p \<noteq> None \<longrightarrow> content s' p = content s p)
      \<or> caches_empty s')"

lemma op_frame_refl [simp]: "ctx_ok s \<Longrightarrow> op_frame s s"
  by (simp add: op_frame_def)

lemma op_frame_trans:
  assumes "op_frame s t" "op_frame t u" shows "op_frame s u"
proof (cases "caches_empty u")
  case False
  then have u: "and_cache u = and_cache t" "or_cache u = or_cache t" "not_cache u = not_cache t"
    "\<forall>p. nodes t p \<noteq> None \<longrightarrow> content u p = content t p" using assms(2) unfolding op_frame_def by blast+
  then have "\<not> caches_empty t" using False by (simp add: caches_empty_def)
  then have t: "and_cache t = and_cache s" "or_cache t = or_cache s" "not_cache t = not_cache s"
    "\<forall>p. nodes s p \<noteq> None \<longrightarrow> content t p = content s p" using assms(1) unfolding op_frame_def by blast+
  have "content u p = content s p" if "nodes s p \<noteq> None" for p
  proof -
    have c: "content t p = content s p" using t(4) that by blast
    then have "nodes t p \<noteq> None" using that by (metis content_None)
    then show ?thesis using u(4) c by simp
  qed
  then show ?thesis using t u assms res_mono_trans[of s t u] unfolding op_frame_def by simp
qed (use assms res_mono_trans[of s t u] in \<open>simp add: op_frame_def\<close>)

lemma op_frame_same:
  assumes "ctx_ok s" "and_cache s' = and_cache s" "or_cache s' = or_cache s" "not_cache s' = not_cache s"
    "gc_running s' = gc_running s" "\<And>p. nodes s p \<noteq> None \<Longrightarrow> content s' p = content s p" "res_mono s s'"
  shows "op_frame s s'"
  using assms by (simp add: op_frame_def ctx_ok_def caches_shape_def res_mono_def)

lemma op_frame_touch: "ctx_ok s \<Longrightarrow> touch s s' \<Longrightarrow> op_frame s s'"
  by (rule op_frame_same) (simp_all add: touch_def)

lemma op_frame_rest:
  "ctx_ok s \<Longrightarrow> rest_same s s' \<Longrightarrow> (\<And>p. nodes s p \<noteq> None \<Longrightarrow> nodes s' p = nodes s p) \<Longrightarrow> op_frame s s'"
  by (rule op_frame_same) (simp_all add: rest_same_def content_def)

lemma op_frame_collected: "ctx_ok s \<Longrightarrow> collected s s' \<Longrightarrow> op_frame s s'"
  by (simp add: op_frame_def ctx_ok_def collected_def res_mono_def)

lemma op_frame_grown: "ctx_ok s \<Longrightarrow> grown s s' \<Longrightarrow> op_frame s s'"
  by (rule op_frame_same) (simp_all add: grown_def content_def)

lemma op_frame_ctx: "op_frame s s' \<Longrightarrow> ctx_ok s'"
  by (simp add: op_frame_def)

lemma rest_ctx: "ctx_ok s \<Longrightarrow> rest_same s s' \<Longrightarrow> ctx_ok s'"
  by (simp add: ctx_ok_def rest_same_def caches_shape_def res_mono_def)

lemma deref_edges_spec:
  assumes "hinv S M (E + mset (filter (internal s) (map ee_child es))) s" "\<forall>e\<in>set es. nodes s (ee_child e) \<noteq> None"
  shows "\<exists>s'. iter_state deref_edge es s = Some s' \<and> touch s s' \<and> hinv S M E s'
           \<and> temp_refs_pool s' = temp_refs_pool s"
  using assms
proof (induction es arbitrary: s)
  case (Cons e es)
  let ?c = "ee_child e" and ?E = "E + mset (filter (internal s) (map ee_child es))"
  have "hinv S M (if internal s ?c then add_mset ?c ?E else ?E) s"
    using Cons.prems(1) by (auto split: if_splits)
  then obtain s1 where s1: "deref_nonterminal ?c s = Some s1" "touch s s1" "hinv S M ?E s1"
    "temp_refs_pool s1 = temp_refs_pool s"
    using deref_nonterminal_spec[of S M s ?c ?E] Cons.prems(2) by auto
  let ?s = "sylvan_deref (ee_label e) s1"
  have t: "touch s ?s" using touch_trans[OF s1(2) quiet_touch[OF quiet_log(2)]] .
  have "hinv S M (E + mset (filter (internal ?s) (map ee_child es))) ?s"
    using hinv_quiet[OF s1(3) quiet_log(2)] unfolding touch_internal[OF t] by blast
  moreover have "\<forall>e\<in>set es. nodes ?s (ee_child e) \<noteq> None" using Cons.prems(2) touch_known[OF t] by simp
  ultimately obtain s2 where s2: "iter_state deref_edge es ?s = Some s2" "touch ?s s2" "hinv S M E s2"
    "temp_refs_pool s2 = temp_refs_pool ?s" using Cons.IH by blast
  have "temp_refs_pool ?s = temp_refs_pool s" using s1(4) by (simp add: sylvan_deref_def)
  moreover have "deref_edge e s = Some ?s" using s1(1) by (simp add: deref_edge_def)
  ultimately show ?case using s2 touch_trans[OF t s2(2)] by auto
qed simp

text \<open>A node \<open>r\<close> of field \<open>f\<close> with the edges \<open>e\<close>.\<close>

definition has_edges :: "mstate \<Rightarrow> ptr \<Rightarrow> nat \<Rightarrow> (ptr \<rightharpoonup> bdd) \<Rightarrow> bool" where
  "has_edges s r f e \<longleftrightarrow> (\<exists>m. content s r = Some (f, NEdges m) \<and> emap m = e)"

lemma has_edges_not_null: "hinv S M E s \<Longrightarrow> has_edges s r f e \<Longrightarrow> r \<noteq> NULL"
  using rinv_null[OF hinvD(3)] by (metis content_None has_edges_def option.distinct(1))

text \<open>State \<open>s1\<close>: node \<open>p\<close> is allocated and filled in, and not yet in the table.\<close>

definition linking ::
  "sylvan \<Rightarrow> bdd_model \<Rightarrow> ptr multiset \<Rightarrow> mstate \<Rightarrow> nat \<Rightarrow> mtpndd_nodetable \<Rightarrow> mtpndd_edge \<Rightarrow> ptr
   \<Rightarrow> mstate \<Rightarrow> bool" where
  "linking S M E s f t m p s1 \<longleftrightarrow>
     hinv S M (E + child_refs s m) s \<and> ctx_ok s
     \<and> f \<in> tabled s \<and> node_tables_by_field s f = Some t
     \<and> map_wf S M s f m \<and> hash_ok m \<and> reduced S (emap m)
     \<and> nodes s p = None \<and> p \<noteq> NULL \<and> p \<noteq> MTPNDD_TRUE \<and> p \<noteq> MTPNDD_FALSE
     \<and> rest_same s s1 \<and> nodes s1 = (nodes s)(p \<mapsto> new_node f m)
     \<and> pool_ok (g_node_pool s1) (insert p (dom (nodes s) - {MTPNDD_TRUE, MTPNDD_FALSE})) (c_heap_of s1)"

lemma linkingD:
  assumes "linking S M E s f t m p s1"
  shows "hinv S M (E + child_refs s m) s" "ctx_ok s"
    "f \<in> tabled s" "node_tables_by_field s f = Some t"
    "map_wf S M s f m" "hash_ok m" "reduced S (emap m)"
    "nodes s p = None" "p \<noteq> NULL" "p \<noteq> MTPNDD_TRUE" "p \<noteq> MTPNDD_FALSE"
    "rest_same s s1" "nodes s1 = (nodes s)(p \<mapsto> new_node f m)"
    "pool_ok (g_node_pool s1) (insert p (dom (nodes s) - {MTPNDD_TRUE, MTPNDD_FALSE})) (c_heap_of s1)"
    "\<And>c. c \<in> dom (emap m) \<Longrightarrow> nodes s c \<noteq> None"
  using assms unfolding linking_def map_wf_def child_ok_def by blast+

lemma linking_wf:
  assumes l: "linking S M E s f t m p s1" and k: "wf_map s k" "\<And>c. c \<in> dom (emap k) \<Longrightarrow> nodes s c \<noteq> None"
  shows "wf_map s1 k"
proof -
  have "content s1 c = content s c" if "c \<in> dom (emap k)" for c
    using k(2)[OF that] linkingD(8)[OF l] insert_content[OF linkingD(13)[OF l]] by auto
  then have "wf_map s1 k = wf_map s k"
    by (intro wf_map_cong hash_content_cong) (simp add: dom_emap)
  then show ?thesis using k(1) by simp
qed

lemma linking_shape:
  assumes l: "linking S M E s f t m p s1" shows "table_shape t"
proof -
  have "table_wf s f t"
    using sinv_table_wf[OF hinvD(1)[OF linkingD(1)[OF l]] linkingD(3)[OF l] linkingD(4)[OF l]] by simp
  then show ?thesis by (simp add: table_wf_def)
qed

lemma linking_lookup:
  assumes l: "linking S M E s f t m p s1"
  shows "\<exists>r. find_in_chain s1 m (nt_buckets t ! nodetable_hash_val m t) = Some r
     \<and> (case r of None \<Rightarrow> \<forall>e\<in>set (tentries t). emap (nte_edges e) \<noteq> emap m
        | Some e \<Rightarrow> e \<in> set (tentries t) \<and> emap (nte_edges e) = emap m)"
proof (rule find_table_spec[OF linking_shape[OF l] _ linkingD(6)[OF l]])
  note si = hinvD(1)[OF linkingD(1)[OF l]]
  show "wf_map s1 m" using linking_wf[OF l] linkingD(5,15)[OF l] by (simp add: map_wf_def)
  show "\<forall>e\<in>set (tentries t). wf_map s1 (nte_edges e) \<and> hash_ok (nte_edges e)
          \<and> nte_hash e = cached_hash (nte_edges e)"
  proof (intro ballI)
    fix e assume e: "e \<in> set (tentries t)"
    note te = table_entries_wf[OF si linkingD(3,4)[OF l] e]
    have "nodes s c \<noteq> None" if "c \<in> dom (emap (nte_edges e))" for c
      using sinv_child[OF si te(1) that] by (simp add: child_ok_def)
    then show "wf_map s1 (nte_edges e) \<and> hash_ok (nte_edges e) \<and> nte_hash e = cached_hash (nte_edges e)"
      using te(2) linking_wf[OF l] by blast
  qed
qed

text \<open>The outcome of the last part of \<open>mtpndd_mk\<close>.\<close>

definition linked ::
  "sylvan \<Rightarrow> bdd_model \<Rightarrow> ptr multiset \<Rightarrow> mstate \<Rightarrow> nat \<Rightarrow> mtpndd_edge \<Rightarrow> ptr \<Rightarrow> mstate \<Rightarrow> bool" where
  "linked S M E s f m r s' \<longleftrightarrow> hinv S M E s' \<and> keeps E s s' \<and> op_frame s s'
     \<and> temp_refs_pool s' = temp_refs_pool s
     \<and> (if r = NULL then mem_failed (c_heap_of s')
        else has_edges s' r f (emap m) \<and> (\<forall>c\<in>dom (emap m). content s' c = content s c))"

lemma link_found:
  fixes addr :: ptr
  assumes l: "linking S M E s f t m p s1"
    and e: "e \<in> set (tentries t)" "emap (nte_edges e) = emap m"
  defines "s3 \<equiv> mtpndd_memory_release_node p (mtpndd_memory_release_nodetable_entry addr s1)"
  shows "\<exists>s'. iter_state deref_edge (entries m) s3 = Some s' \<and> linked S M E s f m (nte_node e) s'"
proof -
  let ?s2 = "mtpndd_memory_release_nodetable_entry addr s1"
  note d = linkingD[OF l]
  have s2: "rest_same s ?s2" "nodes ?s2 = (nodes s)(p \<mapsto> new_node f m)"
    "pool_ok (g_node_pool ?s2) (insert p (dom (nodes s) - {MTPNDD_TRUE, MTPNDD_FALSE})) (c_heap_of ?s2)"
    using d(12-14)
    by (simp_all add: rest_same_def mtpndd_memory_release_nodetable_entry_def res_mono_def pools_ready_def
        release_ready)
  have s3: "hinv S M (E + child_refs s m) s3" "rest_same s s3" "nodes s3 = nodes s"
    using release_new_node[OF d(1,8-11) s2] unfolding s3_def by blast+
  have int: "internal s3 = internal s" using s3(3) by (simp add: fun_eq_iff internal_def node_edges_def)
  have "hinv S M (E + mset (filter (internal s3) (map ee_child (entries m)))) s3"
    using s3(1) unfolding int child_refs_def .
  moreover have "\<forall>x\<in>set (entries m). nodes s3 (ee_child x) \<noteq> None"
    using d(15) s3(3) by (simp add: dom_emap)
  ultimately obtain s4 where s4: "iter_state deref_edge (entries m) s3 = Some s4" "touch s3 s4"
    "hinv S M E s4" "temp_refs_pool s4 = temp_refs_pool s3" using deref_edges_spec by blast
  have n4: "content s4 = content s" using s4(2) content_nodes[OF s3(3)] by (simp add: touch_def)
  have of3: "op_frame s s3" by (rule op_frame_rest[OF d(2) s3(2)]) (simp add: s3(3))
  have "keeps E s s3" by (rule keeps_nodes[OF s3(3)]) (use s3(2) in \<open>simp_all add: rest_same_def tabled_def\<close>)
  then have "keeps E s s4" using keeps_trans touch_keeps[OF s4(2)] by blast
  moreover have "op_frame s s4" using op_frame_trans[OF of3] op_frame_touch[OF op_frame_ctx[OF of3] s4(2)] by blast
  moreover have "has_edges s4 (nte_node e) f (emap m)"
    using table_entries_wf(1)[OF hinvD(1)[OF d(1)] d(3,4) e(1)] e(2) n4 by (auto simp: has_edges_def)
  moreover have "temp_refs_pool s4 = temp_refs_pool s" using s4(4) s3(2) by (simp add: rest_same_def)
  ultimately show ?thesis using s4(1,3) n4 has_edges_not_null[OF s4(3), of "nte_node e" f "emap m"]
    by (simp add: linked_def)
qed

lemma link_insert:
  assumes l: "linking S M E s f t m p s1"
    and new: "\<forall>e\<in>set (tentries t). emap (nte_edges e) \<noteq> emap m"
    and e: "nte_edges e = m" "nte_node e = p" "nte_hash e = cached_hash m"
  defines "i \<equiv> nodetable_hash_val m t"
  defines "s2 \<equiv> set_table f (t\<lparr>nt_buckets := (nt_buckets t)[i := e # nt_buckets t ! i],
                 nt_entry_count := nt_entry_count t + 1\<rparr>) s1"
  shows "linked S M E s f m p s2"
proof -
  note d = linkingD[OF l]
  note si = hinvD(1)[OF d(1)]
  define t' where "t' = t\<lparr>nt_buckets := (nt_buckets t)[i := e # nt_buckets t ! i],
                 nt_entry_count := nt_entry_count t + 1\<rparr>"
  have s2: "nodes s2 = (nodes s)(p \<mapsto> new_node f m)" "rest_same s (s2\<lparr>node_tables_by_field := node_tables_by_field s\<rparr>)"
    "node_tables_by_field s2 = (node_tables_by_field s)(f \<mapsto> t')"
    "g_node_pool s2 = g_node_pool s1" "c_heap_of s2 = c_heap_of s1"
    using d(12,13)
    by (simp_all add: s2_def set_table_def rest_same_def t'_def res_mono_def pools_ready_def)
  have same: "leaf_table s2 = leaf_table s" "double_leaf_table s2 = double_leaf_table s"
    "field_count s2 = field_count s" "g_edge_bucket_count s2 = g_edge_bucket_count s"
    "mem_limit (c_heap_of s2) = mem_limit (c_heap_of s)" "temp_refs_pool s2 = temp_refs_pool s"
    "and_cache s2 = and_cache s" "or_cache s2 = or_cache s" "not_cache s2 = not_cache s"
    "gc_running s2 = gc_running s" "res_mono s s2"
    using s2(2) by (simp_all add: rest_same_def res_mono_def pools_ready_def)
  have "sinv S M s2"
    by (rule insert_struct[OF si d(3,4,8) s2(1) d(5-7) new e _ _ _ _ s2(3) same(1-3)])
      (simp_all add: t'_def i_def)
  moreover have "wf_map s m" using d(5) by (simp add: map_wf_def)
  then have "refs_ok E s2"
    using insert_refs[OF hinvD(2)[OF d(1)] si hinvD(3)[OF d(1)] _ d(8) s2(1)] d(15) by blast
  moreover have "dom (nodes s2) - {MTPNDD_TRUE, MTPNDD_FALSE}
      = insert p (dom (nodes s) - {MTPNDD_TRUE, MTPNDD_FALSE})"
    using s2(1) d(10,11) by auto
  then have "rinv s2"
    using hinvD(3)[OF d(1)] d(14) s2(4,5) same(4,5) by (simp add: rinv_def bucket_cfg_ok_def)
  moreover have ct: "content s2 q = content s q" if "nodes s q \<noteq> None" for q
    using insert_content[OF s2(1)] that d(8) by auto
  then have "op_frame s s2" by (intro op_frame_same[OF d(2)]) (use same in auto)
  moreover have "keeps E s s2" by (rule insert_keeps[OF d(8) s2(1) same(3) tabled_upd[OF same(3) s2(3) d(3)] si])
  moreover have "has_edges s2 p f (emap m)" using insert_content[OF s2(1)] by (simp add: has_edges_def)
  ultimately show ?thesis using same(6) ct d(9,15) by (simp add: linked_def hinv_def)
qed

lemma linked_grown:
  assumes l: "linked S M E s f m r s1" and g: "grown s1 s2" and h: "hinv S M E s2"
  shows "linked S M E s f m r (s2\<lparr>g_node_count := n\<rparr>)"
proof -
  let ?s = "s2\<lparr>g_node_count := n\<rparr>"
  have nd: "nodes ?s = nodes s1" "field_count ?s = field_count s1" "tabled ?s = tabled s1"
    using g tabled_cong[of ?s s2] by (simp_all add: grown_def)
  note c = content_nodes[OF nd(1)]
  have "hinv S M E ?s" using hinv_same_heap[OF h, of ?s] by (simp add: same_heap_def)
  moreover have "keeps E s ?s" using l keeps_trans keeps_nodes[OF nd] unfolding linked_def by blast
  moreover have o1: "op_frame s s1" using l by (simp add: linked_def)
  have "op_frame s1 ?s"
    by (rule op_frame_same[OF op_frame_ctx[OF o1]])
      (use g c in \<open>simp_all add: grown_def res_mono_def pools_ready_def\<close>)
  then have "op_frame s ?s" by (rule op_frame_trans[OF o1])
  moreover have "temp_refs_pool ?s = temp_refs_pool s" using l g by (simp add: linked_def grown_def)
  moreover have "mem_failed (c_heap_of s1) \<longrightarrow> mem_failed (c_heap_of ?s)"
    using g by (simp add: grown_def res_mono_def)
  ultimately show ?thesis using l c by (simp add: linked_def has_edges_def split: if_splits)
qed

lemma mk_link_spec:
  assumes l: "linking S M E s f t m p s1"
  shows "\<exists>r s'. mk_link f m p addr s1 = Some (r, s') \<and> linked S M E s f m r s'"
proof -
  note d = linkingD[OF l]
  have t1: "node_tables_by_field s1 f = Some t" using d(4,12) by (simp add: rest_same_def)
  have b: "nt_bucket t (nodetable_hash_val m t) = Some (nt_buckets t ! nodetable_hash_val m t)"
    using table_bucket(1)[OF linking_shape[OF l]] by (simp add: nt_bucket_def)
  obtain r where r: "find_in_chain s1 m (nt_buckets t ! nodetable_hash_val m t) = Some r"
    and rr: "case r of None \<Rightarrow> \<forall>e\<in>set (tentries t). emap (nte_edges e) \<noteq> emap m
        | Some e \<Rightarrow> e \<in> set (tentries t) \<and> emap (nte_edges e) = emap m"
    using linking_lookup[OF l] by blast
  have wf: "wf_map s m" using d(5) by (simp add: map_wf_def)
  show ?thesis
  proof (cases r)
    case (Some e)
    obtain s' where "iter_state deref_edge (entries m)
        (mtpndd_memory_release_node p (mtpndd_memory_release_nodetable_entry addr s1)) = Some s'"
      "linked S M E s f m (nte_node e) s'" using link_found[OF l] rr Some by auto
    then show ?thesis using t1 b r Some for_each_entry_wf[OF wf] by (simp add: mk_link_def Let_def)
  next
    case None
    let ?e = "\<lparr>nte_addr = addr, nte_edges = m, nte_node = p, nte_hash = cached_hash m\<rparr>"
    let ?i = "nodetable_hash_val m t"
    define s2 where "s2 = set_table f (t\<lparr>nt_buckets := (nt_buckets t)[?i := ?e # nt_buckets t ! ?i],
        nt_entry_count := nt_entry_count t + 1\<rparr>) s1"
    have lk: "linked S M E s f m p s2"
      unfolding s2_def by (rule link_insert[OF l]) (use rr None in simp_all)
    have f2: "f \<in> tabled s2" using d(3,12) by (simp add: s2_def set_table_def rest_same_def tabled_def)
    obtain s3 where s3: "mtpndd_nodetable_maybe_rehash f s2 = Some s3" "hinv S M E s3" "grown s2 s3"
      using nodetable_maybe_rehash_spec[OF _ f2] lk unfolding linked_def by blast
    have "mk_link f m p addr s1 = Some (p, s3\<lparr>g_node_count := g_node_count s3 + 1\<rparr>)"
      using t1 b r None s3(1) unfolding s2_def by (simp add: mk_link_def Let_def)
    then show ?thesis using linked_grown[OF lk s3(3,2)] by blast
  qed
qed

text \<open>Every failure gives back what it took; only the references to the children stay behind.\<close>

lemma hinv_drop_refs: "hinv S M (E + K) s \<Longrightarrow> hinv S M E s"
  using refs_ok_sub[of "E + K" s E] by (simp add: hinv_def)

text \<open>An error leaves the heap as it was, without the references the new node would have held.\<close>
lemma linked_failed:
  assumes ctx: "ctx_ok s" and k: "hinv S M (E + child_refs s m) s'" "keeps E s s'" "rest_same s s'"
      "nodes s' = nodes s" "mem_failed (c_heap_of s')"
  shows "linked S M E s f m NULL (mtpndd_set_error er fn line s')"
proof -
  note q = quiet_log(3)[where s = s' and e = er and f = fn and n = line]
  have r: "rest_same s (mtpndd_set_error er fn line s')" using rest_same_trans[OF k(3) quiet_rest[OF q]] .
  show ?thesis
    using hinv_quiet[OF hinv_drop_refs[OF k(1)] q] keeps_trans[OF k(2)] r k(4) quiet_fields(1)[OF q]
      op_frame_rest[OF ctx r] k(5) by (auto simp: linked_def rest_same_def mtpndd_set_error_def)
qed

lemma mk_alloc_spec:
  assumes h: "hinv S M (E + child_refs s m) s" and ctx: "ctx_ok s"
    and f: "f \<in> tabled s" and m: "map_wf S M s f m" "hash_ok m" "reduced S (emap m)"
  shows "\<exists>r s'. (let (node, s) = mtpndd_memory_acquire_node s
       in if node = NULL
          then Some (NULL, mtpndd_set_error MTPNDD_ERROR_OUT_OF_MEMORY ''mtpndd_mk'' 429 s)
          else do {
            let s = s\<lparr>nodes := (nodes s)(node \<mapsto> \<lparr>ref_count = 0, field_id = f, body = NEdges m\<rparr>)\<rparr>;
            let (addr, s) = mtpndd_memory_acquire_nodetable_entry s;
            if addr = NULL
            then Some (NULL, mtpndd_set_error MTPNDD_ERROR_OUT_OF_MEMORY ''mtpndd_mk'' 445
                               (mtpndd_memory_release_node node s))
            else mk_link f m node addr s
          }) = Some (r, s') \<and> linked S M E s f m r s'"
proof -
  obtain t where t: "node_tables_by_field s f = Some t" using sinv_table[OF hinvD(1)[OF h] f] by blast
  let ?U = "dom (nodes s) - {MTPNDD_TRUE, MTPNDD_FALSE}"
  obtain p s1 where a: "mtpndd_memory_acquire_node s = (p, s1)" by fastforce
  note ac = acquire_node_spec[OF hinvD(3)[OF h] a]
  note fail = linked_failed[OF ctx, where f = f and m = m and E = E]
  show ?thesis
  proof (cases "p = NULL")
    case True
    have "same_nodes s s1" using ac by (simp add: rest_same_def same_nodes_def)
    then have "hinv S M (E + child_refs s m) s1" "keeps E s s1"
      using hinv_pool[OF h] hinv_pool[OF hinv_drop_refs[OF h]] ac True by auto
    then show ?thesis using fail[where s' = s1] ac a True by auto
  next
    case False
    let ?s2 = "s1\<lparr>nodes := (nodes s1)(p \<mapsto> new_node f m)\<rparr>"
    obtain addr s3 where a3: "mtpndd_memory_acquire_nodetable_entry ?s2 = (addr, s3)" by fastforce
    note q3 = acquire_nodetable_entry_quiet[OF a3]
    have s3: "rest_same s s3" "nodes s3 = (nodes s)(p \<mapsto> new_node f m)"
      "pool_ok (g_node_pool s3) (insert p ?U) (c_heap_of s3)"
    proof -
      have "rest_same s ?s2" using ac by (simp add: rest_same_def res_mono_def pools_ready_def)
      then show "rest_same s s3" using rest_same_trans quiet_rest[OF q3] by blast
      show "nodes s3 = (nodes s)(p \<mapsto> new_node f m)" using quiet_fields(1)[OF q3] ac by simp
      show "pool_ok (g_node_pool s3) (insert p ?U) (c_heap_of s3)"
        using ac False quiet_fields(2)[OF q3] pool_ok_brk_mono[OF _ quiet_fields(19)[OF q3]] by simp
    qed
    have p: "nodes s p = None" "p \<noteq> MTPNDD_TRUE" "p \<noteq> MTPNDD_FALSE" using ac False by auto
    show ?thesis
    proof (cases "addr = NULL")
      case True
      have "32 < brk (c_heap_of s1)" using ac False unfolding pool_ok_def by presburger
      then have "heap_ready ?s2" using rest_ctx[OF ctx] ac
        by (auto simp: heap_ready_def ctx_ok_def pools_ready_def)
      then have "mem_failed (c_heap_of s3)" using acquire_nodetable_entry_failed a3 True by blast
      then have mf: "mem_failed (c_heap_of (mtpndd_memory_release_node p s3))"
        by (simp add: mtpndd_memory_release_node_def)
      have "linked S M E s f m NULL (mtpndd_set_error MTPNDD_ERROR_OUT_OF_MEMORY ''mtpndd_mk'' 445
          (mtpndd_memory_release_node p s3))"
        using fail release_new_node[OF h p(1) False p(2,3) s3]
          release_new_node[OF hinv_drop_refs[OF h] p(1) False p(2,3) s3] mf by blast
      then show ?thesis using a a3 True False by (simp add: Let_def new_node_def)
    next
      case False': False
      have "linking S M E s f t m p s3"
        unfolding linking_def using h ctx f t m p False s3 by blast
      from mk_link_spec[OF this, of addr] show ?thesis
        using a a3 False False' by (simp add: Let_def new_node_def)
    qed
  qed
qed

text \<open>The optional collection of \<open>mtpndd_mk\<close>, with the children of the new node held.\<close>

lemma mk_gc_spec:
  assumes h: "hinv S M (E + K) s" and ctx: "ctx_ok s"
  shows "\<exists>s'. (if mtpndd_nodetable_size (g_pal_config s) \<le> g_node_count s then gcOrGrow s else Some s) = Some s'
     \<and> hinv S M (E + K) s' \<and> keeps (E + K) s s' \<and> keeps E s s' \<and> op_frame s s'
     \<and> temp_refs_pool s' = temp_refs_pool s"
proof (cases "mtpndd_nodetable_size (g_pal_config s) \<le> g_node_count s")
  case True
  have c: "caches_shape s" "\<not> gc_running s" using ctx by (simp_all add: ctx_ok_def)
  obtain s' where s': "gcOrGrow s = Some s'" "hinv S M (E + K) s'" "keeps (E + K) s s'" "collected s s'"
    using gcOrGrow_spec[OF h c] by blast
  have "keeps E s s'" using gcOrGrow_spec[OF hinv_drop_refs[OF h] c] s'(1) by auto
  then show ?thesis using True s' op_frame_collected[OF ctx s'(4)] by (simp add: collected_def)
qed (use h ctx in simp)

lemma mk_new_spec:
  assumes h: "hinv S M E s" and ctx: "ctx_ok s"
    and f: "f \<in> tabled s" and m: "map_wf S M s f m" "hash_ok m" "reduced S (emap m)"
    and closed: "\<forall>c\<in>dom (emap m). internal s c \<or> live E s c"
  shows "\<exists>r s'. mk_new f m s = Some (r, s') \<and> linked S M E s f m r s'"
proof -
  have wf: "wf_map s m" using m(1) by (simp add: map_wf_def)
  have "\<forall>c\<in>set (map ee_child (entries m)). nodes s c \<noteq> None"
    using m(1) by (simp add: map_wf_def child_ok_def dom_emap)
  from ref_children_spec[OF h this] obtain s1 where s1: "iter_state ref_nonterminal (map ee_child (entries m)) s = Some s1"
    "touch s s1" "hinv S M (E + child_refs s m) s1" "temp_refs_pool s1 = temp_refs_pool s"
    unfolding child_refs_def by blast
  have o1: "op_frame s s1" by (rule op_frame_touch[OF ctx s1(2)])
  obtain s2 where s2: "(if mtpndd_nodetable_size (g_pal_config s1) \<le> g_node_count s1 then gcOrGrow s1 else Some s1) = Some s2"
    "hinv S M (E + child_refs s m) s2" "keeps (E + child_refs s m) s1 s2" "keeps E s1 s2" "op_frame s1 s2"
    "temp_refs_pool s2 = temp_refs_pool s1" using mk_gc_spec[OF s1(3) op_frame_ctx[OF o1]] by blast
  have c2: "content s2 c = content s c" if c: "c \<in> dom (emap m)" for c
  proof -
    have "live (E + child_refs s m) s1 c"
    proof (cases "internal s c")
      case True
      then have "c \<in># child_refs s m" using c by (auto simp: child_refs_def dom_emap)
      then show ?thesis using True touch_internal[OF s1(2)] by (auto intro: live.live_held)
    next
      case False
      then have "live E s1 c" using closed c touch_live[OF s1(2)] by blast
      then show ?thesis by (rule live_mono) simp
    qed
    then have "content s2 c = content s1 c" using s2(3) by (simp add: keeps_def)
    then show ?thesis using s1(2) by (simp add: touch_def)
  qed
  have fc: "f \<in> tabled s2" using f keeps_tabled[OF s2(4)] keeps_tabled[OF touch_keeps[OF s1(2)]] by simp
  have "internal s2 c = internal s c" if "c \<in> dom (emap m)" for c
    using c2[OF that] by (simp add: internal_content)
  then have K: "child_refs s2 m = child_refs s m"
    unfolding child_refs_def dom_emap by (intro arg_cong[of _ _ mset] filter_cong) auto
  have m2: "map_wf S M s2 f m" using m(1) map_wf_cong[of m s2 s] c2 by blast
  obtain r s' where r: "mk_new f m s = Some (r, s')" "linked S M E s2 f m r s'"
    using mk_alloc_spec[of S M E s2 m f] s2(2,5) op_frame_ctx[OF s2(5)] fc m2 m(2,3) K s1(1) s2(1)
      for_each_entry_wf[OF wf] unfolding mk_new_def by auto
  have "keeps E s s'" using keeps_trans[OF touch_keeps[OF s1(2)]] keeps_trans[OF s2(4)] r(2)
    unfolding linked_def by blast
  moreover have "op_frame s s'" using op_frame_trans[OF o1] op_frame_trans[OF s2(5)] r(2)
    unfolding linked_def by blast
  ultimately have "linked S M E s f m r s'"
    using r(2) s2(6) s1(4) c2 by (simp add: linked_def)
  then show ?thesis using r(1) by blast
qed

text \<open>
  The whole constructor.  The requested edges \<open>e\<close> need not be reduced: no edge gives FALSE, a
  single edge labelled true gives its child.
\<close>

definition mk_result :: "sylvan \<Rightarrow> mstate \<Rightarrow> nat \<Rightarrow> (ptr \<rightharpoonup> bdd) \<Rightarrow> ptr \<Rightarrow> bool" where
  "mk_result S s f e r \<longleftrightarrow>
     (if e = Map.empty then r = MTPNDD_FALSE
      else if \<exists>c. e = [c \<mapsto> sylvan_true S] then e = [r \<mapsto> sylvan_true S]
      else has_edges s r f e)"

definition made ::
  "sylvan \<Rightarrow> bdd_model \<Rightarrow> ptr multiset \<Rightarrow> mstate \<Rightarrow> nat \<Rightarrow> (ptr \<rightharpoonup> bdd) \<Rightarrow> ptr \<Rightarrow> mstate \<Rightarrow> bool" where
  "made S M E s f e r s' \<longleftrightarrow> hinv S M E s' \<and> keeps E s s' \<and> op_frame s s'
     \<and> temp_refs_pool s' = temp_refs_pool s
     \<and> (if r = NULL then mem_failed (c_heap_of s')
        else mk_result S s' f e r \<and> (\<forall>c\<in>dom e. content s' c = content s c))"

lemma deref_labels_quiet: "quiet s (deref_labels es s)"
  unfolding deref_labels_def
proof (induction es arbitrary: s)
  case (Cons e es)
  show ?case using quiet_trans[OF quiet_log(2)[of s "ee_label e"] Cons[of "sylvan_deref (ee_label e) s"]] by simp
qed simp

lemma find_node_spec:
  assumes si: "sinv S M s" and ri: "rinv s" and f: "f \<in> tabled s"
    and t: "node_tables_by_field s f = Some t" and m: "wf_map s m" "hash_ok m"
  shows "\<exists>r. find_node_in_nodetable s t m = Some r \<and> (r \<noteq> NULL \<longrightarrow> has_edges s r f (emap m))"
proof -
  have sh: "table_shape t" using sinv_table_wf[OF si f t] by (simp add: table_wf_def)
  have b: "nt_bucket t (nodetable_hash_val m t) = Some (nt_buckets t ! nodetable_hash_val m t)"
    using table_bucket(1)[OF sh] by (simp add: nt_bucket_def)
  obtain r where r: "find_in_chain s m (nt_buckets t ! nodetable_hash_val m t) = Some r"
    and rr: "case r of None \<Rightarrow> \<forall>e\<in>set (tentries t). emap (nte_edges e) \<noteq> emap m
        | Some e \<Rightarrow> e \<in> set (tentries t) \<and> emap (nte_edges e) = emap m"
    using find_table_spec[OF sh m] table_entries_wf(2)[OF si f t] by blast
  show ?thesis
  proof (cases r)
    case (Some e)
    have "has_edges s (nte_node e) f (emap m)"
      using table_entries_wf(1)[OF si f t] rr Some by (auto simp: has_edges_def)
    then show ?thesis using b r Some by (simp add: find_node_in_nodetable_def)
  qed (use b r in \<open>simp add: find_node_in_nodetable_def\<close>)
qed

lemma single_edge:
  assumes wf: "wf_map s m" and n: "edge_count m = 1"
  shows "\<exists>x. entries m = [x] \<and> emap m = [ee_child x \<mapsto> ee_label x]"
proof -
  have "length (entries m) = Suc 0" using wf n by (simp add: wf_map_def)
  then obtain x where x: "entries m = [x]" by (auto simp: length_Suc_conv)
  then show ?thesis by (simp add: emap_def)
qed

lemma single_emap:
  assumes wf: "wf_map s m" and e: "emap m = [c \<mapsto> l]"
  shows "edge_count m = 1 \<and> entries m \<noteq> [] \<and> ee_label (hd (entries m)) = l"
proof -
  have d: "distinct (map ee_child (entries m))" "edge_count m = length (entries m)" using wf by (simp_all add: wf_map_def)
  have "set (map ee_child (entries m)) = {c}" using e dom_emap[of m] by simp
  then have "length (map ee_child (entries m)) = 1" using distinct_card[OF d(1)] by simp
  then have n: "edge_count m = 1" using d(2) by simp
  obtain x where x: "entries m = [x]" "emap m = [ee_child x \<mapsto> ee_label x]" using single_edge[OF wf n] by blast
  have "c = ee_child x" using x(2) e by (metis dom_empty dom_fun_upd insertI1 option.discI singletonD)
  then have "ee_label x = l" using x(2) e by (metis fun_upd_same option.inject)
  then show ?thesis using n x(1) by simp
qed

lemma mk_spec:
  assumes h: "hinv S M E s" and ctx: "ctx_ok s"
    and f: "f \<in> tabled s" and m: "map_wf S M s f m"
    and closed: "\<forall>c\<in>dom (emap m). internal s c \<or> live E s c"
  shows "\<exists>r s'. mtpndd_mk S f m s = Some (r, s') \<and> made S M E s f (emap m) r s'"
proof -
  note si = hinvD(1)[OF h]
  have wf: "wf_map s m" using m by (simp add: map_wf_def)
  have self: "made S M E s f (emap m) r s" if "mk_result S s f (emap m) r" "r \<noteq> NULL" for r
    using h ctx that by (simp add: made_def)
  let ?one = "edge_count m = 1 \<and> entries m \<noteq> [] \<and> ee_label (hd (entries m)) = sylvan_true S"
  consider (none) "edge_count m = 0" | (one) ?one
    | (more) "edge_count m \<noteq> 0" "\<forall>c. emap m \<noteq> [c \<mapsto> sylvan_true S]" "\<not> ?one"
    using single_emap[OF wf] by blast
  then show ?thesis
  proof cases
    case none
    then have "emap m = Map.empty" using wf by (simp add: wf_map_def emap_def)
    then show ?thesis using self[of MTPNDD_FALSE] none
      by (simp add: mtpndd_mk_def mk_result_def MTPNDD_FALSE_def)
  next
    case one
    obtain x where x: "entries m = [x]" "emap m = [ee_child x \<mapsto> ee_label x]" using single_edge[OF wf] one by blast
    have l: "ee_label x = sylvan_true S" using one x(1) by simp
    have "nodes s (ee_child x) \<noteq> None" using m x(2) by (simp add: map_wf_def child_ok_def)
    then have "ee_child x \<noteq> NULL" using rinv_null[OF hinvD(3)[OF h]] by metis
    then have "made S M E s f (emap m) (ee_child x) s"
      by (intro self) (use x(2) l in \<open>auto simp: mk_result_def\<close>)
    then show ?thesis using one x(1) l for_each_entry_wf[OF wf] wf_map_bounds(6)[OF wf]
      by (simp add: mtpndd_mk_def)
  next
    case more
    let ?m = "m\<lparr>cached_hash := xor_fold entry_hash (entries m)\<rparr>"
    have en: "entries ?m = entries m" "emap ?m = emap m" by (simp_all add: entries_def emap_def)
    have wf': "wf_map s ?m" using wf en(1) by (simp add: wf_map_def)
    have m': "map_wf S M s f ?m" using m wf' en(2) by (simp add: map_wf_def)
    have ho: "hash_ok ?m" using en(1) by (simp add: hash_ok_def)
    have ne: "emap m \<noteq> Map.empty"
      using more(1) wf emap_None[of m] by (auto simp: wf_map_def fun_eq_iff)
    obtain t where t: "node_tables_by_field s f = Some t" using sinv_table[OF si f] by blast
    obtain r where r: "find_node_in_nodetable s t ?m = Some r" "r \<noteq> NULL \<longrightarrow> has_edges s r f (emap m)"
      using find_node_spec[OF si hinvD(3)[OF h] f t wf' ho] en(2) by auto
    have pre: "mtpndd_mk S f m s = (if r \<noteq> NULL then Some (r, deref_labels (entries m) s) else mk_new f ?m s)"
      unfolding mtpndd_mk_def using more(1,3) for_each_entry_wf[OF wf] for_each_entry_wf[OF wf'] en(1)
        wf_map_bounds(6)[OF wf] compute_hash_wf[OF wf] t r(1) by (auto simp: Let_def)
    show ?thesis
    proof (cases "r = NULL")
      case False
      note q = deref_labels_quiet[of s "entries m"]
      have "made S M E s f (emap m) r (deref_labels (entries m) s)"
        using hinv_quiet[OF h q] op_frame_touch[OF ctx quiet_touch[OF q]] quiet_fields(15)[OF q]
          content_nodes[OF quiet_fields(1)[OF q]] r(2) False ne more(2)
        by (simp add: made_def mk_result_def has_edges_def)
      then show ?thesis using pre False by auto
    next
      case True
      have "reduced S (emap ?m)" using ne more(2) en(2) by (simp add: reduced_def)
      then obtain r' s' where r': "mk_new f ?m s = Some (r', s')" "linked S M E s f ?m r' s'"
        using mk_new_spec[OF h ctx f m' ho] closed en(2) by auto
      then have "made S M E s f (emap m) r' s'"
        using ne more(2) en(2) by (simp add: linked_def made_def mk_result_def split: if_splits)
      then show ?thesis using pre True r'(1) by auto
    qed
  qed
qed

end
