(* ===== verification/Diagram_Semantics.thy ===== *)
theory Diagram_Semantics
  imports Mk_Correct
begin

text \<open>
  What a Boolean diagram denotes.  An environment gives every field an assignment of the BDD
  variables; a node holds when one of its edges has a label that holds for the node's field and
  leads to a child that holds.  \<open>boolean\<close> are the diagrams whose leaves are TRUE and FALSE, the
  ones the Boolean operations work on.  The section on canonicity shows that in a state that
  satisfies the invariant equal denotations are equal pointers.
\<close>

type_synonym env = "nat \<Rightarrow> assignment"

section \<open>Denotation\<close>

inductive holds :: "bdd_model \<Rightarrow> mstate \<Rightarrow> env \<Rightarrow> ptr \<Rightarrow> bool" for M s env where
  holds_true: "holds M s env MTPNDD_TRUE"
| holds_edge: "content s p = Some (f, NEdges m) \<Longrightarrow> emap m c = Some l \<Longrightarrow> bdd_sem M l (env f)
     \<Longrightarrow> holds M s env c \<Longrightarrow> holds M s env p"

inductive boolean :: "mstate \<Rightarrow> ptr \<Rightarrow> bool" for s where
  boolean_true: "boolean s MTPNDD_TRUE"
| boolean_false: "boolean s MTPNDD_FALSE"
| boolean_node: "content s p = Some (f, NEdges m) \<Longrightarrow> (\<And>c. c \<in> dom (emap m) \<Longrightarrow> boolean s c)
     \<Longrightarrow> boolean s p"

lemmas terminal_intros [simp, intro] = holds_true boolean_true boolean_false

lemma internal_not_sentinel:
  assumes "sinv S M s" "content s p = Some (f, NEdges m)"
  shows "p \<noteq> MTPNDD_TRUE" "p \<noteq> MTPNDD_FALSE"
  using assms by (auto simp: sinv_def sentinels_ok_def)

lemma holds_node:
  assumes "sinv S M s" "content s p = Some (f, NEdges m)"
  shows "holds N s env p \<longleftrightarrow> (\<exists>c l. emap m c = Some l \<and> bdd_sem N l (env f) \<and> holds N s env c)"
  using internal_not_sentinel[OF assms] assms(2) by (subst holds.simps) auto

lemma holds_false: "sinv S M s \<Longrightarrow> \<not> holds N s env MTPNDD_FALSE"
  by (subst holds.simps) (auto simp: sinv_def sentinels_ok_def MTPNDD_TRUE_def MTPNDD_FALSE_def)

lemma boolean_child:
  assumes "sinv S M s" "content s p = Some (f, NEdges m)" "boolean s p" "c \<in> dom (emap m)"
  shows "boolean s c"
  using assms(3) by (cases rule: boolean.cases) (use assms internal_not_sentinel in auto)

lemma boolean_holdable: "boolean s p \<Longrightarrow> holdable s p"
  by (cases rule: boolean.cases) (auto simp: holdable_def internal_content)

lemma boolean_leaf:
  "sinv S M s \<Longrightarrow> boolean s p \<Longrightarrow> \<not> internal s p \<Longrightarrow> p = MTPNDD_TRUE \<or> p = MTPNDD_FALSE"
  using boolean_holdable by (auto simp: holdable_def)

lemma fieldof_content: "content s p = Some (f, b) \<Longrightarrow> fieldof s p = f"
  by (simp add: node_field_content)

lemma sentinel_field:
  assumes "sinv S M s"
  shows "fieldof s MTPNDD_TRUE = MTPNDD_FRACTION_LEAF_FIELD_ID"
    "fieldof s MTPNDD_FALSE = MTPNDD_FRACTION_LEAF_FIELD_ID"
    "field_count s < fieldof s MTPNDD_TRUE" "field_count s < fieldof s MTPNDD_FALSE"
proof -
  show f: "fieldof s MTPNDD_TRUE = MTPNDD_FRACTION_LEAF_FIELD_ID"
    "fieldof s MTPNDD_FALSE = MTPNDD_FRACTION_LEAF_FIELD_ID"
    using assms by (auto simp: sinv_def sentinels_ok_def intro: fieldof_content)
  have "field_count s < MTPNDD_FRACTION_LEAF_FIELD_ID" using assms
    by (simp add: sinv_def MTPNDD_LEAF_FIELD_ID_MIN_def MTPNDD_DOUBLE_LEAF_FIELD_ID_def
        MTPNDD_FRACTION_LEAF_FIELD_ID_def)
  then show "field_count s < fieldof s MTPNDD_TRUE" "field_count s < fieldof s MTPNDD_FALSE"
    using f by simp_all
qed

section \<open>States that agree on a closed set of nodes\<close>

definition agree :: "mstate \<Rightarrow> mstate \<Rightarrow> (ptr \<Rightarrow> bool) \<Rightarrow> bool" where
  "agree s s' P \<longleftrightarrow> (\<forall>p. P p \<longrightarrow> content s' p = content s p
     \<and> (\<forall>f m c. content s p = Some (f, NEdges m) \<longrightarrow> c \<in> dom (emap m) \<longrightarrow> P c))"

lemma agree_sym: "agree s s' P \<Longrightarrow> agree s' s P"
  unfolding agree_def by metis

lemma agree_holds1:
  assumes "holds M s env p" "agree s s' P" "P p" shows "holds M s' env p"
  using assms(1,3)
proof (induction rule: holds.induct)
  case (holds_edge p f m c l)
  then show ?case using assms(2) unfolding agree_def by (metis domI holds.holds_edge)
qed simp

lemma agree_holds: "agree s s' P \<Longrightarrow> P p \<Longrightarrow> holds M s' env p \<longleftrightarrow> holds M s env p"
  using agree_holds1 agree_sym by metis

lemma agree_boolean1:
  assumes "boolean s p" "agree s s' P" "P p" shows "boolean s' p"
  using assms(1,3)
proof (induction rule: boolean.induct)
  case (boolean_node p f m)
  then show ?case using assms(2) unfolding agree_def by (metis boolean.boolean_node)
qed simp_all

lemma agree_boolean: "agree s s' P \<Longrightarrow> P p \<Longrightarrow> boolean s' p \<longleftrightarrow> boolean s p"
  using agree_boolean1 agree_sym by metis

lemma agree_field: "agree s s' P \<Longrightarrow> P p \<Longrightarrow> fieldof s' p = fieldof s p"
  by (simp add: agree_def node_field_content)

lemma keeps_agree: "keeps E s s' \<Longrightarrow> agree s s' (live E s)"
  unfolding agree_def keeps_def by (metis live_child node_edges_content)

lemma frame_agree:
  assumes "sinv S M s" "\<And>p. nodes s p \<noteq> None \<Longrightarrow> content s' p = content s p"
  shows "agree s s' (\<lambda>p. nodes s p \<noteq> None)"
  unfolding agree_def
proof (intro allI impI conjI)
  fix p f m c assume "content s p = Some (f, NEdges m)" "c \<in> dom (emap m)"
  then show "nodes s c \<noteq> None" using sinv_child[OF assms(1)] by (simp add: child_ok_def)
qed (use assms(2) in blast)

text \<open>Only the fields from the node's own on matter.\<close>

lemma holds_env:
  assumes "sinv S M s" "holds N s env p" "\<And>g. fieldof s p \<le> g \<Longrightarrow> env' g = env g"
  shows "holds N s env' p"
  using assms(2,3)
proof (induction rule: holds.induct)
  case (holds_edge p f m c l)
  have f: "fieldof s p = f" by (rule fieldof_content[OF holds_edge(1)])
  have "f < fieldof s c" using sinv_child[OF assms(1) holds_edge(1)] holds_edge(2) by (auto simp: child_ok_def)
  then have "holds N s env' c" using holds_edge f by simp
  then show ?case using holds_edge f by (auto intro: holds.holds_edge)
qed simp

lemma holds_env_upd:
  assumes "sinv S M s" "g < fieldof s p"
  shows "holds N s (env(g := v)) p \<longleftrightarrow> holds N s env p"
proof
  assume "holds N s (env(g := v)) p"
  then show "holds N s env p" by (rule holds_env[OF assms(1)]) (use assms(2) in auto)
next
  assume "holds N s env p"
  then show "holds N s (env(g := v)) p" by (rule holds_env[OF assms(1)]) (use assms(2) in auto)
qed

definition same_den :: "bdd_model \<Rightarrow> mstate \<Rightarrow> ptr \<Rightarrow> ptr \<Rightarrow> bool" where
  "same_den M s p q \<longleftrightarrow> (\<forall>env. holds M s env p \<longleftrightarrow> holds M s env q)"

lemma same_den_sym: "same_den M s p q \<Longrightarrow> same_den M s q p"
  by (simp add: same_den_def)

section \<open>Canonicity\<close>

context sylvan_laws
begin

text \<open>The node at an assignment of its own field is the child the assignment selects.\<close>

lemma holds_select:
  assumes si: "sinv S M s" and p: "content s p = Some (f, NEdges m)" and c: "emap m c = Some l" "bdd_sem M l v"
  shows "holds M s (env(f := v)) p \<longleftrightarrow> holds M s env c"
proof -
  have lo: "labels_ok S M (emap m)" using sinv_node(3)[OF si p] by (simp add: map_wf_def)
  have fc: "f < fieldof s c" using sinv_child[OF si p] c(1) by (auto simp: child_ok_def)
  have one: "c' = c" if "emap m c' = Some k" "bdd_sem M k v" for c' k
    using lo that c unfolding labels_ok_def by metis
  have "holds M s (env(f := v)) p \<longleftrightarrow> holds M s (env(f := v)) c"
  proof
    assume "holds M s (env(f := v)) p"
    then obtain c' k where "emap m c' = Some k" "bdd_sem M k v" "holds M s (env(f := v)) c'"
      by (auto simp: holds_node[OF si p])
    then show "holds M s (env(f := v)) c" using one by blast
  next
    assume "holds M s (env(f := v)) c"
    then show "holds M s (env(f := v)) p" using c holds_edge[OF p] by simp
  qed
  then show ?thesis using holds_env_upd[OF si fc] by simp
qed

lemma edge_sat:
  assumes si: "sinv S M s" and p: "content s p = Some (f, NEdges m)" and c: "emap m c = Some l"
  shows "bdd_ok M l" "\<exists>v. bdd_sem M l v"
proof -
  have "labels_ok S M (emap m)" using sinv_node(3)[OF si p] by (simp add: map_wf_def)
  then have "bdd_ok M l \<and> l \<noteq> sylvan_false S" using c unfolding labels_ok_def by blast
  then show "bdd_ok M l" "\<exists>v. bdd_sem M l v" using nonfalse_sat by auto
qed

lemma boolean_sat:
  assumes si: "sinv S M s" and "boolean s p" "p \<noteq> MTPNDD_FALSE"
  shows "\<exists>env. holds M s env p"
  using assms(2,3)
proof (induction rule: boolean.induct)
  case (boolean_node p f m)
  have "emap m \<noteq> Map.empty" using sinv_node(5)[OF si boolean_node(1)] by (simp add: reduced_def)
  then obtain c l where c: "emap m c = Some l" by fastforce
  obtain v where v: "bdd_sem M l v" using edge_sat(2)[OF si boolean_node(1) c] by blast
  have "c \<noteq> MTPNDD_FALSE" using sinv_child[OF si boolean_node(1)] c by (auto simp: child_ok_def)
  then obtain env where "holds M s env c" using boolean_node(3) c by blast
  then show ?case using holds_select[OF si boolean_node(1) c v] by blast
qed auto

lemma skip_level:
  assumes si: "sinv S M s" and p: "content s p = Some (f, NEdges m)" and q: "f < fieldof s q"
    and eq: "same_den M s p q" and bq: "boolean s q"
    and IH: "\<And>c. c \<in> dom (emap m) \<Longrightarrow> same_den M s c q \<Longrightarrow> c = q"
  shows False
proof -
  have sel: "holds M s (env(f := v)) p \<longleftrightarrow> holds M s env q" for env v
    using eq holds_env_upd[OF si q] by (simp add: same_den_def)
  have only: "c = q" if c: "emap m c = Some l" for c l
  proof -
    obtain v where "bdd_sem M l v" using edge_sat(2)[OF si p c] by blast
    then have "same_den M s c q" using holds_select[OF si p c] sel by (simp add: same_den_def)
    then show ?thesis using IH c by blast
  qed
  have red: "reduced S (emap m)" by (rule sinv_node(5)[OF si p])
  then obtain c l where "emap m c = Some l" unfolding reduced_def by (metis not_None_eq ext)
  then have l: "emap m q = Some l" using only by blast
  have "emap m = [q \<mapsto> l]"
  proof
    fix c show "emap m c = [q \<mapsto> l] c" using only[of c] l by (cases "emap m c") auto
  qed
  then have "l \<noteq> sylvan_true S" using red by (auto simp: reduced_def)
  then obtain v where v: "\<not> bdd_sem M l v" using eq_true_iff[OF edge_sat(1)[OF si p l]] by blast
  have "\<not> holds M s (env(f := v)) p" for env
    unfolding holds_node[OF si p] \<open>emap m = [q \<mapsto> l]\<close> using v by (auto split: if_splits)
  then have "\<not> holds M s env q" for env using sel by blast
  moreover have "q \<noteq> MTPNDD_FALSE" using sinv_child[OF si p] l by (auto simp: child_ok_def)
  ultimately show False using boolean_sat[OF si bq] by blast
qed

lemma same_level_sub:
  assumes si: "sinv S M s" and p: "content s p = Some (f, NEdges m)" and q: "content s q = Some (f, NEdges m')"
    and eq: "same_den M s p q" and bp: "boolean s p"
    and IH: "\<forall>c\<in>dom (emap m). \<forall>d\<in>dom (emap m'). same_den M s c d \<longrightarrow> c = d"
    and c: "emap m c = Some l" and v: "bdd_sem M l v"
  shows "\<exists>k. emap m' c = Some k \<and> bdd_sem M k v"
proof -
  have "c \<noteq> MTPNDD_FALSE" using sinv_child[OF si p] c by (auto simp: child_ok_def)
  then obtain env where "holds M s env c" using boolean_sat[OF si] boolean_child[OF si p bp] c by blast
  then have "holds M s (env(f := v)) q"
    using holds_select[OF si p c v] eq by (simp add: same_den_def)
  then obtain d k where d: "emap m' d = Some k" "bdd_sem M k v" by (auto simp: holds_node[OF si q])
  have "same_den M s c d"
    using holds_select[OF si p c v] holds_select[OF si q d] eq by (simp add: same_den_def)
  then have "c = d" using IH c d(1) by blast
  then show ?thesis using d by blast
qed

lemma same_level:
  assumes si: "sinv S M s" and p: "content s p = Some (f, NEdges m)" and q: "content s q = Some (f, NEdges m')"
    and eq: "same_den M s p q" and b: "boolean s p" "boolean s q"
    and IH: "\<forall>c\<in>dom (emap m). \<forall>d\<in>dom (emap m'). same_den M s c d \<longrightarrow> c = d"
  shows "p = q"
proof -
  have eq': "same_den M s q p" using eq by (simp add: same_den_def)
  have IH': "\<forall>d\<in>dom (emap m'). \<forall>c\<in>dom (emap m). same_den M s d c \<longrightarrow> d = c"
    using IH same_den_sym by metis
  note sub = same_level_sub[OF si p q eq b(1) IH] and sub' = same_level_sub[OF si q p eq' b(2) IH']
  have lab: "emap m' c = Some l" if c: "emap m c = Some l" for c l
  proof -
    obtain v where "bdd_sem M l v" using edge_sat(2)[OF si p c] by blast
    then obtain k where k: "emap m' c = Some k" using sub[OF c] by blast
    have "bdd_sem M l v \<longleftrightarrow> bdd_sem M k v" for v using sub[OF c, of v] sub'[OF k, of v] k c by auto
    then have "l = k" using canonical[OF edge_sat(1)[OF si p c] edge_sat(1)[OF si q k]] by blast
    then show ?thesis using k by simp
  qed
  have "emap m c = Some l" if k: "emap m' c = Some l" for c l
  proof -
    obtain v where "bdd_sem M l v" using edge_sat(2)[OF si q k] by blast
    then obtain l' where "emap m c = Some l'" using sub'[OF k] by blast
    then show ?thesis using lab k by fastforce
  qed
  then have "emap m = emap m'" using lab by (metis not_None_eq ext)
  then show ?thesis using si p q unfolding sinv_def unique_nodes_def by blast
qed

text \<open>Equal denotations are equal pointers.\<close>

lemma canonical_true:
  assumes si: "sinv S M s" and "boolean s q" "same_den M s q MTPNDD_TRUE"
  shows "q = MTPNDD_TRUE"
  using assms(2,3)
proof (induction rule: boolean.induct)
  case (boolean_node q f m)
  have "f < fieldof s MTPNDD_TRUE"
    using sinv_node(2)[OF si boolean_node(1)] sentinel_field(3)[OF si] by linarith
  from skip_level[OF si boolean_node(1) this boolean_node(4)] show ?case using boolean_node(3) by blast
qed (use holds_false[OF si] in \<open>auto simp: same_den_def\<close>)

lemma canonical_false:
  "sinv S M s \<Longrightarrow> boolean s q \<Longrightarrow> same_den M s q MTPNDD_FALSE \<Longrightarrow> q = MTPNDD_FALSE"
  using boolean_sat holds_false unfolding same_den_def by blast

lemma canonical_ptr:
  assumes si: "sinv S M s" and "boolean s p" "boolean s q" "same_den M s p q"
  shows "p = q"
  using assms(2-4)
proof (induction arbitrary: q rule: boolean.induct)
  case p: (boolean_node p f m)
  have bp: "boolean s p" using p(1,2) by (rule boolean.boolean_node)
  show ?case using p(4,5)
  proof (induction rule: boolean.induct)
    case q: (boolean_node q g k)
    have bq: "boolean s q" using q(1,2) by (rule boolean.boolean_node)
    note fp = fieldof_content[OF p(1)] and fq = fieldof_content[OF q(1)]
    consider "f < g" | "g < f" | "f = g" by linarith
    then show ?case
    proof cases
      case 1
      then show ?thesis using skip_level[OF si p(1) _ q(4) bq] fq p(3)[OF _ bq] by blast
    next
      case 2
      have "d = p" if "d \<in> dom (emap k)" "same_den M s d p" for d
        using q(3)[OF that(1)] same_den_sym[OF that(2)] by simp
      then show ?thesis using skip_level[OF si q(1) _ same_den_sym[OF q(4)] bp] fp 2 by blast
    next
      case 3
      then have "content s q = Some (f, NEdges k)" using q(1) by simp
      then show ?thesis using same_level[OF si p(1) _ q(4) bp bq] p(3) q(2) by blast
    qed
  qed (use canonical_true[OF si bp] canonical_false[OF si bp] in auto)
next
  case boolean_true
  then show ?case using canonical_true[OF si] same_den_sym by metis
next
  case boolean_false
  then show ?case using canonical_false[OF si] same_den_sym by metis
qed

end

end
