(* ===== verification/Bool_Build.thy ===== *)
theory Bool_Build
  imports Diagram_Semantics Bool_Ops
begin

text \<open>
  What the Boolean operations share.  \<open>cinv\<close>: every triple in an operation cache is a correct
  result.  \<open>op_post\<close>: what an operation owes its caller.  \<open>building\<close>: the edge map under
  construction covers a region of the field's assignments and denotes what the finished tasks
  contributed; merging one more item extends both.  All semantic parts are conditional on
  \<open>failed\<close>, that is on no allocation having failed: the code drops an item silently when a
  nested call fails without setting the error code, so a run with a failed allocation may
  return a wrong node.  The structural parts hold for every run.
\<close>

abbreviation failed :: "mstate \<Rightarrow> bool" where
  "failed s \<equiv> mem_failed (c_heap_of s)"

section \<open>Results and caches\<close>

definition res_ok :: "bdd_model \<Rightarrow> mstate \<Rightarrow> nat \<Rightarrow> (env \<Rightarrow> bool) \<Rightarrow> ptr \<Rightarrow> bool" where
  "res_ok M s lo H r \<longleftrightarrow> boolean s r \<and> lo \<le> fieldof s r
     \<and> (\<not> failed s \<longrightarrow> (\<forall>env. holds M s env r \<longleftrightarrow> H env))"

definition bin_entry ::
  "(bool \<Rightarrow> bool \<Rightarrow> bool) \<Rightarrow> bdd_model \<Rightarrow> mstate \<Rightarrow> ptr \<Rightarrow> ptr \<Rightarrow> ptr \<Rightarrow> bool" where
  "bin_entry conn M s a b r \<longleftrightarrow> nodes s a \<noteq> None \<and> nodes s b \<noteq> None \<and> nodes s r \<noteq> None
     \<and> (boolean s a \<longrightarrow> boolean s b \<longrightarrow>
        res_ok M s (min (fieldof s a) (fieldof s b)) (\<lambda>env. conn (holds M s env a) (holds M s env b)) r)"

definition un_entry :: "bdd_model \<Rightarrow> mstate \<Rightarrow> ptr \<Rightarrow> ptr \<Rightarrow> bool" where
  "un_entry M s a r \<longleftrightarrow> nodes s a \<noteq> None \<and> nodes s r \<noteq> None
     \<and> (boolean s a \<longrightarrow> res_ok M s (fieldof s a) (\<lambda>env. \<not> holds M s env a) r)"

definition cinv :: "bdd_model \<Rightarrow> mstate \<Rightarrow> bool" where
  "cinv M s \<longleftrightarrow> ctx_ok s \<and> (\<forall>a b r. cached (and_cache s) a b r \<longrightarrow> bin_entry (\<and>) M s a b r)
     \<and> (\<forall>a b r. cached (or_cache s) a b r \<longrightarrow> bin_entry (\<or>) M s a b r)
     \<and> (\<forall>a b r. cached (not_cache s) a b r \<longrightarrow> un_entry M s a r)"

lemma cinvD:
  assumes "cinv M s"
  shows "ctx_ok s" "cached (and_cache s) a b r \<Longrightarrow> bin_entry (\<and>) M s a b r"
    "cached (or_cache s) a b r \<Longrightarrow> bin_entry (\<or>) M s a b r"
    "cached (not_cache s) a b r \<Longrightarrow> un_entry M s a r"
  using assms unfolding cinv_def by blast+

lemma res_mono_failed: "res_mono s s' \<Longrightarrow> \<not> failed s' \<Longrightarrow> \<not> failed s"
  by (auto simp: res_mono_def)

lemma res_ok_agree:
  assumes "agree s s' P" "P r" "res_mono s s'" "res_ok M s lo H r"
  shows "res_ok M s' lo H r"
  using assms agree_boolean[OF assms(1,2)] agree_holds[OF assms(1,2)] agree_field[OF assms(1,2)]
    res_mono_failed[OF assms(3)] by (simp add: res_ok_def)

lemma bin_entry_frame:
  assumes ag: "agree s s' (\<lambda>p. nodes s p \<noteq> None)" and rm: "res_mono s s'" and e: "bin_entry conn M s a b r"
  shows "bin_entry conn M s' a b r"
proof -
  have k: "nodes s a \<noteq> None" "nodes s b \<noteq> None" "nodes s r \<noteq> None" using e by (auto simp: bin_entry_def)
  have "nodes s' p \<noteq> None" if "nodes s p \<noteq> None" for p
    using ag that unfolding agree_def by (metis content_None)
  then show ?thesis
    using e k res_ok_agree[OF ag k(3) rm] agree_boolean[OF ag k(1)] agree_boolean[OF ag k(2)]
      agree_field[OF ag k(1)] agree_field[OF ag k(2)] agree_holds[OF ag k(1)] agree_holds[OF ag k(2)]
    by (simp add: bin_entry_def)
qed

lemma un_entry_frame:
  assumes ag: "agree s s' (\<lambda>p. nodes s p \<noteq> None)" and rm: "res_mono s s'" and e: "un_entry M s a r"
  shows "un_entry M s' a r"
proof -
  have k: "nodes s a \<noteq> None" "nodes s r \<noteq> None" using e by (auto simp: un_entry_def)
  have "nodes s' p \<noteq> None" if "nodes s p \<noteq> None" for p
    using ag that unfolding agree_def by (metis content_None)
  then show ?thesis
    using e k res_ok_agree[OF ag k(2) rm] agree_boolean[OF ag k(1)]
      agree_field[OF ag k(1)] agree_holds[OF ag k(1)] by (simp add: un_entry_def)
qed

text \<open>Steps that leave the nodes alone, and collections that empty the caches, keep them correct.\<close>

lemma cinv_frame:
  assumes c: "cinv M s" and si: "sinv S M s" and fr: "op_frame s s'"
  shows "cinv M s'"
proof (cases "caches_empty s'")
  case True
  then show ?thesis using fr by (simp add: cinv_def op_frame_def caches_empty_def)
next
  case False
  then have e: "and_cache s' = and_cache s" "or_cache s' = or_cache s" "not_cache s' = not_cache s"
    and ct: "\<And>p. nodes s p \<noteq> None \<Longrightarrow> content s' p = content s p" and rm: "res_mono s s'"
    using fr unfolding op_frame_def by blast+
  note ag = frame_agree[OF si ct]
  show ?thesis unfolding cinv_def e
    using op_frame_ctx[OF fr] bin_entry_frame[OF ag rm] un_entry_frame[OF ag rm] cinvD(2-4)[OF c] by blast
qed

lemma cinv_touch: "cinv M s \<Longrightarrow> sinv S M s \<Longrightarrow> touch s s' \<Longrightarrow> cinv M s'"
  using cinv_frame op_frame_touch cinvD(1) by blast

lemma cinv_heap_ready: "cinv M s \<Longrightarrow> hinv S M E s \<Longrightarrow> heap_ready s"
  by (simp add: cinv_def ctx_ok_def heap_ready_def hinv_def rinv_def pool_ok_def)

section \<open>What an operation owes\<close>

definition op_post ::
  "sylvan \<Rightarrow> bdd_model \<Rightarrow> ptr multiset \<Rightarrow> mstate \<Rightarrow> nat \<Rightarrow> (env \<Rightarrow> bool) \<Rightarrow> ptr \<Rightarrow> mstate \<Rightarrow> bool" where
  "op_post S M E s lo H r s' \<longleftrightarrow> hinv S M E s' \<and> cinv M s' \<and> keeps E s s' \<and> res_mono s s'
     \<and> stack s' = stack s \<and> (if r = NULL then failed s' else res_ok M s' lo H r)"

text \<open>Enough fuel for a diagram whose top field is \<open>f\<close>: every call descends at least one field.\<close>

definition fuel_ok :: "mstate \<Rightarrow> nat \<Rightarrow> nat \<Rightarrow> bool" where
  "fuel_ok s k f \<longleftrightarrow> field_count s + 2 \<le> k + min f (field_count s + 1)"

lemma fuel_ok_step: "fuel_ok s (Suc k) f \<Longrightarrow> f \<le> field_count s \<Longrightarrow> f < f' \<Longrightarrow> fuel_ok s k f'"
  by (auto simp: fuel_ok_def)

lemma fuel_ok_zero [simp]: "\<not> fuel_ok s 0 f"
  by (simp add: fuel_ok_def)

lemma fuel_ok_cong: "field_count s' = field_count s \<Longrightarrow> fuel_ok s' k f = fuel_ok s k f"
  by (simp add: fuel_ok_def)

lemma fuel_ok_op: "1 \<le> f \<Longrightarrow> fuel_ok s (op_fuel s) f"
  by (simp add: fuel_ok_def op_fuel_def)

definition rec2_ok ::
  "sylvan \<Rightarrow> bdd_model \<Rightarrow> (bool \<Rightarrow> bool \<Rightarrow> bool) \<Rightarrow> nat \<Rightarrow> rec2 \<Rightarrow> bool" where
  "rec2_ok S M conn k rec \<longleftrightarrow> (\<forall>E s a b. hinv S M E s \<longrightarrow> cinv M s \<longrightarrow> live E s a \<longrightarrow> live E s b
     \<longrightarrow> boolean s a \<longrightarrow> boolean s b \<longrightarrow> fuel_ok s k (min (fieldof s a) (fieldof s b))
     \<longrightarrow> (\<exists>r s'. rec a b s = Some (r, s')
          \<and> op_post S M E s (min (fieldof s a) (fieldof s b))
              (\<lambda>env. conn (holds M s env a) (holds M s env b)) r s'))"

definition rec1_ok :: "sylvan \<Rightarrow> bdd_model \<Rightarrow> nat \<Rightarrow> rec1 \<Rightarrow> bool" where
  "rec1_ok S M k rec \<longleftrightarrow> (\<forall>E s a. hinv S M E s \<longrightarrow> cinv M s \<longrightarrow> live E s a \<longrightarrow> boolean s a
     \<longrightarrow> fuel_ok s k (fieldof s a)
     \<longrightarrow> (\<exists>r s'. rec a s = Some (r, s') \<and> op_post S M E s (fieldof s a) (\<lambda>env. \<not> holds M s env a) r s'))"

lemma rec2_okD:
  assumes "rec2_ok S M conn k rec" "hinv S M E s" "cinv M s" "live E s a" "live E s b"
    "boolean s a" "boolean s b" "fuel_ok s k (min (fieldof s a) (fieldof s b))"
  obtains r s' where "rec a b s = Some (r, s')"
    "op_post S M E s (min (fieldof s a) (fieldof s b)) (\<lambda>env. conn (holds M s env a) (holds M s env b)) r s'"
  using assms unfolding rec2_ok_def by blast

lemma rec1_okD:
  assumes "rec1_ok S M k rec" "hinv S M E s" "cinv M s" "live E s a"
    "boolean s a" "fuel_ok s k (fieldof s a)"
  obtains r s' where "rec a s = Some (r, s')"
    "op_post S M E s (fieldof s a) (\<lambda>env. \<not> holds M s env a) r s'"
  using assms unfolding rec1_ok_def by blast

text \<open>A collection keeps what the caller holds and what the smaller set of holders holds.\<close>

lemma rec2_both:
  assumes rec: "rec2_ok S M conn k rec" and h: "hinv S M (E + K) s" and c: "cinv M s"
    and l: "live E s a" "live E s b" and b: "boolean s a" "boolean s b"
    and f: "fuel_ok s k (min (fieldof s a) (fieldof s b))"
  shows "\<exists>r s'. rec a b s = Some (r, s') \<and> keeps E s s'
     \<and> op_post S M (E + K) s (min (fieldof s a) (fieldof s b))
         (\<lambda>env. conn (holds M s env a) (holds M s env b)) r s'"
proof -
  have l': "live (E + K) s a" "live (E + K) s b" using l live_mono by (metis mset_subset_eq_add_left)+
  obtain r s' where r: "rec a b s = Some (r, s')"
    "op_post S M (E + K) s (min (fieldof s a) (fieldof s b)) (\<lambda>env. conn (holds M s env a) (holds M s env b)) r s'"
    by (rule rec2_okD[OF rec h c l' b f])
  obtain r2 s2 where r2: "rec a b s = Some (r2, s2)"
    "op_post S M E s (min (fieldof s a) (fieldof s b)) (\<lambda>env. conn (holds M s env a) (holds M s env b)) r2 s2"
    by (rule rec2_okD[OF rec hinv_drop_refs[OF h] c l b f])
  have "keeps E s s'" using r(1) r2 by (simp add: op_post_def)
  then show ?thesis using r by blast
qed

lemma rec1_both:
  assumes rec: "rec1_ok S M k rec" and h: "hinv S M (E + K) s" and c: "cinv M s"
    and l: "live E s a" and b: "boolean s a" and f: "fuel_ok s k (fieldof s a)"
  shows "\<exists>r s'. rec a s = Some (r, s') \<and> keeps E s s'
     \<and> op_post S M (E + K) s (fieldof s a) (\<lambda>env. \<not> holds M s env a) r s'"
proof -
  have l': "live (E + K) s a" using l live_mono by (metis mset_subset_eq_add_left)
  obtain r s' where r: "rec a s = Some (r, s')"
    "op_post S M (E + K) s (fieldof s a) (\<lambda>env. \<not> holds M s env a) r s'"
    by (rule rec1_okD[OF rec h c l' b f])
  obtain r2 s2 where r2: "rec a s = Some (r2, s2)"
    "op_post S M E s (fieldof s a) (\<lambda>env. \<not> holds M s env a) r2 s2"
    by (rule rec1_okD[OF rec hinv_drop_refs[OF h] c l b f])
  have "keeps E s s'" using r(1) r2 by (simp add: op_post_def)
  then show ?thesis using r by blast
qed

section \<open>Maps under construction\<close>

definition building ::
  "sylvan \<Rightarrow> bdd_model \<Rightarrow> mstate \<Rightarrow> nat \<Rightarrow> ptr list \<Rightarrow> mtpndd_edge \<Rightarrow> (assignment \<Rightarrow> bool)
   \<Rightarrow> (assignment \<Rightarrow> env \<Rightarrow> bool) \<Rightarrow> bool" where
  "building S M s f T m R G \<longleftrightarrow> map_wf S M s f m
     \<and> (\<forall>c\<in>dom (emap m). c \<in> set T \<and> boolean s c)
     \<and> (\<forall>c l v. emap m c = Some l \<longrightarrow> bdd_sem M l v \<longrightarrow> R v)
     \<and> (\<not> failed s \<longrightarrow>
          (\<forall>v env. (\<exists>c l. emap m c = Some l \<and> bdd_sem M l v \<and> holds M s env c) \<longleftrightarrow> G v env))"

text \<open>
  The state between two tasks: \<open>T\<close> is what the operation pushed on the temporary stack since it
  began in \<open>s0\<close>, where the stack was \<open>base\<close>.
\<close>

definition work ::
  "sylvan \<Rightarrow> bdd_model \<Rightarrow> ptr multiset \<Rightarrow> mstate \<Rightarrow> ptr list \<Rightarrow> mstate \<Rightarrow> bool" where
  "work S M E s0 T s \<longleftrightarrow> hinv S M (E + mset T) s \<and> cinv M s \<and> keeps E s0 s \<and> res_mono s0 s
     \<and> stack s = T @ stack s0"

lemma workD:
  assumes "work S M E s0 T s"
  shows "hinv S M (E + mset T) s" "cinv M s" "keeps E s0 s" "res_mono s0 s" "stack s = T @ stack s0"
    "sinv S M s" "hinv S M E s"
  using assms hinv_drop_refs by (auto simp: work_def hinv_def)

lemma held_live: "boolean s c \<Longrightarrow> c \<in># E \<Longrightarrow> live E s c"
  using boolean_holdable[of s c] by (auto simp: holdable_def intro: live.intros)

lemma building_keeps:
  assumes b: "building S M s f T m R G" and k: "keeps (E + mset T) s s'" and rm: "res_mono s s'"
  shows "building S M s' f T m R G"
proof -
  have l: "live (E + mset T) s c" if "c \<in> dom (emap m)" for c
    using b that by (intro held_live) (auto simp: building_def)
  note ag = keeps_agree[OF k]
  have ct: "content s' c = content s c" if "c \<in> dom (emap m)" for c using k l[OF that] by (simp add: keeps_def)
  have "map_wf S M s' f m" using b map_wf_cong[of m s' s] ct by (auto simp: building_def)
  moreover have "boolean s' c" if "c \<in> dom (emap m)" for c
    using b that agree_boolean[OF ag l[OF that]] by (simp add: building_def)
  moreover have "emap m c = Some x \<Longrightarrow> holds M s' env c \<longleftrightarrow> holds M s env c" for c x env
    using agree_holds[OF ag l[of c]] by blast
  then have "(\<exists>c x. emap m c = Some x \<and> bdd_sem M x v \<and> holds M s' env c)
     \<longleftrightarrow> (\<exists>c x. emap m c = Some x \<and> bdd_sem M x v \<and> holds M s env c)" for v env by blast
  ultimately show ?thesis using b res_mono_failed[OF rm] unfolding building_def by simp
qed

lemma building_cong:
  assumes "building S M s f T m R G" "\<And>v. R v \<Longrightarrow> R' v" "\<not> failed s \<Longrightarrow> G = G'" "set T \<subseteq> set T'"
  shows "building S M s f T' m R' G'"
  using assms unfolding building_def by blast

lemma work_step:
  assumes w: "work S M E s0 T s" and h: "hinv S M (E + mset T') s'" and c: "cinv M s'"
    and k: "keeps E s s'" and rm: "res_mono s s'" and st: "stack s' = T' @ stack s0"
  shows "work S M E s0 T' s'"
  using assms keeps_trans res_mono_trans unfolding work_def by blast

lemma work_touch:
  assumes w: "work S M E s0 T s" and t: "touch s s'" and h: "hinv S M (E + mset T') s'"
    and st: "stack s' = T' @ stack s0"
  shows "work S M E s0 T' s'"
proof (rule work_step[OF w h _ touch_keeps[OF t] _ st])
  show "cinv M s'" by (rule cinv_touch[OF workD(2,6)[OF w] t])
  show "res_mono s s'" using t by (simp add: touch_def)
qed

text \<open>A new edge whose label is outside the region covered so far.\<close>

context sylvan_laws
begin

lemma merged_sem:
  assumes lo: "labels_ok S M (emap m)" and l: "bdd_ok M l"
  shows "bdd_ok M (merged_label S m c l)"
    "bdd_sem M (merged_label S m c l) v \<longleftrightarrow> (\<exists>k. emap m c = Some k \<and> bdd_sem M k v) \<or> bdd_sem M l v"
proof -
  have "bdd_ok M k" if "emap m c = Some k" for k using lo that unfolding labels_ok_def by blast
  then show "bdd_ok M (merged_label S m c l)"
    "bdd_sem M (merged_label S m c l) v \<longleftrightarrow> (\<exists>k. emap m c = Some k \<and> bdd_sem M k v) \<or> bdd_sem M l v"
    using l by (auto simp: merged_label_def split: option.splits)
qed

lemma labels_extend:
  assumes lo: "labels_ok S M (emap m)" and l: "bdd_ok M l" "l \<noteq> sylvan_false S"
    and dis: "\<And>d k v. emap m d = Some k \<Longrightarrow> bdd_sem M k v \<Longrightarrow> \<not> bdd_sem M l v"
  shows "labels_ok S M ((emap m)(c \<mapsto> merged_label S m c l))"
proof -
  note ms = merged_sem[OF lo l(1), of c]
  obtain v where "bdd_sem M l v" using nonfalse_sat[OF l] by blast
  then have nf: "merged_label S m c l \<noteq> sylvan_false S" using ms(2)[of v] by force
  have ok: "bdd_ok M k \<and> k \<noteq> sylvan_false S" if "emap m d = Some k" for d k
    using lo that unfolding labels_ok_def by blast
  have d: "\<not> bdd_sem M k' v" if "emap m d = Some k" "emap m e = Some k'" "d \<noteq> e" "bdd_sem M k v" for d e k k' v
    using lo that unfolding labels_ok_def by blast
  have d1: "\<not> bdd_sem M k v" if "bdd_sem M (merged_label S m c l) v" "emap m e = Some k" "e \<noteq> c" for e k v
    using that ms(2)[of v] dis[of e k v] d[of c _ e k v] by blast
  show ?thesis unfolding labels_ok_def
  proof (intro conjI allI impI)
    fix x k assume "((emap m)(c \<mapsto> merged_label S m c l)) x = Some k"
    then show "bdd_ok M k" "k \<noteq> sylvan_false S" using ok ms(1) nf by (auto split: if_splits)
  next
    fix x k y k' v
    assume "((emap m)(c \<mapsto> merged_label S m c l)) x = Some k" "((emap m)(c \<mapsto> merged_label S m c l)) y = Some k'"
      "x \<noteq> y" "bdd_sem M k v"
    then show "\<not> bdd_sem M k' v" using d d1 by (auto split: if_splits)
  qed
qed

lemma building_extend:
  assumes b: "building S M s f T m R G" and wf: "wf_map s m'"
    and e: "emap m' = (if c = MTPNDD_FALSE then emap m else (emap m)(c \<mapsto> merged_label S m c l))"
    and c: "boolean s c" "f < fieldof s c" and l: "bdd_ok M l" "l \<noteq> sylvan_false S"
    and dis: "\<And>v. bdd_sem M l v \<Longrightarrow> \<not> R v" and si: "sinv S M s"
  shows "building S M s f (c # T) m' (\<lambda>v. R v \<or> bdd_sem M l v) (\<lambda>v env. G v env \<or> bdd_sem M l v \<and> holds M s env c)"
proof (cases "c = MTPNDD_FALSE")
  case True
  then have "emap m' = emap m" using e by simp
  then have "building S M s f T m' R G" using b wf by (simp add: building_def map_wf_def)
  then show ?thesis by (rule building_cong) (use True holds_false[OF si] in \<open>auto simp: fun_eq_iff\<close>)
next
  case False
  note B = b[unfolded building_def map_wf_def]
  let ?k = "merged_label S m c l"
  have lo: "labels_ok S M (emap m)" using B by blast
  have e': "emap m' = (emap m)(c \<mapsto> ?k)" using e False by simp
  note ms = merged_sem[OF lo l(1), of c]
  have "labels_ok S M (emap m')" unfolding e'
    by (rule labels_extend[OF lo l]) (use B dis in blast)
  moreover have "child_ok s f c"
    using False c si boolean_holdable[OF c(1)]
    by (auto simp: child_ok_def holdable_def sinv_def sentinels_ok_def internal_content content_Some)
  ultimately have "map_wf S M s f m'" using B wf e' by (simp add: map_wf_def)
  moreover have "\<forall>d\<in>dom (emap m'). d \<in> set (c # T) \<and> boolean s d" using B c(1) e' by auto
  moreover have "\<forall>d k v. emap m' d = Some k \<longrightarrow> bdd_sem M k v \<longrightarrow> R v \<or> bdd_sem M l v"
    using B ms(2) unfolding e' by (auto split: if_splits)
  moreover have "(\<exists>d k. emap m' d = Some k \<and> bdd_sem M k v \<and> holds M s env d)
     \<longleftrightarrow> (\<exists>d k. emap m d = Some k \<and> bdd_sem M k v \<and> holds M s env d) \<or> bdd_sem M l v \<and> holds M s env c" for v env
    unfolding e' using ms(2)[of v] by (auto split: if_splits)
  ultimately show ?thesis using B unfolding building_def by simp
qed

end

section \<open>One task\<close>

text \<open>
  What an item task owes: \<open>region\<close> is the set of assignments its label covers, \<open>meaning\<close> what its
  child denotes.
\<close>

definition item_post ::
  "sylvan \<Rightarrow> bdd_model \<Rightarrow> ptr multiset \<Rightarrow> ptr list \<Rightarrow> mstate \<Rightarrow> nat \<Rightarrow> (assignment \<Rightarrow> bool) \<Rightarrow> (env \<Rightarrow> bool)
   \<Rightarrow> op_item \<Rightarrow> mstate \<Rightarrow> bool" where
  "item_post S M E T s f region meaning it s' \<longleftrightarrow>
     hinv S M (E + mset T + (if it_emit it then {#it_child it#} else {#})) s' \<and> cinv M s' \<and> keeps E s s'
     \<and> keeps (E + mset T) s s' \<and> res_mono s s' \<and> stack s' = stack s
     \<and> (if it_emit it
        then it_status it = MTPNDD_SUCCESS \<and> boolean s' (it_child it) \<and> f < fieldof s' (it_child it)
             \<and> bdd_ok M (it_label it) \<and> it_label it \<noteq> sylvan_false S
             \<and> (\<forall>v. bdd_sem M (it_label it) v \<longleftrightarrow> region v)
             \<and> (\<not> failed s' \<longrightarrow> (\<forall>env. holds M s' env (it_child it) \<longleftrightarrow> meaning env))
        else \<not> failed s' \<longrightarrow> it_status it = MTPNDD_SUCCESS \<and> (\<forall>v. \<not> region v))"

lemma touch_agree: "touch s s' \<Longrightarrow> agree s s' (\<lambda>_. True)"
  by (simp add: touch_def agree_def)

lemma touch_failed: "touch s s' \<Longrightarrow> failed s \<Longrightarrow> failed s'"
  by (simp add: touch_def res_mono_def)

definition merged ::
  "sylvan \<Rightarrow> bdd_model \<Rightarrow> ptr multiset \<Rightarrow> mstate \<Rightarrow> nat \<Rightarrow> (assignment \<Rightarrow> bool) \<Rightarrow> (assignment \<Rightarrow> env \<Rightarrow> bool)
   \<Rightarrow> mstate \<Rightarrow> mtpndd_error \<times> mtpndd_edge \<times> mstate \<Rightarrow> bool" where
  "merged S M E s0 f R G s x \<longleftrightarrow> (case x of (st, m', s') \<Rightarrow>
     \<exists>T'. work S M E s0 T' s' \<and> touch s s' \<and> wf_map s' m'
       \<and> (if st = MTPNDD_SUCCESS then building S M s' f T' m' R G else failed s'))"

context sylvan_laws
begin

text \<open>Adding an edge to a child that is on the temporary stack.\<close>

lemma add_held_edge:
  assumes w: "work S M E s0 (c # T) s" and b: "building S M s f T m R G"
    and c: "boolean s c" "f < fieldof s c" and l: "bdd_ok M l" "l \<noteq> sylvan_false S"
    and dis: "\<And>v. bdd_sem M l v \<Longrightarrow> \<not> R v"
  shows "\<exists>st m' s'. mtpndd_add_edge S m c l s = Some (st, m', s') \<and> quiet s s'
     \<and> merged S M E s0 f (\<lambda>v. R v \<or> bdd_sem M l v) (\<lambda>v env. G v env \<or> bdd_sem M l v \<and> holds M s env c) s (st, m', s')"
proof -
  note h = workD(1)[OF w] and c0 = holdable_known[OF workD(1)[OF w] boolean_holdable[OF c(1)]]
  have wf: "wf_map s m" using b by (simp add: building_def map_wf_def)
  obtain st m' s' where a: "mtpndd_add_edge S m c l s = Some (st, m', s')"
    and p: "quiet s s'" "wf_map s' m'"
      "if st = MTPNDD_SUCCESS
       then emap m' = (if c = MTPNDD_FALSE then emap m else (emap m)(c \<mapsto> merged_label S m c l))
       else heap_ready s \<longrightarrow> failed s'"
    using add_edge_spec[OF wf _ _ hinv_lim[OF h], of c S l] c0 by (auto simp: succeeds_iff split: if_splits)
  note t = quiet_touch[OF p(1)]
  have w': "work S M E s0 (c # T) s'"
    by (rule work_touch[OF w t]) (use hinv_quiet[OF h p(1)] quiet_fields(15)[OF p(1)] workD(5)[OF w] in auto)
  note ag = touch_agree[OF t]
  have "building S M s' f (c # T) m' (\<lambda>v. R v \<or> bdd_sem M l v)
      (\<lambda>v env. G v env \<or> bdd_sem M l v \<and> holds M s env c)" if st: "st = MTPNDD_SUCCESS"
  proof -
    have "building S M s' f T m R G"
      by (rule building_keeps[OF b touch_keeps[OF t, of "E + mset T"]]) (use t in \<open>simp add: touch_def\<close>)
    moreover have "emap m' = (if c = MTPNDD_FALSE then emap m else (emap m)(c \<mapsto> merged_label S m c l))"
      using p(3) st by simp
    moreover have "boolean s' c" "f < fieldof s' c"
      using c agree_boolean[OF ag, of c] agree_field[OF ag, of c] by auto
    ultimately show ?thesis
      using building_extend[OF _ p(2) _ _ _ l dis workD(6)[OF w'], where c = c]
        agree_holds[OF ag, where p = c] by simp
  qed
  then show ?thesis using a p w' t cinv_heap_ready[OF workD(2)[OF w] h]
    unfolding merged_def by (auto split: if_splits)
qed

text \<open>
  The push of the child fails: the reference and the label are given back and the edge map stays as
  it is.
\<close>
lemma merge_push_failed:
  assumes w: "work S M E s0 T s1" and b: "building S M s1 f T m R G" and hr: "heap_ready s1"
    and h: "hinv S M (add_mset c (E + mset T)) s1" and po: "mtpndd_temp_refs_push_owned c s1 = (False, s2)"
  shows "\<exists>s3. mtpndd_deref c (sylvan_deref l s2) = Some (MTPNDD_SUCCESS, s3)
     \<and> merged S M E s0 f R' G' s1 (MTPNDD_ERROR_OUT_OF_MEMORY, m, s3)"
proof -
  note ps = push_owned_spec[OF h po]
  have f2: "failed s2" using ps hr by blast
  note q = quiet_log(2)[where s = s2 and l = l]
  have "hinv S M (add_mset c (E + mset T)) (sylvan_deref l s2)" using hinv_quiet[OF _ q] ps by blast
  then obtain s3 where s3: "mtpndd_deref c (sylvan_deref l s2) = Some (MTPNDD_SUCCESS, s3)"
    "touch (sylvan_deref l s2) s3" "hinv S M (E + mset T) s3"
    "temp_refs_pool s3 = temp_refs_pool (sylvan_deref l s2)" using deref_spec by blast
  have t3: "touch s2 s3" by (rule touch_trans[OF quiet_touch[OF q] s3(2)])
  have t: "touch s1 s3" by (rule touch_trans[OF _ t3]) (use ps in blast)
  have "stack s3 = T @ stack s0" using s3(4) ps workD(5)[OF w] quiet_fields(15)[OF q] by simp
  then have "work S M E s0 T s3" by (rule work_touch[OF w t s3(3)])
  moreover have "wf_map s3 m" using building_keeps[OF b touch_keeps[OF t, of "E + mset T"]] t
    by (simp add: touch_def building_def map_wf_def)
  ultimately show ?thesis using s3(1) t touch_failed[OF t3 f2] by (auto simp: merged_def)
qed

text \<open>The child is on the temporary stack: its edge is added, or the label is given back.\<close>
lemma merge_pushed:
  assumes w: "work S M E s0 T s1" and b: "building S M s1 f T m R G"
    and h: "hinv S M (add_mset c (E + mset T)) s1" and po: "mtpndd_temp_refs_push_owned c s1 = (True, s2)"
    and c: "boolean s1 c" "f < fieldof s1 c" "bdd_ok M l" "l \<noteq> sylvan_false S"
    and lr: "\<And>v. bdd_sem M l v \<longleftrightarrow> region v" and dis: "\<And>v. region v \<Longrightarrow> \<not> R v"
    and mean: "\<And>env. \<not> failed s1 \<Longrightarrow> holds M s1 env c \<longleftrightarrow> meaning env"
  shows "\<exists>st m' s3. mtpndd_add_edge S m c l s2 = Some (st, m', s3)
     \<and> merged S M E s0 f (\<lambda>v. R v \<or> region v) (\<lambda>v env. G v env \<or> region v \<and> meaning env) s1
         (st, m', if st = MTPNDD_SUCCESS then s3 else sylvan_deref l s3)"
proof -
  note ps = push_owned_spec[OF h po]
  have t2: "touch s1 s2" using ps by blast
  have "c \<noteq> NULL" using holdable_known[OF h boolean_holdable[OF c(1)]] by simp
  then have "stack s2 = c # T @ stack s0" using ps workD(5)[OF w] by simp
  then have w2: "work S M E s0 (c # T) s2"
    by (intro work_touch[OF w t2]) (use ps in \<open>simp_all add: ac_simps\<close>)
  have b2: "building S M s2 f T m R G"
    by (rule building_keeps[OF b touch_keeps[OF t2, of "E + mset T"]]) (use t2 in \<open>simp add: touch_def\<close>)
  note ag = touch_agree[OF t2]
  have c2: "boolean s2 c" "f < fieldof s2 c"
    using c agree_boolean[OF ag, of c] agree_field[OF ag, of c] by auto
  obtain st m' s3 where a: "mtpndd_add_edge S m c l s2 = Some (st, m', s3)" "quiet s2 s3"
    "merged S M E s0 f (\<lambda>v. R v \<or> region v) (\<lambda>v env. G v env \<or> region v \<and> holds M s2 env c) s2 (st, m', s3)"
    using add_held_edge[OF w2 b2 c2 c(3,4)] dis lr by auto
  then obtain T' where T': "work S M E s0 T' s3" "wf_map s3 m'"
    "if st = MTPNDD_SUCCESS then building S M s3 f T' m' (\<lambda>v. R v \<or> region v) (\<lambda>v env. G v env \<or> region v \<and> holds M s2 env c)
     else failed s3" unfolding merged_def by auto
  note t3 = touch_trans[OF t2 quiet_touch[OF a(2)]]
  show ?thesis
  proof (cases "st = MTPNDD_SUCCESS")
    case True
    have mean3: "holds M s2 env c \<longleftrightarrow> meaning env" if "\<not> failed s3" for env
      using that mean agree_holds[OF ag, where p = c] touch_failed[OF t3] by auto
    have "building S M s3 f T' m' (\<lambda>v. R v \<or> region v) (\<lambda>v env. G v env \<or> region v \<and> meaning env)"
      by (rule building_cong[of S M s3 f T' m' "\<lambda>v. R v \<or> region v" "\<lambda>v env. G v env \<or> region v \<and> holds M s2 env c"])
        (use T' True mean3 in \<open>auto simp: fun_eq_iff\<close>)
    then show ?thesis using a(1) True T' t3 by (auto simp: merged_def)
  next
    case False
    note q = quiet_log(2)[where s = s3 and l = l]
    have "work S M E s0 T' (sylvan_deref l s3)"
      by (rule work_touch[OF T'(1) quiet_touch[OF q]])
        (use hinv_quiet[OF workD(1)[OF T'(1)] q] workD(5)[OF T'(1)] quiet_fields(15)[OF q] in auto)
    then show ?thesis
      using a(1) False T' wf_map_quiet[OF q] touch_failed[OF quiet_touch[OF q]] touch_trans[OF t3 quiet_touch[OF q]]
      by (auto simp: merged_def)
  qed
qed

lemma merge_step:
  assumes w: "work S M E s0 T s" and b: "building S M s f T m R G"
    and ip: "item_post S M E T s f region meaning it s1" and dis: "\<And>v. region v \<Longrightarrow> \<not> R v"
  shows "\<exists>st m' s'. mtpndd_and_merge_item S m it s1 = Some (st, m', s')
     \<and> merged S M E s0 f (\<lambda>v. R v \<or> region v) (\<lambda>v env. G v env \<or> region v \<and> meaning env) s1 (st, m', s')"
proof -
  note I = ip[unfolded item_post_def]
  have b1: "building S M s1 f T m R G" by (rule building_keeps[OF b, of E]) (use I in auto)
  have wf1: "wf_map s1 m" using b1 by (simp add: building_def map_wf_def)
  show ?thesis
  proof (cases "it_emit it")
    case False
    have w1: "work S M E s0 T s1" by (rule work_step[OF w]) (use I False workD(5)[OF w] in auto)
    have "building S M s1 f T m (\<lambda>v. R v \<or> region v) (\<lambda>v env. G v env \<or> region v \<and> meaning env)"
      by (rule building_cong[OF b1]) (use I False in \<open>auto simp: fun_eq_iff\<close>)
    then show ?thesis using w1 wf1 I False
      by (auto simp: mtpndd_and_merge_item_def merged_def split: if_splits)
  next
    case True
    let ?c = "it_child it" and ?l = "it_label it"
    have h1: "hinv S M (add_mset ?c (E + mset T)) s1" using I True by simp
    have c: "boolean s1 ?c" "f < fieldof s1 ?c" "bdd_ok M ?l" "?l \<noteq> sylvan_false S" "it_status it = MTPNDD_SUCCESS"
      using I True by auto
    have c0: "?c \<noteq> NULL" using holdable_known[OF h1 boolean_holdable[OF c(1)]] by simp
    have st1: "stack s1 = T @ stack s0" using I workD(5)[OF w] by simp
    have w1: "work S M E s0 T s1" by (rule work_step[OF w]) (use I st1 hinv_drop_refs[of S M "E + mset T" "{#?c#}"] h1 in auto)
    obtain ok s2 where po: "mtpndd_temp_refs_push_owned ?c s1 = (ok, s2)" by fastforce
    show ?thesis
    proof (cases ok)
      case False
      have "heap_ready s1" using cinv_heap_ready[OF _ h1] I by blast
      from merge_push_failed[OF w1 b1 this h1, where l = ?l] show ?thesis
        using True c c0 po False by (force simp: mtpndd_and_merge_item_def)
    next
      case ok: True
      have "\<And>v. bdd_sem M ?l v \<longleftrightarrow> region v" "\<And>env. \<not> failed s1 \<Longrightarrow> holds M s1 env ?c \<longleftrightarrow> meaning env"
        using I True by auto
      from merge_pushed[OF w1 b1 h1 _ c(1-4) this(1) dis this(2)] show ?thesis
        using True c c0 po ok by (auto simp: mtpndd_and_merge_item_def)
    qed
  qed
qed

end

end
