(* ===== verification/Task_Loop.thy ===== *)
theory Task_Loop
  imports Bool_Build
begin

text \<open>
  The task loop of the Boolean operations.  Whatever the order in which tasks are called,
  spawned, drained and synchronised, every task runs once; when no status is an error, the map
  under construction denotes the union of the tasks' contributions.  \<open>X D x s\<close> is the invariant
  of the data the tasks share, \<open>D\<close> the set of finished tasks.
\<close>

definition task_inv ::
  "sylvan \<Rightarrow> bdd_model \<Rightarrow> ptr multiset \<Rightarrow> mstate \<Rightarrow> nat \<Rightarrow> ('t \<Rightarrow> assignment \<Rightarrow> bool) \<Rightarrow> ('t \<Rightarrow> env \<Rightarrow> bool)
   \<Rightarrow> ('t set \<Rightarrow> 'x \<Rightarrow> mstate \<Rightarrow> bool) \<Rightarrow> 't set \<Rightarrow> ptr list \<Rightarrow> mtpndd_edge \<Rightarrow> 'x \<Rightarrow> mstate \<Rightarrow> bool" where
  "task_inv S M E s0 f region meaning X D T m x s \<longleftrightarrow> work S M E s0 T s
     \<and> building S M s f T m (\<lambda>v. \<exists>t\<in>D. region t v) (\<lambda>v env. \<exists>t\<in>D. region t v \<and> meaning t env) \<and> X D x s"

definition items_ok ::
  "sylvan \<Rightarrow> bdd_model \<Rightarrow> ptr multiset \<Rightarrow> mstate \<Rightarrow> nat \<Rightarrow> ('t \<Rightarrow> assignment \<Rightarrow> bool) \<Rightarrow> ('t \<Rightarrow> env \<Rightarrow> bool)
   \<Rightarrow> ('t set \<Rightarrow> 'x \<Rightarrow> mstate \<Rightarrow> bool) \<Rightarrow> 't set \<Rightarrow> ('t \<Rightarrow> 'x \<Rightarrow> mstate \<Rightarrow> 'x item_result) \<Rightarrow> bool" where
  "items_ok S M E s0 f region meaning X all item \<longleftrightarrow>
     (\<forall>t\<in>all. \<forall>D T x s. D \<subseteq> all \<longrightarrow> t \<notin> D \<longrightarrow> work S M E s0 T s \<longrightarrow> X D x s \<longrightarrow>
        (\<exists>it x' s'. item t x s = Some (it, x', s')
           \<and> item_post S M E T s f (region t) (meaning t) it s' \<and> X (insert t D) x' s'))
     \<and> (\<forall>D x s s'. X D x s \<longrightarrow> touch s s' \<longrightarrow> X D x s')
     \<and> (\<forall>t\<in>all. \<forall>u\<in>all. t \<noteq> u \<longrightarrow> (\<forall>v. region t v \<longrightarrow> \<not> region u v))"

definition outcome ::
  "sylvan \<Rightarrow> bdd_model \<Rightarrow> ptr multiset \<Rightarrow> mstate \<Rightarrow> nat \<Rightarrow> ('t \<Rightarrow> assignment \<Rightarrow> bool) \<Rightarrow> ('t \<Rightarrow> env \<Rightarrow> bool)
   \<Rightarrow> ('t set \<Rightarrow> 'x \<Rightarrow> mstate \<Rightarrow> bool) \<Rightarrow> 't set \<Rightarrow> mtpndd_error \<Rightarrow> mtpndd_edge \<Rightarrow> 'x \<Rightarrow> mstate \<Rightarrow> bool" where
  "outcome S M E s0 f region meaning X D st m x s \<longleftrightarrow>
     (if st = MTPNDD_SUCCESS then \<exists>T. task_inv S M E s0 f region meaning X D T m x s
      else failed s \<and> (\<exists>T D'. work S M E s0 T s \<and> wf_map s m \<and> X D' x s))"

lemma items_ok_run:
  assumes ok: "items_ok S M E s0 f region meaning X all item" and t: "t \<in> all" "t \<notin> D" "D \<subseteq> all"
    and w: "work S M E s0 T s" and x: "X D x s"
  shows "\<exists>it x' s'. item t x s = Some (it, x', s')
     \<and> item_post S M E T s f (region t) (meaning t) it s' \<and> X (insert t D) x' s'"
  by (rule conjunct1[OF ok[unfolded items_ok_def], THEN bspec, OF t(1), THEN spec, THEN spec, THEN spec, THEN spec,
        THEN mp, OF t(3), THEN mp, OF t(2), THEN mp, OF w, THEN mp, OF x])

lemma items_ok_touch:
  assumes "items_ok S M E s0 f region meaning X all item" "X D x s" "touch s s'" shows "X D x s'"
  using assms(1)[unfolded items_ok_def, THEN conjunct2, THEN conjunct1] assms(2,3) by simp

lemma items_ok_disjoint:
  assumes "items_ok S M E s0 f region meaning X all item" "t \<in> all" "u \<in> all" "t \<noteq> u" "region t v"
  shows "\<not> region u v"
  using assms(1)[unfolded items_ok_def, THEN conjunct2, THEN conjunct2] assms(2-) by simp

context sylvan_laws
begin

lemma one_task:
  assumes ok: "items_ok S M E s0 f region meaning X all item" and t: "t \<in> all" "t \<notin> D" "D \<subseteq> all"
    and inv: "task_inv S M E s0 f region meaning X D T m x s"
  shows "\<exists>it x' s1 st m' s'. item t x s = Some (it, x', s1) \<and> mtpndd_and_merge_item S m it s1 = Some (st, m', s')
     \<and> outcome S M E s0 f region meaning X (insert t D) st m' x' s'"
proof -
  have w: "work S M E s0 T s" and x: "X D x s"
    and b: "building S M s f T m (\<lambda>v. \<exists>t\<in>D. region t v) (\<lambda>v env. \<exists>t\<in>D. region t v \<and> meaning t env)"
    using inv by (auto simp: task_inv_def)
  obtain it x' s1 where it: "item t x s = Some (it, x', s1)" "X (insert t D) x' s1"
    and ip: "item_post S M E T s f (region t) (meaning t) it s1"
    using items_ok_run[where item = item and X = X, OF ok t w x] by (elim exE conjE)
  have "\<not> (\<exists>u\<in>D. region u v)" if rt: "region t v" for v
    using items_ok_disjoint[OF ok t(1) _ _ rt] t by (metis subsetD)
  from merge_step[OF w b ip this] obtain st m' s' where r: "mtpndd_and_merge_item S m it s1 = Some (st, m', s')"
    "merged S M E s0 f (\<lambda>v. (\<exists>t\<in>D. region t v) \<or> region t v)
       (\<lambda>v env. (\<exists>t\<in>D. region t v \<and> meaning t env) \<or> region t v \<and> meaning t env) s1 (st, m', s')" by blast
  have eq: "(\<lambda>v. (\<exists>t\<in>D. region t v) \<or> region t v) = (\<lambda>v. \<exists>t\<in>insert t D. region t v)"
    "(\<lambda>v env. (\<exists>t\<in>D. region t v \<and> meaning t env) \<or> region t v \<and> meaning t env)
     = (\<lambda>v env. \<exists>t\<in>insert t D. region t v \<and> meaning t env)" by (auto simp: fun_eq_iff)
  obtain T' where T': "work S M E s0 T' s'" "touch s1 s'" "wf_map s' m'"
    "if st = MTPNDD_SUCCESS then building S M s' f T' m' (\<lambda>v. \<exists>t\<in>insert t D. region t v)
        (\<lambda>v env. \<exists>t\<in>insert t D. region t v \<and> meaning t env) else failed s'"
    using r(2) unfolding merged_def eq by auto
  have "X (insert t D) x' s'" by (rule items_ok_touch[where X = X, OF ok it(2) T'(2)])
  then have "outcome S M E s0 f region meaning X (insert t D) st m' x' s'"
    using T' unfolding outcome_def task_inv_def by (simp split: if_splits) blast+
  then show ?thesis using it(1) r(1) by blast
qed

lemma outcomeD:
  "outcome S M E s0 f region meaning X D MTPNDD_SUCCESS m x s \<Longrightarrow> \<exists>T. task_inv S M E s0 f region meaning X D T m x s"
  by (simp add: outcome_def)

lemma drain_spec:
  assumes ok: "items_ok S M E s0 f region meaning X all item" and alive: "\<forall>T s. work S M E s0 T s \<longrightarrow> alive s"
    and "distinct pending" "set pending \<subseteq> all" "set pending \<inter> D = {}" "D \<subseteq> all"
    and "task_inv S M E s0 f region meaning X D T m x s"
  shows "\<exists>st p' m' x' s'. drain_items alive (mtpndd_and_merge_item S) item n pending m x s = Some (st, p', m', x', s')
     \<and> outcome S M E s0 f region meaning X (D \<union> set (take n pending)) st m' x' s'
     \<and> (st = MTPNDD_SUCCESS \<longrightarrow> p' = drop n pending)"
  using assms(3-)
proof (induction n arbitrary: pending D T m x s)
  case 0
  then show ?case by (auto simp: outcome_def)
next
  case (Suc n)
  show ?case
  proof (cases pending)
    case Nil
    then show ?thesis using Suc.prems(5) by (auto simp: outcome_def)
  next
    case (Cons t ps)
    have t: "t \<in> all" "t \<notin> D" using Suc.prems Cons by auto
    obtain it x' s1 st m' s' where r: "item t x s = Some (it, x', s1)"
      "mtpndd_and_merge_item S m it s1 = Some (st, m', s')"
      "outcome S M E s0 f region meaning X (insert t D) st m' x' s'"
      using one_task[OF ok t Suc.prems(4,5)] by blast
    have al: "alive s" using alive Suc.prems(5) unfolding task_inv_def by blast
    show ?thesis
    proof (cases "st = MTPNDD_SUCCESS")
      case True
      obtain T' where "task_inv S M E s0 f region meaning X (insert t D) T' m' x' s'" using outcomeD[OF r(3)[unfolded True]] by (elim exE)
      from Suc.IH[where pending = ps, OF _ _ _ _ this] obtain st2 p2 m2 x2 s2 where
        "drain_items alive (mtpndd_and_merge_item S) item n ps m' x' s' = Some (st2, p2, m2, x2, s2)"
        "outcome S M E s0 f region meaning X (insert t D \<union> set (take n ps)) st2 m2 x2 s2"
        "st2 = MTPNDD_SUCCESS \<longrightarrow> p2 = drop n ps" using Suc.prems Cons by auto
      then show ?thesis using Cons r True al by simp
    next
      case False
      then show ?thesis using Cons r al by (simp add: outcome_def)
    qed
  qed
qed

text \<open>
  One round of the loop has two halves: the item is spawned or computed and merged at once, and a
  long list of pending items is then flushed in part.
\<close>
lemma run_or_spawn:
  assumes ok: "items_ok S M E s0 f region meaning X all item"
    and t: "t \<in> all" "t \<notin> D" and D: "D \<subseteq> all" and inv: "task_inv S M E s0 f region meaning X D T m x s"
  shows "\<exists>st' m' x' s'. (if sp then Some (MTPNDD_SUCCESS, t # pending, m, x, s)
        else do { (it, x, s) \<leftarrow> item t x s; (status, m, s) \<leftarrow> mtpndd_and_merge_item S m it s;
                  Some (status, pending, m, x, s) })
      = Some (st', if sp then t # pending else pending, m', x', s')
      \<and> outcome S M E s0 f region meaning X (if sp then D else insert t D) st' m' x' s'"
proof (cases sp)
  case True
  then show ?thesis using inv by (auto simp: outcome_def)
next
  case False
  then show ?thesis using one_task[OF ok t D inv] by auto
qed

definition flushed :: "'t list \<Rightarrow> nat" where
  "flushed p = (if MTPNDD_AND_PENDING_FLUSH_THRESHOLD \<le> length p then flush_count (length p) else 0)"

lemma flush_step:
  assumes ok: "items_ok S M E s0 f region meaning X all item" and alive: "\<forall>T s. work S M E s0 T s \<longrightarrow> alive s"
    and p: "distinct p" "set p \<subseteq> all" "set p \<inter> D = {}" "D \<subseteq> all"
    and inv: "task_inv S M E s0 f region meaning X D T m x s"
  shows "\<exists>st' p' m' x' s'. (if MTPNDD_AND_PENDING_FLUSH_THRESHOLD \<le> length p
          then drain_items alive (mtpndd_and_merge_item S) item (flush_count (length p)) p m x s
          else Some (MTPNDD_SUCCESS, p, m, x, s)) = Some (st', p', m', x', s')
      \<and> outcome S M E s0 f region meaning X (D \<union> set (take (flushed p) p)) st' m' x' s'
      \<and> (st' = MTPNDD_SUCCESS \<longrightarrow> p' = drop (flushed p) p)"
proof (cases "MTPNDD_AND_PENDING_FLUSH_THRESHOLD \<le> length p")
  case True
  from drain_spec[OF ok alive p inv, where n = "flush_count (length p)"] show ?thesis
    using True by (auto simp: flushed_def)
next
  case False
  then show ?thesis using inv by (auto simp: flushed_def outcome_def)
qed

lemma for_items_spec:
  assumes ok: "items_ok S M E s0 f region meaning X all item" and alive: "\<forall>T s. work S M E s0 T s \<longrightarrow> alive s"
    and spawn: "\<forall>T s t. work S M E s0 T s \<longrightarrow> t \<in> all \<longrightarrow> (\<exists>b. spawn s t = Some b)"
    and "distinct (pending @ ts)" "set (pending @ ts) \<subseteq> all" "set (pending @ ts) \<inter> D = {}" "D \<subseteq> all"
    and "task_inv S M E s0 f region meaning X D T m x s"
  shows "\<exists>st p' m' x' s' D'. for_items alive spawn (mtpndd_and_merge_item S) item ts pending m x s = Some (st, p', m', x', s')
     \<and> outcome S M E s0 f region meaning X D' st m' x' s'
     \<and> (st = MTPNDD_SUCCESS \<longrightarrow> D' \<union> set p' = D \<union> set (pending @ ts) \<and> D' \<inter> set p' = {} \<and> distinct p')"
  using assms(4-)
proof (induction ts arbitrary: pending D T m x s)
  case Nil
  then show ?case by (auto simp: outcome_def)
next
  case (Cons t ts)
  have w: "work S M E s0 T s" using Cons.prems(5) by (simp add: task_inv_def)
  then have al: "alive s" using alive by blast
  obtain sp where sp: "spawn s t = Some sp" using spawn w Cons.prems(2) by fastforce
  define D1 where "D1 = (if sp then D else insert t D)"
  define p1 where "p1 = (if sp then t # pending else pending)"
  have "t \<in> all" "t \<notin> D" using Cons.prems by auto
  from run_or_spawn[OF ok this Cons.prems(4,5), of sp pending] obtain st1 m1 x1 s1 where
    s1: "(if sp then Some (MTPNDD_SUCCESS, t # pending, m, x, s)
        else do { (it, x, s) \<leftarrow> item t x s; (status, m, s) \<leftarrow> mtpndd_and_merge_item S m it s;
                  Some (status, pending, m, x, s) }) = Some (st1, p1, m1, x1, s1)"
    "outcome S M E s0 f region meaning X D1 st1 m1 x1 s1"
    unfolding D1_def p1_def by (elim exE conjE)
  show ?case
  proof (cases "st1 = MTPNDD_SUCCESS")
    case False
    then show ?thesis using s1 sp al by (auto simp: outcome_def)
  next
    case True
    obtain T1 where T1: "task_inv S M E s0 f region meaning X D1 T1 m1 x1 s1" using outcomeD[OF s1(2)[unfolded True]] by (elim exE)
    have part: "distinct (p1 @ ts)" "set (p1 @ ts) \<subseteq> all" "set (p1 @ ts) \<inter> D1 = {}" "D1 \<subseteq> all"
      "D1 \<union> set (p1 @ ts) = D \<union> set (pending @ t # ts)"
      using Cons.prems by (auto simp: D1_def p1_def)
    define n where "n = flushed p1"
    have "distinct p1" "set p1 \<subseteq> all" "set p1 \<inter> D1 = {}" using part(1-3) by auto
    from flush_step[OF ok alive this part(4) T1] obtain st2 p2 m2 x2 s2 where
      s2: "(if MTPNDD_AND_PENDING_FLUSH_THRESHOLD \<le> length p1
          then drain_items alive (mtpndd_and_merge_item S) item (flush_count (length p1)) p1 m1 x1 s1
          else Some (MTPNDD_SUCCESS, p1, m1, x1, s1)) = Some (st2, p2, m2, x2, s2)"
      "outcome S M E s0 f region meaning X (D1 \<union> set (take n p1)) st2 m2 x2 s2"
      "st2 = MTPNDD_SUCCESS \<longrightarrow> p2 = drop n p1"
      unfolding n_def by (elim exE conjE)
    have run: "for_items alive spawn (mtpndd_and_merge_item S) item (t # ts) pending m x s =
        (if st2 \<noteq> MTPNDD_SUCCESS then Some (st2, p2, m2, x2, s2)
         else for_items alive spawn (mtpndd_and_merge_item S) item ts p2 m2 x2 s2)"
      using s1(1) s2(1) sp al True by simp
    show ?thesis
    proof (cases "st2 = MTPNDD_SUCCESS")
      case False
      then show ?thesis using run s2(2) by (auto simp: outcome_def)
    next
      case ok2: True
      obtain T2 where T2: "task_inv S M E s0 f region meaning X (D1 \<union> set (take n p1)) T2 m2 x2 s2"
        using outcomeD[OF s2(2)[unfolded ok2]] by (elim exE)
      have p2: "p2 = drop n p1" using s2(3) ok2 by simp
      have sp1: "set p1 = set (take n p1) \<union> set p2" unfolding p2 by (metis append_take_drop_id set_append)
      have dp: "distinct (p2 @ ts)" "set (take n p1) \<inter> set (p2 @ ts) = {}"
        using part(1) set_take_disj_set_drop_if_distinct[of p1 n n] unfolding p2
        by (auto dest: in_set_takeD in_set_dropD)
      have "set (p2 @ ts) \<subseteq> all" "set (p2 @ ts) \<inter> (D1 \<union> set (take n p1)) = {}" "D1 \<union> set (take n p1) \<subseteq> all"
        using part(2-4) sp1 dp(2) by auto
      from Cons.IH[OF dp(1) this T2] obtain st3 p3 m3 x3 s3 D3 where
        "for_items alive spawn (mtpndd_and_merge_item S) item ts p2 m2 x2 s2 = Some (st3, p3, m3, x3, s3)"
        "outcome S M E s0 f region meaning X D3 st3 m3 x3 s3"
        "st3 = MTPNDD_SUCCESS \<longrightarrow> D3 \<union> set p3 = D1 \<union> set (take n p1) \<union> set (p2 @ ts) \<and> D3 \<inter> set p3 = {} \<and> distinct p3"
        by (elim exE conjE)
      moreover have "D1 \<union> set (take n p1) \<union> set (p2 @ ts) = D \<union> set (pending @ t # ts)"
        using part(5) sp1 by auto
      ultimately show ?thesis unfolding run using ok2 by (intro exI conjI) auto
    qed
  qed
qed

text \<open>The whole loop with the final drain.\<close>

lemma run_items_spec:
  assumes ok: "items_ok S M E s0 f region meaning X (set ts) item" and alive: "\<forall>T s. work S M E s0 T s \<longrightarrow> alive s"
    and spawn: "\<forall>T s t. work S M E s0 T s \<longrightarrow> t \<in> set ts \<longrightarrow> (\<exists>b. spawn s t = Some b)"
    and d: "distinct ts" and inv: "task_inv S M E s0 f region meaning X {} T m x s"
  shows "\<exists>st m' x' s'. run_items alive spawn (mtpndd_and_merge_item S) item ts m x s = Some (st, m', x', s')
     \<and> outcome S M E s0 f region meaning X (set ts) st m' x' s'"
proof -
  obtain st1 p1 m1 x1 s1 D1 where s1: "for_items alive spawn (mtpndd_and_merge_item S) item ts [] m x s = Some (st1, p1, m1, x1, s1)"
    "outcome S M E s0 f region meaning X D1 st1 m1 x1 s1"
    "st1 = MTPNDD_SUCCESS \<longrightarrow> D1 \<union> set p1 = {} \<union> set ([] @ ts) \<and> D1 \<inter> set p1 = {} \<and> distinct p1"
    using for_items_spec[where pending = "[]" and ts = ts and D = "{}", OF ok alive spawn _ _ _ _ inv] d by (simp) blast
  show ?thesis
  proof (cases "st1 = MTPNDD_SUCCESS")
    case False
    then show ?thesis using s1 by (simp add: run_items_def outcome_def)
  next
    case True
    obtain T1 where T1: "task_inv S M E s0 f region meaning X D1 T1 m1 x1 s1" using outcomeD[OF s1(2)[unfolded True]] by (elim exE)
    have p1: "distinct p1" "set p1 \<subseteq> set ts" "set p1 \<inter> D1 = {}" "D1 \<subseteq> set ts" "D1 \<union> set p1 = set ts"
      using s1(3) True by auto
    obtain st2 p2 m2 x2 s2 where
      "drain_items alive (mtpndd_and_merge_item S) item (length p1) p1 m1 x1 s1 = Some (st2, p2, m2, x2, s2)"
      "outcome S M E s0 f region meaning X (D1 \<union> set p1) st2 m2 x2 s2"
      using drain_spec[OF ok alive p1(1-4) T1, where n = "length p1"] by auto
    then show ?thesis using s1(1) True p1(5) by (simp add: run_items_def)
  qed
qed

end

end
