(* ===== verification/Op_Close.thy ===== *)
theory Op_Close
  imports Task_Loop
begin

text \<open>
  The common ends of the Boolean operations: the node is made from the map under construction,
  the temporary references are released and the result goes into the cache, or everything is
  given back and the result is \<open>NULL\<close>; and the common part of the item tasks, the recursive
  call with the reference to its result.
\<close>

section \<open>Failure\<close>

lemma quiet_work:
  assumes w: "work S M E s0 T s" and q: "quiet s s'" shows "work S M E s0 T s'"
  by (rule work_touch[OF w quiet_touch[OF q]])
    (use hinv_quiet[OF workD(1)[OF w] q] workD(5)[OF w] quiet_fields(15)[OF q] in auto)

lemma release_work:
  assumes w: "work S M E s0 T s"
  shows "\<exists>s'. mtpndd_temp_refs_release (length (stack s0)) s = Some s' \<and> touch s s' \<and> work S M E s0 [] s'"
proof -
  obtain s' where s': "mtpndd_temp_refs_release (length (stack s0)) s = Some s'" "touch s s'" "hinv S M E s'"
    "stack s' = stack s0" using temp_refs_release_spec[OF workD(1,5)[OF w]] by blast
  have "work S M E s0 [] s'" by (rule work_touch[OF w s'(2)]) (use s' in auto)
  then show ?thesis using s' by blast
qed

lemma op_post_null:
  assumes "work S M E s0 [] s" "failed s" shows "op_post S M E s0 lo H NULL s"
  using workD[OF assms(1)] assms(2) by (simp add: op_post_def)

lemma free_work:
  assumes w: "work S M E s0 T s" and m: "wf_map s m"
  shows "\<exists>s'. mtpndd_edge_map_free m s = Some s' \<and> quiet s s' \<and> work S M E s0 T s'"
  using edge_map_free_spec[OF m, of s] quiet_work[OF w] by (auto simp: succeeds_iff)

lemma give_up_spec:
  assumes w: "work S M E s0 T s" and m: "wf_map s m" and f: "failed s"
  shows "\<exists>s'. give_up (length (stack s0)) m s = Some (NULL, s') \<and> op_post S M E s0 lo H NULL s'"
proof -
  obtain s1 where s1: "mtpndd_temp_refs_release (length (stack s0)) s = Some s1" "touch s s1" "work S M E s0 [] s1"
    using release_work[OF w] by blast
  have "content s1 = content s" using s1(2) by (simp add: touch_def)
  then have "wf_map s1 m" using m wf_map_cong[of m s1 s] hash_content_cong[of s1 _ s] by simp
  then obtain s2 where "mtpndd_edge_map_free m s1 = Some s2" "quiet s1 s2" "work S M E s0 [] s2"
    using free_work[OF s1(3)] by blast
  moreover have "failed s2" using touch_failed[OF s1(2) f] touch_failed[OF quiet_touch] calculation by blast
  ultimately show ?thesis using s1(1) op_post_null by (auto simp: give_up_def)
qed

lemma give_up_free_spec:
  assumes w: "work S M E s0 T s" and m: "wf_map s m" and f: "failed s"
  shows "\<exists>s'. give_up_free (length (stack s0)) m s = Some (NULL, s') \<and> op_post S M E s0 lo H NULL s'"
proof -
  obtain s1 where s1: "mtpndd_edge_map_free m s = Some s1" "quiet s s1" "work S M E s0 T s1"
    using free_work[OF w m] by blast
  obtain s2 where s2: "mtpndd_temp_refs_release (length (stack s0)) s1 = Some s2" "touch s1 s2" "work S M E s0 [] s2"
    using release_work[OF s1(3)] by blast
  have "failed s2" using touch_failed[OF s2(2)] touch_failed[OF quiet_touch[OF s1(2)] f] by blast
  then show ?thesis using s1(1) s2 op_post_null by (auto simp: give_up_free_def)
qed

section \<open>Making the node\<close>

lemma keeps_closed:
  assumes b: "building S M s f T m R G"
  shows "\<forall>c\<in>dom (emap m). internal s c \<or> live E s c"
proof
  fix c assume "c \<in> dom (emap m)"
  then have "holdable s c" using b boolean_holdable unfolding building_def by blast
  then show "internal s c \<or> live E s c" by (auto simp: holdable_def intro: live.intros)
qed

lemma mk_result_ok:
  assumes L: "sylvan_true S \<noteq> sylvan_false S" "\<And>v. bdd_sem M (sylvan_true S) v"
    and b: "building S M s f T m R G" and r: "mk_result S s f (emap m) r" and si: "sinv S M s"
    and f: "f \<le> field_count s"
  shows "res_ok M s f (\<lambda>env. G (env f) env) r"
proof -
  note B = b[unfolded building_def map_wf_def]
  consider (none) "emap m = Map.empty" "r = MTPNDD_FALSE" | (one) "emap m = [r \<mapsto> sylvan_true S]"
    | (node) "has_edges s r f (emap m)" using r unfolding mk_result_def by presburger
  then show ?thesis
  proof cases
    case none
    then show ?thesis using B holds_false[OF si] sentinel_field(4)[OF si] f by (simp add: res_ok_def)
  next
    case one
    then have c: "boolean s r" "child_ok s f r" using B by auto
    have "(\<exists>c l. emap m c = Some l \<and> bdd_sem M l v \<and> holds M s env c) \<longleftrightarrow> holds M s env r" for v env
      unfolding one using L(2) by auto
    then show ?thesis using B c by (simp add: res_ok_def child_ok_def)
  next
    case node
    then obtain m' where m': "content s r = Some (f, NEdges m')" "emap m' = emap m" by (auto simp: has_edges_def)
    have "boolean s r" by (rule boolean_node[OF m'(1)]) (use B m'(2) in auto)
    then show ?thesis using B holds_node[OF si m'(1), of M] m'(2) fieldof_content[OF m'(1)]
      by (simp add: res_ok_def)
  qed
qed

context sylvan_laws
begin

lemma build_mk:
  assumes w: "work S M E s0 T s" and b: "building S M s f T m R G" and f: "f \<in> tabled s"
  shows "\<exists>r s'. mtpndd_mk S f m s = Some (r, s') \<and> work S M E s0 T s' \<and> wf_map s' m
     \<and> (if r = NULL then failed s' else res_ok M s' f (\<lambda>env. G (env f) env) r)"
proof -
  have mw: "map_wf S M s f m" using b by (simp add: building_def)
  note ctx = cinvD(1)[OF workD(2)[OF w]]
  obtain r s' where r: "mtpndd_mk S f m s = Some (r, s')" "made S M (E + mset T) s f (emap m) r s'"
    using mk_spec[OF workD(1)[OF w] ctx f mw keeps_closed[OF b]] by blast
  have k: "keeps E s s'" using mk_spec[OF workD(7)[OF w] ctx f mw keeps_closed[OF b]] r(1) by (auto simp: made_def)
  note D = r(2)[unfolded made_def]
  have rm: "res_mono s s'" using D by (simp add: op_frame_def)
  have "cinv M s'" using cinv_frame[OF workD(2,6)[OF w]] D by blast
  then have w': "work S M E s0 T s'" by (intro work_step[OF w _ _ k rm]) (use D workD(5)[OF w] in auto)
  have b': "building S M s' f T m R G" by (rule building_keeps[OF b _ rm]) (use D in blast)
  have "f \<le> field_count s'" using tabledD[OF f] k by (simp add: keeps_def)
  then have "r \<noteq> NULL \<Longrightarrow> res_ok M s' f (\<lambda>env. G (env f) env) r"
    using mk_result_ok[OF true_neq_false sem_true b' _ workD(6)[OF w']] D by simp
  then show ?thesis using r(1) w' b' D by (auto simp: building_def map_wf_def)
qed

end

section \<open>Storing the result\<close>

lemma known_not_lock:
  assumes "rinv s" "nodes s p \<noteq> None" shows "p \<noteq> kMtpnddOpCacheWriteLock"
proof (cases "p = MTPNDD_TRUE \<or> p = MTPNDD_FALSE")
  case False
  let ?U = "dom (nodes s) - {MTPNDD_TRUE, MTPNDD_FALSE}"
  have "p \<in># mset_set ?U" using False assms(2) rinv_finite[OF assms(1)] by auto
  moreover have "mset (pool_objects (g_node_pool s)) = mset (pool_free (g_node_pool s)) + mset_set ?U"
    using assms(1) by (simp add: rinv_def pool_ok_def)
  ultimately have "p \<in># mset (pool_objects (g_node_pool s))" by simp
  then have "32 < p" using assms(1) by (auto simp: rinv_def pool_ok_def)
  then show ?thesis by (simp add: kMtpnddOpCacheWriteLock_def)
qed (auto simp: kMtpnddOpCacheWriteLock_def MTPNDD_TRUE_def MTPNDD_FALSE_def)

text \<open>A state that differs in the caches only.\<close>

lemma recache_touch:
  assumes w: "work S M E s0 T s"
    and s': "s' = s\<lparr>and_cache := a, or_cache := b, not_cache := c\<rparr>" and ci: "cinv M s'"
  shows "work S M E s0 T s'"
proof -
  have sh: "same_heap s s'" by (simp add: s' same_heap_def)
  have "hinv S M (E + mset T) s'" "keeps E s s'"
    using hinv_same_heap[OF workD(1)[OF w] sh] hinv_same_heap[OF workD(7)[OF w] sh] by auto
  moreover have "res_mono s s'" by (simp add: s' res_mono_same)
  ultimately show ?thesis by (intro work_step[OF w _ ci]) (use workD(5)[OF w] in \<open>auto simp: s'\<close>)
qed

lemma holds_recache:
  assumes "nodes s' = nodes s"
  shows "holds M s' env p = holds M s env p" "boolean s' p = boolean s p" "fieldof s' p = fieldof s p"
proof -
  have ag: "agree s s' (\<lambda>_. True)" using content_nodes[OF assms] by (simp add: agree_def)
  show "holds M s' env p = holds M s env p" "boolean s' p = boolean s p" "fieldof s' p = fieldof s p"
    using agree_holds[OF ag, where p = p] agree_boolean[OF ag] agree_field[OF ag] by auto
qed

lemma entry_recache:
  assumes "nodes s' = nodes s" "c_heap_of s' = c_heap_of s"
  shows "bin_entry conn M s' a b r = bin_entry conn M s a b r" "un_entry M s' a r = un_entry M s a r"
    "res_ok M s' lo H r = res_ok M s lo H r"
  using assms holds_recache[OF assms(1)] by (simp_all add: bin_entry_def un_entry_def res_ok_def)

lemma op_post_result:
  assumes "work S M E s0 [] s" "res_ok M s lo H r" shows "op_post S M E s0 lo H r s"
proof -
  have "r \<noteq> NULL" using assms(2) holdable_known[OF workD(1)[OF assms(1)] boolean_holdable] by (simp add: res_ok_def)
  then show ?thesis using workD[OF assms(1)] assms(2) by (simp add: op_post_def)
qed

lemma res_ok_known: "work S M E s0 T s \<Longrightarrow> res_ok M s lo H r \<Longrightarrow> nodes s r \<noteq> None"
  using holdable_known[OF workD(1) boolean_holdable] by (auto simp: res_ok_def)

lemma store_and:
  assumes w: "work S M E s0 [] s" and x: "node_known s x" "node_known s y" and e: "bin_entry (\<and>) M s x y r"
    and r: "res_ok M s lo H r"
  shows "\<exists>c. mtpndd_op_cache_store_binary s (and_cache s) x y r = Some c
     \<and> op_post S M E s0 lo H r (s\<lparr>and_cache := c\<rparr>)"
proof -
  have nl: "r \<noteq> kMtpnddOpCacheWriteLock"
    using known_not_lock[OF hinvD(3)[OF workD(1)[OF w]] res_ok_known[OF w r]] .
  have ok: "opt_cache_ok 2 (and_cache s)" using cinvD(1)[OF workD(2)[OF w]] by (simp add: ctx_ok_def caches_shape_def)
  obtain c where c: "mtpndd_op_cache_store_binary s (and_cache s) x y r = Some c" "opt_cache_ok 2 c"
    "\<forall>a b z. cached c a b z \<longrightarrow> cached (and_cache s) a b z \<or> (a = x \<and> b = y \<and> z = r)"
    using store_binary_spec[OF ok x nl] by blast
  let ?s = "s\<lparr>and_cache := c\<rparr>"
  have nn: "nodes ?s = nodes s" "c_heap_of ?s = c_heap_of s" by simp_all
  have "ctx_ok ?s" using cinvD(1)[OF workD(2)[OF w]] c(2) by (simp add: ctx_ok_def caches_shape_def pools_ready_def)
  moreover have "bin_entry (\<and>) M s a b z" if "cached c a b z" for a b z
    using c(3) that e cinvD(2)[OF workD(2)[OF w]] by blast
  ultimately have "cinv M ?s" using cinvD(3,4)[OF workD(2)[OF w]]
    unfolding cinv_def entry_recache[OF nn] by simp
  then have "work S M E s0 [] ?s" using recache_touch[OF w, where s' = ?s and a = "c" and b = "or_cache s" and c = "not_cache s"] by simp
  moreover have "res_ok M ?s lo H r" using r entry_recache(3)[OF nn] by simp
  ultimately show ?thesis using c(1) op_post_result by blast
qed

lemma store_or:
  assumes w: "work S M E s0 [] s" and x: "node_known s x" "node_known s y" and e: "bin_entry (\<or>) M s x y r"
    and r: "res_ok M s lo H r"
  shows "\<exists>c. mtpndd_op_cache_store_binary s (or_cache s) x y r = Some c
     \<and> op_post S M E s0 lo H r (s\<lparr>or_cache := c\<rparr>)"
proof -
  have nl: "r \<noteq> kMtpnddOpCacheWriteLock"
    using known_not_lock[OF hinvD(3)[OF workD(1)[OF w]] res_ok_known[OF w r]] .
  have ok: "opt_cache_ok 2 (or_cache s)" using cinvD(1)[OF workD(2)[OF w]] by (simp add: ctx_ok_def caches_shape_def)
  obtain c where c: "mtpndd_op_cache_store_binary s (or_cache s) x y r = Some c" "opt_cache_ok 2 c"
    "\<forall>a b z. cached c a b z \<longrightarrow> cached (or_cache s) a b z \<or> (a = x \<and> b = y \<and> z = r)"
    using store_binary_spec[OF ok x nl] by blast
  let ?s = "s\<lparr>or_cache := c\<rparr>"
  have nn: "nodes ?s = nodes s" "c_heap_of ?s = c_heap_of s" by simp_all
  have "ctx_ok ?s" using cinvD(1)[OF workD(2)[OF w]] c(2) by (simp add: ctx_ok_def caches_shape_def pools_ready_def)
  moreover have "bin_entry (\<or>) M s a b z" if "cached c a b z" for a b z
    using c(3) that e cinvD(3)[OF workD(2)[OF w]] by blast
  ultimately have "cinv M ?s" using cinvD(2,4)[OF workD(2)[OF w]]
    unfolding cinv_def entry_recache[OF nn] by simp
  then have "work S M E s0 [] ?s" using recache_touch[OF w, where s' = ?s and a = "and_cache s" and b = "c" and c = "not_cache s"] by simp
  moreover have "res_ok M ?s lo H r" using r entry_recache(3)[OF nn] by simp
  ultimately show ?thesis using c(1) op_post_result by blast
qed

lemma store_not:
  assumes w: "work S M E s0 [] s" and x: "node_known s x" and e: "un_entry M s x r"
    and r: "res_ok M s lo H r"
  shows "\<exists>c. mtpndd_op_cache_store_unary s (not_cache s) x r = Some c
     \<and> op_post S M E s0 lo H r (s\<lparr>not_cache := c\<rparr>)"
proof -
  have nl: "r \<noteq> kMtpnddOpCacheWriteLock"
    using known_not_lock[OF hinvD(3)[OF workD(1)[OF w]] res_ok_known[OF w r]] .
  have ok: "opt_cache_ok 1 (not_cache s)" using cinvD(1)[OF workD(2)[OF w]] by (simp add: ctx_ok_def caches_shape_def)
  obtain c where c: "mtpndd_op_cache_store_unary s (not_cache s) x r = Some c" "opt_cache_ok 1 c"
    "\<forall>a b z. cached c a b z \<longrightarrow> cached (not_cache s) a b z \<or> (a = x \<and> b = NULL \<and> z = r)"
    using store_unary_spec[OF ok x nl] by blast
  let ?s = "s\<lparr>not_cache := c\<rparr>"
  have nn: "nodes ?s = nodes s" "c_heap_of ?s = c_heap_of s" by simp_all
  have "ctx_ok ?s" using cinvD(1)[OF workD(2)[OF w]] c(2) by (simp add: ctx_ok_def caches_shape_def pools_ready_def)
  moreover have "un_entry M s a z" if "cached c a b z" for a b z
    using c(3) that e cinvD(4)[OF workD(2)[OF w]] by blast
  ultimately have "cinv M ?s" using cinvD(2,3)[OF workD(2)[OF w]]
    unfolding cinv_def entry_recache[OF nn] by simp
  then have "work S M E s0 [] ?s" using recache_touch[OF w, where s' = ?s and a = "and_cache s" and b = "or_cache s" and c = "c"] by simp
  moreover have "res_ok M ?s lo H r" using r entry_recache(3)[OF nn] by simp
  ultimately show ?thesis using c(1) op_post_result by blast
qed

end
