(* ===== verification/Item_Task.thy ===== *)
theory Item_Task
  imports Op_Close
begin

text \<open>
  What the item tasks of the Boolean operations have in common: the operands and their children
  stay as they were while the operation works, and a recursive call on two of them followed by
  the reference to its result is a correct item.
\<close>

section \<open>Operands\<close>

lemma work_live:
  assumes w: "work S M E s0 T s" and l: "live E s0 p"
  shows "live E s p" "content s p = content s0 p" "boolean s p \<longleftrightarrow> boolean s0 p"
    "fieldof s p = fieldof s0 p" "holds M s env p \<longleftrightarrow> holds M s0 env p"
    "node_edges s p = node_edges s0 p" "node_field s p = node_field s0 p" "nodes s p \<noteq> None"
proof -
  note k = workD(3)[OF w] note ag = keeps_agree[OF k]
  show l': "live E s p" and c: "content s p = content s0 p" using k l by (auto simp: keeps_def)
  show "boolean s p \<longleftrightarrow> boolean s0 p" "holds M s env p \<longleftrightarrow> holds M s0 env p"
    using agree_boolean[OF ag l] agree_holds[OF ag l] by auto
  show "node_field s p = node_field s0 p" "fieldof s p = fieldof s0 p" using c by (simp_all add: node_field_content)
  show "node_edges s p = node_edges s0 p" using c node_edges_content by (metis not_None_eq)
  show "nodes s p \<noteq> None" by (rule live_known[OF workD(6)[OF w] l'])
qed

lemma work_refl: "hinv S M E s \<Longrightarrow> cinv M s \<Longrightarrow> work S M E s [] s"
  by (simp add: work_def res_mono_same)

lemma work_fields: "work S M E s0 T s \<Longrightarrow> field_count s = field_count s0"
  using workD(3) by (simp add: keeps_def)

lemma work_known:
  assumes w: "work S M E s0 T s" and l: "live E s0 p" shows "node_known s p"
  using work_live(8)[OF w l] rinv_null[OF hinvD(3)[OF workD(1)[OF w]]] unfolding node_known_def by metis

text \<open>An internal operand: its edges and the children they lead to.\<close>

definition inner :: "ptr multiset \<Rightarrow> mstate \<Rightarrow> ptr \<Rightarrow> nat \<Rightarrow> mtpndd_edge \<Rightarrow> bool" where
  "inner E s p f m \<longleftrightarrow> live E s p \<and> boolean s p \<and> content s p = Some (f, NEdges m)"

lemma innerD:
  assumes "inner E s p f m"
  shows "live E s p" "boolean s p" "content s p = Some (f, NEdges m)" "node_edges s p = Some m"
    "node_field s p = Some f" "fieldof s p = f"
  using assms by (auto simp: inner_def node_edges_content node_field_content)

lemma inner_map:
  assumes si: "sinv S M s" and p: "inner E s p f m"
  shows "wf_map s m" "labels_ok S M (emap m)" "1 \<le> f" "f \<le> field_count s" "distinct (entries m)"
    "distinct (map ee_child (entries m))" "f \<in> tabled s"
proof -
  note n = sinv_node[OF si innerD(3)[OF p]]
  show "wf_map s m" "labels_ok S M (emap m)" "1 \<le> f" "f \<le> field_count s" "f \<in> tabled s" using n by (auto simp: map_wf_def)
  then show "distinct (map ee_child (entries m))" by (simp add: wf_map_def)
  then show "distinct (entries m)" by (simp add: distinct_map)
qed

lemma inner_entry:
  assumes si: "sinv S M s" and p: "inner E s p f m" and e: "e \<in> set (entries m)"
  shows "emap m (ee_child e) = Some (ee_label e)" "bdd_ok M (ee_label e)" "ee_label e \<noteq> sylvan_false S"
    "live E s (ee_child e)" "boolean s (ee_child e)" "f < fieldof s (ee_child e)"
proof -
  show em: "emap m (ee_child e) = Some (ee_label e)"
    using e emap_Some[OF inner_map(6)[OF si p]] by blast
  then have d: "ee_child e \<in> dom (emap m)" by blast
  show "bdd_ok M (ee_label e)" "ee_label e \<noteq> sylvan_false S"
    using em inner_map(2)[OF si p] unfolding labels_ok_def by blast+
  show "live E s (ee_child e)" using live_child[OF innerD(1,4)[OF p] d] .
  show "boolean s (ee_child e)" by (rule boolean_child[OF si innerD(3,2)[OF p] d])
  show "f < fieldof s (ee_child e)" using sinv_child[OF si innerD(3)[OF p] d] by (simp add: child_ok_def)
qed

lemma inner_apart:
  assumes si: "sinv S M s" and p: "inner E s p f m" and e: "e \<in> set (entries m)" "e' \<in> set (entries m)"
    and ne: "e \<noteq> e'" and v: "bdd_sem M (ee_label e) v"
  shows "\<not> bdd_sem M (ee_label e') v"
proof -
  have "ee_child e \<noteq> ee_child e'" using inner_map(6)[OF si p] e ne by (meson distinct_map inj_onD)
  then show ?thesis
    using inner_map(2)[OF si p] inner_entry(1)[OF si p e(1)] inner_entry(1)[OF si p e(2)] v
    unfolding labels_ok_def by blast
qed

lemma inner_holds:
  assumes si: "sinv S M s" and p: "inner E s p f m"
  shows "holds M s env p \<longleftrightarrow> (\<exists>e\<in>set (entries m). bdd_sem M (ee_label e) (env f) \<and> holds M s env (ee_child e))"
  unfolding holds_node[OF si innerD(3)[OF p]] emap_Some[OF inner_map(6)[OF si p]] by blast

lemma inner_cases:
  assumes si: "sinv S M s" and l: "live E s p" "boolean s p"
  obtains "p = MTPNDD_TRUE" | "p = MTPNDD_FALSE" | f m where "inner E s p f m"
  using l boolean_leaf[OF si l(2)] unfolding inner_def internal_content by blast

section \<open>Recursive items\<close>

lemma item_post_quiet:
  assumes w: "work S M E s0 T s" and q: "quiet s s1"
    and ip: "item_post S M E T s1 f region meaning it s2" and q2: "quiet s2 s3"
  shows "item_post S M E T s f region meaning it s3"
proof -
  note I = ip[unfolded item_post_def]
  note t = quiet_touch[OF q] and t2 = quiet_touch[OF q2]
  have k: "keeps E s s3" "keeps (E + mset T) s s3" "res_mono s s3"
    using I touch_keeps[OF t] touch_keeps[OF t2] keeps_trans res_mono_trans t t2 unfolding touch_def by metis+
  have h: "hinv S M (E + mset T + (if it_emit it then {#it_child it#} else {#})) s3" using I hinv_quiet[OF _ q2] by blast
  have si: "sinv S M s2" using I by (simp add: hinv_def)
  have c: "cinv M s3" using cinv_touch[OF _ si t2] I by blast
  note ag = touch_agree[OF t2]
  have "boolean s3 p = boolean s2 p" "fieldof s3 p = fieldof s2 p" "holds M s3 env p = holds M s2 env p"
    for p env using agree_boolean[OF ag] agree_field[OF ag] agree_holds[OF ag] by auto
  moreover have "\<not> failed s3 \<Longrightarrow> \<not> failed s2" using touch_failed[OF t2] by blast
  moreover have "stack s3 = stack s" using I quiet_fields(15)[OF q] quiet_fields(15)[OF q2] by simp
  ultimately show ?thesis using I k h c unfolding item_post_def by (simp split: if_splits)
qed

lemma finish_item_spec:
  assumes w: "work S M E s0 T s" and o: "op_post S M (E + mset T) s lo H r s1" and k: "keeps E s s1"
    and r: "r \<noteq> NULL" and lo: "f < lo" and l: "bdd_ok M l" "l \<noteq> sylvan_false S"
    and mean: "\<And>env. H env \<longleftrightarrow> meaning env" and reg: "\<And>v. bdd_sem M l v \<longleftrightarrow> region v"
  shows "\<exists>it s2. finish_item l (r, s1) = Some (it, s2) \<and> item_post S M E T s f region meaning it s2"
proof -
  note O = o[unfolded op_post_def]
  have h: "hinv S M (E + mset T) s1" and ro: "res_ok M s1 lo H r" using O r by auto
  have b: "boolean s1 r" using ro by (simp add: res_ok_def)
  obtain s2 where s2: "mtpndd_ref r s1 = Some (MTPNDD_SUCCESS, s2)" "touch s1 s2"
    "hinv S M (add_mset r (E + mset T)) s2" "temp_refs_pool s2 = temp_refs_pool s1"
    using ref_spec[OF h boolean_holdable[OF b]] by blast
  note ag = touch_agree[OF s2(2)]
  have "res_ok M s2 lo H r" by (rule res_ok_agree[OF ag _ _ ro]) (use s2(2) in \<open>auto simp: touch_def\<close>)
  moreover have "cinv M s2" using cinv_touch[OF _ _ s2(2)] O h by (auto simp: hinv_def)
  moreover have "keeps E s s2" "keeps (E + mset T) s s2" "res_mono s s2"
    using O k s2(2) touch_keeps[OF s2(2)] keeps_trans res_mono_trans unfolding touch_def by metis+
  ultimately have "item_post S M E T s f region meaning
      \<lparr>it_status = MTPNDD_SUCCESS, it_emit = True, it_child = r, it_label = l\<rparr> s2"
    using s2 O l lo mean reg by (simp add: item_post_def res_ok_def)
  then show ?thesis using s2(1) by (simp add: finish_item_def)
qed

lemma null_item_post:
  assumes o: "op_post S M (E + mset T) s lo H NULL s1" and k: "keeps E s s1"
  shows "item_post S M E T s f region meaning (no_item st) s1"
  using o k by (simp add: op_post_def item_post_def no_item_def)

text \<open>The common shape: recursion, then a report or the finished item.\<close>

definition recurse_item :: "rec2 \<Rightarrow> ptr \<Rightarrow> ptr \<Rightarrow> (mstate \<Rightarrow> mstate) \<Rightarrow> bdd \<Rightarrow> mstate \<Rightarrow> (op_item \<times> mstate) option" where
  "recurse_item rec c d undo l s = do {
     (r, s) \<leftarrow> rec c d s;
     if r = NULL then let s = undo s in Some (no_item (ei_code (mtpndd_get_last_error s)), s)
     else finish_item l (r, s)
   }"

lemma recurse_item_spec:
  assumes rec: "rec2_ok S M conn k rec" and w: "work S M E s0 T s" and u: "\<And>s. quiet s (undo s)"
    and c: "live E s0 c" "boolean s0 c" "f < fieldof s0 c" and d: "live E s0 d" "boolean s0 d" "f < fieldof s0 d"
    and fu: "fuel_ok s0 k (min (fieldof s0 c) (fieldof s0 d))" and l: "bdd_ok M l" "l \<noteq> sylvan_false S"
    and mean: "\<And>env. meaning env \<longleftrightarrow> conn (holds M s0 env c) (holds M s0 env d)"
    and reg: "\<And>v. region v \<longleftrightarrow> bdd_sem M l v"
  shows "\<exists>it s'. recurse_item rec c d undo l s = Some (it, s') \<and> item_post S M E T s f region meaning it s'"
proof -
  note wc = work_live[OF w c(1)] and wd = work_live[OF w d(1)]
  have fu': "fuel_ok s k (min (fieldof s c) (fieldof s d))"
    using fu fuel_ok_cong[OF work_fields[OF w]] wc(4) wd(4) by simp
  obtain r s1 where r: "rec c d s = Some (r, s1)" "keeps E s s1"
    "op_post S M (E + mset T) s (min (fieldof s c) (fieldof s d)) (\<lambda>env. conn (holds M s env c) (holds M s env d)) r s1"
    using rec2_both[OF rec workD(1,2)[OF w] wc(1) wd(1) _ _ fu'] c d wc(3) wd(3) by blast
  show ?thesis
  proof (cases "r = NULL")
    case True
    have "item_post S M E T s f region meaning (no_item st) s1" for st using null_item_post r True by blast
    from item_post_quiet[OF w _ this u] r(1) True show ?thesis by (simp add: recurse_item_def quiet_refl Let_def)
  next
    case False
    have "f < min (fieldof s c) (fieldof s d)" using c d wc(4) wd(4) by simp
    from finish_item_spec[OF w r(3,2) False this l, where meaning = meaning and region = region]
    show ?thesis using r(1) False mean reg wc(5) wd(5) by (simp add: recurse_item_def)
  qed
qed

lemma edge_count_total: "internal s c \<Longrightarrow> \<exists>n. node_edge_count s c = Some n"
  by (auto simp: internal_content content_Some node_edge_count_def)

lemma spawn_total:
  assumes w: "work S M E s0 T s" and l: "live E s0 c" "live E s0 d"
  shows "\<exists>b. mtpndd_should_spawn s c d = Some b"
proof -
  have n: "nodes s c \<noteq> None" "nodes s d \<noteq> None" using work_live(8)[OF w] l by blast+
  have t: "mtpndd_is_terminal s c = Some (\<not> internal s c)" "mtpndd_is_terminal s d = Some (\<not> internal s d)"
    using sinv_terminal[OF workD(6)[OF w]] n by blast+
  show ?thesis unfolding mtpndd_should_spawn_def t using n edge_count_total[of s c] edge_count_total[of s d]
    by (auto simp: node_field_def Let_def) (rule exI[of _ True], simp)
qed

lemma spawn_unary_total:
  assumes w: "work S M E s0 T s" and l: "live E s0 c"
  shows "\<exists>b. mtpndd_should_spawn_unary s c = Some b"
proof -
  have "mtpndd_is_terminal s c = Some (\<not> internal s c)"
    using sinv_terminal[OF workD(6)[OF w]] work_live(8)[OF w l] by blast
  then show ?thesis using edge_count_total[of s c] by (auto simp: mtpndd_should_spawn_unary_def)
qed

section \<open>Finished maps\<close>

text \<open>The result of the building phase: a map that denotes \<open>H\<close>, or a reported failure.\<close>

definition built ::
  "sylvan \<Rightarrow> bdd_model \<Rightarrow> ptr multiset \<Rightarrow> mstate \<Rightarrow> nat \<Rightarrow> (env \<Rightarrow> bool) \<Rightarrow> mtpndd_error \<Rightarrow> mtpndd_edge \<Rightarrow> mstate \<Rightarrow> bool" where
  "built S M E s0 f H st m s \<longleftrightarrow> (\<exists>T. work S M E s0 T s \<and> wf_map s m
     \<and> (if st = MTPNDD_SUCCESS
        then \<exists>G. building S M s f T m (\<lambda>_. True) G \<and> (\<forall>env. G (env f) env \<longleftrightarrow> H env) else failed s))"

lemma outcome_built:
  assumes o: "outcome S M E s0 f region meaning X D st m x s"
    and H: "\<And>env. H env \<longleftrightarrow> (\<exists>t\<in>D. region t (env f) \<and> meaning t env)"
  shows "built S M E s0 f H st m s"
proof (cases "st = MTPNDD_SUCCESS")
  case True
  then obtain T where T: "work S M E s0 T s"
    "building S M s f T m (\<lambda>v. \<exists>t\<in>D. region t v) (\<lambda>v env. \<exists>t\<in>D. region t v \<and> meaning t env)"
    using o unfolding outcome_def task_inv_def by auto
  moreover have "wf_map s m" using T(2) by (simp add: building_def map_wf_def)
  moreover have "building S M s f T m (\<lambda>_. True) (\<lambda>v env. \<exists>t\<in>D. region t v \<and> meaning t env)"
    by (rule building_cong[OF T(2)]) auto
  ultimately show ?thesis using True H unfolding built_def by auto
next
  case False
  then show ?thesis using o unfolding outcome_def built_def by auto
qed

lemma built_empty:
  assumes w: "work S M E s0 T s" and m: "wf_map s m" "emap m = Map.empty"
  shows "task_inv S M E s0 f region meaning (\<lambda>_ _ _. True) {} T m x s"
  using assms by (simp add: task_inv_def building_def map_wf_def labels_ok_def)

lemma malloc_work:
  assumes w: "work S M E s0 T s" and p: "malloc n s = (p, s')"
  shows "work S M E s0 T s'" "p = NULL \<Longrightarrow> failed s'" "wf_map s' m = wf_map s m"
proof -
  note q = malloc_quiet[OF p]
  show "work S M E s0 T s'" by (rule quiet_work[OF w q])
  have "0 < brk (c_heap_of s)" using cinv_heap_ready[OF workD(2,1)[OF w]] by (simp add: heap_ready_def)
  then show "p = NULL \<Longrightarrow> failed s'" using malloc_failed p by blast
  show "wf_map s' m = wf_map s m" by (rule wf_map_quiet[OF q])
qed

lemma op_post_self:
  assumes h: "hinv S M E s" and c: "cinv M s" and r: "boolean s r" "lo \<le> fieldof s r"
    and H: "\<And>env. holds M s env r \<longleftrightarrow> H env"
  shows "op_post S M E s lo H r s"
  by (rule op_post_result[OF work_refl[OF h c]]) (use r H in \<open>simp add: res_ok_def\<close>)

text \<open>A fresh map at the start of the building phase.\<close>

lemma acquire_work:
  assumes h: "hinv S M E s" and c: "cinv M s" and m: "mtpndd_memory_acquire_edge_map s = (r, s1)"
  shows "work S M E s [] s1" "r = None \<Longrightarrow> failed s1"
    "r = Some m0 \<Longrightarrow> \<exists>m. mtpndd_edge_map_init s1 m0 = Some m \<and> wf_map s1 m \<and> emap m = Map.empty"
proof -
  note q = acquire_edge_map_quiet[OF m]
  show "work S M E s [] s1" by (rule quiet_work[OF work_refl[OF h c] q])
  show "r = None \<Longrightarrow> failed s1" using acquire_edge_map_failed m cinv_heap_ready[OF c h] by blast
  have "bucket_cfg_ok s" using h by (simp add: hinv_def rinv_def)
  then show "r = Some m0 \<Longrightarrow> \<exists>m. mtpndd_edge_map_init s1 m0 = Some m \<and> wf_map s1 m \<and> emap m = Map.empty"
    using new_edge_map m by blast
qed

context sylvan_laws
begin

lemma built_mk:
  assumes bt: "built S M E s0 f H MTPNDD_SUCCESS m s" and f: "f \<in> tabled s0"
  shows "\<exists>T r s'. mtpndd_mk S f m s = Some (r, s') \<and> work S M E s0 T s' \<and> wf_map s' m
     \<and> (if r = NULL then failed s' else res_ok M s' f H r)"
proof -
  obtain T G where w: "work S M E s0 T s" and b: "building S M s f T m (\<lambda>_. True) G"
    and G: "\<forall>env. G (env f) env \<longleftrightarrow> H env" using bt by (auto simp: built_def)
  have eq: "(\<lambda>env. G (env f) env) = H" using G by auto
  have "f \<in> tabled s" using f keeps_tabled[OF workD(3)[OF w]] by simp
  from build_mk[OF w b this, unfolded eq] show ?thesis by blast
qed

text \<open>An edge to a node that is pushed on the temporary stack first.\<close>

lemma push_edge:
  assumes w: "work S M E s0 T s" and b: "building S M s f T m R G"
    and c: "boolean s c" "f < fieldof s c" and l: "bdd_ok M l" "l \<noteq> sylvan_false S"
    and dis: "\<And>v. bdd_sem M l v \<Longrightarrow> \<not> R v"
  shows "\<exists>ok s1. mtpndd_temp_refs_push c s = Some (ok, s1) \<and> touch s s1 \<and>
    (if ok then \<forall>s2. quiet s1 s2 \<longrightarrow> (\<exists>st m' s3. mtpndd_add_edge S m c l s2 = Some (st, m', s3) \<and> touch s s3
        \<and> merged S M E s0 f (\<lambda>v. R v \<or> bdd_sem M l v) (\<lambda>v env. G v env \<or> bdd_sem M l v \<and> holds M s env c) s (st, m', s3))
     else work S M E s0 T s1 \<and> wf_map s1 m \<and> failed s1)"
proof -
  obtain ok s1 where p: "mtpndd_temp_refs_push c s = Some (ok, s1)" "touch s s1"
    "if ok then hinv S M (add_mset c (E + mset T)) s1 \<and> stack s1 = c # stack s
     else hinv S M (E + mset T) s1 \<and> stack s1 = stack s \<and> (heap_ready s \<longrightarrow> failed s1)"
    using push_spec[OF workD(1)[OF w] boolean_holdable[OF c(1)]] by blast
  have bk: "building S M s2 f T m R G" if "touch s s2" for s2
    by (rule building_keeps[OF b touch_keeps[OF that, of "E + mset T"]]) (use that in \<open>simp add: touch_def\<close>)
  show ?thesis
  proof (cases ok)
    case False
    have "work S M E s0 T s1" by (rule work_touch[OF w p(2)]) (use p(3) False workD(5)[OF w] in auto)
    moreover have "wf_map s1 m" using bk[OF p(2)] by (simp add: building_def map_wf_def)
    moreover have "failed s1" using p(3) False cinv_heap_ready[OF workD(2,1)[OF w]] by simp
    ultimately show ?thesis using p False by auto
  next
    case True
    have w1: "work S M E s0 (c # T) s1"
      by (rule work_touch[OF w p(2)]) (use p(3) True workD(5)[OF w] in \<open>simp_all add: ac_simps\<close>)
    have "\<exists>st m' s3. mtpndd_add_edge S m c l s2 = Some (st, m', s3) \<and> touch s s3
        \<and> merged S M E s0 f (\<lambda>v. R v \<or> bdd_sem M l v) (\<lambda>v env. G v env \<or> bdd_sem M l v \<and> holds M s env c) s (st, m', s3)"
      if q: "quiet s1 s2" for s2
    proof -
      have t: "touch s s2" by (rule touch_trans[OF p(2) quiet_touch[OF q]])
      note ag = touch_agree[OF t]
      have c2: "boolean s2 c" "f < fieldof s2 c" "\<And>env. holds M s2 env c = holds M s env c"
        using c agree_boolean[OF ag, of c] agree_field[OF ag, of c] agree_holds[OF ag, where p = c] by auto
      from add_held_edge[OF quiet_work[OF w1 q] bk[OF t] c2(1,2) l dis, unfolded c2(3)]
      obtain st m' s3 where a: "mtpndd_add_edge S m c l s2 = Some (st, m', s3)" "quiet s2 s3"
        "merged S M E s0 f (\<lambda>v. R v \<or> bdd_sem M l v) (\<lambda>v env. G v env \<or> bdd_sem M l v \<and> holds M s env c) s2 (st, m', s3)"
        by blast
      have "touch s s3" by (rule touch_trans[OF t quiet_touch[OF a(2)]])
      then show ?thesis using a unfolding merged_def by auto
    qed
    then show ?thesis using p True by auto
  qed
qed

end

end
