(* ===== verification/And_Correct.thy ===== *)
theory And_Correct
  imports Item_Task
begin

text \<open>
  Conjunction.  With enough fuel, which the wrapper provides, \<open>mtpndd_and\<close> always returns; what
  the caller holds is unchanged; and unless an allocation failed the result is the node of the
  conjunction.  The result of every branch is covered: terminal operands, a cache hit, operands
  at the same and at different fields, the two-phase form, and the failures.
\<close>

section \<open>Both operands at the same field\<close>

definition pair_region :: "bdd_model \<Rightarrow> edge_bucket_entry \<times> edge_bucket_entry \<Rightarrow> assignment \<Rightarrow> bool" where
  "pair_region M t v \<longleftrightarrow> bdd_sem M (ee_label (fst t)) v \<and> bdd_sem M (ee_label (snd t)) v"

definition pair_meaning ::
  "(bool \<Rightarrow> bool \<Rightarrow> bool) \<Rightarrow> bdd_model \<Rightarrow> mstate \<Rightarrow> edge_bucket_entry \<times> edge_bucket_entry \<Rightarrow> env \<Rightarrow> bool" where
  "pair_meaning conn M s t env \<longleftrightarrow> conn (holds M s env (ee_child (fst t))) (holds M s env (ee_child (snd t)))"

lemma pairs_apart:
  assumes si: "sinv S M s" and a: "inner E s a f ma" and b: "inner E s b f mb"
    and t: "t \<in> set (List.product (entries ma) (entries mb))" "u \<in> set (List.product (entries ma) (entries mb))"
    and ne: "t \<noteq> u" and v: "pair_region M t v"
  shows "\<not> pair_region M u v"
proof (cases "fst t = fst u")
  case True
  then have "snd t \<noteq> snd u" using ne by (simp add: prod_eq_iff)
  then show ?thesis using inner_apart[OF si b, of "snd t" "snd u" v] t v by (auto simp: pair_region_def)
next
  case False
  then show ?thesis using inner_apart[OF si a, of "fst t" "fst u" v] t v by (auto simp: pair_region_def)
qed

lemma same_field_holds:
  assumes si: "sinv S M s" and a: "inner E s a f ma" and b: "inner E s b f mb"
  shows "(holds M s env a \<and> holds M s env b) \<longleftrightarrow> (\<exists>t\<in>set (List.product (entries ma) (entries mb)).
     pair_region M t (env f) \<and> pair_meaning (\<and>) M s t env)"
  unfolding inner_holds[OF si a] inner_holds[OF si b] by (auto simp: pair_region_def pair_meaning_def)

definition no_shared :: "'t set \<Rightarrow> 'x \<Rightarrow> mstate \<Rightarrow> bool" where
  "no_shared D x s \<longleftrightarrow> True"

lemma plain_items_ok:
  assumes "\<And>t T s. t \<in> all \<Longrightarrow> work S M E s0 T s \<Longrightarrow>
      \<exists>it s'. item t s = Some (it, s') \<and> item_post S M E T s f (region t) (meaning t) it s'"
    and "\<And>t u v. t \<in> all \<Longrightarrow> u \<in> all \<Longrightarrow> t \<noteq> u \<Longrightarrow> region t v \<Longrightarrow> \<not> region u v"
  shows "items_ok S M E s0 f region meaning no_shared all (plain_item item)"
  unfolding items_ok_def no_shared_def plain_item_def
proof (intro conjI ballI allI impI)
  fix t D T x s assume "t \<in> all" "work S M E s0 T s"
  from assms(1)[OF this] show "\<exists>it x' s'. map_option (\<lambda>(it, s). (it, (), s)) (item t s) = Some (it, x', s')
     \<and> item_post S M E T s f (region t) (meaning t) it s' \<and> True" by auto
qed (use assms(2) in auto)

context sylvan_laws
begin

lemma and_label:
  assumes "bdd_ok M k" "bdd_ok M l"
  shows "sylvan_and S k l = sylvan_false S \<longleftrightarrow> (\<forall>v. \<not> (bdd_sem M k v \<and> bdd_sem M l v))"
  using eq_false_iff[of "sylvan_and S k l"] assms by simp

lemma and_same_item:
  assumes rec: "rec2_ok S M (\<and>) k rec" and w: "work S M E s0 T s" and si: "sinv S M s0"
    and a: "inner E s0 a f ma" and b: "inner E s0 b f mb"
    and t: "t \<in> set (List.product (entries ma) (entries mb))" and fu: "fuel_ok s0 (Suc k) f"
  shows "\<exists>it s'. mtpndd_and_same_field_item S rec t s = Some (it, s')
     \<and> item_post S M E T s f (pair_region M t) (pair_meaning (\<and>) M s0 t) it s'"
proof -
  obtain ea eb where t_eq: "t = (ea, eb)" by (cases t)
  have e: "ea \<in> set (entries ma)" "eb \<in> set (entries mb)" using t t_eq by auto
  note A = inner_entry[OF si a e(1)] and B = inner_entry[OF si b e(2)]
  let ?l = "sylvan_and S (ee_label ea) (ee_label eb)"
  have reg: "pair_region M t v \<longleftrightarrow> bdd_sem M ?l v" for v using A(2) B(2) by (simp add: pair_region_def t_eq)
  show ?thesis
  proof (cases "?l = sylvan_false S")
    case True
    let ?s1 = "sylvan_deref ?l (sylvan_ref ?l s)"
    have w1: "work S M E s0 T (sylvan_ref ?l s)" by (rule quiet_work[OF w]) simp
    have "item_post S M E T s f (pair_region M t) (pair_meaning (\<and>) M s0 t) (no_item MTPNDD_SUCCESS) s"
      using workD[OF w] True by (simp add: item_post_def no_item_def reg res_mono_same)
    from item_post_quiet[OF w quiet_refl this] have
      "item_post S M E T s f (pair_region M t) (pair_meaning (\<and>) M s0 t) (no_item MTPNDD_SUCCESS) ?s1"
      by (meson quiet_log quiet_trans)
    then show ?thesis using True by (simp add: mtpndd_and_same_field_item_def t_eq mtpndd_edge_label_load_def Let_def)
  next
    case False
    let ?s1 = "sylvan_ref ?l s"
    have w1: "work S M E s0 T ?s1" by (rule quiet_work[OF w]) simp
    have "f < min (fieldof s0 (ee_child ea)) (fieldof s0 (ee_child eb))" using A(6) B(6) by simp
    then have fu': "fuel_ok s0 k (min (fieldof s0 (ee_child ea)) (fieldof s0 (ee_child eb)))"
      by (rule fuel_ok_step[OF fu inner_map(4)[OF si a]])
    have "bdd_ok M ?l" using A(2) B(2) by simp
    from recurse_item_spec[where undo = "sylvan_deref ?l" and meaning = "pair_meaning (\<and>) M s0 t"
        and region = "pair_region M t", OF rec w1 quiet_log(2) A(4-6) B(4-6) fu' this False]
    obtain it s' where r: "recurse_item rec (ee_child ea) (ee_child eb) (sylvan_deref ?l) ?l ?s1 = Some (it, s')"
      "item_post S M E T ?s1 f (pair_region M t) (pair_meaning (\<and>) M s0 t) it s'"
      using reg by (auto simp: pair_meaning_def t_eq)
    have "item_post S M E T s f (pair_region M t) (pair_meaning (\<and>) M s0 t) it s'"
      by (rule item_post_quiet[OF w _ r(2)]) (simp_all add: quiet_refl)
    then show ?thesis using r(1) False
      by (simp add: mtpndd_and_same_field_item_def recurse_item_def t_eq mtpndd_edge_label_load_def Let_def)
  qed
qed


lemma and_build_same_loop:
  assumes rec: "rec2_ok S M (\<and>) k rec" and w: "work S M E s0 T s" and si: "sinv S M s0"
    and a: "inner E s0 a f ma" and b: "inner E s0 b f mb" and fu: "fuel_ok s0 (Suc k) f"
    and m: "wf_map s m" "emap m = Map.empty"
  shows "\<exists>st m' s'. run_items (operands a ma b mb)
           (\<lambda>s (entry_a, entry_b). mtpndd_should_spawn s (ee_child entry_a) (ee_child entry_b))
           (mtpndd_and_merge_item S) (plain_item (mtpndd_and_same_field_item S rec))
           (List.product (entries ma) (entries mb)) m () s = Some (st, m', (), s')
     \<and> built S M E s0 f (\<lambda>env. holds M s0 env a \<and> holds M s0 env b) st m' s'"
proof -
  let ?ts = "List.product (entries ma) (entries mb)"
  have ok: "items_ok S M E s0 f (pair_region M) (pair_meaning (\<and>) M s0) no_shared (set ?ts)
      (plain_item (mtpndd_and_same_field_item S rec))"
    by (rule plain_items_ok[OF and_same_item[OF rec _ si a b _ fu] pairs_apart[OF si a b]])
  have al: "\<forall>T s. work S M E s0 T s \<longrightarrow> operands a ma b mb s"
    using work_live(6)[OF _ innerD(1)[OF a]] work_live(6)[OF _ innerD(1)[OF b]] innerD(4)[OF a] innerD(4)[OF b]
    by (simp add: operands_def)
  have sp: "\<forall>T s t. work S M E s0 T s \<longrightarrow> t \<in> set ?ts \<longrightarrow> (\<exists>b. (case t of (entry_a, entry_b) \<Rightarrow>
      mtpndd_should_spawn s (ee_child entry_a) (ee_child entry_b)) = Some b)"
    using spawn_total inner_entry(4)[OF si a] inner_entry(4)[OF si b] by auto
  have d: "distinct ?ts" by (rule distinct_product[OF inner_map(5)[OF si a] inner_map(5)[OF si b]])
  have inv: "task_inv S M E s0 f (pair_region M) (pair_meaning (\<and>) M s0) no_shared {} T m () s"
    using built_empty[OF w m] by (simp add: task_inv_def no_shared_def)
  obtain st m' x' s' where r: "run_items (operands a ma b mb)
      (\<lambda>s (entry_a, entry_b). mtpndd_should_spawn s (ee_child entry_a) (ee_child entry_b))
      (mtpndd_and_merge_item S) (plain_item (mtpndd_and_same_field_item S rec)) ?ts m () s = Some (st, m', x', s')"
    "outcome S M E s0 f (pair_region M) (pair_meaning (\<and>) M s0) no_shared (set ?ts) st m' x' s'"
    using run_items_spec[OF ok al sp d inv] by (elim exE conjE)
  from outcome_built[OF r(2) same_field_holds[OF si a b]] show ?thesis using r(1) by auto
qed

end

section \<open>The two-phase form\<close>

definition mk_pair :: "sylvan \<Rightarrow> edge_bucket_entry \<times> edge_bucket_entry \<Rightarrow> and_pair" where
  "mk_pair S t = \<lparr>child_a = ee_child (fst t), child_b = ee_child (snd t),
     pair_label = sylvan_and S (ee_label (fst t)) (ee_label (snd t))\<rparr>"

definition meets :: "sylvan \<Rightarrow> edge_bucket_entry \<times> edge_bucket_entry \<Rightarrow> bool" where
  "meets S t \<longleftrightarrow> sylvan_and S (ee_label (fst t)) (ee_label (snd t)) \<noteq> sylvan_false S"

lemma filter_pairs_spec:
  "\<exists>s'. filter_pairs S ts s = (map (mk_pair S) (filter (meets S) ts), s') \<and> quiet s s'"
proof (induction S ts s rule: filter_pairs.induct)
  case (2 S ea eb es s)
  let ?l = "sylvan_and S (ee_label ea) (ee_label eb)"
  have q: "quiet s (sylvan_ref ?l s)" by simp
  show ?case
  proof (cases "?l = sylvan_false S")
    case True
    then show ?thesis using 2(2) by (simp add: mtpndd_edge_label_load_def meets_def Let_def)
  next
    case False
    obtain s' where "filter_pairs S es (sylvan_ref ?l s) = (map (mk_pair S) (filter (meets S) es), s')"
      "quiet (sylvan_ref ?l s) s'" using 2(1)[OF refl] False by (auto simp: mtpndd_edge_label_load_def)
    moreover have "meets S (ea, eb)" "mk_pair S (ea, eb) = \<lparr>child_a = ee_child ea, child_b = ee_child eb, pair_label = ?l\<rparr>"
      using False by (simp_all add: meets_def mk_pair_def)
    ultimately show ?thesis using False quiet_trans[OF q] by (auto simp: mtpndd_edge_label_load_def Let_def)
  qed
qed (simp add: quiet_refl)

definition and_pair_region :: "bdd_model \<Rightarrow> and_pair \<Rightarrow> assignment \<Rightarrow> bool" where
  "and_pair_region M p v \<longleftrightarrow> bdd_sem M (pair_label p) v"

definition and_pair_meaning :: "bdd_model \<Rightarrow> mstate \<Rightarrow> and_pair \<Rightarrow> env \<Rightarrow> bool" where
  "and_pair_meaning M s p env \<longleftrightarrow> holds M s env (child_a p) \<and> holds M s env (child_b p)"

context sylvan_laws
begin

lemma pair_facts:
  assumes si: "sinv S M s" and a: "inner E s a f ma" and b: "inner E s b f mb"
    and t: "t \<in> set (List.product (entries ma) (entries mb))"
  shows "bdd_ok M (pair_label (mk_pair S t))" "and_pair_region M (mk_pair S t) v \<longleftrightarrow> pair_region M t v"
    "and_pair_meaning M s (mk_pair S t) env \<longleftrightarrow> pair_meaning (\<and>) M s t env"
    "meets S t \<longleftrightarrow> (\<exists>v. pair_region M t v)"
proof -
  have ok: "bdd_ok M (ee_label (fst t))" "bdd_ok M (ee_label (snd t))"
    using inner_entry(2)[OF si a] inner_entry(2)[OF si b] t by auto
  then show "bdd_ok M (pair_label (mk_pair S t))" "and_pair_region M (mk_pair S t) v \<longleftrightarrow> pair_region M t v"
    by (simp_all add: mk_pair_def and_pair_region_def pair_region_def)
  show "and_pair_meaning M s (mk_pair S t) env \<longleftrightarrow> pair_meaning (\<and>) M s t env"
    by (simp add: mk_pair_def and_pair_meaning_def pair_meaning_def)
  show "meets S t \<longleftrightarrow> (\<exists>v. pair_region M t v)"
    using and_label[OF ok] by (auto simp: meets_def pair_region_def)
qed

lemma two_phase_item:
  assumes rec: "rec2_ok S M (\<and>) k rec" and w: "work S M E s0 T s" and si: "sinv S M s0"
    and a: "inner E s0 a f ma" and b: "inner E s0 b f mb" and fu: "fuel_ok s0 (Suc k) f"
    and p: "p \<in> mk_pair S ` {t \<in> set (List.product (entries ma) (entries mb)). meets S t}"
  shows "\<exists>it s'. mtpndd_and_recurse_pair rec p s = Some (it, s')
     \<and> item_post S M E T s f (and_pair_region M p) (and_pair_meaning M s0 p) it s'"
proof -
  obtain t where t: "p = mk_pair S t" "t \<in> set (List.product (entries ma) (entries mb))" "meets S t" using p by auto
  have e: "fst t \<in> set (entries ma)" "snd t \<in> set (entries mb)" using t(2) by auto
  note A = inner_entry[OF si a e(1)] and B = inner_entry[OF si b e(2)]
  have ch: "child_a p = ee_child (fst t)" "child_b p = ee_child (snd t)" by (simp_all add: t(1) mk_pair_def)
  have nf: "pair_label p \<noteq> sylvan_false S" using t(1,3) by (simp add: mk_pair_def meets_def)
  have "f < min (fieldof s0 (child_a p)) (fieldof s0 (child_b p))" using A(6) B(6) ch by simp
  then have fu': "fuel_ok s0 k (min (fieldof s0 (child_a p)) (fieldof s0 (child_b p)))"
    by (rule fuel_ok_step[OF fu inner_map(4)[OF si a]])
  have ok: "bdd_ok M (pair_label p)" using pair_facts(1)[OF si a b t(2)] t(1) by simp
  from recurse_item_spec[where undo = "sylvan_deref (pair_label p)" and meaning = "and_pair_meaning M s0 p"
      and region = "and_pair_region M p", OF rec w quiet_log(2) A(4-6)[folded ch] B(4-6)[folded ch] fu' ok nf]
  show ?thesis by (simp add: and_pair_meaning_def and_pair_region_def recurse_item_def mtpndd_and_recurse_pair_def)
qed

lemma two_phase_loop:
  assumes rec: "rec2_ok S M (\<and>) k rec" and w: "work S M E s0 T s" and si: "sinv S M s0"
    and a: "inner E s0 a f ma" and b: "inner E s0 b f mb" and fu: "fuel_ok s0 (Suc k) f"
    and m: "wf_map s m" "emap m = Map.empty"
  defines "ts \<equiv> List.product (entries ma) (entries mb)"
  shows "\<exists>st m' s'. run_items (\<lambda>_. True) (\<lambda>s p. mtpndd_should_spawn s (child_a p) (child_b p))
           (mtpndd_and_merge_item S) (plain_item (mtpndd_and_recurse_pair rec))
           (map (mk_pair S) (filter (meets S) ts)) m () s = Some (st, m', (), s')
     \<and> built S M E s0 f (\<lambda>env. holds M s0 env a \<and> holds M s0 env b) st m' s'"
proof -
  let ?ps = "map (mk_pair S) (filter (meets S) ts)"
  note pf = pair_facts[OF si a b, folded ts_def]
  have set_ps: "set ?ps = mk_pair S ` {t \<in> set ts. meets S t}" by simp
  have apart: "\<not> and_pair_region M q v" if "p \<in> set ?ps" "q \<in> set ?ps" "p \<noteq> q" "and_pair_region M p v" for p q v
    using that pairs_apart[OF si a b, folded ts_def] pf(2) unfolding set_ps by blast
  have ok: "items_ok S M E s0 f (and_pair_region M) (and_pair_meaning M s0) no_shared (set ?ps)
      (plain_item (mtpndd_and_recurse_pair rec))"
    by (rule plain_items_ok[OF two_phase_item[OF rec _ si a b fu] apart]) (simp_all add: set_ps ts_def)
  have al: "\<forall>T s. work S M E s0 T s \<longrightarrow> True" by simp
  have sp: "\<forall>T s p. work S M E s0 T s \<longrightarrow> p \<in> set ?ps \<longrightarrow> (\<exists>b. mtpndd_should_spawn s (child_a p) (child_b p) = Some b)"
    using spawn_total inner_entry(4)[OF si a] inner_entry(4)[OF si b] by (auto simp: mk_pair_def ts_def)
  have "inj_on (mk_pair S) (set (filter (meets S) ts))"
  proof (rule inj_onI)
    fix t u assume t: "t \<in> set (filter (meets S) ts)" "u \<in> set (filter (meets S) ts)" and eq: "mk_pair S t = mk_pair S u"
    have "t \<in> set ts" "meets S t" using t(1) by auto
    then obtain v where "pair_region M t v" using pf(4) by blast
    moreover have "pair_region M u v" using calculation pf(2) t eq by (metis filter_is_subset subsetD)
    ultimately show "t = u" using pairs_apart[OF si a b, folded ts_def] t by (metis filter_is_subset subsetD)
  qed
  then have d: "distinct ?ps"
    using distinct_product[OF inner_map(5)[OF si a] inner_map(5)[OF si b]] by (simp add: distinct_map ts_def)
  have inv: "task_inv S M E s0 f (and_pair_region M) (and_pair_meaning M s0) no_shared {} T m () s"
    using built_empty[OF w m] by (simp add: task_inv_def no_shared_def)
  obtain st m' x' s' where r: "run_items (\<lambda>_. True) (\<lambda>s p. mtpndd_should_spawn s (child_a p) (child_b p))
      (mtpndd_and_merge_item S) (plain_item (mtpndd_and_recurse_pair rec)) ?ps m () s = Some (st, m', x', s')"
    "outcome S M E s0 f (and_pair_region M) (and_pair_meaning M s0) no_shared (set ?ps) st m' x' s'"
    using run_items_spec[OF ok al sp d inv] by (elim exE conjE)
  have "(holds M s0 env a \<and> holds M s0 env b) \<longleftrightarrow> (\<exists>p\<in>set ?ps. and_pair_region M p (env f) \<and> and_pair_meaning M s0 p env)"
    for env unfolding same_field_holds[OF si a b, folded ts_def] set_ps using pf(2-4) by blast
  from outcome_built[OF r(2) this] show ?thesis using r(1) by auto
qed


lemma two_phase_spec:
  assumes rec: "rec2_ok S M (\<and>) k rec" and w: "work S M E s0 T s" and si: "sinv S M s0"
    and a: "inner E s0 a f ma" and b: "inner E s0 b f mb" and fu: "fuel_ok s0 (Suc k) f"
    and m: "wf_map s m" "emap m = Map.empty"
  shows "\<exists>st m' s'. mtpndd_and_two_phase_same_field S rec a b m s = Some (st, m', s')
     \<and> built S M E s0 f (\<lambda>env. holds M s0 env a \<and> holds M s0 env b) st m' s'"
proof -
  have ne: "node_edges s a = Some ma" "node_edges s b = Some mb"
    using work_live(6)[OF w] innerD(1,4)[OF a] innerD(1,4)[OF b] by auto
  have wf: "wf_map s0 ma" "wf_map s0 mb" using inner_map(1)[OF si] a b by blast+
  define n where "n = edge_count ma * edge_count mb"
  obtain ok s1 where ok: "(if n \<le> 64 then (True, s) else let (p, s) = malloc (n * 24) s in (p \<noteq> NULL, s)) = (ok, s1)"
    by fastforce
  have run: "mtpndd_and_two_phase_same_field S rec a b m s =
      (if \<not> ok then Some (MTPNDD_ERROR_OUT_OF_MEMORY, m, s1) else do {
         es_a \<leftarrow> for_each_entry s1 ma;
         es_b \<leftarrow> for_each_entry s1 mb;
         let (pairs, s) = filter_pairs S (List.product es_a es_b) s1;
         (status, res_edges, _, s) \<leftarrow>
           run_items (\<lambda>_. True) (\<lambda>s p. mtpndd_should_spawn s (child_a p) (child_b p))
             (mtpndd_and_merge_item S) (plain_item (mtpndd_and_recurse_pair rec)) pairs m () s;
         Some (status, res_edges, s) })"
    unfolding mtpndd_and_two_phase_same_field_def ne Option.bind.bind_lunit
      Let_def[of "edge_count ma * edge_count mb"] ok[unfolded n_def] by (simp only: prod.case Let_def[of "(ok, s1)"])
  have w1: "work S M E s0 T s1" "wf_map s1 m" "\<not> ok \<Longrightarrow> failed s1"
    using ok w m(1) malloc_work[OF w] by (auto split: if_splits prod.splits)
  show ?thesis
  proof (cases ok)
    case False
    then have "built S M E s0 f (\<lambda>env. holds M s0 env a \<and> holds M s0 env b) MTPNDD_ERROR_OUT_OF_MEMORY m s1"
      using w1 by (auto simp: built_def)
    then show ?thesis using False by (simp add: run)
  next
    case True
    let ?ts = "List.product (entries ma) (entries mb)"
    obtain s2 where s2: "filter_pairs S ?ts s1 = (map (mk_pair S) (filter (meets S) ?ts), s2)" "quiet s1 s2"
      using filter_pairs_spec by blast
    have w2: "work S M E s0 T s2" "wf_map s2 m" using quiet_work[OF w1(1) s2(2)] wf_map_quiet[OF s2(2)] w1(2) by auto
    show ?thesis using two_phase_loop[OF rec w2(1) si a b fu w2(2) m(2)] True wf s2(1) by (auto simp: run)
  qed
qed

lemma and_build_same_spec:
  assumes rec: "rec2_ok S M (\<and>) k rec" and w: "work S M E s0 T s" and si: "sinv S M s0"
    and a: "inner E s0 a f ma" and b: "inner E s0 b f mb" and fu: "fuel_ok s0 (Suc k) f"
    and m: "wf_map s m" "emap m = Map.empty"
  shows "\<exists>st m' s'. and_build_same S rec a b m s = Some (st, m', s')
     \<and> built S M E s0 f (\<lambda>env. holds M s0 env a \<and> holds M s0 env b) st m' s'"
proof -
  have ne: "node_edges s a = Some ma" "node_edges s b = Some mb"
    using work_live(6)[OF w] innerD(1,4)[OF a] innerD(1,4)[OF b] by auto
  have wf: "wf_map s0 ma" "wf_map s0 mb" using inner_map(1)[OF si] a b by blast+
  show ?thesis using two_phase_spec[OF assms] and_build_same_loop[OF rec w si a b fu m] ne wf
    by (auto simp: and_build_same_def)
qed

section \<open>Operands at different fields\<close>

lemma and_diff_item:
  assumes rec: "rec2_ok S M (\<and>) k rec" and w: "work S M E s0 T s" and si: "sinv S M s0"
    and a: "inner E s0 a f ma" and b: "live E s0 b" "boolean s0 b" "f < fieldof s0 b"
    and e: "e \<in> set (entries ma)" and fu: "fuel_ok s0 (Suc k) f"
  shows "\<exists>it s'. mtpndd_and_diff_field_item S rec b e s = Some (it, s')
     \<and> item_post S M E T s f (bdd_sem M (ee_label e))
         (\<lambda>env. holds M s0 env (ee_child e) \<and> holds M s0 env b) it s'"
proof -
  note A = inner_entry[OF si a e]
  let ?l = "ee_label e" and ?s1 = "sylvan_ref (ee_label e) s"
  have w1: "work S M E s0 T ?s1" by (rule quiet_work[OF w]) simp
  have "f < min (fieldof s0 (ee_child e)) (fieldof s0 b)" using A(6) b(3) by simp
  then have fu': "fuel_ok s0 k (min (fieldof s0 (ee_child e)) (fieldof s0 b))"
    by (rule fuel_ok_step[OF fu inner_map(4)[OF si a]])
  from recurse_item_spec[where undo = "sylvan_deref ?l" and region = "bdd_sem M ?l"
      and meaning = "\<lambda>env. holds M s0 env (ee_child e) \<and> holds M s0 env b", OF rec w1 quiet_log(2) A(4-6) b fu' A(2,3)]
  obtain it s' where r: "recurse_item rec (ee_child e) b (sylvan_deref ?l) ?l ?s1 = Some (it, s')"
    "item_post S M E T ?s1 f (bdd_sem M ?l) (\<lambda>env. holds M s0 env (ee_child e) \<and> holds M s0 env b) it s'" by auto
  have "item_post S M E T s f (bdd_sem M ?l) (\<lambda>env. holds M s0 env (ee_child e) \<and> holds M s0 env b) it s'"
    by (rule item_post_quiet[OF w _ r(2)]) (simp_all add: quiet_refl)
  then show ?thesis using r(1)
    by (simp add: mtpndd_and_diff_field_item_def recurse_item_def mtpndd_edge_label_load_def Let_def)
qed

lemma and_build_diff_spec:
  assumes rec: "rec2_ok S M (\<and>) k rec" and w: "work S M E s0 T s" and si: "sinv S M s0"
    and a: "inner E s0 a f ma" and b: "live E s0 b" "boolean s0 b" "f < fieldof s0 b"
    and fu: "fuel_ok s0 (Suc k) f" and m: "wf_map s m" "emap m = Map.empty"
  shows "\<exists>st m' s'. and_build_diff S rec a b m s = Some (st, m', s')
     \<and> built S M E s0 f (\<lambda>env. holds M s0 env a \<and> holds M s0 env b) st m' s'"
proof -
  let ?es = "entries ma"
  let ?mean = "\<lambda>e env. holds M s0 env (ee_child e) \<and> holds M s0 env b"
  let ?reg = "\<lambda>e. bdd_sem M (ee_label e)"
  have ne: "node_edges s' a = Some ma" if "work S M E s0 T' s'" for T' s'
    using work_live(6)[OF that] innerD(1,4)[OF a] by simp
  have ok: "items_ok S M E s0 f ?reg ?mean no_shared (set ?es) (plain_item (mtpndd_and_diff_field_item S rec b))"
    by (rule plain_items_ok[OF and_diff_item[OF rec _ si a b _ fu] inner_apart[OF si a]])
  have al: "\<forall>T s. work S M E s0 T s \<longrightarrow> node_edges s a = Some ma" using ne by blast
  have sp: "\<forall>T s e. work S M E s0 T s \<longrightarrow> e \<in> set ?es \<longrightarrow> (\<exists>c. mtpndd_should_spawn s (ee_child e) b = Some c)"
    using spawn_total inner_entry(4)[OF si a] b(1) by blast
  have inv: "task_inv S M E s0 f ?reg ?mean no_shared {} T m () s"
    using built_empty[OF w m] by (simp add: task_inv_def no_shared_def)
  obtain st m' x' s' where r: "run_items (\<lambda>s. node_edges s a = Some ma)
      (\<lambda>s entry_a. mtpndd_should_spawn s (ee_child entry_a) b) (mtpndd_and_merge_item S)
      (plain_item (mtpndd_and_diff_field_item S rec b)) ?es m () s = Some (st, m', x', s')"
    "outcome S M E s0 f ?reg ?mean no_shared (set ?es) st m' x' s'"
    using run_items_spec[OF ok al sp inner_map(5)[OF si a] inv] by (elim exE conjE)
  have "(holds M s0 env a \<and> holds M s0 env b) \<longleftrightarrow> (\<exists>e\<in>set ?es. ?reg e (env f) \<and> ?mean e env)" for env
    unfolding inner_holds[OF si a] by blast
  from outcome_built[OF r(2) this] show ?thesis using r(1) ne[OF w] inner_map(1)[OF si a]
    by (simp add: and_build_diff_def)
qed

end

section \<open>The whole operation\<close>

lemma bin_entry_swap: "(\<And>x y. conn x y = conn y x) \<Longrightarrow> bin_entry conn M s a b r = bin_entry conn M s b a r"
  by (auto simp: bin_entry_def min.commute)

lemma sorted_entry:
  assumes "\<And>x y. conn x y = conn y x" "sort_operands a b = (x, y)"
  shows "bin_entry conn M s x y r = bin_entry conn M s a b r"
  using assms bin_entry_swap[OF assms(1)] by (auto simp: sort_operands_def split: if_splits)

lemma sorted_known:
  assumes w: "work S M E s0 T s" and "live E s0 a" "live E s0 b" "sort_operands a b = (x, y)"
  shows "node_known s x" "node_known s y"
  using assms work_known[OF w] by (auto simp: sort_operands_def split: if_splits)

lemma work_bin_entry:
  assumes w: "work S M E s0 T s" and a: "live E s0 a" and b: "live E s0 b"
    and r: "res_ok M s (min (fieldof s0 a) (fieldof s0 b)) (\<lambda>env. conn (holds M s0 env a) (holds M s0 env b)) r"
  shows "bin_entry conn M s a b r"
  using work_live(4,5,8)[OF w a] work_live(4,5,8)[OF w b] res_ok_known[OF w r] r by (simp add: bin_entry_def)

context sylvan_laws
begin

lemma and_close:
  assumes bt: "built S M E s0 f (\<lambda>env. holds M s0 env a \<and> holds M s0 env b) st m s"
    and a: "live E s0 a" "live E s0 b" and f: "f = min (fieldof s0 a) (fieldof s0 b)" "f \<in> tabled s0"
    and p: "p \<in> {a, b}" "fieldof s0 p = f" and so: "sort_operands a b = (x, y)"
  shows "\<exists>r s'. (if st \<noteq> MTPNDD_SUCCESS then give_up (length (stack s0)) m s
            else do {
              field \<leftarrow> node_field s p;
              (res_node, s) \<leftarrow> mtpndd_mk S field m s;
              if res_node = NULL then give_up (length (stack s0)) m s
              else do {
                s \<leftarrow> mtpndd_temp_refs_release (length (stack s0)) s;
                c \<leftarrow> mtpndd_op_cache_store_binary s (and_cache s) x y res_node;
                Some (res_node, s\<lparr>and_cache := c\<rparr>)
              }
            }) = Some (r, s') \<and> op_post S M E s0 f (\<lambda>env. holds M s0 env a \<and> holds M s0 env b) r s'"
proof (cases "st = MTPNDD_SUCCESS")
  case False
  then show ?thesis using bt give_up_spec unfolding built_def by (metis (no_types, lifting))
next
  case True
  let ?H = "\<lambda>env. holds M s0 env a \<and> holds M s0 env b"
  obtain T r s1 where r: "mtpndd_mk S f m s = Some (r, s1)" "work S M E s0 T s1" "wf_map s1 m"
    "if r = NULL then failed s1 else res_ok M s1 f ?H r"
    using built_mk[OF bt[unfolded True] f(2)] by blast
  obtain T0 where w: "work S M E s0 T0 s" using bt by (auto simp: built_def)
  have lp: "live E s0 p" using p a by auto
  have nf: "node_field s p = Some f"
    using work_live(4,8)[OF w lp] p(2) by (auto simp: node_field_def)
  show ?thesis
  proof (cases "r = NULL")
    case null: True
    then have "failed s1" using r(4) by simp
    from give_up_spec[OF r(2,3) this, of f ?H] show ?thesis using True nf r(1) null by auto
  next
    case False
    obtain s2 where s2: "mtpndd_temp_refs_release (length (stack s0)) s1 = Some s2" "touch s1 s2" "work S M E s0 [] s2"
      using release_work[OF r(2)] by blast
    have ro: "res_ok M s2 f ?H r"
      by (rule res_ok_agree[OF touch_agree[OF s2(2)]]) (use r(4) False s2(2) in \<open>auto simp: touch_def\<close>)
    note kn = sorted_known[OF s2(3) a so]
    have "bin_entry (\<and>) M s2 a b r" by (rule work_bin_entry[OF s2(3) a]) (use ro f(1) in simp)
    then have "bin_entry (\<and>) M s2 x y r" using sorted_entry[OF _ so, of "(\<and>)"] by blast
    then show ?thesis using store_and[OF s2(3) kn _ ro] True False nf r(1) s2(1) by auto
  qed
qed

lemma and_build_spec:
  assumes rec: "rec2_ok S M (\<and>) k rec" and w: "work S M E s0 T s" and si: "sinv S M s0"
    and a: "inner E s0 a fa ma" and b: "inner E s0 b fb mb" and fu: "fuel_ok s0 (Suc k) (min fa fb)"
    and m: "wf_map s m" "emap m = Map.empty"
  defines "p \<equiv> (if fb < fa then b else a)" and "q \<equiv> (if fb < fa then a else b)"
  shows "\<exists>st m' s'. (if fa = fb then and_build_same S rec p q m s else and_build_diff S rec p q m s) = Some (st, m', s')
     \<and> built S M E s0 (min fa fb) (\<lambda>env. holds M s0 env a \<and> holds M s0 env b) st m' s'"
proof -
  consider "fa = fb" | "fa < fb" | "fb < fa" by linarith
  then show ?thesis
  proof cases
    case 1
    then show ?thesis using and_build_same_spec[OF rec w si a _ _ m] b fu by (simp add: p_def q_def)
  next
    case 2
    have "fa < fieldof s0 b" using 2 innerD(6)[OF b] by simp
    from and_build_diff_spec[OF rec w si a innerD(1,2)[OF b] this _ m] 2 fu show ?thesis
      by (simp add: p_def q_def min_def)
  next
    case 3
    have f: "fb < fieldof s0 a" using 3 innerD(6)[OF a] by simp
    have eq: "(\<lambda>env. holds M s0 env b \<and> holds M s0 env a) = (\<lambda>env. holds M s0 env a \<and> holds M s0 env b)" by auto
    from and_build_diff_spec[OF rec w si b innerD(1,2)[OF a] f _ m] 3 fu show ?thesis unfolding eq
      by (simp add: p_def q_def min_def)
  qed
qed

lemma and_miss:
  assumes rec: "rec2_ok S M (\<and>) k rec" and h: "hinv S M E s" and c: "cinv M s"
    and l: "live E s a" "live E s b" and bo: "boolean s a" "boolean s b"
    and fu: "fuel_ok s (Suc k) (min (fieldof s a) (fieldof s b))"
    and ni: "a \<notin> {MTPNDD_TRUE, MTPNDD_FALSE}" "b \<notin> {MTPNDD_TRUE, MTPNDD_FALSE}" "a \<noteq> b"
    and so: "sort_operands a b = (x, y)" and lk: "mtpndd_op_cache_lookup_binary s (and_cache s) x y = Some NULL"
  shows "\<exists>r s'. and_body S rec a b s = Some (r, s')
     \<and> op_post S M E s (min (fieldof s a) (fieldof s b)) (\<lambda>env. holds M s env a \<and> holds M s env b) r s'"
proof -
  let ?H = "\<lambda>env. holds M s env a \<and> holds M s env b"
  have si: "sinv S M s" using h by (simp add: hinv_def)
  obtain fa ma where a: "inner E s a fa ma" using inner_cases[OF si l(1) bo(1)] ni(1) by blast
  obtain fb mb where b: "inner E s b fb mb" using inner_cases[OF si l(2) bo(2)] ni(2) by blast
  have lo: "min (fieldof s a) (fieldof s b) = min fa fb" using innerD(6)[OF a] innerD(6)[OF b] by simp
  obtain r s1 where m: "mtpndd_memory_acquire_edge_map s = (r, s1)" by fastforce
  note aw = acquire_work[OF h c m]
  have nt: "\<not> (mtpndd_is_false a \<or> mtpndd_is_true b)" "\<not> (mtpndd_is_false b \<or> mtpndd_is_true a \<or> a = b)"
    using ni by (auto simp: mtpndd_is_false_def mtpndd_is_true_def)
  show ?thesis
  proof (cases r)
    case None
    let ?s2 = "mtpndd_set_error MTPNDD_ERROR_OUT_OF_MEMORY ''mtpndd_and_rec'' 981 s1"
    have "work S M E s [] ?s2" "failed ?s2"
      using quiet_work[OF aw(1) quiet_log(3)] touch_failed[OF quiet_touch[OF quiet_log(3)] aw(2)[OF None]] by auto
    then show ?thesis using op_post_null nt so lk m None by (auto simp: and_body_def)
  next
    case (Some m0)
    obtain m1 where m1: "mtpndd_edge_map_init s1 m0 = Some m1" "wf_map s1 m1" "emap m1 = Map.empty"
      using aw(3)[OF Some] by blast
    have nf: "node_field s1 a = Some fa" "node_field s1 b = Some fb"
      using work_live(7)[OF aw(1)] l innerD(5)[OF a] innerD(5)[OF b] by auto
    have fr: "mtpndd_temp_refs_init s1 = length (stack s)"
      using workD(5)[OF aw(1)] by (simp add: mtpndd_temp_refs_init_def)
    define p q where pq: "p = (if fb < fa then b else a)" "q = (if fb < fa then a else b)"
    obtain st m2 s2 where b2: "(if fa = fb then and_build_same S rec p q m1 s1 else and_build_diff S rec p q m1 s1)
        = Some (st, m2, s2)" "built S M E s (min fa fb) ?H st m2 s2"
      using and_build_spec[OF rec aw(1) si a b _ m1(2,3)] fu lo unfolding pq by auto
    have f: "min fa fb \<in> tabled s" using inner_map(7)[OF si a] inner_map(7)[OF si b] by (simp add: min_def)
    have p: "p \<in> {a, b}" "fieldof s p = min fa fb" using innerD(6)[OF a] innerD(6)[OF b] by (auto simp: pq)
    have sw: "(if fb < fa then (b, a) else (a, b)) = (p, q)" by (simp add: pq)
    from and_close[OF b2(2) l lo[symmetric] f p so, folded fr] show ?thesis
      using nt by (simp add: and_body_def so lk m Some m1(1) nf b2(1) lo sw Let_def split del: if_split)
  qed
qed

lemma and_step:
  assumes rec: "rec2_ok S M (\<and>) k rec" shows "rec2_ok S M (\<and>) (Suc k) (and_body S rec)"
  unfolding rec2_ok_def
proof (intro allI impI)
  fix E s a b
  assume h: "hinv S M E s" and c: "cinv M s" and l: "live E s a" "live E s b" and bo: "boolean s a" "boolean s b"
    and fu: "fuel_ok s (Suc k) (min (fieldof s a) (fieldof s b))"
  let ?lo = "min (fieldof s a) (fieldof s b)" and ?H = "\<lambda>env. holds M s env a \<and> holds M s env b"
  have si: "sinv S M s" using h by (simp add: hinv_def)
  note hf = holds_false[OF si]
  consider (left) "mtpndd_is_false a \<or> mtpndd_is_true b"
    | (right) "\<not> (mtpndd_is_false a \<or> mtpndd_is_true b)" "mtpndd_is_false b \<or> mtpndd_is_true a \<or> a = b"
    | (inner) "a \<notin> {MTPNDD_TRUE, MTPNDD_FALSE}" "b \<notin> {MTPNDD_TRUE, MTPNDD_FALSE}" "a \<noteq> b"
    by (auto simp: mtpndd_is_false_def mtpndd_is_true_def)
  then show "\<exists>r s'. and_body S rec a b s = Some (r, s') \<and> op_post S M E s ?lo ?H r s'"
  proof cases
    case left
    then have "op_post S M E s ?lo ?H a s"
      by (intro op_post_self[OF h c bo(1)]) (use hf in \<open>auto simp: mtpndd_is_false_def mtpndd_is_true_def\<close>)
    then show ?thesis using left by (auto simp: and_body_def)
  next
    case right
    then have "op_post S M E s ?lo ?H b s"
      by (intro op_post_self[OF h c bo(2)]) (use hf in \<open>auto simp: mtpndd_is_false_def mtpndd_is_true_def\<close>)
    then show ?thesis using right by (auto simp: and_body_def)
  next
    case inner
    obtain x y where so: "sort_operands a b = (x, y)" by fastforce
    have w0: "work S M E s [] s" by (rule work_refl[OF h c])
    note kn = sorted_known[OF w0 l so]
    obtain r where r: "mtpndd_op_cache_lookup_binary s (and_cache s) x y = Some r"
      "r \<noteq> NULL \<longrightarrow> cached (and_cache s) x y r"
      using lookup_binary_spec[OF _ kn] cinvD(1)[OF c] by (auto simp: ctx_ok_def caches_shape_def)
    show ?thesis
    proof (cases "r = NULL")
      case False
      then have "bin_entry (\<and>) M s a b r" using cinvD(2)[OF c] r(2) sorted_entry[OF _ so, of "(\<and>)"] by blast
      then have "op_post S M E s ?lo ?H r s" using op_post_result[OF w0] bo by (simp add: bin_entry_def)
      then show ?thesis using inner so r(1) False by (auto simp: and_body_def mtpndd_is_false_def mtpndd_is_true_def)
    next
      case True
      then show ?thesis using and_miss[OF rec h c l bo fu inner so] r(1) by simp
    qed
  qed
qed

lemma and_rec_ok: "rec2_ok S M (\<and>) k (mtpndd_and_rec k S)"
proof (induction k)
  case 0
  then show ?case by (simp add: rec2_ok_def)
next
  case (Suc k)
  then show ?case by (simp add: and_step)
qed

end

end
