(* ===== verification/Not_Correct.thy ===== *)
theory Not_Correct
  imports Item_Task
begin

text \<open>
  Negation.  The tasks negate the children and cut the labels out of the residual, which starts
  as the full label; when the tasks are done the residual is what no edge covers, and it leads
  to TRUE.
\<close>

section \<open>The residual\<close>

definition uncovered :: "bdd_model \<Rightarrow> edge_bucket_entry set \<Rightarrow> bdd \<Rightarrow> mstate \<Rightarrow> bool" where
  "uncovered M D residual s \<longleftrightarrow> bdd_ok M residual
     \<and> (\<forall>v. bdd_sem M residual v \<longleftrightarrow> \<not> (\<exists>e\<in>D. bdd_sem M (ee_label e) v))"

context sylvan_laws
begin

lemma uncovered_start: "uncovered M {} (sylvan_true S) s"
  by (simp add: uncovered_def)

lemma residual_cut_spec:
  assumes x: "uncovered M D x s" and l: "bdd_ok M (ee_label e)"
  shows "\<exists>x' s'. residual_cut S (ee_label e) x s = (x', s') \<and> uncovered M (insert e D) x' s' \<and> quiet s s'"
proof -
  have "quiet s (snd (residual_cut S (ee_label e) x s))"
    unfolding residual_cut_def Let_def snd_conv by (meson quiet_log quiet_trans)
  moreover have "uncovered M (insert e D) (fst (residual_cut S (ee_label e) x s)) s'" for s'
    using x l by (auto simp: residual_cut_def Let_def uncovered_def)
  ultimately show ?thesis by (metis prod.collapse)
qed

end

lemma uncovered_any: "uncovered M D x s = uncovered M D x s'"
  by (simp add: uncovered_def)

section \<open>Items\<close>

lemma recurse_item1_spec:
  assumes rec: "rec1_ok S M k rec" and w: "work S M E s0 T s"
    and c: "live E s0 c" "boolean s0 c" "f < fieldof s0 c"
    and fu: "fuel_ok s0 k (fieldof s0 c)" and l: "bdd_ok M l" "l \<noteq> sylvan_false S"
  shows "\<exists>r s1. rec c s = Some (r, s1)
     \<and> (r = NULL \<longrightarrow> item_post S M E T s f (bdd_sem M l) (\<lambda>env. \<not> holds M s0 env c) (no_item st) s1)
     \<and> (r \<noteq> NULL \<longrightarrow> (\<exists>it s2. finish_item l (r, s1) = Some (it, s2)
          \<and> item_post S M E T s f (bdd_sem M l) (\<lambda>env. \<not> holds M s0 env c) it s2))"
proof -
  note wc = work_live[OF w c(1)]
  have fu': "fuel_ok s k (fieldof s c)" using fu fuel_ok_cong[OF work_fields[OF w]] wc(4) by simp
  obtain r s1 where r: "rec c s = Some (r, s1)" "keeps E s s1"
    "op_post S M (E + mset T) s (fieldof s c) (\<lambda>env. \<not> holds M s env c) r s1"
    using rec1_both[OF rec workD(1,2)[OF w] wc(1) _ fu'] c(2) wc(3) by blast
  have "f < fieldof s c" using c(3) wc(4) by simp
  note fi = finish_item_spec[OF w r(3,2) _ this l, where region = "bdd_sem M l" and meaning = "\<lambda>env. \<not> holds M s0 env c"]
  show ?thesis using r fi null_item_post[of S M E T s] wc(5) by auto
qed

context sylvan_laws
begin

lemma not_item:
  assumes rec: "rec1_ok S M k rec" and w: "work S M E s0 T s" and si: "sinv S M s0"
    and a: "inner E s0 a f ma" and e: "e \<in> set (entries ma)" and fu: "fuel_ok s0 (Suc k) f"
    and x: "uncovered M D x s"
  shows "\<exists>it x' s'. mtpndd_not_expand_item S rec e x s = Some (it, x', s')
     \<and> item_post S M E T s f (bdd_sem M (ee_label e)) (\<lambda>env. \<not> holds M s0 env (ee_child e)) it s'
     \<and> uncovered M (insert e D) x' s'"
proof -
  note A = inner_entry[OF si a e]
  obtain x' s1 where c: "residual_cut S (ee_label e) x s = (x', s1)" "uncovered M (insert e D) x' s1" "quiet s s1"
    using residual_cut_spec[OF x A(2)] by blast
  have fu': "fuel_ok s0 k (fieldof s0 (ee_child e))" by (rule fuel_ok_step[OF fu inner_map(4)[OF si a] A(6)])
  note ri = recurse_item1_spec[OF rec quiet_work[OF w c(3)] A(4-6) fu' A(2,3)]
  obtain r s2 where r: "rec (ee_child e) s1 = Some (r, s2)" using ri by blast
  note post = item_post_quiet[OF w c(3)]
  have u: "uncovered M (insert e D) x' s'" for s' using c(2) uncovered_any by blast
  show ?thesis
  proof (cases "r = NULL")
    case True
    have "item_post S M E T s f (bdd_sem M (ee_label e)) (\<lambda>env. \<not> holds M s0 env (ee_child e)) (no_item st) s2" for st
      using ri[of st] r True post[OF _ quiet_refl] by simp
    then show ?thesis using c(1) r True u
      by (auto simp: mtpndd_not_expand_item_def mtpndd_edge_label_load_def)
  next
    case False
    then obtain it s3 where it: "finish_item (ee_label e) (r, s2) = Some (it, s3)"
      "item_post S M E T s1 f (bdd_sem M (ee_label e)) (\<lambda>env. \<not> holds M s0 env (ee_child e)) it s3"
      using ri r by auto
    then show ?thesis using c(1) r False u post[OF it(2) quiet_log(1)]
      by (auto simp: mtpndd_not_expand_item_def mtpndd_edge_label_load_def)
  qed
qed

lemma not_items_ok:
  assumes rec: "rec1_ok S M k rec" and si: "sinv S M s0" and a: "inner E s0 a f ma" and fu: "fuel_ok s0 (Suc k) f"
  shows "items_ok S M E s0 f (\<lambda>e. bdd_sem M (ee_label e)) (\<lambda>e env. \<not> holds M s0 env (ee_child e)) (uncovered M)
     (set (entries ma)) (mtpndd_not_expand_item S rec)"
  unfolding items_ok_def
proof (intro conjI ballI allI impI)
  fix e D T x s assume "e \<in> set (entries ma)" "work S M E s0 T s" "uncovered M D x s"
  from not_item[OF rec this(2) si a this(1) fu this(3)]
  show "\<exists>it x' s'. mtpndd_not_expand_item S rec e x s = Some (it, x', s')
     \<and> item_post S M E T s f (bdd_sem M (ee_label e)) (\<lambda>env. \<not> holds M s0 env (ee_child e)) it s'
     \<and> uncovered M (insert e D) x' s'" .
qed (use inner_apart[OF si a] uncovered_any in \<open>blast+\<close>)

end

section \<open>The edge to TRUE\<close>

lemma inner_not_holds:
  assumes si: "sinv S M s" and a: "inner E s a f m"
  shows "\<not> holds M s env a \<longleftrightarrow>
     (\<exists>e\<in>set (entries m). bdd_sem M (ee_label e) (env f) \<and> \<not> holds M s env (ee_child e))
     \<or> \<not> (\<exists>e\<in>set (entries m). bdd_sem M (ee_label e) (env f))"
  unfolding inner_holds[OF si a] using inner_apart[OF si a] by blast

lemma built_fail: "work S M E s0 T s \<Longrightarrow> wf_map s m \<Longrightarrow> failed s \<Longrightarrow> st \<noteq> MTPNDD_SUCCESS \<Longrightarrow> built S M E s0 f H st m s"
  by (auto simp: built_def)

lemma built_quiet_fail:
  assumes w: "work S M E s0 T s" and m: "wf_map s m" and f: "failed s" and q: "quiet s s'"
  shows "built S M E s0 f H MTPNDD_ERROR_OUT_OF_MEMORY m s'"
  by (rule built_fail[OF quiet_work[OF w q]]) (use wf_map_quiet[OF q] m touch_failed[OF quiet_touch[OF q] f] in auto)

definition add_rest :: "sylvan \<Rightarrow> ptr \<Rightarrow> bdd \<Rightarrow> mtpndd_edge \<Rightarrow> mstate \<Rightarrow> (bool \<times> mtpndd_edge \<times> mstate) option" where
  "add_rest S p residual m s =
     (if residual = sylvan_false S then Some (True, m, s)
      else do {
        (ok, s) \<leftarrow> mtpndd_temp_refs_push p s;
        if \<not> ok then Some (False, m, sylvan_deref residual s)
        else do {
          (status, m, s) \<leftarrow> mtpndd_add_edge S m p residual s;
          if status \<noteq> MTPNDD_SUCCESS then Some (False, m, sylvan_deref residual s) else Some (True, m, s)
        }
      })"

context sylvan_laws
begin

lemma add_rest_spec:
  assumes w: "work S M E s0 T s" and b: "building S M s f T m R G"
    and c: "boolean s c" "f < fieldof s c" and l: "bdd_ok M l" and dis: "\<And>v. bdd_sem M l v \<Longrightarrow> \<not> R v"
    and H: "\<And>env. H env \<longleftrightarrow> G (env f) env \<or> bdd_sem M l (env f) \<and> holds M s env c"
  shows "\<exists>ok m' s'. add_rest S c l m s = Some (ok, m', s')
     \<and> built S M E s0 f H (if ok then MTPNDD_SUCCESS else MTPNDD_ERROR_OUT_OF_MEMORY) m' s'"
proof (cases "l = sylvan_false S")
  case True
  have "wf_map s m" using b by (simp add: building_def map_wf_def)
  moreover have "building S M s f T m (\<lambda>_. True) G" by (rule building_cong[OF b]) auto
  moreover have "\<forall>env. G (env f) env \<longleftrightarrow> H env" using H True by simp
  ultimately show ?thesis using True w by (auto simp: built_def add_rest_def)
next
  case False
  let ?R = "\<lambda>v. R v \<or> bdd_sem M l v" and ?G = "\<lambda>v env. G v env \<or> bdd_sem M l v \<and> holds M s env c"
  obtain ok s1 where p: "mtpndd_temp_refs_push c s = Some (ok, s1)" "touch s s1"
    "if ok then \<forall>s2. quiet s1 s2 \<longrightarrow> (\<exists>st m' s3. mtpndd_add_edge S m c l s2 = Some (st, m', s3) \<and> touch s s3
        \<and> merged S M E s0 f ?R ?G s (st, m', s3))
     else work S M E s0 T s1 \<and> wf_map s1 m \<and> failed s1"
    using push_edge[OF w b c l False dis] by blast
  show ?thesis
  proof (cases ok)
    case no: False
    then have "work S M E s0 T s1" "wf_map s1 m" "failed s1" using p(3) by auto
    from built_quiet_fail[OF this quiet_log(2)] show ?thesis using p(1) no False by (auto simp: add_rest_def)
  next
    case True
    from p(3)[unfolded if_P[OF True], THEN spec, THEN mp, OF quiet_refl] obtain st m' s3 where
      a: "mtpndd_add_edge S m c l s1 = Some (st, m', s3)" "merged S M E s0 f ?R ?G s (st, m', s3)"
      by (elim exE conjE)
    obtain T' where T': "work S M E s0 T' s3" "wf_map s3 m'"
      "if st = MTPNDD_SUCCESS then building S M s3 f T' m' ?R ?G else failed s3" using a(2) by (auto simp: merged_def)
    show ?thesis
    proof (cases "st = MTPNDD_SUCCESS")
      case st: True
      then have "building S M s3 f T' m' (\<lambda>_. True) ?G" using building_cong[where R' = "\<lambda>_. True"] T'(3) by simp
      moreover have "\<forall>env. ?G (env f) env \<longleftrightarrow> H env" using H by simp
      ultimately have "built S M E s0 f H MTPNDD_SUCCESS m' s3" using T' unfolding built_def by auto
      then show ?thesis using False True p(1) a(1) st by (intro exI[of _ True]) (simp add: add_rest_def)
    next
      case nst: False
      then have "built S M E s0 f H MTPNDD_ERROR_OUT_OF_MEMORY m' (sylvan_deref l s3)"
        using built_quiet_fail[OF T'(1,2) _ quiet_log(2)] T'(3) by simp
      then show ?thesis using False True p(1) a(1) nst by (intro exI[of _ False]) (simp add: add_rest_def)
    qed
  qed
qed


section \<open>The whole operation\<close>

lemma built_close_free:
  assumes bt: "built S M E s0 f H st m s" and st: "st \<noteq> MTPNDD_SUCCESS"
  shows "\<exists>s'. give_up_free (length (stack s0)) m s = Some (NULL, s') \<and> op_post S M E s0 f H NULL s'"
  using bt st give_up_free_spec unfolding built_def by metis

lemma built_close:
  assumes bt: "built S M E s0 f H st m s" and st: "st \<noteq> MTPNDD_SUCCESS"
  shows "\<exists>s'. give_up (length (stack s0)) m s = Some (NULL, s') \<and> op_post S M E s0 f H NULL s'"
  using bt st give_up_spec unfolding built_def by metis

lemma mk_and_release:
  assumes bt: "built S M E s0 f H MTPNDD_SUCCESS m s" and f: "f \<in> tabled s0"
  shows "\<exists>r s1. mtpndd_mk S f m s = Some (r, s1) \<and>
     (if r = NULL then \<exists>s'. give_up_free (length (stack s0)) m s1 = Some (NULL, s') \<and> op_post S M E s0 f H NULL s'
      else \<exists>s2. mtpndd_temp_refs_release (length (stack s0)) s1 = Some s2 \<and> work S M E s0 [] s2 \<and> res_ok M s2 f H r)"
proof -
  obtain T r s1 where r: "mtpndd_mk S f m s = Some (r, s1)" "work S M E s0 T s1" "wf_map s1 m"
    "if r = NULL then failed s1 else res_ok M s1 f H r" using built_mk[OF bt f] by blast
  show ?thesis
  proof (cases "r = NULL")
    case True
    then show ?thesis using r give_up_free_spec[OF r(2,3)] by simp
  next
    case False
    obtain s2 where s2: "mtpndd_temp_refs_release (length (stack s0)) s1 = Some s2" "touch s1 s2" "work S M E s0 [] s2"
      using release_work[OF r(2)] by blast
    have "res_ok M s2 f H r"
      by (rule res_ok_agree[OF touch_agree[OF s2(2)]]) (use r(4) False s2(2) in \<open>auto simp: touch_def\<close>)
    then show ?thesis using r(1) False s2 by auto
  qed
qed

lemma not_close_spec:
  assumes ti: "task_inv S M E s0 f (\<lambda>e. bdd_sem M (ee_label e)) (\<lambda>e env. \<not> holds M s0 env (ee_child e)) (uncovered M)
      (set (entries ma)) T m x s" and si: "sinv S M s0" and a: "inner E s0 a f ma"
  shows "\<exists>r s'. not_close S (length (stack s0)) a x m s = Some (r, s')
     \<and> op_post S M E s0 f (\<lambda>env. \<not> holds M s0 env a) r s'"
proof -
  let ?H = "\<lambda>env. \<not> holds M s0 env a"
  have w: "work S M E s0 T s" and x: "uncovered M (set (entries ma)) x s"
    and b: "building S M s f T m (\<lambda>v. \<exists>e\<in>set (entries ma). bdd_sem M (ee_label e) v)
      (\<lambda>v env. \<exists>e\<in>set (entries ma). bdd_sem M (ee_label e) v \<and> \<not> holds M s0 env (ee_child e))"
    using ti by (auto simp: task_inv_def)
  have f: "f \<in> tabled s0" by (rule inner_map(7)[OF si a])
  have "f < fieldof s MTPNDD_TRUE" using sentinel_field(3)[OF workD(6)[OF w]] tabledD[OF f] work_fields[OF w] by simp
  from add_rest_spec[OF w b boolean_true this, of x ?H] obtain ok m1 s1 where
    r: "add_rest S MTPNDD_TRUE x m s = Some (ok, m1, s1)"
      "built S M E s0 f ?H (if ok then MTPNDD_SUCCESS else MTPNDD_ERROR_OUT_OF_MEMORY) m1 s1"
    using x inner_not_holds[OF si a] by (auto simp: uncovered_def)
  have run: "not_close S (length (stack s0)) a x m s = (if \<not> ok then give_up_free (length (stack s0)) m1 s1
     else do {
       field \<leftarrow> node_field s1 a;
       (res_node, s) \<leftarrow> mtpndd_mk S field m1 s1;
       if res_node = NULL then give_up_free (length (stack s0)) m1 s
       else do {
         s \<leftarrow> mtpndd_temp_refs_release (length (stack s0)) s;
         c \<leftarrow> mtpndd_op_cache_store_unary s (not_cache s) a res_node;
         Some (res_node, s\<lparr>not_cache := c\<rparr>)
       } })" using r(1) unfolding not_close_def add_rest_def[symmetric] by simp
  show ?thesis
  proof (cases ok)
    case False
    then show ?thesis using built_close_free[OF r(2)] by (auto simp: run)
  next
    case True
    obtain T1 where w1: "work S M E s0 T1 s1" using r(2) by (auto simp: built_def)
    have nf: "node_field s1 a = Some f" using work_live(7)[OF w1 innerD(1)[OF a]] innerD(5)[OF a] by simp
    have eq: "(if ok then MTPNDD_SUCCESS else MTPNDD_ERROR_OUT_OF_MEMORY) = MTPNDD_SUCCESS" using True by simp
    obtain r' s2 where m: "mtpndd_mk S f m1 s1 = Some (r', s2)"
      "if r' = NULL then \<exists>s'. give_up_free (length (stack s0)) m1 s2 = Some (NULL, s') \<and> op_post S M E s0 f ?H NULL s'
       else \<exists>s3. mtpndd_temp_refs_release (length (stack s0)) s2 = Some s3 \<and> work S M E s0 [] s3 \<and> res_ok M s3 f ?H r'"
      using mk_and_release[OF r(2)[unfolded eq] f] by (elim exE conjE)
    show ?thesis
    proof (cases "r' = NULL")
      case null: True
      then show ?thesis using m True nf by (auto simp: run)
    next
      case nn: False
      then obtain s3 where s3: "mtpndd_temp_refs_release (length (stack s0)) s2 = Some s3" "work S M E s0 [] s3"
        "res_ok M s3 f ?H r'" using m(2) by auto
      note l = innerD(1)[OF a]
      have "un_entry M s3 a r'" using work_live(4,5,8)[OF s3(2) l] innerD(6)[OF a] res_ok_known[OF s3(2,3)] s3(3)
        by (simp add: un_entry_def)
      from store_not[OF s3(2) work_known[OF s3(2) l] this s3(3)] show ?thesis using True nf m(1) nn s3(1)
        by (auto simp: run)
    qed
  qed
qed

lemma not_miss:
  assumes rec: "rec1_ok S M k rec" and h: "hinv S M E s" and c: "cinv M s" and a: "inner E s a f ma"
    and fu: "fuel_ok s (Suc k) f" and lk: "mtpndd_op_cache_lookup_unary s (not_cache s) a = Some NULL"
  shows "\<exists>r s'. not_body S rec a s = Some (r, s') \<and> op_post S M E s f (\<lambda>env. \<not> holds M s env a) r s'"
proof -
  let ?reg = "\<lambda>e. bdd_sem M (ee_label e)" and ?mean = "\<lambda>e env. \<not> holds M s env (ee_child e)" and ?es = "entries ma"
  have si: "sinv S M s" using h by (simp add: hinv_def)
  have nt: "\<not> mtpndd_is_true a" "\<not> mtpndd_is_false a" using internal_not_sentinel[OF si innerD(3)[OF a]]
    by (simp_all add: mtpndd_is_false_def mtpndd_is_true_def)
  obtain r s1 where m: "mtpndd_memory_acquire_edge_map s = (r, s1)" by fastforce
  note aw = acquire_work[OF h c m]
  show ?thesis
  proof (cases r)
    case None
    let ?s2 = "mtpndd_set_error MTPNDD_ERROR_OUT_OF_MEMORY ''mtpndd_not_rec'' 1717 s1"
    have "work S M E s [] ?s2" "failed ?s2"
      using quiet_work[OF aw(1) quiet_log(3)] touch_failed[OF quiet_touch[OF quiet_log(3)] aw(2)[OF None]] by auto
    then show ?thesis using op_post_null nt lk m None by (auto simp: not_body_def)
  next
    case (Some m0)
    obtain m1 where m1: "mtpndd_edge_map_init s1 m0 = Some m1" "wf_map s1 m1" "emap m1 = Map.empty"
      using aw(3)[OF Some] by blast
    have ne: "node_edges s' a = Some ma" if "work S M E s T' s'" for T' s'
      using work_live(6)[OF that] innerD(1,4)[OF a] by simp
    have fr: "mtpndd_temp_refs_init s1 = length (stack s)"
      using workD(5)[OF aw(1)] by (simp add: mtpndd_temp_refs_init_def)
    have al: "\<forall>T s'. work S M E s T s' \<longrightarrow> node_edges s' a = Some ma" using ne by blast
    have sp: "\<forall>T s' e. work S M E s T s' \<longrightarrow> e \<in> set ?es \<longrightarrow> (\<exists>c. mtpndd_should_spawn_unary s' (ee_child e) = Some c)"
      using spawn_unary_total inner_entry(4)[OF si a] by blast
    have inv: "task_inv S M E s f ?reg ?mean (uncovered M) {} [] m1 (sylvan_true S) s1"
      using built_empty[OF aw(1) m1(2,3)] uncovered_start by (simp add: task_inv_def)
    obtain st m2 x s2 where r: "run_items (\<lambda>s. node_edges s a = Some ma)
        (\<lambda>s entry_a. mtpndd_should_spawn_unary s (ee_child entry_a)) (mtpndd_and_merge_item S)
        (mtpndd_not_expand_item S rec) ?es m1 (sylvan_true S) s1 = Some (st, m2, x, s2)"
      "outcome S M E s f ?reg ?mean (uncovered M) (set ?es) st m2 x s2"
      using run_items_spec[OF not_items_ok[OF rec si a fu] al sp inner_map(5)[OF si a] inv] by (elim exE conjE)
    have run: "not_body S rec a s = (if st \<noteq> MTPNDD_SUCCESS then give_up (length (stack s)) m2 s2
        else not_close S (length (stack s)) a x m2 s2)"
      using r(1) ne[OF aw(1)] inner_map(1)[OF si a] nt lk m Some m1(1)
      by (simp add: not_body_def mtpndd_not_merge_item_def fr Let_def)
    show ?thesis
    proof (cases "st = MTPNDD_SUCCESS")
      case False
      then obtain T where "work S M E s T s2" "wf_map s2 m2" "failed s2" using r(2) unfolding outcome_def by auto
      then show ?thesis using give_up_spec run False by (metis (no_types, lifting))
    next
      case True
      then obtain T where "task_inv S M E s f ?reg ?mean (uncovered M) (set ?es) T m2 x s2"
        using outcomeD[OF r(2)[unfolded True]] by (elim exE)
      from not_close_spec[OF this si a] show ?thesis using run True by simp
    qed
  qed
qed

lemma not_step:
  assumes rec: "rec1_ok S M k rec" shows "rec1_ok S M (Suc k) (not_body S rec)"
  unfolding rec1_ok_def
proof (intro allI impI)
  fix E s a
  assume h: "hinv S M E s" and c: "cinv M s" and l: "live E s a" and bo: "boolean s a" and fu: "fuel_ok s (Suc k) (fieldof s a)"
  let ?H = "\<lambda>env. \<not> holds M s env a"
  have si: "sinv S M s" using h by (simp add: hinv_def)
  note hf = holds_false[OF si] and sf = sentinel_field(1,2)[OF si]
  show "\<exists>r s'. not_body S rec a s = Some (r, s') \<and> op_post S M E s (fieldof s a) ?H r s'"
    using si l bo
  proof (cases rule: inner_cases)
    case 1
    then have "op_post S M E s (fieldof s a) ?H MTPNDD_FALSE s" using op_post_self[OF h c boolean_false] hf sf by simp
    then show ?thesis using 1 by (auto simp: not_body_def mtpndd_is_true_def)
  next
    case 2
    then have "op_post S M E s (fieldof s a) ?H MTPNDD_TRUE s" using op_post_self[OF h c boolean_true] hf sf by simp
    then show ?thesis using 2
      by (auto simp: not_body_def mtpndd_is_true_def mtpndd_is_false_def MTPNDD_TRUE_def MTPNDD_FALSE_def)
  next
    case (3 f ma)
    have w0: "work S M E s [] s" by (rule work_refl[OF h c])
    obtain r where r: "mtpndd_op_cache_lookup_unary s (not_cache s) a = Some r"
      "r \<noteq> NULL \<longrightarrow> (\<exists>b. cached (not_cache s) a b r)"
      using lookup_unary_spec[OF _ work_known[OF w0 l]] cinvD(1)[OF c] by (auto simp: ctx_ok_def caches_shape_def)
    have f: "fieldof s a = f" by (rule innerD(6)[OF 3])
    show ?thesis
    proof (cases "r = NULL")
      case False
      then have "un_entry M s a r" using cinvD(4)[OF c] r(2) by blast
      then have "op_post S M E s (fieldof s a) ?H r s" using op_post_result[OF w0] bo by (simp add: un_entry_def)
      then show ?thesis using internal_not_sentinel[OF si innerD(3)[OF 3]] r(1) False
        by (auto simp: not_body_def mtpndd_is_false_def mtpndd_is_true_def)
    next
      case True
      then show ?thesis using not_miss[OF rec h c 3 _] fu r(1) f by simp
    qed
  qed
qed

lemma not_rec_ok: "rec1_ok S M k (mtpndd_not_rec k S)"
proof (induction k)
  case 0
  then show ?case by (simp add: rec1_ok_def)
next
  case (Suc k)
  then show ?case by (simp add: not_step)
qed

end

end
