(* ===== verification/Residual_Map.thy ===== *)
theory Residual_Map
  imports Item_Task
begin

text \<open>
  The residual maps of disjunction: deep copies of the operands' edge maps whose labels lose what
  the pairs have covered.  The copy takes references to the children that freeing the map does
  not give back, so reference counts only have a lower bound after a disjunction.
\<close>

section \<open>Copies\<close>

definition edge_key :: "edge_bucket_entry \<Rightarrow> ptr \<times> bdd" where
  "edge_key e = (ee_child e, ee_label e)"

lemma edge_key_addr [simp]: "edge_key (e\<lparr>ee_addr := p\<rparr>) = edge_key e"
  by (simp add: edge_key_def)

lemma emap_key: "emap m = map_of (map edge_key (entries m))"
  by (simp add: emap_def edge_key_def[abs_def])

lemma key_children: "map edge_key es = map edge_key es' \<Longrightarrow> map ee_child es = map ee_child es'"
  by (metis (no_types, lifting) comp_apply edge_key_def fst_conv list.map_comp map_eq_conv)

lemma clone_chain_spec:
  assumes "work S M E s0 T s" "\<forall>e\<in>set es. nodes s (ee_child e) \<noteq> None"
  shows "\<exists>c s'. clone_chain es s = Some (c, s') \<and> work S M E s0 T s' \<and> touch s s'
     \<and> (case c of None \<Rightarrow> failed s' | Some es' \<Rightarrow> map edge_key es' = map edge_key es)"
  using assms
proof (induction es arbitrary: s)
  case (Cons e es)
  obtain p s1 where a: "mtpndd_memory_acquire_edge_entry s = (p, s1)" by fastforce
  note q = acquire_edge_entry_quiet[OF a]
  note w1 = quiet_work[OF Cons.prems(1) q]
  show ?case
  proof (cases "p = NULL")
    case True
    then show ?thesis using a w1 quiet_touch[OF q] acquire_edge_entry_failed[of s s1]
        cinv_heap_ready[OF workD(2,1)[OF Cons.prems(1)]] by simp
  next
    case False
    let ?c = "ee_child e"
    have n1: "nodes s1 ?c \<noteq> None" using Cons.prems(2) touch_known[OF quiet_touch[OF q], of ?c] by simp
    then have c0: "?c \<noteq> NULL" using rinv_null[OF hinvD(3)[OF workD(1)[OF w1]]] by metis
    obtain s2 where s2: "ref_nonterminal ?c s1 = Some s2" "touch s1 s2"
      "hinv S M (if internal s1 ?c then add_mset ?c (E + mset T) else E + mset T) s2" "temp_refs_pool s2 = temp_refs_pool s1"
      using ref_nonterminal_spec[OF workD(1)[OF w1] n1] by blast
    have h2: "hinv S M (E + mset T) s2" using s2(3) hinv_drop_refs[of S M "E + mset T" "{#?c#}"] by (simp split: if_splits)
    have w2: "work S M E s0 T s2" by (rule work_touch[OF w1 s2(2) h2]) (use s2(4) workD(5)[OF w1] in simp)
    let ?s3 = "sylvan_ref (ee_label e) s2"
    have w3: "work S M E s0 T ?s3" by (rule quiet_work[OF w2]) simp
    have t3: "touch s ?s3" using touch_trans[OF quiet_touch[OF q] touch_trans[OF s2(2) quiet_touch[OF quiet_log(1)]]] .
    have "\<forall>e\<in>set es. nodes ?s3 (ee_child e) \<noteq> None" using Cons.prems(2) touch_known[OF t3] by simp
    from Cons.IH[OF w3 this] obtain c s' where r: "clone_chain es ?s3 = Some (c, s')" "work S M E s0 T s'"
      "touch ?s3 s'" "case c of None \<Rightarrow> failed s' | Some es' \<Rightarrow> map edge_key es' = map edge_key es" by blast
    have "clone_chain (e # es) s = Some (map_option (\<lambda>rest. e\<lparr>ee_addr := p\<rparr> # rest) c, s')"
      using a False c0 s2(1) r(1) by (simp add: ref_child_def)
    then show ?thesis using r(2,4) touch_trans[OF t3 r(3)] by (cases c) auto
  qed
qed simp

lemma clone_buckets_spec:
  assumes "work S M E s0 T s" "\<forall>b\<in>set bs. \<forall>e\<in>set b. nodes s (ee_child e) \<noteq> None"
    "i + length bs \<le> length (buckets d)" "0 < bucket_count d" "bucket_count d \<le> length (buckets d)"
  shows "\<exists>st d' s'. clone_buckets i bs d s = Some (st, d', s') \<and> work S M E s0 T s' \<and> touch s s'
     \<and> (if st = MTPNDD_SUCCESS
        then d' = d\<lparr>buckets := buckets d'\<rparr> \<and> map (map edge_key) (buckets d')
             = take i (map (map edge_key) (buckets d)) @ map (map edge_key) bs
               @ drop (i + length bs) (map (map edge_key) (buckets d))
        else failed s' \<and> bucket_count d' = bucket_count d \<and> length (buckets d') = length (buckets d))"
  using assms
proof (induction bs arbitrary: i d s)
  case (Cons b bs)
  obtain c s1 where r: "clone_chain b s = Some (c, s1)" "work S M E s0 T s1" "touch s s1"
    "case c of None \<Rightarrow> failed s1 | Some es' \<Rightarrow> map edge_key es' = map edge_key b"
    using clone_chain_spec[OF Cons.prems(1)] Cons.prems(2) by force
  show ?case
  proof (cases c)
    case None
    obtain s2 where s2: "iter_state release_entry (concat (take (bucket_count d) (buckets d))) s1 = Some s2" "quiet s1 s2"
      using release_entries_quiet by blast
    have "for_each_entry s1 d = Some (concat (take (bucket_count d) (buckets d)))"
      using Cons.prems(4,5) by (simp add: for_each_entry_def edge_map_bucket_count_def)
    moreover have "buckets d \<noteq> []" using Cons.prems(4,5) by auto
    ultimately have "mtpndd_edge_map_reset d s1
        = Some (d\<lparr>buckets := map (\<lambda>_. []) (buckets d), edge_count := 0, cached_hash := 0\<rparr>, s2)"
      using s2(1) by (simp add: mtpndd_edge_map_reset_def)
    moreover have "failed s2" using touch_failed[OF quiet_touch[OF s2(2)]] r(4) None by simp
    ultimately show ?thesis using r None quiet_work[OF r(2) s2(2)] touch_trans[OF r(3) quiet_touch[OF s2(2)]] by simp
  next
    case (Some es)
    let ?d = "d\<lparr>buckets := (buckets d)[i := es]\<rparr>"
    have "\<forall>b\<in>set bs. \<forall>e\<in>set b. nodes s1 (ee_child e) \<noteq> None" using Cons.prems(2) touch_known[OF r(3)] by simp
    from Cons.IH[OF r(2) this, where i = "i + 1" and d = ?d] Cons.prems(3-5)
    obtain st d' s' where IH: "clone_buckets (i + 1) bs ?d s1 = Some (st, d', s')" "work S M E s0 T s'" "touch s1 s'"
      "if st = MTPNDD_SUCCESS
       then d' = ?d\<lparr>buckets := buckets d'\<rparr> \<and> map (map edge_key) (buckets d')
            = take (i + 1) (map (map edge_key) (buckets ?d)) @ map (map edge_key) bs
              @ drop (i + 1 + length bs) (map (map edge_key) (buckets ?d))
       else failed s' \<and> bucket_count d' = bucket_count ?d \<and> length (buckets d') = length (buckets ?d)" by auto
    have i: "i < length (buckets d)" using Cons.prems(3) by simp
    have "take (i + 1) (map (map edge_key) (buckets ?d)) = take i (map (map edge_key) (buckets d)) @ [map edge_key b]"
      using i r(4) Some by (simp add: take_Suc_conv_app_nth map_update)
    moreover have "drop (i + 1 + length bs) (map (map edge_key) (buckets ?d)) = drop (i + length (b # bs)) (map (map edge_key) (buckets d))"
      using i by (simp add: map_update)
    ultimately show ?thesis using IH r(1) Some touch_trans[OF r(3) IH(3)]
      by (intro exI[of _ st] exI[of _ d'] exI[of _ s']) (simp split: if_splits)
  qed
qed simp


text \<open>A map is well-formed by its children alone.\<close>

lemma placed_children:
  assumes "placed s n bs" "map (map ee_child) bs' = map (map ee_child) bs" shows "placed s n bs'"
  unfolding placed_def
proof (intro allI impI ballI)
  fix i e assume i: "i < length bs'" and e: "e \<in> set (bs' ! i)"
  have l: "length bs' = length bs" using assms(2) by (metis length_map)
  then have "map ee_child (bs' ! i) = map ee_child (bs ! i)" using i assms(2) by (metis nth_map)
  then have "ee_child e \<in> ee_child ` set (bs ! i)" using e by (metis image_eqI list.set_map)
  then obtain e' where "e' \<in> set (bs ! i)" "ee_child e' = ee_child e" by auto
  then show "map_option (\<lambda>h. mask_index h n) (mtpndd_hash_node_identity s (ee_child e)) = Some i"
    using assms(1) i l unfolding placed_def by metis
qed

lemma wf_map_children:
  assumes wf: "wf_map s m" and c: "map (map ee_child) (buckets m') = map (map ee_child) (buckets m)"
    and "bucket_count m' = bucket_count m" "edge_count m' = edge_count m"
  shows "wf_map s m'"
proof -
  have "map ee_child (entries m') = map ee_child (entries m)" using c by (simp add: entries_def map_concat)
  moreover have "length (buckets m') = length (buckets m)" using c by (metis length_map)
  ultimately show ?thesis using wf placed_children[OF _ c] assms(3,4)
    by (simp add: wf_map_def) (metis length_map)
qed

lemma wf_map_key:
  assumes wf: "wf_map s m" and k: "map (map edge_key) (buckets m') = map (map edge_key) (buckets m)"
    and c: "bucket_count m' = bucket_count m" "edge_count m' = edge_count m"
  shows "wf_map s m'" "emap m' = emap m"
proof -
  have "map (map ee_child) (buckets m') = map (map fst) (map (map edge_key) (buckets m'))" for m'
    by (simp add: edge_key_def)
  then show "wf_map s m'" using wf_map_children[OF wf _ c] k by metis
  have "map edge_key (entries m') = map edge_key (entries m)" using k by (simp add: entries_def map_concat)
  then show "emap m' = emap m" by (simp add: emap_key)
qed

definition freeable :: "mtpndd_edge \<Rightarrow> bool" where
  "freeable m \<longleftrightarrow> buckets m = [] \<or> 0 < bucket_count m \<and> bucket_count m \<le> length (buckets m)"

lemma freeable_wf: "wf_map s m \<Longrightarrow> freeable m"
  using wf_map_bounds[of s m] by (simp add: freeable_def)

lemma free_map_spec:
  assumes w: "work S M E s0 T s" and m: "freeable m"
  shows "\<exists>s'. mtpndd_edge_map_free m s = Some s' \<and> quiet s s' \<and> work S M E s0 T s'"
proof -
  obtain s1 where "iter_state release_entry (concat (take (bucket_count m) (buckets m))) s = Some s1" "quiet s s1"
    using release_entries_quiet by blast
  then have "\<exists>s'. mtpndd_edge_map_free m s = Some s' \<and> quiet s s'" using m
    by (auto simp: mtpndd_edge_map_free_def mtpndd_edge_map_reset_def freeable_def for_each_entry_def
        edge_map_bucket_count_def intro: quiet_trans)
  then show ?thesis using quiet_work[OF w] by blast
qed

lemma free_maps_spec:
  assumes "work S M E s0 T s" "\<forall>m\<in>set ms. freeable m"
  shows "\<exists>s'. free_maps ms s = Some s' \<and> quiet s s' \<and> work S M E s0 T s'"
  using assms
proof (induction ms arbitrary: s)
  case Nil
  then show ?case by (simp add: quiet_refl)
next
  case (Cons m ms)
  obtain s1 where s1: "mtpndd_edge_map_free m s = Some s1" "quiet s s1" "work S M E s0 T s1"
    using free_map_spec[OF Cons.prems(1), of m] Cons.prems(2) by auto
  obtain s2 where "free_maps ms s1 = Some s2" "quiet s1 s2" "work S M E s0 T s2"
    using Cons.IH[OF s1(3)] Cons.prems(2) by auto
  then show ?case using s1(1) quiet_trans[OF s1(2)] by auto
qed

definition fresh_map :: "mtpndd_edge \<Rightarrow> bool" where
  "fresh_map m \<longleftrightarrow> 0 < bucket_count m \<and> buckets m = replicate (bucket_count m) []"

lemma acquire_fresh:
  assumes "hinv S M E s" "mtpndd_memory_acquire_edge_map s = (Some m, s')" shows "fresh_map m"
  using assms quiet_fields(3)[OF acquire_edge_map_quiet[OF assms(2)]]
  by (auto simp: mtpndd_memory_acquire_edge_map_def Let_def fresh_map_def hinv_def rinv_def bucket_cfg_ok_def
      split: prod.splits if_splits)

lemma deep_clone_spec:
  assumes w: "work S M E s0 T s" and src: "wf_map s m" "\<forall>c\<in>dom (emap m). nodes s c \<noteq> None" and d: "fresh_map d"
  shows "\<exists>st d' s'. mtpndd_edge_map_deep_clone m d s = Some (st, d', s') \<and> work S M E s0 T s' \<and> touch s s' \<and> freeable d'
     \<and> (if st = MTPNDD_SUCCESS then wf_map s' d' \<and> emap d' = emap m else failed s')"
proof -
  let ?n = "bucket_count m" and ?d = "d\<lparr>edge_count := edge_count m, cached_hash := cached_hash m\<rparr>"
  note B = wf_map_bounds[OF src(1)]
  have n: "edge_bucket_target s m = ?n" using src(1) B
    by (simp add: edge_bucket_target_def edge_map_bucket_count_def max_def round_up_pow2_nat_pow2 wf_map_def)
  obtain ok d1 s1 where a: "(if ?n \<noteq> bucket_count ?d
             then let (p, s) = malloc (?n * 8) s
                  in if p = NULL
                     then (False, ?d\<lparr>buckets := [], bucket_count := 0, load_threshold := 0,
                                       buckets_malloced := False\<rparr>, s)
                     else (True, ?d\<lparr>buckets := replicate ?n [], buckets_malloced := True,
                                      bucket_count := ?n, load_threshold := ?n - ?n div 4\<rparr>, s)
             else (True, ?d\<lparr>buckets := map (\<lambda>_. []) (buckets ?d)\<rparr>, s)) = (ok, d1, s1)" using prod_cases3 by blast
  have q: "quiet s s1" using a malloc_quiet by (auto simp: quiet_refl split: if_splits prod.splits)
  note w1 = quiet_work[OF w q] and t1 = quiet_touch[OF q]
  have ok: "if ok then length (buckets d1) = ?n \<and> bucket_count d1 = ?n \<and> edge_count d1 = edge_count m
      else failed s1 \<and> buckets d1 = []"
    using a d malloc_work(2)[OF w] by (auto simp: fresh_map_def split: if_splits prod.splits)
  have run: "mtpndd_edge_map_deep_clone m d s =
      (if \<not> ok then Some (MTPNDD_ERROR_OUT_OF_MEMORY, d1, s1)
       else if buckets m = [] then Some (MTPNDD_SUCCESS, d1, s1)
       else if ?n \<le> length (buckets m) \<and> ?n \<le> length (buckets d1)
       then clone_buckets 0 (take ?n (buckets m)) d1 s1 else None)"
    unfolding mtpndd_edge_map_deep_clone_def n Let_def[of ?d] Let_def[of ?n] a by (simp only: Let_def prod.case)
  show ?thesis
  proof (cases ok)
    case False
    then show ?thesis using run ok w1 t1 by (simp add: freeable_def)
  next
    case True
    have tb: "take ?n (buckets m) = buckets m" using B(5) by simp
    have "\<forall>b\<in>set (buckets m). \<forall>e\<in>set b. nodes s1 (ee_child e) \<noteq> None"
      using src(2) touch_known[OF t1] by (auto simp: dom_emap entries_def)
    from clone_buckets_spec[OF w1 this, of 0 d1] ok True B obtain st d' s' where
      c: "clone_buckets 0 (buckets m) d1 s1 = Some (st, d', s')" "work S M E s0 T s'" "touch s1 s'"
        "if st = MTPNDD_SUCCESS
         then d' = d1\<lparr>buckets := buckets d'\<rparr> \<and> map (map edge_key) (buckets d') = map (map edge_key) (buckets m)
         else failed s' \<and> bucket_count d' = bucket_count d1 \<and> length (buckets d') = length (buckets d1)" by auto
    have t: "touch s s'" by (rule touch_trans[OF t1 c(3)])
    have wf': "wf_map s' m" using src(1) wf_map_cong[of m s' s] hash_content_cong[of s' _ s] t by (simp add: touch_def)
    have st: "wf_map s' d' \<and> emap d' = emap m" if "st = MTPNDD_SUCCESS"
    proof -
      have k: "map (map edge_key) (buckets d') = map (map edge_key) (buckets m)" and e: "d' = d1\<lparr>buckets := buckets d'\<rparr>"
        using c(4) that by auto
      have "bucket_count d' = ?n" "edge_count d' = edge_count m" using arg_cong[OF e, of bucket_count]
          arg_cong[OF e, of edge_count] ok True by simp_all
      then show ?thesis using wf_map_key[OF wf' k] by blast
    qed
    have "freeable d'" using st freeable_wf c(4) ok True B(2) by (cases "st = MTPNDD_SUCCESS") (auto simp: freeable_def)
    then show ?thesis using run True tb B ok c t st by (simp split: if_splits)
  qed
qed


section \<open>Labels that lose what is covered\<close>

text \<open>\<open>gone c v\<close>: the edges to child \<open>c\<close> have lost the assignment \<open>v\<close>.\<close>

definition residual_of :: "bdd_model \<Rightarrow> (ptr \<Rightarrow> assignment \<Rightarrow> bool) \<Rightarrow> mtpndd_edge \<Rightarrow> mtpndd_edge \<Rightarrow> bool" where
  "residual_of M gone m r \<longleftrightarrow> dom (emap r) = dom (emap m) \<and>
     (\<forall>c k l. emap m c = Some k \<longrightarrow> emap r c = Some l \<longrightarrow>
        bdd_ok M l \<and> (\<forall>v. bdd_sem M l v \<longleftrightarrow> bdd_sem M k v \<and> \<not> gone c v))"

definition addable :: "bdd_model \<Rightarrow> mstate \<Rightarrow> nat \<Rightarrow> (assignment \<Rightarrow> bool) \<Rightarrow> (edge_bucket_entry \<Rightarrow> env \<Rightarrow> bool) \<Rightarrow> edge_bucket_entry \<Rightarrow> bool" where
  "addable M s f R K e \<longleftrightarrow> boolean s (ee_child e) \<and> f < fieldof s (ee_child e) \<and> bdd_ok M (ee_label e)
     \<and> (\<forall>env. holds M s env (ee_child e) \<longleftrightarrow> K e env) \<and> (\<forall>v. bdd_sem M (ee_label e) v \<longrightarrow> \<not> R v)"

definition apart_edges :: "bdd_model \<Rightarrow> edge_bucket_entry set \<Rightarrow> bool" where
  "apart_edges M D \<longleftrightarrow> (\<forall>e\<in>D. \<forall>e'\<in>D. e \<noteq> e' \<longrightarrow> (\<forall>v. bdd_sem M (ee_label e) v \<longrightarrow> \<not> bdd_sem M (ee_label e') v))"

lemma addable_touch:
  assumes a: "addable M s f R K e" and t: "touch s s'" and R: "\<And>v. bdd_sem M (ee_label e) v \<Longrightarrow> R' v \<Longrightarrow> R v"
  shows "addable M s' f R' K e"
proof -
  note ag = touch_agree[OF t]
  show ?thesis using a R agree_boolean[OF ag, of "ee_child e"] agree_field[OF ag, of "ee_child e"]
      agree_holds[OF ag, where p = "ee_child e"] unfolding addable_def by simp blast
qed

lemma residual_start:
  "labels_ok S M (emap m) \<Longrightarrow> emap r = emap m \<Longrightarrow> (\<And>c v. \<not> gone c v) \<Longrightarrow> residual_of M gone m r"
  unfolding residual_of_def labels_ok_def by auto

lemma residual_cong:
  assumes "residual_of M gone m r" "\<And>c v. c \<in> dom (emap m) \<Longrightarrow> gone' c v \<longleftrightarrow> gone c v" shows "residual_of M gone' m r"
  using assms unfolding residual_of_def by (simp add: domIff)

lemma set_entry_buckets:
  "map (map ee_child) (buckets (set_entry_label c l m)) = map (map ee_child) (buckets m)"
  by (simp add: set_entry_label_def)

lemma set_entry_wf: "wf_map s m \<Longrightarrow> wf_map s (set_entry_label c l m)"
  by (rule wf_map_children[OF _ set_entry_buckets]) (simp_all add: set_entry_label_def)

lemma set_entry_entries:
  "entries (set_entry_label c l m) = map (\<lambda>e. if ee_child e = c then e\<lparr>ee_label := l\<rparr> else e) (entries m)"
  by (simp add: set_entry_label_def entries_def map_concat)

lemma map_of_relabel:
  "map_of (map (\<lambda>e. (ee_child e, ee_label e)) (map (\<lambda>e. if ee_child e = c then e\<lparr>ee_label := l\<rparr> else e) es)) d
   = (if d = c then map_option (\<lambda>_. l) (map_of (map (\<lambda>e. (ee_child e, ee_label e)) es) d)
      else map_of (map (\<lambda>e. (ee_child e, ee_label e)) es) d)"
  by (induction es) auto

lemma set_entry_emap: "c \<in> dom (emap m) \<Longrightarrow> emap (set_entry_label c l m) = (emap m)(c \<mapsto> l)"
  unfolding emap_def set_entry_entries by (rule ext) (auto simp: map_of_relabel simp del: map_map)

lemma find_entry_child:
  assumes "wf_map s m" "node_known s c"
  shows "\<exists>r. find_edge_entry s m c = Some r \<and> (case r of None \<Rightarrow> emap m c = None | Some e \<Rightarrow> ee_child e = c \<and> emap m c = Some (ee_label e))"
proof -
  obtain r where r: "find_edge_entry s m c = Some r" "map_option ee_label r = emap m c"
    using find_edge_entry_spec[OF assms(1)] assms(2) unfolding node_known_def by blast
  have "ee_child e = c" if "r = Some e" for e
    using r(1) that by (auto simp: find_edge_entry_def find_Some_iff split: bind_splits if_splits)
  then show ?thesis using r by (cases r) auto
qed

context sylvan_laws
begin

lemma apply_mask_spec:
  assumes wf: "wf_map s r" and c: "node_known s c" and ro: "residual_of M gone m r"
    and k: "bdd_ok M msk" "\<And>v. bdd_sem M msk v \<longleftrightarrow> \<not> reg v"
  shows "\<exists>e r'. find_edge_entry s r c = Some e \<and> (\<forall>s1. \<exists>s2. mtpndd_residual_apply_mask S e msk r s1 = (r', s2) \<and> quiet s1 s2)
     \<and> wf_map s r' \<and> residual_of M (\<lambda>d v. gone d v \<or> d = c \<and> reg v) m r'"
proof -
  obtain e where e: "find_edge_entry s r c = Some e"
    "case e of None \<Rightarrow> emap r c = None | Some e \<Rightarrow> ee_child e = c \<and> emap r c = Some (ee_label e)"
    using find_entry_child[OF wf c] by blast
  show ?thesis
  proof (cases e)
    case None
    then have "c \<notin> dom (emap m)" using e(2) ro by (auto simp: residual_of_def)
    then have "residual_of M (\<lambda>d v. gone d v \<or> d = c \<and> reg v) m r" by (intro residual_cong[OF ro]) auto
    then show ?thesis using e(1) None wf by (auto simp: mtpndd_residual_apply_mask_def quiet_refl)
  next
    case (Some en)
    then have en: "ee_child en = c" "emap r c = Some (ee_label en)" using e(2) by auto
    then obtain k0 where k0: "emap m c = Some k0" using ro unfolding residual_of_def by blast
    have l: "bdd_ok M (ee_label en)" "\<And>v. bdd_sem M (ee_label en) v \<longleftrightarrow> bdd_sem M k0 v \<and> \<not> gone c v"
      using ro k0 en(2) unfolding residual_of_def by auto
    let ?l = "sylvan_and S (ee_label en) msk"
    have up: "residual_of M (\<lambda>d v. gone d v \<or> d = c \<and> reg v) m (set_entry_label c ?l r)"
      using ro k l k0 en(2) unfolding residual_of_def by (auto simp: set_entry_emap domI)
    show ?thesis
    proof (cases "ee_label en = sylvan_false S")
      case True
      then have nc: "\<not> (bdd_sem M k0 v \<and> \<not> gone c v)" for v using l(2)[of v] by simp
      have "residual_of M (\<lambda>d v. gone d v \<or> d = c \<and> reg v) m r"
        using ro nc k0 unfolding residual_of_def by auto
      then show ?thesis using e(1) Some True wf by (auto simp: mtpndd_residual_apply_mask_def quiet_refl)
    next
      case False
      have "mtpndd_residual_apply_mask S e msk r s1 = (set_entry_label c ?l r, sylvan_deref (ee_label en) (sylvan_ref ?l s1))" for s1
        using Some False en(1) by (simp add: mtpndd_residual_apply_mask_def Let_def)
      moreover have "quiet s1 (sylvan_deref (ee_label en) (sylvan_ref ?l s1))" for s1 by (meson quiet_log quiet_trans)
      ultimately show ?thesis using e(1) up set_entry_wf[OF wf] by blast
    qed
  qed
qed

text \<open>Adding the edges of a residual map to the map under construction.\<close>

lemma add_residual_spec:
  assumes "work S M E s0 T s" "building S M s f T m R G"
    and "\<forall>e\<in>set es. addable M s f R K e"
    and "distinct es" "apart_edges M (set es)"
  shows "\<exists>ok m' s'. add_residual S es m s = Some (ok, m', s') \<and> touch s s' \<and> (\<exists>T'. work S M E s0 T' s' \<and> wf_map s' m' \<and>
     (if ok then building S M s' f T' m' (\<lambda>v. R v \<or> (\<exists>e\<in>set es. bdd_sem M (ee_label e) v))
        (\<lambda>v env. G v env \<or> (\<exists>e\<in>set es. bdd_sem M (ee_label e) v \<and> K e env)) else failed s'))"
  using assms
proof (induction es arbitrary: T s m R G)
  case Nil
  have "wf_map s m" using Nil.prems(2) by (simp add: building_def map_wf_def)
  then have "work S M E s0 T s \<and> wf_map s m \<and> building S M s f T m R G" using Nil.prems(1,2) by simp
  then show ?case by (intro exI[of _ True] exI[of _ m] exI[of _ s]) auto
next
  case (Cons e es)
  let ?c = "ee_child e" and ?l = "ee_label e"
  have c: "boolean s ?c" "f < fieldof s ?c" "bdd_ok M ?l" "\<And>v. bdd_sem M ?l v \<Longrightarrow> \<not> R v" "\<And>env. holds M s env ?c = K e env"
    using Cons.prems(3) by (auto simp: addable_def)
  show ?case
  proof (cases "?l = sylvan_false S")
    case True
    then have no: "\<And>v. bdd_sem M ?l v = False" by simp
    have run: "add_residual S (e # es) m s = add_residual S es m s" using True by (simp add: mtpndd_edge_label_load_def)
    have tl: "\<forall>e\<in>set es. addable M s f R K e"
      "distinct es" "apart_edges M (set es)"
      using Cons.prems(3-5) by (auto simp: apart_edges_def)
    show ?thesis unfolding run list.set bex_simps(5) no simp_thms by (rule Cons.IH[OF Cons.prems(1,2) tl])
  next
    case False
    let ?R = "\<lambda>v. R v \<or> bdd_sem M ?l v" and ?G = "\<lambda>v env. G v env \<or> bdd_sem M ?l v \<and> K e env"
    obtain ok s1 where p: "mtpndd_temp_refs_push ?c s = Some (ok, s1)" "touch s s1"
      "if ok then \<forall>s2. quiet s1 s2 \<longrightarrow> (\<exists>st m' s3. mtpndd_add_edge S m ?c ?l s2 = Some (st, m', s3) \<and> touch s s3
          \<and> merged S M E s0 f ?R ?G s (st, m', s3))
       else work S M E s0 T s1 \<and> wf_map s1 m \<and> failed s1"
      using push_edge[OF Cons.prems(1,2) c(1-3) False c(4), unfolded c(5)] by blast
    show ?thesis
    proof (cases ok)
      case no: False
      then show ?thesis using p False by (auto simp: mtpndd_edge_label_load_def)
    next
      case True
      from p(3)[unfolded if_P[OF True], THEN spec, THEN mp, OF quiet_log(1)[where l = ?l]] obtain st m1 s3 where
        a: "mtpndd_add_edge S m ?c ?l (sylvan_ref ?l s1) = Some (st, m1, s3)" "touch s s3"
          "merged S M E s0 f ?R ?G s (st, m1, s3)" by (elim exE conjE)
      obtain T1 where T1: "work S M E s0 T1 s3" "wf_map s3 m1"
        "if st = MTPNDD_SUCCESS then building S M s3 f T1 m1 ?R ?G else failed s3" using a(3) by (auto simp: merged_def)
      have run: "add_residual S (e # es) m s = (if st \<noteq> MTPNDD_SUCCESS then Some (False, m1, s3) else add_residual S es m1 s3)"
        using False True p(1) a(1) by (simp add: mtpndd_edge_label_load_def)
      show ?thesis
      proof (cases "st = MTPNDD_SUCCESS")
        case nst: False
        then show ?thesis using run T1 a(2) by auto
      next
        case st: True
        then have b1: "building S M s3 f T1 m1 ?R ?G" using T1(3) by simp
        have "addable M s3 f ?R K d" if d: "d \<in> set es" for d
        proof (rule addable_touch[OF _ a(2)])
          show "addable M s f R K d" using Cons.prems(3) d by simp
          have "e \<noteq> d" using Cons.prems(4) d by auto
          then show "R v" if "bdd_sem M (ee_label d) v" "?R v" for v
            using Cons.prems(5) d that unfolding apart_edges_def by auto
        qed
        moreover have "distinct es" "apart_edges M (set es)"
          using Cons.prems(4,5) by (simp_all add: apart_edges_def)
        ultimately obtain ok' m' s' where r: "add_residual S es m1 s3 = Some (ok', m', s')" "touch s3 s'"
          "\<exists>T'. work S M E s0 T' s' \<and> wf_map s' m' \<and>
           (if ok' then building S M s' f T' m' (\<lambda>v. ?R v \<or> (\<exists>e\<in>set es. bdd_sem M (ee_label e) v))
             (\<lambda>v env. ?G v env \<or> (\<exists>e\<in>set es. bdd_sem M (ee_label e) v \<and> K e env)) else failed s')"
          using Cons.IH[OF T1(1) b1] by blast
        have eq: "(\<lambda>v. ?R v \<or> (\<exists>e\<in>set es. bdd_sem M (ee_label e) v)) = (\<lambda>v. R v \<or> (\<exists>e\<in>set (e # es). bdd_sem M (ee_label e) v))"
          "(\<lambda>v env. ?G v env \<or> (\<exists>e\<in>set es. bdd_sem M (ee_label e) v \<and> K e env))
           = (\<lambda>v env. G v env \<or> (\<exists>e\<in>set (e # es). bdd_sem M (ee_label e) v \<and> K e env))" by (auto simp: fun_eq_iff)
        show ?thesis using run st r touch_trans[OF a(2) r(2)] unfolding eq by auto
      qed
    qed
  qed
qed

end

end
