(* ===== verification/Or_Correct.thy ===== *)
theory Or_Correct
  imports And_Correct Not_Correct Residual_Map
begin

text \<open>
  Disjunction.  The pairs of edges that meet contribute the disjunction of their children; what
  is left of either operand's labels, the residuals, keeps that operand's child.
\<close>

section \<open>Both operands at the same field\<close>

definition or_shared ::
  "bdd_model \<Rightarrow> mtpndd_edge \<Rightarrow> mtpndd_edge \<Rightarrow> (edge_bucket_entry \<times> edge_bucket_entry) set
   \<Rightarrow> mtpndd_edge \<times> mtpndd_edge \<Rightarrow> mstate \<Rightarrow> bool" where
  "or_shared M ma mb D x s \<longleftrightarrow> wf_map s (fst x) \<and> wf_map s (snd x)
     \<and> residual_of M (\<lambda>c v. \<exists>t\<in>D. ee_child (fst t) = c \<and> pair_region M t v) ma (fst x)
     \<and> residual_of M (\<lambda>c v. \<exists>t\<in>D. ee_child (snd t) = c \<and> pair_region M t v) mb (snd x)"

lemma or_shared_keeps:
  assumes x: "or_shared M ma mb D x s" and k: "keeps E s s'"
    and l: "\<And>c. c \<in> dom (emap ma) \<union> dom (emap mb) \<Longrightarrow> live E s c"
  shows "or_shared M ma mb D x s'"
proof -
  have "content s' c = content s c" if "c \<in> dom (emap ma) \<union> dom (emap mb)" for c
    using k l[OF that] by (simp add: keeps_def)
  then have "wf_map s' m = wf_map s m" if "dom (emap m) \<subseteq> dom (emap ma) \<union> dom (emap mb)" for m
    using that by (intro wf_map_cong hash_content_cong) (auto simp: dom_emap)
  then show ?thesis using x unfolding or_shared_def residual_of_def by auto
qed

lemma wf_map_touch: assumes "touch s s'" shows "wf_map s' m = wf_map s m"
proof -
  have "content s' = content s" using assms by (simp add: touch_def)
  then show ?thesis by (intro wf_map_cong hash_content_cong) simp
qed

lemma or_shared_touch: "or_shared M ma mb D x s \<Longrightarrow> touch s s' \<Longrightarrow> or_shared M ma mb D x s'"
  by (simp add: or_shared_def wf_map_touch)

lemma inner_dom_live:
  assumes p: "inner E s p f m" and c: "c \<in> dom (emap m)" shows "live E s c"
  using live_child[OF innerD(1,4)[OF p] c] .

context sylvan_laws
begin

lemma mask_pair:
  assumes t: "t = (ea, eb)" and ok: "bdd_ok M (ee_label ea)" "bdd_ok M (ee_label eb)" and x: "or_shared M ma mb D (rA, rB) s"
    and kn: "node_known s (ee_child ea)" "node_known s (ee_child eb)"
  defines "msk \<equiv> sylvan_not S (sylvan_and S (ee_label ea) (ee_label eb))"
  shows "\<exists>xa xb rA' rB'. find_edge_entry s rA (ee_child ea) = Some xa \<and> find_edge_entry s rB (ee_child eb) = Some xb
     \<and> (\<forall>s1. \<exists>s2. mtpndd_residual_apply_mask S xa msk rA s1 = (rA', s2) \<and> quiet s1 s2)
     \<and> (\<forall>s1. \<exists>s2. mtpndd_residual_apply_mask S xb msk rB s1 = (rB', s2) \<and> quiet s1 s2)
     \<and> or_shared M ma mb (insert t D) (rA', rB') s"
proof -
  have k: "bdd_ok M msk" "\<And>v. bdd_sem M msk v \<longleftrightarrow> \<not> pair_region M t v"
    using ok by (simp_all add: msk_def pair_region_def t)
  note X = x[unfolded or_shared_def fst_conv snd_conv]
  obtain xa rA' where a: "find_edge_entry s rA (ee_child ea) = Some xa"
    "\<forall>s1. \<exists>s2. mtpndd_residual_apply_mask S xa msk rA s1 = (rA', s2) \<and> quiet s1 s2" "wf_map s rA'"
    "residual_of M (\<lambda>d v. (\<exists>t\<in>D. ee_child (fst t) = d \<and> pair_region M t v) \<or> d = ee_child ea \<and> pair_region M t v) ma rA'"
    using apply_mask_spec[OF _ kn(1) _ k] X by blast
  obtain xb rB' where b: "find_edge_entry s rB (ee_child eb) = Some xb"
    "\<forall>s1. \<exists>s2. mtpndd_residual_apply_mask S xb msk rB s1 = (rB', s2) \<and> quiet s1 s2" "wf_map s rB'"
    "residual_of M (\<lambda>d v. (\<exists>t\<in>D. ee_child (snd t) = d \<and> pair_region M t v) \<or> d = ee_child eb \<and> pair_region M t v) mb rB'"
    using apply_mask_spec[OF _ kn(2) _ k] X by blast
  have "residual_of M (\<lambda>c v. \<exists>t\<in>insert t D. ee_child (fst t) = c \<and> pair_region M t v) ma rA'"
    by (rule residual_cong[OF a(4)]) (auto simp: t)
  moreover have "residual_of M (\<lambda>c v. \<exists>t\<in>insert t D. ee_child (snd t) = c \<and> pair_region M t v) mb rB'"
    by (rule residual_cong[OF b(4)]) (auto simp: t)
  ultimately have "or_shared M ma mb (insert t D) (rA', rB') s" using a(3) b(3) by (simp add: or_shared_def)
  then show ?thesis using a(1,2) b(1,2) by blast
qed

text \<open>Two labels that do not overlap: nothing is emitted and the residuals stay as they are.\<close>
lemma or_same_item_apart:
  assumes w: "work S M E s0 T s" and t: "t = (ea, eb)" and x: "or_shared M ma mb D x s"
    and l: "bdd_ok M (ee_label ea)" "bdd_ok M (ee_label eb)"
    and apart: "sylvan_and S (ee_label ea) (ee_label eb) = sylvan_false S"
  shows "\<exists>it x' s'. mtpndd_or_same_field_item S rec t x s = Some (it, x', s')
     \<and> item_post S M E T s f (pair_region M t) (pair_meaning (\<or>) M s0 t) it s'
     \<and> or_shared M ma mb (insert t D) x' s'"
proof -
  let ?l = "sylvan_and S (ee_label ea) (ee_label eb)"
  let ?s1 = "sylvan_deref ?l (sylvan_ref ?l s)"
  obtain rA rB where x_eq: "x = (rA, rB)" by (cases x)
  have "bdd_sem M ?l v \<longleftrightarrow> bdd_sem M (ee_label ea) v \<and> bdd_sem M (ee_label eb) v" for v using l by simp
  then have reg: "\<not> pair_region M t v" for v by (simp add: pair_region_def t apart)
  have q: "quiet s ?s1" by (meson quiet_log quiet_trans)
  have "item_post S M E T s f (pair_region M t) (pair_meaning (\<or>) M s0 t) (no_item MTPNDD_SUCCESS) s"
    using workD[OF w] by (simp add: item_post_def no_item_def reg res_mono_same)
  from item_post_quiet[OF w quiet_refl this q] have
    "item_post S M E T s f (pair_region M t) (pair_meaning (\<or>) M s0 t) (no_item MTPNDD_SUCCESS) ?s1" .
  moreover have "or_shared M ma mb (insert t D) x s" using x reg by (simp add: or_shared_def)
  then have "or_shared M ma mb (insert t D) x ?s1" by (rule or_shared_touch[OF _ quiet_touch[OF q]])
  ultimately show ?thesis using apart
    by (simp add: mtpndd_or_same_field_item_def t x_eq mtpndd_edge_label_load_def Let_def)
qed

lemma or_same_item:
  assumes rec: "rec2_ok S M (\<or>) k rec" and w: "work S M E s0 T s" and si: "sinv S M s0"
    and a: "inner E s0 a f ma" and b: "inner E s0 b f mb"
    and t: "t \<in> set (List.product (entries ma) (entries mb))" and fu: "fuel_ok s0 (Suc k) f"
    and x: "or_shared M ma mb D x s"
  shows "\<exists>it x' s'. mtpndd_or_same_field_item S rec t x s = Some (it, x', s')
     \<and> item_post S M E T s f (pair_region M t) (pair_meaning (\<or>) M s0 t) it s'
     \<and> or_shared M ma mb (insert t D) x' s'"
proof -
  obtain ea eb where t_eq: "t = (ea, eb)" by (cases t)
  obtain rA rB where x_eq: "x = (rA, rB)" by (cases x)
  have e: "ea \<in> set (entries ma)" "eb \<in> set (entries mb)" using t t_eq by auto
  note A = inner_entry[OF si a e(1)] and B = inner_entry[OF si b e(2)]
  let ?l = "sylvan_and S (ee_label ea) (ee_label eb)"
  have reg: "pair_region M t v \<longleftrightarrow> bdd_sem M ?l v" for v using A(2) B(2) by (simp add: pair_region_def t_eq)
  show ?thesis
  proof (cases "?l = sylvan_false S")
    case True
    show ?thesis by (rule or_same_item_apart[OF w t_eq x A(2) B(2) True])
  next
    case False
    let ?n = "sylvan_not S ?l"
    let ?s2 = "sylvan_ref ?n (sylvan_ref ?l s)"
    have q2: "quiet s ?s2" by (meson quiet_log quiet_trans)
    note w2 = quiet_work[OF w q2]
    obtain xa xb rA' rB' where m: "find_edge_entry ?s2 rA (ee_child ea) = Some xa" "find_edge_entry ?s2 rB (ee_child eb) = Some xb"
      "\<forall>s1. \<exists>s2. mtpndd_residual_apply_mask S xa ?n rA s1 = (rA', s2) \<and> quiet s1 s2"
      "\<forall>s1. \<exists>s2. mtpndd_residual_apply_mask S xb ?n rB s1 = (rB', s2) \<and> quiet s1 s2"
      "or_shared M ma mb (insert t D) (rA', rB') ?s2"
      using mask_pair[OF t_eq A(2) B(2) or_shared_touch[OF x[unfolded x_eq] quiet_touch[OF q2]] work_known[OF w2 A(4)] work_known[OF w2 B(4)]]
      by (elim exE conjE)
    obtain s3 where s3: "mtpndd_residual_apply_mask S xa ?n rA ?s2 = (rA', s3)" "quiet ?s2 s3" using m(3) by blast
    obtain s4 where s4: "mtpndd_residual_apply_mask S xb ?n rB s3 = (rB', s4)" "quiet s3 s4" using m(4) by blast
    let ?s5 = "sylvan_deref ?n s4"
    have q25: "quiet ?s2 ?s5" by (rule quiet_trans[OF s3(2) quiet_trans[OF s4(2)]]) simp
    have q5: "quiet s ?s5" by (rule quiet_trans[OF q2 q25])
    note w5 = quiet_work[OF w q5]
    have x5: "or_shared M ma mb (insert t D) (rA', rB') ?s5" by (rule or_shared_touch[OF m(5) quiet_touch[OF q25]])
    have "f < min (fieldof s0 (ee_child ea)) (fieldof s0 (ee_child eb))" using A(6) B(6) by simp
    then have fu': "fuel_ok s0 k (min (fieldof s0 (ee_child ea)) (fieldof s0 (ee_child eb)))"
      by (rule fuel_ok_step[OF fu inner_map(4)[OF si a]])
    have lok: "bdd_ok M ?l" using A(2) B(2) by simp
    from recurse_item_spec[where undo = "sylvan_deref ?l" and meaning = "pair_meaning (\<or>) M s0 t"
        and region = "pair_region M t", OF rec w5 quiet_log(2) A(4-6) B(4-6) fu' lok False]
    obtain it s' where r: "recurse_item rec (ee_child ea) (ee_child eb) (sylvan_deref ?l) ?l ?s5 = Some (it, s')"
      "item_post S M E T ?s5 f (pair_region M t) (pair_meaning (\<or>) M s0 t) it s'"
      using reg by (auto simp: pair_meaning_def t_eq)
    have post: "item_post S M E T s f (pair_region M t) (pair_meaning (\<or>) M s0 t) it s'"
      by (rule item_post_quiet[OF w q5 r(2) quiet_refl])
    have "live E ?s5 c" if "c \<in> dom (emap ma) \<union> dom (emap mb)" for c
      using work_live(1)[OF w5] inner_dom_live[OF a] inner_dom_live[OF b] that by blast
    then have "or_shared M ma mb (insert t D) (rA', rB') s'"
      using or_shared_keeps[OF x5] r(2) unfolding item_post_def by blast
    moreover have "mtpndd_or_same_field_item S rec t x s = Some (it, (rA', rB'), s')"
      using r(1) False m(1,2) s3(1) s4(1)
      by (auto simp: mtpndd_or_same_field_item_def recurse_item_def t_eq x_eq mtpndd_edge_label_load_def Let_def
          split: bind_splits if_splits)
    ultimately show ?thesis using post by blast
  qed
qed

lemma or_items_ok:
  assumes rec: "rec2_ok S M (\<or>) k rec" and si: "sinv S M s0" and a: "inner E s0 a f ma" and b: "inner E s0 b f mb"
    and fu: "fuel_ok s0 (Suc k) f"
  shows "items_ok S M E s0 f (pair_region M) (pair_meaning (\<or>) M s0) (or_shared M ma mb)
     (set (List.product (entries ma) (entries mb))) (mtpndd_or_same_field_item S rec)"
  unfolding items_ok_def
proof (intro conjI ballI allI impI)
  fix t D T x s
  assume "t \<in> set (List.product (entries ma) (entries mb))" "work S M E s0 T s" "or_shared M ma mb D x s"
  from or_same_item[OF rec this(2) si a b this(1) fu this(3)]
  show "\<exists>it x' s'. mtpndd_or_same_field_item S rec t x s = Some (it, x', s')
     \<and> item_post S M E T s f (pair_region M t) (pair_meaning (\<or>) M s0 t) it s'
     \<and> or_shared M ma mb (insert t D) x' s'" .
next
  fix D x s s' assume "or_shared M ma mb D x s" "touch s s'"
  then show "or_shared M ma mb D x s'" by (rule or_shared_touch)
next
  fix t u v assume "t \<in> set (List.product (entries ma) (entries mb))" "u \<in> set (List.product (entries ma) (entries mb))"
    "t \<noteq> u" "pair_region M t v"
  then show "\<not> pair_region M u v" by (rule pairs_apart[OF si a b])
qed

end

section \<open>What is left of the operands\<close>

lemma residual_entries:
  assumes si: "sinv S M s0" and p: "inner E s0 p f m" and r: "residual_of M gone m r" "wf_map s r"
  shows "e \<in> set (entries r) \<Longrightarrow> \<exists>e0\<in>set (entries m). ee_child e0 = ee_child e \<and> bdd_ok M (ee_label e)
       \<and> (\<forall>v. bdd_sem M (ee_label e) v \<longleftrightarrow> bdd_sem M (ee_label e0) v \<and> \<not> gone (ee_child e) v)"
    "e0 \<in> set (entries m) \<Longrightarrow> \<exists>e\<in>set (entries r). ee_child e = ee_child e0
       \<and> (\<forall>v. bdd_sem M (ee_label e) v \<longleftrightarrow> bdd_sem M (ee_label e0) v \<and> \<not> gone (ee_child e) v)"
proof -
  have d: "distinct (map ee_child (entries r))" using r(2) by (simp add: wf_map_def)
  note er = emap_Some[OF d] and em = emap_Some[OF inner_map(6)[OF si p]]
  have dom: "dom (emap r) = dom (emap m)" using r(1) by (simp add: residual_of_def)
  have sem: "bdd_ok M (ee_label e) \<and> (\<forall>v. bdd_sem M (ee_label e) v \<longleftrightarrow> bdd_sem M (ee_label e0) v \<and> \<not> gone (ee_child e) v)"
    if "e \<in> set (entries r)" "e0 \<in> set (entries m)" "ee_child e0 = ee_child e" for e e0
  proof -
    have "emap r (ee_child e) = Some (ee_label e)" "emap m (ee_child e) = Some (ee_label e0)" using er em that by blast+
    then show ?thesis using r(1) unfolding residual_of_def by blast
  qed
  show "\<exists>e0\<in>set (entries m). ee_child e0 = ee_child e \<and> bdd_ok M (ee_label e)
       \<and> (\<forall>v. bdd_sem M (ee_label e) v \<longleftrightarrow> bdd_sem M (ee_label e0) v \<and> \<not> gone (ee_child e) v)" if e: "e \<in> set (entries r)"
  proof -
    have "ee_child e \<in> dom (emap m)" using e dom by (auto simp: dom_emap)
    then obtain e0 where "e0 \<in> set (entries m)" "ee_child e0 = ee_child e" by (auto simp: dom_emap)
    then show ?thesis using sem[OF e] by blast
  qed
  show "\<exists>e\<in>set (entries r). ee_child e = ee_child e0
       \<and> (\<forall>v. bdd_sem M (ee_label e) v \<longleftrightarrow> bdd_sem M (ee_label e0) v \<and> \<not> gone (ee_child e) v)" if e: "e0 \<in> set (entries m)"
  proof -
    have "ee_child e0 \<in> dom (emap r)" using e dom by (auto simp: dom_emap)
    then obtain e1 where "e1 \<in> set (entries r)" "ee_child e0 = ee_child e1" by (auto simp: dom_emap)
    then show ?thesis using sem[of e1 e0] e by metis
  qed
qed

text \<open>The residual labels are those of the operand outside the region of all pairs.\<close>

definition left_over :: "bdd_model \<Rightarrow> (assignment \<Rightarrow> bool) \<Rightarrow> mtpndd_edge \<Rightarrow> mtpndd_edge \<Rightarrow> bool" where
  "left_over M R m r \<longleftrightarrow> distinct (map ee_child (entries r)) \<and>
     (\<forall>e\<in>set (entries r). \<exists>e0\<in>set (entries m). ee_child e0 = ee_child e \<and> bdd_ok M (ee_label e)
        \<and> (\<forall>v. bdd_sem M (ee_label e) v \<longleftrightarrow> bdd_sem M (ee_label e0) v \<and> \<not> R v))
     \<and> (\<forall>e0\<in>set (entries m). \<exists>e\<in>set (entries r). ee_child e0 = ee_child e
        \<and> (\<forall>v. bdd_sem M (ee_label e) v \<longleftrightarrow> bdd_sem M (ee_label e0) v \<and> \<not> R v))"

lemma left_overI:
  assumes si: "sinv S M s0" and p: "inner E s0 p f m" and r: "residual_of M gone m r" "wf_map s r"
    and g: "\<And>e v. e \<in> set (entries m) \<Longrightarrow> bdd_sem M (ee_label e) v \<Longrightarrow> gone (ee_child e) v \<longleftrightarrow> R v"
  shows "left_over M R m r"
proof -
  note re = residual_entries[OF si p r]
  have "distinct (map ee_child (entries r))" using r(2) by (simp add: wf_map_def)
  moreover have "\<exists>e0\<in>set (entries m). ee_child e0 = ee_child e \<and> bdd_ok M (ee_label e)
      \<and> (\<forall>v. bdd_sem M (ee_label e) v \<longleftrightarrow> bdd_sem M (ee_label e0) v \<and> \<not> R v)" if "e \<in> set (entries r)" for e
    using re(1)[OF that] g by metis
  moreover have "\<exists>e\<in>set (entries r). ee_child e0 = ee_child e
      \<and> (\<forall>v. bdd_sem M (ee_label e) v \<longleftrightarrow> bdd_sem M (ee_label e0) v \<and> \<not> R v)" if "e0 \<in> set (entries m)" for e0
    using re(2)[OF that] g that by metis
  ultimately show ?thesis unfolding left_over_def by blast
qed

definition pairs_region :: "bdd_model \<Rightarrow> mtpndd_edge \<Rightarrow> mtpndd_edge \<Rightarrow> assignment \<Rightarrow> bool" where
  "pairs_region M ma mb v \<longleftrightarrow> (\<exists>t\<in>set (List.product (entries ma) (entries mb)). pair_region M t v)"

lemma pairs_region_iff:
  "pairs_region M ma mb v \<longleftrightarrow> (\<exists>e\<in>set (entries ma). bdd_sem M (ee_label e) v) \<and> (\<exists>e\<in>set (entries mb). bdd_sem M (ee_label e) v)"
  by (auto simp: pairs_region_def pair_region_def)

lemma or_left_over:
  assumes si: "sinv S M s0" and a: "inner E s0 a f ma" and b: "inner E s0 b f mb"
    and x: "or_shared M ma mb (set (List.product (entries ma) (entries mb))) (rA, rB) s"
  shows "left_over M (pairs_region M ma mb) ma rA" "left_over M (pairs_region M ma mb) mb rB"
proof -
  let ?P = "set (List.product (entries ma) (entries mb))"
  note X = x[unfolded or_shared_def fst_conv snd_conv]
  have "(\<exists>t\<in>?P. ee_child (fst t) = ee_child e \<and> pair_region M t v) \<longleftrightarrow> pairs_region M ma mb v"
    if "e \<in> set (entries ma)" "bdd_sem M (ee_label e) v" for e v
    unfolding pairs_region_def using inner_apart[OF si a _ _ _ that(2)] that(1) by (auto simp: pair_region_def)
  with left_overI[OF si a] X show "left_over M (pairs_region M ma mb) ma rA" by blast
  have "(\<exists>t\<in>?P. ee_child (snd t) = ee_child e \<and> pair_region M t v) \<longleftrightarrow> pairs_region M ma mb v"
    if "e \<in> set (entries mb)" "bdd_sem M (ee_label e) v" for e v
    unfolding pairs_region_def using inner_apart[OF si b _ _ _ that(2)] that(1) by (auto simp: pair_region_def)
  with left_overI[OF si b] X show "left_over M (pairs_region M ma mb) mb rB" by blast
qed

lemma left_over_holds:
  assumes si: "sinv S M s" and p: "inner E s p f m" and lo: "left_over M R m r"
  shows "(\<exists>e\<in>set (entries r). bdd_sem M (ee_label e) (env f) \<and> holds M s env (ee_child e)) \<longleftrightarrow> holds M s env p \<and> \<not> R (env f)"
  using lo unfolding inner_holds[OF si p] left_over_def by metis

lemma or_cover:
  assumes si: "sinv S M s" and a: "inner E s a f ma" and b: "inner E s b f mb"
  shows "(holds M s env a \<or> holds M s env b) \<longleftrightarrow>
     (\<exists>t\<in>set (List.product (entries ma) (entries mb)). pair_region M t (env f) \<and> pair_meaning (\<or>) M s t env)
     \<or> holds M s env a \<and> \<not> pairs_region M ma mb (env f) \<or> holds M s env b \<and> \<not> pairs_region M ma mb (env f)"
  (is "_ \<longleftrightarrow> ?pairs \<or> _ \<or> _")
proof -
  have "?pairs \<longleftrightarrow> pairs_region M ma mb (env f) \<and> (holds M s env a \<or> holds M s env b)"
    unfolding pairs_region_iff inner_holds[OF si a] inner_holds[OF si b]
    using inner_apart[OF si a] inner_apart[OF si b]
    by (auto simp: pair_region_def pair_meaning_def)
  then show ?thesis by blast
qed

context sylvan_laws
begin

lemma left_over_addable:
  assumes si: "sinv S M s0" and p: "inner E s0 p f m" and w: "work S M E s0 T s" and lo: "left_over M R0 m r"
    and R: "\<And>e v. e \<in> set (entries m) \<Longrightarrow> bdd_sem M (ee_label e) v \<Longrightarrow> R v \<Longrightarrow> R0 v"
  shows "\<forall>e\<in>set (entries r). addable M s f R (\<lambda>e env. holds M s0 env (ee_child e)) e" "distinct (entries r)"
    "apart_edges M (set (entries r))"
proof -
  show "distinct (entries r)" using lo by (simp add: left_over_def distinct_map)
  show "\<forall>e\<in>set (entries r). addable M s f R (\<lambda>e env. holds M s0 env (ee_child e)) e"
  proof
    fix e assume "e \<in> set (entries r)"
    then obtain e0 where e0: "e0 \<in> set (entries m)" "ee_child e0 = ee_child e" "bdd_ok M (ee_label e)"
      "\<And>v. bdd_sem M (ee_label e) v \<longleftrightarrow> bdd_sem M (ee_label e0) v \<and> \<not> R0 v" using lo unfolding left_over_def by blast
    note A = inner_entry[OF si p e0(1), unfolded e0(2)]
    have "boolean s (ee_child e)" "f < fieldof s (ee_child e)" using work_live(3,4)[OF w A(4)] A(5,6) by simp_all
    moreover have "\<not> R v" if "bdd_sem M (ee_label e) v" for v using R[OF e0(1)] that e0(4) by blast
    ultimately show "addable M s f R (\<lambda>e env. holds M s0 env (ee_child e)) e"
      using e0(3) work_live(5)[OF w A(4)] by (simp add: addable_def)
  qed
  show "apart_edges M (set (entries r))" unfolding apart_edges_def
  proof (intro ballI impI allI)
    fix e e' v assume e: "e \<in> set (entries r)" "e' \<in> set (entries r)" "e \<noteq> e'" "bdd_sem M (ee_label e) v"
    have "ee_child e \<noteq> ee_child e'" using lo e(1-3) unfolding left_over_def by (meson distinct_map inj_onD)
    moreover obtain e0 where e0: "e0 \<in> set (entries m)" "ee_child e0 = ee_child e" "bdd_sem M (ee_label e0) v"
      using lo e(1,4) unfolding left_over_def by blast
    ultimately show "\<not> bdd_sem M (ee_label e') v"
      using lo e(2) inner_apart[OF si p e0(1)] e0(2,3) unfolding left_over_def by metis
  qed
qed

lemma add_both:
  assumes si: "sinv S M s0" and a: "inner E s0 a f ma" and b: "inner E s0 b f mb" and w: "work S M E s0 T s"
    and bld: "building S M s f T m (pairs_region M ma mb) G"
    and lo: "left_over M (pairs_region M ma mb) ma rA" "left_over M (pairs_region M ma mb) mb rB"
  shows "\<exists>ok m1 s1. add_residual S (entries rA) m s = Some (ok, m1, s1) \<and> touch s s1 \<and>
     (if \<not> ok then \<exists>T. work S M E s0 T s1 \<and> wf_map s1 m1 \<and> failed s1
      else \<exists>ok m2 s2. add_residual S (entries rB) m1 s1 = Some (ok, m2, s2) \<and> touch s1 s2 \<and>
        (\<exists>T. work S M E s0 T s2 \<and> wf_map s2 m2 \<and>
          (if ok then \<exists>G'. building S M s2 f T m2 (\<lambda>_. True) G' \<and> (\<forall>env. G' (env f) env \<longleftrightarrow> G (env f) env
              \<or> holds M s0 env a \<and> \<not> pairs_region M ma mb (env f) \<or> holds M s0 env b \<and> \<not> pairs_region M ma mb (env f))
           else failed s2)))"
proof -
  let ?R = "pairs_region M ma mb" and ?K = "\<lambda>e env. holds M s0 env (ee_child e)"
  let ?R1 = "\<lambda>v. ?R v \<or> (\<exists>e\<in>set (entries rA). bdd_sem M (ee_label e) v)"
  let ?G1 = "\<lambda>v env. G v env \<or> (\<exists>e\<in>set (entries rA). bdd_sem M (ee_label e) v \<and> ?K e env)"
  let ?R2 = "\<lambda>v. ?R1 v \<or> (\<exists>e\<in>set (entries rB). bdd_sem M (ee_label e) v)"
  let ?G2 = "\<lambda>v env. ?G1 v env \<or> (\<exists>e\<in>set (entries rB). bdd_sem M (ee_label e) v \<and> ?K e env)"
  have A: "\<forall>e\<in>set (entries rA). addable M s f ?R ?K e" "distinct (entries rA)" "apart_edges M (set (entries rA))"
    using left_over_addable[OF si a w lo(1), of ?R] by simp_all
  obtain ok1 m1 s1 T1 where r1: "add_residual S (entries rA) m s = Some (ok1, m1, s1)" "touch s s1"
    "work S M E s0 T1 s1" "wf_map s1 m1" "if ok1 then building S M s1 f T1 m1 ?R1 ?G1 else failed s1"
    using add_residual_spec[OF w bld A] by (elim exE conjE)
  show ?thesis
  proof (cases ok1)
    case False
    then show ?thesis using r1 by (intro exI[of _ ok1] exI[of _ m1] exI[of _ s1]) auto
  next
    case True
    have RA: "?R v" if "e \<in> set (entries mb)" "bdd_sem M (ee_label e) v" "?R1 v" for e v
      using lo(1) that unfolding left_over_def pairs_region_iff by metis
    have B: "\<forall>e\<in>set (entries rB). addable M s1 f ?R1 ?K e" "distinct (entries rB)" "apart_edges M (set (entries rB))"
      by (rule left_over_addable[OF si b r1(3) lo(2)], rule RA, assumption+)+
    have b1: "building S M s1 f T1 m1 ?R1 ?G1" using r1(5) True by simp
    obtain ok2 m2 s2 T2 where r2: "add_residual S (entries rB) m1 s1 = Some (ok2, m2, s2)" "touch s1 s2"
      "work S M E s0 T2 s2" "wf_map s2 m2" "if ok2 then building S M s2 f T2 m2 ?R2 ?G2 else failed s2"
      using add_residual_spec[OF r1(3) b1 B] by (elim exE conjE)
    have "\<exists>G'. building S M s2 f T2 m2 (\<lambda>_. True) G' \<and> (\<forall>env. G' (env f) env \<longleftrightarrow> G (env f) env
          \<or> holds M s0 env a \<and> \<not> ?R (env f) \<or> holds M s0 env b \<and> \<not> ?R (env f))" if ok2
    proof (intro exI conjI allI)
      show "building S M s2 f T2 m2 (\<lambda>_. True) ?G2" by (rule building_cong[where T = T2 and R = ?R2 and G = ?G2]) (use r2(5) that in simp_all)
      show "?G2 (env f) env \<longleftrightarrow> G (env f) env \<or> holds M s0 env a \<and> \<not> ?R (env f) \<or> holds M s0 env b \<and> \<not> ?R (env f)" for env
        unfolding left_over_holds[OF si a lo(1)] left_over_holds[OF si b lo(2)] by blast
    qed
    then show ?thesis using r1(1,2) True r2
      by (intro exI[of _ ok1] exI[of _ m1] exI[of _ s1] conjI) (auto split: if_splits)
  qed
qed


section \<open>The building phases\<close>

end

text \<open>What the building phase of disjunction returns: a map, or \<open>None\<close> when it has cleaned up.\<close>

definition or_built ::
  "sylvan \<Rightarrow> bdd_model \<Rightarrow> ptr multiset \<Rightarrow> mstate \<Rightarrow> nat \<Rightarrow> (env \<Rightarrow> bool) \<Rightarrow> mtpndd_edge option \<Rightarrow> mstate \<Rightarrow> bool" where
  "or_built S M E s0 f H r s \<longleftrightarrow>
     (case r of None \<Rightarrow> op_post S M E s0 f H NULL s | Some m \<Rightarrow> built S M E s0 f H MTPNDD_SUCCESS m s)"

lemma or_fail_spec:
  assumes w: "work S M E s0 T s" and m: "wf_map s m" and fl: "failed s"
  shows "\<exists>s'. or_fail (length (stack s0)) m s = Some (None, s') \<and> or_built S M E s0 f H None s'"
  using give_up_spec[OF w m fl, of f H] by (auto simp: or_fail_def or_built_def)

lemma or_fail_free:
  assumes w: "work S M E s0 T s" and m: "wf_map s m" and fl: "failed s" and ms: "\<forall>m\<in>set ms. freeable m"
  shows "\<exists>s'. do { s \<leftarrow> free_maps ms s; or_fail (length (stack s0)) m s } = Some (None, s')
     \<and> or_built S M E s0 f H None s'"
proof -
  obtain s1 where s1: "free_maps ms s = Some s1" "quiet s s1" "work S M E s0 T s1" using free_maps_spec[OF w ms] by blast
  have "wf_map s1 m" "failed s1" using wf_map_quiet[OF s1(2)] m touch_failed[OF quiet_touch[OF s1(2)] fl] by auto
  then show ?thesis using or_fail_spec[OF s1(3), of m f H] s1(1) by simp
qed

lemma or_no_memory_spec:
  assumes w: "work S M E s0 T s" and fl: "failed s" and ms: "\<forall>m\<in>set ms. freeable m"
  shows "\<exists>s'. or_no_memory (length (stack s0)) ms n s = Some (None, s') \<and> or_built S M E s0 f H None s'"
proof -
  obtain s1 where s1: "free_maps ms s = Some s1" "quiet s s1" "work S M E s0 T s1" using free_maps_spec[OF w ms] by blast
  obtain s2 where s2: "mtpndd_temp_refs_release (length (stack s0)) s1 = Some s2" "touch s1 s2" "work S M E s0 [] s2"
    using release_work[OF s1(3)] by blast
  let ?s3 = "mtpndd_set_error MTPNDD_ERROR_OUT_OF_MEMORY ''mtpndd_or_rec'' n s2"
  have "failed ?s3" using touch_failed[OF touch_trans[OF quiet_touch[OF s1(2)] touch_trans[OF s2(2) quiet_touch[OF quiet_log(3)]]] fl] .
  moreover have "work S M E s0 [] ?s3" by (rule quiet_work[OF s2(3)]) simp
  ultimately show ?thesis using s1(1) s2(1) op_post_null by (auto simp: or_no_memory_def or_built_def)
qed

context sylvan_laws
begin

text \<open>
  The last part of the same-field case: what is left of the two operands is added, and the residual
  maps are freed on every path.
\<close>
lemma or_add_residuals:
  assumes si: "sinv S M s0" and a: "inner E s0 a f ma" and b: "inner E s0 b f mb"
    and inv: "task_inv S M E s0 f (pair_region M) (pair_meaning (\<or>) M s0) (or_shared M ma mb)
      (set (List.product (entries ma) (entries mb))) T1 m1 (rA1, rB1) s1"
  shows "\<exists>r s'. do {
       es \<leftarrow> for_each_entry s1 rA1;
       (ok, m2, s) \<leftarrow> add_residual S es m1 s1;
       if \<not> ok then do { s \<leftarrow> free_maps [rA1, rB1] s; or_fail (length (stack s0)) m2 s }
       else do {
         es \<leftarrow> for_each_entry s rB1;
         (ok, m3, s) \<leftarrow> add_residual S es m2 s;
         s \<leftarrow> free_maps [rA1, rB1] s;
         if \<not> ok then or_fail (length (stack s0)) m3 s else Some (Some m3, s)
       } } = Some (r, s')
     \<and> or_built S M E s0 f (\<lambda>env. holds M s0 env a \<or> holds M s0 env b) r s'"
proof -
  let ?ts = "List.product (entries ma) (entries mb)" and ?H = "\<lambda>env. holds M s0 env a \<or> holds M s0 env b"
  have w1: "work S M E s0 T1 s1" and xs: "or_shared M ma mb (set ?ts) (rA1, rB1) s1"
    and b1: "building S M s1 f T1 m1 (pairs_region M ma mb) (\<lambda>v env. \<exists>t\<in>set ?ts. pair_region M t v \<and> pair_meaning (\<or>) M s0 t env)"
    using inv unfolding task_inv_def pairs_region_def by auto
  have wr: "wf_map s1 rA1" "wf_map s1 rB1" using xs by (auto simp: or_shared_def)
  then have fb: "\<forall>m\<in>set [rA1, rB1]. freeable m" using freeable_wf by auto
  note fe = for_each_entry_wf[OF wr(1)] for_each_entry_wf[OF wr(2)]
  obtain ok m2 s2 where r2: "add_residual S (entries rA1) m1 s1 = Some (ok, m2, s2)"
    "if \<not> ok then \<exists>T. work S M E s0 T s2 \<and> wf_map s2 m2 \<and> failed s2
     else \<exists>ok m3 s3. add_residual S (entries rB1) m2 s2 = Some (ok, m3, s3) \<and> touch s2 s3 \<and>
      (\<exists>T. work S M E s0 T s3 \<and> wf_map s3 m3 \<and>
        (if ok then \<exists>G'. building S M s3 f T m3 (\<lambda>_. True) G' \<and> (\<forall>env. G' (env f) env \<longleftrightarrow> ?H env)
         else failed s3))"
    using add_both[OF si a b w1 b1 or_left_over[OF si a b xs]] unfolding or_cover[OF si a b, symmetric]
    by (elim exE conjE)
  show ?thesis
  proof (cases ok)
    case False
    then obtain T2 where "work S M E s0 T2 s2" "wf_map s2 m2" "failed s2" using r2(2) by auto
    from or_fail_free[OF this fb, of f ?H] show ?thesis using r2(1) False fe by auto
  next
    case ok: True
    then obtain ok3 m3 s3 T3 where r3: "add_residual S (entries rB1) m2 s2 = Some (ok3, m3, s3)"
      "work S M E s0 T3 s3" "wf_map s3 m3"
      "if ok3 then \<exists>G'. building S M s3 f T3 m3 (\<lambda>_. True) G' \<and> (\<forall>env. G' (env f) env \<longleftrightarrow> ?H env) else failed s3"
      using r2(2) by auto
    obtain s4 where s4: "free_maps [rA1, rB1] s3 = Some s4" "quiet s3 s4" "work S M E s0 T3 s4"
      using free_maps_spec[OF r3(2) fb] by blast
    note t4 = quiet_touch[OF s4(2)]
    have wf4: "wf_map s4 m3" using wf_map_quiet[OF s4(2)] r3(3) by simp
    show ?thesis
    proof (cases ok3)
      case False
      then have "failed s4" using r3(4) touch_failed[OF t4] by simp
      from or_fail_spec[OF s4(3) wf4 this, of f ?H] show ?thesis using ok r2(1) r3(1) s4(1) fe False by (auto simp del: free_maps.simps)
    next
      case ok3: True
      then obtain G' where "building S M s3 f T3 m3 (\<lambda>_. True) G'" "\<forall>env. G' (env f) env \<longleftrightarrow> ?H env" using r3(4) by auto
      moreover have "building S M s4 f T3 m3 (\<lambda>_. True) G'"
        by (rule building_keeps[OF calculation(1) touch_keeps[OF t4, of "E + mset T3"]]) (use t4 in \<open>simp add: touch_def\<close>)
      ultimately have "or_built S M E s0 f ?H (Some m3) s4" using s4(3) wf4 by (auto simp: or_built_def built_def)
      then show ?thesis using ok r2(1) r3(1) s4(1) fe ok3 by (auto simp del: free_maps.simps)
    qed
  qed
qed

lemma or_pairs_spec:
  assumes rec: "rec2_ok S M (\<or>) k rec" and w: "work S M E s0 T s" and si: "sinv S M s0"
    and a: "inner E s0 a f ma" and b: "inner E s0 b f mb" and fu: "fuel_ok s0 (Suc k) f"
    and m: "wf_map s m" "emap m = Map.empty" and x: "or_shared M ma mb {} (rA, rB) s"
  shows "\<exists>r s'. or_pairs S rec (length (stack s0)) a ma b mb rA rB m s = Some (r, s')
     \<and> or_built S M E s0 f (\<lambda>env. holds M s0 env a \<or> holds M s0 env b) r s'"
proof -
  let ?ts = "List.product (entries ma) (entries mb)" and ?H = "\<lambda>env. holds M s0 env a \<or> holds M s0 env b"
  let ?fr = "length (stack s0)"
  have al: "\<forall>T s. work S M E s0 T s \<longrightarrow> operands a ma b mb s"
    using work_live(6)[OF _ innerD(1)[OF a]] work_live(6)[OF _ innerD(1)[OF b]] innerD(4)[OF a] innerD(4)[OF b]
    by (simp add: operands_def)
  have sp: "\<forall>T s t. work S M E s0 T s \<longrightarrow> t \<in> set ?ts \<longrightarrow> (\<exists>b. (case t of (entry_a, entry_b) \<Rightarrow>
      mtpndd_should_spawn s (ee_child entry_a) (ee_child entry_b)) = Some b)"
    using spawn_total inner_entry(4)[OF si a] inner_entry(4)[OF si b] by auto
  have d: "distinct ?ts" by (rule distinct_product[OF inner_map(5)[OF si a] inner_map(5)[OF si b]])
  have inv: "task_inv S M E s0 f (pair_region M) (pair_meaning (\<or>) M s0) (or_shared M ma mb) {} T m (rA, rB) s"
    using built_empty[OF w m] x by (simp add: task_inv_def)
  obtain st m1 x1 s1 where r: "run_items (operands a ma b mb)
      (\<lambda>s (entry_a, entry_b). mtpndd_should_spawn s (ee_child entry_a) (ee_child entry_b))
      (mtpndd_and_merge_item S) (mtpndd_or_same_field_item S rec) ?ts m (rA, rB) s = Some (st, m1, x1, s1)"
    "outcome S M E s0 f (pair_region M) (pair_meaning (\<or>) M s0) (or_shared M ma mb) (set ?ts) st m1 x1 s1"
    using run_items_spec[OF or_items_ok[OF rec si a b fu] al sp d inv] by (elim exE conjE)
  obtain rA1 rB1 where x1: "x1 = (rA1, rB1)" by (cases x1)
  have wf: "wf_map s0 ma" "wf_map s0 mb" using inner_map(1)[OF si] a b by blast+
  have run: "or_pairs S rec ?fr a ma b mb rA rB m s =
      (if st \<noteq> MTPNDD_SUCCESS then do { s \<leftarrow> free_maps [rA1, rB1] s1; or_fail ?fr m1 s }
       else do {
         es \<leftarrow> for_each_entry s1 rA1;
         (ok, m2, s) \<leftarrow> add_residual S es m1 s1;
         if \<not> ok then do { s \<leftarrow> free_maps [rA1, rB1] s; or_fail ?fr m2 s }
         else do {
           es \<leftarrow> for_each_entry s rB1;
           (ok, m3, s) \<leftarrow> add_residual S es m2 s;
           s \<leftarrow> free_maps [rA1, rB1] s;
           if \<not> ok then or_fail ?fr m3 s else Some (Some m3, s)
         } })"
    using r(1) wf by (simp add: or_pairs_def mtpndd_or_merge_item_def x1)
  show ?thesis
  proof (cases "st = MTPNDD_SUCCESS")
    case False
    then obtain T1 D' where T1: "work S M E s0 T1 s1" "wf_map s1 m1" "failed s1" "or_shared M ma mb D' (rA1, rB1) s1"
      using r(2) unfolding outcome_def x1 by auto
    then have "\<forall>m\<in>set [rA1, rB1]. freeable m" using freeable_wf by (auto simp: or_shared_def)
    from or_fail_free[OF T1(1-3) this, of f ?H] show ?thesis unfolding run using False by auto
  next
    case True
    then obtain T1 where T1: "task_inv S M E s0 f (pair_region M) (pair_meaning (\<or>) M s0) (or_shared M ma mb) (set ?ts) T1 m1 (rA1, rB1) s1"
      using outcomeD[OF r(2)[unfolded True x1]] by (elim exE)
    from or_add_residuals[OF si a b this] show ?thesis unfolding run using True by simp
  qed
qed

lemma or_clone:
  assumes w: "work S M E s0 T s" and si: "sinv S M s0" and a: "inner E s0 a f ma" and r: "fresh_map r"
  shows "\<exists>st r' s'. mtpndd_edge_map_deep_clone ma r s = Some (st, r', s') \<and> work S M E s0 T s' \<and> touch s s' \<and> freeable r'
     \<and> (if st = MTPNDD_SUCCESS then wf_map s' r' \<and> residual_of M (\<lambda>_ _. False) ma r' else failed s')"
proof -
  have l: "live E s0 c" if "c \<in> dom (emap ma)" for c by (rule inner_dom_live[OF a that])
  have "mtpndd_hash_node_identity s (ee_child e) = mtpndd_hash_node_identity s0 (ee_child e)" if "e \<in> set (entries ma)" for e
    using work_live(2)[OF w l] that by (intro hash_content_cong) (auto simp: dom_emap)
  then have wf: "wf_map s ma" using inner_map(1)[OF si a] wf_map_cong[of ma s s0] by blast
  have kn: "\<forall>c\<in>dom (emap ma). nodes s c \<noteq> None" using work_live(8)[OF w l] by blast
  obtain st r' s' where c: "mtpndd_edge_map_deep_clone ma r s = Some (st, r', s')" "work S M E s0 T s'" "touch s s'" "freeable r'"
    "if st = MTPNDD_SUCCESS then wf_map s' r' \<and> emap r' = emap ma else failed s'"
    using deep_clone_spec[OF w wf kn r] by (elim exE conjE)
  then show ?thesis using residual_start[OF inner_map(2)[OF si a], of r' "\<lambda>_ _. False"] by (auto split: if_splits)
qed

text \<open>One residual map: acquired, then cloned.\<close>

lemma or_residual:
  assumes w: "work S M E s0 T s" and si: "sinv S M s0" and a: "inner E s0 a f ma"
    and q: "mtpndd_memory_acquire_edge_map s = (r, s1)"
  shows "work S M E s0 T s1" "touch s s1" "r = None \<Longrightarrow> failed s1"
    "r = Some r0 \<Longrightarrow> \<exists>st r' s'. mtpndd_edge_map_deep_clone ma r0 s1 = Some (st, r', s') \<and> work S M E s0 T s' \<and> touch s1 s' \<and> freeable r'
     \<and> (if st = MTPNDD_SUCCESS then wf_map s' r' \<and> residual_of M (\<lambda>_ _. False) ma r' else failed s')"
proof -
  note qu = acquire_edge_map_quiet[OF q]
  show w1: "work S M E s0 T s1" by (rule quiet_work[OF w qu])
  show "touch s s1" by (rule quiet_touch[OF qu])
  show "r = None \<Longrightarrow> failed s1" using acquire_edge_map_failed[of s s1] q cinv_heap_ready[OF workD(2,1)[OF w]] by blast
  show "r = Some r0 \<Longrightarrow> \<exists>st r' s'. mtpndd_edge_map_deep_clone ma r0 s1 = Some (st, r', s') \<and> work S M E s0 T s' \<and> touch s1 s' \<and> freeable r'
     \<and> (if st = MTPNDD_SUCCESS then wf_map s' r' \<and> residual_of M (\<lambda>_ _. False) ma r' else failed s')"
    using or_clone[OF w1 si a] acquire_fresh[OF workD(1)[OF w], of r0 s1] q by blast
qed

lemma or_build_same_spec:
  assumes rec: "rec2_ok S M (\<or>) k rec" and w: "work S M E s0 T s" and si: "sinv S M s0"
    and a: "inner E s0 a f ma" and b: "inner E s0 b f mb" and fu: "fuel_ok s0 (Suc k) f"
    and m: "wf_map s m" "emap m = Map.empty"
  shows "\<exists>r s'. or_build_same S rec (length (stack s0)) a b m s = Some (r, s')
     \<and> or_built S M E s0 f (\<lambda>env. holds M s0 env a \<or> holds M s0 env b) r s'"
proof -
  let ?H = "\<lambda>env. holds M s0 env a \<or> holds M s0 env b" and ?fr = "length (stack s0)"
  have ne: "node_edges s a = Some ma" "node_edges s b = Some mb"
    using work_live(6)[OF w] innerD(1,4)[OF a] innerD(1,4)[OF b] by auto
  have fm: "freeable m" by (rule freeable_wf[OF m(1)])
  obtain r1 s1 where q1: "mtpndd_memory_acquire_edge_map s = (r1, s1)" by fastforce
  note R1 = or_residual[OF w si a q1]
  show ?thesis
  proof (cases r1)
    case None
    then show ?thesis using or_no_memory_spec[OF R1(1) R1(3)[OF None], of "[m]" 1408 f ?H] q1 ne fm
      by (auto simp: or_build_same_def)
  next
    case (Some r0)
    obtain st2 rA s2 where c2: "mtpndd_edge_map_deep_clone ma r0 s1 = Some (st2, rA, s2)" "work S M E s0 T s2" "touch s1 s2" "freeable rA"
      "if st2 = MTPNDD_SUCCESS then wf_map s2 rA \<and> residual_of M (\<lambda>_ _. False) ma rA else failed s2"
      using R1(4)[OF Some] by (elim exE conjE)
    show ?thesis
    proof (cases "st2 = MTPNDD_SUCCESS")
      case False
      then have "failed s2" using c2(5) by simp
      then show ?thesis using or_no_memory_spec[OF c2(2), of "[rA, m]" 1415 f ?H] q1 ne fm Some c2(1,4) False
        by (auto simp: or_build_same_def)
    next
      case ok2: True
      obtain r3 s3 where q3: "mtpndd_memory_acquire_edge_map s2 = (r3, s3)" by fastforce
      note R3 = or_residual[OF c2(2) si b q3]
      show ?thesis
      proof (cases r3)
        case None
        then show ?thesis using or_no_memory_spec[OF R3(1) R3(3)[OF None], of "[rA, m]" 1423 f ?H] q1 ne fm Some c2(1,4) ok2 q3
          by (auto simp: or_build_same_def)
      next
        case r3: (Some r30)
        obtain st4 rB s4 where c4: "mtpndd_edge_map_deep_clone mb r30 s3 = Some (st4, rB, s4)" "work S M E s0 T s4" "touch s3 s4" "freeable rB"
          "if st4 = MTPNDD_SUCCESS then wf_map s4 rB \<and> residual_of M (\<lambda>_ _. False) mb rB else failed s4"
          using R3(4)[OF r3] by (elim exE conjE)
        have run: "or_build_same S rec ?fr a b m s = (if st4 \<noteq> MTPNDD_SUCCESS then or_no_memory ?fr [rA, rB, m] 1431 s4
            else or_pairs S rec ?fr a ma b mb rA rB m s4)"
          using q1 ne Some c2(1) ok2 q3 r3 c4(1) by (simp add: or_build_same_def)
        have t24: "touch s2 s4" by (rule touch_trans[OF R3(2) c4(3)])
        have t4: "touch s s4" by (rule touch_trans[OF touch_trans[OF R1(2) c2(3)] t24])
        show ?thesis
        proof (cases "st4 = MTPNDD_SUCCESS")
          case False
          then have "failed s4" using c4(5) by simp
          then show ?thesis using or_no_memory_spec[OF c4(2), of "[rA, rB, m]" 1431 f ?H] run False fm c2(4) c4(4) by auto
        next
          case ok4: True
          have "or_shared M ma mb {} (rA, rB) s4"
            using c2(5) c4(5) ok2 ok4 wf_map_touch[OF t24] by (simp add: or_shared_def)
          moreover have "wf_map s4 m" using wf_map_touch[OF t4] m(1) by simp
          ultimately show ?thesis using or_pairs_spec[OF rec c4(2) si a b fu _ m(2)] run ok4 by simp
        qed
      qed
    qed
  qed
qed

section \<open>Operands at different fields\<close>

lemma or_diff_item:
  assumes rec: "rec2_ok S M (\<or>) k rec" and w: "work S M E s0 T s" and si: "sinv S M s0"
    and a: "inner E s0 a f ma" and b: "live E s0 b" "boolean s0 b" "f < fieldof s0 b"
    and e: "e \<in> set (entries ma)" and fu: "fuel_ok s0 (Suc k) f" and x: "uncovered M D x s"
  shows "\<exists>it x' s'. mtpndd_or_diff_field_item S rec b e x s = Some (it, x', s')
     \<and> item_post S M E T s f (bdd_sem M (ee_label e)) (\<lambda>env. holds M s0 env (ee_child e) \<or> holds M s0 env b) it s'
     \<and> uncovered M (insert e D) x' s'"
proof -
  note A = inner_entry[OF si a e]
  let ?l = "ee_label e" and ?mean = "\<lambda>env. holds M s0 env (ee_child e) \<or> holds M s0 env b"
  obtain x' s1 where c: "residual_cut S ?l x s = (x', s1)" "uncovered M (insert e D) x' s1" "quiet s s1"
    using residual_cut_spec[OF x A(2)] by blast
  have u: "uncovered M (insert e D) x' s'" for s' using c(2) uncovered_any by blast
  have "f < min (fieldof s0 (ee_child e)) (fieldof s0 b)" using A(6) b(3) by simp
  then have fu': "fuel_ok s0 k (min (fieldof s0 (ee_child e)) (fieldof s0 b))"
    by (rule fuel_ok_step[OF fu inner_map(4)[OF si a]])
  from recurse_item_spec[where undo = "\<lambda>s. s" and region = "bdd_sem M ?l" and meaning = ?mean,
      OF rec quiet_work[OF w c(3)] quiet_refl A(4-6) b fu' A(2,3)]
  obtain it s2 where r: "recurse_item rec (ee_child e) b (\<lambda>s. s) ?l s1 = Some (it, s2)"
    "item_post S M E T s1 f (bdd_sem M ?l) ?mean it s2" by auto
  obtain p s3 where p: "rec (ee_child e) b s1 = Some (p, s3)" using r(1) by (auto simp: recurse_item_def split: bind_splits)
  show ?thesis
  proof (cases "p = NULL")
    case True
    then have "mtpndd_or_diff_field_item S rec b e x s = Some (it, x', s2)"
      using r(1) p c(1) by (auto simp: recurse_item_def mtpndd_or_diff_field_item_def mtpndd_edge_label_load_def Let_def)
    then show ?thesis using item_post_quiet[OF w c(3) r(2) quiet_refl] u by blast
  next
    case False
    then have "mtpndd_or_diff_field_item S rec b e x s = Some (it, x', sylvan_ref ?l s2)"
      using r(1) p c(1) by (simp add: recurse_item_def mtpndd_or_diff_field_item_def mtpndd_edge_label_load_def Let_def)
    then show ?thesis using item_post_quiet[OF w c(3) r(2) quiet_log(1)] u by blast
  qed
qed

lemma or_diff_items_ok:
  assumes rec: "rec2_ok S M (\<or>) k rec" and si: "sinv S M s0" and a: "inner E s0 a f ma"
    and b: "live E s0 b" "boolean s0 b" "f < fieldof s0 b" and fu: "fuel_ok s0 (Suc k) f"
  shows "items_ok S M E s0 f (\<lambda>e. bdd_sem M (ee_label e)) (\<lambda>e env. holds M s0 env (ee_child e) \<or> holds M s0 env b)
     (uncovered M) (set (entries ma)) (mtpndd_or_diff_field_item S rec b)"
  unfolding items_ok_def
proof (intro conjI ballI allI impI)
  fix e D T x s assume "e \<in> set (entries ma)" "work S M E s0 T s" "uncovered M D x s"
  from or_diff_item[OF rec this(2) si a b this(1) fu this(3)]
  show "\<exists>it x' s'. mtpndd_or_diff_field_item S rec b e x s = Some (it, x', s')
     \<and> item_post S M E T s f (bdd_sem M (ee_label e)) (\<lambda>env. holds M s0 env (ee_child e) \<or> holds M s0 env b) it s'
     \<and> uncovered M (insert e D) x' s'" .
qed (use inner_apart[OF si a] uncovered_any in \<open>blast+\<close>)


lemma or_build_diff_spec:
  assumes rec: "rec2_ok S M (\<or>) k rec" and w: "work S M E s0 T s" and si: "sinv S M s0"
    and a: "inner E s0 a f ma" and b: "live E s0 b" "boolean s0 b" "f < fieldof s0 b"
    and fu: "fuel_ok s0 (Suc k) f" and m: "wf_map s m" "emap m = Map.empty"
  shows "\<exists>r s'. or_build_diff S rec (length (stack s0)) a b m s = Some (r, s')
     \<and> or_built S M E s0 f (\<lambda>env. holds M s0 env a \<or> holds M s0 env b) r s'"
proof -
  let ?es = "entries ma" and ?H = "\<lambda>env. holds M s0 env a \<or> holds M s0 env b" and ?fr = "length (stack s0)"
  let ?mean = "\<lambda>e env. holds M s0 env (ee_child e) \<or> holds M s0 env b" and ?reg = "\<lambda>e. bdd_sem M (ee_label e)"
  have ne: "node_edges s' a = Some ma" if "work S M E s0 T' s'" for T' s'
    using work_live(6)[OF that] innerD(1,4)[OF a] by simp
  have al: "\<forall>T s. work S M E s0 T s \<longrightarrow> node_edges s a = Some ma" using ne by blast
  have sp: "\<forall>T s e. work S M E s0 T s \<longrightarrow> e \<in> set ?es \<longrightarrow> (\<exists>c. mtpndd_should_spawn s (ee_child e) b = Some c)"
    using spawn_total inner_entry(4)[OF si a] b(1) by blast
  have inv: "task_inv S M E s0 f ?reg ?mean (uncovered M) {} T m (sylvan_true S) s"
    using built_empty[OF w m] uncovered_start by (simp add: task_inv_def)
  obtain st m1 x s1 where r: "run_items (\<lambda>s. node_edges s a = Some ma)
      (\<lambda>s entry_a. mtpndd_should_spawn s (ee_child entry_a) b) (mtpndd_and_merge_item S)
      (mtpndd_or_diff_field_item S rec b) ?es m (sylvan_true S) s = Some (st, m1, x, s1)"
    "outcome S M E s0 f ?reg ?mean (uncovered M) (set ?es) st m1 x s1"
    using run_items_spec[OF or_diff_items_ok[OF rec si a b fu] al sp inner_map(5)[OF si a] inv] by (elim exE conjE)
  have run: "or_build_diff S rec ?fr a b m s = (if st \<noteq> MTPNDD_SUCCESS then or_fail ?fr m1 s1
      else do { (ok, m, s) \<leftarrow> add_rest S b x m1 s1; if \<not> ok then or_fail ?fr m s else Some (Some m, s) })"
    using r(1) ne[OF w] inner_map(1)[OF si a]
    by (auto simp: or_build_diff_def mtpndd_or_merge_item_def add_rest_def split: bind_split)
  show ?thesis
  proof (cases "st = MTPNDD_SUCCESS")
    case False
    then obtain T1 where "work S M E s0 T1 s1" "wf_map s1 m1" "failed s1" using r(2) unfolding outcome_def by auto
    from or_fail_spec[OF this, of f ?H] show ?thesis using run False by auto
  next
    case True
    then obtain T1 where T1: "task_inv S M E s0 f ?reg ?mean (uncovered M) (set ?es) T1 m1 x s1"
      using outcomeD[OF r(2)[unfolded True]] by (elim exE)
    have w1: "work S M E s0 T1 s1" and x: "uncovered M (set ?es) x s1"
      and b1: "building S M s1 f T1 m1 (\<lambda>v. \<exists>e\<in>set ?es. ?reg e v) (\<lambda>v env. \<exists>e\<in>set ?es. ?reg e v \<and> ?mean e env)"
      using T1 by (auto simp: task_inv_def)
    have bl: "boolean s1 b" "f < fieldof s1 b" using work_live(3,4)[OF w1 b(1)] b(2,3) by simp_all
    have "?H env \<longleftrightarrow> (\<exists>e\<in>set ?es. ?reg e (env f) \<and> ?mean e env) \<or> bdd_sem M x (env f) \<and> holds M s1 env b" for env
      using x unfolding inner_holds[OF si a] work_live(5)[OF w1 b(1)] uncovered_def by blast
    from add_rest_spec[OF w1 b1 bl _ _ this] obtain ok m2 s2 where
      r2: "add_rest S b x m1 s1 = Some (ok, m2, s2)"
        "built S M E s0 f ?H (if ok then MTPNDD_SUCCESS else MTPNDD_ERROR_OUT_OF_MEMORY) m2 s2"
      using x unfolding uncovered_def by blast
    show ?thesis
    proof (cases ok)
      case ok: True
      then show ?thesis using run True r2 by (auto simp: or_built_def)
    next
      case False
      then obtain T2 where "work S M E s0 T2 s2" "wf_map s2 m2" "failed s2" using r2(2) by (auto simp: built_def)
      from or_fail_spec[OF this, of f ?H] show ?thesis using run True r2(1) False by auto
    qed
  qed
qed

section \<open>The whole operation\<close>

lemma or_build_spec:
  assumes rec: "rec2_ok S M (\<or>) k rec" and w: "work S M E s0 T s" and si: "sinv S M s0"
    and a: "inner E s0 a fa ma" and b: "inner E s0 b fb mb" and fu: "fuel_ok s0 (Suc k) (min fa fb)"
    and m: "wf_map s m" "emap m = Map.empty"
  defines "p \<equiv> (if fb < fa then b else a)" and "q \<equiv> (if fb < fa then a else b)"
  shows "\<exists>r s'. (if fa = fb then or_build_same S rec (length (stack s0)) p q m s
      else or_build_diff S rec (length (stack s0)) p q m s) = Some (r, s')
     \<and> or_built S M E s0 (min fa fb) (\<lambda>env. holds M s0 env a \<or> holds M s0 env b) r s'"
proof -
  consider "fa = fb" | "fa < fb" | "fb < fa" by linarith
  then show ?thesis
  proof cases
    case 1
    then show ?thesis using or_build_same_spec[OF rec w si a _ _ m] b fu by (simp add: p_def q_def)
  next
    case 2
    have "fa < fieldof s0 b" using 2 innerD(6)[OF b] by simp
    from or_build_diff_spec[OF rec w si a innerD(1,2)[OF b] this _ m] 2 fu show ?thesis
      by (simp add: p_def q_def min_def)
  next
    case 3
    have f: "fb < fieldof s0 a" using 3 innerD(6)[OF a] by simp
    have eq: "(\<lambda>env. holds M s0 env b \<or> holds M s0 env a) = (\<lambda>env. holds M s0 env a \<or> holds M s0 env b)" by auto
    from or_build_diff_spec[OF rec w si b innerD(1,2)[OF a] f _ m] 3 fu show ?thesis unfolding eq
      by (simp add: p_def q_def min_def)
  qed
qed

lemma or_close:
  assumes bt: "or_built S M E s0 f (\<lambda>env. holds M s0 env a \<or> holds M s0 env b) r s"
    and a: "live E s0 a" "live E s0 b" and f: "f = min (fieldof s0 a) (fieldof s0 b)" "f \<in> tabled s0"
    and p: "p \<in> {a, b}" "fieldof s0 p = f" and so: "sort_operands a b = (x, y)"
  shows "\<exists>v s'. (case r of
              None \<Rightarrow> Some (NULL, s)
            | Some res_edges \<Rightarrow> do {
                field \<leftarrow> node_field s p;
                (res_node, s) \<leftarrow> mtpndd_mk S field res_edges s;
                if res_node = NULL then give_up_free (length (stack s0)) res_edges s
                else do {
                  s \<leftarrow> mtpndd_temp_refs_release (length (stack s0)) s;
                  c \<leftarrow> mtpndd_op_cache_store_binary s (or_cache s) x y res_node;
                  Some (res_node, s\<lparr>or_cache := c\<rparr>)
                }
              }) = Some (v, s') \<and> op_post S M E s0 f (\<lambda>env. holds M s0 env a \<or> holds M s0 env b) v s'"
proof (cases r)
  case None
  then show ?thesis using bt by (simp add: or_built_def)
next
  case (Some m)
  let ?H = "\<lambda>env. holds M s0 env a \<or> holds M s0 env b"
  have b: "built S M E s0 f ?H MTPNDD_SUCCESS m s" using bt Some by (simp add: or_built_def)
  obtain v s1 where m: "mtpndd_mk S f m s = Some (v, s1)"
    "if v = NULL then \<exists>s'. give_up_free (length (stack s0)) m s1 = Some (NULL, s') \<and> op_post S M E s0 f ?H NULL s'
     else \<exists>s2. mtpndd_temp_refs_release (length (stack s0)) s1 = Some s2 \<and> work S M E s0 [] s2 \<and> res_ok M s2 f ?H v"
    using mk_and_release[OF b f(2)] by (elim exE conjE)
  obtain T0 where w: "work S M E s0 T0 s" using b by (auto simp: built_def)
  have lp: "live E s0 p" using p a by auto
  have nf: "node_field s p = Some f" using work_live(4,8)[OF w lp] p(2) by (auto simp: node_field_def)
  show ?thesis
  proof (cases "v = NULL")
    case True
    then show ?thesis using m nf Some by auto
  next
    case False
    then obtain s2 where s2: "mtpndd_temp_refs_release (length (stack s0)) s1 = Some s2" "work S M E s0 [] s2" "res_ok M s2 f ?H v"
      using m(2) by auto
    note kn = sorted_known[OF s2(2) a so]
    have "bin_entry (\<or>) M s2 a b v" by (rule work_bin_entry[OF s2(2) a]) (use s2(3) f(1) in simp)
    then have "bin_entry (\<or>) M s2 x y v" using sorted_entry[OF _ so, of "(\<or>)"] by blast
    then show ?thesis using store_or[OF s2(2) kn _ s2(3)] False nf m(1) s2(1) Some by auto
  qed
qed

lemma or_miss:
  assumes rec: "rec2_ok S M (\<or>) k rec" and h: "hinv S M E s" and c: "cinv M s"
    and l: "live E s a" "live E s b" and bo: "boolean s a" "boolean s b"
    and fu: "fuel_ok s (Suc k) (min (fieldof s a) (fieldof s b))"
    and ni: "a \<notin> {MTPNDD_TRUE, MTPNDD_FALSE}" "b \<notin> {MTPNDD_TRUE, MTPNDD_FALSE}" "a \<noteq> b"
    and so: "sort_operands a b = (x, y)" and lk: "mtpndd_op_cache_lookup_binary s (or_cache s) x y = Some NULL"
  shows "\<exists>r s'. or_body S rec a b s = Some (r, s')
     \<and> op_post S M E s (min (fieldof s a) (fieldof s b)) (\<lambda>env. holds M s env a \<or> holds M s env b) r s'"
proof -
  let ?H = "\<lambda>env. holds M s env a \<or> holds M s env b"
  have si: "sinv S M s" using h by (simp add: hinv_def)
  obtain fa ma where a: "inner E s a fa ma" using inner_cases[OF si l(1) bo(1)] ni(1) by blast
  obtain fb mb where b: "inner E s b fb mb" using inner_cases[OF si l(2) bo(2)] ni(2) by blast
  have lo: "min (fieldof s a) (fieldof s b) = min fa fb" using innerD(6)[OF a] innerD(6)[OF b] by simp
  obtain r s1 where m: "mtpndd_memory_acquire_edge_map s = (r, s1)" by fastforce
  note aw = acquire_work[OF h c m]
  have nt: "\<not> (mtpndd_is_true a \<or> mtpndd_is_false b)" "\<not> (mtpndd_is_true b \<or> mtpndd_is_false a \<or> a = b)"
    using ni by (auto simp: mtpndd_is_false_def mtpndd_is_true_def)
  show ?thesis
  proof (cases r)
    case None
    let ?s2 = "mtpndd_set_error MTPNDD_ERROR_OUT_OF_MEMORY ''mtpndd_or_rec'' 1393 s1"
    have "work S M E s [] ?s2" "failed ?s2"
      using quiet_work[OF aw(1) quiet_log(3)] touch_failed[OF quiet_touch[OF quiet_log(3)] aw(2)[OF None]] by auto
    then show ?thesis using op_post_null nt so lk m None by (auto simp: or_body_def)
  next
    case (Some m0)
    obtain m1 where m1: "mtpndd_edge_map_init s1 m0 = Some m1" "wf_map s1 m1" "emap m1 = Map.empty"
      using aw(3)[OF Some] by blast
    have nf: "node_field s1 a = Some fa" "node_field s1 b = Some fb"
      using work_live(7)[OF aw(1)] l innerD(5)[OF a] innerD(5)[OF b] by auto
    have fr: "mtpndd_temp_refs_init s1 = length (stack s)"
      using workD(5)[OF aw(1)] by (simp add: mtpndd_temp_refs_init_def)
    define p q where pq: "p = (if fb < fa then b else a)" "q = (if fb < fa then a else b)"
    obtain r2 s2 where b2: "(if fa = fb then or_build_same S rec (length (stack s)) p q m1 s1
        else or_build_diff S rec (length (stack s)) p q m1 s1) = Some (r2, s2)" "or_built S M E s (min fa fb) ?H r2 s2"
      using or_build_spec[OF rec aw(1) si a b _ m1(2,3)] fu lo unfolding pq by auto
    have f: "min fa fb \<in> tabled s" using inner_map(7)[OF si a] inner_map(7)[OF si b] by (simp add: min_def)
    have p: "p \<in> {a, b}" "fieldof s p = min fa fb" using innerD(6)[OF a] innerD(6)[OF b] by (auto simp: pq)
    have sw: "(if fb < fa then (b, a) else (a, b)) = (p, q)" by (simp add: pq)
    from or_close[OF b2(2) l lo[symmetric] f p so, folded fr] show ?thesis
      using nt by (simp add: or_body_def so lk m Some m1(1) nf b2(1)[folded fr] lo sw Let_def split del: if_split)
  qed
qed

lemma or_step:
  assumes rec: "rec2_ok S M (\<or>) k rec" shows "rec2_ok S M (\<or>) (Suc k) (or_body S rec)"
  unfolding rec2_ok_def
proof (intro allI impI)
  fix E s a b
  assume h: "hinv S M E s" and c: "cinv M s" and l: "live E s a" "live E s b" and bo: "boolean s a" "boolean s b"
    and fu: "fuel_ok s (Suc k) (min (fieldof s a) (fieldof s b))"
  let ?lo = "min (fieldof s a) (fieldof s b)" and ?H = "\<lambda>env. holds M s env a \<or> holds M s env b"
  have si: "sinv S M s" using h by (simp add: hinv_def)
  note hf = holds_false[OF si]
  consider (left) "mtpndd_is_true a \<or> mtpndd_is_false b"
    | (right) "\<not> (mtpndd_is_true a \<or> mtpndd_is_false b)" "mtpndd_is_true b \<or> mtpndd_is_false a \<or> a = b"
    | (inner) "a \<notin> {MTPNDD_TRUE, MTPNDD_FALSE}" "b \<notin> {MTPNDD_TRUE, MTPNDD_FALSE}" "a \<noteq> b"
    by (auto simp: mtpndd_is_false_def mtpndd_is_true_def)
  then show "\<exists>r s'. or_body S rec a b s = Some (r, s') \<and> op_post S M E s ?lo ?H r s'"
  proof cases
    case left
    then have "op_post S M E s ?lo ?H a s"
      by (intro op_post_self[OF h c bo(1)]) (use hf in \<open>auto simp: mtpndd_is_false_def mtpndd_is_true_def\<close>)
    then show ?thesis using left by (auto simp: or_body_def)
  next
    case right
    then have "op_post S M E s ?lo ?H b s"
      by (intro op_post_self[OF h c bo(2)]) (use hf in \<open>auto simp: mtpndd_is_false_def mtpndd_is_true_def\<close>)
    then show ?thesis using right by (auto simp: or_body_def)
  next
    case inner
    obtain x y where so: "sort_operands a b = (x, y)" by fastforce
    have w0: "work S M E s [] s" by (rule work_refl[OF h c])
    obtain r where r: "mtpndd_op_cache_lookup_binary s (or_cache s) x y = Some r"
      "r \<noteq> NULL \<longrightarrow> cached (or_cache s) x y r"
      using lookup_binary_spec[OF _ sorted_known[OF w0 l so]] cinvD(1)[OF c] by (auto simp: ctx_ok_def caches_shape_def)
    show ?thesis
    proof (cases "r = NULL")
      case False
      then have "bin_entry (\<or>) M s a b r" using cinvD(3)[OF c] r(2) sorted_entry[OF _ so, of "(\<or>)"] by blast
      then have "op_post S M E s ?lo ?H r s" using op_post_result[OF w0] bo by (simp add: bin_entry_def)
      then show ?thesis using inner so r(1) False by (auto simp: or_body_def mtpndd_is_false_def mtpndd_is_true_def)
    next
      case True
      then show ?thesis using or_miss[OF rec h c l bo fu inner so] r(1) by simp
    qed
  qed
qed

lemma or_rec_ok: "rec2_ok S M (\<or>) k (mtpndd_or_rec k S)"
proof (induction k)
  case 0
  then show ?case by (simp add: rec2_ok_def)
next
  case (Suc k)
  then show ?case by (simp add: or_step)
qed

end

end
