(* ===== verification/Bool_Laws.thy ===== *)
theory Bool_Laws
  imports Or_Correct
begin

text \<open>
  The Boolean operations as their callers see them: the wrappers give enough fuel, so every call
  returns; the derived operations; and the laws that follow from canonicity.
\<close>

definition refines2 ::
  "sylvan \<Rightarrow> bdd_model \<Rightarrow> (bool \<Rightarrow> bool \<Rightarrow> bool) \<Rightarrow> rec2 \<Rightarrow> bool" where
  "refines2 S M conn oper \<longleftrightarrow> (\<forall>E s a b. hinv S M E s \<longrightarrow> cinv M s \<longrightarrow> live E s a \<longrightarrow> live E s b
     \<longrightarrow> boolean s a \<longrightarrow> boolean s b
     \<longrightarrow> (\<exists>r s'. oper a b s = Some (r, s')
          \<and> op_post S M E s 1 (\<lambda>env. conn (holds M s env a) (holds M s env b)) r s'))"

definition refines1 :: "sylvan \<Rightarrow> bdd_model \<Rightarrow> rec1 \<Rightarrow> bool" where
  "refines1 S M oper \<longleftrightarrow> (\<forall>E s a. hinv S M E s \<longrightarrow> cinv M s \<longrightarrow> live E s a \<longrightarrow> boolean s a
     \<longrightarrow> (\<exists>r s'. oper a s = Some (r, s') \<and> op_post S M E s 1 (\<lambda>env. \<not> holds M s env a) r s'))"

lemma boolean_field:
  assumes si: "sinv S M s" and b: "boolean s p" shows "1 \<le> fieldof s p"
proof -
  consider "p = MTPNDD_TRUE \<or> p = MTPNDD_FALSE" | f m where "content s p = Some (f, NEdges m)"
    using boolean_leaf[OF si b] by (auto simp: internal_content)
  then show ?thesis
  proof cases
    case 1
    then show ?thesis using sentinel_field(3,4)[OF si] by auto
  next
    case 2
    then show ?thesis using sinv_node(1)[OF si 2] fieldof_content[OF 2] by simp
  qed
qed

lemma op_post_weaken: "op_post S M E s lo H r s' \<Longrightarrow> lo' \<le> lo \<Longrightarrow> op_post S M E s lo' H r s'"
  by (auto simp: op_post_def res_ok_def split: if_splits)

lemma refines2I:
  assumes "\<And>k. rec2_ok S M conn k (rec k)" and "\<And>a b s. oper a b s = rec (op_fuel s) a b s"
  shows "refines2 S M conn oper"
  unfolding refines2_def
proof (intro allI impI)
  fix E s a b
  assume h: "hinv S M E s" and c: "cinv M s" and l: "live E s a" "live E s b" and b: "boolean s a" "boolean s b"
  have f: "1 \<le> min (fieldof s a) (fieldof s b)" using boolean_field[OF hinvD(1)[OF h]] b by simp
  obtain r s' where "rec (op_fuel s) a b s = Some (r, s')"
    "op_post S M E s (min (fieldof s a) (fieldof s b)) (\<lambda>env. conn (holds M s env a) (holds M s env b)) r s'"
    by (rule rec2_okD[OF assms(1) h c l b fuel_ok_op[OF f]])
  then show "\<exists>r s'. oper a b s = Some (r, s') \<and> op_post S M E s 1 (\<lambda>env. conn (holds M s env a) (holds M s env b)) r s'"
    using op_post_weaken[OF _ f] assms(2) by auto
qed

lemma refines2D:
  assumes "refines2 S M conn oper" "hinv S M E s" "cinv M s" "live E s a" "live E s b" "boolean s a" "boolean s b"
  obtains r s' where "oper a b s = Some (r, s')" "op_post S M E s 1 (\<lambda>env. conn (holds M s env a) (holds M s env b)) r s'"
  using assms unfolding refines2_def by blast

lemma refines1D:
  assumes "refines1 S M oper" "hinv S M E s" "cinv M s" "live E s a" "boolean s a"
  obtains r s' where "oper a s = Some (r, s')" "op_post S M E s 1 (\<lambda>env. \<not> holds M s env a) r s'"
  using assms unfolding refines1_def by blast

context sylvan_laws
begin

lemma and_refines: "refines2 S M (\<and>) (mtpndd_and S)"
  by (rule refines2I[where rec = "\<lambda>k. mtpndd_and_rec k S", OF and_rec_ok mtpndd_and_def])

lemma or_refines: "refines2 S M (\<or>) (mtpndd_or S)"
  by (rule refines2I[where rec = "\<lambda>k. mtpndd_or_rec k S", OF or_rec_ok mtpndd_or_def])

lemma not_refines: "refines1 S M (mtpndd_not S)"
  unfolding refines1_def
proof (intro allI impI)
  fix E s a assume h: "hinv S M E s" and c: "cinv M s" and l: "live E s a" and b: "boolean s a"
  have f: "1 \<le> fieldof s a" by (rule boolean_field[OF hinvD(1)[OF h] b])
  obtain r s' where "mtpndd_not_rec (op_fuel s) S a s = Some (r, s')"
    "op_post S M E s (fieldof s a) (\<lambda>env. \<not> holds M s env a) r s'"
    by (rule rec1_okD[OF not_rec_ok h c l b fuel_ok_op[OF f]])
  then show "\<exists>r s'. mtpndd_not S a s = Some (r, s') \<and> op_post S M E s 1 (\<lambda>env. \<not> holds M s env a) r s'"
    using op_post_weaken[OF _ f] by (auto simp: mtpndd_not_def)
qed

end

section \<open>Steps between operations\<close>

lemma op_postD:
  assumes "op_post S M E s lo H r s'"
  shows "hinv S M E s'" "cinv M s'" "keeps E s s'" "res_mono s s'" "stack s' = stack s" "r = NULL \<Longrightarrow> failed s'"
    "r \<noteq> NULL \<Longrightarrow> boolean s' r" "r \<noteq> NULL \<Longrightarrow> \<not> failed s' \<Longrightarrow> holds M s' env r \<longleftrightarrow> H env"
  using assms by (auto simp: op_post_def res_ok_def split: if_splits)

text \<open>Taking a reference to a result makes it a node the caller holds.\<close>

lemma ref_step:
  assumes h: "hinv S M E s" and c: "cinv M s" and b: "boolean s r"
  shows "\<exists>s'. mtpndd_ref r s = Some (MTPNDD_SUCCESS, s') \<and> touch s s' \<and> hinv S M (add_mset r E) s' \<and> cinv M s'
     \<and> stack s' = stack s \<and> live (add_mset r E) s' r"
proof -
  obtain s' where s': "mtpndd_ref r s = Some (MTPNDD_SUCCESS, s')" "touch s s'" "hinv S M (add_mset r E) s'"
    "temp_refs_pool s' = temp_refs_pool s" using ref_spec[OF h boolean_holdable[OF b]] by blast
  have "boolean s' r" using agree_boolean[OF touch_agree[OF s'(2)], of r] b by simp
  then show ?thesis using s' cinv_touch[OF c hinvD(1)[OF h] s'(2)] held_live[of s' r "add_mset r E"] by auto
qed

lemma deref_step:
  assumes h: "hinv S M (add_mset r E) s" and c: "cinv M s"
  shows "\<exists>s'. mtpndd_deref r s = Some (MTPNDD_SUCCESS, s') \<and> touch s s' \<and> hinv S M E s' \<and> cinv M s' \<and> stack s' = stack s"
  using deref_spec[OF h] cinv_touch[OF c hinvD(1)[OF h]] by fastforce

lemma keeps_sem:
  assumes "keeps E s s'" "live E s p"
  shows "live E s' p" "boolean s' p \<longleftrightarrow> boolean s p" "holds M s' env p \<longleftrightarrow> holds M s env p" "fieldof s' p = fieldof s p"
  using assms agree_boolean[OF keeps_agree[OF assms(1)] assms(2)] agree_holds[OF keeps_agree[OF assms(1)] assms(2)]
    agree_field[OF keeps_agree[OF assms(1)] assms(2)] by (auto simp: keeps_def)

lemma touch_sem:
  assumes "touch s s'"
  shows "boolean s' p \<longleftrightarrow> boolean s p" "holds M s' env p \<longleftrightarrow> holds M s env p" "live E s p \<Longrightarrow> live E s' p"
    "failed s \<Longrightarrow> failed s'" "\<not> failed s' \<Longrightarrow> \<not> failed s"
  using agree_boolean[OF touch_agree[OF assms]] agree_holds[OF touch_agree[OF assms]] touch_live[OF assms]
    touch_failed[OF assms] by auto


section \<open>De Morgan's disjunction\<close>

text \<open>
  A state between two operations of a derived operation that began in \<open>s\<close> with the holders \<open>E\<close>;
  \<open>K\<close> are the intermediate results it holds.
\<close>

definition midway ::
  "sylvan \<Rightarrow> bdd_model \<Rightarrow> ptr multiset \<Rightarrow> mstate \<Rightarrow> ptr multiset \<Rightarrow> mstate \<Rightarrow> bool" where
  "midway S M E s K t \<longleftrightarrow> hinv S M (E + K) t \<and> cinv M t \<and> stack t = stack s \<and> res_mono s t
     \<and> (\<forall>p\<in>#E. boolean s p \<longrightarrow> boolean t p \<and> (\<forall>env. holds M t env p \<longleftrightarrow> holds M s env p))"

lemma midway_start: "hinv S M E s \<Longrightarrow> cinv M s \<Longrightarrow> midway S M E s {#} s"
  by (simp add: midway_def res_mono_same)

lemma midwayD:
  assumes "midway S M E s K t"
  shows "hinv S M (E + K) t" "cinv M t" "stack t = stack s" "failed s \<Longrightarrow> failed t"
    "p \<in># E \<Longrightarrow> boolean s p \<Longrightarrow> boolean t p" "p \<in># E \<Longrightarrow> boolean s p \<Longrightarrow> holds M t env p \<longleftrightarrow> holds M s env p"
  using assms by (auto simp: midway_def res_mono_def)

lemma midway_op:
  assumes m: "midway S M E s K t" and o: "op_post S M (E + K) t lo H r t'"
  shows "midway S M E s K t'"
proof -
  note O = op_postD[OF o]
  have "boolean t' p \<and> (\<forall>env. holds M t' env p \<longleftrightarrow> holds M s env p)" if p: "p \<in># E" "boolean s p" for p
  proof -
    have "live (E + K) t p" using held_live[OF midwayD(5)[OF m p]] p(1) by simp
    from keeps_sem(2,3)[OF O(3) this] show ?thesis using midwayD(5,6)[OF m p] by simp
  qed
  then show ?thesis using O midwayD(3)[OF m] m res_mono_trans unfolding midway_def by metis
qed

lemma midway_touch:
  assumes m: "midway S M E s K t" and t: "touch t t'" and h: "hinv S M (E + K') t'" "stack t' = stack t"
  shows "midway S M E s K' t'"
  using m h cinv_touch[OF midwayD(2)[OF m] hinvD(1)[OF midwayD(1)[OF m]] t] touch_sem(1,2)[OF t] t
    res_mono_trans[of s t t'] unfolding midway_def touch_def by simp

lemma midway_ref:
  assumes m: "midway S M E s K t" and b: "boolean t r"
  shows "\<exists>t'. mtpndd_ref r t = Some (MTPNDD_SUCCESS, t') \<and> touch t t' \<and> midway S M E s (add_mset r K) t'"
proof -
  obtain t' where t': "mtpndd_ref r t = Some (MTPNDD_SUCCESS, t')" "touch t t'" "hinv S M (add_mset r (E + K)) t'"
    "stack t' = stack t" using ref_step[OF midwayD(1,2)[OF m] b] by blast
  then show ?thesis using midway_touch[OF m t'(2), of "add_mset r K"] by auto
qed

lemma midway_deref:
  assumes m: "midway S M E s (add_mset r K) t"
  shows "\<exists>t'. mtpndd_deref r t = Some (MTPNDD_SUCCESS, t') \<and> touch t t' \<and> midway S M E s K t'"
proof -
  have "hinv S M (add_mset r (E + K)) t" using midwayD(1)[OF m] by simp
  from deref_step[OF this midwayD(2)[OF m]] obtain t' where "mtpndd_deref r t = Some (MTPNDD_SUCCESS, t')" "touch t t'"
    "hinv S M (E + K) t'" "stack t' = stack t" by blast
  then show ?thesis using midway_touch[OF m, of t' K] by auto
qed

text \<open>What a derived operation owes: as \<open>op_post\<close>, for the nodes the caller holds.\<close>

definition derived_post ::
  "sylvan \<Rightarrow> bdd_model \<Rightarrow> ptr multiset \<Rightarrow> mstate \<Rightarrow> (env \<Rightarrow> bool) \<Rightarrow> ptr \<Rightarrow> mstate \<Rightarrow> bool" where
  "derived_post S M E s H r s' \<longleftrightarrow> midway S M E s {#} s'
     \<and> (if r = NULL then failed s' else boolean s' r \<and> (\<not> failed s' \<longrightarrow> (\<forall>env. holds M s' env r \<longleftrightarrow> H env)))"

context sylvan_laws
begin

lemma demorgan_tail:
  assumes m: "midway S M E s {#not_a, not_b#} t" and b: "boolean t not_a" "boolean t not_b"
    and H: "\<not> failed t \<Longrightarrow> (\<And>env. H env \<longleftrightarrow> \<not> (holds M t env not_a \<and> holds M t env not_b))"
  shows "\<exists>r s'. do {
         (and_result, s) \<leftarrow> mtpndd_and S not_a not_b t;
         (_, s) \<leftarrow> mtpndd_deref not_a s;
         (_, s) \<leftarrow> mtpndd_deref not_b s;
         if and_result = NULL then Some (NULL, s)
         else do {
           (_, s) \<leftarrow> mtpndd_ref and_result s;
           (result, s) \<leftarrow> mtpndd_not S and_result s;
           (_, s) \<leftarrow> mtpndd_deref and_result s;
           Some (result, s)
         } } = Some (r, s') \<and> derived_post S M E s H r s'"
proof -
  let ?K = "{#not_a, not_b#}"
  have l: "live (E + ?K) t not_a" "live (E + ?K) t not_b" using held_live b by auto
  obtain r1 t1 where a: "mtpndd_and S not_a not_b t = Some (r1, t1)"
    "op_post S M (E + ?K) t 1 (\<lambda>env. holds M t env not_a \<and> holds M t env not_b) r1 t1"
    by (rule refines2D[OF and_refines midwayD(1,2)[OF m] l b])
  note m1 = midway_op[OF m a(2)]
  obtain t2 where d2: "mtpndd_deref not_a t1 = Some (MTPNDD_SUCCESS, t2)" "touch t1 t2" "midway S M E s {#not_b#} t2"
    using midway_deref[OF m1] by blast
  obtain t3 where d3: "mtpndd_deref not_b t2 = Some (MTPNDD_SUCCESS, t3)" "touch t2 t3" "midway S M E s {#} t3"
    using midway_deref[OF d2(3)] by blast
  have t13: "touch t1 t3" by (rule touch_trans[OF d2(2) d3(2)])
  show ?thesis
  proof (cases "r1 = NULL")
    case True
    then have "failed t3" using op_postD(6)[OF a(2)] touch_sem(4)[OF t13] by simp
    then show ?thesis using a(1) d2(1) d3(1,3) True by (simp add: derived_post_def)
  next
    case False
    have b3: "boolean t3 r1" using op_postD(7)[OF a(2) False] touch_sem(1)[OF t13] by simp
    obtain t4 where r4: "mtpndd_ref r1 t3 = Some (MTPNDD_SUCCESS, t4)" "touch t3 t4" "midway S M E s {#r1#} t4"
      using midway_ref[OF d3(3) b3] by blast
    have b4: "boolean t4 r1" using b3 touch_sem(1)[OF r4(2)] by simp
    have "live (E + {#r1#}) t4 r1" using held_live[OF b4] by simp
    then obtain r5 t5 where n: "mtpndd_not S r1 t4 = Some (r5, t5)" "op_post S M (E + {#r1#}) t4 1 (\<lambda>env. \<not> holds M t4 env r1) r5 t5"
      using refines1D[OF not_refines midwayD(1,2)[OF r4(3)] _ b4] by blast
    obtain t6 where d6: "mtpndd_deref r1 t5 = Some (MTPNDD_SUCCESS, t6)" "touch t5 t6" "midway S M E s {#} t6"
      using midway_deref[OF midway_op[OF r4(3) n(2)]] by blast
    have "derived_post S M E s H r5 t6"
    proof (cases "r5 = NULL")
      case True
      then show ?thesis using op_postD(6)[OF n(2)] touch_sem(4)[OF d6(2)] d6(3) by (simp add: derived_post_def)
    next
      case nn: False
      have "holds M t6 env r5 \<longleftrightarrow> H env" if nf: "\<not> failed t6" for env
      proof -
        have n5: "\<not> failed t5" using nf touch_sem(5)[OF d6(2)] by blast
        have n4: "\<not> failed t4" using n5 op_postD(4)[OF n(2)] res_mono_failed by blast
        have n1: "\<not> failed t1" using n4 touch_sem(5)[OF touch_trans[OF t13 r4(2)]] by blast
        have n0: "\<not> failed t" using n1 op_postD(4)[OF a(2)] res_mono_failed by blast
        have "holds M t6 env r5 \<longleftrightarrow> \<not> holds M t1 env r1"
          using op_postD(8)[OF n(2) nn n5] touch_sem(2)[OF d6(2)] touch_sem(2)[OF touch_trans[OF t13 r4(2)]] by simp
        then show ?thesis using op_postD(8)[OF a(2) False n1] H[OF n0] by simp
      qed
      moreover have "boolean t6 r5" using op_postD(7)[OF n(2) nn] touch_sem(1)[OF d6(2)] by simp
      ultimately show ?thesis using nn d6(3) by (simp add: derived_post_def)
    qed
    then show ?thesis using a(1) d2(1) d3(1) r4(1) n(1) d6(1) False by simp
  qed
qed

lemma demorgan_ok:
  assumes h: "hinv S M E s" and c: "cinv M s" and l: "live E s a" "live E s b" and bo: "boolean s a" "boolean s b"
  shows "\<exists>r s'. mtpndd_or_demorgan S a b s = Some (r, s')
     \<and> derived_post S M E s (\<lambda>env. holds M s env a \<or> holds M s env b) r s'"
proof -
  let ?H = "\<lambda>env. holds M s env a \<or> holds M s env b"
  obtain r1 s1 where n1: "mtpndd_not S a s = Some (r1, s1)" "op_post S M E s 1 (\<lambda>env. \<not> holds M s env a) r1 s1"
    by (rule refines1D[OF not_refines h c l(1) bo(1)])
  have m1: "midway S M E s {#} s1" using midway_op[OF midway_start[OF h c], of 1 "\<lambda>env. \<not> holds M s env a" r1 s1] n1(2) by simp
  show ?thesis
  proof (cases "r1 = NULL")
    case True
    then show ?thesis using n1(1) op_postD(6)[OF n1(2)] m1 by (simp add: mtpndd_or_demorgan_def derived_post_def)
  next
    case r1: False
    note b1 = op_postD(7)[OF n1(2) r1]
    obtain s2 where r2: "mtpndd_ref r1 s1 = Some (MTPNDD_SUCCESS, s2)" "touch s1 s2" "midway S M E s {#r1#} s2"
      using midway_ref[OF m1 b1] by blast
    have b2: "boolean s2 r1" using b1 touch_sem(1)[OF r2(2)] by simp
    note kb = keeps_sem[OF op_postD(3)[OF n1(2)] l(2)]
    have lb: "live (E + {#r1#}) s2 b" by (rule live_mono[OF touch_sem(3)[OF r2(2) kb(1)]]) simp
    have bb: "boolean s2 b" using kb(2) touch_sem(1)[OF r2(2)] bo(2) by simp
    obtain r3 s3 where n3: "mtpndd_not S b s2 = Some (r3, s3)" "op_post S M (E + {#r1#}) s2 1 (\<lambda>env. \<not> holds M s2 env b) r3 s3"
      by (rule refines1D[OF not_refines midwayD(1,2)[OF r2(3)] lb bb])
    note m3 = midway_op[OF r2(3) n3(2)]
    show ?thesis
    proof (cases "r3 = NULL")
      case True
      obtain s4 where "mtpndd_deref r1 s3 = Some (MTPNDD_SUCCESS, s4)" "touch s3 s4" "midway S M E s {#} s4"
        using midway_deref[OF m3] by blast
      then show ?thesis using n1(1) r1 r2(1) n3(1) True op_postD(6)[OF n3(2)] touch_sem(4)
        by (simp add: mtpndd_or_demorgan_def derived_post_def)
    next
      case r3: False
      note b3 = op_postD(7)[OF n3(2) r3]
      obtain s4 where r4: "mtpndd_ref r3 s3 = Some (MTPNDD_SUCCESS, s4)" "touch s3 s4" "midway S M E s {#r3, r1#} s4"
        using midway_ref[OF m3 b3] by auto
      have "live (E + {#r1#}) s2 r1" using held_live[OF b2] by simp
      note k1 = keeps_sem[OF op_postD(3)[OF n3(2)] this]
      have b4: "boolean s4 r1" "boolean s4 r3" using k1(2) b2 b3 touch_sem(1)[OF r4(2)] by simp_all
      have "?H env \<longleftrightarrow> \<not> (holds M s4 env r1 \<and> holds M s4 env r3)" if n4: "\<not> failed s4" for env
      proof -
        have n3': "\<not> failed s3" using n4 touch_sem(5)[OF r4(2)] by blast
        have n1': "\<not> failed s1" using n3' op_postD(4)[OF n3(2)] res_mono_failed touch_sem(5)[OF r2(2)] by blast
        have "holds M s4 env r1 \<longleftrightarrow> holds M s1 env r1" using k1(3) touch_sem(2)[OF r4(2)] touch_sem(2)[OF r2(2)] by simp
        moreover have "holds M s4 env r3 \<longleftrightarrow> \<not> holds M s env b"
          using op_postD(8)[OF n3(2) r3 n3'] kb(3) touch_sem(2)[OF r4(2)] touch_sem(2)[OF r2(2)] by simp
        ultimately show ?thesis using op_postD(8)[OF n1(2) r1 n1'] by simp
      qed
      moreover have "midway S M E s {#r1, r3#} s4" using r4(3) by (simp add: add_mset_commute)
      ultimately show ?thesis using demorgan_tail[of E s r1 r3 s4 ?H] b4 n1(1) r1 r2(1) n3(1) r3 r4(1)
        by (simp add: mtpndd_or_demorgan_def)
    qed
  qed
qed

end

section \<open>Batches\<close>

lemma midway_trans:
  assumes a: "midway S M E s K t" and b: "midway S M (E + K) t K' u" shows "midway S M E s (K + K') u"
proof -
  have "boolean u p \<and> (\<forall>env. holds M u env p \<longleftrightarrow> holds M s env p)" if p: "p \<in># E" "boolean s p" for p
    using midwayD(5,6)[OF a p] midwayD(5,6)[OF b, of p] p by simp
  then show ?thesis using a b res_mono_trans[of s t u] unfolding midway_def by (simp add: add.assoc)
qed

text \<open>One result of a batch: \<open>NULL\<close> only after a failed allocation, else the conjunction.\<close>

definition batch_item :: "bdd_model \<Rightarrow> mstate \<Rightarrow> mstate \<Rightarrow> ptr \<times> ptr \<Rightarrow> ptr \<Rightarrow> bool" where
  "batch_item M s s' p r \<longleftrightarrow> (if r = NULL then failed s' else boolean s' r
     \<and> (\<not> failed s' \<longrightarrow> (\<forall>env. holds M s' env r \<longleftrightarrow> holds M s env (fst p) \<and> holds M s env (snd p))))"

lemma batch_item_later:
  assumes i: "batch_item M s t p r" and m: "midway S M E t K u" and r: "r \<noteq> NULL \<Longrightarrow> r \<in># E"
  shows "batch_item M s u p r"
proof (cases "r = NULL")
  case True
  then show ?thesis using i midwayD(4)[OF m] by (simp add: batch_item_def)
next
  case False
  then show ?thesis using i midwayD(4-6)[OF m] r by (simp add: batch_item_def) blast
qed

context sylvan_laws
begin

lemma and_batch_loop_ok:
  assumes "hinv S M E s" "cinv M s" "\<forall>(l, r)\<in>set ps. l \<in># E \<and> r \<in># E \<and> boolean s l \<and> boolean s r"
  shows "\<exists>rs s'. and_batch_loop S ps s = Some (rs, s') \<and> midway S M E s (mset (filter (\<lambda>r. r \<noteq> NULL) rs)) s'
     \<and> list_all2 (batch_item M s s') ps rs"
  using assms
proof (induction ps arbitrary: E s)
  case Nil
  then show ?case by (simp add: midway_start)
next
  case (Cons p ps)
  obtain a b where p: "p = (a, b)" by (cases p)
  have ab: "a \<in># E" "b \<in># E" "boolean s a" "boolean s b" using Cons.prems(3) p by auto
  obtain r s1 where r: "mtpndd_and S a b s = Some (r, s1)"
    "op_post S M E s 1 (\<lambda>env. holds M s env a \<and> holds M s env b) r s1"
    by (rule refines2D[OF and_refines Cons.prems(1,2) held_live[OF ab(3,1)] held_live[OF ab(4,2)] ab(3,4)])
  have m1: "midway S M E s {#} s1" by (rule midway_op[OF midway_start[OF Cons.prems(1,2)]]) (use r(2) in simp)
  define K where "K = (if r = NULL then {#} else {#r#})"
  obtain s2 where s2: "(if r \<noteq> NULL then do { (_, s) \<leftarrow> mtpndd_ref r s1; Some s } else Some s1) = Some s2"
    "touch s1 s2" "midway S M E s K s2"
  proof (cases "r = NULL")
    case True
    then show ?thesis using that[of s1] m1 by (simp add: K_def)
  next
    case False
    obtain t where "mtpndd_ref r s1 = Some (MTPNDD_SUCCESS, t)" "touch s1 t" "midway S M E s {#r#} t"
      using midway_ref[OF m1 op_postD(7)[OF r(2) False]] by auto
    then show ?thesis using that[of t] False by (simp add: K_def)
  qed
  have i2: "batch_item M s s2 p r"
    using op_postD(6-8)[OF r(2)] touch_sem[OF s2(2)] by (auto simp: batch_item_def p)
  have "\<forall>(l, r)\<in>set ps. l \<in># E + K \<and> r \<in># E + K \<and> boolean s2 l \<and> boolean s2 r"
    using Cons.prems(3) midwayD(5)[OF s2(3)] by auto
  from Cons.IH[OF midwayD(1,2)[OF s2(3)] this] obtain rs s3 where
    IH: "and_batch_loop S ps s2 = Some (rs, s3)" "midway S M (E + K) s2 (mset (filter (\<lambda>r. r \<noteq> NULL) rs)) s3"
      "list_all2 (batch_item M s2 s3) ps rs" by blast
  have "batch_item M s s3 q v" if "batch_item M s2 s3 q v" "q \<in> set ps" for q v
    using that Cons.prems(3) midwayD(6)[OF s2(3)] by (cases q) (auto simp: batch_item_def split: if_splits)
  then have "list_all2 (batch_item M s s3) ps rs" by (rule list.rel_mono_strong[OF IH(3)])
  moreover have "batch_item M s s3 p r" by (rule batch_item_later[OF i2 IH(2)]) (simp add: K_def)
  moreover have "midway S M E s (mset (filter (\<lambda>r. r \<noteq> NULL) (r # rs))) s3"
    using midway_trans[OF s2(3) IH(2)] by (simp add: K_def split: if_splits)
  ultimately show ?case using r(1) s2(1) IH(1) by (auto simp: p split: if_splits)
qed

end

end
