(* ===== verification/Engine_Init.thy ===== *)
theory Engine_Init
  imports Engine Bool_Laws
begin

text \<open>
  \<open>mtpndd_init\<close> establishes the invariant of the heap and of the caches.  \<open>boot\<close> is the state while the
  library starts: the two static leaves are the only nodes and no field has a table.
\<close>

section \<open>Starting up\<close>

definition cold :: "mstate \<Rightarrow> bool" where
  "cold s \<longleftrightarrow> \<not> mtpndd_is_initialized s \<and> dom (nodes s) \<subseteq> {MTPNDD_TRUE, MTPNDD_FALSE} \<and> \<not> gc_running s
     \<and> stack s = [] \<and> 32 < brk (c_heap_of s) \<and> mem_limit (c_heap_of s) \<le> 2 ^ 60"

definition static_leaf :: "64 word \<Rightarrow> mtpndd_node" where
  "static_leaf v = \<lparr>ref_count = - 1, field_id = MTPNDD_FRACTION_LEAF_FIELD_ID, body = NLeaf v\<rparr>"

definition static_nodes :: "ptr \<rightharpoonup> mtpndd_node" where
  "static_nodes = [MTPNDD_TRUE \<mapsto> static_leaf (mtpndd_pack_fraction 1 1),
                   MTPNDD_FALSE \<mapsto> static_leaf (mtpndd_pack_fraction 0 1)]"

definition boot :: "pal_config \<Rightarrow> mstate \<Rightarrow> bool" where
  "boot cfg s \<longleftrightarrow> nodes s = static_nodes \<and> field_count s = 0 \<and> node_tables_by_field s = Map.empty
     \<and> field_infos s = Map.empty \<and> \<not> gc_running s \<and> \<not> fields_generated s \<and> pending_field_count s = 0
     \<and> field_capacity s = DEFAULT_FIELD_CAPACITY \<and> g_pal_config s = cfg
     \<and> stack s = [] \<and> 32 < brk (c_heap_of s) \<and> mem_limit (c_heap_of s) \<le> 2 ^ 60"

lemma malloc_effect:
  assumes "malloc n s = (p, s')"
  shows "\<exists>h. s' = s\<lparr>c_heap_of := h\<rparr> \<and> brk (c_heap_of s) \<le> brk h \<and> mem_limit h = mem_limit (c_heap_of s)
     \<and> (failed s \<longrightarrow> mem_failed h) \<and> (0 < brk (c_heap_of s) \<longrightarrow> p = NULL \<longrightarrow> mem_failed h)"
  using assms by (auto simp: malloc_def c_malloc_def split: if_splits)

text \<open>Only the C heap has changed, upwards.\<close>

definition heap_only :: "mstate \<Rightarrow> mstate \<Rightarrow> bool" where
  "heap_only s s' \<longleftrightarrow> (\<exists>h. s' = s\<lparr>c_heap_of := h\<rparr> \<and> brk (c_heap_of s) \<le> brk h
     \<and> mem_limit h = mem_limit (c_heap_of s) \<and> (failed s \<longrightarrow> mem_failed h))"

lemma heap_only_refl [simp]: "heap_only s s"
  unfolding heap_only_def by (intro exI[of _ "c_heap_of s"]) simp

lemma heap_only_trans: "heap_only s t \<Longrightarrow> heap_only t u \<Longrightarrow> heap_only s u"
  unfolding heap_only_def by fastforce

lemma malloc_heap_only:
  assumes "malloc n s = (p, s')"
  shows "heap_only s s'" "0 < brk (c_heap_of s) \<Longrightarrow> p = NULL \<Longrightarrow> failed s'"
  using malloc_effect[OF assms] by (auto simp: heap_only_def)

lemma boot_heap: "boot cfg s \<Longrightarrow> heap_only s s' \<Longrightarrow> boot cfg s'"
  by (auto simp: boot_def heap_only_def)

lemma boot_pos: "boot cfg s \<Longrightarrow> 0 < brk (c_heap_of s)"
  by (simp add: boot_def)

lemma boot_malloc:
  assumes "boot cfg s" "malloc n s = (p, s')"
  shows "boot cfg s'" "heap_only s s'" "p = NULL \<Longrightarrow> failed s'"
  using boot_heap[OF assms(1)] malloc_heap_only[OF assms(2)] boot_pos[OF assms(1)] by auto

lemma boot_error [simp]: "boot cfg (mtpndd_set_error e f n s) = boot cfg s"
  by (simp add: boot_def mtpndd_set_error_def)

lemma failed_error [simp]: "failed (mtpndd_set_error e f n s) = failed s"
  by (simp add: mtpndd_set_error_def)

lemma alloc_config_spec:
  assumes b: "boot cfg s"
  shows "\<exists>st s'. alloc_config s = (st, s') \<and> boot cfg s'
     \<and> (if st = MTPNDD_SUCCESS then pending_field_capacity s' = 8 \<and> length (pending_field_bit_widths s') = 8
        else failed s')"
proof -
  obtain p1 s1 where m1: "malloc (DEFAULT_FIELD_CAPACITY * 8) s = (p1, s1)" by fastforce
  obtain p2 s2 where m2: "malloc (DEFAULT_FIELD_CAPACITY * 8) s1 = (p2, s2)" by fastforce
  let ?s2 = "s2\<lparr>pending_field_capacity := DEFAULT_FIELD_CAPACITY\<rparr>"
  obtain p3 s3 where m3: "malloc (DEFAULT_FIELD_CAPACITY * 4) ?s2 = (p3, s3)" by fastforce
  note b1 = boot_malloc[OF b m1] note b2 = boot_malloc[OF b1(1) m2]
  have "boot cfg ?s2" using b2(1) by (simp add: boot_def)
  note b3 = boot_malloc[OF this m3]
  have "boot cfg (s3\<lparr>pending_field_bit_widths := replicate DEFAULT_FIELD_CAPACITY 0\<rparr>)"
    using b3(1) by (simp add: boot_def)
  moreover have "pending_field_capacity s3 = 8" using b3(2) by (auto simp: heap_only_def DEFAULT_FIELD_CAPACITY_def)
  ultimately show ?thesis using b1 b2 b3 m1 m2 m3
    by (auto simp: alloc_config_def Let_def return_error_def DEFAULT_FIELD_CAPACITY_def)
qed

section \<open>The caches and the pools\<close>

lemma op_cache_create_spec:
  assumes b: "boot cfg s"
  shows "\<exists>c s'. mtpndd_op_cache_create n k s = (c, s') \<and> heap_only s s' \<and> boot cfg s'
     \<and> (case c of None \<Rightarrow> failed s'
        | Some c \<Rightarrow> opt_cache_ok k (Some c) \<and> (\<forall>a b r. \<not> cached (Some c) a b r))"
proof -
  let ?n = "mtpndd_op_cache_adjust_size n"
  obtain p1 s1 where m1: "malloc 32 s = (p1, s1)" by fastforce
  obtain p2 s2 where m2: "malloc (?n * 24) s1 = (p2, s2)" by fastforce
  note b1 = boot_malloc[OF b m1] note b2 = boot_malloc[OF b1(1) m2]
  let ?c = "\<lparr>oc_entries = replicate ?n empty_entry, oc_capacity = ?n, oc_mask = word_of_nat ?n - 1, oc_arity = k\<rparr>"
  have "opt_cache_ok k (Some ?c)" "\<not> cached (Some ?c) a b' r" for a b' r
    using adjust_size_pow2[of n]
    by (auto simp: opt_cache_ok_def cache_ok_def cached_def empty_entry_def kMtpnddOpCacheWriteLock_def)
  then show ?thesis using b1 b2 m1 m2 heap_only_trans[OF b1(2) b2(2)]
    by (auto simp: mtpndd_op_cache_create_def Let_def)
qed

lemma op_cache_initialize_spec:
  assumes b: "boot cfg s"
  shows "\<exists>ok s'. mtpndd_op_cache_initialize n s = (ok, s') \<and> boot cfg s'
     \<and> pending_field_capacity s' = pending_field_capacity s
     \<and> pending_field_bit_widths s' = pending_field_bit_widths s
     \<and> (if ok then caches_shape s' \<and> caches_empty s' else failed s')"
proof -
  obtain a s1 where c1: "mtpndd_op_cache_create n 2 s = (a, s1)" "heap_only s s1" "boot cfg s1"
    "case a of None \<Rightarrow> failed s1 | Some c \<Rightarrow> opt_cache_ok 2 (Some c) \<and> (\<forall>x y r. \<not> cached (Some c) x y r)"
    using op_cache_create_spec[OF b] by blast
  obtain o' s2 where c2: "mtpndd_op_cache_create n 2 s1 = (o', s2)" "heap_only s1 s2" "boot cfg s2"
    "case o' of None \<Rightarrow> failed s2 | Some c \<Rightarrow> opt_cache_ok 2 (Some c) \<and> (\<forall>x y r. \<not> cached (Some c) x y r)"
    using op_cache_create_spec[OF c1(3)] by blast
  obtain k s3 where c3: "mtpndd_op_cache_create n 1 s2 = (k, s3)" "heap_only s2 s3" "boot cfg s3"
    "case k of None \<Rightarrow> failed s3 | Some c \<Rightarrow> opt_cache_ok 1 (Some c) \<and> (\<forall>x y r. \<not> cached (Some c) x y r)"
    using op_cache_create_spec[OF c2(3)] by blast
  have h: "heap_only s s1" "heap_only s s2" "heap_only s s3"
    using c1(2) c2(2) c3(2) heap_only_trans by blast+
  have w: "pending_field_capacity u = pending_field_capacity s \<and> pending_field_bit_widths u = pending_field_bit_widths s"
    if "heap_only s u" for u using that by (auto simp: heap_only_def)
  show ?thesis
    using c1 c2 c3 w[OF h(1)] w[OF h(2)] w[OF h(3)]
    by (cases a; cases o'; cases k)
      (auto simp: mtpndd_op_cache_initialize_def boot_def caches_shape_def caches_empty_def)
qed

lemma setup_ready:
  assumes "0 < sz" "8 + (sz + 7) div 8 * 8 * max 1 cap < 2 ^ 64"
    and "mtpndd_slab_pool_init_locals (mtpndd_slab_pool_setup pool sz 8 cap b lm) n h = (r, pool', h')"
  shows "pool_ready pool'"
proof -
  let ?p = "mtpndd_slab_pool_setup pool sz 8 cap b lm"
  have "pool_ready ?p"
    using setup_sized[OF assms(1,2), of pool b lm] by (simp add: pool_ready_def mtpndd_slab_pool_setup_def mtpndd_slab_pool_reset_def Let_def
        MTPNDD_POOL_REFILL_BATCH_DEFAULT_def)
  moreover have "pool_ready (?p\<lparr>locals := replicate k \<lparr>sl_free_list = [], sl_count = 0, sl_in_use = 0\<rparr>\<rparr>)" for k
    using calculation by (simp add: pool_ready_def)
  ultimately show ?thesis using init_locals_shape[OF assms(3)] by metis
qed

lemma init_locals_heap:
  assumes "mtpndd_slab_pool_init_locals pool n h = (r, pool', h')"
  shows "brk h \<le> brk h' \<and> mem_limit h' = mem_limit h \<and> (mem_failed h \<longrightarrow> mem_failed h')"
  using assms by (auto simp: mtpndd_slab_pool_init_locals_def c_malloc_def Let_def split: if_splits)

lemma round_up_bounds:
  assumes "0 < n" "n \<le> 2 ^ j" "j \<le> 63"
  shows "is_pow2 (round_up_pow2_nat n) \<and> n \<le> round_up_pow2_nat n \<and> round_up_pow2_nat n \<le> 2 ^ j"
proof -
  obtain k where k: "n \<le> 2 ^ k" "k = 0 \<or> 2 ^ (k - 1) < n" using pow2_above[OF assms(1)] by blast
  have "k \<le> j"
  proof (rule ccontr)
    assume "\<not> k \<le> j"
    then have "(2 :: nat) ^ j \<le> 2 ^ (k - 1)" "2 ^ (k - 1) < n" using k(2) by (auto intro: power_increasing)
    then show False using assms(2) by linarith
  qed
  then have "round_up_pow2_nat n = 2 ^ k" "(2 :: nat) ^ k \<le> 2 ^ j"
    using round_up_pow2_nat_eq[OF assms(1) k(1) _ k(2)] assms(3) by (auto intro: power_increasing)
  then show ?thesis using k(1) by simp
qed

text \<open>
  The slab capacities of a configuration are arbitrary \<open>size_t\<close> values.  This is the condition that
  the size of a slab does not wrap around in any of the four pools, with zero standing for the
  default capacity.
\<close>

definition slabs_fit :: "pal_config \<Rightarrow> bool" where
  "slabs_fit cfg \<longleftrightarrow>
     8 + 16 * or_default MTPNDD_DEFAULT_NODE_SLAB_CAPACITY (node_slab_capacity cfg) < 2 ^ 64
     \<and> 8 + 24 * or_default MTPNDD_DEFAULT_EDGE_ENTRY_SLAB_CAPACITY (edge_entry_slab_capacity cfg) < 2 ^ 64
     \<and> 8 + 40 * or_default MTPNDD_DEFAULT_NODETABLE_ENTRY_SLAB_CAPACITY (nodetable_entry_slab_capacity cfg) < 2 ^ 64
     \<and> 8 + (48 + 8 * round_up_pow2_nat (max MTPNDD_DEFAULT_EDGE_BUCKET_COUNT (edge_bucket_count cfg)))
           * or_default MTPNDD_DEFAULT_EDGE_MAP_SLAB_CAPACITY (edge_map_slab_capacity cfg) < 2 ^ 64"

text \<open>What setting up the pools leaves alone, and what it provides.\<close>

definition pools_up :: "mstate \<Rightarrow> mstate \<Rightarrow> bool" where
  "pools_up s s' \<longleftrightarrow>
     (\<exists>np ep tp mp h n. s' = s\<lparr>g_node_pool := np, g_edge_entry_pool := ep, g_nodetable_entry_pool := tp,
           g_edge_map_pool := mp, c_heap_of := h, g_edge_bucket_count := n,
           g_pal_config := (g_pal_config s)\<lparr>edge_bucket_count := n\<rparr>\<rparr>
        \<and> brk (c_heap_of s) \<le> brk h \<and> mem_limit h = mem_limit (c_heap_of s) \<and> (failed s \<longrightarrow> mem_failed h))"

lemma pools_init_spec:
  assumes h0: "32 < brk (c_heap_of s)" and cfg: "edge_bucket_count (g_pal_config s) \<le> 2 ^ 60"
    and fit: "slabs_fit (g_pal_config s)"
  defines "s' \<equiv> mtpndd_memory_pools_init s"
  shows "pools_up s s'" "pool_ok (g_node_pool s') {} (c_heap_of s')" "pools_ready s'" "bucket_cfg_ok s'"
proof -
  define w where "w = lace_workers s"
  define n where "n = (let n = edge_bucket_count (g_pal_config s);
      n = (if n = 0 then MTPNDD_DEFAULT_EDGE_BUCKET_COUNT else n)
    in if n < MTPNDD_DEFAULT_EDGE_BUCKET_COUNT then MTPNDD_DEFAULT_EDGE_BUCKET_COUNT else n)"
  define e where "e = round_up_pow2_nat n"
  define er where "er = mtpndd_scaled_param 64 w 256"
  define el where "el = mtpndd_scaled_param 512 w 2048"
  define np0 where "np0 = mtpndd_slab_pool_setup (g_node_pool s) 16 8 (node_slab_capacity (g_pal_config s))
    MTPNDD_POOL_REFILL_BATCH_DEFAULT MTPNDD_POOL_LOCAL_MAX_DEFAULT"
  define mp0 where "mp0 = mtpndd_slab_pool_setup (g_edge_map_pool s) (unat (mtpndd_align_size 48 8) + 8 * e) 8
    (edge_map_slab_capacity (g_pal_config s)) er el"
  define ep0 where "ep0 = mtpndd_slab_pool_setup (g_edge_entry_pool s) 24 8 (edge_entry_slab_capacity (g_pal_config s)) er el"
  define tp0 where "tp0 = mtpndd_slab_pool_setup (g_nodetable_entry_pool s) 40 8
    (nodetable_entry_slab_capacity (g_pal_config s)) MTPNDD_POOL_REFILL_BATCH_DEFAULT MTPNDD_POOL_LOCAL_MAX_DEFAULT"
  obtain r1 np h1 where l1: "mtpndd_slab_pool_init_locals np0 w (c_heap_of s) = (r1, np, h1)" by (metis prod_cases3)
  obtain r2 ep h2 where l2: "mtpndd_slab_pool_init_locals ep0 w h1 = (r2, ep, h2)" by (metis prod_cases3)
  obtain r3 tp h3 where l3: "mtpndd_slab_pool_init_locals tp0 w h2 = (r3, tp, h3)" by (metis prod_cases3)
  obtain r4 mp h4 where l4: "mtpndd_slab_pool_init_locals mp0 w h3 = (r4, mp, h4)" by (metis prod_cases3)
  have s': "s' = s\<lparr>g_node_pool := np, g_edge_entry_pool := ep, g_nodetable_entry_pool := tp,
      g_edge_map_pool := mp, c_heap_of := h4, g_edge_bucket_count := e,
      g_pal_config := (g_pal_config s)\<lparr>edge_bucket_count := e\<rparr>\<rparr>"
    using l1 l2 l3 l4 unfolding s'_def mtpndd_memory_pools_init_def np0_def ep0_def tp0_def mp0_def er_def el_def
      w_def e_def n_def Let_def by simp
  note hp = init_locals_heap[OF l1] init_locals_heap[OF l2] init_locals_heap[OF l3] init_locals_heap[OF l4]
  have up: "brk (c_heap_of s) \<le> brk h4 \<and> mem_limit h4 = mem_limit (c_heap_of s) \<and> (failed s \<longrightarrow> mem_failed h4)"
    using hp by auto
  show "pools_up s s'" unfolding pools_up_def using s' up by blast
  have cap: "max 1 k \<le> or_default d k" if "0 < d" for d k :: nat using that by (simp add: or_default_def)
  have fits: "8 + z * max 1 k < 2 ^ 64" if "0 < d" "8 + z * or_default d k < 2 ^ 64" for d k z :: nat
    using mult_le_mono2[OF cap[OF that(1), of k], of z] that(2) by linarith
  have n8: "n = max MTPNDD_DEFAULT_EDGE_BUCKET_COUNT (edge_bucket_count (g_pal_config s))"
    by (simp add: n_def Let_def MTPNDD_DEFAULT_EDGE_BUCKET_COUNT_def)
  have n: "0 < n" "8 \<le> n" "n \<le> 2 ^ 60" using cfg by (simp_all add: n8 MTPNDD_DEFAULT_EDGE_BUCKET_COUNT_def)
  note rn = round_up_bounds[OF n(1,3), folded e_def]
  have off: "unat (mtpndd_align_size 48 8) = 48" by code_simp
  note sz = fit[unfolded slabs_fit_def, folded n8 e_def]
  have "pool_ok np {} h1"
    by (rule setup_ok[OF _ _ h0 l1[unfolded np0_def]])
      (use fits[OF _ conjunct1[OF sz]] in \<open>simp_all add: MTPNDD_DEFAULT_NODE_SLAB_CAPACITY_def\<close>)
  then have "pool_ok np {} h4" by (rule pool_ok_brk_mono) (use hp in auto)
  then show "pool_ok (g_node_pool s') {} (c_heap_of s')" unfolding s' by simp
  show "pools_ready s'"
  proof -
    have "pool_ready ep" by (rule setup_ready[OF _ _ l2[unfolded ep0_def]])
        (use fits[OF _ conjunct1[OF conjunct2[OF sz]]] in \<open>simp_all add: MTPNDD_DEFAULT_EDGE_ENTRY_SLAB_CAPACITY_def\<close>)
    moreover have "pool_ready tp" by (rule setup_ready[OF _ _ l3[unfolded tp0_def]])
        (use fits[OF _ conjunct1[OF conjunct2[OF conjunct2[OF sz]]]] in \<open>simp_all add: MTPNDD_DEFAULT_NODETABLE_ENTRY_SLAB_CAPACITY_def\<close>)
    moreover have "(48 + 8 * e + 7) div 8 * 8 = 48 + 8 * e" by simp
    then have "pool_ready mp"
      by (intro setup_ready[OF _ _ l4[unfolded mp0_def off]])
        (use fits[OF _ conjunct2[OF conjunct2[OF conjunct2[OF sz]]]] in \<open>simp_all add: MTPNDD_DEFAULT_EDGE_MAP_SLAB_CAPACITY_def add.commute mult.commute\<close>)
    ultimately show ?thesis unfolding s' by (simp add: pools_ready_def)
  qed
  show "bucket_cfg_ok s'" using rn n(2) unfolding s' bucket_cfg_ok_def by simp
qed

section \<open>The leaf tables\<close>

lemma leaf_create_spec:
  assumes b: "boot cfg s"
  shows "\<exists>t s'. mtpndd_leaf_table_create 0 s = (t, s') \<and> heap_only s s' \<and> boot cfg s'
     \<and> (case t of None \<Rightarrow> failed s' | Some t \<Rightarrow> leaf_shape t \<and> concat (lt_buckets t) = [])"
proof -
  have c: "MTPNDD_LEAF_TABLE_DEFAULT_BUCKETS = 1024" "MTPNDD_LEAF_TABLE_LOCK_CAP = 64"
    by (simp_all add: MTPNDD_LEAF_TABLE_DEFAULT_BUCKETS_def MTPNDD_LEAF_TABLE_LOCK_CAP_def)
  have p: "is_pow2 1024" "is_pow2 64" using is_pow2_power[of 10] is_pow2_power[of 6] by simp_all
  have r: "round_up_pow2_nat 1024 = 1024" "round_up_pow2_nat 64 = 64" using p round_up_pow2_nat_pow2 by simp_all
  obtain p1 s1 where m1: "malloc 40 s = (p1, s1)" by fastforce
  obtain p2 s2 where m2: "malloc (1024 * 8) s1 = (p2, s2)" by fastforce
  obtain p3 s3 where m3: "malloc (64 * 4) s2 = (p3, s3)" by fastforce
  note b1 = boot_malloc[OF b m1] note b2 = boot_malloc[OF b1(1) m2] note b3 = boot_malloc[OF b2(1) m3]
  note h2 = heap_only_trans[OF b1(2) b2(2)] note h3 = heap_only_trans[OF h2 b3(2)]
  let ?t = "\<lparr>lt_bucket_count = 1024, lt_buckets = replicate 1024 [], lt_entry_count = 0, lt_bucket_lock_count = 64\<rparr>"
  have e: "mtpndd_leaf_table_create 0 s = (if p1 = NULL then (None, s1) else if p2 = NULL then (None, s2)
      else if p3 = NULL then (None, s3) else (Some ?t, s3))"
    using m1 m2 m3 by (simp add: mtpndd_leaf_table_create_def Let_def c r)
  have "leaf_shape ?t \<and> concat (lt_buckets ?t) = []" using p by (simp add: leaf_shape_def)
  then show ?thesis unfolding e using b1 b2 b3 h2 h3 by auto
qed

lemma insert_sentinel_spec:
  assumes b: "boot cfg s" and t: "leaf_shape t" and n: "node \<noteq> NULL"
    and new: "v \<notin> le_value ` set (concat (lt_buckets t))" "node \<notin> le_node ` set (concat (lt_buckets t))"
  shows "\<exists>st t' s'. mtpndd_leaf_table_insert_sentinel (Some t) v node s = Some (st, Some t', s')
     \<and> heap_only s s' \<and> boot cfg s'
     \<and> (if st = MTPNDD_SUCCESS then leaf_shape t' \<and> set (concat (lt_buckets t'))
          = insert \<lparr>le_value = v, le_node = node, le_marked = False\<rparr> (set (concat (lt_buckets t)))
        else failed s')"
proof -
  let ?i = "leaf_bucket_index t v" and ?e = "\<lparr>le_value = v, le_node = node, le_marked = False\<rparr>"
  obtain p1 s1 where m1: "malloc 32 s = (p1, s1)" by fastforce
  note b1 = boot_malloc[OF b m1]
  have i: "?i < length (lt_buckets t)"
    using t mask_index_less[of "lt_bucket_count t"] by (simp add: leaf_shape_def leaf_bucket_index_def)
  let ?t = "leaf_link t ?i ?e"
  have ms: "mset (concat (lt_buckets ?t)) = add_mset ?e (mset (concat (lt_buckets t)))"
    using subset_mset.diff_add[OF mset_nth_subset_concat[OF i]]
    by (simp add: leaf_link_def mset_concat_update[OF i] add.commute del: set_concat)
  have st: "set (concat (lt_buckets ?t)) = insert ?e (set (concat (lt_buckets t)))"
    using ms by (metis set_mset_add_mset_insert set_mset_mset)
  have d: "distinct (map f (concat (lt_buckets ?t)))"
    if "distinct (map f (concat (lt_buckets t)))" "f ?e \<notin> f ` set (concat (lt_buckets t))" for f :: "leaf_bucket_entry \<Rightarrow> 'b"
  proof -
    have "mset (map f (concat (lt_buckets ?t))) = mset (f ?e # map f (concat (lt_buckets t)))"
      unfolding mset_map ms by simp
    from mset_eq_imp_distinct_iff[OF this] show ?thesis using that by simp
  qed
  have "leaf_bucket_index ?t (le_value e) = j" if "j < length (lt_buckets t)" "e \<in> set (lt_buckets ?t ! j)" for e j
    using that t i by (cases "j = ?i") (auto simp: leaf_shape_def leaf_link_def leaf_bucket_index_def)
  then have "leaf_shape ?t" using t d[of le_node] d[of le_value] new
    by (simp add: leaf_shape_def leaf_link_def)
  then show ?thesis using b1 m1 n i st by (auto simp: mtpndd_leaf_table_insert_sentinel_def leaf_bucket_def)
qed

lemma pack_distinct: "mtpndd_pack_fraction 1 1 \<noteq> mtpndd_pack_fraction 0 1"
  by code_simp

lemma boot_content:
  assumes "boot cfg s"
  shows "content s p = Some nd \<longleftrightarrow>
     p = MTPNDD_TRUE \<and> nd = (MTPNDD_FRACTION_LEAF_FIELD_ID, NLeaf (mtpndd_pack_fraction 1 1))
     \<or> p = MTPNDD_FALSE \<and> nd = (MTPNDD_FRACTION_LEAF_FIELD_ID, NLeaf (mtpndd_pack_fraction 0 1))"
  using assms by (auto simp: boot_def content_def static_nodes_def static_leaf_def MTPNDD_TRUE_def MTPNDD_FALSE_def
      split: if_splits)

definition leaves_up :: "mstate \<Rightarrow> mstate \<Rightarrow> bool" where
  "leaves_up s s' \<longleftrightarrow>
     s' = s\<lparr>c_heap_of := c_heap_of s', leaf_table := leaf_table s', double_leaf_table := double_leaf_table s',
            last_error := last_error s'\<rparr>
     \<and> brk (c_heap_of s) \<le> brk (c_heap_of s') \<and> mem_limit (c_heap_of s') = mem_limit (c_heap_of s)
     \<and> (failed s \<longrightarrow> failed s')"

lemma leaves_up_refl [simp]: "leaves_up s s"
  by (simp add: leaves_up_def)

lemma leaves_up_trans: "leaves_up s t \<Longrightarrow> leaves_up t u \<Longrightarrow> leaves_up s u"
  by (cases s; cases t; cases u) (simp add: leaves_up_def)

lemma leaves_up_heap: "heap_only s t \<Longrightarrow> leaves_up s t"
  by (auto simp: heap_only_def leaves_up_def)

lemma leaves_up_tables:
  "leaves_up s (s\<lparr>leaf_table := t\<rparr>)" "leaves_up s (s\<lparr>double_leaf_table := u\<rparr>)" "leaves_up s (mtpndd_set_error e f n s)"
  by (simp_all add: leaves_up_def mtpndd_set_error_def)

lemma leaves_up_fields:
  assumes "leaves_up s s'"
  shows "nodes s' = nodes s" "field_count s' = field_count s" "node_tables_by_field s' = node_tables_by_field s"
    "g_node_pool s' = g_node_pool s" "g_edge_bucket_count s' = g_edge_bucket_count s" "and_cache s' = and_cache s"
    "or_cache s' = or_cache s" "not_cache s' = not_cache s" "gc_running s' = gc_running s"
    "g_pal_config s' = g_pal_config s" "pools_ready s' = pools_ready s"
    "pending_field_capacity s' = pending_field_capacity s" "pending_field_bit_widths s' = pending_field_bit_widths s"
    "temp_refs_pool s' = temp_refs_pool s"
  using assms unfolding leaves_up_def pools_ready_def by (cases s; cases s'; simp)+

lemma boot_leaves: "boot cfg s \<Longrightarrow> leaves_up s s' \<Longrightarrow> boot cfg s'"
  by (cases s; cases s') (auto simp: boot_def leaves_up_def)

lemma init_leaf_tables_spec:
  assumes b: "boot cfg s"
  shows "\<exists>st s'. init_leaf_tables s = Some (st, s') \<and> leaves_up s s'
     \<and> (if st = MTPNDD_SUCCESS then leaf_tables_ok s' else failed s')"
proof -
  obtain t1 s1 where c1: "mtpndd_leaf_table_create 0 s = (t1, s1)" "heap_only s s1" "boot cfg s1"
    "case t1 of None \<Rightarrow> failed s1 | Some t \<Rightarrow> leaf_shape t \<and> concat (lt_buckets t) = []"
    using leaf_create_spec[OF b] by blast
  let ?s1 = "s1\<lparr>leaf_table := t1\<rparr>"
  have u1: "leaves_up s ?s1" using leaves_up_trans[OF leaves_up_heap[OF c1(2)] leaves_up_tables(1)] .
  obtain t2 s2 where c2: "mtpndd_leaf_table_create 0 ?s1 = (t2, s2)" "heap_only ?s1 s2" "boot cfg s2"
    "case t2 of None \<Rightarrow> failed s2 | Some t \<Rightarrow> leaf_shape t \<and> concat (lt_buckets t) = []"
    using leaf_create_spec[OF boot_leaves[OF b u1]] by blast
  let ?s2 = "s2\<lparr>double_leaf_table := t2\<rparr>"
  have u2: "leaves_up s ?s2"
    using leaves_up_trans[OF leaves_up_trans[OF u1 leaves_up_heap[OF c2(2)]] leaves_up_tables(2)] .
  note b2 = boot_leaves[OF b u2]
  show ?thesis
  proof (cases "t1 = None \<or> t2 = None")
    case True
    then show ?thesis using c1 c2 u1 u2 leaves_up_trans[OF _ leaves_up_tables(3)]
      by (cases t1) (auto simp: init_leaf_tables_def return_error_def)
  next
    case False
    then obtain t u where t: "t1 = Some t" "t2 = Some u" by auto
    have sh: "leaf_shape t" "leaf_shape u" "concat (lt_buckets t) = []" "concat (lt_buckets u) = []"
      using c1(4) c2(4) t by auto
    obtain st3 t3 s3 where c3: "mtpndd_leaf_table_insert_sentinel (Some t) (mtpndd_pack_fraction 0 1) MTPNDD_FALSE ?s2
        = Some (st3, Some t3, s3)" "heap_only ?s2 s3"
      "if st3 = MTPNDD_SUCCESS then leaf_shape t3 \<and> set (concat (lt_buckets t3))
         = insert \<lparr>le_value = mtpndd_pack_fraction 0 1, le_node = MTPNDD_FALSE, le_marked = False\<rparr> (set (concat (lt_buckets t)))
       else failed s3"
      using insert_sentinel_spec[OF b2 sh(1), of MTPNDD_FALSE "mtpndd_pack_fraction 0 1"] sh(3)
      by (auto simp: MTPNDD_FALSE_def)
    let ?s3 = "s3\<lparr>leaf_table := Some t3\<rparr>"
    have u3: "leaves_up s ?s3"
      using leaves_up_trans[OF leaves_up_trans[OF u2 leaves_up_heap[OF c3(2)]] leaves_up_tables(1)] .
    note b3 = boot_leaves[OF b u3]
    show ?thesis
    proof (cases "st3 = MTPNDD_SUCCESS")
      case False
      then show ?thesis using c1(1) c2(1) c3 t leaves_up_trans[OF u3 leaves_up_tables(3)]
        by (auto simp: init_leaf_tables_def return_error_def)
    next
      case True
      let ?f = "\<lparr>le_value = mtpndd_pack_fraction 0 1, le_node = MTPNDD_FALSE, le_marked = False\<rparr>"
      let ?t = "\<lparr>le_value = mtpndd_pack_fraction 1 1, le_node = MTPNDD_TRUE, le_marked = False\<rparr>"
      have e3: "leaf_shape t3" "set (concat (lt_buckets t3)) = {?f}" using c3(3) True sh(3) by simp_all
      obtain st4 t4 s4 where c4: "mtpndd_leaf_table_insert_sentinel (Some t3) (mtpndd_pack_fraction 1 1) MTPNDD_TRUE ?s3
          = Some (st4, Some t4, s4)" "heap_only ?s3 s4"
        "if st4 = MTPNDD_SUCCESS then leaf_shape t4 \<and> set (concat (lt_buckets t4)) = insert ?t (set (concat (lt_buckets t3)))
         else failed s4"
        using insert_sentinel_spec[OF b3 e3(1), of MTPNDD_TRUE "mtpndd_pack_fraction 1 1"] e3(2) pack_distinct
        by (auto simp: MTPNDD_FALSE_def MTPNDD_TRUE_def simp del: set_concat)
      let ?s4 = "s4\<lparr>leaf_table := Some t4\<rparr>"
      have u4: "leaves_up s ?s4"
        using leaves_up_trans[OF leaves_up_trans[OF u3 leaves_up_heap[OF c4(2)]] leaves_up_tables(1)] .
      note ct = boot_content[OF boot_leaves[OF b u4]]
      have "double_leaf_table ?s4 = Some u" using c3(2) c4(2) t by (auto simp: heap_only_def)
      then have "leaf_tables_ok ?s4" if "st4 = MTPNDD_SUCCESS"
        using that c4(3) e3(2) sh(2,4)
        by (auto simp: leaf_tables_ok_def leaf_table_of_def leaf_table_wf_def ct MTPNDD_FRACTION_LEAF_FIELD_ID_def
            MTPNDD_DOUBLE_LEAF_FIELD_ID_def simp del: set_concat)
      moreover have "init_leaf_tables s = Some (if st4 = MTPNDD_SUCCESS then (MTPNDD_SUCCESS, ?s4)
          else return_error MTPNDD_ERROR_INITIALIZE_FAILED ''mtpndd_init'' 684 ?s4)"
        using c1(1) c2(1) c3(1) c4(1) True t by (simp add: init_leaf_tables_def Let_def)
      ultimately show ?thesis using c4(3) u4 leaves_up_trans[OF u4 leaves_up_tables(3)]
        by (auto simp: return_error_def split: if_splits)
    qed
  qed
qed

section \<open>Initialisation\<close>

lemma boot_hinv:
  assumes b: "boot cfg s" and lt: "leaf_tables_ok s" and p: "pool_ok (g_node_pool s) {} (c_heap_of s)"
    and k: "bucket_cfg_ok s"
  shows "hinv S M {#} s"
proof -
  note ct = boot_content[OF b]
  have fc: "field_count s = 0" using b by (simp add: boot_def)
  have "tabled s = {}" using fc by (simp add: tabled_def)
  then have "sinv S M s" using lt fc unfolding sinv_def sentinels_ok_def tables_ok_def unique_nodes_def ct
    by (auto simp: node_wf_def MTPNDD_LEAF_FIELD_ID_MIN_def MTPNDD_DOUBLE_LEAF_FIELD_ID_def)
  moreover have "refs_ok {#} s" using b by (auto simp: refs_ok_def boot_def static_nodes_def static_leaf_def split: if_splits)
  moreover have "dom (nodes s) - {MTPNDD_TRUE, MTPNDD_FALSE} = {}" using b by (auto simp: boot_def static_nodes_def split: if_splits)
  then have "pool_ok (g_node_pool s) (dom (nodes s) - {MTPNDD_TRUE, MTPNDD_FALSE}) (c_heap_of s)" using p by (simp only:)
  then have "rinv s" using k b unfolding rinv_def boot_def by blast
  ultimately show ?thesis by (simp add: hinv_def)
qed

lemma init_static_leaf_eq:
  "p \<noteq> NULL \<Longrightarrow> init_static_leaf p v s = Some (s\<lparr>nodes := (nodes s)(p \<mapsto> static_leaf v)\<rparr>)"
  by (simp add: init_static_leaf_def mtpndd_protect_def set_ref_count_def static_leaf_def)

lemma boot_pools: "boot cfg s \<Longrightarrow> pools_up s s' \<Longrightarrow> \<exists>n. boot (cfg\<lparr>edge_bucket_count := n\<rparr>) s'"
  by (auto simp: boot_def pools_up_def)

text \<open>A started library without fields: the invariants hold and fields can be declared.\<close>

definition warm :: "sylvan \<Rightarrow> bdd_model \<Rightarrow> mstate \<Rightarrow> bool" where
  "warm S M s \<longleftrightarrow> hinv S M {#} s \<and> cinv M s \<and> caches_empty s \<and> mtpndd_is_initialized s \<and> (\<exists>cfg. boot cfg s)
     \<and> pending_field_capacity s = 8 \<and> length (pending_field_bit_widths s) = 8"

definition with_defaults :: "pal_config \<Rightarrow> mstate \<Rightarrow> pal_config" where
  "with_defaults config s = g_pal_config (mtpndd_apply_pal_config_defaults
     (s\<lparr>g_pal_config := config\<lparr>quick_growth_threshold :=
          (if 0 \<le> quick_growth_threshold config then quick_growth_threshold config
           else DEFAULT_QUICK_GROWTH_THRESHOLD)\<rparr>\<rparr>))"

text \<open>The state the first half of \<open>mtpndd_init\<close> hands to the allocations.\<close>

definition boot_state :: "pal_config \<Rightarrow> mstate \<Rightarrow> mstate" where
  "boot_state config s = clear_config (s\<lparr>g_pal_config := with_defaults config s,
     nodes := (nodes s)(MTPNDD_TRUE \<mapsto> static_leaf (mtpndd_pack_fraction 1 1),
                        MTPNDD_FALSE \<mapsto> static_leaf (mtpndd_pack_fraction 0 1))\<rparr>)"

lemma boot_state_boot:
  assumes "cold s" shows "boot (with_defaults config s) (boot_state config s)"
proof -
  have "nodes s x = None" if "x \<noteq> MTPNDD_TRUE" "x \<noteq> MTPNDD_FALSE" for x using assms that by (auto simp: cold_def)
  then have "(nodes s)(MTPNDD_TRUE \<mapsto> static_leaf (mtpndd_pack_fraction 1 1),
      MTPNDD_FALSE \<mapsto> static_leaf (mtpndd_pack_fraction 0 1)) = static_nodes"
    by (auto simp: static_nodes_def fun_eq_iff)
  then show ?thesis using assms by (simp add: boot_def boot_state_def clear_config_def cold_def)
qed

lemma config_kept:
  "lace_dqsize (with_defaults config s) = lace_dqsize config"
  "edge_bucket_count config \<le> 2 ^ 60 \<Longrightarrow> edge_bucket_count (with_defaults config s) \<le> 2 ^ 60"
  by (simp_all add: with_defaults_def mtpndd_apply_pal_config_defaults_def Let_def or_default_def
      MTPNDD_DEFAULT_EDGE_BUCKET_COUNT_def)

lemma slabs_kept: "slabs_fit config \<Longrightarrow> slabs_fit (with_defaults config s)"
proof -
  have o: "or_default d (or_default d k) = or_default d k" for d k :: nat by (simp add: or_default_def)
  have m: "max MTPNDD_DEFAULT_EDGE_BUCKET_COUNT (or_default MTPNDD_DEFAULT_EDGE_BUCKET_COUNT k) = max MTPNDD_DEFAULT_EDGE_BUCKET_COUNT k" for k
    by (simp add: or_default_def MTPNDD_DEFAULT_EDGE_BUCKET_COUNT_def)
  show "slabs_fit config \<Longrightarrow> slabs_fit (with_defaults config s)"
    by (simp add: slabs_fit_def with_defaults_def mtpndd_apply_pal_config_defaults_def Let_def o m)
qed

lemma init_unfold:
  assumes "\<not> mtpndd_is_initialized s" "config_ok config"
  shows "mtpndd_init L (Some config) s =
    (let (st, s) = alloc_config (boot_state config s)
     in if st \<noteq> MTPNDD_SUCCESS then Some (st, s)
        else let (ok, s) = mtpndd_lace_init L s
          in if \<not> ok then Some (return_error MTPNDD_ERROR_PARALLEL_INIT ''mtpndd_init'' 650 s)
          else let (st, s) = mtpndd_temp_refs_runtime_init s
          in if st \<noteq> MTPNDD_SUCCESS then Some (return_error MTPNDD_ERROR_OUT_OF_MEMORY ''mtpndd_init'' 653 s)
             else let (ok, s) = mtpndd_op_cache_initialize (op_cache_size config) s
               in if \<not> ok then Some (return_error MTPNDD_ERROR_INITIALIZE_FAILED ''mtpndd_init'' 660 s)
                  else do {
                    (st, s) \<leftarrow> init_leaf_tables (mtpndd_memory_pools_init s);
                    if st \<noteq> MTPNDD_SUCCESS then Some (st, s)
                    else Some (MTPNDD_SUCCESS, (attach_hooks s)\<lparr>g_node_count := 0\<rparr>)
                  })"
proof -
  have n: "MTPNDD_TRUE \<noteq> NULL" "MTPNDD_FALSE \<noteq> NULL" by (simp_all add: MTPNDD_TRUE_def MTPNDD_FALSE_def)
  have "mtpndd_apply_pal_config_defaults (s\<lparr>g_pal_config := c\<rparr>)
      = s\<lparr>g_pal_config := g_pal_config (mtpndd_apply_pal_config_defaults (s\<lparr>g_pal_config := c\<rparr>))\<rparr>" for c
    by (simp add: mtpndd_apply_pal_config_defaults_def Let_def)
  then have "mtpndd_apply_pal_config_defaults (s\<lparr>g_pal_config := config\<lparr>quick_growth_threshold :=
          (if 0 \<le> quick_growth_threshold config then quick_growth_threshold config
           else DEFAULT_QUICK_GROWTH_THRESHOLD)\<rparr>\<rparr>) = s\<lparr>g_pal_config := with_defaults config s\<rparr>"
    unfolding with_defaults_def .
  then show ?thesis using assms n
    by (simp add: mtpndd_init_def init_static_leaf_eq boot_state_def Let_def)
qed

text \<open>A valid configuration is never reported as an invalid parameter, whatever fails later.\<close>

lemma init_status:
  assumes "\<not> mtpndd_is_initialized s" "config_ok config" "mtpndd_init L (Some config) s = Some (st, s')"
  shows "st \<noteq> MTPNDD_ERROR_INVALID_PARAM"
proof -
  have a: "fst (alloc_config u) \<noteq> MTPNDD_ERROR_INVALID_PARAM" for u
    by (auto simp: alloc_config_def return_error_def Let_def split: prod.splits if_splits)
  have l: "init_leaf_tables u = Some (e, u') \<Longrightarrow> e \<noteq> MTPNDD_ERROR_INVALID_PARAM" for u e u'
    by (auto simp: init_leaf_tables_def return_error_def Let_def Option.bind_eq_Some_conv split: prod.splits if_splits option.splits)
  show ?thesis using assms(3) a[of "boot_state config s"] l unfolding init_unfold[OF assms(1,2)]
    by (auto simp: return_error_def Let_def Option.bind_eq_Some_conv split: prod.splits if_splits)
qed

lemma lace_init_spec:
  assumes "boot cfg s"
  shows "\<exists>s'. mtpndd_lace_init L s = (True, s') \<and> boot cfg s'
     \<and> pending_field_capacity s' = pending_field_capacity s \<and> pending_field_bit_widths s' = pending_field_bit_widths s"
  using assms by (simp add: mtpndd_lace_init_def Let_def boot_def)

lemma temp_refs_runtime_init_spec:
  assumes b: "boot cfg s"
  shows "\<exists>st s'. mtpndd_temp_refs_runtime_init s = (st, s') \<and> boot cfg s'
     \<and> pending_field_capacity s' = pending_field_capacity s \<and> pending_field_bit_widths s' = pending_field_bit_widths s
     \<and> (st \<noteq> MTPNDD_SUCCESS \<longrightarrow> failed s')"
proof -
  let ?n = "if lace_workers s = 0 then 1 else lace_workers s"
  obtain p s1 where m: "malloc (?n * 280) s = (p, s1)" by fastforce
  note b1 = boot_malloc[OF b m]
  have "pending_field_capacity s1 = pending_field_capacity s" "pending_field_bit_widths s1 = pending_field_bit_widths s"
    using b1(2) by (auto simp: heap_only_def)
  moreover have "boot cfg (s1\<lparr>temp_ref_pool_count := k,
      temp_refs_pool := if c then mtpndd_temp_ref_pool_init else temp_refs_pool s1\<rparr>)" for k c
    using b1(1) by (simp add: boot_def mtpndd_temp_ref_pool_init_def)
  ultimately show ?thesis using b b1(1,3) m
    by (auto simp: mtpndd_temp_refs_runtime_init_def return_error_def mtpndd_set_error_def boot_def Let_def simp del: if_split)
qed

text \<open>From a state that is booted and has its caches to the end of \<open>mtpndd_init\<close>.\<close>

lemma init_finish:
  assumes b: "boot cfg s" and c: "caches_shape s" "caches_empty s" and e: "edge_bucket_count cfg \<le> 2 ^ 60" "slabs_fit cfg"
    and q: "0 < lace_dqsize cfg" and w: "pending_field_capacity s = 8" "length (pending_field_bit_widths s) = 8"
  shows "\<exists>st s'. init_leaf_tables (mtpndd_memory_pools_init s) = Some (st, s')
     \<and> (if st = MTPNDD_SUCCESS then warm S M ((attach_hooks s')\<lparr>g_node_count := 0\<rparr>) else failed s')"
proof -
  let ?s1 = "mtpndd_memory_pools_init s"
  have p: "32 < brk (c_heap_of s)" "edge_bucket_count (g_pal_config s) \<le> 2 ^ 60" "slabs_fit (g_pal_config s)" using b e by (simp_all add: boot_def)
  note P = pools_init_spec[OF p]
  obtain n where b1: "boot (cfg\<lparr>edge_bucket_count := n\<rparr>) ?s1" using boot_pools[OF b P(1)] by blast
  have c1: "caches_shape ?s1" "caches_empty ?s1" "pending_field_capacity ?s1 = 8" "length (pending_field_bit_widths ?s1) = 8"
    using c w P(1) by (auto simp: pools_up_def caches_shape_def caches_empty_def)
  obtain st s2 where r: "init_leaf_tables ?s1 = Some (st, s2)" "leaves_up ?s1 s2"
    "if st = MTPNDD_SUCCESS then leaf_tables_ok s2 else failed s2" using init_leaf_tables_spec[OF b1] by blast
  note U = leaves_up_fields[OF r(2)] and b2 = boot_leaves[OF b1 r(2)]
  have "warm S M ((attach_hooks s2)\<lparr>g_node_count := 0\<rparr>)" if "st = MTPNDD_SUCCESS"
  proof -
    let ?s3 = "(attach_hooks s2)\<lparr>g_node_count := 0\<rparr>"
    have ok: "pool_ok (g_node_pool s2) {} (c_heap_of s2)" unfolding U(4)
      by (rule pool_ok_brk_mono[OF P(2)]) (use r(2) in \<open>simp add: leaves_up_def\<close>)
    have cfg2: "bucket_cfg_ok s2" using P(4) U(5) by (simp add: bucket_cfg_ok_def)
    have h2: "hinv S M {#} s2" by (rule boot_hinv[OF b2 _ ok cfg2]) (use r(3) that in simp)
    note hk = attach_hooks_def mtpndd_gc_hook_postgc_def mtpndd_gc_hook_pregc_def
    have "same_heap s2 ?s3" by (simp add: same_heap_def hk)
    then have "hinv S M {#} ?s3" using hinv_same_heap[OF h2] by blast
    moreover have "cinv M ?s3"
      using c1(1,2) b2 P(3) U unfolding cinv_def ctx_ok_def caches_shape_def caches_empty_def boot_def pools_ready_def
      by (simp add: hk)
    moreover have "caches_empty ?s3" using c1(2) U by (simp add: caches_empty_def hk)
    moreover have "boot (cfg\<lparr>edge_bucket_count := n\<rparr>) ?s3" using b2 by (simp add: boot_def hk)
    moreover have "mtpndd_is_initialized ?s3" using b2 q by (simp add: mtpndd_is_initialized_def boot_def hk Let_def)
    moreover have "pending_field_capacity ?s3 = 8" "length (pending_field_bit_widths ?s3) = 8"
      using c1(3,4) U by (simp_all add: hk)
    ultimately show ?thesis unfolding warm_def by blast
  qed
  then show ?thesis using r by auto
qed

lemma init_spec:
  assumes c: "cold s" and k: "config_ok config" and e: "edge_bucket_count config \<le> 2 ^ 60" "slabs_fit config"
  shows "\<exists>st s'. mtpndd_init L (Some config) s = Some (st, s') \<and> (if st = MTPNDD_SUCCESS then warm S M s' else failed s')"
proof -
  let ?cfg = "with_defaults config s"
  have ni: "\<not> mtpndd_is_initialized s" using c by (simp add: cold_def)
  note b = boot_state_boot[OF c, of config]
  have q: "0 < lace_dqsize ?cfg" using k config_kept(1) by (simp add: config_ok_def)
  obtain st1 s1 where s1: "alloc_config (boot_state config s) = (st1, s1)" "boot ?cfg s1"
    "if st1 = MTPNDD_SUCCESS then pending_field_capacity s1 = 8 \<and> length (pending_field_bit_widths s1) = 8 else failed s1"
    using alloc_config_spec[OF b] by blast
  obtain s2 where s2: "mtpndd_lace_init L s1 = (True, s2)" "boot ?cfg s2"
    "pending_field_capacity s2 = pending_field_capacity s1" "pending_field_bit_widths s2 = pending_field_bit_widths s1"
    using lace_init_spec[OF s1(2)] by blast
  obtain st3 s3 where s3: "mtpndd_temp_refs_runtime_init s2 = (st3, s3)" "boot ?cfg s3"
    "pending_field_capacity s3 = pending_field_capacity s2" "pending_field_bit_widths s3 = pending_field_bit_widths s2"
    "st3 \<noteq> MTPNDD_SUCCESS \<longrightarrow> failed s3" using temp_refs_runtime_init_spec[OF s2(2)] by blast
  obtain ok s4 where s4: "mtpndd_op_cache_initialize (op_cache_size config) s3 = (ok, s4)" "boot ?cfg s4"
    "pending_field_capacity s4 = pending_field_capacity s3" "pending_field_bit_widths s4 = pending_field_bit_widths s3"
    "if ok then caches_shape s4 \<and> caches_empty s4 else failed s4" using op_cache_initialize_spec[OF s3(2)] by blast
  note U = init_unfold[OF ni k, of L]
  show ?thesis
  proof (cases "st1 = MTPNDD_SUCCESS \<and> st3 = MTPNDD_SUCCESS \<and> ok")
    case False
    then show ?thesis using s1(1,3) s2(1) s3(1,5) s4(1,5) unfolding U
      by (cases "st1 = MTPNDD_SUCCESS"; cases "st3 = MTPNDD_SUCCESS") (auto simp: return_error_def)
  next
    case True
    obtain st5 s5 where s5: "init_leaf_tables (mtpndd_memory_pools_init s4) = Some (st5, s5)"
      "if st5 = MTPNDD_SUCCESS then warm S M ((attach_hooks s5)\<lparr>g_node_count := 0\<rparr>) else failed s5"
      using init_finish[OF s4(2) _ _ config_kept(2)[OF e(1)] slabs_kept[OF e(2)] q] True s1(3) s2(3,4) s3(3,4) s4(3-5) by force
    then show ?thesis using True s1(1) s2(1) s3(1) s4(1) unfolding U by auto
  qed
qed

end
