(* ===== verification/Engine_Fields.thy ===== *)
theory Engine_Fields
  imports Setup_Frame Engine_Init
begin

text \<open>
  Declaration and generation of fields.  Until fields exist no operation has run, so the caches are
  empty (\<open>idle\<close>).  \<open>onward\<close>: live nodes stay as they are while tables and nodes are added.  A
  variable node has one edge, its label, to TRUE (\<open>var_at\<close>), and it is protected.
\<close>

section \<open>Steps between operations\<close>

definition idle :: "sylvan \<Rightarrow> bdd_model \<Rightarrow> mstate \<Rightarrow> bool" where
  "idle S M s \<longleftrightarrow> hinv S M {#} s \<and> ctx_ok s \<and> caches_empty s"

definition onward :: "mstate \<Rightarrow> mstate \<Rightarrow> bool" where
  "onward s s' \<longleftrightarrow> (\<forall>p. live {#} s p \<longrightarrow> live {#} s' p \<and> content s' p = content s p) \<and> (failed s \<longrightarrow> failed s')"

definition step_ok :: "sylvan \<Rightarrow> bdd_model \<Rightarrow> mstate \<Rightarrow> mstate \<Rightarrow> bool" where
  "step_ok S M s s' \<longleftrightarrow> idle S M s' \<and> onward s s' \<and> tabled s' = tabled s \<and> fsetup s' = fsetup s"

lemma onward_refl [simp]: "onward s s"
  by (simp add: onward_def)

lemma onward_trans: "onward s t \<Longrightarrow> onward t u \<Longrightarrow> onward s u"
  by (simp add: onward_def)

lemma step_ok_refl [simp]: "step_ok S M s s = idle S M s"
  by (simp add: step_ok_def)

lemma step_ok_trans: "step_ok S M s t \<Longrightarrow> step_ok S M t u \<Longrightarrow> step_ok S M s u"
  using onward_trans by (auto simp: step_ok_def)

lemma step_okD:
  assumes "step_ok S M s s'"
  shows "idle S M s'" "onward s s'" "tabled s' = tabled s" "fsetup s' = fsetup s" "failed s \<Longrightarrow> failed s'"
  using assms by (auto simp: step_ok_def onward_def)

lemma idle_cinv: "idle S M s \<Longrightarrow> cinv M s"
  by (simp add: idle_def cinv_def caches_empty_def)

lemma idle_ready: "idle S M s \<Longrightarrow> heap_ready s"
  using cinv_heap_ready[OF idle_cinv] unfolding idle_def by blast

lemma step_touch:
  assumes i: "idle S M s" and t: "touch s s'" and r: "refs_ok {#} s'" and f: "fsetup s' = fsetup s"
  shows "step_ok S M s s'"
proof -
  note k = touch_keeps[OF t, of "{#}"]
  have "hinv S M {#} s'" by (rule hinv_touch[where E = "{#}", OF _ t r]) (use i in \<open>simp add: idle_def\<close>)
  moreover have "ctx_ok s'" "caches_empty s'" "failed s \<longrightarrow> failed s'"
    using i t by (auto simp: idle_def ctx_ok_def touch_def res_mono_def caches_shape_def caches_empty_def)
  ultimately show ?thesis using k f by (simp add: step_ok_def idle_def onward_def keeps_def)
qed

lemma step_quiet:
  assumes i: "idle S M s" and q: "quiet s s'" shows "step_ok S M s s'"
proof (rule step_touch[OF i quiet_touch[OF q] _ quiet_setup[OF q]])
  show "refs_ok {#} s'" using hinv_quiet[OF _ q] i unfolding idle_def hinv_def by blast
qed

lemma step_made:
  assumes i: "idle S M s" and m: "mtpndd_mk S f m s = Some (r, s')" "made S M {#} s f e r s'"
  shows "step_ok S M s s'"
proof -
  have k: "hinv S M {#} s'" "keeps {#} s s'" "op_frame s s'" using m(2) by (simp_all add: made_def)
  then have "ctx_ok s'" "failed s \<longrightarrow> failed s'" "caches_empty s'"
    using i by (auto simp: op_frame_def res_mono_def idle_def caches_empty_def)
  then show ?thesis using k mk_setup[OF m(1)] by (simp add: step_ok_def idle_def onward_def keeps_def)
qed

section \<open>Variable nodes\<close>

definition var_at :: "mstate \<Rightarrow> nat \<Rightarrow> bdd \<Rightarrow> ptr \<Rightarrow> bool" where
  "var_at s f l p \<longleftrightarrow> live {#} s p \<and> has_edges s p f [MTPNDD_TRUE \<mapsto> l]"

lemma var_at_onward: "onward s s' \<Longrightarrow> var_at s f l p \<Longrightarrow> var_at s' f l p"
  by (simp add: onward_def var_at_def has_edges_def)

lemma var_at_sem:
  assumes "sinv S M s" "var_at s f l p"
  shows "boolean s p" "holds M s env p \<longleftrightarrow> bdd_sem M l (env f)" "live {#} s p"
proof -
  obtain m where m: "content s p = Some (f, NEdges m)" "emap m = [MTPNDD_TRUE \<mapsto> l]"
    using assms(2) by (auto simp: var_at_def has_edges_def)
  show "boolean s p" by (rule boolean_node[OF m(1)]) (use m(2) in auto)
  show "holds M s env p \<longleftrightarrow> bdd_sem M l (env f)" using holds_node[OF assms(1) m(1)] m(2) by auto
  show "live {#} s p" using assms(2) by (simp add: var_at_def)
qed

lemma var_at_inj: "var_at s f l p \<Longrightarrow> var_at s f' l' p \<Longrightarrow> f = f' \<and> l = l'"
  by (auto simp: var_at_def has_edges_def fun_upd_eqD dest: map_upd_eqD1)

lemma protect_step:
  assumes i: "idle S M s" and p: "has_edges s p f e"
  shows "\<exists>s'. mtpndd_protect p s = Some (MTPNDD_SUCCESS, s') \<and> step_ok S M s s' \<and> live {#} s' p \<and> has_edges s' p f e"
proof -
  have h: "hinv S M {#} s" using i by (simp add: idle_def)
  obtain m where m: "content s p = Some (f, NEdges m)" "emap m = e" using p by (auto simp: has_edges_def)
  then obtain nd where nd: "nodes s p = Some nd" "body nd = NEdges m" by (auto simp: content_Some)
  let ?s = "s\<lparr>nodes := (nodes s)(p \<mapsto> nd\<lparr>ref_count := - 1\<rparr>)\<rparr>"
  have t: "touch s ?s" by (rule set_rc_touch[OF nd(1)]) simp
  have r: "refs_ok {#} ?s" by (rule refs_ok_set_rc[OF _ nd]) (use h in \<open>auto simp: hinv_def\<close>)
  have ct: "content ?s = content s" using t by (simp add: touch_def)
  have "mtpndd_protect p s = Some (MTPNDD_SUCCESS, ?s)"
    using nd(1) has_edges_not_null[OF h p] by (simp add: mtpndd_protect_def set_ref_count_def)
  moreover have "step_ok S M s ?s" by (rule step_touch[OF i t r]) simp
  moreover have "live {#} ?s p" by (rule live.live_protected[where nd = "nd\<lparr>ref_count := - 1\<rparr>"])
    (use m ct in \<open>auto simp: internal_content\<close>)
  moreover have "has_edges ?s p f e" using p ct by (simp add: has_edges_def)
  ultimately show ?thesis by blast
qed

context sylvan_laws
begin

lemma or_false: "bdd_ok M l \<Longrightarrow> sylvan_or S (sylvan_false S) l = l"
  by (rule canonical) (auto simp: fun_eq_iff)

lemma single_map_wf:
  assumes si: "sinv S M s" and m: "wf_map s m" "emap m = [MTPNDD_TRUE \<mapsto> l]"
    and l: "bdd_ok M l" "l \<noteq> sylvan_false S" and f: "f \<le> field_count s"
  shows "map_wf S M s f m"
proof -
  have "nodes s MTPNDD_TRUE \<noteq> None" using si by (auto simp: sinv_def sentinels_ok_def content_def)
  then have "child_ok s f MTPNDD_TRUE"
    using sentinel_field(3)[OF si] f by (simp add: child_ok_def MTPNDD_TRUE_def MTPNDD_FALSE_def)
  then show ?thesis using m l by (auto simp: map_wf_def labels_ok_def split: if_splits)
qed

lemma free_map_step:
  assumes st: "step_ok S M s t" and wf: "wf_map u m"
  shows "\<exists>s'. mtpndd_edge_map_free m t = Some s' \<and> step_ok S M s s' \<and> (failed t \<longrightarrow> failed s')"
proof -
  obtain s' where s': "mtpndd_edge_map_free m t = Some s'" "quiet t s'"
    using edge_map_free_spec[OF wf, of t] by (auto simp: succeeds_iff)
  note q = step_quiet[OF step_okD(1)[OF st] s'(2)]
  show ?thesis using s'(1) step_ok_trans[OF st q] step_okD(5)[OF q] by blast
qed

text \<open>The edge map of a variable node has one edge, to the leaf one.\<close>
lemma add_true_edge:
  assumes i: "idle S M s" and m: "wf_map s m" "emap m = Map.empty" and l: "bdd_ok M l"
  shows "\<exists>st m' s'. mtpndd_add_edge S m MTPNDD_TRUE l s = Some (st, m', s') \<and> quiet s s' \<and> wf_map s' m'
     \<and> (if st = MTPNDD_SUCCESS then emap m' = [MTPNDD_TRUE \<mapsto> l] else failed s')"
proof -
  have h: "hinv S M {#} s" using i by (simp add: idle_def)
  have tr: "nodes s MTPNDD_TRUE \<noteq> None" "MTPNDD_TRUE \<noteq> NULL"
    using hinvD(1)[OF h] by (auto simp: sinv_def sentinels_ok_def content_def MTPNDD_TRUE_def)
  show ?thesis
    using add_edge_spec[OF m(1) tr hinv_lim[OF h], of S l] m(2) idle_ready[OF i] or_false[OF l]
    by (auto simp: succeeds_iff merged_label_def MTPNDD_TRUE_def MTPNDD_FALSE_def split: if_splits)
qed

text \<open>The node is made from that map and protected, or the map is freed.\<close>
lemma close_var_node:
  assumes i: "idle S M s" and f: "f \<in> tabled s" and l: "bdd_ok M l" "l \<noteq> sylvan_false S" "l \<noteq> sylvan_true S"
    and m: "wf_map s m" "emap m = [MTPNDD_TRUE \<mapsto> l]"
  shows "\<exists>r s'. do {
       (node, s) \<leftarrow> mtpndd_mk S f m s;
       if node = NULL
       then do { s \<leftarrow> mtpndd_edge_map_free m s; Some (Inl (ei_code (mtpndd_get_last_error s), l3), s) }
       else do { (_, s) \<leftarrow> mtpndd_protect node s; Some (Inr node, s) } } = Some (r, s')
     \<and> step_ok S M s s' \<and> (case r of Inl _ \<Rightarrow> failed s' | Inr p \<Rightarrow> var_at s' f l p)"
proof -
  have h: "hinv S M {#} s" "ctx_ok s" using i by (simp_all add: idle_def)
  have mw: "map_wf S M s f m"
    by (rule single_map_wf[OF hinvD(1)[OF h(1)] m l(1,2)]) (use tabledD[OF f] in simp)
  obtain r s4 where k: "mtpndd_mk S f m s = Some (r, s4)" "made S M {#} s f (emap m) r s4"
    using mk_spec[OF h f mw] m(2) by (auto intro: live.live_true)
  note st4 = step_made[OF i k]
  show ?thesis
  proof (cases "r = NULL")
    case True
    then have "failed s4" using k(2) by (simp add: made_def)
    then show ?thesis using free_map_step[OF st4 m(1)] True k(1) by auto
  next
    case False
    have "[MTPNDD_TRUE \<mapsto> l] \<noteq> [c \<mapsto> sylvan_true S]" for c using l(3) by (auto simp: fun_eq_iff split: if_splits)
    then have "has_edges s4 r f [MTPNDD_TRUE \<mapsto> l]" using k(2) False m(2) by (simp add: made_def mk_result_def)
    from protect_step[OF step_okD(1)[OF st4] this] obtain s5 where s5: "mtpndd_protect r s4 = Some (MTPNDD_SUCCESS, s5)"
      "step_ok S M s4 s5" "var_at s5 f l r" by (auto simp: var_at_def)
    then show ?thesis using step_ok_trans[OF st4 s5(2)] k(1) False by auto
  qed
qed

lemma make_var_node_spec:
  assumes i: "idle S M s" and f: "f \<in> tabled s" and l: "bdd_ok M l" "l \<noteq> sylvan_false S" "l \<noteq> sylvan_true S"
  shows "\<exists>r s'. make_var_node S f l (l1, l2, l3) s = Some (r, s') \<and> step_ok S M s s'
     \<and> (case r of Inl _ \<Rightarrow> failed s' | Inr p \<Rightarrow> var_at s' f l p)"
proof -
  have h: "hinv S M {#} s" using i by (simp add: idle_def)
  obtain r1 s1 where a: "mtpndd_memory_acquire_edge_map s = (r1, s1)" by fastforce
  note aw = acquire_work[OF h idle_cinv[OF i] a] and st1 = step_quiet[OF i acquire_edge_map_quiet[OF a]]
  show ?thesis
  proof (cases r1)
    case None
    then show ?thesis using a aw(2) st1 by (simp add: make_var_node_def)
  next
    case (Some m0)
    obtain m where m: "mtpndd_edge_map_init s1 m0 = Some m" "wf_map s1 m" "emap m = Map.empty" using aw(3)[OF Some] by blast
    let ?s1 = "sylvan_ref l s1"
    have st2: "step_ok S M s ?s1" by (rule step_ok_trans[OF st1 step_quiet[OF step_okD(1)[OF st1] quiet_log(1)]])
    note i2 = step_okD(1)[OF st2]
    have wf: "wf_map ?s1 m" using wf_map_quiet[OF quiet_log(1)] m(2) by blast
    obtain st m' s3 where e: "mtpndd_add_edge S m MTPNDD_TRUE l ?s1 = Some (st, m', s3)" "quiet ?s1 s3" "wf_map s3 m'"
      "if st = MTPNDD_SUCCESS then emap m' = [MTPNDD_TRUE \<mapsto> l] else failed s3"
      using add_true_edge[OF i2 wf m(3) l(1)] by (elim exE conjE)
    have st3: "step_ok S M s s3" by (rule step_ok_trans[OF st2 step_quiet[OF i2 e(2)]])
    note i3 = step_okD(1)[OF st3]
    have un: "make_var_node S f l (l1, l2, l3) s = (if st \<noteq> MTPNDD_SUCCESS
        then do { s \<leftarrow> mtpndd_edge_map_free m' s3; Some (Inl (st, l2), s) }
        else do {
          (node, s) \<leftarrow> mtpndd_mk S f m' s3;
          if node = NULL
          then do { s \<leftarrow> mtpndd_edge_map_free m' s; Some (Inl (ei_code (mtpndd_get_last_error s), l3), s) }
          else do { (_, s) \<leftarrow> mtpndd_protect node s; Some (Inr node, s) } })"
      using a Some m(1) e(1) by (simp add: make_var_node_def)
    show ?thesis
    proof (cases "st = MTPNDD_SUCCESS")
      case False
      then show ?thesis using free_map_step[OF st3 e(3)] e(4) unfolding un by auto
    next
      case True
      have f3: "f \<in> tabled s3" using f step_okD(3)[OF st3] by simp
      from close_var_node[OF i3 f3 l e(3)] True e(4) show ?thesis
        unfolding un using step_ok_trans[OF st3] by fastforce
    qed
  qed
qed

end

section \<open>The variables of a field\<close>

lemma interleave_mset: "mset (interleave xs ys) = mset xs + mset ys"
  by (induction xs ys rule: interleave.induct) simp_all

lemma interleave_distinct: "distinct (interleave xs ys) \<longleftrightarrow> distinct (xs @ ys)"
  using mset_eq_imp_distinct_iff[of "interleave xs ys" "xs @ ys"] by (simp add: interleave_mset)

lemma list_all2_distinct:
  assumes "list_all2 R xs ys" "distinct xs" and inj: "\<And>x x' y. R x y \<Longrightarrow> R x' y \<Longrightarrow> x = x'"
  shows "distinct ys"
  using assms(1,2)
proof (induction rule: list_all2_induct)
  case (Cons x xs y ys)
  have "y \<notin> set ys"
  proof
    assume "y \<in> set ys"
    then obtain i where i: "i < length ys" "ys ! i = y" by (auto simp: in_set_conv_nth)
    then have "R (xs ! i) y" "xs ! i \<in> set xs" using Cons.hyps(2) by (auto simp: list_all2_conv_all_nth)
    then show False using inj[OF _ Cons.hyps(1)] Cons.prems by auto
  qed
  then show ?case using Cons by simp
qed simp

lemma var_at_list_distinct:
  "list_all2 (var_at s f) ls ps \<Longrightarrow> distinct ls \<Longrightarrow> distinct ps"
  by (rule list_all2_distinct[where R = "var_at s f"]) (auto dest: var_at_inj)

lemma list_all2_onward:
  "onward s s' \<Longrightarrow> list_all2 (var_at s f) ls ps \<Longrightarrow> list_all2 (var_at s' f) ls ps"
  by (erule list_all2_mono) (rule var_at_onward)

text \<open>The error path only frees edge maps.\<close>

lemma free_var_edges_spec:
  assumes "distinct ps" and "\<forall>p\<in>set ps. \<exists>m. node_edges s p = Some m \<and> wf_map s0 m"
  shows "\<exists>s'. iter_state free_var_edges ps s = Some s' \<and> (failed s \<longrightarrow> failed s')"
  using assms
proof (induction ps arbitrary: s)
  case (Cons p ps)
  obtain m where m: "node_edges s p = Some m" "wf_map s0 m" using Cons.prems(2) by auto
  then obtain nd where nd: "nodes s p = Some nd" by (auto simp: node_edges_def split: option.splits)
  obtain s1 where s1: "mtpndd_edge_map_free m s = Some s1" "quiet s s1"
    using edge_map_free_spec[OF m(2), of s] by (auto simp: succeeds_iff)
  let ?s = "s1\<lparr>nodes := (nodes s1)(p \<mapsto> nd\<lparr>body := NLeaf (word_of_nat (em_addr m))\<rparr>)\<rparr>"
  have e: "free_var_edges p s = Some ?s" using nd m(1) s1(1) by (simp add: free_var_edges_def)
  have "node_edges ?s q = node_edges s q" if "q \<in> set ps" for q
    using that Cons.prems(1) quiet_fields(1)[OF s1(2)] by (auto simp: node_edges_def)
  then have "\<forall>q\<in>set ps. \<exists>m. node_edges ?s q = Some m \<and> wf_map s0 m" using Cons.prems(2) by simp
  from Cons.IH[OF _ this] Cons.prems(1) obtain s' where "iter_state free_var_edges ps ?s = Some s'" "failed s1 \<longrightarrow> failed s'"
    by auto
  then show ?case using e touch_failed[OF quiet_touch[OF s1(2)]] by auto
qed simp

lemma var_at_edges:
  assumes "idle S M s" "list_all2 (var_at s f) ls ps" "p \<in> set ps"
  shows "\<exists>m. node_edges s p = Some m \<and> wf_map s m"
proof -
  obtain l where "var_at s f l p" using assms(2,3) by (metis list_all2_conv_all_nth in_set_conv_nth)
  then obtain m where m: "content s p = Some (f, NEdges m)" by (auto simp: var_at_def has_edges_def)
  have "wf_map s m" by (rule sinv_node(6)[OF _ m, where S = S and M = M]) (use assms(1) hinvD(1) in \<open>auto simp: idle_def\<close>)
  then show ?thesis using m by (auto simp: node_edges_content)
qed

lemma make_vars_fail:
  assumes i: "idle S M s" and v: "list_all2 (var_at s f) vs vars" "list_all2 (var_at s f) nvs nots"
    and d: "distinct (vs @ nvs)" and f: "failed s"
  shows "\<exists>s'. iter_state free_var_edges (interleave vars nots) s = Some s' \<and> failed s'"
proof -
  have l: "list_all2 (var_at s f) (vs @ nvs) (vars @ nots)" using v by (rule list_all2_appendI)
  have "distinct (interleave vars nots)"
    unfolding interleave_distinct by (rule var_at_list_distinct[OF l d])
  moreover have "set (interleave vars nots) = set (vars @ nots)"
    using interleave_mset[of vars nots] by (metis mset_append set_mset_mset)
  ultimately show ?thesis using free_var_edges_spec[of "interleave vars nots" s s] var_at_edges[OF i l] f by auto
qed

definition proper :: "sylvan \<Rightarrow> bdd_model \<Rightarrow> bdd \<Rightarrow> bool" where
  "proper S M l \<longleftrightarrow> bdd_ok M l \<and> l \<noteq> sylvan_false S \<and> l \<noteq> sylvan_true S"

definition vars_made :: "mstate \<Rightarrow> nat \<Rightarrow> bdd list \<Rightarrow> bdd list \<Rightarrow> ptr list \<Rightarrow> ptr list \<Rightarrow> bool" where
  "vars_made s f vs nvs vars nots \<longleftrightarrow> list_all2 (var_at s f) vs vars \<and> list_all2 (var_at s f) nvs nots"

context sylvan_laws
begin

lemma make_vars_spec:
  assumes "idle S M s" and "f \<in> tabled s" and "vars_made s f vs nvs vars nots"
    and "\<forall>(v, nv)\<in>set ls. proper S M v \<and> proper S M nv"
    and "distinct ((vs @ map fst ls) @ nvs @ map snd ls)"
  shows "\<exists>r s'. make_vars S f ls vars nots s = Some (r, s')
     \<and> (case r of Inl _ \<Rightarrow> failed s'
        | Inr (V, N) \<Rightarrow> step_ok S M s s' \<and> vars_made s' f (vs @ map fst ls) (nvs @ map snd ls) V N)"
  using assms
proof (induction ls arbitrary: s vs nvs vars nots)
  case Nil
  then show ?case by simp
next
  case (Cons x ls)
  obtain v nv where x: "x = (v, nv)" by fastforce
  have pr: "bdd_ok M v" "v \<noteq> sylvan_false S" "v \<noteq> sylvan_true S"
      "bdd_ok M nv" "nv \<noteq> sylvan_false S" "nv \<noteq> sylvan_true S"
    using Cons.prems(4) x by (auto simp: proper_def)
  note vm = Cons.prems(3)[unfolded vars_made_def]
  obtain r1 s1 where r1: "make_var_node S f v (402, 410, 417) s = Some (r1, s1)" "step_ok S M s s1"
    "case r1 of Inl _ \<Rightarrow> failed s1 | Inr p \<Rightarrow> var_at s1 f v p"
    using make_var_node_spec[OF Cons.prems(1,2) pr(1-3)] by blast
  have v1: "list_all2 (var_at s1 f) vs vars" "list_all2 (var_at s1 f) nvs nots"
    using vm list_all2_onward[OF step_okD(2)[OF r1(2)]] by blast+
  have d1: "distinct (vs @ nvs)" "distinct ((vs @ [v]) @ nvs)" using Cons.prems(5) x by auto
  show ?case
  proof (cases r1)
    case (Inl e)
    then obtain s' where s': "iter_state free_var_edges (interleave vars nots) s1 = Some s'" "failed s'"
      using make_vars_fail[OF step_okD(1)[OF r1(2)] v1 d1(1)] r1(3) by auto
    then show ?thesis using r1(1) Inl x by (cases e) auto
  next
    case (Inr p)
    have f1: "f \<in> tabled s1" using Cons.prems(2) step_okD(3)[OF r1(2)] by simp
    obtain r2 s2 where r2: "make_var_node S f nv (429, 437, 444) s1 = Some (r2, s2)" "step_ok S M s1 s2"
      "case r2 of Inl _ \<Rightarrow> failed s2 | Inr p \<Rightarrow> var_at s2 f nv p"
      using make_var_node_spec[OF step_okD(1)[OF r1(2)] f1 pr(4-6)] by blast
    note ow = step_okD(2)[OF r2(2)]
    have vp: "var_at s2 f v p" using var_at_onward[OF ow] r1(3) Inr by simp
    have v2: "list_all2 (var_at s2 f) (vs @ [v]) (vars @ [p])" "list_all2 (var_at s2 f) nvs nots"
      using v1 vp list_all2_onward[OF ow] by (auto intro: list_all2_appendI)
    show ?thesis
    proof (cases r2)
      case (Inl e)
      then obtain s' where s': "iter_state free_var_edges (interleave (vars @ [p]) nots) s2 = Some s'" "failed s'"
        using make_vars_fail[OF step_okD(1)[OF r2(2)] v2 d1(2)] r2(3) by auto
      then show ?thesis using r1(1) \<open>r1 = Inr p\<close> r2(1) Inl x by (cases e) auto
    next
      case (Inr q)
      have f2: "f \<in> tabled s2" using f1 step_okD(3)[OF r2(2)] by simp
      have "vars_made s2 f (vs @ [v]) (nvs @ [nv]) (vars @ [p]) (nots @ [q])"
        using v2 r2(3) Inr by (auto simp: vars_made_def intro: list_all2_appendI)
      from Cons.IH[OF step_okD(1)[OF r2(2)] f2 this] Cons.prems(4,5) x
      obtain r s' where s': "make_vars S f ls (vars @ [p]) (nots @ [q]) s2 = Some (r, s')"
        "case r of Inl _ \<Rightarrow> failed s' | Inr (V, N) \<Rightarrow> step_ok S M s2 s'
           \<and> vars_made s' f (vs @ map fst (x # ls)) (nvs @ map snd (x # ls)) V N" by (fastforce split: sum.splits)
      show ?thesis using r1(1) \<open>r1 = Inr p\<close> r2(1) Inr s' x step_ok_trans[OF step_ok_trans[OF r1(2) r2(2)]]
        by (auto split: sum.splits)
    qed
  qed
qed

end

section \<open>A new table\<close>

lemma declare_table_spec:
  assumes i: "idle S M s"
  shows "\<exists>t s'. mtpndd_nodetable_declare_field s = (t, s') \<and> quiet s s'
     \<and> (case t of None \<Rightarrow> failed s' | Some t \<Rightarrow> table_shape t \<and> tentries t = [])"
proof -
  define n where "n = round_up_pow2_nat (let n = nodetable_bucket_count_cfg (g_pal_config s);
      n = (if n = 0 then MTPNDD_DEFAULT_NODETABLE_BUCKET_COUNT else n); n = (if 2 ^ 23 < n then 2 ^ 23 else n)
    in if n < 16 then 16 else n)"
  define k where "k = round_up_pow2_nat (let k = (if 2 ^ 12 < n then 2 ^ 12 else n) in if k < 16 then 16 else k)"
  obtain p1 s1 where m1: "malloc 72 s = (p1, s1)" by fastforce
  obtain p2 s2 where m2: "malloc (k * 4) s1 = (p2, s2)" by fastforce
  obtain p3 s3 where m3: "malloc (n * 8) s2 = (p3, s3)" by fastforce
  note q = malloc_quiet[OF m1] malloc_quiet[OF m2] malloc_quiet[OF m3]
  note q2 = quiet_trans[OF q(1,2)] note q3 = quiet_trans[OF q2 q(3)]
  have b: "0 < brk (c_heap_of t)" if "quiet s t" for t
    using that idle_ready[OF i] by (auto simp: quiet_def heap_ready_def)
  have fl: "p1 = NULL \<longrightarrow> failed s1" "p2 = NULL \<longrightarrow> failed s2" "p3 = NULL \<longrightarrow> failed s3"
    using malloc_heap_only(2)[OF m1 b] malloc_heap_only(2)[OF m2 b[OF q(1)]] malloc_heap_only(2)[OF m3 b[OF q2]] by simp_all
  let ?t = "\<lparr>nodetable_bucket_count = n, nt_buckets = replicate n [], nt_entry_count = 0,
      nt_load_threshold = n - n div 4, nt_bucket_lock_count = k\<rparr>"
  have e: "mtpndd_nodetable_declare_field s = (if p1 = NULL then (None, s1) else if p2 = NULL then (None, s2)
      else if p3 = NULL then (None, s3) else (Some ?t, s3))"
    unfolding mtpndd_nodetable_declare_field_def m1 Let_def prod.case quiet_fields(6)[OF q(1)]
      n_def[unfolded Let_def, symmetric] k_def[unfolded Let_def, symmetric] m2 m3 by (rule refl)
  have nb: "is_pow2 n \<and> 16 \<le> n \<and> n \<le> 2 ^ 23"
    using round_up_bounds[of "let n = nodetable_bucket_count_cfg (g_pal_config s);
      n = (if n = 0 then MTPNDD_DEFAULT_NODETABLE_BUCKET_COUNT else n); n = (if 2 ^ 23 < n then 2 ^ 23 else n)
    in if n < 16 then 16 else n" 23] unfolding n_def Let_def by (auto split: if_splits)
  then have "n \<le> 2 ^ 60" by simp
  then have "table_shape ?t \<and> tentries ?t = []" using nb by (simp add: table_shape_def tentries_def)
  then show ?thesis unfolding e using fl q(1) q2 q3 by auto
qed

lemma new_table_sinv:
  assumes si: "sinv S M s" and f: "f \<notin> tabled s" "1 \<le> f" "f \<le> field_count s" and t: "table_shape t" "tentries t = []"
  shows "sinv S M (set_table f t s)"
proof -
  let ?s = "set_table f t s"
  have ct: "content ?s = content s" by (rule content_nodes) (simp add: set_table_def)
  have tb: "tabled ?s = insert f (tabled s)" using f by (auto simp: tabled_def set_table_def)
  have nw: "node_wf S M ?s nd" if "content s p = Some nd" for p nd
  proof -
    have w: "node_wf S M s nd" using si that unfolding sinv_def by blast
    have mw: "map_wf S M ?s g m = map_wf S M s g m" for g m by (rule map_wf_cong) (simp add: ct)
    show ?thesis using w tb mw by (cases nd) (auto simp: node_wf_def split: node_body.splits)
  qed
  have "\<exists>u. node_tables_by_field ?s g = Some u \<and> table_wf ?s g u" if "g \<in> tabled ?s" for g
  proof (cases "g = f")
    case True
    have "table_wf ?s f t" using t sinv_node(8)[OF si] f(1) unfolding table_wf_def ct by auto
    then show ?thesis using True by (simp add: set_table_def)
  next
    case False
    then have g: "g \<in> tabled s" using tb that by simp
    then obtain u where u: "node_tables_by_field s g = Some u" "table_wf s g u"
      using sinv_table[OF si g] sinv_table_wf[OF si g] by blast
    have "table_wf ?s g u" using u(2) unfolding table_wf_def entry_ok_def ct .
    moreover have "node_tables_by_field ?s g = Some u" using False u(1) by (simp add: set_table_def)
    ultimately show ?thesis by blast
  qed
  then have "tables_ok ?s" by (simp add: tables_ok_def)
  moreover have "leaf_tables_ok ?s" "unique_nodes ?s" "sentinels_ok ?s" "field_count ?s < MTPNDD_LEAF_FIELD_ID_MIN"
    using si unfolding sinv_def leaf_tables_ok_def unique_nodes_def sentinels_ok_def leaf_table_wf_def ct
    by (simp_all add: set_table_def leaf_table_of_def)
  ultimately show ?thesis using nw by (simp add: sinv_def ct)
qed

lemma new_table_step:
  assumes i: "idle S M s" and f: "f \<notin> tabled s" "1 \<le> f" "f \<le> field_count s" and t: "table_shape t" "tentries t = []"
  shows "idle S M (set_table f t s)" "onward s (set_table f t s)" "tabled (set_table f t s) = insert f (tabled s)"
proof -
  let ?s = "set_table f t s"
  have n: "nodes ?s = nodes s" by (simp add: set_table_def)
  have h: "hinv S M {#} s" using i by (simp add: idle_def)
  have "rinv ?s" by (rule rinv_cong[OF n]) (use hinvD(3)[OF h] in \<open>simp_all add: set_table_def\<close>)
  moreover have "refs_ok {#} ?s" using h refs_ok_cong[OF n] by (simp add: hinv_def)
  ultimately have "hinv S M {#} ?s" using new_table_sinv[OF hinvD(1)[OF h] f t] by (simp add: hinv_def)
  then show "idle S M ?s" using i
    by (simp add: idle_def ctx_ok_def caches_shape_def caches_empty_def pools_ready_def set_table_def)
  show "onward s ?s" using live_cong[OF n] content_nodes[OF n] by (simp add: onward_def set_table_def)
  show "tabled ?s = insert f (tabled s)" using f by (auto simp: tabled_def set_table_def)
qed

end
