(* ===== verification/Engine_Vars.thy ===== *)
theory Engine_Vars
  imports Engine_Fields
begin

text \<open>
  Generation of the declared fields: every field gets its table and, for each of its bits, a node
  for the variable and one for its negation.  Field \<open>f\<close> of width \<open>w\<close> uses the last \<open>w\<close> of the
  shared BDD variables.
\<close>

section \<open>Labels\<close>

context sylvan_vars
begin

lemma ithvar_labels:
  assumes "i < nvars"
  shows "proper S M (sylvan_ithvar S i)" "proper S M (sylvan_not S (sylvan_ithvar S i))"
  using assms ithvar_proper[OF assms] by (simp_all add: proper_def)

lemma ithvar_inj:
  assumes "i < nvars" "j < nvars"
  shows "sylvan_ithvar S i = sylvan_ithvar S j \<longleftrightarrow> i = j"
    "sylvan_not S (sylvan_ithvar S i) = sylvan_not S (sylvan_ithvar S j) \<longleftrightarrow> i = j"
    "sylvan_ithvar S i \<noteq> sylvan_not S (sylvan_ithvar S j)"
proof -
  have v: "bdd_sem M (sylvan_ithvar S i) v \<longleftrightarrow> v i" "bdd_sem M (sylvan_ithvar S j) v \<longleftrightarrow> v j"
    "bdd_sem M (sylvan_not S (sylvan_ithvar S i)) v \<longleftrightarrow> \<not> v i"
    "bdd_sem M (sylvan_not S (sylvan_ithvar S j)) v \<longleftrightarrow> \<not> v j" for v using assms by simp_all
  show "sylvan_ithvar S i = sylvan_ithvar S j \<longleftrightarrow> i = j" using v(1,2)[of "\<lambda>k. k = i"] by auto
  show "sylvan_not S (sylvan_ithvar S i) = sylvan_not S (sylvan_ithvar S j) \<longleftrightarrow> i = j"
    using v(3,4)[of "\<lambda>k. k = i"] by auto
  show "sylvan_ithvar S i \<noteq> sylvan_not S (sylvan_ithvar S j)" using v(1,4)[of "\<lambda>_. True"] by auto
qed

lemma ithvar_distinct:
  assumes "n \<le> nvars"
  shows "distinct (map (sylvan_ithvar S) [a..<n] @ map (\<lambda>i. sylvan_not S (sylvan_ithvar S i)) [a..<n])"
  using assms ithvar_inj by (auto simp: distinct_map inj_on_def)

end

section \<open>One field\<close>

definition label_list :: "sylvan \<Rightarrow> nat \<Rightarrow> nat \<Rightarrow> bdd list" where
  "label_list S w mx = map (sylvan_ithvar S) [mx - w..<mx]"

definition not_label_list :: "sylvan \<Rightarrow> nat \<Rightarrow> nat \<Rightarrow> bdd list" where
  "not_label_list S w mx = map (\<lambda>i. sylvan_not S (sylvan_ithvar S i)) [mx - w..<mx]"

definition info_ok :: "sylvan \<Rightarrow> mstate \<Rightarrow> nat \<Rightarrow> nat \<Rightarrow> nat \<Rightarrow> field_info \<Rightarrow> bool" where
  "info_ok S s f w mx fi \<longleftrightarrow> fi_field_id fi = f \<and> fi_bit_width fi = w \<and> fi_start_var fi = mx - w
     \<and> fi_bdd_vars fi = label_list S w mx \<and> fi_bdd_not_vars fi = not_label_list S w mx
     \<and> vars_made s f (fi_bdd_vars fi) (fi_bdd_not_vars fi) (fi_mtpndd_vars fi) (fi_mtpndd_not_vars fi)"

lemma info_ok_onward: "onward s s' \<Longrightarrow> info_ok S s f w mx fi \<Longrightarrow> info_ok S s' f w mx fi"
  using list_all2_onward by (auto simp: info_ok_def vars_made_def)

text \<open>The shared variables, between two fields.\<close>

definition shared_ok :: "sylvan \<Rightarrow> nat \<Rightarrow> nat \<Rightarrow> mstate \<Rightarrow> bool" where
  "shared_ok S mx n s \<longleftrightarrow> max_bit_width s = mx \<and> shared_bdd_vars s = map (sylvan_ithvar S) [0..<mx]
     \<and> shared_bdd_not_vars s = map (\<lambda>i. sylvan_not S (sylvan_ithvar S i)) [0..<mx]
     \<and> field_count s = n \<and> n < field_capacity s"

lemma shared_ok_setup: "fsetup s' = fsetup s \<Longrightarrow> shared_ok S mx n s' = shared_ok S mx n s"
  by (simp add: shared_ok_def fsetup_def)

lemma shared_slices:
  assumes "shared_ok S mx n s" "w \<le> mx"
  shows "take w (drop (mx - w) (shared_bdd_vars s)) = label_list S w mx"
    "take w (drop (mx - w) (shared_bdd_not_vars s)) = not_label_list S w mx"
  using assms by (simp_all add: shared_ok_def label_list_def not_label_list_def drop_map take_map drop_upt)

definition infos_put :: "nat \<Rightarrow> field_info \<Rightarrow> mstate \<Rightarrow> mstate" where
  "infos_put f fi s = s\<lparr>field_infos := (field_infos s)(f \<mapsto> fi)\<rparr>"

lemma idle_infos:
  assumes "idle S M s" shows "idle S M (infos_put f fi s)" "onward s (infos_put f fi s)"
    "tabled (infos_put f fi s) = tabled s"
proof -
  let ?s = "infos_put f fi s"
  have "same_heap s ?s" by (simp add: same_heap_def infos_put_def)
  then have "hinv S M {#} ?s \<and> keeps {#} s ?s" using hinv_same_heap assms by (auto simp: idle_def)
  then show "idle S M ?s" "onward s ?s" "tabled ?s = tabled s" using assms
    by (auto simp: idle_def ctx_ok_def caches_shape_def caches_empty_def pools_ready_def infos_put_def onward_def keeps_def)
qed

lemma idle_malloc:
  assumes i: "idle S M s" and m: "malloc n s = (p, s')"
  shows "step_ok S M s s'" "p = NULL \<longrightarrow> failed s'"
  using step_quiet[OF i malloc_quiet[OF m]] malloc_heap_only(2)[OF m] idle_ready[OF i] by (auto simp: heap_ready_def)

definition field_made :: "sylvan \<Rightarrow> bdd_model \<Rightarrow> nat \<Rightarrow> nat \<Rightarrow> nat \<Rightarrow> mstate \<Rightarrow> mstate \<Rightarrow> bool" where
  "field_made S M f w mx s s' \<longleftrightarrow> idle S M s' \<and> onward s s' \<and> tabled s' = insert f (tabled s)
     \<and> (\<exists>fi. fsetup s' = fsetup (infos_put f fi s) \<and> info_ok S s' f w mx fi)"

context sylvan_vars
begin

text \<open>The variable nodes of a field, made from the shared labels of the last \<open>w\<close> variables.\<close>
lemma make_field_vars:
  assumes i: "idle S M s" and f: "f \<in> tabled s" and w: "w \<le> mx" "mx \<le> nvars"
  shows "\<exists>r s'. make_vars S f (zip (label_list S w mx) (not_label_list S w mx)) [] [] s = Some (r, s')
     \<and> (case r of Inl _ \<Rightarrow> failed s'
        | Inr (V, N) \<Rightarrow> step_ok S M s s' \<and> vars_made s' f (label_list S w mx) (not_label_list S w mx) V N)"
proof -
  let ?ls = "zip (label_list S w mx) (not_label_list S w mx)"
  have len: "length (label_list S w mx) = length (not_label_list S w mx)" by (simp add: label_list_def not_label_list_def)
  have "proper S M a \<and> proper S M b" if "(a, b) \<in> set ?ls" for a b
    using set_zip_leftD[OF that] set_zip_rightD[OF that] ithvar_labels w by (auto simp: label_list_def not_label_list_def)
  then have pr: "\<forall>(a, b)\<in>set ?ls. proper S M a \<and> proper S M b" by blast
  have z: "[] @ map fst ?ls = label_list S w mx" "[] @ map snd ?ls = not_label_list S w mx" using len by simp_all
  have d: "distinct (([] @ map fst ?ls) @ [] @ map snd ?ls)"
    using ithvar_distinct[OF w(2)] len by (simp add: label_list_def not_label_list_def)
  have e0: "vars_made s f [] [] [] []" by (simp add: vars_made_def)
  show ?thesis using make_vars_spec[OF i f e0 pr d] unfolding z by blast
qed

text \<open>The information record of the field is written last, over the nodes it points to.\<close>
lemma field_made_infos:
  assumes v: "step_ok S M s7 s8" "vars_made s8 f (label_list S w mx) (not_label_list S w mx) V N"
    and s7: "onward s s7" "tabled s7 = insert f (tabled s)" "fsetup s7 = fsetup s"
  shows "field_made S M f w mx s (infos_put f \<lparr>fi_field_id = f, fi_bit_width = w, fi_start_var = mx - w,
           fi_bdd_vars = label_list S w mx, fi_bdd_not_vars = not_label_list S w mx,
           fi_mtpndd_vars = V, fi_mtpndd_not_vars = N\<rparr> s8)"
proof -
  let ?fi = "\<lparr>fi_field_id = f, fi_bit_width = w, fi_start_var = mx - w,
         fi_bdd_vars = label_list S w mx, fi_bdd_not_vars = not_label_list S w mx,
         fi_mtpndd_vars = V, fi_mtpndd_not_vars = N\<rparr>"
  note J = idle_infos[OF step_okD(1)[OF v(1)], of f ?fi]
  have "onward s (infos_put f ?fi s8)"
    using s7(1) step_okD(2)[OF v(1)] J(2) by (blast intro: onward_trans)
  moreover have "tabled (infos_put f ?fi s8) = insert f (tabled s)"
    using J(3) step_okD(3)[OF v(1)] s7(2) by simp
  moreover have "info_ok S (infos_put f ?fi s8) f w mx ?fi"
    by (rule info_ok_onward[OF J(2)]) (use v(2) in \<open>simp add: info_ok_def\<close>)
  moreover have "fsetup (infos_put f ?fi s8) = fsetup (infos_put f ?fi s)"
    using step_okD(4)[OF v(1)] s7(3) by (simp add: fsetup_def infos_put_def)
  ultimately show ?thesis using J(1) by (auto simp: field_made_def)
qed

lemma generate_field_spec:
  assumes i: "idle S M s" and f: "f \<notin> tabled s" "1 \<le> f" "f \<le> n" and sh: "shared_ok S mx n s"
    and w: "w \<le> mx" "mx \<le> nvars"
  shows "\<exists>r s'. generate_field S f w s = Some (r, s')
     \<and> (case r of Inl _ \<Rightarrow> failed s' | Inr _ \<Rightarrow> field_made S M f w mx s s')"
proof -
  obtain p1 s1 where m1: "malloc 48 s = (p1, s1)" by fastforce
  note M1 = idle_malloc[OF i m1] note i1 = step_okD(1)[OF M1(1)]
  obtain t s2 where t: "mtpndd_nodetable_declare_field s1 = (t, s2)" "quiet s1 s2"
    "case t of None \<Rightarrow> failed s2 | Some t \<Rightarrow> table_shape t \<and> tentries t = []" using declare_table_spec[OF i1] by blast
  note st2 = step_ok_trans[OF M1(1) step_quiet[OF i1 t(2)]]
  have mx: "max_bit_width s = mx" "field_count s = n" using sh by (simp_all add: shared_ok_def)
  show ?thesis
  proof (cases "p1 = NULL \<or> t = None")
    case True
    then have "generate_field S f w s = (if p1 = NULL then out_of_memory 337 s1 else out_of_memory 347 s2)"
      using m1 t(1) by (auto simp: generate_field_def Let_def)
    then show ?thesis using True M1(2) t(3) by (auto simp: out_of_memory_def)
  next
    case False
    then obtain u where u: "t = Some u" "table_shape u" "tentries u = []" using t(3) by auto
    let ?s3 = "set_table f u s2"
    have fc: "field_count s2 = n" "f \<notin> tabled s2" using step_okD(3,4)[OF st2] f(1) mx by (auto simp: fsetup_def)
    note T = new_table_step[OF step_okD(1)[OF st2] fc(2) f(2) _ u(2,3), unfolded fc(1), OF f(3)]
    obtain p4 s4 where m4: "malloc (w * 8) ?s3 = (p4, s4)" by fastforce
    note M4 = idle_malloc[OF T(1) m4]
    obtain p5 s5 where m5: "malloc (w * 8) s4 = (p5, s5)" by fastforce
    note M5 = idle_malloc[OF step_okD(1)[OF M4(1)] m5] note st5 = step_ok_trans[OF M4(1) M5(1)]
    obtain p6 s6 where m6: "malloc (w * 8) s5 = (p6, s6)" by fastforce
    note M6 = idle_malloc[OF step_okD(1)[OF st5] m6] note st6 = step_ok_trans[OF st5 M6(1)]
    obtain p7 s7 where m7: "malloc (w * 8) s6 = (p7, s7)" by fastforce
    note M7 = idle_malloc[OF step_okD(1)[OF st6] m7] note st7 = step_ok_trans[OF st6 M7(1)]
    have se: "fsetup s5 = fsetup s" "fsetup s7 = fsetup s" "fsetup s2 = fsetup s"
      using step_okD(4)[OF st2] step_okD(4)[OF st5] step_okD(4)[OF st7] by simp_all
    have sh5: "shared_ok S mx n s5" using sh shared_ok_setup[OF se(1)] by simp
    have f7: "f \<in> tabled s7" using T(3) step_okD(3)[OF st7] by simp
    have cap: "f < field_capacity s2" "mx - w + w \<le> length (shared_bdd_vars s5)" "mx - w + w \<le> length (shared_bdd_not_vars s5)"
      using sh sh5 se(3) f(3) w by (auto simp: shared_ok_def fsetup_def)
    let ?ls = "zip (label_list S w mx) (not_label_list S w mx)"
    obtain r s8 where r: "make_vars S f ?ls [] [] s7 = Some (r, s8)"
      "case r of Inl _ \<Rightarrow> failed s8
       | Inr (V, N) \<Rightarrow> step_ok S M s7 s8 \<and> vars_made s8 f (label_list S w mx) (not_label_list S w mx) V N"
      using make_field_vars[OF step_okD(1)[OF st7] f7 w] by blast
    have un: "generate_field S f w s = (if p4 = NULL \<or> p5 = NULL then out_of_memory 377 s5
        else if p6 = NULL \<or> p7 = NULL then out_of_memory 392 s7
        else case r of Inl err \<Rightarrow> Some (Inl err, s8)
          | Inr (vars, not_vars) \<Rightarrow> Some (Inr (), infos_put f \<lparr>fi_field_id = f, fi_bit_width = w, fi_start_var = mx - w,
               fi_bdd_vars = label_list S w mx, fi_bdd_not_vars = not_label_list S w mx,
               fi_mtpndd_vars = vars, fi_mtpndd_not_vars = not_vars\<rparr> s8))"
      using m1 m4 m5 m6 m7 t(1) u(1) cap r(1) False mx(1) shared_slices[OF sh5 w(1)]
      by (simp add: generate_field_def infos_put_def split: sum.splits)
    show ?thesis
    proof (cases "p4 = NULL \<or> p5 = NULL \<or> p6 = NULL \<or> p7 = NULL")
      case True
      then show ?thesis using M4(2) M5(2) M6(2) M7(2) step_okD(5)[OF M5(1)] step_okD(5)[OF M7(1)]
        unfolding un by (auto simp: out_of_memory_def)
    next
      case False
      show ?thesis
      proof (cases r)
        case (Inl e)
        then show ?thesis using False r(2) unfolding un by simp
      next
        case (Inr x)
        obtain V N where x: "x = (V, N)" by fastforce
        have "onward s s7" using step_okD(2)[OF st2] T(2) step_okD(2)[OF st7] by (blast intro: onward_trans)
        moreover have "tabled s7 = insert f (tabled s)" using step_okD(3)[OF st7] T(3) step_okD(3)[OF st2] by simp
        ultimately show ?thesis using field_made_infos[OF _ _ _ _ se(2)] r(2) False Inr x unfolding un by simp
      qed
    qed
  qed
qed

end

section \<open>All fields\<close>

text \<open>The first \<open>k\<close> of the fields \<open>W\<close> exist.\<close>

definition generated :: "sylvan \<Rightarrow> bdd_model \<Rightarrow> nat list \<Rightarrow> nat \<Rightarrow> nat \<Rightarrow> mstate \<Rightarrow> bool" where
  "generated S M W mx k s \<longleftrightarrow> idle S M s \<and> tabled s = {1..k} \<and> shared_ok S mx (length W) s \<and> \<not> fields_generated s \<and> stack s = []
     \<and> (\<forall>f. 1 \<le> f \<longrightarrow> f \<le> k \<longrightarrow> (\<exists>fi. field_infos s f = Some fi \<and> info_ok S s f (W ! (f - 1)) mx fi))"

context sylvan_vars
begin

lemma generated_step:
  assumes g: "generated S M W mx k s" and k: "k < length W" and W: "\<forall>w\<in>set W. w \<le> mx" "mx \<le> nvars"
  shows "\<exists>r s'. generate_field S (Suc k) (W ! k) s = Some (r, s')
     \<and> (case r of Inl _ \<Rightarrow> failed s' | Inr _ \<Rightarrow> generated S M W mx (Suc k) s')"
proof -
  note G = g[unfolded generated_def]
  have f: "Suc k \<notin> tabled s" "1 \<le> Suc k" "Suc k \<le> length W" "W ! k \<le> mx" using G k W(1) by auto
  obtain r s' where r: "generate_field S (Suc k) (W ! k) s = Some (r, s')"
    "case r of Inl _ \<Rightarrow> failed s' | Inr _ \<Rightarrow> field_made S M (Suc k) (W ! k) mx s s'"
    using generate_field_spec[OF _ f(1-3) _ f(4) W(2)] G by blast
  have "generated S M W mx (Suc k) s'" if "field_made S M (Suc k) (W ! k) mx s s'"
  proof -
    note F = that[unfolded field_made_def]
    obtain fi where fi: "fsetup s' = fsetup (infos_put (Suc k) fi s)" "info_ok S s' (Suc k) (W ! k) mx fi" using F by blast
    have inf: "field_infos s' = (field_infos s)(Suc k \<mapsto> fi)" "fields_generated s' = fields_generated s" "stack s' = stack s"
      using fi(1) by (simp_all add: fsetup_def infos_put_def)
    have "shared_ok S mx (length W) s' = shared_ok S mx (length W) s"
      using fi(1) by (simp add: shared_ok_def fsetup_def infos_put_def)
    moreover have "\<exists>fi. field_infos s' f = Some fi \<and> info_ok S s' f (W ! (f - 1)) mx fi" if f: "1 \<le> f" "f \<le> Suc k" for f
    proof (cases "f = Suc k")
      case False
      then obtain gi where "field_infos s f = Some gi" "info_ok S s f (W ! (f - 1)) mx gi" using G f by fastforce
      then show ?thesis using False inf(1) info_ok_onward F by auto
    qed (use inf(1) fi(2) in simp)
    moreover have "tabled s' = {1..Suc k}" using F G by auto
    ultimately show ?thesis using F G inf(2,3) by (simp add: generated_def)
  qed
  then show ?thesis using r by (auto split: sum.splits)
qed

lemma generate_loop_spec:
  assumes "generated S M (pre @ ws) mx (length pre) s" and W: "\<forall>w\<in>set (pre @ ws). w \<le> mx" "mx \<le> nvars"
  shows "\<exists>r s'. generate_loop S (enumerate (Suc (length pre)) ws) s = Some (r, s')
     \<and> (case r of Inl _ \<Rightarrow> failed s' | Inr _ \<Rightarrow> generated S M (pre @ ws) mx (length (pre @ ws)) s')"
  using assms
proof (induction ws arbitrary: pre s)
  case (Cons w ws)
  have nth: "(pre @ w # ws) ! length pre = w" by simp
  obtain r s1 where r: "generate_field S (Suc (length pre)) w s = Some (r, s1)"
    "case r of Inl _ \<Rightarrow> failed s1 | Inr _ \<Rightarrow> generated S M (pre @ w # ws) mx (Suc (length pre)) s1"
    using generated_step[OF Cons.prems(1) _ Cons.prems(2,3)] nth by auto
  show ?case
  proof (cases r)
    case (Inr u)
    have "generated S M ((pre @ [w]) @ ws) mx (length (pre @ [w])) s1" using r(2) Inr by simp
    moreover have "(pre @ [w]) @ ws = pre @ w # ws" by simp
    ultimately show ?thesis using Cons.IH[of "pre @ [w]" s1] Cons.prems(2,3) r(1) Inr
      by (simp only: generate_loop.simps enumerate_simps length_append_singleton Option.bind.bind_lunit prod.case sum.case)
  qed (use r in simp)
qed simp

end

section \<open>Declaration\<close>

definition declared :: "sylvan \<Rightarrow> bdd_model \<Rightarrow> nat list \<Rightarrow> mstate \<Rightarrow> bool" where
  "declared S M ws s \<longleftrightarrow> idle S M s \<and> field_count s = 0 \<and> node_tables_by_field s = Map.empty
     \<and> \<not> fields_generated s \<and> mtpndd_is_initialized s \<and> stack s = [] \<and> pending_field_count s = length ws
     \<and> length (pending_field_bit_widths s) = pending_field_capacity s \<and> length ws < pending_field_capacity s
     \<and> take (length ws) (pending_field_bit_widths s) = ws \<and> 0 < field_capacity s \<and> (\<forall>w\<in>set ws. 0 < w)"

lemma initialized_upd [simp]:
  "mtpndd_is_initialized (s\<lparr>c_heap_of := h\<rparr>) = mtpndd_is_initialized s"
  "mtpndd_is_initialized (s\<lparr>pending_field_count := n\<rparr>) = mtpndd_is_initialized s"
  "mtpndd_is_initialized (s\<lparr>pending_field_capacity := n\<rparr>) = mtpndd_is_initialized s"
  "mtpndd_is_initialized (s\<lparr>pending_field_bit_widths := ws\<rparr>) = mtpndd_is_initialized s"
  "mtpndd_is_initialized (s\<lparr>field_capacity := n\<rparr>) = mtpndd_is_initialized s"
  by (simp_all add: mtpndd_is_initialized_def)

lemma declared_initialized: "declared S M ws s \<Longrightarrow> mtpndd_is_initialized s"
  by (simp add: declared_def)

lemma declared_idle:
  assumes d: "declared S M ws s" and h: "heap_only s s'" and i: "idle S M s'"
  shows "declared S M ws s'"
  using assms by (auto simp: declared_def heap_only_def)

lemma idle_widths: "idle S M s \<Longrightarrow> idle S M (s\<lparr>pending_field_bit_widths := a, pending_field_count := b, pending_field_capacity := c\<rparr>)"
proof -
  let ?s = "s\<lparr>pending_field_bit_widths := a, pending_field_count := b, pending_field_capacity := c\<rparr>"
  assume i: "idle S M s"
  have "same_heap s ?s" by (simp add: same_heap_def)
  then have "hinv S M {#} ?s" using hinv_same_heap i by (auto simp: idle_def)
  then show ?thesis using i by (simp add: idle_def ctx_ok_def caches_shape_def caches_empty_def pools_ready_def)
qed

lemma take_update: "n < length xs \<Longrightarrow> take (Suc n) (xs[n := x]) = take n xs @ [x]"
  by (simp add: take_Suc_conv_app_nth)

lemma declare_field_spec:
  assumes d: "declared S M ws s" and w: "0 < w" and n: "Suc (length ws) < 2 ^ 31"
  shows "\<exists>st s'. mtpndd_declare_field w s = Some (st, s')
     \<and> (if st = MTPNDD_SUCCESS then declared S M (ws @ [w]) s' else failed s')"
proof -
  note D = d[unfolded declared_def]
  define n where "n = Suc (length ws)"
  define old where "old = pending_field_capacity s"
  have nb: "n mod 2 ^ 32 = n" "n * 2 mod 2 ^ 32 = n * 2" using assms(3) by (simp_all add: n_def)
  have le: "n \<le> old" using D by (simp add: n_def old_def)
  let ?s = "s\<lparr>pending_field_count := n\<rparr>"
  have upd: "declared S M (ws @ [w]) (t\<lparr>pending_field_bit_widths := xs[length ws := w]\<rparr>)"
    if "heap_only s t'" "idle S M t'" "length xs = pending_field_capacity t" "n < length xs" "take (length ws) xs = ws"
      "t = t'\<lparr>pending_field_count := n, pending_field_capacity := c\<rparr>" for t t' xs c
  proof -
    note D' = declared_idle[OF d that(1,2), unfolded declared_def]
    have e: "t\<lparr>pending_field_bit_widths := xs[length ws := w]\<rparr>
        = t'\<lparr>pending_field_bit_widths := xs[length ws := w], pending_field_count := n, pending_field_capacity := c\<rparr>"
      using that(6) by simp
    have "take n (xs[length ws := w]) = ws @ [w]" using take_update[of "length ws" xs w] that(4,5) by (simp add: n_def)
    then show ?thesis unfolding e using idle_widths[OF that(2)] D' that(3,4,6) w by (simp add: declared_def n_def)
  qed
  have ini: "mtpndd_is_initialized s" "fields_generated s = False" "pending_field_count s = length ws"
    using declared_initialized[OF d] D by simp_all
  show ?thesis
  proof (cases "old = n")
    case False
    have "mtpndd_declare_field w s = Some (MTPNDD_SUCCESS, ?s\<lparr>pending_field_bit_widths := (pending_field_bit_widths s)[length ws := w]\<rparr>)"
      using ini w False le nb(1) D by (simp add: mtpndd_declare_field_def Let_def n_def old_def)
    moreover have "declared S M (ws @ [w]) (?s\<lparr>pending_field_bit_widths := (pending_field_bit_widths s)[length ws := w]\<rparr>)"
      by (rule upd[of s, where c = "pending_field_capacity s"]) (use D False le in \<open>simp_all add: old_def\<close>)
    ultimately show ?thesis by auto
  next
    case True
    obtain p s1 where m: "malloc (n * 2 * 4) s = (p, s1)" by fastforce
    have m': "malloc (n * 2 * 4) ?s = (p, s1\<lparr>pending_field_count := n\<rparr>)"
      using m by (auto simp: malloc_def split: prod.splits)
    have i: "idle S M s" using D by simp
    note ho = malloc_heap_only(1)[OF m] and im = idle_malloc[OF i m]
    let ?xs = "take (n * 2) (pending_field_bit_widths s @ replicate (n * 2 - old) 0)"
    let ?t = "s1\<lparr>pending_field_count := n, pending_field_capacity := n * 2\<rparr>"
    have sn: "Suc (length ws) = n" "n - Suc 0 = length ws" "0 < n" "\<not> n * 2 \<le> n" by (simp_all add: n_def)
    have s1: "pending_field_bit_widths s1 = pending_field_bit_widths s" "length (pending_field_bit_widths s) = n"
      "pending_field_capacity s = n" using ho D True by (auto simp: heap_only_def old_def)
    have len: "length ws < n * 2" by (simp add: n_def)
    have "mtpndd_declare_field w s = Some (if p = NULL
        then return_error MTPNDD_ERROR_OUT_OF_MEMORY ''mtpndd_declare_field'' 246 (s1\<lparr>pending_field_count := n\<rparr>)
        else (MTPNDD_SUCCESS, ?t\<lparr>pending_field_bit_widths := ?xs[length ws := w]\<rparr>))"
      using ini w nb sn s1 m' True len by (simp add: mtpndd_declare_field_def Let_def)
    moreover have "declared S M (ws @ [w]) (?t\<lparr>pending_field_bit_widths := ?xs[length ws := w]\<rparr>)"
      by (rule upd[OF ho step_okD(1)[OF im(1)]]) (use D True in \<open>auto simp: old_def n_def\<close>)
    ultimately show ?thesis using im(2) by (auto simp: return_error_def)
  qed
qed

section \<open>Generation\<close>

lemma idle_same:
  assumes i: "idle S M s" and h: "same_heap s s'"
    and c: "and_cache s' = and_cache s" "or_cache s' = or_cache s" "not_cache s' = not_cache s" "gc_running s' = gc_running s"
      "pools_ready s \<longrightarrow> pools_ready s'"
  shows "idle S M s'"
proof -
  have "hinv S M {#} s'" using hinv_same_heap[OF _ h] i by (auto simp: idle_def)
  then show ?thesis using i c by (simp add: idle_def ctx_ok_def caches_shape_def caches_empty_def)
qed

text \<open>Setting the number of fields while there is no table.\<close>

lemma idle_field_count:
  assumes i: "idle S M s" and t: "node_tables_by_field s = Map.empty" and n: "n < MTPNDD_LEAF_FIELD_ID_MIN"
  shows "idle S M (s\<lparr>field_count := n\<rparr>)" "tabled (s\<lparr>field_count := n\<rparr>) = {}"
proof -
  let ?s = "s\<lparr>field_count := n\<rparr>"
  have tb: "tabled s = {}" "tabled ?s = {}" using t by (simp_all add: tabled_def)
  have nd: "nodes ?s = nodes s" by simp
  note ct = content_nodes[OF nd]
  have h: "hinv S M {#} s" using i by (simp add: idle_def)
  have "node_wf S M ?s x" if "content s p = Some x" for p x
  proof -
    have "node_wf S M s x" using hinvD(1)[OF h] that unfolding sinv_def by blast
    then show ?thesis using tb by (cases x) (auto simp: node_wf_def split: node_body.splits)
  qed
  moreover have "tables_ok ?s" using tb by (simp add: tables_ok_def)
  ultimately have "sinv S M ?s" using hinvD(1)[OF h] n
    by (simp add: sinv_def ct sentinels_ok_def unique_nodes_def leaf_tables_ok_def leaf_table_of_def leaf_table_wf_def)
  moreover have "rinv ?s" by (rule rinv_cong[OF nd]) (use hinvD(3)[OF h] in simp_all)
  ultimately have "hinv S M {#} ?s" using h refs_ok_cong[OF nd] by (simp add: hinv_def)
  then show "idle S M ?s" using i by (simp add: idle_def ctx_ok_def caches_shape_def caches_empty_def pools_ready_def)
  show "tabled ?s = {}" by (rule tb(2))
qed

lemma declared_malloc:
  assumes d: "declared S M ws s" and m: "malloc n s = (p, s')"
  shows "declared S M ws s'" "p = NULL \<longrightarrow> failed s'" "fsetup s' = fsetup s"
proof -
  have i: "idle S M s" using d by (simp add: declared_def)
  note k = idle_malloc[OF i m]
  show "declared S M ws s'" by (rule declared_idle[OF d malloc_heap_only(1)[OF m] step_okD(1)[OF k(1)]])
  show "p = NULL \<longrightarrow> failed s'" by (rule k(2))
  show "fsetup s' = fsetup s" by (rule malloc_setup[OF m])
qed

lemma grow_field_arrays_spec:
  assumes d: "declared S M ws s" and n: "Suc (length ws) < 2 ^ 32"
  shows "\<exists>st s'. grow_field_arrays s = (st, s')
     \<and> (if st = MTPNDD_SUCCESS then declared S M ws s' \<and> length ws < field_capacity s' else failed s')"
proof -
  let ?r = "Suc (length ws)"
  obtain p s1 where m1: "malloc (?r * 8) s = (p, s1)" by fastforce
  note d1 = declared_malloc[OF d m1]
  obtain q s2 where m2: "malloc (?r * 8) s1 = (q, s2)" by fastforce
  note d2 = declared_malloc[OF d1(1) m2]
  have sh: "same_heap s2 (s2\<lparr>field_capacity := ?r\<rparr>)" by (simp add: same_heap_def)
  have "idle S M (s2\<lparr>field_capacity := ?r\<rparr>)"
    by (rule idle_same[OF _ sh]) (use d2(1) in \<open>simp_all add: declared_def pools_ready_def\<close>)
  then have "declared S M ws (s2\<lparr>field_capacity := ?r\<rparr>)" using d2(1) by (simp add: declared_def)
  moreover have "pending_field_count s = length ws" using d by (simp add: declared_def)
  ultimately show ?thesis using d d1(2) d2(2) m1 m2 n by (auto simp: grow_field_arrays_def Let_def return_error_def)
qed

definition with_shared :: "sylvan \<Rightarrow> nat \<Rightarrow> syl_event list \<Rightarrow> mstate \<Rightarrow> mstate" where
  "with_shared S mx lg s = s\<lparr>max_bit_width := mx, shared_bdd_vars := map (sylvan_ithvar S) [0..<mx],
     shared_bdd_not_vars := map (\<lambda>i. sylvan_not S (sylvan_ithvar S i)) [0..<mx], syl_log := lg\<rparr>"

lemma make_shared_vars_spec:
  assumes d: "declared S M ws s"
  shows "\<exists>st t s'. make_shared_vars S mx s = (st, s')
     \<and> (if st = MTPNDD_SUCCESS
        then declared S M ws t \<and> field_capacity t = field_capacity s \<and> (\<exists>lg. s' = with_shared S mx lg t) else failed s')"
proof -
  obtain p s1 where m1: "malloc (mx * 8) s = (p, s1)" by fastforce
  note d1 = declared_malloc[OF d m1]
  obtain q s2 where m2: "malloc (mx * 8) s1 = (q, s2)" by fastforce
  note d2 = declared_malloc[OF d1(1) m2]
  have u: "malloc n t = (x, t') \<Longrightarrow> malloc n (t\<lparr>max_bit_width := mx\<rparr>) = (x, t'\<lparr>max_bit_width := mx\<rparr>)" for n t x t'
    by (auto simp: malloc_def split: prod.splits)
  let ?lg = "rev (map SylProtect (interleave (map (sylvan_ithvar S) [0..<mx])
      (map (\<lambda>i. sylvan_not S (sylvan_ithvar S i)) [0..<mx]))) @ syl_log s2"
  have e: "make_shared_vars S mx s = (if p = NULL \<or> q = NULL
      then return_error MTPNDD_ERROR_OUT_OF_MEMORY ''mtpndd_generate_fields'' 318 (s2\<lparr>max_bit_width := mx\<rparr>)
      else (MTPNDD_SUCCESS, with_shared S mx ?lg s2))"
    by (simp add: make_shared_vars_def u[OF m1] u[OF m2] with_shared_def Let_def comp_def)
  have "field_capacity s2 = field_capacity s" using d1(3) d2(3) by (simp add: fsetup_def)
  moreover have "p = NULL \<longrightarrow> failed s2"
    using d1(2) malloc_heap_only(1)[OF m2] by (auto simp: heap_only_def)
  ultimately show ?thesis unfolding e using d2(1,2) by (auto simp: return_error_def)
qed

text \<open>What the accessors rely on.\<close>

definition fields_ready :: "sylvan \<Rightarrow> bdd_model \<Rightarrow> nat list \<Rightarrow> mstate \<Rightarrow> bool" where
  "fields_ready S M W s \<longleftrightarrow> idle S M s \<and> stack s = [] \<and> field_count s = length W \<and> tabled s = {1..length W}
     \<and> (\<forall>f. 1 \<le> f \<longrightarrow> f \<le> length W \<longrightarrow>
          (\<exists>fi. field_infos s f = Some fi \<and> info_ok S s f (W ! (f - 1)) (fold max W 0) fi))"

lemma fold_max_ge: "(a :: nat) \<le> fold max W a" "w \<in> set W \<Longrightarrow> w \<le> fold max W a"
proof (induction W arbitrary: a)
  case (Cons x W)
  { case 1 show ?case using Cons(1)[of "max x a"] by simp }
  { case 2 then show ?case using Cons(1)[of "max x a"] Cons(2)[of "max x a"] by auto }
qed simp_all

lemma fold_max_le: "a \<le> (n :: nat) \<Longrightarrow> \<forall>w\<in>set W. w \<le> n \<Longrightarrow> fold max W a \<le> n"
  by (induction W arbitrary: a) simp_all

context sylvan_vars
begin

text \<open>The last statement of the set-up sets the flag that all other operations test.\<close>
lemma generated_ready:
  assumes gen: "generated S M W mx (length W) s" and mx: "mx = fold max W 0"
  shows "fields_ready S M W (s\<lparr>fields_generated := True\<rparr>)"
proof -
  let ?s = "s\<lparr>fields_generated := True\<rparr>"
  note G = gen[unfolded generated_def]
  have sh: "same_heap s ?s" by (simp add: same_heap_def)
  have i5: "idle S M ?s" by (rule idle_same[OF _ sh]) (use G in \<open>simp_all add: pools_ready_def\<close>)
  have ow: "onward s ?s" using hinv_same_heap[OF _ sh] G by (auto simp: onward_def idle_def keeps_def)
  have tb: "tabled ?s = tabled s" by (simp add: tabled_def)
  have fc: "field_count ?s = length W" using G by (simp add: shared_ok_def)
  have "\<exists>fi. field_infos ?s f = Some fi \<and> info_ok S ?s f (W ! (f - 1)) mx fi" if "1 \<le> f" "f \<le> length W" for f
    using G that info_ok_onward[OF ow] by fastforce
  then show ?thesis using i5 tb fc G mx by (simp add: fields_ready_def)
qed

text \<open>With the shared variables in place and the number of fields set, the loop can start.\<close>
lemma shared_generated:
  assumes t: "declared S M W t" "length W < field_capacity t" and W: "length W < 2 ^ 31"
    and s: "s = with_shared S mx lg t"
  shows "generated S M W mx 0 (s\<lparr>field_count := pending_field_count s\<rparr>)"
    and "\<not> fields_generated s"
proof -
  have sh: "same_heap t s" by (simp add: s same_heap_def with_shared_def)
  have i2: "idle S M s" by (rule idle_same[OF _ sh]) (use t s in \<open>simp_all add: declared_def pools_ready_def with_shared_def\<close>)
  have p2: "pending_field_count s = length W" "node_tables_by_field s = Map.empty" "\<not> fields_generated s" "stack s = []"
    using t s by (simp_all add: declared_def with_shared_def)
  have "length W < MTPNDD_LEAF_FIELD_ID_MIN"
    using W by (simp add: MTPNDD_LEAF_FIELD_ID_MIN_def MTPNDD_DOUBLE_LEAF_FIELD_ID_def MTPNDD_FRACTION_LEAF_FIELD_ID_def)
  note i3 = idle_field_count[OF i2 p2(2) this]
  have "shared_ok S mx (length W) (s\<lparr>field_count := pending_field_count s\<rparr>)"
    using t p2 s by (simp add: shared_ok_def with_shared_def)
  then show "generated S M W mx 0 (s\<lparr>field_count := pending_field_count s\<rparr>)" using i3 p2 by (simp add: generated_def)
  show "\<not> fields_generated s" by (rule p2(3))
qed

lemma generate_fields_spec:
  assumes d: "declared S M W s" and W: "W \<noteq> []" "length W < 2 ^ 31" "\<forall>w\<in>set W. w \<le> nvars"
  shows "\<exists>st s'. mtpndd_generate_fields S s = Some (st, s')
     \<and> (if fields_generated s' then st = MTPNDD_SUCCESS \<and> fields_ready S M W s' else failed s')"
proof -
  let ?mx = "fold max W 0"
  obtain st1 s1 where s1: "grow_field_arrays s = (st1, s1)"
    "if st1 = MTPNDD_SUCCESS then declared S M W s1 \<and> length W < field_capacity s1 else failed s1"
    using grow_field_arrays_spec[OF d] W(2) by auto
  have ini: "mtpndd_is_initialized s" "\<not> fields_generated s" "pending_field_count s = length W"
    using declared_initialized[OF d] d by (simp_all add: declared_def)
  show ?thesis
  proof (cases "st1 = MTPNDD_SUCCESS")
    case False
    have "fields_generated s1 = fields_generated s"
      using s1(1) by (auto simp: grow_field_arrays_def Let_def malloc_def return_error_def mtpndd_set_error_def
          split: prod.splits if_splits)
    then show ?thesis using False s1 ini W(1) by (simp add: mtpndd_generate_fields_def)
  next
    case True
    have d1: "declared S M W s1" "length W < field_capacity s1" using s1(2) True by simp_all
    have w1: "pending_field_count s1 \<le> length (pending_field_bit_widths s1)"
      "take (pending_field_count s1) (pending_field_bit_widths s1) = W" "\<not> fields_generated s1"
      using d1(1) by (auto simp: declared_def)
    obtain st2 t s2 where s2: "make_shared_vars S ?mx s1 = (st2, s2)"
      "if st2 = MTPNDD_SUCCESS then declared S M W t \<and> field_capacity t = field_capacity s1
         \<and> (\<exists>lg. s2 = with_shared S ?mx lg t) else failed s2" using make_shared_vars_spec[OF d1(1)] by blast
    show ?thesis
    proof (cases "st2 = MTPNDD_SUCCESS")
      case False
      have "fields_generated s2 = fields_generated s1"
        using s2(1) by (auto simp: make_shared_vars_def Let_def malloc_def return_error_def mtpndd_set_error_def
            split: prod.splits if_splits)
      then show ?thesis using False True s1(1) s2 ini W(1) w1 by (simp add: mtpndd_generate_fields_def)
    next
      case ok: True
      obtain lg where t: "declared S M W t" "field_capacity t = field_capacity s1" "s2 = with_shared S ?mx lg t"
        using s2(2) ok by auto
      let ?s3 = "s2\<lparr>field_count := pending_field_count s2\<rparr>"
      note g = shared_generated[OF t(1) _ W(2) t(3), unfolded t(2), OF d1(2)]
      have le: "\<forall>w\<in>set W. w \<le> ?mx" "?mx \<le> nvars" using fold_max_ge(2) fold_max_le W(3) by auto
      obtain r s4 where r: "generate_loop S (enumerate 1 W) ?s3 = Some (r, s4)"
        "case r of Inl _ \<Rightarrow> failed s4 | Inr _ \<Rightarrow> generated S M W ?mx (length W) s4"
        using generate_loop_spec[where pre = "[]", unfolded append_Nil list.size(3) One_nat_def[symmetric], OF g(1) le] by blast
      have ng: "\<not> fields_generated s4" using generate_loop_flag[OF r(1)] g(2) by simp
      let ?s5 = "s4\<lparr>fields_generated := True\<rparr>"
      have un: "mtpndd_generate_fields S s = (case r of Inl err \<Rightarrow> Some (err, s4) | Inr _ \<Rightarrow> Some (MTPNDD_SUCCESS, ?s5))"
        using s1(1) True s2(1) ok ini W(1) w1 r(1) by (simp add: mtpndd_generate_fields_def)
      show ?thesis unfolding un using r(2) ng generated_ready by (cases r) auto
    qed
  qed
qed

end

section \<open>The accessors\<close>

lemma vars_made_nth:
  assumes "vars_made s f vs nvs vars nots" "i < length vs" "length nvs = length vs"
  shows "var_at s f (vs ! i) (vars ! i)" "var_at s f (nvs ! i) (nots ! i)" "i < length vars" "i < length nots"
  using assms by (auto simp: vars_made_def list_all2_conv_all_nth)

lemma get_var_ready:
  assumes r: "fields_ready S M W s" and f: "1 \<le> f" "f \<le> length W" and i: "i < W ! (f - 1)"
  shows "\<exists>p q. mtpndd_get_var f i s = Some (p, s) \<and> mtpndd_get_not_var f i s = Some (q, s)
     \<and> var_at s f (sylvan_ithvar S (fold max W 0 - W ! (f - 1) + i)) p
     \<and> var_at s f (sylvan_not S (sylvan_ithvar S (fold max W 0 - W ! (f - 1) + i))) q"
proof -
  let ?mx = "fold max W 0" let ?w = "W ! (f - 1)"
  have ini: "mtpndd_is_initialized s" using r f by (auto simp: fields_ready_def mtpndd_is_initialized_def Let_def)
  have w: "?w \<le> ?mx" by (rule fold_max_ge(2)) (use f in simp)
  obtain fi where fi: "field_infos s f = Some fi" "info_ok S s f ?w ?mx fi" using r f by (auto simp: fields_ready_def)
  have len: "length (label_list S ?w ?mx) = ?w" "length (not_label_list S ?w ?mx) = ?w"
    using w by (simp_all add: label_list_def not_label_list_def)
  have "vars_made s f (label_list S ?w ?mx) (not_label_list S ?w ?mx) (fi_mtpndd_vars fi) (fi_mtpndd_not_vars fi)"
    "fi_bit_width fi = ?w" using fi(2) by (auto simp: info_ok_def)
  note V = vars_made_nth[OF this(1), of i] and bw = this(2)
  have lab: "label_list S ?w ?mx ! i = sylvan_ithvar S (?mx - ?w + i)"
    "not_label_list S ?w ?mx ! i = sylvan_not S (sylvan_ithvar S (?mx - ?w + i))"
    using i w by (simp_all add: label_list_def not_label_list_def)
  have fc: "\<not> field_count s < f" using r f by (simp add: fields_ready_def)
  have "mtpndd_get_var f i s = Some (fi_mtpndd_vars fi ! i, s)" "mtpndd_get_not_var f i s = Some (fi_mtpndd_not_vars fi ! i, s)"
    using ini fc fi(1) bw i V(3,4) len f(1)
    by (simp_all add: mtpndd_get_var_def mtpndd_get_not_var_def get_field_var_def)
  then show ?thesis using V(1,2) len lab i by simp
qed

context sylvan_vars
begin

lemma ready_vars:
  assumes r: "fields_ready S M W s" and f: "1 \<le> f" "f \<le> length W" "i < W ! (f - 1)" and W: "\<forall>w\<in>set W. w \<le> nvars"
  shows "\<exists>p q. mtpndd_get_var f i s = Some (p, s) \<and> mtpndd_get_not_var f i s = Some (q, s)
     \<and> live {#} s p \<and> live {#} s q \<and> boolean s p \<and> boolean s q
     \<and> (\<forall>env. holds M s env p \<longleftrightarrow> env f (fold max W 0 - W ! (f - 1) + i))
     \<and> (\<forall>env. holds M s env q \<longleftrightarrow> \<not> env f (fold max W 0 - W ! (f - 1) + i))"
proof -
  let ?k = "fold max W 0 - W ! (f - 1) + i"
  have "W ! (f - 1) \<le> fold max W 0" "fold max W 0 \<le> nvars"
    using f W fold_max_ge(2)[of "W ! (f - 1)" W 0] fold_max_le[of 0 nvars W] by auto
  then have k: "?k < nvars" using f by simp
  obtain p q where pq: "mtpndd_get_var f i s = Some (p, s)" "mtpndd_get_not_var f i s = Some (q, s)"
    "var_at s f (sylvan_ithvar S ?k) p" "var_at s f (sylvan_not S (sylvan_ithvar S ?k)) q"
    using get_var_ready[OF r f] by blast
  have si: "sinv S M s" using r hinvD(1) by (auto simp: fields_ready_def idle_def)
  show ?thesis using pq(1,2) var_at_sem[OF si pq(3)] var_at_sem[OF si pq(4)] k by simp
qed

end

section \<open>Bringing the library up\<close>

text \<open>A client declares its fields one after the other and stops at the first error.\<close>

fun declare_fields :: "nat list \<Rightarrow> mstate \<Rightarrow> (mtpndd_error \<times> mstate) option" where
  "declare_fields [] s = Some (MTPNDD_SUCCESS, s)"
| "declare_fields (w # ws) s = do {
     (st, s) \<leftarrow> mtpndd_declare_field w s;
     if st \<noteq> MTPNDD_SUCCESS then Some (st, s) else declare_fields ws s
   }"

lemma warm_declared:
  assumes "warm S M s" shows "declared S M [] s"
proof -
  obtain cfg where b: "boot cfg s" using assms by (auto simp: warm_def)
  then show ?thesis using assms b cinvD(1)
    by (auto simp: declared_def idle_def warm_def boot_def DEFAULT_FIELD_CAPACITY_def)
qed

lemma declare_fields_spec:
  assumes "declared S M pre s" and "\<forall>w\<in>set ws. 0 < w" and "length (pre @ ws) < 2 ^ 31"
  shows "\<exists>st s'. declare_fields ws s = Some (st, s')
     \<and> (if st = MTPNDD_SUCCESS then declared S M (pre @ ws) s' else failed s')"
  using assms
proof (induction ws arbitrary: pre s)
  case (Cons w ws)
  obtain st s1 where s1: "mtpndd_declare_field w s = Some (st, s1)"
    "if st = MTPNDD_SUCCESS then declared S M (pre @ [w]) s1 else failed s1"
    using declare_field_spec[OF Cons.prems(1), of w] Cons.prems(2,3) by auto
  show ?case
  proof (cases "st = MTPNDD_SUCCESS")
    case True
    then have d: "declared S M (pre @ [w]) s1" using s1(2) by simp
    have eq: "(pre @ [w]) @ ws = pre @ w # ws" by simp
    have "\<exists>st s'. declare_fields ws s1 = Some (st, s')
        \<and> (if st = MTPNDD_SUCCESS then declared S M (pre @ w # ws) s' else failed s')"
      by (rule Cons.IH[OF d, unfolded eq, OF _ Cons.prems(3)]) (use Cons.prems(2) in simp)
    moreover have "declare_fields (w # ws) s = declare_fields ws s1" using s1(1) True by simp
    ultimately show ?thesis by (simp only:)
  qed (use s1 in simp)
qed simp

definition bring_up :: "sylvan \<Rightarrow> (int \<Rightarrow> nat \<Rightarrow> nat) \<Rightarrow> pal_config \<Rightarrow> nat list \<Rightarrow> mstate \<Rightarrow> (mtpndd_error \<times> mstate) option" where
  "bring_up S lace_start config ws s = do {
     (st, s) \<leftarrow> mtpndd_init lace_start (Some config) s;
     if st \<noteq> MTPNDD_SUCCESS then Some (st, s)
     else do {
       (st, s) \<leftarrow> declare_fields ws s;
       if st \<noteq> MTPNDD_SUCCESS then Some (st, s) else mtpndd_generate_fields S s
     }
   }"

context sylvan_vars
begin

lemma bring_up_spec:
  assumes c: "cold s" and k: "config_ok config" "edge_bucket_count config \<le> 2 ^ 60" "slabs_fit config"
    and W: "W \<noteq> []" "length W < 2 ^ 31" "\<forall>w\<in>set W. 0 < w \<and> w \<le> nvars"
  shows "\<exists>st s'. bring_up S L config W s = Some (st, s') \<and> (failed s' \<or> st = MTPNDD_SUCCESS \<and> fields_ready S M W s')"
proof -
  obtain st1 s1 where s1: "mtpndd_init L (Some config) s = Some (st1, s1)"
    "if st1 = MTPNDD_SUCCESS then warm S M s1 else failed s1" using init_spec[OF c k] by blast
  show ?thesis
  proof (cases "st1 = MTPNDD_SUCCESS")
    case True
    then have d1: "declared S M [] s1" using s1(2) warm_declared by simp
    obtain st2 s2 where s2: "declare_fields W s1 = Some (st2, s2)"
      "if st2 = MTPNDD_SUCCESS then declared S M W s2 else failed s2"
      using declare_fields_spec[OF d1, of W, unfolded append_Nil] W by blast
    show ?thesis
    proof (cases "st2 = MTPNDD_SUCCESS")
      case ok: True
      then have d2: "declared S M W s2" using s2(2) by simp
      obtain st3 s3 where s3: "mtpndd_generate_fields S s2 = Some (st3, s3)"
        "if fields_generated s3 then st3 = MTPNDD_SUCCESS \<and> fields_ready S M W s3 else failed s3"
        using generate_fields_spec[OF d2 W(1,2)] W(3) by blast
      show ?thesis using True ok s1(1) s2(1) s3 by (auto simp: bring_up_def split: if_splits)
    qed (use True s1 s2 in \<open>simp add: bring_up_def\<close>)
  qed (use s1 in \<open>simp add: bring_up_def\<close>)
qed

end

end
