(* ===== verification/Engine_Quit.thy ===== *)
theory Engine_Quit
  imports Engine_Vars
begin

text \<open>
  \<open>mtpndd_quit\<close>: it frees the variable nodes of every field, whatever diagrams still exist, and ends
  in a state from which \<open>mtpndd_init\<close> can start again.
\<close>

section \<open>Freeing nodes\<close>

definition freed :: "mstate \<Rightarrow> mstate \<Rightarrow> bool" where
  "freed s s' \<longleftrightarrow> fsetup s' = fsetup s \<and> gc_running s' = gc_running s
     \<and> brk (c_heap_of s) \<le> brk (c_heap_of s') \<and> mem_limit (c_heap_of s') = mem_limit (c_heap_of s)"

lemma freed_refl [simp]: "freed s s"
  by (simp add: freed_def)

lemma freed_trans: "freed s t \<Longrightarrow> freed t u \<Longrightarrow> freed s u"
  by (auto simp: freed_def)

lemma quiet_freed: "quiet s s' \<Longrightarrow> freed s s'"
  using quiet_setup[of s s'] by (cases s; cases s') (simp add: freed_def quiet_def)

lemma release_freed: "freed s (mtpndd_memory_release_node p s)"
  using release_setup(1)[of p s] by (simp add: freed_def) (simp add: mtpndd_memory_release_node_def)

text \<open>The nodes in \<open>ps\<close> are as they were in \<open>s0\<close>, a state that satisfies the invariant.\<close>

definition still :: "mstate \<Rightarrow> ptr list \<Rightarrow> mstate \<Rightarrow> bool" where
  "still s0 ps s \<longleftrightarrow> (\<forall>p\<in>set ps. p \<noteq> NULL \<and> nodes s p = nodes s0 p \<and> (\<exists>m. node_edges s0 p = Some m \<and> wf_map s0 m))"

lemma free_var_nodes_spec:
  assumes "distinct ps" and "still s0 ps s"
  shows "\<exists>s'. iter_state free_var_node ps s = Some s' \<and> freed s s' \<and> (\<forall>q. q \<notin> set ps \<longrightarrow> nodes s' q = nodes s q)"
  using assms
proof (induction ps arbitrary: s)
  case (Cons p ps)
  obtain m where m: "p \<noteq> NULL" "nodes s p = nodes s0 p" "node_edges s0 p = Some m" "wf_map s0 m"
    using Cons.prems(2) by (auto simp: still_def)
  obtain s1 where s1: "mtpndd_edge_map_free m s = Some s1" "quiet s s1"
    using edge_map_free_spec[OF m(4), of s] by (auto simp: succeeds_iff)
  let ?s = "mtpndd_memory_release_node p s1"
  have "node_edges s p = Some m" using m(2,3) by (simp add: node_edges_def)
  then have e: "free_var_node p s = Some ?s" using m(1) s1(1) by (simp add: free_var_node_def)
  have n: "nodes ?s q = nodes s q" if "q \<noteq> p" for q
    using that quiet_fields(1)[OF s1(2)] by (simp add: mtpndd_memory_release_node_def)
  then have "nodes ?s q = nodes s q" if "q \<in> set ps" for q using that Cons.prems(1) by (metis distinct.simps(2))
  then have "still s0 ps ?s" using Cons.prems(2) by (simp add: still_def)
  from Cons.IH[OF _ this] Cons.prems(1) obtain s' where s': "iter_state free_var_node ps ?s = Some s'" "freed ?s s'"
    "\<forall>q. q \<notin> set ps \<longrightarrow> nodes s' q = nodes ?s q" by auto
  have "freed s s'" using quiet_freed[OF s1(2)] release_freed[of s1 p] s'(2) by (blast intro: freed_trans)
  then show ?case using e s'(1,3) n by auto
qed simp

section \<open>Fields\<close>

text \<open>All fields are generated and their variable nodes still exist.\<close>

definition fields_live :: "sylvan \<Rightarrow> bdd_model \<Rightarrow> nat \<Rightarrow> mstate \<Rightarrow> bool" where
  "fields_live S M nvars s \<longleftrightarrow> (\<forall>f. 1 \<le> f \<longrightarrow> f \<le> field_count s \<longrightarrow>
     (\<exists>fi w mx. field_infos s f = Some fi \<and> info_ok S s f w mx fi \<and> w \<le> mx \<and> mx \<le> nvars))"

lemma fields_liveE:
  assumes "fields_live S M nvars s" "1 \<le> f" "f \<le> field_count s"
  obtains fi w mx where "field_infos s f = Some fi" "info_ok S s f w mx fi" "w \<le> mx" "mx \<le> nvars"
  using assms unfolding fields_live_def by blast

lemma fields_liveD:
  assumes "fields_live S M nvars s" "1 \<le> f" "f \<le> field_count s" "field_infos s f = Some fi"
  obtains w mx where "info_ok S s f w mx fi" "w \<le> mx"
  using fields_liveE[OF assms(1-3)] assms(4) by (metis option.inject)

definition var_nodes :: "field_info \<Rightarrow> ptr list" where
  "var_nodes fi = fi_mtpndd_vars fi @ fi_mtpndd_not_vars fi"

lemma info_nodes:
  assumes "info_ok S s f w mx fi" "w \<le> mx"
  shows "list_all2 (var_at s f) (label_list S w mx @ not_label_list S w mx) (var_nodes fi)"
    "take (fi_bit_width fi) (fi_mtpndd_vars fi) = fi_mtpndd_vars fi"
    "take (fi_bit_width fi) (fi_mtpndd_not_vars fi) = fi_mtpndd_not_vars fi"
proof -
  have v: "list_all2 (var_at s f) (label_list S w mx) (fi_mtpndd_vars fi)"
    "list_all2 (var_at s f) (not_label_list S w mx) (fi_mtpndd_not_vars fi)" "fi_bit_width fi = w"
    using assms(1) by (auto simp: info_ok_def vars_made_def)
  show "list_all2 (var_at s f) (label_list S w mx @ not_label_list S w mx) (var_nodes fi)"
    unfolding var_nodes_def using v(1,2) by (rule list_all2_appendI)
  show "take (fi_bit_width fi) (fi_mtpndd_vars fi) = fi_mtpndd_vars fi"
    "take (fi_bit_width fi) (fi_mtpndd_not_vars fi) = fi_mtpndd_not_vars fi"
    using list_all2_lengthD[OF v(1)] list_all2_lengthD[OF v(2)] v(3) assms(2)
    by (simp_all add: label_list_def not_label_list_def)
qed

lemma var_nodes_at:
  assumes "info_ok S s f w mx fi" "w \<le> mx" "p \<in> set (var_nodes fi)" shows "\<exists>l. var_at s f l p"
  using info_nodes(1)[OF assms(1,2)] assms(3) by (metis in_set_conv_nth list_all2_conv_all_nth)

lemma var_at_still:
  assumes "hinv S M E s" "var_at s f l p"
  shows "p \<noteq> NULL \<and> (\<exists>m. node_edges s p = Some m \<and> wf_map s m)"
proof -
  obtain m where m: "content s p = Some (f, NEdges m)" using assms(2) by (auto simp: var_at_def has_edges_def)
  have "wf_map s m" by (rule sinv_node(6)[OF hinvD(1)[OF assms(1)] m])
  moreover have "p \<noteq> NULL" using has_edges_not_null[OF assms(1)] assms(2) unfolding var_at_def by blast
  ultimately show ?thesis using m by (auto simp: node_edges_content)
qed

context sylvan_vars
begin

lemma free_field_spec:
  assumes h: "hinv S M E s0" and fi: "field_infos s f = Some fi" "info_ok S s0 f w mx fi" "w \<le> mx" "mx \<le> nvars"
    and n: "\<forall>p\<in>set (var_nodes fi). nodes s p = nodes s0 p"
  shows "\<exists>s'. free_field f s = Some s' \<and> (\<forall>q. q \<notin> set (var_nodes fi) \<longrightarrow> nodes s' q = nodes s q)
     \<and> field_infos s' = (field_infos s)(f := None) \<and> gc_running s' = gc_running s \<and> stack s' = stack s
     \<and> brk (c_heap_of s) \<le> brk (c_heap_of s') \<and> mem_limit (c_heap_of s') = mem_limit (c_heap_of s)"
proof -
  note I = info_nodes[OF fi(2,3)]
  have "distinct (label_list S w mx @ not_label_list S w mx)"
    using ithvar_distinct[OF fi(4)] by (simp add: label_list_def not_label_list_def)
  then have d: "distinct (var_nodes fi)" by (rule var_at_list_distinct[OF I(1)])
  have st: "still s0 (var_nodes fi) s" unfolding still_def using n var_nodes_at[OF fi(2,3)] var_at_still[OF h] by blast
  have d12: "distinct (fi_mtpndd_vars fi)" "distinct (fi_mtpndd_not_vars fi)"
    "set (fi_mtpndd_vars fi) \<inter> set (fi_mtpndd_not_vars fi) = {}" using d by (auto simp: var_nodes_def)
  have "still s0 (fi_mtpndd_vars fi) s" using st by (simp add: still_def var_nodes_def)
  from free_var_nodes_spec[OF d12(1) this] obtain s1 where s1: "iter_state free_var_node (fi_mtpndd_vars fi) s = Some s1"
    "freed s s1" "\<forall>q. q \<notin> set (fi_mtpndd_vars fi) \<longrightarrow> nodes s1 q = nodes s q" by blast
  have "still s0 (fi_mtpndd_not_vars fi) s1" using st s1(3) d12(3) by (auto simp: still_def var_nodes_def)
  from free_var_nodes_spec[OF d12(2) this] obtain s2 where s2: "iter_state free_var_node (fi_mtpndd_not_vars fi) s1 = Some s2"
    "freed s1 s2" "\<forall>q. q \<notin> set (fi_mtpndd_not_vars fi) \<longrightarrow> nodes s2 q = nodes s1 q" by blast
  have fr: "freed s s2" by (rule freed_trans[OF s1(2) s2(2)])
  have "free_field f s = Some (s2\<lparr>field_infos := (field_infos s2)(f := None),
      node_tables_by_field := (node_tables_by_field s2)(f := None)\<rparr>)"
    using fi(1) s1(1) s2(1) fun_upd_triv[of "node_tables_by_field s2" f]
    by (cases "node_tables_by_field s2 f")
      (simp_all add: free_field_def mtpndd_field_info_free_def mtpndd_nodetable_free_def I(2,3))
  moreover have "field_infos s2 = field_infos s" "stack s2 = stack s" using fr by (simp_all add: freed_def fsetup_def)
  ultimately show ?thesis using s1(3) s2(3) fr by (auto simp: freed_def var_nodes_def)
qed

lemma free_fields_spec:
  assumes h: "hinv S M E s0" and l: "fields_live S M nvars s0"
    and fs: "distinct fs" "\<forall>f\<in>set fs. 1 \<le> f \<and> f \<le> field_count s0"
    and s: "\<forall>f\<in>set fs. field_infos s f = field_infos s0 f"
      "\<forall>f\<in>set fs. \<forall>p fi. field_infos s0 f = Some fi \<longrightarrow> p \<in> set (var_nodes fi) \<longrightarrow> nodes s p = nodes s0 p"
  shows "\<exists>s'. iter_state free_field fs s = Some s' \<and> gc_running s' = gc_running s \<and> stack s' = stack s
     \<and> brk (c_heap_of s) \<le> brk (c_heap_of s') \<and> mem_limit (c_heap_of s') = mem_limit (c_heap_of s)"
  using fs s
proof (induction fs arbitrary: s)
  case (Cons f fs)
  obtain fi w mx where fi: "field_infos s0 f = Some fi" "info_ok S s0 f w mx fi" "w \<le> mx" "mx \<le> nvars"
    by (rule fields_liveE[OF l, of f]) (use Cons.prems(2) in auto)
  obtain s1 where s1: "free_field f s = Some s1" "\<forall>q. q \<notin> set (var_nodes fi) \<longrightarrow> nodes s1 q = nodes s q"
    "field_infos s1 = (field_infos s)(f := None)" "gc_running s1 = gc_running s" "stack s1 = stack s"
    "brk (c_heap_of s) \<le> brk (c_heap_of s1)" "mem_limit (c_heap_of s1) = mem_limit (c_heap_of s)"
    using free_field_spec[OF h _ fi(2-4), of s] fi(1) Cons.prems(3,4) by auto
  have n1: "nodes s1 p = nodes s0 p" if g: "g \<in> set fs" "field_infos s0 g = Some gi" "p \<in> set (var_nodes gi)" for g gi p
  proof -
    obtain w' mx' where gi: "info_ok S s0 g w' mx' gi" "w' \<le> mx'"
      by (rule fields_liveD[OF l]) (use Cons.prems(2) g(1,2) in auto)
    have "g \<noteq> f" using Cons.prems(1) g(1) by auto
    then have "p \<notin> set (var_nodes fi)"
      using var_nodes_at[OF gi g(3)] var_nodes_at[OF fi(2,3), of p] var_at_inj by blast
    then have "nodes s1 p = nodes s p" using s1(2) by blast
    moreover have "g \<in> set (f # fs)" using g(1) by simp
    ultimately show ?thesis using Cons.prems(4) g(2,3) by metis
  qed
  have "\<exists>s'. iter_state free_field fs s1 = Some s' \<and> gc_running s' = gc_running s1 \<and> stack s' = stack s1
     \<and> brk (c_heap_of s1) \<le> brk (c_heap_of s') \<and> mem_limit (c_heap_of s') = mem_limit (c_heap_of s1)"
  proof (rule Cons.IH)
    show "distinct fs" "\<forall>f\<in>set fs. 1 \<le> f \<and> f \<le> field_count s0" using Cons.prems(1,2) by simp_all
    have "g \<noteq> f" if "g \<in> set fs" for g using that Cons.prems(1) by auto
    then show "\<forall>f\<in>set fs. field_infos s1 f = field_infos s0 f" using Cons.prems(3) s1(3) by simp
    show "\<forall>f\<in>set fs. \<forall>p fi. field_infos s0 f = Some fi \<longrightarrow> p \<in> set (var_nodes fi) \<longrightarrow> nodes s1 p = nodes s0 p"
      using n1 by blast
  qed
  then show ?case using s1 by auto
qed simp

end

section \<open>Shutdown\<close>

lemma release_leaves_heap:
  "c_heap_of (fold release_leaf es s) = c_heap_of s \<and> gc_running (fold release_leaf es s) = gc_running s
   \<and> field_count (fold release_leaf es s) = field_count s \<and> stack (fold release_leaf es s) = stack s"
  by (induction es arbitrary: s) (simp_all add: release_leaf_def mtpndd_memory_release_node_def)

lemma leaf_free_heap:
  "c_heap_of (mtpndd_leaf_table_free t s) = c_heap_of s" "gc_running (mtpndd_leaf_table_free t s) = gc_running s"
  "field_count (mtpndd_leaf_table_free t s) = field_count s" "stack (mtpndd_leaf_table_free t s) = stack s"
  using release_leaves_heap by (simp_all add: mtpndd_leaf_table_free_def split: option.splits)

lemma temp_refs_pop_setup:
  "temp_refs_pop n s = Some s' \<Longrightarrow> fsetup (s'\<lparr>temp_refs_pool := x\<rparr>) = fsetup (s\<lparr>temp_refs_pool := x\<rparr>)"
proof (induction n arbitrary: s)
  case (Suc n)
  have u: "fsetup (t\<lparr>temp_refs_pool := x\<rparr>) = fsetup (t'\<lparr>temp_refs_pool := x\<rparr>)"
    if "fsetup t = fsetup (t'\<lparr>temp_refs_pool := y\<rparr>)" for t t' y using that by (simp add: fsetup_def)
  show ?case using Suc.prems
    by (auto simp: Option.bind_eq_Some_conv split: list.split_asm dest!: Suc.IH ref_setup(2) dest: u)
qed simp

context sylvan_vars
begin

lemma quit_spec:
  assumes h: "hinv S M (E + mset (stack s)) s" and l: "fields_live S M nvars s"
    and g: "\<not> gc_running s" and i: "mtpndd_is_initialized s"
  shows "\<exists>s'. mtpndd_quit s = Some (MTPNDD_SUCCESS, s') \<and> cold s'"
proof -
  obtain s1 where s1: "temp_refs_pop (length (stack s)) s = Some s1" "touch s s1" "hinv S M E s1"
    using temp_refs_pop_spec[OF h, of "[]"] by auto
  let ?s1 = "s1\<lparr>temp_ref_pool_count := 0, temp_refs_pool := mtpndd_temp_ref_pool_init\<rparr>"
  have "same_heap s1 ?s1" by (simp add: same_heap_def)
  then have h1: "hinv S M E ?s1" using hinv_same_heap[OF s1(3)] by blast
  have fs: "field_count ?s1 = field_count s" "field_infos ?s1 = field_infos s"
    using temp_refs_pop_setup[OF s1(1), of mtpndd_temp_ref_pool_init] by (simp_all add: fsetup_def)
  have ow: "onward s ?s1"
    using touch_keeps[OF s1(2), of "{#}"] touch_failed[OF s1(2)] content_nodes[of ?s1 s1] live_cong[of ?s1 s1]
    by (simp add: onward_def keeps_def)
  have l1: "fields_live S M nvars ?s1" using l info_ok_onward[OF ow] unfolding fields_live_def fs by blast
  have "\<exists>s2. iter_state free_field [1..<Suc (field_count ?s1)] ?s1 = Some s2 \<and> gc_running s2 = gc_running ?s1 \<and> stack s2 = stack ?s1
      \<and> brk (c_heap_of ?s1) \<le> brk (c_heap_of s2) \<and> mem_limit (c_heap_of s2) = mem_limit (c_heap_of ?s1)"
    by (rule free_fields_spec[OF h1 l1]) auto
  then obtain s2 where s2: "iter_state free_field [1..<Suc (field_count ?s1)] ?s1 = Some s2" "gc_running s2 = gc_running s" "stack s2 = []"
      "brk (c_heap_of ?s1) \<le> brk (c_heap_of s2)" "mem_limit (c_heap_of s2) = mem_limit (c_heap_of ?s1)"
    using s1(2) by (auto simp: touch_def mtpndd_temp_ref_pool_init_def)
  have b: "32 < brk (c_heap_of s2)" "mem_limit (c_heap_of s2) \<le> 2 ^ 60"
    using hinvD(3)[OF h1] s2(4,5) by (auto simp: rinv_def pool_ok_def)
  show ?thesis using i s1(1) s2(1-3) g b
    by (auto simp: mtpndd_quit_def mtpndd_temp_refs_runtime_shutdown_def Let_def cold_def mtpndd_clear_error_def
        mtpndd_memory_pools_shutdown_def mtpndd_op_cache_destroy_def leaf_free_heap mtpndd_is_initialized_def
        restrict_map_def split: if_splits)
qed

lemma ready_live:
  assumes "fields_ready S M W s" "\<forall>w\<in>set W. w \<le> nvars" shows "fields_live S M nvars s"
proof -
  have "W ! (f - 1) \<le> fold max W 0 \<and> fold max W 0 \<le> nvars" if "1 \<le> f" "f \<le> length W" for f
    using that assms(2) fold_max_ge(2)[of "W ! (f - 1)" W 0] fold_max_le[of 0 nvars W] by auto
  then show ?thesis using assms(1) unfolding fields_ready_def fields_live_def by metis
qed

end

end
