(* ===== verification/Arith_Ops.thy ===== *)
theory Arith_Ops
  imports Bool_Ops Engine
begin

text \<open>
  The arithmetic of \<open>mtpndd_arith.c\<close> on diagrams whose leaves are fractions or doubles: the four
  leaf operations, negation, addition, subtraction, multiplication, division and the summation
  over a field.  An assignment that no edge label covers has the value 0.

  Lace tasks run as in \<open>Bool_Ops\<close>: a spawned task runs in its own worker when it is
  synchronised, a task that is pending when the operation fails is dropped.  The list of pinned
  nodes is a local of each call and is passed along; \<open>None\<close> is an access to a node that is not
  there, an undefined signed overflow, or the end of the fuel.

  C leaves the accuracy of floating-point arithmetic to the implementation, so the operations on
  doubles are a parameter, \<open>double_ops\<close>, on bit patterns; the functions of Sylvan used only here
  are the parameter \<open>sylvan_query\<close>.
\<close>

section \<open>Parameters\<close>

record double_ops =
  d_add :: "64 word \<Rightarrow> 64 word \<Rightarrow> 64 word"
  d_sub :: "64 word \<Rightarrow> 64 word \<Rightarrow> 64 word"
  d_mul :: "64 word \<Rightarrow> 64 word \<Rightarrow> 64 word"
  d_div :: "64 word \<Rightarrow> 64 word \<Rightarrow> 64 word"
  d_neg :: "64 word \<Rightarrow> 64 word"
  d_is_zero :: "64 word \<Rightarrow> bool"
  d_of_u64 :: "nat \<Rightarrow> 64 word"
  d_to_i64 :: "64 word \<Rightarrow> int option"
  d_pow :: "64 word \<Rightarrow> 64 word \<Rightarrow> 64 word"

record sylvan_query =
  mtbdd_satcount :: "bdd \<Rightarrow> nat \<Rightarrow> 64 word"
  mtbdd_support :: "bdd \<Rightarrow> bdd"
  sylvan_var :: "bdd \<Rightarrow> nat"
  sylvan_high :: "bdd \<Rightarrow> bdd"

definition MTPNDD_ARITH_SPAWN_MIN_PROD :: nat where
  "MTPNDD_ARITH_SPAWN_MIN_PROD = 256"

definition MTPNDD_ARITH_PENDING_FLUSH_THRESHOLD :: nat where
  "MTPNDD_ARITH_PENDING_FLUSH_THRESHOLD = 256"

definition MTPNDD_LEAF_FIELD_ID :: nat where
  "MTPNDD_LEAF_FIELD_ID = MTPNDD_FRACTION_LEAF_FIELD_ID"

definition arith_should_spawn :: "mstate \<Rightarrow> ptr \<Rightarrow> ptr \<Rightarrow> bool option" where
  "arith_should_spawn s a b =
     (if lace_workers s \<le> 1 then Some False
      else do {
        ta \<leftarrow> mtpndd_is_terminal s a;
        tb \<leftarrow> (if ta then Some True else mtpndd_is_terminal s b);
        if ta \<or> tb then Some False
        else do {
          edges_a \<leftarrow> node_edge_count s a;
          edges_b \<leftarrow> node_edge_count s b;
          Some (MTPNDD_ARITH_SPAWN_MIN_PROD \<le> edges_a * edges_b mod 2 ^ 64)
        }
      })"

definition arith_should_spawn_row :: "mstate \<Rightarrow> ptr \<Rightarrow> ptr \<Rightarrow> bool option" where
  "arith_should_spawn_row s a_child b =
     (if lace_workers s \<le> 1 then Some False
      else do {
        t \<leftarrow> mtpndd_is_terminal s a_child;
        if t then Some False
        else do { b_edges \<leftarrow> node_edge_count s b; Some (8 \<le> b_edges) }
      })"

section \<open>Leaves\<close>

definition make_fraction_i64 :: "int \<Rightarrow> int \<Rightarrow> mstate \<Rightarrow> (ptr \<times> mstate) option" where
  "make_fraction_i64 n d s = do {
     r \<leftarrow> fraction_i64 n d;
     case r of
       I64Invalid line \<Rightarrow> Some (NULL, mtpndd_set_error MTPNDD_ERROR_INVALID_PARAM ''make_fraction_i64'' line s)
     | I64Zero \<Rightarrow> Some (MTPNDD_FALSE, s)
     | I64Pair numer denom \<Rightarrow> mtpndd_make_fraction numer denom s
   }"

definition leaf_type_mismatch :: "string \<Rightarrow> nat \<Rightarrow> mstate \<Rightarrow> ptr \<times> mstate" where
  "leaf_type_mismatch fn line s = (NULL, mtpndd_set_error MTPNDD_ERROR_INVALID_PARAM fn line s)"

text \<open>\<open>is(a) && is(b)\<close>\<close>

definition both :: "(mstate \<Rightarrow> ptr \<Rightarrow> bool option) \<Rightarrow> mstate \<Rightarrow> ptr \<Rightarrow> ptr \<Rightarrow> bool option" where
  "both is s a b = do { x \<leftarrow> is s a; if x then is s b else Some False }"

text \<open>The fraction branch of a leaf operation; a sum or product outside \<open>int64_t\<close> is undefined.\<close>

definition fraction_op ::
  "(int \<Rightarrow> int \<Rightarrow> int \<Rightarrow> int \<Rightarrow> int \<times> int) \<Rightarrow> ptr \<Rightarrow> ptr \<Rightarrow> mstate \<Rightarrow> (ptr \<times> mstate) option" where
  "fraction_op f a b s = do {
     na \<leftarrow> mtpndd_get_numer s a;
     da \<leftarrow> mtpndd_get_denom s a;
     nb \<leftarrow> mtpndd_get_numer s b;
     db \<leftarrow> mtpndd_get_denom s b;
     let (n, d) = f na da nb db;
     _ \<leftarrow> guard_opt (is_i64 n \<and> is_i64 d);
     make_fraction_i64 n d s
   }"

definition double_op ::
  "(64 word \<Rightarrow> 64 word \<Rightarrow> 64 word) \<Rightarrow> ptr \<Rightarrow> ptr \<Rightarrow> mstate \<Rightarrow> (ptr \<times> mstate) option" where
  "double_op f a b s = do {
     va \<leftarrow> mtpndd_get_double s a;
     vb \<leftarrow> mtpndd_get_double s b;
     mtpndd_make_double (f va vb) s
   }"

definition leaf_add :: "double_ops \<Rightarrow> rec2" where
  "leaf_add D a b s = do {
     fr \<leftarrow> both mtpndd_is_fraction_leaf s a b;
     if fr then fraction_op frac_add a b s
     else do {
       db \<leftarrow> both mtpndd_is_double_leaf s a b;
       if db then double_op (d_add D) a b s else Some (leaf_type_mismatch ''leaf_add'' 154 s)
     }
   }"

definition leaf_sub :: "double_ops \<Rightarrow> rec2" where
  "leaf_sub D a b s = do {
     fr \<leftarrow> both mtpndd_is_fraction_leaf s a b;
     if fr then fraction_op frac_sub a b s
     else do {
       db \<leftarrow> both mtpndd_is_double_leaf s a b;
       if db then double_op (d_sub D) a b s else Some (leaf_type_mismatch ''leaf_sub'' 166 s)
     }
   }"

definition leaf_mul :: "double_ops \<Rightarrow> rec2" where
  "leaf_mul D a b s = do {
     fr \<leftarrow> both mtpndd_is_fraction_leaf s a b;
     if fr then fraction_op frac_mul a b s
     else do {
       db \<leftarrow> both mtpndd_is_double_leaf s a b;
       if db then double_op (d_mul D) a b s else Some (leaf_type_mismatch ''leaf_mul'' 178 s)
     }
   }"

definition leaf_div :: "double_ops \<Rightarrow> rec2" where
  "leaf_div D a b s = do {
     fr \<leftarrow> both mtpndd_is_fraction_leaf s a b;
     if fr then do {
       nb \<leftarrow> mtpndd_get_numer s b;
       if nb = 0 then Some (NULL, mtpndd_set_error MTPNDD_ERROR_INVALID_PARAM ''leaf_div'' 186 s)
       else fraction_op frac_div a b s
     }
     else do {
       db \<leftarrow> both mtpndd_is_double_leaf s a b;
       if db then do {
         vb \<leftarrow> mtpndd_get_double s b;
         if d_is_zero D vb then Some (NULL, mtpndd_set_error MTPNDD_ERROR_INVALID_PARAM ''leaf_div'' 194 s)
         else double_op (d_div D) a b s
       }
       else Some (leaf_type_mismatch ''leaf_div'' 199 s)
     }
   }"

section \<open>Pinned nodes\<close>

text \<open>The items in the order they were pushed; the first 16 are kept in the structure itself.\<close>

record pin_list =
  pl_items :: "ptr list"
  pl_capacity :: nat
  pl_inline :: bool

definition pin_list_init :: pin_list where
  "pin_list_init = \<lparr>pl_items = [], pl_capacity = 16, pl_inline = True\<rparr>"

definition pin_list_reserve :: "pin_list \<Rightarrow> mstate \<Rightarrow> pin_list option \<times> mstate" where
  "pin_list_reserve pl s =
     (if length (pl_items pl) = pl_capacity pl
      then let new_cap = pl_capacity pl * 2;
               (next, s) = malloc (new_cap * 8) s
           in if next = NULL then (None, s)
              else (Some (pl\<lparr>pl_capacity := new_cap, pl_inline := False\<rparr>), s)
      else (Some pl, s))"

definition pin_list_put :: "ptr \<Rightarrow> pin_list \<Rightarrow> pin_list" where
  "pin_list_put node pl = pl\<lparr>pl_items := pl_items pl @ [node]\<rparr>"

definition pin_list_push :: "pin_list \<Rightarrow> ptr \<Rightarrow> mstate \<Rightarrow> (bool \<times> pin_list \<times> mstate) option" where
  "pin_list_push pl node s =
     (if node = NULL then Some (True, pl, s)
      else do {
        t \<leftarrow> mtpndd_is_terminal s node;
        if t then Some (True, pl, s)
        else case pin_list_reserve pl s of
          (None, s) \<Rightarrow> Some (False, pl, s)
        | (Some pl, s) \<Rightarrow> do {
            (_, s) \<leftarrow> mtpndd_ref node s;
            Some (True, pin_list_put node pl, s)
          }
      })"

definition pin_list_push_owned :: "pin_list \<Rightarrow> ptr \<Rightarrow> mstate \<Rightarrow> (bool \<times> pin_list \<times> mstate) option" where
  "pin_list_push_owned pl node s =
     (if node = NULL then Some (True, pl, s)
      else do {
        t \<leftarrow> mtpndd_is_terminal s node;
        if t then Some (True, pl, s)
        else case pin_list_reserve pl s of
          (None, s) \<Rightarrow> Some (False, pl, s)
        | (Some pl, s) \<Rightarrow> Some (True, pin_list_put node pl, s)
      })"

definition deref_node :: "ptr \<Rightarrow> mstate \<Rightarrow> mstate option" where
  "deref_node p s = map_option snd (mtpndd_deref p s)"

definition pin_list_release :: "pin_list \<Rightarrow> mstate \<Rightarrow> mstate option" where
  "pin_list_release pl s = iter_state deref_node (pl_items pl) s"

section \<open>Loops over edges\<close>

fun label_union_loop :: "sylvan \<Rightarrow> edge_bucket_entry list \<Rightarrow> bdd \<Rightarrow> mstate \<Rightarrow> bdd \<times> mstate" where
  "label_union_loop S [] acc s = (acc, s)"
| "label_union_loop S (e # es) acc s =
     (let lab = mtpndd_edge_label_load S (Some e);
          next = sylvan_or S acc lab
      in label_union_loop S es next (sylvan_deref acc (sylvan_ref next s)))"

definition edge_map_label_union :: "sylvan \<Rightarrow> mtpndd_edge \<Rightarrow> mstate \<Rightarrow> (bdd \<times> mstate) option" where
  "edge_map_label_union S edges s =
     (let acc = sylvan_false S;
          s = sylvan_ref acc s
      in if buckets edges = [] then Some (acc, s)
         else do { es \<leftarrow> for_each_entry s edges; Some (label_union_loop S es acc s) })"

text \<open>
  The loop of \<open>mtpndd_negate_rec\<close>, of the cases with different fields of \<open>additive_build\<close> and
  \<open>mtpndd_divide_rec\<close>, and of \<open>mtpndd_abstract_plus_rec\<close>: the same label for a new child.
  \<open>False\<close> is a jump to the failure exit.
\<close>

fun rebuild_edges ::
  "sylvan \<Rightarrow> (mstate \<Rightarrow> bool) \<Rightarrow> rec1 \<Rightarrow> edge_bucket_entry list \<Rightarrow> pin_list \<Rightarrow> mtpndd_edge \<Rightarrow> mstate
   \<Rightarrow> (bool \<times> pin_list \<times> mtpndd_edge \<times> mstate) option" where
  "rebuild_edges S alive f [] pins m s = Some (True, pins, m, s)"
| "rebuild_edges S alive f (e # es) pins m s = do {
     _ \<leftarrow> guard_opt (alive s);
     (child, s) \<leftarrow> f (ee_child e) s;
     if child = NULL then Some (False, pins, m, s)
     else do {
       (ok, pins, s) \<leftarrow> pin_list_push pins child s;
       if \<not> ok then Some (False, pins, m, s)
       else do {
         let lab = mtpndd_edge_label_load S (Some e);
         (status, m, s) \<leftarrow> mtpndd_add_edge S m child lab (sylvan_ref lab s);
         if status \<noteq> MTPNDD_SUCCESS then Some (False, pins, m, s)
         else rebuild_edges S alive f es pins m s
       }
     }
   }"

text \<open>The intersection pairs of \<open>additive_build\<close> and \<open>mtpndd_divide_rec\<close>.\<close>

fun pair_edges ::
  "sylvan \<Rightarrow> (mstate \<Rightarrow> bool) \<Rightarrow> rec2 \<Rightarrow> (edge_bucket_entry \<times> edge_bucket_entry) list \<Rightarrow> pin_list
   \<Rightarrow> mtpndd_edge \<Rightarrow> mstate \<Rightarrow> (bool \<times> pin_list \<times> mtpndd_edge \<times> mstate) option" where
  "pair_edges S alive f [] pins m s = Some (True, pins, m, s)"
| "pair_edges S alive f ((ea, eb) # es) pins m s = do {
     _ \<leftarrow> guard_opt (alive s);
     let inter = sylvan_and S (mtpndd_edge_label_load S (Some ea)) (mtpndd_edge_label_load S (Some eb));
     let s = sylvan_ref inter s;
     if inter = sylvan_false S then pair_edges S alive f es pins m (sylvan_deref inter s)
     else do {
       (child, s) \<leftarrow> f (ee_child ea) (ee_child eb) s;
       if child = NULL then Some (False, pins, m, sylvan_deref inter s)
       else do {
         (ok, pins, s) \<leftarrow> pin_list_push pins child s;
         if \<not> ok then Some (False, pins, m, sylvan_deref inter s)
         else do {
           (status, m, s) \<leftarrow> mtpndd_add_edge S m child inter s;
           if status \<noteq> MTPNDD_SUCCESS then Some (False, pins, m, s)
           else pair_edges S alive f es pins m s
         }
       }
     }
   }"

text \<open>The edges of one operand outside the labels of the other; \<open>f\<close> gives the child.\<close>

fun residual_edges ::
  "sylvan \<Rightarrow> (mstate \<Rightarrow> bool) \<Rightarrow> rec1 \<Rightarrow> bdd \<Rightarrow> edge_bucket_entry list \<Rightarrow> pin_list \<Rightarrow> mtpndd_edge \<Rightarrow> mstate
   \<Rightarrow> (bool \<times> pin_list \<times> mtpndd_edge \<times> mstate) option" where
  "residual_edges S alive f not_or [] pins m s = Some (True, pins, m, s)"
| "residual_edges S alive f not_or (e # es) pins m s = do {
     _ \<leftarrow> guard_opt (alive s);
     let res = sylvan_and S (mtpndd_edge_label_load S (Some e)) not_or;
     let s = sylvan_ref res s;
     if res = sylvan_false S then residual_edges S alive f not_or es pins m (sylvan_deref res s)
     else do {
       (child, s) \<leftarrow> f (ee_child e) s;
       if child = NULL then Some (False, pins, m, sylvan_deref res s)
       else do {
         (ok, pins, s) \<leftarrow> pin_list_push pins child s;
         if \<not> ok then Some (False, pins, m, sylvan_deref res s)
         else do {
           (status, m, s) \<leftarrow> mtpndd_add_edge S m child res s;
           if status \<noteq> MTPNDD_SUCCESS then Some (False, pins, m, s)
           else residual_edges S alive f not_or es pins m s
         }
       }
     }
   }"

definition add_residuals ::
  "sylvan \<Rightarrow> (mstate \<Rightarrow> bool) \<Rightarrow> rec1 \<Rightarrow> bdd \<Rightarrow> edge_bucket_entry list \<Rightarrow> pin_list \<Rightarrow> mtpndd_edge \<Rightarrow> mstate
   \<Rightarrow> (bool \<times> pin_list \<times> mtpndd_edge \<times> mstate) option" where
  "add_residuals S alive f covered es pins m s = do {
     let not_or = sylvan_not S covered;
     (ok, pins, m, s) \<leftarrow> residual_edges S alive f not_or es pins m (sylvan_ref not_or s);
     Some (ok, pins, m, sylvan_deref not_or s)
   }"

definition keep_child :: rec1 where
  "keep_child c s = Some (c, s)"

text \<open>The common ends: make the node, or give everything back and return \<open>NULL\<close>.\<close>

definition arith_fail :: "pin_list \<Rightarrow> mtpndd_edge \<Rightarrow> mstate \<Rightarrow> (ptr \<times> mstate) option" where
  "arith_fail pins res_edges s = do {
     s \<leftarrow> mtpndd_edge_map_free res_edges s;
     s \<leftarrow> pin_list_release pins s;
     Some (NULL, s)
   }"

definition arith_finish ::
  "sylvan \<Rightarrow> nat \<Rightarrow> pin_list \<Rightarrow> mtpndd_edge \<Rightarrow> mstate \<Rightarrow> (ptr \<times> mstate) option" where
  "arith_finish S field pins res_edges s = do {
     (res, s) \<leftarrow> mtpndd_mk S field res_edges s;
     if res = NULL then arith_fail pins res_edges s
     else do { s \<leftarrow> pin_list_release pins s; Some (res, s) }
   }"

definition arith_target :: "bool \<Rightarrow> bool \<Rightarrow> ptr \<Rightarrow> ptr \<Rightarrow> mstate \<Rightarrow> nat option" where
  "arith_target a_leaf b_leaf a b s =
     (if a_leaf then node_field s b
      else if b_leaf then node_field s a
      else do { fa \<leftarrow> node_field s a; fb \<leftarrow> node_field s b; Some (if fa < fb then fa else fb) })"

text \<open>\<open>leaf ? MTPNDD_LEAF_FIELD_ID : p->field_id\<close>\<close>

definition level_of :: "bool \<Rightarrow> ptr \<Rightarrow> mstate \<Rightarrow> nat option" where
  "level_of leaf p s = (if leaf then Some MTPNDD_LEAF_FIELD_ID else node_field s p)"

section \<open>Negation\<close>

definition negate_body :: "sylvan \<Rightarrow> double_ops \<Rightarrow> rec1 \<Rightarrow> rec1" where
  "negate_body S D rec a s =
     (if a = NULL then Some (NULL, s)
      else do {
        fr \<leftarrow> mtpndd_is_fraction_leaf s a;
        db \<leftarrow> mtpndd_is_double_leaf s a;
        if fr then do {
          n \<leftarrow> mtpndd_get_numer s a;
          d \<leftarrow> mtpndd_get_denom s a;
          if n = INT32_MIN
          then Some (NULL, mtpndd_set_error MTPNDD_ERROR_INVALID_PARAM ''mtpndd_negate_rec'' 311 s)
          else do { n \<leftarrow> neg_i32 n; mtpndd_make_fraction n d s }
        }
        else if db then do { v \<leftarrow> mtpndd_get_double s a; mtpndd_make_double (d_neg D v) s }
        else case mtpndd_memory_acquire_edge_map s of
          (None, s) \<Rightarrow> Some (NULL, mtpndd_set_error MTPNDD_ERROR_OUT_OF_MEMORY ''mtpndd_negate_rec'' 322 s)
        | (Some res_edges, s) \<Rightarrow> do {
            res_edges \<leftarrow> mtpndd_edge_map_init s res_edges;
            ma \<leftarrow> node_edges s a;
            es \<leftarrow> for_each_entry s ma;
            (ok, pins, res_edges, s) \<leftarrow>
              rebuild_edges S (\<lambda>s. node_edges s a = Some ma) rec es pin_list_init res_edges s;
            if \<not> ok then arith_fail pins res_edges s
            else do { field \<leftarrow> node_field s a; arith_finish S field pins res_edges s }
          }
      })"

primrec mtpndd_negate_rec :: "nat \<Rightarrow> sylvan \<Rightarrow> double_ops \<Rightarrow> rec1" where
  "mtpndd_negate_rec 0 S D = (\<lambda>a s. None)"
| "mtpndd_negate_rec (Suc k) S D = negate_body S D (mtpndd_negate_rec k S D)"

section \<open>Tasks\<close>

text \<open>
  \<open>mtpndd_arith_item_t\<close> has the fields of \<open>op_item\<close>; a chunk is the row of items of one edge.
  The accumulator of a merge is the list of pins and the edge map that is being built.
\<close>

record arith_chunk =
  ch_status :: mtpndd_error
  ch_items :: "op_item list"

type_synonym arith_acc = "pin_list \<times> mtpndd_edge"

definition mtpndd_plus_diff_pair ::
  "sylvan \<Rightarrow> rec2 \<Rightarrow> ptr \<Rightarrow> edge_bucket_entry \<Rightarrow> mstate \<Rightarrow> (op_item \<times> mstate) option" where
  "mtpndd_plus_diff_pair S rec other ea s =
     (let la = mtpndd_edge_label_load S (Some ea);
          s = sylvan_ref la s
      in do {
        (child, s) \<leftarrow> rec (ee_child ea) other s;
        if child = NULL
        then let s = sylvan_deref la s in Some (no_item (ei_code (mtpndd_get_last_error s)), s)
        else finish_item la (child, s)
      })"

definition mtpndd_times_diff_pair ::
  "sylvan \<Rightarrow> rec2 \<Rightarrow> ptr \<Rightarrow> edge_bucket_entry \<Rightarrow> mstate \<Rightarrow> (op_item \<times> mstate) option" where
  "mtpndd_times_diff_pair = mtpndd_plus_diff_pair"

definition merge_arith_item ::
  "sylvan \<Rightarrow> arith_acc \<Rightarrow> op_item \<Rightarrow> mstate \<Rightarrow> (mtpndd_error \<times> arith_acc \<times> mstate) option" where
  "merge_arith_item S acc item s =
     (case acc of (pins, res_edges) \<Rightarrow>
        if it_status item \<noteq> MTPNDD_SUCCESS then Some (it_status item, acc, s)
        else if \<not> it_emit item then Some (MTPNDD_SUCCESS, acc, s)
        else do {
          (ok, pins, s) \<leftarrow> pin_list_push_owned pins (it_child item) s;
          if \<not> ok
          then do {
            (_, s) \<leftarrow> mtpndd_deref (it_child item) (sylvan_deref (it_label item) s);
            Some (MTPNDD_ERROR_OUT_OF_MEMORY, (pins, res_edges), s)
          }
          else do {
            (status, res_edges, s) \<leftarrow> mtpndd_add_edge S res_edges (it_child item) (it_label item) s;
            Some (status, (pins, res_edges), s)
          }
        })"

definition release_item :: "op_item \<Rightarrow> mstate \<Rightarrow> mstate option" where
  "release_item it s = deref_node (it_child it) (sylvan_deref (it_label it) s)"

definition chunk_release_items :: "op_item list \<Rightarrow> mstate \<Rightarrow> mstate option" where
  "chunk_release_items items s = iter_state release_item items s"

fun merge_arith_items ::
  "sylvan \<Rightarrow> op_item list \<Rightarrow> arith_acc \<Rightarrow> mstate \<Rightarrow> (mtpndd_error \<times> arith_acc \<times> mstate) option" where
  "merge_arith_items S [] acc s = Some (MTPNDD_SUCCESS, acc, s)"
| "merge_arith_items S (it # items) (pins, res_edges) s = do {
     (ok, pins, s) \<leftarrow> pin_list_push_owned pins (it_child it) s;
     if \<not> ok
     then do {
       s \<leftarrow> release_item it s;
       s \<leftarrow> chunk_release_items items s;
       Some (MTPNDD_ERROR_OUT_OF_MEMORY, (pins, res_edges), s)
     }
     else do {
       (st, res_edges, s) \<leftarrow> mtpndd_add_edge S res_edges (it_child it) (it_label it) s;
       if st \<noteq> MTPNDD_SUCCESS
       then do { s \<leftarrow> chunk_release_items items s; Some (st, (pins, res_edges), s) }
       else merge_arith_items S items (pins, res_edges) s
     }
   }"

definition merge_arith_chunk ::
  "sylvan \<Rightarrow> arith_acc \<Rightarrow> arith_chunk \<Rightarrow> mstate \<Rightarrow> (mtpndd_error \<times> arith_acc \<times> mstate) option" where
  "merge_arith_chunk S acc chunk s =
     (if ch_status chunk \<noteq> MTPNDD_SUCCESS then Some (ch_status chunk, acc, s)
      else merge_arith_items S (ch_items chunk) acc s)"

text \<open>
  The row of one edge of \<open>a\<close>.  The array of items has room for \<open>room\<close> of them; a write behind
  its end has no result.
\<close>

fun same_row_loop ::
  "sylvan \<Rightarrow> (mstate \<Rightarrow> bool) \<Rightarrow> rec2 \<Rightarrow> nat \<Rightarrow> edge_bucket_entry \<Rightarrow> edge_bucket_entry list \<Rightarrow> op_item list
   \<Rightarrow> mstate \<Rightarrow> (arith_chunk \<times> mstate) option" where
  "same_row_loop S alive rec room ea [] items s = Some (\<lparr>ch_status = MTPNDD_SUCCESS, ch_items = items\<rparr>, s)"
| "same_row_loop S alive rec room ea (eb # es) items s = do {
     _ \<leftarrow> guard_opt (alive s);
     let inter = sylvan_and S (mtpndd_edge_label_load S (Some ea)) (mtpndd_edge_label_load S (Some eb));
     let s = sylvan_ref inter s;
     if inter = sylvan_false S then same_row_loop S alive rec room ea es items (sylvan_deref inter s)
     else do {
       (child, s) \<leftarrow> rec (ee_child ea) (ee_child eb) s;
       if child = NULL
       then do {
         let s = sylvan_deref inter s;
         let status = ei_code (mtpndd_get_last_error s);
         s \<leftarrow> chunk_release_items items s;
         Some (\<lparr>ch_status = status, ch_items = []\<rparr>, s)
       }
       else do {
         (it, s) \<leftarrow> finish_item inter (child, s);
         _ \<leftarrow> guard_opt (length items < room);
         same_row_loop S alive rec room ea es (items @ [it]) s
       }
     }
   }"

definition mtpndd_plus_same_row ::
  "sylvan \<Rightarrow> (mstate \<Rightarrow> bool) \<Rightarrow> rec2 \<Rightarrow> ptr \<Rightarrow> edge_bucket_entry \<Rightarrow> mstate \<Rightarrow> (arith_chunk \<times> mstate) option" where
  "mtpndd_plus_same_row S alive rec b ea s = do {
     b_edge_count \<leftarrow> node_edge_count s b;
     if b_edge_count = 0 then Some (\<lparr>ch_status = MTPNDD_SUCCESS, ch_items = []\<rparr>, s)
     else let (p, s) = malloc (24 * b_edge_count) s
          in if p = NULL then Some (\<lparr>ch_status = MTPNDD_ERROR_OUT_OF_MEMORY, ch_items = []\<rparr>, s)
             else do {
               mb \<leftarrow> node_edges s b;
               es \<leftarrow> for_each_entry s mb;
               same_row_loop S alive rec b_edge_count ea es [] s
             }
   }"

definition mtpndd_times_same_row ::
  "sylvan \<Rightarrow> (mstate \<Rightarrow> bool) \<Rightarrow> rec2 \<Rightarrow> ptr \<Rightarrow> edge_bucket_entry \<Rightarrow> mstate \<Rightarrow> (arith_chunk \<times> mstate) option" where
  "mtpndd_times_same_row = mtpndd_plus_same_row"

text \<open>
  The loops of \<open>plus\<close> and \<open>times\<close> over the edges of the top operand, for items and for chunks:
  spawn or call, drain when 256 tasks are pending, drain all at the end.
\<close>

fun drain_tasks ::
  "(mstate \<Rightarrow> bool) \<Rightarrow> ('m \<Rightarrow> 'i \<Rightarrow> mstate \<Rightarrow> (mtpndd_error \<times> 'm \<times> mstate) option)
   \<Rightarrow> ('t \<Rightarrow> mstate \<Rightarrow> ('i \<times> mstate) option) \<Rightarrow> nat \<Rightarrow> 't list \<Rightarrow> 'm \<Rightarrow> mstate
   \<Rightarrow> (mtpndd_error \<times> 't list \<times> 'm \<times> mstate) option" where
  "drain_tasks alive merge task 0 pending m s = Some (MTPNDD_SUCCESS, pending, m, s)"
| "drain_tasks alive merge task (Suc n) pending m s =
     (case pending of
        [] \<Rightarrow> Some (MTPNDD_SUCCESS, [], m, s)
      | t # pending \<Rightarrow> do {
          _ \<leftarrow> guard_opt (alive s);
          (it, s) \<leftarrow> task t s;
          (status, m, s) \<leftarrow> merge m it s;
          if status \<noteq> MTPNDD_SUCCESS then Some (status, pending, m, s)
          else drain_tasks alive merge task n pending m s
        })"

fun for_tasks ::
  "(mstate \<Rightarrow> bool) \<Rightarrow> (mstate \<Rightarrow> 't \<Rightarrow> bool option)
   \<Rightarrow> ('m \<Rightarrow> 'i \<Rightarrow> mstate \<Rightarrow> (mtpndd_error \<times> 'm \<times> mstate) option)
   \<Rightarrow> ('t \<Rightarrow> mstate \<Rightarrow> ('i \<times> mstate) option) \<Rightarrow> 't list \<Rightarrow> 't list \<Rightarrow> 'm \<Rightarrow> mstate
   \<Rightarrow> (mtpndd_error \<times> 't list \<times> 'm \<times> mstate) option" where
  "for_tasks alive spawn merge task [] pending m s = Some (MTPNDD_SUCCESS, pending, m, s)"
| "for_tasks alive spawn merge task (t # ts) pending m s = do {
     _ \<leftarrow> guard_opt (alive s);
     sp \<leftarrow> spawn s t;
     (status, pending, m, s) \<leftarrow>
       (if sp then Some (MTPNDD_SUCCESS, t # pending, m, s)
        else do {
          (it, s) \<leftarrow> task t s;
          (status, m, s) \<leftarrow> merge m it s;
          Some (status, pending, m, s)
        });
     if status \<noteq> MTPNDD_SUCCESS then Some (status, pending, m, s)
     else do {
       (status, pending, m, s) \<leftarrow>
         (if MTPNDD_ARITH_PENDING_FLUSH_THRESHOLD \<le> length pending
          then drain_tasks alive merge task
                 (length pending - MTPNDD_ARITH_PENDING_FLUSH_THRESHOLD div 2) pending m s
          else Some (MTPNDD_SUCCESS, pending, m, s));
       if status \<noteq> MTPNDD_SUCCESS then Some (status, pending, m, s)
       else for_tasks alive spawn merge task ts pending m s
     }
   }"

definition run_tasks ::
  "(mstate \<Rightarrow> bool) \<Rightarrow> (mstate \<Rightarrow> 't \<Rightarrow> bool option)
   \<Rightarrow> ('m \<Rightarrow> 'i \<Rightarrow> mstate \<Rightarrow> (mtpndd_error \<times> 'm \<times> mstate) option)
   \<Rightarrow> ('t \<Rightarrow> mstate \<Rightarrow> ('i \<times> mstate) option) \<Rightarrow> 't list \<Rightarrow> 'm \<Rightarrow> mstate
   \<Rightarrow> (mtpndd_error \<times> 'm \<times> mstate) option" where
  "run_tasks alive spawn merge task ts m s = do {
     (status, pending, m, s) \<leftarrow> for_tasks alive spawn merge task ts [] m s;
     if status \<noteq> MTPNDD_SUCCESS then Some (status, m, s)
     else do {
       (status, pending, m, s) \<leftarrow> drain_tasks alive merge task (length pending) pending m s;
       Some (status, m, s)
     }
   }"

section \<open>Addition and multiplication\<close>

text \<open>
  The result of a build function: whether it succeeded, the unions of labels that are still
  referenced, the pins and the map.
\<close>

type_synonym arith_built = "(bool \<times> bdd list \<times> pin_list \<times> mtpndd_edge \<times> mstate) option"

definition plus_build_same :: "sylvan \<Rightarrow> rec2 \<Rightarrow> ptr \<Rightarrow> ptr \<Rightarrow> mtpndd_edge \<Rightarrow> mstate \<Rightarrow> arith_built" where
  "plus_build_same S rec a b res_edges s = do {
     ma \<leftarrow> node_edges s a;
     mb \<leftarrow> node_edges s b;
     es_a \<leftarrow> for_each_entry s ma;
     let alive = operands a ma b mb;
     (status, (pins, res_edges), s) \<leftarrow>
       run_tasks alive (\<lambda>s ea. arith_should_spawn_row s (ee_child ea) b)
         (merge_arith_chunk S) (mtpndd_plus_same_row S alive rec b) es_a (pin_list_init, res_edges) s;
     if status \<noteq> MTPNDD_SUCCESS then Some (False, [], pins, res_edges, s)
     else do {
       _ \<leftarrow> guard_opt (alive s);
       (or_a, s) \<leftarrow> edge_map_label_union S ma s;
       (or_b, s) \<leftarrow> edge_map_label_union S mb s;
       (ok, pins, res_edges, s) \<leftarrow> add_residuals S alive keep_child or_b es_a pins res_edges s;
       if \<not> ok then Some (False, [or_a, or_b], pins, res_edges, s)
       else do {
         _ \<leftarrow> guard_opt (alive s);
         es_b \<leftarrow> for_each_entry s mb;
         (ok, pins, res_edges, s) \<leftarrow> add_residuals S alive keep_child or_a es_b pins res_edges s;
         Some (ok, [or_a, or_b], pins, res_edges, s)
       }
     }
   }"

definition plus_build_diff ::
  "sylvan \<Rightarrow> rec2 \<Rightarrow> ptr \<Rightarrow> ptr \<Rightarrow> mtpndd_edge \<Rightarrow> mstate \<Rightarrow> arith_built" where
  "plus_build_diff S rec top_node other res_edges s = do {
     mt \<leftarrow> node_edges s top_node;
     (or_a, s) \<leftarrow> edge_map_label_union S mt s;
     es \<leftarrow> for_each_entry s mt;
     (status, (pins, res_edges), s) \<leftarrow>
       run_tasks (\<lambda>s. node_edges s top_node = Some mt) (\<lambda>s e. arith_should_spawn s (ee_child e) other)
         (merge_arith_item S) (mtpndd_plus_diff_pair S rec other) es (pin_list_init, res_edges) s;
     if status \<noteq> MTPNDD_SUCCESS then Some (False, [or_a], pins, res_edges, s)
     else do {
       let not_or_top = sylvan_not S or_a;
       let s = sylvan_ref not_or_top s;
       if not_or_top = sylvan_false S
       then Some (True, [or_a], pins, res_edges, sylvan_deref not_or_top s)
       else do {
         (ok, pins, s) \<leftarrow> pin_list_push pins other s;
         if \<not> ok then Some (False, [or_a], pins, res_edges, sylvan_deref not_or_top s)
         else do {
           (status, res_edges, s) \<leftarrow> mtpndd_add_edge S res_edges other not_or_top s;
           Some (status = MTPNDD_SUCCESS, [or_a], pins, res_edges, s)
         }
       }
     }
   }"

definition times_build_same :: "sylvan \<Rightarrow> rec2 \<Rightarrow> ptr \<Rightarrow> ptr \<Rightarrow> mtpndd_edge \<Rightarrow> mstate \<Rightarrow> arith_built" where
  "times_build_same S rec a b res_edges s = do {
     ma \<leftarrow> node_edges s a;
     mb \<leftarrow> node_edges s b;
     es_a \<leftarrow> for_each_entry s ma;
     let alive = operands a ma b mb;
     (status, (pins, res_edges), s) \<leftarrow>
       run_tasks alive (\<lambda>s ea. arith_should_spawn_row s (ee_child ea) b)
         (merge_arith_chunk S) (mtpndd_times_same_row S alive rec b) es_a (pin_list_init, res_edges) s;
     Some (status = MTPNDD_SUCCESS, [], pins, res_edges, s)
   }"

definition times_build_diff ::
  "sylvan \<Rightarrow> rec2 \<Rightarrow> ptr \<Rightarrow> ptr \<Rightarrow> mtpndd_edge \<Rightarrow> mstate \<Rightarrow> arith_built" where
  "times_build_diff S rec top_node other res_edges s = do {
     mt \<leftarrow> node_edges s top_node;
     es \<leftarrow> for_each_entry s mt;
     (status, (pins, res_edges), s) \<leftarrow>
       run_tasks (\<lambda>s. node_edges s top_node = Some mt) (\<lambda>s e. arith_should_spawn s (ee_child e) other)
         (merge_arith_item S) (mtpndd_times_diff_pair S rec other) es (pin_list_init, res_edges) s;
     Some (status = MTPNDD_SUCCESS, [], pins, res_edges, s)
   }"

text \<open>
  The frame \<open>plus\<close> and \<open>times\<close> share after the cache lookup: acquire the map, build, make the node.
\<close>

definition arith_build ::
  "(ptr \<Rightarrow> ptr \<Rightarrow> mtpndd_edge \<Rightarrow> mstate \<Rightarrow> arith_built) \<Rightarrow> (ptr \<Rightarrow> ptr \<Rightarrow> mtpndd_edge \<Rightarrow> mstate \<Rightarrow> arith_built)
   \<Rightarrow> sylvan \<Rightarrow> string \<Rightarrow> nat \<Rightarrow> rec2" where
  "arith_build build_same build_diff S fn line a b s = do {
     a_leaf \<leftarrow> mtpndd_is_leaf s a;
     b_leaf \<leftarrow> mtpndd_is_leaf s b;
     fa \<leftarrow> level_of a_leaf a s;
     fb \<leftarrow> level_of b_leaf b s;
     case mtpndd_memory_acquire_edge_map s of
       (None, s) \<Rightarrow> Some (NULL, mtpndd_set_error MTPNDD_ERROR_OUT_OF_MEMORY fn line s)
     | (Some res_edges, s) \<Rightarrow> do {
         res_edges \<leftarrow> mtpndd_edge_map_init s res_edges;
         (ok, ors, pins, res_edges, s) \<leftarrow>
           (if \<not> a_leaf \<and> \<not> b_leaf \<and> fa = fb then build_same a b res_edges s
            else if fa < fb then build_diff a b res_edges s
            else build_diff b a res_edges s);
         let s = fold sylvan_deref ors s;
         if \<not> ok then arith_fail pins res_edges s
         else do {
           field \<leftarrow> arith_target a_leaf b_leaf a b s;
           arith_finish S field pins res_edges s
         }
       }
   }"

definition plus_body :: "sylvan \<Rightarrow> double_ops \<Rightarrow> rec2 \<Rightarrow> rec2" where
  "plus_body S D rec a b s =
     (if a = NULL \<or> b = NULL then Some (NULL, s)
      else if a = MTPNDD_FALSE then Some (b, s)
      else if b = MTPNDD_FALSE then Some (a, s)
      else do {
        leaves \<leftarrow> both mtpndd_is_leaf s a b;
        if leaves then leaf_add D a b s
        else do {
          let (ka, kb) = sort_operands a b;
          cached \<leftarrow> mtpndd_op_cache_lookup_binary s (or_cache s) ka kb;
          if cached \<noteq> NULL then Some (cached, s)
          else do {
            (res, s) \<leftarrow> arith_build (plus_build_same S rec) (plus_build_diff S rec) S ''mtpndd_plus_rec'' 859 a b s;
            if res = NULL then Some (NULL, s)
            else do {
              c \<leftarrow> mtpndd_op_cache_store_binary s (or_cache s) ka kb res;
              Some (res, s\<lparr>or_cache := c\<rparr>)
            }
          }
        }
      })"

primrec mtpndd_plus_rec :: "nat \<Rightarrow> sylvan \<Rightarrow> double_ops \<Rightarrow> rec2" where
  "mtpndd_plus_rec 0 S D = (\<lambda>a b s. None)"
| "mtpndd_plus_rec (Suc k) S D = plus_body S D (mtpndd_plus_rec k S D)"

definition times_body :: "sylvan \<Rightarrow> double_ops \<Rightarrow> rec2 \<Rightarrow> rec2" where
  "times_body S D rec a b s =
     (if a = NULL \<or> b = NULL then Some (NULL, s)
      else if a = MTPNDD_FALSE \<or> b = MTPNDD_FALSE then Some (MTPNDD_FALSE, s)
      else if a = MTPNDD_TRUE then Some (b, s)
      else if b = MTPNDD_TRUE then Some (a, s)
      else do {
        leaves \<leftarrow> both mtpndd_is_leaf s a b;
        if leaves then leaf_mul D a b s
        else do {
          let (ka, kb) = sort_operands a b;
          cached \<leftarrow> mtpndd_op_cache_lookup_binary s (and_cache s) ka kb;
          if cached \<noteq> NULL then Some (cached, s)
          else do {
            (res, s) \<leftarrow> arith_build (times_build_same S rec) (times_build_diff S rec) S ''mtpndd_times_rec'' 1080 a b s;
            if res = NULL then Some (NULL, s)
            else do {
              c \<leftarrow> mtpndd_op_cache_store_binary s (and_cache s) ka kb res;
              Some (res, s\<lparr>and_cache := c\<rparr>)
            }
          }
        }
      })"

primrec mtpndd_times_rec :: "nat \<Rightarrow> sylvan \<Rightarrow> double_ops \<Rightarrow> rec2" where
  "mtpndd_times_rec 0 S D = (\<lambda>a b s. None)"
| "mtpndd_times_rec (Suc k) S D = times_body S D (mtpndd_times_rec k S D)"

section \<open>Subtraction\<close>

datatype additive_op = OP_PLUS | OP_MINUS

definition additive_recurse :: "rec2 \<Rightarrow> rec2 \<Rightarrow> additive_op \<Rightarrow> rec2" where
  "additive_recurse do_plus do_minus op = (case op of OP_PLUS \<Rightarrow> do_plus | OP_MINUS \<Rightarrow> do_minus)"

definition additive_b_residual_child :: "rec1 \<Rightarrow> additive_op \<Rightarrow> rec1" where
  "additive_b_residual_child negate op = (case op of OP_PLUS \<Rightarrow> keep_child | OP_MINUS \<Rightarrow> negate)"

definition additive_same ::
  "sylvan \<Rightarrow> rec2 \<Rightarrow> rec1 \<Rightarrow> ptr \<Rightarrow> ptr \<Rightarrow> mtpndd_edge \<Rightarrow> mstate \<Rightarrow> arith_built" where
  "additive_same S rec residual_child a b res_edges s = do {
     ma \<leftarrow> node_edges s a;
     mb \<leftarrow> node_edges s b;
     (or_a, s) \<leftarrow> edge_map_label_union S ma s;
     (or_b, s) \<leftarrow> edge_map_label_union S mb s;
     es_a \<leftarrow> for_each_entry s ma;
     es_b \<leftarrow> for_each_entry s mb;
     let alive = operands a ma b mb;
     (ok, pins, res_edges, s) \<leftarrow>
       pair_edges S alive rec (List.product es_a es_b) pin_list_init res_edges s;
     if \<not> ok then Some (False, [or_a, or_b], pins, res_edges, s)
     else do {
       (ok, pins, res_edges, s) \<leftarrow> add_residuals S alive keep_child or_b es_a pins res_edges s;
       if \<not> ok then Some (False, [or_a, or_b], pins, res_edges, s)
       else do {
         (ok, pins, res_edges, s) \<leftarrow> add_residuals S alive residual_child or_a es_b pins res_edges s;
         Some (ok, [or_a, or_b], pins, res_edges, s)
       }
     }
   }"

text \<open>What stands outside the labels of the top operand; \<open>a_is_top\<close> and \<open>OP_MINUS\<close>: the negated other.\<close>

definition additive_top_residual ::
  "sylvan \<Rightarrow> rec1 \<Rightarrow> additive_op \<Rightarrow> bool \<Rightarrow> ptr \<Rightarrow> bdd \<Rightarrow> pin_list \<Rightarrow> mtpndd_edge \<Rightarrow> mstate
   \<Rightarrow> (bool \<times> pin_list \<times> mtpndd_edge \<times> mstate) option" where
  "additive_top_residual S negate op a_is_top other not_or_top pins res_edges s = do {
     (ok, residual_child, pins, s) \<leftarrow>
       (if op = OP_MINUS \<and> a_is_top
        then do {
          (residual_child, s) \<leftarrow> negate other s;
          if residual_child = NULL then Some (False, NULL, pins, s)
          else do {
            (ok, pins, s) \<leftarrow> pin_list_push pins residual_child s;
            Some (ok, residual_child, pins, s)
          }
        }
        else Some (True, other, pins, s));
     if \<not> ok then Some (False, pins, res_edges, sylvan_deref not_or_top s)
     else do {
       (ok, pins, s) \<leftarrow> pin_list_push pins residual_child s;
       if \<not> ok then Some (False, pins, res_edges, sylvan_deref not_or_top s)
       else do {
         (status, res_edges, s) \<leftarrow> mtpndd_add_edge S res_edges residual_child not_or_top s;
         Some (status = MTPNDD_SUCCESS, pins, res_edges, s)
       }
     }
   }"

definition additive_diff ::
  "sylvan \<Rightarrow> rec2 \<Rightarrow> rec1 \<Rightarrow> additive_op \<Rightarrow> bool \<Rightarrow> ptr \<Rightarrow> ptr \<Rightarrow> mtpndd_edge \<Rightarrow> mstate \<Rightarrow> arith_built" where
  "additive_diff S rec negate op a_is_top top_node other res_edges s = do {
     mt \<leftarrow> node_edges s top_node;
     (or_a, s) \<leftarrow> edge_map_label_union S mt s;
     es \<leftarrow> for_each_entry s mt;
     (ok, pins, res_edges, s) \<leftarrow>
       rebuild_edges S (\<lambda>s. node_edges s top_node = Some mt)
         (\<lambda>c. if a_is_top then rec c other else rec other c) es pin_list_init res_edges s;
     if \<not> ok then Some (False, [or_a], pins, res_edges, s)
     else do {
       let not_or_top = sylvan_not S or_a;
       let s = sylvan_ref not_or_top s;
       if not_or_top = sylvan_false S
       then Some (True, [or_a], pins, res_edges, sylvan_deref not_or_top s)
       else do {
         (ok, pins, res_edges, s) \<leftarrow>
           additive_top_residual S negate op a_is_top other not_or_top pins res_edges s;
         Some (ok, [or_a], pins, res_edges, s)
       }
     }
   }"

definition additive_build :: "sylvan \<Rightarrow> rec2 \<Rightarrow> rec2 \<Rightarrow> rec1 \<Rightarrow> additive_op \<Rightarrow> rec2" where
  "additive_build S do_plus do_minus negate op a b s = do {
     a_leaf \<leftarrow> mtpndd_is_leaf s a;
     b_leaf \<leftarrow> mtpndd_is_leaf s b;
     fa \<leftarrow> level_of a_leaf a s;
     fb \<leftarrow> level_of b_leaf b s;
     case mtpndd_memory_acquire_edge_map s of
       (None, s) \<Rightarrow> Some (NULL, mtpndd_set_error MTPNDD_ERROR_OUT_OF_MEMORY ''additive_build'' 686 s)
     | (Some res_edges, s) \<Rightarrow> do {
         res_edges \<leftarrow> mtpndd_edge_map_init s res_edges;
         let rec = additive_recurse do_plus do_minus op;
         (ok, ors, pins, res_edges, s) \<leftarrow>
           (if \<not> a_leaf \<and> \<not> b_leaf \<and> fa = fb
            then additive_same S rec (additive_b_residual_child negate op) a b res_edges s
            else if fa < fb then additive_diff S rec negate op True a b res_edges s
            else additive_diff S rec negate op False b a res_edges s);
         let s = fold sylvan_deref ors s;
         if \<not> ok then arith_fail pins res_edges s
         else do {
           field \<leftarrow> (if a_leaf then node_field s b else if b_leaf then node_field s a
                      else Some (if fa < fb then fa else fb));
           arith_finish S field pins res_edges s
         }
       }
   }"

definition minus_body :: "sylvan \<Rightarrow> double_ops \<Rightarrow> rec2 \<Rightarrow> rec2 \<Rightarrow> rec1 \<Rightarrow> rec2" where
  "minus_body S D do_plus rec negate a b s =
     (if a = NULL \<or> b = NULL then Some (NULL, s)
      else if b = MTPNDD_FALSE then Some (a, s)
      else if a = MTPNDD_FALSE then negate b s
      else if a = b then Some (MTPNDD_FALSE, s)
      else do {
        leaves \<leftarrow> both mtpndd_is_leaf s a b;
        if leaves then leaf_sub D a b s
        else additive_build S do_plus rec negate OP_MINUS a b s
      })"

primrec mtpndd_minus_rec :: "nat \<Rightarrow> sylvan \<Rightarrow> double_ops \<Rightarrow> rec2" where
  "mtpndd_minus_rec 0 S D = (\<lambda>a b s. None)"
| "mtpndd_minus_rec (Suc k) S D =
     minus_body S D (mtpndd_plus_rec k S D) (mtpndd_minus_rec k S D) (mtpndd_negate_rec (Suc k) S D)"

section \<open>Division\<close>

definition divide_invalid :: "nat \<Rightarrow> mtpndd_edge \<Rightarrow> mstate \<Rightarrow> arith_built" where
  "divide_invalid line res_edges s =
     Some (False, [], pin_list_init, res_edges,
           mtpndd_set_error MTPNDD_ERROR_INVALID_PARAM ''mtpndd_divide_rec'' line s)"

definition divide_same :: "sylvan \<Rightarrow> rec2 \<Rightarrow> ptr \<Rightarrow> ptr \<Rightarrow> mtpndd_edge \<Rightarrow> mstate \<Rightarrow> arith_built" where
  "divide_same S rec a b res_edges s = do {
     ma \<leftarrow> node_edges s a;
     mb \<leftarrow> node_edges s b;
     (or_b, s) \<leftarrow> edge_map_label_union S mb s;
     let not_or_b = sylvan_not S or_b;
     let s = sylvan_deref or_b (sylvan_ref not_or_b s);
     (or_a, s) \<leftarrow> edge_map_label_union S ma s;
     let conflict = sylvan_and S or_a not_or_b;
     let s = sylvan_deref conflict (sylvan_deref not_or_b (sylvan_deref or_a (sylvan_ref conflict s)));
     if conflict \<noteq> sylvan_false S then divide_invalid 1249 res_edges s
     else do {
       es_a \<leftarrow> for_each_entry s ma;
       es_b \<leftarrow> for_each_entry s mb;
       (ok, pins, res_edges, s) \<leftarrow>
         pair_edges S (operands a ma b mb) rec (List.product es_a es_b) pin_list_init res_edges s;
       Some (ok, [], pins, res_edges, s)
     }
   }"

definition divide_diff ::
  "sylvan \<Rightarrow> rec2 \<Rightarrow> bool \<Rightarrow> ptr \<Rightarrow> ptr \<Rightarrow> mtpndd_edge \<Rightarrow> mstate \<Rightarrow> arith_built" where
  "divide_diff S rec a_is_top top_node other res_edges s = do {
     mt \<leftarrow> node_edges s top_node;
     (covered, s) \<leftarrow>
       (if a_is_top then Some (True, s)
        else do {
          (or_top, s) \<leftarrow> edge_map_label_union S mt s;
          let not_or_top = sylvan_not S or_top;
          let s = sylvan_deref not_or_top (sylvan_deref or_top (sylvan_ref not_or_top s));
          Some (not_or_top = sylvan_false S, s)
        });
     if \<not> covered then divide_invalid 1293 res_edges s
     else do {
       es \<leftarrow> for_each_entry s mt;
       (ok, pins, res_edges, s) \<leftarrow>
         rebuild_edges S (\<lambda>s. node_edges s top_node = Some mt)
           (\<lambda>c. if a_is_top then rec c other else rec other c) es pin_list_init res_edges s;
       Some (ok, [], pins, res_edges, s)
     }
   }"

definition divide_body :: "sylvan \<Rightarrow> double_ops \<Rightarrow> rec2 \<Rightarrow> rec2" where
  "divide_body S D rec a b s =
     (if a = NULL \<or> b = NULL then Some (NULL, s)
      else if b = MTPNDD_FALSE
      then Some (NULL, mtpndd_set_error MTPNDD_ERROR_INVALID_PARAM ''mtpndd_divide_rec'' 1205 s)
      else if a = MTPNDD_FALSE then Some (MTPNDD_FALSE, s)
      else if b = MTPNDD_TRUE then Some (a, s)
      else if a = b then Some (MTPNDD_TRUE, s)
      else do {
        leaves \<leftarrow> both mtpndd_is_leaf s a b;
        if leaves then leaf_div D a b s
        else arith_build (divide_same S rec)
               (\<lambda>top_node other. divide_diff S rec (top_node = a) top_node other) S ''mtpndd_divide_rec'' 1222 a b s
      })"

primrec mtpndd_divide_rec :: "nat \<Rightarrow> sylvan \<Rightarrow> double_ops \<Rightarrow> rec2" where
  "mtpndd_divide_rec 0 S D = (\<lambda>a b s. None)"
| "mtpndd_divide_rec (Suc k) S D = divide_body S D (mtpndd_divide_rec k S D)"

section \<open>Public operations\<close>

definition arith_entry :: "string \<Rightarrow> nat \<Rightarrow> nat \<Rightarrow> rec2 \<Rightarrow> rec2" where
  "arith_entry fn line_init line_null run a b s =
     (if \<not> mtpndd_is_initialized s
      then Some (NULL, mtpndd_set_error MTPNDD_ERROR_NOT_INITIALIZED fn line_init s)
      else if a = NULL \<or> b = NULL
      then Some (NULL, mtpndd_set_error MTPNDD_ERROR_NULL_POINTER fn line_null s)
      else run a b s)"

definition mtpndd_plus :: "sylvan \<Rightarrow> double_ops \<Rightarrow> rec2" where
  "mtpndd_plus S D a b s = arith_entry ''mtpndd_plus'' 1338 1342 (mtpndd_plus_rec (op_fuel s) S D) a b s"

definition mtpndd_minus :: "sylvan \<Rightarrow> double_ops \<Rightarrow> rec2" where
  "mtpndd_minus S D a b s = arith_entry ''mtpndd_minus'' 1349 1350 (mtpndd_minus_rec (op_fuel s) S D) a b s"

definition mtpndd_times :: "sylvan \<Rightarrow> double_ops \<Rightarrow> rec2" where
  "mtpndd_times S D a b s = arith_entry ''mtpndd_times'' 1355 1356 (mtpndd_times_rec (op_fuel s) S D) a b s"

definition mtpndd_divide :: "sylvan \<Rightarrow> double_ops \<Rightarrow> rec2" where
  "mtpndd_divide S D a b s = arith_entry ''mtpndd_divide'' 1361 1362 (mtpndd_divide_rec (op_fuel s) S D) a b s"

section \<open>Summation over a field\<close>

text \<open>\<open>g_mtpndd_config.pending_field_bit_widths[target - 1]\<close>\<close>

definition field_bits :: "nat \<Rightarrow> mstate \<Rightarrow> nat option" where
  "field_bits target s =
     (if target \<noteq> 0 \<and> target - 1 < length (pending_field_bit_widths s)
      then Some (pending_field_bit_widths s ! (target - 1)) else None)"

definition abstract_scale_factor :: "nat \<Rightarrow> mstate \<Rightarrow> (ptr \<times> mstate) option" where
  "abstract_scale_factor target s =
     (if target = 0 \<or> field_count s < target
      then Some (NULL, mtpndd_set_error MTPNDD_ERROR_INVALID_FIELD ''abstract_scale_factor'' 1380 s)
      else do {
        bits \<leftarrow> field_bits target s;
        if 30 < bits
        then Some (NULL, mtpndd_set_error MTPNDD_ERROR_INVALID_PARAM ''abstract_scale_factor'' 1385 s)
        else mtpndd_make_fraction (2 ^ bits) 1 s
      })"

definition scale_node :: "rec2 \<Rightarrow> nat \<Rightarrow> ptr \<Rightarrow> mstate \<Rightarrow> (ptr \<times> mstate) option" where
  "scale_node do_times target node s = do {
     (factor, s) \<leftarrow> abstract_scale_factor target s;
     if factor = NULL then Some (NULL, s) else do_times node factor s
   }"

definition drop_acc :: "ptr \<Rightarrow> mstate \<Rightarrow> mstate option" where
  "drop_acc acc s = (if acc \<noteq> MTPNDD_FALSE then deref_node acc s else Some s)"

text \<open>The number of assignments of the field that satisfy a label; a shift by 64 or more is undefined.\<close>

definition label_weight ::
  "sylvan \<Rightarrow> sylvan_query \<Rightarrow> double_ops \<Rightarrow> nat \<Rightarrow> bdd \<Rightarrow> int option" where
  "label_weight S Q D target_bits lab =
     (if lab = sylvan_true S
      then do { _ \<leftarrow> guard_opt (target_bits < 64); d_to_i64 D (d_of_u64 D (2 ^ target_bits)) }
      else d_to_i64 D (mtbdd_satcount Q lab target_bits))"

fun collapse_edges ::
  "sylvan \<Rightarrow> sylvan_query \<Rightarrow> double_ops \<Rightarrow> (mstate \<Rightarrow> bool) \<Rightarrow> rec2 \<Rightarrow> rec2 \<Rightarrow> nat \<Rightarrow> edge_bucket_entry list \<Rightarrow> ptr
   \<Rightarrow> mstate \<Rightarrow> (ptr \<times> mstate) option" where
  "collapse_edges S Q D alive do_times do_plus target_bits [] acc s = do {
     s \<leftarrow> drop_acc acc s;
     Some (acc, s)
   }"
| "collapse_edges S Q D alive do_times do_plus target_bits (e # es) acc s = do {
     _ \<leftarrow> guard_opt (alive s);
     count \<leftarrow> label_weight S Q D target_bits (mtpndd_edge_label_load S (Some e));
     if count < 0 \<or> INT32_MAX < count
     then do {
       s \<leftarrow> drop_acc acc (mtpndd_set_error MTPNDD_ERROR_INVALID_PARAM ''mtpndd_abstract_plus_rec'' 1430 s);
       Some (NULL, s)
     }
     else do {
       (weight, s) \<leftarrow> mtpndd_make_fraction count 1 s;
       if weight = NULL then do { s \<leftarrow> drop_acc acc s; Some (NULL, s) }
       else do {
         (weighted, s) \<leftarrow> do_times (ee_child e) weight s;
         if weighted = NULL then do { s \<leftarrow> drop_acc acc s; Some (NULL, s) }
         else do {
           (_, s) \<leftarrow> mtpndd_ref weighted s;
           (new_acc, s) \<leftarrow> do_plus acc weighted s;
           s \<leftarrow> deref_node weighted s;
           s \<leftarrow> drop_acc acc s;
           if new_acc = NULL then Some (NULL, s)
           else do {
             (_, s) \<leftarrow> mtpndd_ref new_acc s;
             collapse_edges S Q D alive do_times do_plus target_bits es new_acc s
           }
         }
       }
     }
   }"

definition abstract_plus_body ::
  "sylvan \<Rightarrow> sylvan_query \<Rightarrow> double_ops \<Rightarrow> rec2 \<Rightarrow> rec2 \<Rightarrow> nat \<Rightarrow> rec1 \<Rightarrow> rec1" where
  "abstract_plus_body S Q D do_times do_plus target rec node s =
     (if node = NULL then Some (NULL, s)
      else do {
        t \<leftarrow> mtpndd_is_terminal s node;
        f \<leftarrow> node_field s node;
        if t \<or> target < f then scale_node do_times target node s
        else do {
          m \<leftarrow> node_edges s node;
          es \<leftarrow> for_each_entry s m;
          let alive = (\<lambda>s. node_edges s node = Some m);
          if f = target
          then do {
            target_bits \<leftarrow> field_bits target s;
            collapse_edges S Q D alive do_times do_plus target_bits es MTPNDD_FALSE s
          }
          else case mtpndd_memory_acquire_edge_map s of
            (None, s) \<Rightarrow> Some (NULL, mtpndd_set_error MTPNDD_ERROR_OUT_OF_MEMORY
                                      ''mtpndd_abstract_plus_rec'' 1472 s)
          | (Some res_edges, s) \<Rightarrow> do {
              res_edges \<leftarrow> mtpndd_edge_map_init s res_edges;
              (ok, pins, res_edges, s) \<leftarrow> rebuild_edges S alive rec es pin_list_init res_edges s;
              if \<not> ok then arith_fail pins res_edges s
              else do { f \<leftarrow> node_field s node; arith_finish S f pins res_edges s }
            }
        }
      })"

primrec mtpndd_abstract_plus_rec ::
  "nat \<Rightarrow> sylvan \<Rightarrow> sylvan_query \<Rightarrow> double_ops \<Rightarrow> rec2 \<Rightarrow> rec2 \<Rightarrow> nat \<Rightarrow> rec1" where
  "mtpndd_abstract_plus_rec 0 S Q D do_times do_plus target = (\<lambda>node s. None)"
| "mtpndd_abstract_plus_rec (Suc k) S Q D do_times do_plus target =
     abstract_plus_body S Q D do_times do_plus target (mtpndd_abstract_plus_rec k S Q D do_times do_plus target)"

definition mtpndd_abstract_plus ::
  "sylvan \<Rightarrow> sylvan_query \<Rightarrow> double_ops \<Rightarrow> ptr \<Rightarrow> nat \<Rightarrow> mstate \<Rightarrow> (ptr \<times> mstate) option" where
  "mtpndd_abstract_plus S Q D root_node field s =
     (if \<not> mtpndd_is_initialized s
      then Some (NULL, mtpndd_set_error MTPNDD_ERROR_NOT_INITIALIZED ''mtpndd_abstract_plus'' 1511 s)
      else if root_node = NULL
      then Some (NULL, mtpndd_set_error MTPNDD_ERROR_NULL_POINTER ''mtpndd_abstract_plus'' 1512 s)
      else if field = 0 \<or> field_count s < field
      then Some (NULL, mtpndd_set_error MTPNDD_ERROR_INVALID_FIELD ''mtpndd_abstract_plus'' 1514 s)
      else mtpndd_abstract_plus_rec (op_fuel s) S Q D (mtpndd_times_rec (op_fuel s) S D)
             (mtpndd_plus_rec (op_fuel s) S D) field root_node s)"

end
