(* ===== verification/Arith_Cache.thy ===== *)
theory Arith_Cache
  imports Arith_Ops
begin

text \<open>
  Addition looks its result up in the cache of OR, multiplication in the cache of AND.  The
  lemmas follow an entry from the Boolean operation that stores it to the arithmetic operation
  that finds it.
\<close>

lemma lookup_after_store:
  assumes "mtpndd_op_cache_store_binary s cache a b r = Some (Some c)"
    and "r \<noteq> NULL" "r \<noteq> kMtpnddOpCacheWriteLock" "oc_arity c = 2" "oc_capacity c \<noteq> 0"
    and "nodes s' = nodes s"
  shows "mtpndd_op_cache_lookup_binary s' (Some c) a b = Some r"
proof -
  obtain c0 where c0: "cache = Some c0" using assms(1) by (auto simp: mtpndd_op_cache_store_binary_def split: option.splits)
  have h: "mtpndd_hash_node_identity s' p = mtpndd_hash_node_identity s p" for p
    using assms(6) by (simp add: mtpndd_hash_node_identity_def)
  show ?thesis
  proof (cases "oc_arity c0 \<noteq> 2 \<or> oc_capacity c0 = 0")
    case True
    then have "c = c0" using assms(1) c0 by (auto simp: mtpndd_op_cache_store_binary_def)
    then show ?thesis using True assms(4,5) by simp
  next
    case False
    then obtain i e e' where i: "mtpndd_op_cache_hash_binary_index s c0 a b = Some i" "cache_slot c0 i = Some e"
      "store_slot a b r e = Some e'" "c = c0\<lparr>oc_entries := (oc_entries c0)[i := e']\<rparr>"
      using assms(1,2) c0 by (auto simp: mtpndd_op_cache_store_binary_def bind_eq_Some_conv)
    have "mtpndd_op_cache_hash_binary_index s' c a b = Some i"
      using i(1,4) h by (simp add: mtpndd_op_cache_hash_binary_index_def)
    moreover have "cache_slot c i = Some e'" using i(2,4) by (auto simp: cache_slot_def split: if_splits)
    moreover have "oc_op0 e' = a \<and> oc_op1 e' = b \<and> oc_result e' = r"
      using i(3) by (auto simp: store_slot_def bind_eq_Some_conv)
    ultimately show ?thesis using assms(2-5) by (simp add: mtpndd_op_cache_lookup_binary_def)
  qed
qed

lemma give_up_null: "give_up f m s = Some (r, s') \<Longrightarrow> r = NULL" "give_up_free f m s = Some (r, s') \<Longrightarrow> r = NULL"
  by (auto simp: give_up_def give_up_free_def bind_eq_Some_conv)

text \<open>How OR ends on two nodes that are not constant: a hit, or a store.\<close>

lemma or_body_end:
  assumes "or_body S rec a b s = Some (r, s1)" "r \<noteq> NULL"
    and "a \<notin> {MTPNDD_TRUE, MTPNDD_FALSE}" "b \<notin> {MTPNDD_TRUE, MTPNDD_FALSE}" "a \<noteq> b"
  obtains (hit) "s1 = s" "mtpndd_op_cache_lookup_binary s (or_cache s) (fst (sort_operands a b)) (snd (sort_operands a b)) = Some r"
  | (store) s2 c where "s1 = s2\<lparr>or_cache := c\<rparr>"
      "mtpndd_op_cache_store_binary s2 (or_cache s2) (fst (sort_operands a b)) (snd (sort_operands a b)) r = Some c"
proof -
  obtain ca cb where ops: "sort_operands a b = (ca, cb)" by fastforce
  have fin: thesis if "(case built of None \<Rightarrow> Some (NULL, s2)
      | Some res_edges \<Rightarrow> do {
          field \<leftarrow> node_field s2 p;
          (res_node, s) \<leftarrow> mtpndd_mk S field res_edges s2;
          if res_node = NULL then give_up_free frame res_edges s
          else do {
            s \<leftarrow> mtpndd_temp_refs_release frame s;
            c \<leftarrow> mtpndd_op_cache_store_binary s (or_cache s) ca cb res_node;
            Some (res_node, s\<lparr>or_cache := c\<rparr>)
          }
        }) = Some (r, s1)" for built s2 p frame
    using that assms(2) store unfolding ops
    by (auto simp: bind_eq_Some_conv split: prod.splits option.splits if_splits dest: give_up_null(2))
  obtain cached where c: "mtpndd_op_cache_lookup_binary s (or_cache s) ca cb = Some cached"
    using assms(1,3-5) ops by (auto simp: or_body_def mtpndd_is_true_def mtpndd_is_false_def bind_eq_Some_conv)
  show ?thesis
  proof (cases "cached = NULL")
    case False
    then show ?thesis using assms(1,3-5) ops c hit by (simp add: or_body_def mtpndd_is_true_def mtpndd_is_false_def)
  next
    case True
    obtain m0 s0 where a: "mtpndd_memory_acquire_edge_map s = (Some m0, s0)"
      using assms(1-5) ops c True
      by (cases "mtpndd_memory_acquire_edge_map s"; cases "fst (mtpndd_memory_acquire_edge_map s)")
        (simp_all add: or_body_def mtpndd_is_true_def mtpndd_is_false_def)
    show ?thesis using assms(1,3-5) ops c True a
      by (auto simp: or_body_def mtpndd_is_true_def mtpndd_is_false_def Let_def bind_eq_Some_conv split: if_splits intro: fin)
  qed
qed

lemma or_then_lookup:
  assumes "mtpndd_or S a b s = Some (r, s1)" "r \<noteq> NULL" "r \<noteq> kMtpnddOpCacheWriteLock"
    and "a \<notin> {MTPNDD_TRUE, MTPNDD_FALSE}" "b \<notin> {MTPNDD_TRUE, MTPNDD_FALSE}" "a \<noteq> b"
    and "or_cache s1 = Some c" "oc_arity c = 2" "oc_capacity c \<noteq> 0"
  shows "mtpndd_op_cache_lookup_binary s1 (or_cache s1) (fst (sort_operands a b)) (snd (sort_operands a b)) = Some r"
proof -
  obtain k where "op_fuel s = Suc k" by (simp add: op_fuel_def)
  then have "or_body S (mtpndd_or_rec k S) a b s = Some (r, s1)" using assms(1) by (simp add: mtpndd_or_def)
  then show ?thesis using assms(2,4-6)
  proof (cases rule: or_body_end)
    case (store s2 c')
    then have "c' = Some c" using assms(7) by simp
    then show ?thesis using lookup_after_store[of s2 "or_cache s2" _ _ r c s1] store assms(2,3,7-9) by simp
  qed simp
qed

text \<open>A hit in the cache of OR is the result of an addition, whatever stored it.\<close>

lemma plus_hit:
  assumes "mtpndd_is_initialized s" "both mtpndd_is_leaf s a b = Some False" "a \<notin> {NULL, MTPNDD_FALSE}" "b \<notin> {NULL, MTPNDD_FALSE}"
    and "mtpndd_op_cache_lookup_binary s (or_cache s) (fst (sort_operands a b)) (snd (sort_operands a b)) = Some r" "r \<noteq> NULL"
  shows "mtpndd_plus S D a b s = Some (r, s)"
proof -
  obtain k where "op_fuel s = Suc k" by (simp add: op_fuel_def)
  then show ?thesis using assms by (simp add: mtpndd_plus_def arith_entry_def plus_body_def split_beta)
qed

end
