(* ===== verification/Diagram_Walk.thy ===== *)
theory Diagram_Walk
  imports Arith_Ops Diagram_Semantics Bool_Build
begin

text \<open>
  The two traversals of \<open>mtpndd_arith.c\<close> that visit every node once: \<open>mtpndd_leafcount\<close> and
  \<open>mtpndd_abstract_plus_validate\<close>.  Both keep the visited nodes in a hash set with chained
  buckets; when an entry cannot be allocated, the node counts as visited.

  The recursion of a walk is bounded by fuel, \<open>None\<close> when it runs out; a child is in a later field
  than its parent, so two more than the number of fields is enough.
\<close>

section \<open>Visited sets\<close>

record visited_set =
  vs_bucket_count :: nat
  vs_buckets :: "ptr list list"

record lc_set = visited_set +
  leaf_count :: nat

text \<open>
  \<open>lc_set_insert\<close> and \<open>validate_visited_mark\<close> have the same statements; the result is whether the
  node was new.
\<close>

definition visited_insert ::
  "'a visited_set_scheme \<Rightarrow> ptr \<Rightarrow> mstate \<Rightarrow> (bool \<times> 'a visited_set_scheme \<times> mstate) option" where
  "visited_insert st node s = do {
     hash \<leftarrow> mtpndd_hash_node_identity s node;
     let h = mask_index hash (vs_bucket_count st);
     _ \<leftarrow> guard_opt (h < length (vs_buckets st));
     if node \<in> set (vs_buckets st ! h) then Some (False, st, s)
     else let (e, s) = malloc 16 s
          in if e = NULL then Some (False, st, s)
             else Some (True, st\<lparr>vs_buckets := (vs_buckets st)[h := node # vs_buckets st ! h]\<rparr>, s)
   }"

definition lc_set_init :: "nat \<Rightarrow> mstate \<Rightarrow> lc_set option \<times> mstate" where
  "lc_set_init n s =
     (let (p, s) = malloc (n * 8) s
      in (if p = NULL then None
          else Some \<lparr>vs_bucket_count = n, vs_buckets = replicate n [], leaf_count = 0\<rparr>, s))"

definition lc_set_insert :: "lc_set \<Rightarrow> ptr \<Rightarrow> mstate \<Rightarrow> (bool \<times> lc_set \<times> mstate) option" where
  "lc_set_insert = visited_insert"

definition validate_visited_init :: "nat \<Rightarrow> mstate \<Rightarrow> visited_set option \<times> mstate" where
  "validate_visited_init n s =
     (let (p, s) = malloc (n * 8) s
      in (if p = NULL then None else Some \<lparr>vs_bucket_count = n, vs_buckets = replicate n []\<rparr>, s))"

definition validate_visited_mark :: "visited_set \<Rightarrow> ptr \<Rightarrow> mstate \<Rightarrow> (bool \<times> visited_set \<times> mstate) option" where
  "validate_visited_mark = visited_insert"

section \<open>Counting leaves\<close>

fun walk_children ::
  "(ptr \<Rightarrow> 'v \<Rightarrow> mstate \<Rightarrow> ('v \<times> mstate) option) \<Rightarrow> edge_bucket_entry list \<Rightarrow> 'v \<Rightarrow> mstate \<Rightarrow> ('v \<times> mstate) option" where
  "walk_children walk [] st s = Some (st, s)"
| "walk_children walk (e # es) st s = do {
     (st, s) \<leftarrow> walk (ee_child e) st s;
     walk_children walk es st s
   }"

primrec lc_walk :: "nat \<Rightarrow> ptr \<Rightarrow> lc_set \<Rightarrow> mstate \<Rightarrow> (lc_set \<times> mstate) option" where
  "lc_walk 0 = (\<lambda>node st s. None)"
| "lc_walk (Suc k) = (\<lambda>node st s.
     if node = NULL then Some (st, s)
     else do {
       (new, st, s) \<leftarrow> lc_set_insert st node s;
       if \<not> new then Some (st, s)
       else do {
         t \<leftarrow> mtpndd_is_terminal s node;
         if t then Some (st\<lparr>leaf_count := leaf_count st + 1\<rparr>, s)
         else do {
           m \<leftarrow> node_edges s node;
           if buckets m = [] then Some (st, s)
           else do { es \<leftarrow> for_each_entry s m; walk_children (lc_walk k) es st s }
         }
       }
     })"

definition mtpndd_leafcount :: "ptr \<Rightarrow> mstate \<Rightarrow> (nat \<times> mstate) option" where
  "mtpndd_leafcount root_node s =
     (if root_node = NULL then Some (0, s)
      else case lc_set_init 1024 s of
        (None, s) \<Rightarrow> Some (0, s)
      | (Some st, s) \<Rightarrow> do { (st, s) \<leftarrow> lc_walk (op_fuel s) root_node st s; Some (leaf_count st, s) })"

section \<open>Validation\<close>

text \<open>The walk down a support cube; \<open>None\<close> when it does not end.\<close>

partial_function (option) support_within_range ::
  "sylvan \<Rightarrow> sylvan_query \<Rightarrow> bdd \<Rightarrow> nat \<Rightarrow> nat \<Rightarrow> bool option" where
  "support_within_range S Q support start_var bit_width =
     (if support = sylvan_true S then Some True
      else if support = sylvan_false S then Some True
      else let var = sylvan_var Q support
           in if var < start_var \<or> (start_var + bit_width) mod 2 ^ 32 \<le> var then Some False
              else support_within_range S Q (sylvan_high Q support) start_var bit_width)"

definition label_in_range :: "sylvan \<Rightarrow> sylvan_query \<Rightarrow> bdd \<Rightarrow> nat \<Rightarrow> nat \<Rightarrow> bool option" where
  "label_in_range S Q lab start_var bit_width =
     (if lab = sylvan_true S \<or> lab = sylvan_false S then Some True
      else support_within_range S Q (mtbdd_support Q lab) start_var bit_width)"

fun validate_edges ::
  "sylvan \<Rightarrow> sylvan_query \<Rightarrow> (ptr \<Rightarrow> visited_set \<Rightarrow> mstate \<Rightarrow> (bool \<times> visited_set \<times> mstate) option) \<Rightarrow> nat \<Rightarrow> nat
   \<Rightarrow> edge_bucket_entry list \<Rightarrow> visited_set \<Rightarrow> mstate \<Rightarrow> (bool \<times> visited_set \<times> mstate) option" where
  "validate_edges S Q walk start_var bit_width [] vs s = Some (True, vs, s)"
| "validate_edges S Q walk start_var bit_width (e # es) vs s = do {
     in_range \<leftarrow> label_in_range S Q (mtpndd_edge_label_load S (Some e)) start_var bit_width;
     if \<not> in_range
     then Some (False, vs, mtpndd_set_error MTPNDD_ERROR_INVALID_PARAM ''mtpndd_validate_rec'' 1614 s)
     else do {
       (child_ok, vs, s) \<leftarrow> walk (ee_child e) vs s;
       if \<not> child_ok then Some (False, vs, s)
       else validate_edges S Q walk start_var bit_width es vs s
     }
   }"

primrec mtpndd_validate_rec ::
  "nat \<Rightarrow> sylvan \<Rightarrow> sylvan_query \<Rightarrow> ptr \<Rightarrow> visited_set \<Rightarrow> mstate \<Rightarrow> (bool \<times> visited_set \<times> mstate) option" where
  "mtpndd_validate_rec 0 S Q = (\<lambda>node vs s. None)"
| "mtpndd_validate_rec (Suc k) S Q = (\<lambda>node vs s.
     if node = NULL then Some (True, vs, s)
     else do {
       t \<leftarrow> mtpndd_is_terminal s node;
       if t then Some (True, vs, s)
       else do {
         (new, vs, s) \<leftarrow> validate_visited_mark vs node s;
         if \<not> new then Some (True, vs, s)
         else do {
           field \<leftarrow> node_field s node;
           case mtpndd_get_field_info field s of
             (None, s) \<Rightarrow> Some (False, vs, mtpndd_set_error MTPNDD_ERROR_INVALID_FIELD ''mtpndd_validate_rec'' 1596 s)
           | (Some info, s) \<Rightarrow> do {
               m \<leftarrow> node_edges s node;
               if buckets m = [] then Some (True, vs, s)
               else do {
                 es \<leftarrow> for_each_entry s m;
                 validate_edges S Q (mtpndd_validate_rec k S Q) (fi_start_var info) (fi_bit_width info) es vs s
               }
             }
         }
       }
     })"

definition mtpndd_abstract_plus_validate ::
  "sylvan \<Rightarrow> sylvan_query \<Rightarrow> ptr \<Rightarrow> mstate \<Rightarrow> (bool \<times> mstate) option" where
  "mtpndd_abstract_plus_validate S Q root_node s =
     (if \<not> mtpndd_is_initialized s
      then Some (False, mtpndd_set_error MTPNDD_ERROR_NOT_INITIALIZED ''mtpndd_abstract_plus_validate'' 1627 s)
      else if root_node = NULL
      then Some (False, mtpndd_set_error MTPNDD_ERROR_NULL_POINTER ''mtpndd_abstract_plus_validate'' 1631 s)
      else case validate_visited_init 1024 s of
        (None, s) \<Rightarrow> Some (False, mtpndd_set_error MTPNDD_ERROR_OUT_OF_MEMORY ''mtpndd_abstract_plus_validate'' 1636 s)
      | (Some vs, s) \<Rightarrow> do {
          (ok, vs, s) \<leftarrow> mtpndd_validate_rec (op_fuel s) S Q root_node vs s;
          Some (ok, s)
        })"

section \<open>Frames\<close>

text \<open>A walk changes the C heap and the last error only.\<close>

definition calm :: "mstate \<Rightarrow> mstate \<Rightarrow> bool" where
  "calm s s' \<longleftrightarrow> (\<exists>h e. s' = s\<lparr>c_heap_of := h, last_error := e\<rparr> \<and> (failed s \<longrightarrow> mem_failed h)
     \<and> brk (c_heap_of s) \<le> brk h)"

lemma calm_refl: "calm s s"
  unfolding calm_def by (intro exI[of _ "c_heap_of s"] exI[of _ "last_error s"]) simp

lemma calm_trans: "calm s s' \<Longrightarrow> calm s' s'' \<Longrightarrow> calm s s''"
  by (force simp: calm_def)

lemma calm_fields [simp]:
  assumes "calm s s'"
  shows "content s' = content s" "nodes s' = nodes s" "node_edges s' p = node_edges s p" "node_field s' p = node_field s p"
    "mtpndd_is_terminal s' p = mtpndd_is_terminal s p" "op_fuel s' = op_fuel s"
    "mtpndd_hash_node_identity s' p = mtpndd_hash_node_identity s p"
    "mtpndd_is_initialized s' = mtpndd_is_initialized s" "field_infos s' = field_infos s" "field_count s' = field_count s"
  using assms by (auto simp: calm_def content_def fun_eq_iff node_edges_def node_field_def mtpndd_is_terminal_def
      op_fuel_def mtpndd_hash_node_identity_def mtpndd_is_initialized_def)

lemma calm_failed: "calm s s' \<Longrightarrow> \<not> failed s' \<Longrightarrow> \<not> failed s"
  by (auto simp: calm_def)

lemma calm_brk: "calm s s' \<Longrightarrow> 0 < brk (c_heap_of s) \<Longrightarrow> 0 < brk (c_heap_of s')"
  by (auto simp: calm_def)

lemma calm_malloc: "malloc n s = (p, s') \<Longrightarrow> calm s s' \<and> (p = NULL \<longrightarrow> failed s' \<or> brk (c_heap_of s) = 0)"
  unfolding calm_def
  by (intro conjI exI[of _ "c_heap_of s'"] exI[of _ "last_error s'"])
    (auto simp: malloc_def c_malloc_def Let_def split: if_splits)

section \<open>Visited sets as sets\<close>

definition visited :: "'a visited_set_scheme \<Rightarrow> ptr set" where
  "visited st = (\<Union>b\<in>set (vs_buckets st). set b)"

definition visited_ok :: "mstate \<Rightarrow> 'a visited_set_scheme \<Rightarrow> bool" where
  "visited_ok s st \<longleftrightarrow> is_pow2 (vs_bucket_count st) \<and> vs_bucket_count st \<le> 2 ^ 63
     \<and> length (vs_buckets st) = vs_bucket_count st
     \<and> (\<forall>i<vs_bucket_count st. \<forall>p\<in>set (vs_buckets st ! i). \<exists>h. mtpndd_hash_node_identity s p = Some h
          \<and> mask_index h (vs_bucket_count st) = i)"

lemma visited_ok_calm: "calm s s' \<Longrightarrow> visited_ok s st \<Longrightarrow> visited_ok s' st"
  by (simp add: visited_ok_def)

lemma visited_ok_count [simp]: "visited_ok s (st\<lparr>leaf_count := n\<rparr>) = visited_ok s st"
  "visited (st\<lparr>leaf_count := n\<rparr>) = visited st"
  by (simp_all add: visited_ok_def visited_def)

lemma finite_visited [simp]: "finite (visited st)"
  by (simp add: visited_def)

lemma visited_bucket:
  assumes "visited_ok s st" "mtpndd_hash_node_identity s p = Some h"
  shows "p \<in> set (vs_buckets st ! mask_index h (vs_bucket_count st)) \<longleftrightarrow> p \<in> visited st"
    "mask_index h (vs_bucket_count st) < length (vs_buckets st)"
proof -
  show i: "mask_index h (vs_bucket_count st) < length (vs_buckets st)"
    using assms(1) mask_index_less[of "vs_bucket_count st" h] by (simp add: visited_ok_def)
  show "p \<in> set (vs_buckets st ! mask_index h (vs_bucket_count st)) \<longleftrightarrow> p \<in> visited st"
  proof
    assume "p \<in> visited st"
    then obtain j where j: "j < length (vs_buckets st)" "p \<in> set (vs_buckets st ! j)"
      unfolding visited_def by (metis UN_E in_set_conv_nth)
    then have "mask_index h (vs_bucket_count st) = j"
      using assms by (force simp: visited_ok_def)
    then show "p \<in> set (vs_buckets st ! mask_index h (vs_bucket_count st))" using j by simp
  qed (use i in \<open>auto simp: visited_def\<close>)
qed

lemma concat_update:
  "i < length xs \<Longrightarrow> set (concat (xs[i := p # xs ! i])) = insert p (set (concat xs))"
proof (induction xs arbitrary: i)
  case (Cons x xs)
  then show ?case by (cases i) auto
qed simp

lemma visited_update:
  assumes "i < length (vs_buckets st)"
  shows "visited (st\<lparr>vs_buckets := (vs_buckets st)[i := p # vs_buckets st ! i]\<rparr>) = insert p (visited st)"
  using concat_update[OF assms] by (simp add: visited_def)

lemma visited_insert_spec:
  assumes "visited_ok s st" "p \<noteq> NULL" "nodes s p \<noteq> None" "0 < brk (c_heap_of s)"
  shows "\<exists>new st' s'. visited_insert st p s = Some (new, st', s') \<and> calm s s' \<and> visited_ok s' st'
     \<and> visited_set.more st' = visited_set.more st
     \<and> (if new then p \<notin> visited st \<and> visited st' = insert p (visited st)
        else st' = st \<and> (p \<in> visited st \<or> failed s'))"
proof -
  obtain h where h: "mtpndd_hash_node_identity s p = Some h"
    using assms(2,3) by (auto simp: mtpndd_hash_node_identity_def)
  note b = visited_bucket[OF assms(1) h]
  let ?i = "mask_index h (vs_bucket_count st)"
  show ?thesis
  proof (cases "p \<in> visited st")
    case True
    then show ?thesis using h b assms(1) by (intro exI[of _ False]) (simp add: visited_insert_def calm_refl)
  next
    case False
    obtain e s1 where m: "malloc 16 s = (e, s1)" by fastforce
    note c = calm_malloc[OF m]
    let ?st = "st\<lparr>vs_buckets := (vs_buckets st)[?i := p # vs_buckets st ! ?i]\<rparr>"
    have "visited_ok s1 ?st" using assms(1) h c b(2)
      by (auto simp: visited_ok_def nth_list_update split: if_splits)
    have eq: "visited_insert st p s = Some (if e = NULL then (False, st, s1) else (True, ?st, s1))"
      using False h b m by (simp add: visited_insert_def Let_def)
    show ?thesis
    proof (cases "e = NULL")
      case True
      then show ?thesis using eq c assms(1,4) visited_ok_calm[of s s1 st]
        by (intro exI[of _ False] exI[of _ st] exI[of _ s1]) auto
    next
      case e: False
      then show ?thesis using eq c False \<open>visited_ok s1 ?st\<close> visited_update[OF b(2), of p]
        by (intro exI[of _ True] exI[of _ ?st] exI[of _ s1]) auto
    qed
  qed
qed
section \<open>Reachable nodes\<close>

definition child :: "mstate \<Rightarrow> ptr \<Rightarrow> ptr \<Rightarrow> bool" where
  "child s p c \<longleftrightarrow> (\<exists>f m. content s p = Some (f, NEdges m) \<and> c \<in> dom (emap m))"

definition reach :: "mstate \<Rightarrow> ptr \<Rightarrow> ptr set" where
  "reach s p = {q. (child s)\<^sup>*\<^sup>* p q}"

definition leaf_at :: "mstate \<Rightarrow> ptr \<Rightarrow> bool" where
  "leaf_at s p \<longleftrightarrow> (\<exists>f v. content s p = Some (f, NLeaf v))"

lemma calm_reach [simp]:
  assumes "calm s s'"
  shows "child s' = child s" "reach s' = reach s" "leaf_at s' = leaf_at s" "sinv S M s' = sinv S M s"
proof -
  show "child s' = child s" using assms by (simp add: child_def fun_eq_iff)
  then show "reach s' = reach s" by (simp add: reach_def [abs_def])
  show "leaf_at s' = leaf_at s" using assms by (simp add: leaf_at_def fun_eq_iff)
  show "sinv S M s' = sinv S M s" by (rule sinv_cong) (use assms in \<open>auto simp: calm_def content_def\<close>)
qed

lemma reach_self [simp]: "p \<in> reach s p"
  by (simp add: reach_def)

lemma reach_child: "child s p c \<Longrightarrow> reach s c \<subseteq> reach s p"
  by (auto simp: reach_def intro: converse_rtranclp_into_rtranclp)

lemma reach_least:
  assumes "p \<in> V" "\<And>x c. x \<in> V \<Longrightarrow> child s x c \<Longrightarrow> c \<in> V"
  shows "reach s p \<subseteq> V"
proof
  fix q assume "q \<in> reach s p"
  then have "(child s)\<^sup>*\<^sup>* p q" by (simp add: reach_def)
  then show "q \<in> V" by (induction rule: rtranclp_induct) (use assms in auto)
qed

text \<open>Enough fuel: the number of fields that may still come, and one for the leaf.\<close>

definition deep :: "mstate \<Rightarrow> nat \<Rightarrow> ptr \<Rightarrow> bool" where
  "deep s k p \<longleftrightarrow> nodes s p \<noteq> None \<and> p \<noteq> NULL \<and> 0 < k \<and> field_count s + 2 \<le> k + fieldof s p"

definition walkable :: "sylvan \<Rightarrow> bdd_model \<Rightarrow> mstate \<Rightarrow> bool" where
  "walkable S M s \<longleftrightarrow> sinv S M s \<and> nodes s NULL = None \<and> 0 < brk (c_heap_of s)"

lemma walkable_calm: "calm s s' \<Longrightarrow> walkable S M s \<Longrightarrow> walkable S M s'"
  by (simp add: walkable_def calm_brk)

lemma hinv_walkable: "hinv S M E s \<Longrightarrow> walkable S M s"
  by (auto simp: walkable_def hinv_def rinv_null) (simp add: rinv_def pool_ok_def)

lemma deep_calm [simp]: "calm s s' \<Longrightarrow> deep s' k p = deep s k p"
  by (simp add: deep_def)

lemma deep_child:
  assumes "walkable S M s" "deep s (Suc k) p" "child s p c"
  shows "deep s k c"
proof -
  obtain f m where f: "content s p = Some (f, NEdges m)" "c \<in> dom (emap m)" using assms(3) by (auto simp: child_def)
  have inv: "sinv S M s" using assms(1) by (simp add: walkable_def)
  have c: "child_ok s f c" by (rule sinv_child[OF inv f])
  have "f \<le> field_count s" by (rule sinv_node(2)[OF inv f(1)])
  moreover have "fieldof s p = f" by (rule fieldof_content[OF f(1)])
  moreover have "c \<noteq> NULL" using c assms(1) unfolding child_ok_def walkable_def by metis
  ultimately show ?thesis using c assms(2) by (auto simp: deep_def child_ok_def)
qed

text \<open>What the walk sees at a node: a leaf, or the entries of its map.\<close>

lemma walk_node:
  assumes "walkable S M s" "nodes s p \<noteq> None"
  obtains (leaf) "mtpndd_is_terminal s p = Some True" "leaf_at s p" "\<And>c. \<not> child s p c"
  | (node) f m where "mtpndd_is_terminal s p = Some False" "\<not> leaf_at s p" "node_edges s p = Some m"
      "content s p = Some (f, NEdges m)" "buckets m \<noteq> []" "\<And>s'. for_each_entry s' m = Some (entries m)"
      "\<And>c. child s p c \<longleftrightarrow> c \<in> ee_child ` set (entries m)"
proof -
  have inv: "sinv S M s" using assms(1) by (simp add: walkable_def)
  obtain f b where b: "content s p = Some (f, b)" using assms(2) by (auto simp: content_def)
  show ?thesis
  proof (cases b)
    case (NLeaf v)
    then show ?thesis using b inv sinv_leaf[OF inv] by (intro leaf) (auto simp: terminal_content leaf_at_def child_def)
  next
    case (NEdges m)
    note b = b[unfolded NEdges]
    note n = sinv_node[OF inv b]
    have "buckets m \<noteq> []" using n(6) wf_map_bounds[OF n(6)] by (auto simp: wf_map_def)
    then show ?thesis using b n
      by (intro node[of m f]) (auto simp: terminal_content leaf_at_def child_def node_edges_content dom_emap)
  qed
qed

text \<open>What the invariant says of one entry of a map.\<close>

lemma edge_facts:
  assumes inv: "sinv S M s" "nodes s NULL = None" and p: "content s p = Some (f, NEdges m)" and e: "e \<in> set (entries m)"
  shows "child s p (ee_child e)" "Suc f \<le> fieldof s (ee_child e)" "ee_child e \<noteq> NULL"
    "bdd_ok M (ee_label e)" "ee_label e \<noteq> sylvan_false S" "emap m (ee_child e) = Some (ee_label e)"
    "boolean s p \<Longrightarrow> boolean s (ee_child e)"
proof -
  have d: "ee_child e \<in> dom (emap m)" using e by (simp add: dom_emap)
  then show "child s p (ee_child e)" using p by (auto simp: child_def)
  show "boolean s p \<Longrightarrow> boolean s (ee_child e)" by (rule boolean_child[OF inv(1) p _ d])
  show "Suc f \<le> fieldof s (ee_child e)" using sinv_child[OF inv(1) p d] by (simp add: child_ok_def)
  show "ee_child e \<noteq> NULL" using sinv_child[OF inv(1) p d] inv(2) unfolding child_ok_def by metis
  note n = sinv_node[OF inv(1) p]
  show l: "emap m (ee_child e) = Some (ee_label e)" using emap_Some[of m] n(6) e unfolding wf_map_def by blast
  then show "bdd_ok M (ee_label e)" "ee_label e \<noteq> sylvan_false S" using n(3) by (auto simp: map_wf_def labels_ok_def)
qed

section \<open>The count is right\<close>

definition walk_post :: "mstate \<Rightarrow> ptr set \<Rightarrow> lc_set \<Rightarrow> lc_set \<Rightarrow> mstate \<Rightarrow> bool" where
  "walk_post s P st st' s' \<longleftrightarrow> calm s s' \<and> visited_ok s' st' \<and> visited st \<subseteq> visited st'
     \<and> visited st' \<subseteq> visited st \<union> (\<Union>p\<in>P. reach s p)
     \<and> leaf_count st' = leaf_count st + card {x \<in> visited st' - visited st. leaf_at s x}
     \<and> (\<not> failed s' \<longrightarrow> P \<subseteq> visited st' \<and> (\<forall>x\<in>visited st' - visited st. \<forall>c. child s x c \<longrightarrow> c \<in> visited st'))"

lemma walk_post_refl: "visited_ok s st \<Longrightarrow> walk_post s {} st st s"
  by (simp add: walk_post_def calm_refl)

lemma walk_post_seq:
  assumes "walk_post s P st st1 s1" "walk_post s1 Q st1 st2 s2"
  shows "walk_post s (P \<union> Q) st st2 s2"
proof -
  have c: "calm s s1" "calm s1 s2" using assms by (simp_all add: walk_post_def)
  have sub: "visited st \<subseteq> visited st1" "visited st1 \<subseteq> visited st2" using assms by (simp_all add: walk_post_def)
  then have "{x \<in> visited st2 - visited st. leaf_at s x}
      = {x \<in> visited st1 - visited st. leaf_at s x} \<union> {x \<in> visited st2 - visited st1. leaf_at s x}" by blast
  then have "card {x \<in> visited st2 - visited st. leaf_at s x}
      = card {x \<in> visited st1 - visited st. leaf_at s x} + card {x \<in> visited st2 - visited st1. leaf_at s x}"
    by (simp add: card_Un_disjoint disjoint_iff)
  then have n: "leaf_count st2 = leaf_count st + card {x \<in> visited st2 - visited st. leaf_at s x}"
    using assms c by (simp add: walk_post_def)
  have v: "visited st2 \<subseteq> visited st \<union> (\<Union>p\<in>P \<union> Q. reach s p)"
    using assms c by (simp add: walk_post_def) blast
  have "P \<union> Q \<subseteq> visited st2 \<and> (\<forall>x\<in>visited st2 - visited st. \<forall>c. child s x c \<longrightarrow> c \<in> visited st2)"
    if "\<not> failed s2"
  proof -
    have p: "P \<subseteq> visited st1" "\<forall>x\<in>visited st1 - visited st. \<forall>c. child s x c \<longrightarrow> c \<in> visited st1"
      using assms(1) calm_failed[OF c(2) that] by (simp_all add: walk_post_def)
    have q: "Q \<subseteq> visited st2" "\<forall>x\<in>visited st2 - visited st1. \<forall>c. child s x c \<longrightarrow> c \<in> visited st2"
      using assms(2) that c by (simp_all add: walk_post_def)
    show ?thesis using p q sub by blast
  qed
  moreover have "visited_ok s2 st2" using assms(2) by (simp add: walk_post_def)
  ultimately show ?thesis unfolding walk_post_def
    by (intro conjI calm_trans[OF c] order_trans[OF sub] n v impI) simp_all
qed

text \<open>A node whose children have been walked.\<close>

lemma walk_post_node:
  assumes "calm s s1" "p \<notin> visited st" "visited st1 = insert p (visited st)" "leaf_count st1 = leaf_count st"
    and "\<not> leaf_at s p" "\<And>c. child s p c \<longleftrightarrow> c \<in> C" and "walk_post s1 C st1 st2 s2"
  shows "walk_post s {p} st st2 s2"
proof -
  have c: "calm s1 s2" using assms(7) by (simp add: walk_post_def)
  have sub: "insert p (visited st) \<subseteq> visited st2" using assms(3,7) by (simp add: walk_post_def)
  have v: "visited st2 \<subseteq> insert p (visited st) \<union> (\<Union>c\<in>C. reach s c)" using assms(1,3,7) by (simp add: walk_post_def)
  have r: "(\<Union>c\<in>C. reach s c) \<subseteq> reach s p" using reach_child assms(6) by blast
  have v': "visited st2 \<subseteq> visited st \<union> (\<Union>p\<in>{p}. reach s p)" by (rule subset_trans[OF v]) (use r in simp, blast)
  have "{x \<in> visited st2 - visited st. leaf_at s x} = {x \<in> visited st2 - visited st1. leaf_at s x}"
    using assms(3,5) by auto
  then have n: "leaf_count st2 = leaf_count st + card {x \<in> visited st2 - visited st. leaf_at s x}"
    using assms(1,4,7) by (simp add: walk_post_def)
  have "{p} \<subseteq> visited st2 \<and> (\<forall>x\<in>visited st2 - visited st. \<forall>c. child s x c \<longrightarrow> c \<in> visited st2)" if "\<not> failed s2"
  proof -
    have "C \<subseteq> visited st2" "\<forall>x\<in>visited st2 - visited st1. \<forall>c. child s x c \<longrightarrow> c \<in> visited st2"
      using assms(1,7) that by (simp_all add: walk_post_def)
    then show ?thesis using sub assms(3,6) by (metis Diff_iff insert_subset insert_iff empty_subsetI subsetD)
  qed
  moreover have "visited_ok s2 st2" using assms(7) by (simp add: walk_post_def)
  ultimately show ?thesis unfolding walk_post_def using sub
    by (intro conjI calm_trans[OF assms(1) c] n v' impI) simp_all
qed

lemma walk_children_post:
  assumes "\<And>e st s'. e \<in> set es \<Longrightarrow> calm s s' \<Longrightarrow> visited_ok s' st \<Longrightarrow>
      \<exists>st' s''. walk (ee_child e) st s' = Some (st', s'') \<and> walk_post s' {ee_child e} st st' s''"
    and "visited_ok s st"
  shows "\<exists>st' s'. walk_children walk es st s = Some (st', s') \<and> walk_post s (ee_child ` set es) st st' s'"
  using assms
proof (induction es arbitrary: st s)
  case Nil
  then show ?case using walk_post_refl by simp
next
  case (Cons e es)
  obtain st1 s1 where 1: "walk (ee_child e) st s = Some (st1, s1)" "walk_post s {ee_child e} st st1 s1"
    using Cons.prems(1)[of e s st] Cons.prems(2) calm_refl by auto
  have c: "calm s s1" "visited_ok s1 st1" using 1(2) by (simp_all add: walk_post_def)
  obtain st2 s2 where 2: "walk_children walk es st1 s1 = Some (st2, s2)" "walk_post s1 (ee_child ` set es) st1 st2 s2"
    using Cons.IH[OF _ c(2)] Cons.prems(1) calm_trans[OF c(1)] by (metis list.set_intros(2))
  show ?case using 1 2 walk_post_seq[OF 1(2) 2(2)] by simp
qed
lemma lc_walk_post:
  assumes "walkable S M s" "deep s k p" "visited_ok s st"
  shows "\<exists>st' s'. lc_walk k p st s = Some (st', s') \<and> walk_post s {p} st st' s'"
  using assms
proof (induction k arbitrary: p st s)
  case 0
  then show ?case by (simp add: deep_def)
next
  case (Suc k)
  have p: "p \<noteq> NULL" "nodes s p \<noteq> None" "0 < brk (c_heap_of s)" using Suc.prems by (simp_all add: deep_def walkable_def)
  obtain new st1 s1 where i: "visited_insert st p s = Some (new, st1, s1)" "calm s s1" "visited_ok s1 st1"
    "visited_set.more st1 = visited_set.more st"
    "if new then p \<notin> visited st \<and> visited st1 = insert p (visited st) else st1 = st \<and> (p \<in> visited st \<or> failed s1)"
    using visited_insert_spec[OF Suc.prems(3) p] by blast
  have n: "leaf_count st1 = leaf_count st" using i(4) by (cases st1; cases st) simp
  show ?case
  proof (cases new)
    case False
    then show ?thesis using i p by (auto simp: lc_set_insert_def walk_post_def)
  next
    case True
    then have v: "p \<notin> visited st" "visited st1 = insert p (visited st)" using i(5) by simp_all
    have w: "walkable S M s1" by (rule walkable_calm[OF i(2) Suc.prems(1)])
    have "nodes s1 p \<noteq> None" using p i(2) by simp
    from w this show ?thesis
    proof (cases rule: walk_node)
      case leaf
      have "{x \<in> insert p (visited st) - visited st. leaf_at s x} = {p}" using leaf v i(2) by auto
      then have "walk_post s {p} st (st1\<lparr>leaf_count := leaf_count st1 + 1\<rparr>) s1"
        using leaf i v n by (auto simp: walk_post_def)
      then show ?thesis using True leaf i p by (simp add: lc_set_insert_def)
    next
      case (node f m)
      have "\<exists>st' s''. lc_walk k (ee_child e) st s' = Some (st', s'') \<and> walk_post s' {ee_child e} st st' s''"
        if "e \<in> set (entries m)" "calm s1 s'" "visited_ok s' st" for e st s'
      proof -
        have "child s1 p (ee_child e)" using node that(1) by blast
        then have "deep s1 k (ee_child e)" using deep_child[OF w] Suc.prems(2) i(2) by simp
        then show ?thesis using Suc.IH[OF walkable_calm[OF that(2) w]] that by simp
      qed
      from walk_children_post[of _ s1 "lc_walk k", OF this i(3)] obtain st2 s2 where
        2: "walk_children (lc_walk k) (entries m) st1 s1 = Some (st2, s2)"
          "walk_post s1 (ee_child ` set (entries m)) st1 st2 s2" by blast
      have "walk_post s {p} st st2 s2"
        by (rule walk_post_node[OF i(2) v n _ _ 2(2)]) (use node(2,7) i(2) in simp_all)
      then show ?thesis using True node i p 2 by (simp add: lc_set_insert_def)
    qed
  qed
qed
lemma lc_set_init_spec:
  assumes "walkable S M s"
  shows "\<exists>st s'. lc_set_init 1024 s = (st, s') \<and> calm s s' \<and> (st = None \<longrightarrow> failed s')
     \<and> (\<forall>st0. st = Some st0 \<longrightarrow> visited_ok s' st0 \<and> visited st0 = {} \<and> leaf_count st0 = 0)"
proof -
  obtain p s' where m: "malloc (1024 * 8) s = (p, s')" by fastforce
  have "visited_ok s' \<lparr>vs_bucket_count = 1024, vs_buckets = replicate 1024 [], leaf_count = 0\<rparr>"
    using is_pow2_power[of 10] by (simp add: visited_ok_def)
  then show ?thesis using m calm_malloc[OF m] assms by (auto simp: lc_set_init_def visited_def walkable_def)
qed

text \<open>The leaves under a node, and the count: exact unless an allocation failed, never too high.\<close>

definition leaves :: "mstate \<Rightarrow> ptr \<Rightarrow> ptr set" where
  "leaves s p = {q \<in> reach s p. leaf_at s q}"

lemma leafcount_spec:
  assumes "walkable S M s" "nodes s p \<noteq> None"
  shows "\<exists>n s'. mtpndd_leafcount p s = Some (n, s') \<and> calm s s' \<and> (\<not> failed s' \<longrightarrow> n = card (leaves s p))
     \<and> (\<exists>V\<subseteq>leaves s p. finite V \<and> n = card V)"
proof -
  have p: "p \<noteq> NULL" using assms unfolding walkable_def by metis
  obtain st s1 where i: "lc_set_init 1024 s = (st, s1)" "calm s s1" "st = None \<longrightarrow> failed s1"
    "\<forall>st0. st = Some st0 \<longrightarrow> visited_ok s1 st0 \<and> visited st0 = {} \<and> leaf_count st0 = 0"
    using lc_set_init_spec[OF assms(1)] by blast
  show ?thesis
  proof (cases st)
    case None
    then have "mtpndd_leafcount p s = Some (0, s1)" "failed s1" using i(1,3) p by (simp_all add: mtpndd_leafcount_def)
    then show ?thesis using i(2) by (intro exI[of _ 0] exI[of _ s1] conjI exI[of _ "{}"]) simp_all
  next
    case (Some st0)
    have "deep s1 (op_fuel s1) p" using assms(2) p i(2) by (simp add: deep_def op_fuel_def)
    then obtain st' s' where w: "lc_walk (op_fuel s1) p st0 s1 = Some (st', s')" "walk_post s1 {p} st0 st' s'"
      using lc_walk_post[OF walkable_calm[OF i(2) assms(1)]] i(4) Some by blast
    have e: "visited st0 = {}" "leaf_count st0 = 0" using i(4) Some by simp_all
    have n: "leaf_count st' = card {x \<in> visited st'. leaf_at s x}" "visited st' \<subseteq> reach s p" "calm s s'"
      using w(2) e i(2) calm_trans[OF i(2)] by (simp_all add: walk_post_def)
    have "visited st' = reach s p" if "\<not> failed s'"
    proof (rule antisym[OF n(2)], rule reach_least)
      show "p \<in> visited st'" using w(2) that by (simp add: walk_post_def)
      show "c \<in> visited st'" if "x \<in> visited st'" "child s x c" for x c
        using w(2) \<open>\<not> failed s'\<close> that e i(2) by (simp add: walk_post_def)
    qed
    then have "\<not> failed s' \<longrightarrow> leaf_count st' = card (leaves s p)" using n(1) by (simp add: leaves_def)
    moreover have "{x \<in> visited st'. leaf_at s x} \<subseteq> leaves s p" "finite {x \<in> visited st'. leaf_at s x}"
      using n(2) by (auto simp: leaves_def)
    moreover have "mtpndd_leafcount p s = Some (leaf_count st', s')" using i(1) p Some w(1) by (simp add: mtpndd_leafcount_def)
    ultimately show ?thesis using n(1,3) by blast
  qed
qed
lemma finite_leaves: "hinv S M E s \<Longrightarrow> finite (leaves s p)"
proof -
  assume "hinv S M E s"
  then have "finite (dom (nodes s) - {MTPNDD_TRUE, MTPNDD_FALSE})" by (simp add: hinv_def rinv_def pool_ok_def)
  then have "finite (dom (nodes s))" by simp
  moreover have "leaves s p \<subseteq> dom (nodes s)" by (auto simp: leaves_def leaf_at_def content_def)
  ultimately show ?thesis by (rule finite_subset[rotated])
qed

end
