(* ===== verification/Convert_Cache.thy ===== *)
theory Convert_Cache
  imports Diagram_Walk
begin

text \<open>
  The two caches of the conversion between diagrams and Sylvan's BDDs (\<open>mtpndd_node.c\<close>): hash tables
  with linear probing and power-of-two sizes that double before they are three quarters full.  A zero
  key marks a free slot.  A probe of a full table would never end, so the probes are partial functions
  and the theorems show that they return: the load never reaches the limit.  The abstraction
  \<open>cache_map\<close> gives the finite map of a cache; the interface \<open>probe_memo\<close> states what the conversions
  rely on.
\<close>

section \<open>Definitions\<close>

text \<open>One record for \<open>mtpndd_to_mtbdd_cache_t\<close> and \<open>mtbdd_to_mtpndd_cache_t\<close>, which differ in the types.\<close>

record ('k, 'v) probe_cache =
  pc_keys :: "'k list"
  pc_values :: "'v list"
  pc_capacity :: nat
  pc_count :: nat

type_synonym mtpndd_to_mtbdd_cache = "(ptr, bdd) probe_cache"
type_synonym mtbdd_to_mtpndd_cache = "(bdd, ptr) probe_cache"

definition node_key_hash :: "ptr \<Rightarrow> 64 word" where
  "node_key_hash key = mtpndd_hash_u64 (word_of_nat key)"

text \<open>\<open>cache->capacity <<= 1\<close> on a \<open>size_t\<close>.\<close>

definition twice :: "nat \<Rightarrow> nat" where
  "twice n = n * 2 mod 2 ^ 64"

partial_function (option) capacity_loop :: "nat \<Rightarrow> nat \<Rightarrow> nat option" where
  "capacity_loop initial_capacity capacity =
     (if capacity < initial_capacity then capacity_loop initial_capacity (twice capacity) else Some capacity)"

text \<open>The two arrays of a cache: \<open>calloc\<close> twice, and an error when one of them fails.\<close>

definition alloc_arrays :: "string \<Rightarrow> nat \<Rightarrow> nat \<Rightarrow> mstate \<Rightarrow> bool \<times> mstate" where
  "alloc_arrays func line capacity s =
     (let (keys, s) = malloc (capacity * 8) s;
          (vals, s) = malloc (capacity * 8) s
      in if keys = NULL \<or> vals = NULL
         then (False, mtpndd_set_error MTPNDD_ERROR_OUT_OF_MEMORY func line s)
         else (True, s))"

definition empty_cache :: "nat \<Rightarrow> ('k :: zero, 'v :: zero) probe_cache" where
  "empty_cache capacity =
     \<lparr>pc_keys = replicate capacity 0, pc_values = replicate capacity 0, pc_capacity = capacity, pc_count = 0\<rparr>"

text \<open>The cache of a successful initialisation, or \<open>None\<close> with the error recorded.\<close>

definition cache_init ::
  "string \<Rightarrow> nat \<Rightarrow> nat \<Rightarrow> mstate \<Rightarrow> (('k :: zero, 'v :: zero) probe_cache option \<times> mstate) option" where
  "cache_init func line initial_capacity s = do {
     capacity \<leftarrow> capacity_loop initial_capacity 1;
     let (ok, s) = alloc_arrays func line capacity s;
     Some (if ok then Some (empty_cache capacity) else None, s)
   }"

definition mtpndd_to_mtbdd_cache_init :: "nat \<Rightarrow> mstate \<Rightarrow> (mtpndd_to_mtbdd_cache option \<times> mstate) option" where
  "mtpndd_to_mtbdd_cache_init = cache_init ''mtpndd_to_mtbdd_cache_init'' 2071"

definition mtbdd_to_mtpndd_cache_init :: "nat \<Rightarrow> mstate \<Rightarrow> (mtbdd_to_mtpndd_cache option \<times> mstate) option" where
  "mtbdd_to_mtpndd_cache_init = cache_init ''mtbdd_to_mtpndd_cache_init'' 2177"

text \<open>The probes; \<open>None\<close> when the loop does not end or reads outside the array.\<close>

definition next_slot :: "nat \<Rightarrow> nat \<Rightarrow> nat" where
  "next_slot capacity idx = mask_index (word_of_nat (idx + 1)) capacity"

partial_function (option) probe_free :: "('k :: zero) list \<Rightarrow> nat \<Rightarrow> nat \<Rightarrow> nat option" where
  "probe_free keys capacity idx =
     (if length keys \<le> idx then None
      else if keys ! idx = 0 then Some idx
      else probe_free keys capacity (next_slot capacity idx))"

partial_function (option) probe_find :: "('k :: zero) list \<Rightarrow> nat \<Rightarrow> 'k \<Rightarrow> nat \<Rightarrow> nat option option" where
  "probe_find keys capacity key idx =
     (if length keys \<le> idx then None
      else if keys ! idx = 0 then Some None
      else if keys ! idx = key then Some (Some idx)
      else probe_find keys capacity key (next_slot capacity idx))"

definition store_at :: "('k, 'v) probe_cache \<Rightarrow> nat \<Rightarrow> 'k \<Rightarrow> 'v \<Rightarrow> ('k, 'v) probe_cache" where
  "store_at cache idx key val =
     cache\<lparr>pc_keys := (pc_keys cache)[idx := key], pc_values := (pc_values cache)[idx := val],
           pc_count := pc_count cache + 1\<rparr>"

definition cache_place ::
  "('k :: zero \<Rightarrow> 64 word) \<Rightarrow> ('k, 'v) probe_cache \<Rightarrow> 'k \<Rightarrow> 'v \<Rightarrow> ('k, 'v) probe_cache option" where
  "cache_place hash cache key val = do {
     idx \<leftarrow> probe_free (pc_keys cache) (pc_capacity cache) (mask_index (hash key) (pc_capacity cache));
     Some (store_at cache idx key val)
   }"

definition mtpndd_to_mtbdd_cache_place ::
  "mtpndd_to_mtbdd_cache \<Rightarrow> ptr \<Rightarrow> bdd \<Rightarrow> bool \<Rightarrow> mstate \<Rightarrow> (mtpndd_to_mtbdd_cache \<times> mstate) option" where
  "mtpndd_to_mtbdd_cache_place cache key val take_ref s = do {
     cache \<leftarrow> cache_place node_key_hash cache key val;
     Some (cache, if take_ref then sylvan_ref val s else s)
   }"

definition cache_lookup :: "('k :: zero \<Rightarrow> 64 word) \<Rightarrow> ('k, 'v) probe_cache \<Rightarrow> 'k \<Rightarrow> 'v option option" where
  "cache_lookup hash cache key =
     (if pc_keys cache = [] \<or> pc_count cache = 0 then Some None
      else do {
        found \<leftarrow> probe_find (pc_keys cache) (pc_capacity cache) key (mask_index (hash key) (pc_capacity cache));
        case found of
          None \<Rightarrow> Some None
        | Some idx \<Rightarrow> if idx < length (pc_values cache) then Some (Some (pc_values cache ! idx)) else None
      })"

definition mtpndd_to_mtbdd_cache_lookup ::
  "mtpndd_to_mtbdd_cache \<Rightarrow> ptr \<Rightarrow> mstate \<Rightarrow> (bdd option \<times> mstate) option" where
  "mtpndd_to_mtbdd_cache_lookup cache key s = do {
     found \<leftarrow> cache_lookup node_key_hash cache key;
     case found of
       None \<Rightarrow> Some (None, s)
     | Some val \<Rightarrow> Some (Some val, sylvan_ref val s)
   }"

definition mtbdd_to_mtpndd_cache_lookup :: "mtbdd_to_mtpndd_cache \<Rightarrow> bdd \<Rightarrow> ptr option option" where
  "mtbdd_to_mtpndd_cache_lookup = cache_lookup mtpndd_hash_u64"

text \<open>The entries of the old arrays, in the order of the slots.\<close>

definition cache_entries :: "('k :: zero, 'v) probe_cache \<Rightarrow> ('k \<times> 'v) list" where
  "cache_entries cache = filter (\<lambda>(k, v). k \<noteq> 0) (zip (pc_keys cache) (pc_values cache))"

fun place_all ::
  "('k :: zero \<Rightarrow> 64 word) \<Rightarrow> ('k \<times> 'v) list \<Rightarrow> ('k, 'v) probe_cache \<Rightarrow> ('k, 'v) probe_cache option" where
  "place_all hash [] cache = Some cache"
| "place_all hash ((key, val) # es) cache = do {
     cache \<leftarrow> cache_place hash cache key val;
     place_all hash es cache
   }"

definition mtpndd_to_mtbdd_cache_rehash ::
  "mtpndd_to_mtbdd_cache \<Rightarrow> mstate \<Rightarrow> (mtpndd_error \<times> mtpndd_to_mtbdd_cache \<times> mstate) option" where
  "mtpndd_to_mtbdd_cache_rehash cache s = (
     let new_capacity = twice (pc_capacity cache);
         (ok, s) = alloc_arrays ''mtpndd_to_mtbdd_cache_rehash'' 2135 new_capacity s
     in if \<not> ok then Some (MTPNDD_ERROR_OUT_OF_MEMORY, cache, s)
        else do {
          cache \<leftarrow> place_all node_key_hash (cache_entries cache) (empty_cache new_capacity);
          Some (MTPNDD_SUCCESS, cache, s)
        })"

text \<open>The load at which an insertion grows the table first.\<close>

definition cache_full :: "('k, 'v) probe_cache \<Rightarrow> bool" where
  "cache_full cache \<longleftrightarrow> pc_capacity cache * 3 \<le> (pc_count cache + 1) * 4"

definition mtpndd_to_mtbdd_cache_insert ::
  "mtpndd_to_mtbdd_cache \<Rightarrow> ptr \<Rightarrow> bdd \<Rightarrow> mstate \<Rightarrow> (mtpndd_error \<times> mtpndd_to_mtbdd_cache \<times> mstate) option" where
  "mtpndd_to_mtbdd_cache_insert cache key val s = do {
     (err, cache, s) \<leftarrow> (if cache_full cache then mtpndd_to_mtbdd_cache_rehash cache s else Some (MTPNDD_SUCCESS, cache, s));
     if err \<noteq> MTPNDD_SUCCESS then Some (err, cache, s)
     else do {
       (cache, s) \<leftarrow> mtpndd_to_mtbdd_cache_place cache key val True s;
       Some (MTPNDD_SUCCESS, cache, s)
     }
   }"

text \<open>
  In the other direction the insertion and the growth of the table call each other; the status of an
  insertion into the new table is ignored.  The recursion takes fuel.
\<close>

fun insert_all ::
  "('k \<Rightarrow> 'v \<Rightarrow> 'c \<Rightarrow> mstate \<Rightarrow> (mtpndd_error \<times> 'c \<times> mstate) option) \<Rightarrow> ('k \<times> 'v) list \<Rightarrow> 'c \<Rightarrow> mstate
   \<Rightarrow> ('c \<times> mstate) option" where
  "insert_all ins [] cache s = Some (cache, s)"
| "insert_all ins ((key, val) # es) cache s = do {
     (_, cache, s) \<leftarrow> ins key val cache s;
     insert_all ins es cache s
   }"

definition mtbdd_to_mtpndd_cache_rehash ::
  "(bdd \<Rightarrow> ptr \<Rightarrow> mtbdd_to_mtpndd_cache \<Rightarrow> mstate \<Rightarrow> (mtpndd_error \<times> mtbdd_to_mtpndd_cache \<times> mstate) option)
   \<Rightarrow> mtbdd_to_mtpndd_cache \<Rightarrow> mstate \<Rightarrow> (mtpndd_error \<times> mtbdd_to_mtpndd_cache \<times> mstate) option" where
  "mtbdd_to_mtpndd_cache_rehash ins cache s = (
     let new_capacity = twice (pc_capacity cache);
         (ok, s) = alloc_arrays ''mtbdd_to_mtpndd_cache_rehash'' 2220 new_capacity s
     in if \<not> ok then Some (MTPNDD_ERROR_OUT_OF_MEMORY, cache, s)
        else do {
          (cache, s) \<leftarrow> insert_all ins (cache_entries cache) (empty_cache new_capacity) s;
          Some (MTPNDD_SUCCESS, cache, s)
        })"

primrec from_cache_insert ::
  "nat \<Rightarrow> bdd \<Rightarrow> ptr \<Rightarrow> mtbdd_to_mtpndd_cache \<Rightarrow> mstate \<Rightarrow> (mtpndd_error \<times> mtbdd_to_mtpndd_cache \<times> mstate) option" where
  "from_cache_insert 0 = (\<lambda>key val cache s. None)"
| "from_cache_insert (Suc n) = (\<lambda>key val cache s. do {
     (err, cache, s) \<leftarrow> (if cache_full cache then mtbdd_to_mtpndd_cache_rehash (from_cache_insert n) cache s
                          else Some (MTPNDD_SUCCESS, cache, s));
     if err \<noteq> MTPNDD_SUCCESS then Some (err, cache, s)
     else do {
       cache \<leftarrow> cache_place mtpndd_hash_u64 cache key val;
       Some (MTPNDD_SUCCESS, cache, s)
     }
   })"

definition mtbdd_to_mtpndd_cache_insert ::
  "mtbdd_to_mtpndd_cache \<Rightarrow> bdd \<Rightarrow> ptr \<Rightarrow> mstate \<Rightarrow> (mtpndd_error \<times> mtbdd_to_mtpndd_cache \<times> mstate) option" where
  "mtbdd_to_mtpndd_cache_insert cache key val s = from_cache_insert 2 key val cache s"

text \<open>\<open>mtpndd_to_mtbdd_cache_destroy\<close> gives the references of the values back; the other one only frees.\<close>

definition no_cache :: "('k, 'v) probe_cache" where
  "no_cache = \<lparr>pc_keys = [], pc_values = [], pc_capacity = 0, pc_count = 0\<rparr>"

definition mtpndd_to_mtbdd_cache_destroy ::
  "mtpndd_to_mtbdd_cache \<Rightarrow> mstate \<Rightarrow> mtpndd_to_mtbdd_cache \<times> mstate" where
  "mtpndd_to_mtbdd_cache_destroy cache s =
     (if pc_keys cache = [] then (cache, s)
      else (no_cache, fold (\<lambda>(k, v). sylvan_deref v) (cache_entries cache) s))"

definition mtbdd_to_mtpndd_cache_destroy :: "mtbdd_to_mtpndd_cache \<Rightarrow> mtbdd_to_mtpndd_cache" where
  "mtbdd_to_mtpndd_cache_destroy cache = (if pc_keys cache = [] then cache else no_cache)"

section \<open>The probes end\<close>

definition slot :: "nat \<Rightarrow> nat \<Rightarrow> nat \<Rightarrow> nat" where
  "slot capacity home d = (home + d) mod capacity"

definition size_ok :: "nat \<Rightarrow> bool" where
  "size_ok n \<longleftrightarrow> is_pow2 n \<and> n \<le> 2 ^ 60"

lemma size_okD: "size_ok n \<Longrightarrow> is_pow2 n \<and> n \<le> 2 ^ 63 \<and> 0 < n"
  by (auto simp: size_ok_def)

lemma slot_less [simp]: "size_ok n \<Longrightarrow> slot n h d < n"
  using size_okD[of n] by (simp add: slot_def)

lemma slot_not_le [simp]: "size_ok n \<Longrightarrow> \<not> n \<le> slot n h d"
  using slot_less[of n h d] by (simp only: not_le)

lemma slot_0 [simp]: "h < n \<Longrightarrow> slot n h 0 = h"
  by (simp add: slot_def)

lemma next_slot: "size_ok n \<Longrightarrow> next_slot n (slot n h d) = slot n h (Suc d)"
proof -
  assume n: "size_ok n"
  have "slot n h d < n" "n \<le> 2 ^ 60" using n by (simp_all add: size_ok_def)
  then have "unat (word_of_nat (slot n h d + 1) :: 64 word) = slot n h d + 1"
    by (simp only: unat_of_nat) simp
  then show ?thesis using size_okD[OF n]
    by (simp only: next_slot_def mask_index_pow2) (simp add: slot_def mod_simps)
qed

lemma home_less: "size_ok n \<Longrightarrow> mask_index h n < n"
  using size_okD[of n] mask_index_less[of n h] by blast

lemma probe_find_steps:
  assumes "size_ok n" "length keys = n" "h < n"
  shows "(\<And>e. e < d \<Longrightarrow> keys ! slot n h e \<noteq> 0 \<and> keys ! slot n h e \<noteq> k)
    \<Longrightarrow> probe_find keys n k h = probe_find keys n k (slot n h d)"
proof (induction d)
  case (Suc d)
  then have "probe_find keys n k h = probe_find keys n k (slot n h d)" by simp
  also have "\<dots> = probe_find keys n k (slot n h (Suc d))"
    using Suc.prems[of d] assms(1,2) by (subst probe_find.simps) (simp add: next_slot)
  finally show ?case .
qed (use assms in simp)

lemma probe_free_steps:
  assumes "size_ok n" "length keys = n" "h < n"
  shows "(\<And>e. e < d \<Longrightarrow> keys ! slot n h e \<noteq> 0) \<Longrightarrow> probe_free keys n h = probe_free keys n (slot n h d)"
proof (induction d)
  case (Suc d)
  then have "probe_free keys n h = probe_free keys n (slot n h d)" by simp
  also have "\<dots> = probe_free keys n (slot n h (Suc d))"
    using Suc.prems[of d] assms(1,2) by (subst probe_free.simps) (simp add: next_slot)
  finally show ?case .
qed (use assms in simp)

text \<open>Every slot is met, so a probe meets the first slot with a given property.\<close>

lemma slot_onto:
  assumes "i < n" "h < n"
  obtains d where "slot n h d = i"
proof
  show "slot n h (i + (n - h)) = i" using assms by (simp add: slot_def)
qed

lemma first_slot:
  assumes "i < n" "h < n" "P (keys ! i)"
  obtains d where "P (keys ! slot n h d)" "\<And>e. e < d \<Longrightarrow> \<not> P (keys ! slot n h e)"
proof -
  obtain d0 where "slot n h d0 = i" by (rule slot_onto[OF assms(1,2)])
  then have "P (keys ! slot n h d0)" using assms(3) by simp
  then show thesis using that LeastI[of "\<lambda>d. P (keys ! slot n h d)" d0] not_less_Least by blast
qed

section \<open>The map of a cache\<close>

definition cache_map :: "('k :: zero, 'v) probe_cache \<Rightarrow> ('k \<rightharpoonup> 'v)" where
  "cache_map c = map_of (cache_entries c)"

text \<open>
  All entries can be found: from the home slot of a key to the slot where it is, no slot is free.
\<close>

definition paths_ok :: "('k :: zero \<Rightarrow> 64 word) \<Rightarrow> nat \<Rightarrow> 'k list \<Rightarrow> bool" where
  "paths_ok hash n keys \<longleftrightarrow> (\<forall>i<n. keys ! i \<noteq> 0 \<longrightarrow>
     (\<exists>d. slot n (mask_index (hash (keys ! i)) n) d = i \<and> (\<forall>e<d. keys ! slot n (mask_index (hash (keys ! i)) n) e \<noteq> 0)))"

definition cache_wf :: "('k :: zero \<Rightarrow> 64 word) \<Rightarrow> ('k, 'v) probe_cache \<Rightarrow> bool" where
  "cache_wf hash c \<longleftrightarrow> size_ok (pc_capacity c) \<and> length (pc_keys c) = pc_capacity c \<and> length (pc_values c) = pc_capacity c
     \<and> pc_count c = length (cache_entries c) \<and> distinct (map fst (cache_entries c))
     \<and> pc_count c * 4 < pc_capacity c * 3 \<and> paths_ok hash (pc_capacity c) (pc_keys c)"

lemma cache_wfD:
  assumes "cache_wf hash c"
  shows "size_ok (pc_capacity c)" "length (pc_keys c) = pc_capacity c" "length (pc_values c) = pc_capacity c"
    "pc_count c = length (cache_entries c)" "distinct (map fst (cache_entries c))" "pc_count c * 4 < pc_capacity c * 3"
    "paths_ok hash (pc_capacity c) (pc_keys c)" "pc_keys c \<noteq> []"
  using assms size_okD by (auto simp: cache_wf_def)

lemma entry_nth:
  assumes "length (pc_values c) = length (pc_keys c)"
  shows "(k, v) \<in> set (cache_entries c) \<longleftrightarrow> (\<exists>i<length (pc_keys c). pc_keys c ! i = k \<and> pc_values c ! i = v \<and> k \<noteq> 0)"
  using assms by (auto simp: cache_entries_def set_zip)

lemma free_exists:
  assumes "cache_wf hash c"
  obtains i where "i < pc_capacity c" "pc_keys c ! i = 0"
proof -
  note wf = cache_wfD[OF assms]
  have "\<not> (\<forall>i<pc_capacity c. pc_keys c ! i \<noteq> 0)"
  proof
    assume "\<forall>i<pc_capacity c. pc_keys c ! i \<noteq> 0"
    then have "cache_entries c = zip (pc_keys c) (pc_values c)"
      unfolding cache_entries_def filter_id_conv using wf(2,3) by (auto simp: set_zip)
    then show False using wf(2-4,6) by simp
  qed
  then show thesis using that by blast
qed

lemma cache_lookup_map:
  assumes "cache_wf hash c"
  shows "cache_lookup hash c k = Some (cache_map c k)"
proof (cases "pc_count c = 0")
  case True
  then show ?thesis using cache_wfD(4)[OF assms] by (simp add: cache_lookup_def cache_map_def)
next
  case False
  note wf = cache_wfD[OF assms]
  let ?n = "pc_capacity c" and ?h = "mask_index (hash k) (pc_capacity c)" and ?keys = "pc_keys c"
  have h: "?h < ?n" by (rule home_less[OF wf(1)])
  obtain i where i: "i < ?n" "?keys ! i = 0" by (rule free_exists[OF assms])
  obtain d where d: "?keys ! slot ?n ?h d \<in> {0, k}" "\<And>e. e < d \<Longrightarrow> ?keys ! slot ?n ?h e \<notin> {0, k}"
    by (rule first_slot[where P = "\<lambda>x. x \<in> {0, k}", OF i(1) h]) (use i(2) in auto)
  have steps: "probe_find ?keys ?n k ?h = probe_find ?keys ?n k (slot ?n ?h d)"
    by (rule probe_find_steps[OF wf(1,2) h]) (use d(2) in auto)
  note en = entry_nth[of c] 
  show ?thesis
  proof (cases "?keys ! slot ?n ?h d = 0")
    case True
    have "k \<notin> fst ` set (cache_entries c)"
    proof
      assume "k \<in> fst ` set (cache_entries c)"
      then obtain j where j: "j < ?n" "?keys ! j = k" "k \<noteq> 0" using en wf(2,3) by auto
      obtain d' where d': "slot ?n ?h d' = j" "\<forall>e<d'. ?keys ! slot ?n ?h e \<noteq> 0"
        using wf(7) j by (force simp: paths_ok_def)
      have "d < d'" using d(2)[of d'] d'(1) j True by (metis insertCI linorder_neqE_nat)
      then show False using d'(2) True by blast
    qed
    then have "cache_map c k = None" by (simp add: cache_map_def map_of_eq_None_iff)
    then show ?thesis using True False wf(1,2,8) steps
      by (subst (asm) (2) probe_find.simps) (simp add: cache_lookup_def)
  next
    case nz: False
    then have k: "?keys ! slot ?n ?h d = k" "k \<noteq> 0" using d(1) by auto
    have "(k, pc_values c ! slot ?n ?h d) \<in> set (cache_entries c)"
      by (subst en) (use wf(1-3) k in \<open>auto intro!: exI[of _ "slot ?n ?h d"]\<close>)
    then have "cache_map c k = Some (pc_values c ! slot ?n ?h d)" using wf(5) by (simp add: cache_map_def)
    then show ?thesis using nz False wf(1-3,8) steps k
      by (subst (asm) (2) probe_find.simps) (simp add: cache_lookup_def)
  qed
qed

section \<open>Insertion\<close>

lemma filter_fill:
  assumes "i < length xs" "\<not> P (xs ! i)" "P x"
  obtains A B where "filter P xs = A @ B" "filter P (xs[i := x]) = A @ x # B"
proof
  show "filter P xs = filter P (take i xs) @ filter P (drop (Suc i) xs)"
    using assms(1,2) by (subst id_take_nth_drop[OF assms(1)]) simp
  show "filter P (xs[i := x]) = filter P (take i xs) @ x # filter P (drop (Suc i) xs)"
    using assms by (simp add: upd_conv_take_nth_drop)
qed

lemma store_at_entries:
  assumes "length (pc_values c) = length (pc_keys c)" "i < length (pc_keys c)" "pc_keys c ! i = 0" "k \<noteq> 0"
  obtains A B where "cache_entries c = A @ B" "cache_entries (store_at c i k v) = A @ (k, v) # B"
proof -
  let ?P = "\<lambda>(k, v). k \<noteq> 0" and ?z = "zip (pc_keys c) (pc_values c)"
  obtain A B where "filter ?P ?z = A @ B" "filter ?P (?z[i := (k, v)]) = A @ (k, v) # B"
    by (rule filter_fill[of i ?z ?P "(k, v)"]) (use assms in auto)
  then show thesis using that by (simp add: cache_entries_def store_at_def update_zip)
qed

lemma paths_ok_fill:
  assumes "paths_ok hash n keys" "length keys = n" "size_ok n" "k \<noteq> 0"
    "keys ! slot n (mask_index (hash k) n) d = 0" "\<And>e. e < d \<Longrightarrow> keys ! slot n (mask_index (hash k) n) e \<noteq> 0"
  shows "paths_ok hash n (keys[slot n (mask_index (hash k) n) d := k])"
  unfolding paths_ok_def
proof (intro allI impI)
  let ?j = "slot n (mask_index (hash k) n) d" let ?keys = "keys[?j := k]"
  fix i assume i: "i < n" "?keys ! i \<noteq> 0"
  have up: "?keys ! x \<noteq> 0" if "keys ! x \<noteq> 0" for x using that assms(2-4) by (cases "x = ?j") auto
  show "\<exists>d'. slot n (mask_index (hash (?keys ! i)) n) d' = i
      \<and> (\<forall>e<d'. ?keys ! slot n (mask_index (hash (?keys ! i)) n) e \<noteq> 0)"
  proof (cases "i = ?j")
    case True
    then show ?thesis using up assms(2,6) i(1) by auto
  next
    case False
    then have "?keys ! i = keys ! i" by simp
    then show ?thesis using assms(1) i up unfolding paths_ok_def by metis
  qed
qed

lemma cache_place_map:
  assumes "cache_wf hash c" "k \<noteq> 0" "cache_map c k = None" "\<not> cache_full c"
  shows "\<exists>c'. cache_place hash c k v = Some c' \<and> cache_wf hash c' \<and> cache_map c' = (cache_map c)(k \<mapsto> v)
     \<and> pc_capacity c' = pc_capacity c \<and> pc_count c' = pc_count c + 1"
proof -
  note wf = cache_wfD[OF assms(1)]
  let ?n = "pc_capacity c" and ?h = "mask_index (hash k) (pc_capacity c)" and ?keys = "pc_keys c"
  have h: "?h < ?n" by (rule home_less[OF wf(1)])
  obtain i where i: "i < ?n" "?keys ! i = 0" by (rule free_exists[OF assms(1)])
  obtain d where d: "?keys ! slot ?n ?h d = 0" "\<And>e. e < d \<Longrightarrow> ?keys ! slot ?n ?h e \<noteq> 0"
    using first_slot[where P = "\<lambda>x. x = 0", OF i(1) h i(2)] by metis
  let ?c = "store_at c (slot ?n ?h d) k v"
  have "probe_free ?keys ?n ?h = probe_free ?keys ?n (slot ?n ?h d)" by (rule probe_free_steps[OF wf(1,2) h d(2)])
  also have "\<dots> = Some (slot ?n ?h d)" using wf(1,2) d(1) by (subst probe_free.simps) simp
  finally have p: "cache_place hash c k v = Some ?c" by (simp add: cache_place_def)
  obtain A B where ab: "cache_entries c = A @ B" "cache_entries ?c = A @ (k, v) # B"
    by (rule store_at_entries[of c "slot ?n ?h d" k v]) (use wf(1-3) d(1) assms(2) in auto)
  have nk: "k \<notin> fst ` set A" "k \<notin> fst ` set B" using assms(3) ab(1) by (auto simp: cache_map_def map_of_eq_None_iff image_Un)
  have "cache_wf hash ?c"
    using wf ab nk assms(4) paths_ok_fill[OF wf(7,2,1) assms(2) d]
    by (auto simp: cache_wf_def store_at_def cache_full_def)
  moreover have "cache_map ?c = (cache_map c)(k \<mapsto> v)"
    using ab nk by (simp add: cache_map_def map_add_upd_left dom_map_of_conv_image_fst)
  ultimately show ?thesis using p by (simp add: store_at_def)
qed

lemma place_all_map:
  assumes "cache_wf hash c" "distinct (map fst es)" "\<forall>k\<in>fst ` set es. k \<noteq> 0 \<and> cache_map c k = None"
    "(pc_count c + length es) * 4 < pc_capacity c * 3"
  shows "\<exists>c'. place_all hash es c = Some c' \<and> cache_wf hash c' \<and> cache_map c' = cache_map c ++ map_of es
     \<and> pc_capacity c' = pc_capacity c \<and> pc_count c' = pc_count c + length es"
  using assms
proof (induction es arbitrary: c)
  case (Cons e es)
  obtain k v where e: "e = (k, v)" by (cases e)
  obtain c1 where c1: "cache_place hash c k v = Some c1" "cache_wf hash c1" "cache_map c1 = (cache_map c)(k \<mapsto> v)"
    "pc_capacity c1 = pc_capacity c" "pc_count c1 = pc_count c + 1"
    using cache_place_map[OF Cons.prems(1), of k v] Cons.prems e by (auto simp: cache_full_def)
  have fresh: "\<forall>k\<in>fst ` set es. k \<noteq> 0 \<and> cache_map c1 k = None" using Cons.prems(2,3) c1(3) e by auto
  obtain c2 where c2: "place_all hash es c1 = Some c2" "cache_wf hash c2" "cache_map c2 = cache_map c1 ++ map_of es"
    "pc_capacity c2 = pc_capacity c1" "pc_count c2 = pc_count c1 + length es"
    using Cons.IH[OF c1(2) _ fresh] Cons.prems(2,4) c1(4,5) e by auto
  have "cache_map c2 = cache_map c ++ map_of (e # es)"
    using c2(3) c1(3) Cons.prems(2) e by (simp add: map_add_upd_left dom_map_of_conv_image_fst)
  then show ?case by (intro exI[of _ c2]) (use c1(1,4,5) c2(1,2,4,5) e in \<open>simp del: map_of.simps\<close>)
qed simp

lemma empty_cache_wf:
  fixes c :: "('k :: zero, 'v :: zero) probe_cache"
  assumes "size_ok n" "c = empty_cache n"
  shows "cache_wf hash c" "cache_map c = Map.empty" "pc_count c = 0" "pc_capacity c = n"
proof -
  have e: "cache_entries c = []" by (auto simp: assms(2) cache_entries_def empty_cache_def filter_empty_conv set_zip)
  show "cache_map c = Map.empty" by (simp add: cache_map_def e)
  show n: "pc_count c = 0" "pc_capacity c = n" by (simp_all add: assms(2) empty_cache_def)
  have "paths_ok hash n (pc_keys c)" by (simp add: assms(2) empty_cache_def paths_ok_def)
  then show "cache_wf hash c" using assms(1) size_okD[OF assms(1)] n e by (simp add: cache_wf_def) (simp add: assms(2) empty_cache_def)
qed

text \<open>The entries of a cache go into an empty one of twice the size, where they leave room for one more.\<close>

lemma twice_size: "size_ok n \<Longrightarrow> twice n = n * 2"
  by (simp add: twice_def size_ok_def)

lemma size_ok_twice: "size_ok n \<Longrightarrow> twice n * 8 \<le> 2 ^ 60 \<Longrightarrow> size_ok (twice n)"
  using is_pow2_double[of n] by (simp add: size_ok_def twice_size)

lemma grow_map:
  fixes c :: "('k :: zero, 'v :: zero) probe_cache"
  assumes "cache_wf hash c" "size_ok (twice (pc_capacity c))"
  shows "\<exists>c'. place_all hash (cache_entries c) (empty_cache (twice (pc_capacity c))) = Some c' \<and> cache_wf hash c'
     \<and> cache_map c' = cache_map c \<and> \<not> cache_full c'"
proof -
  define c0 :: "('k, 'v) probe_cache" where "c0 = empty_cache (twice (pc_capacity c))"
  note wf = cache_wfD[OF assms(1)] and e = empty_cache_wf[OF assms(2) c0_def]
  have n: "twice (pc_capacity c) = pc_capacity c * 2" "0 < pc_capacity c" using twice_size wf(1) size_okD by auto
  have "\<forall>k\<in>fst ` set (cache_entries c). k \<noteq> 0 \<and> cache_map c0 k = None" by (auto simp: cache_entries_def e(2))
  then obtain c' where c': "place_all hash (cache_entries c) c0 = Some c'" "cache_wf hash c'"
    "cache_map c' = cache_map c0 ++ map_of (cache_entries c)" "pc_capacity c' = pc_capacity c0"
    "pc_count c' = pc_count c0 + length (cache_entries c)"
    using place_all_map[OF e(1) wf(5)] e(3,4) n wf(4,6) by auto
  have "cache_map c' = cache_map c" using c'(3) e(2) by (simp add: cache_map_def)
  moreover have "\<not> cache_full c'" unfolding cache_full_def c'(4,5) e(3,4) n(1) using wf(4,6) n(2) by presburger
  ultimately show ?thesis using c' unfolding c0_def by blast
qed

section \<open>The caches as memos\<close>

text \<open>The operations of a cache change the C heap, the last error and the reference counts of Sylvan only.\<close>

definition placid :: "mstate \<Rightarrow> mstate \<Rightarrow> bool" where
  "placid s s' \<longleftrightarrow> (\<exists>h e l. s' = s\<lparr>c_heap_of := h, last_error := e, syl_log := l\<rparr> \<and> (failed s \<longrightarrow> mem_failed h)
     \<and> brk (c_heap_of s) \<le> brk h \<and> mem_limit h = mem_limit (c_heap_of s))"

definition room :: "mstate \<Rightarrow> bool" where
  "room s \<longleftrightarrow> 0 < brk (c_heap_of s) \<and> mem_limit (c_heap_of s) \<le> 2 ^ 60"

lemma placid_trans: "placid s s' \<Longrightarrow> placid s' s'' \<Longrightarrow> placid s s''"
  by (force simp: placid_def)

lemma placidI:
  "s' = s\<lparr>c_heap_of := c_heap_of s', last_error := last_error s', syl_log := syl_log s'\<rparr> \<Longrightarrow> (failed s \<longrightarrow> failed s')
   \<Longrightarrow> brk (c_heap_of s) \<le> brk (c_heap_of s') \<Longrightarrow> mem_limit (c_heap_of s') = mem_limit (c_heap_of s) \<Longrightarrow> placid s s'"
  unfolding placid_def by blast

lemma placid_base:
  "placid s s" "placid s (mtpndd_set_error e fn line s)" "placid s (sylvan_ref l s)" "placid s (sylvan_deref l s)"
  by (rule placidI; simp add: log_defs)+

lemma placid_step [intro]:
  assumes "placid s s'"
  shows "placid s (mtpndd_set_error e fn line s')" "placid s (sylvan_ref l s')" "placid s (sylvan_deref l s')"
  by (rule placid_trans[OF assms placid_base(2)], rule placid_trans[OF assms placid_base(3)], rule placid_trans[OF assms placid_base(4)])

lemma placid_malloc: "malloc n s = (p, s') \<Longrightarrow> placid s s' \<and> (p = NULL \<longrightarrow> failed s' \<or> brk (c_heap_of s) = 0)
   \<and> (p \<noteq> NULL \<longrightarrow> n \<le> mem_limit (c_heap_of s))"
  by (auto simp: malloc_def c_malloc_def Let_def split: if_splits intro!: placidI)

lemma placid_room: "placid s s' \<Longrightarrow> room s \<Longrightarrow> room s'"
  by (auto simp: placid_def room_def)

lemma placid_failed: "placid s s' \<Longrightarrow> failed s \<Longrightarrow> failed s'"
  by (auto simp: placid_def)

lemma alloc_arrays_spec:
  assumes "alloc_arrays fn line n s = (ok, s')" "room s"
  shows "placid s s'" "ok \<Longrightarrow> n * 8 \<le> 2 ^ 60" "\<not> ok \<Longrightarrow> failed s'"
proof -
  obtain p s1 q s2 where m: "malloc (n * 8) s = (p, s1)" "malloc (n * 8) s1 = (q, s2)" by (metis surj_pair)
  note m1 = placid_malloc[OF m(1)] and m2 = placid_malloc[OF m(2)]
  have r: "room s1" using placid_room m1 assms(2) by blast
  have s': "placid s s2" using m1 m2 placid_trans by blast
  have res: "s' = (if p = NULL \<or> q = NULL then mtpndd_set_error MTPNDD_ERROR_OUT_OF_MEMORY fn line s2 else s2)"
    "ok \<longleftrightarrow> p \<noteq> NULL \<and> q \<noteq> NULL" using assms(1) m by (auto simp: alloc_arrays_def split: if_splits)
  show "placid s s'" using s' res(1) by auto
  show "n * 8 \<le> 2 ^ 60" if ok using that res(2) m1 assms(2) by (auto simp: room_def)
  show "failed s'" if "\<not> ok"
    using that res m1 m2 assms(2) r placid_failed by (auto simp: room_def mtpndd_set_error_def)
qed

lemma to_rehash_spec:
  assumes "cache_wf node_key_hash c" "room s"
  shows "\<exists>err c' s'. mtpndd_to_mtbdd_cache_rehash c s = Some (err, c', s') \<and> placid s s' \<and> cache_wf node_key_hash c'
     \<and> cache_map c' = cache_map c \<and> (if err = MTPNDD_SUCCESS then \<not> cache_full c' else err = MTPNDD_ERROR_OUT_OF_MEMORY \<and> failed s')"
proof -
  obtain ok s1 where a: "alloc_arrays ''mtpndd_to_mtbdd_cache_rehash'' 2135 (twice (pc_capacity c)) s = (ok, s1)" by fastforce
  note A = alloc_arrays_spec[OF a assms(2)]
  show ?thesis
  proof (cases ok)
    case True
    have "size_ok (twice (pc_capacity c))" by (rule size_ok_twice[OF cache_wfD(1)[OF assms(1)] A(2)[OF True]])
    then show ?thesis using grow_map[OF assms(1)] a True A(1) by (auto simp: mtpndd_to_mtbdd_cache_rehash_def)
  qed (use a A assms in \<open>simp add: mtpndd_to_mtbdd_cache_rehash_def\<close>)
qed

text \<open>Re-inserting the entries one by one with the check of the load does the same: the check never fires.\<close>

lemma insert_all_place:
  assumes "cache_wf mtpndd_hash_u64 c" "distinct (map fst es)" "\<forall>k\<in>fst ` set es. k \<noteq> 0 \<and> cache_map c k = None"
    "(pc_count c + length es) * 4 < pc_capacity c * 3"
  shows "insert_all (from_cache_insert (Suc n)) es c s = map_option (\<lambda>c'. (c', s)) (place_all mtpndd_hash_u64 es c)"
  using assms
proof (induction es arbitrary: c)
  case (Cons e es)
  obtain k v where e: "e = (k, v)" by (cases e)
  have nf: "\<not> cache_full c" using Cons.prems(4) by (auto simp: cache_full_def)
  obtain c1 where c1: "cache_place mtpndd_hash_u64 c k v = Some c1" "cache_wf mtpndd_hash_u64 c1"
    "cache_map c1 = (cache_map c)(k \<mapsto> v)" "pc_capacity c1 = pc_capacity c" "pc_count c1 = pc_count c + 1"
    using cache_place_map[OF Cons.prems(1), of k v] Cons.prems e nf by auto
  have "\<forall>k\<in>fst ` set es. k \<noteq> 0 \<and> cache_map c1 k = None" using Cons.prems(2,3) c1(3) e by auto
  then show ?case using Cons.IH[OF c1(2)] Cons.prems(2,4) c1 e nf by simp
qed simp

lemma from_rehash_spec:
  assumes "cache_wf mtpndd_hash_u64 c" "room s"
  shows "\<exists>err c' s'. mtbdd_to_mtpndd_cache_rehash (from_cache_insert (Suc n)) c s = Some (err, c', s') \<and> placid s s'
     \<and> cache_wf mtpndd_hash_u64 c' \<and> cache_map c' = cache_map c
     \<and> (if err = MTPNDD_SUCCESS then \<not> cache_full c' else err = MTPNDD_ERROR_OUT_OF_MEMORY \<and> failed s')"
proof -
  obtain ok s1 where a: "alloc_arrays ''mtbdd_to_mtpndd_cache_rehash'' 2220 (twice (pc_capacity c)) s = (ok, s1)" by fastforce
  note A = alloc_arrays_spec[OF a assms(2)] and wf = cache_wfD[OF assms(1)]
  show ?thesis
  proof (cases ok)
    case True
    define c0 :: mtbdd_to_mtpndd_cache where "c0 = empty_cache (twice (pc_capacity c))"
    have sz: "size_ok (twice (pc_capacity c))" by (rule size_ok_twice[OF wf(1) A(2)[OF True]])
    note e = empty_cache_wf[OF sz c0_def]
    have "\<forall>k\<in>fst ` set (cache_entries c). k \<noteq> 0 \<and> cache_map c0 k = None" by (auto simp: cache_entries_def e(2))
    moreover have "(pc_count c0 + length (cache_entries c)) * 4 < pc_capacity c0 * 3"
      using wf(4,6) e(3,4) twice_size[OF wf(1)] by simp
    ultimately have "insert_all (from_cache_insert (Suc n)) (cache_entries c) c0 s1
        = map_option (\<lambda>c'. (c', s1)) (place_all mtpndd_hash_u64 (cache_entries c) c0)"
      using insert_all_place[OF e(1) wf(5)] by blast
    moreover obtain c' where "place_all mtpndd_hash_u64 (cache_entries c) c0 = Some c'" "cache_wf mtpndd_hash_u64 c'"
      "cache_map c' = cache_map c" "\<not> cache_full c'" using grow_map[OF assms(1) sz] unfolding c0_def by blast
    ultimately show ?thesis using a True A(1) c0_def by (simp add: mtbdd_to_mtpndd_cache_rehash_def)
  qed (use a A assms in \<open>simp add: mtbdd_to_mtpndd_cache_rehash_def\<close>)
qed

lemma capacity_loop_returns:
  assumes "n \<le> 2 ^ 60" "k \<le> 60"
  shows "\<exists>m\<le>60. capacity_loop n (2 ^ k) = Some (2 ^ m) \<and> n \<le> 2 ^ m"
  using assms(2)
proof (induction "60 - k" arbitrary: k)
  case 0
  then have "capacity_loop n (2 ^ k) = Some (2 ^ k)" using assms(1) by (subst capacity_loop.simps) simp
  then show ?case using 0 assms(1) by (intro exI[of _ k]) simp
next
  case (Suc d)
  show ?case
  proof (cases "2 ^ k < n")
    case True
    have "(2 :: nat) ^ (k + 1) < 2 ^ 64" using Suc.hyps(2) by (intro power_strict_increasing) auto
    then have "twice (2 ^ k) = 2 ^ Suc k" by (simp add: twice_def)
    then show ?thesis using Suc.hyps(1)[of "Suc k"] Suc.hyps(2) True by (subst capacity_loop.simps) simp
  next
    case False
    then show ?thesis using Suc.prems by (subst capacity_loop.simps) auto
  qed
qed

lemma cache_init_spec:
  assumes "room s" "n \<le> 2 ^ 60"
  shows "\<exists>c s'. cache_init fn line n s = Some (c :: ('k :: zero, 'v :: zero) probe_cache option, s') \<and> placid s s'
     \<and> (case c of None \<Rightarrow> failed s' | Some c \<Rightarrow> cache_wf hash c \<and> cache_map c = Map.empty)"
proof -
  obtain m where m: "m \<le> 60" "capacity_loop n 1 = Some (2 ^ m)" using capacity_loop_returns[OF assms(2), of 0] by auto
  have "(2 :: nat) ^ m \<le> 2 ^ 60" using m(1) by (rule power_increasing) simp
  then have sz: "size_ok (2 ^ m)" by (simp add: size_ok_def)
  define c0 :: "('k, 'v) probe_cache" where "c0 = empty_cache (2 ^ m)"
  obtain ok s1 where a: "alloc_arrays fn line (2 ^ m) s = (ok, s1)" by fastforce
  show ?thesis using alloc_arrays_spec[OF a assms(1)] a m(2) empty_cache_wf(1)[OF sz c0_def, of hash] empty_cache_wf(2)[OF sz c0_def]
    by (cases ok) (auto simp: cache_init_def c0_def)
qed

text \<open>What the conversions rely on: the cache is a finite map, and an insertion fails for lack of memory only.\<close>

locale probe_memo =
  fixes init :: "nat \<Rightarrow> mstate \<Rightarrow> ('c option \<times> mstate) option"
    and look :: "'c \<Rightarrow> 'k :: zero \<Rightarrow> mstate \<Rightarrow> ('v option \<times> mstate) option"
    and ins :: "'c \<Rightarrow> 'k \<Rightarrow> 'v \<Rightarrow> mstate \<Rightarrow> (mtpndd_error \<times> 'c \<times> mstate) option"
    and ok :: "'c \<Rightarrow> bool" and amap :: "'c \<Rightarrow> 'k \<rightharpoonup> 'v"
  assumes init_law: "room s \<Longrightarrow> n \<le> 2 ^ 60 \<Longrightarrow> \<exists>c s'. init n s = Some (c, s') \<and> placid s s'
       \<and> (case c of None \<Rightarrow> failed s' | Some c \<Rightarrow> ok c \<and> amap c = Map.empty)"
    and look_law: "ok c \<Longrightarrow> \<exists>s'. look c k s = Some (amap c k, s') \<and> placid s s'"
    and ins_law: "ok c \<Longrightarrow> room s \<Longrightarrow> k \<noteq> 0 \<Longrightarrow> amap c k = None \<Longrightarrow>
       \<exists>err c' s'. ins c k v s = Some (err, c', s') \<and> placid s s' \<and> ok c'
         \<and> (if err = MTPNDD_SUCCESS then amap c' = (amap c)(k \<mapsto> v)
            else err = MTPNDD_ERROR_OUT_OF_MEMORY \<and> amap c' = amap c \<and> failed s')"

text \<open>A sequence of insertions that stops at the first error.\<close>

fun run_inserts ::
  "('c \<Rightarrow> 'k \<Rightarrow> 'v \<Rightarrow> mstate \<Rightarrow> (mtpndd_error \<times> 'c \<times> mstate) option) \<Rightarrow> ('k \<times> 'v) list \<Rightarrow> 'c \<Rightarrow> mstate
   \<Rightarrow> (mtpndd_error \<times> 'c \<times> mstate) option" where
  "run_inserts ins [] c s = Some (MTPNDD_SUCCESS, c, s)"
| "run_inserts ins ((k, v) # es) c s = do {
     (err, c, s) \<leftarrow> ins c k v s;
     if err \<noteq> MTPNDD_SUCCESS then Some (err, c, s) else run_inserts ins es c s
   }"

context probe_memo
begin

lemma run_inserts_map:
  assumes "ok c" "room s" "distinct (map fst es)" "\<forall>k\<in>fst ` set es. k \<noteq> 0 \<and> amap c k = None"
  shows "\<exists>err c' s'. run_inserts ins es c s = Some (err, c', s') \<and> placid s s' \<and> ok c'
     \<and> (if err = MTPNDD_SUCCESS then amap c' = amap c ++ map_of es else failed s')"
  using assms
proof (induction es arbitrary: c s)
  case Nil
  then show ?case by (simp add: placid_base(1))
next
  case (Cons e es)
  obtain k v where e: "e = (k, v)" by (cases e)
  obtain err c1 s1 where c1: "ins c k v s = Some (err, c1, s1)" "placid s s1" "ok c1"
    "if err = MTPNDD_SUCCESS then amap c1 = (amap c)(k \<mapsto> v) else err = MTPNDD_ERROR_OUT_OF_MEMORY \<and> amap c1 = amap c \<and> failed s1"
    using ins_law[OF Cons.prems(1,2), of k v] Cons.prems(4) e by auto
  show ?case
  proof (cases "err = MTPNDD_SUCCESS")
    case True
    then have m: "amap c1 = (amap c)(k \<mapsto> v)" using c1(4) by simp
    have fresh: "\<forall>k\<in>fst ` set es. k \<noteq> 0 \<and> amap c1 k = None" using Cons.prems(3,4) m e by auto
    obtain err' c' s' where r: "run_inserts ins es c1 s1 = Some (err', c', s')" "placid s1 s'" "ok c'"
      "if err' = MTPNDD_SUCCESS then amap c' = amap c1 ++ map_of es else failed s'"
      using Cons.IH[OF c1(3) placid_room[OF c1(2) Cons.prems(2)] _ fresh] Cons.prems(3) by auto
    have "amap c1 ++ map_of es = amap c ++ map_of (e # es)"
      using m Cons.prems(3) e by (simp add: map_add_upd_left dom_map_of_conv_image_fst)
    then show ?thesis using r c1(1) placid_trans[OF c1(2) r(2)] True e by (simp del: map_of.simps)
  qed (use c1 e in auto)
qed

text \<open>After an initialisation and any insertions of new keys every key is found with its value.\<close>

lemma fill_and_find:
  assumes "room s" "n \<le> 2 ^ 60" "distinct (map fst es)" "0 \<notin> fst ` set es"
  shows "\<exists>c0 s0. init n s = Some (c0, s0) \<and> (case c0 of None \<Rightarrow> failed s0 | Some c0 \<Rightarrow>
     \<exists>err c s'. run_inserts ins es c0 s0 = Some (err, c, s')
       \<and> (if err = MTPNDD_SUCCESS then \<forall>k. \<exists>s''. look c k s' = Some (map_of es k, s'') else failed s'))"
proof -
  obtain c0 s0 where i: "init n s = Some (c0, s0)" "placid s s0"
    "case c0 of None \<Rightarrow> failed s0 | Some c \<Rightarrow> ok c \<and> amap c = Map.empty" using init_law[OF assms(1,2)] by blast
  show ?thesis
  proof (cases c0)
    case (Some c)
    then have c: "ok c" "amap c = Map.empty" using i(3) by simp_all
    have "\<forall>k\<in>fst ` set es. k \<noteq> 0 \<and> amap c k = None" using assms(4) c(2) by auto
    from run_inserts_map[OF c(1) placid_room[OF i(2) assms(1)] assms(3) this]
    obtain err c' s' where r: "run_inserts ins es c s0 = Some (err, c', s')" "ok c'"
      "if err = MTPNDD_SUCCESS then amap c' = Map.empty ++ map_of es else failed s'" using c(2) by auto
    show ?thesis using i(1) Some r look_law[OF r(2)] by (auto split: if_splits)
  qed (use i in simp)
qed

end

interpretation to_memo: probe_memo mtpndd_to_mtbdd_cache_init mtpndd_to_mtbdd_cache_lookup mtpndd_to_mtbdd_cache_insert
  "cache_wf node_key_hash" cache_map
proof
  fix s and n :: nat assume "room s" "n \<le> 2 ^ 60"
  then show "\<exists>c s'. mtpndd_to_mtbdd_cache_init n s = Some (c, s') \<and> placid s s'
     \<and> (case c of None \<Rightarrow> failed s' | Some c \<Rightarrow> cache_wf node_key_hash c \<and> cache_map c = Map.empty)"
    unfolding mtpndd_to_mtbdd_cache_init_def by (rule cache_init_spec)
next
  fix c :: mtpndd_to_mtbdd_cache and k s assume "cache_wf node_key_hash c"
  then show "\<exists>s'. mtpndd_to_mtbdd_cache_lookup c k s = Some (cache_map c k, s') \<and> placid s s'"
    by (cases "cache_map c k") (auto simp: mtpndd_to_mtbdd_cache_lookup_def cache_lookup_map placid_base)
next
  fix c :: mtpndd_to_mtbdd_cache and s k v assume c: "cache_wf node_key_hash c" "room s" "k \<noteq> 0" "cache_map c k = None"
  obtain err c1 s1 where r: "(if cache_full c then mtpndd_to_mtbdd_cache_rehash c s else Some (MTPNDD_SUCCESS, c, s)) = Some (err, c1, s1)"
    "placid s s1" "cache_wf node_key_hash c1" "cache_map c1 = cache_map c"
    "if err = MTPNDD_SUCCESS then \<not> cache_full c1 else err = MTPNDD_ERROR_OUT_OF_MEMORY \<and> failed s1"
    using to_rehash_spec[OF c(1,2)] c(1) placid_base(1) by (cases "cache_full c") (auto split: if_splits)
  show "\<exists>err c' s'. mtpndd_to_mtbdd_cache_insert c k v s = Some (err, c', s') \<and> placid s s' \<and> cache_wf node_key_hash c'
      \<and> (if err = MTPNDD_SUCCESS then cache_map c' = (cache_map c)(k \<mapsto> v)
         else err = MTPNDD_ERROR_OUT_OF_MEMORY \<and> cache_map c' = cache_map c \<and> failed s')"
    using r cache_place_map[OF r(3) c(3), of v] c(4)
    by (auto simp: mtpndd_to_mtbdd_cache_insert_def mtpndd_to_mtbdd_cache_place_def split: if_splits)
qed

interpretation from_memo: probe_memo mtbdd_to_mtpndd_cache_init "\<lambda>c k s. map_option (\<lambda>v. (v, s)) (mtbdd_to_mtpndd_cache_lookup c k)"
  mtbdd_to_mtpndd_cache_insert "cache_wf mtpndd_hash_u64" cache_map
proof
  fix s and n :: nat assume "room s" "n \<le> 2 ^ 60"
  then show "\<exists>c s'. mtbdd_to_mtpndd_cache_init n s = Some (c, s') \<and> placid s s'
     \<and> (case c of None \<Rightarrow> failed s' | Some c \<Rightarrow> cache_wf mtpndd_hash_u64 c \<and> cache_map c = Map.empty)"
    unfolding mtbdd_to_mtpndd_cache_init_def by (rule cache_init_spec)
next
  fix c :: mtbdd_to_mtpndd_cache and k s assume "cache_wf mtpndd_hash_u64 c"
  then show "\<exists>s'. map_option (\<lambda>v. (v, s)) (mtbdd_to_mtpndd_cache_lookup c k) = Some (cache_map c k, s') \<and> placid s s'"
    by (simp add: mtbdd_to_mtpndd_cache_lookup_def cache_lookup_map placid_base)
next
  fix c :: mtbdd_to_mtpndd_cache and s k v assume c: "cache_wf mtpndd_hash_u64 c" "room s" "k \<noteq> 0" "cache_map c k = None"
  obtain err c1 s1 where r: "(if cache_full c then mtbdd_to_mtpndd_cache_rehash (from_cache_insert 1) c s
      else Some (MTPNDD_SUCCESS, c, s)) = Some (err, c1, s1)"
    "placid s s1" "cache_wf mtpndd_hash_u64 c1" "cache_map c1 = cache_map c"
    "if err = MTPNDD_SUCCESS then \<not> cache_full c1 else err = MTPNDD_ERROR_OUT_OF_MEMORY \<and> failed s1"
    using from_rehash_spec[OF c(1,2), of 0] c(1) placid_base(1) by (cases "cache_full c") (auto split: if_splits)
  show "\<exists>err c' s'. mtbdd_to_mtpndd_cache_insert c k v s = Some (err, c', s') \<and> placid s s' \<and> cache_wf mtpndd_hash_u64 c'
      \<and> (if err = MTPNDD_SUCCESS then cache_map c' = (cache_map c)(k \<mapsto> v)
         else err = MTPNDD_ERROR_OUT_OF_MEMORY \<and> cache_map c' = cache_map c \<and> failed s')"
    using r cache_place_map[OF r(3) c(3), of v] c(4)
    by (auto simp: mtbdd_to_mtpndd_cache_insert_def numeral_2_eq_2 split: if_splits)
qed

end
