(* ===== verification/Sat_Count.thy ===== *)
theory Sat_Count
  imports Arith_Ops
begin

text \<open>
  The number of satisfying assignments of a diagram (\<open>mtpndd_satcount\<close> of \<open>mtpndd_node.c\<close>), computed
  in floating point: an edge contributes the assignments of its label times the count of its
  child, a field that a diagram skips contributes all its assignments.

  The recursion goes to the next field with every call; its fuel is two more than the number of
  fields, and \<open>None\<close> is a read behind the array of widths or the end of the fuel.
\<close>

definition pow2_double :: "double_ops \<Rightarrow> nat \<Rightarrow> 64 word" where
  "pow2_double D n = d_pow D (d_of_u64 D 2) (d_of_u64 D n)"

text \<open>Whether a terminal node is a zero.\<close>

definition leaf_is_zero :: "double_ops \<Rightarrow> ptr \<Rightarrow> mstate \<Rightarrow> bool option" where
  "leaf_is_zero D p s = do {
     f \<leftarrow> node_field s p;
     v \<leftarrow> leaf_word s p;
     Some (if f = MTPNDD_FRACTION_LEAF_FIELD_ID then to_i32 (to_u32 (uint (drop_bit 32 v))) = 0
           else if f = MTPNDD_DOUBLE_LEAF_FIELD_ID then d_is_zero D v else False)
   }"

fun remaining_measure :: "double_ops \<Rightarrow> nat list \<Rightarrow> 64 word \<Rightarrow> mstate \<Rightarrow> 64 word option" where
  "remaining_measure D [] result s = Some result"
| "remaining_measure D (f # fs) result s = do {
     bits \<leftarrow> field_bits f s;
     remaining_measure D fs (d_mul D result (pow2_double D bits)) s
   }"

fun satcount_edges ::
  "sylvan \<Rightarrow> sylvan_query \<Rightarrow> double_ops \<Rightarrow> (ptr \<Rightarrow> mstate \<Rightarrow> 64 word option) \<Rightarrow> 64 word \<Rightarrow> edge_bucket_entry list \<Rightarrow> 64 word
   \<Rightarrow> mstate \<Rightarrow> 64 word option" where
  "satcount_edges S Q D rec divisor [] result s = Some result"
| "satcount_edges S Q D rec divisor (e # es) result s =
     (let label = mtpndd_edge_label_load S (Some e)
      in if ee_child e = NULL \<or> label = sylvan_false S then satcount_edges S Q D rec divisor es result s
         else do {
           let bdd_sat = (if label = sylvan_true S then pow2_double D (max_bit_width s)
                          else mtbdd_satcount Q label (max_bit_width s));
           ndd_sat \<leftarrow> rec (ee_child e) s;
           satcount_edges S Q D rec divisor es (d_add D result (d_mul D (d_div D bdd_sat divisor) ndd_sat)) s
         })"

primrec mtpndd_satcount_rec ::
  "nat \<Rightarrow> sylvan \<Rightarrow> sylvan_query \<Rightarrow> double_ops \<Rightarrow> nat \<Rightarrow> ptr \<Rightarrow> mstate \<Rightarrow> 64 word option" where
  "mtpndd_satcount_rec 0 S Q D = (\<lambda>field node s. None)"
| "mtpndd_satcount_rec (Suc k) S Q D = (\<lambda>field node s.
     if mtpndd_is_false node then Some (d_of_u64 D 0)
     else do {
       t \<leftarrow> mtpndd_is_terminal s node;
       if t then do {
         is_zero \<leftarrow> leaf_is_zero D node s;
         if is_zero then Some (d_of_u64 D 0)
         else if field_count s < field then Some (d_of_u64 D 1)
         else remaining_measure D [field..<Suc (field_count s)] (d_of_u64 D 1) s
       }
       else do {
         f \<leftarrow> node_field s node;
         bits \<leftarrow> field_bits field s;
         if field = f
         then do {
           let divisor = pow2_double D ((max_bit_width s + 2 ^ 32 - bits) mod 2 ^ 32);
           m \<leftarrow> node_edges s node;
           es \<leftarrow> (if buckets m = [] then Some [] else for_each_entry s m);
           satcount_edges S Q D (mtpndd_satcount_rec k S Q D (field + 1)) divisor es (d_of_u64 D 0) s
         }
         else do {
           rest \<leftarrow> mtpndd_satcount_rec k S Q D (field + 1) node s;
           Some (d_mul D (pow2_double D bits) rest)
         }
       }
     })"

text \<open>The error checks return the code of the error, converted to a double.\<close>

definition mtpndd_satcount_ndd ::
  "sylvan \<Rightarrow> sylvan_query \<Rightarrow> double_ops \<Rightarrow> ptr \<Rightarrow> mstate \<Rightarrow> (64 word \<times> mstate) option" where
  "mtpndd_satcount_ndd S Q D node s =
     (if \<not> mtpndd_is_initialized s
      then Some (d_of_u64 D (nat (error_code MTPNDD_ERROR_NOT_INITIALIZED)),
                 mtpndd_set_error MTPNDD_ERROR_NOT_INITIALIZED ''mtpndd_satcount_ndd'' 2611 s)
      else if node = NULL
      then Some (d_of_u64 D (nat (error_code MTPNDD_ERROR_NULL_POINTER)),
                 mtpndd_set_error MTPNDD_ERROR_NULL_POINTER ''mtpndd_satcount_ndd'' 2612 s)
      else do { x \<leftarrow> mtpndd_satcount_rec (op_fuel s) S Q D 1 node s; Some (x, s) })"

definition mtpndd_satcount ::
  "sylvan \<Rightarrow> sylvan_query \<Rightarrow> double_ops \<Rightarrow> ptr \<Rightarrow> mstate \<Rightarrow> (64 word \<times> mstate) option" where
  "mtpndd_satcount S Q D node s = mtpndd_satcount_ndd S Q D node s"

end
