(* ===== verification/Convert_Ops.thy ===== *)
theory Convert_Ops
  imports Convert_Cache Sat_Count
begin

text \<open>
  Conversion between diagrams and Sylvan's BDDs (\<open>mtpndd_node.c\<close>).  In a diagram all fields share the
  same BDD variables, a field of width \<open>w\<close> the last \<open>w\<close> of them; in a single BDD the fields have
  disjoint variables, one field after the other.  The conversion renames the variables of every label
  and joins the results.

  The functions of Sylvan that only the conversions use are parameters: the substitution maps in the
  record \<open>sylvan_maps\<close>, over an arbitrary type of maps, and the access to the nodes of a BDD in
  \<open>sylvan_graph\<close>.  The reference that protects a substitution map from Sylvan's own collection is left out.
\<close>

section \<open>Parameters\<close>

record 'm sylvan_maps =
  sylvan_map_empty :: 'm
  sylvan_map_add :: "'m \<Rightarrow> nat \<Rightarrow> bdd \<Rightarrow> 'm"
  sylvan_compose :: "bdd \<Rightarrow> 'm \<Rightarrow> bdd"

record sylvan_graph =
  sylvan_low :: "bdd \<Rightarrow> bdd"
  mtbdd_isleaf :: "bdd \<Rightarrow> bool"

section \<open>Expanded variables\<close>

fun expanded_start_loop :: "nat list \<Rightarrow> nat \<Rightarrow> mstate \<Rightarrow> nat option" where
  "expanded_start_loop [] start s = Some start"
| "expanded_start_loop (i # is) start s = do {
     bits \<leftarrow> field_bits i s;
     expanded_start_loop is ((start + bits) mod 2 ^ 32) s
   }"

definition mtpndd_field_expanded_start :: "nat \<Rightarrow> mstate \<Rightarrow> nat option" where
  "mtpndd_field_expanded_start field s = expanded_start_loop [1..<field] 0 s"

text \<open>The inner result is the entry of \<open>field_info\<close>, \<open>None\<close> for a null pointer.\<close>

fun find_field_loop :: "nat list \<Rightarrow> nat \<Rightarrow> nat \<Rightarrow> mstate \<Rightarrow> field_info option option" where
  "find_field_loop [] var start s = Some None"
| "find_field_loop (i # is) var start s = do {
     width \<leftarrow> field_bits i s;
     let end_var = (start + width) mod 2 ^ 32;
     if start \<le> var \<and> var < end_var then Some (field_infos s i) else find_field_loop is var end_var s
   }"

definition mtpndd_find_field_by_expanded_var :: "nat \<Rightarrow> mstate \<Rightarrow> field_info option option" where
  "mtpndd_find_field_by_expanded_var var s = find_field_loop [1..<Suc (field_count s)] var 0 s"

definition expansion_map :: "sylvan \<Rightarrow> 'm sylvan_maps \<Rightarrow> nat \<Rightarrow> nat \<Rightarrow> nat \<Rightarrow> 'm" where
  "expansion_map S X shared_offset expanded_offset bit_width =
     foldl (\<lambda>m i. sylvan_map_add X m ((shared_offset + i) mod 2 ^ 32) (sylvan_ithvar S ((expanded_offset + i) mod 2 ^ 32)))
       (sylvan_map_empty X) [0..<bit_width]"

definition mtpndd_replace_shared_to_expanded ::
  "sylvan \<Rightarrow> 'm sylvan_maps \<Rightarrow> bdd \<Rightarrow> nat \<Rightarrow> mstate \<Rightarrow> (bdd \<times> mstate) option" where
  "mtpndd_replace_shared_to_expanded S X b field s =
     (if b = sylvan_false S \<or> b = sylvan_true S then Some (b, sylvan_ref b s)
      else do {
        bit_width \<leftarrow> field_bits field s;
        let shared_offset = (max_bit_width s + 2 ^ 32 - bit_width) mod 2 ^ 32;
        expanded_offset \<leftarrow> mtpndd_field_expanded_start field s;
        if expanded_offset < max_bit_width s then Some (b, sylvan_ref b s)
        else let replaced = sylvan_compose X b (expansion_map S X shared_offset expanded_offset bit_width)
             in Some (replaced, sylvan_ref replaced s)
      })"

section \<open>From a diagram to a BDD\<close>

type_synonym to_rec = "ptr \<Rightarrow> mtpndd_to_mtbdd_cache \<Rightarrow> mstate
   \<Rightarrow> (mtpndd_error \<times> bdd \<times> mtpndd_to_mtbdd_cache \<times> mstate) option"

fun to_mtbdd_edges ::
  "sylvan \<Rightarrow> 'm sylvan_maps \<Rightarrow> to_rec \<Rightarrow> nat \<Rightarrow> edge_bucket_entry list \<Rightarrow> bdd \<Rightarrow> mtpndd_to_mtbdd_cache \<Rightarrow> mstate
   \<Rightarrow> (mtpndd_error \<times> bdd \<times> mtpndd_to_mtbdd_cache \<times> mstate) option" where
  "to_mtbdd_edges S X rec field [] acc cache s = Some (MTPNDD_SUCCESS, acc, cache, s)"
| "to_mtbdd_edges S X rec field (e # es) acc cache s =
     (let lab = mtpndd_edge_label_load S (Some e)
      in if ee_child e = NULL \<or> lab = sylvan_false S then to_mtbdd_edges S X rec field es acc cache s
         else do {
           (status, child_bdd, cache, s) \<leftarrow> rec (ee_child e) cache s;
           if status \<noteq> MTPNDD_SUCCESS then Some (status, acc, cache, s)
           else do {
             (mapped_label, s) \<leftarrow> mtpndd_replace_shared_to_expanded S X lab field s;
             let conjunct = sylvan_and S mapped_label child_bdd;
             let s = sylvan_deref mapped_label (sylvan_ref conjunct s);
             if conjunct \<noteq> sylvan_false S
             then let combined = sylvan_or S acc conjunct;
                      s = sylvan_deref conjunct (sylvan_deref acc (sylvan_ref combined s))
                  in to_mtbdd_edges S X rec field es combined cache s
             else to_mtbdd_edges S X rec field es acc cache (sylvan_deref conjunct s)
           }
         })"

text \<open>On an error the result is not written: the callers initialise it with \<open>sylvan_false\<close>.\<close>

primrec mtpndd_to_mtbdd_rec :: "nat \<Rightarrow> sylvan \<Rightarrow> 'm sylvan_maps \<Rightarrow> to_rec" where
  "mtpndd_to_mtbdd_rec 0 S X = (\<lambda>node cache s. None)"
| "mtpndd_to_mtbdd_rec (Suc k) S X = (\<lambda>node cache s.
     if mtpndd_is_true node then Some (MTPNDD_SUCCESS, sylvan_true S, cache, s)
     else if mtpndd_is_false node then Some (MTPNDD_SUCCESS, sylvan_false S, cache, s)
     else do {
       (cached, s) \<leftarrow> mtpndd_to_mtbdd_cache_lookup cache node s;
       case cached of
         Some b \<Rightarrow> Some (MTPNDD_SUCCESS, b, cache, s)
       | None \<Rightarrow> do {
           let s = sylvan_ref (sylvan_false S) s;
           m \<leftarrow> node_edges s node;
           field \<leftarrow> node_field s node;
           es \<leftarrow> (if buckets m = [] then Some [] else for_each_entry s m);
           (status, acc, cache, s) \<leftarrow>
             to_mtbdd_edges S X (mtpndd_to_mtbdd_rec k S X) field es (sylvan_false S) cache s;
           if status \<noteq> MTPNDD_SUCCESS then Some (status, sylvan_false S, cache, sylvan_deref acc s)
           else do {
             (err, cache, s) \<leftarrow> mtpndd_to_mtbdd_cache_insert cache node acc s;
             if err \<noteq> MTPNDD_SUCCESS then Some (err, sylvan_false S, cache, sylvan_deref acc s)
             else Some (MTPNDD_SUCCESS, acc, cache, s)
           }
         }
     })"

text \<open>The second result is what is written to \<open>*result\<close>, if anything is.\<close>

definition mtpndd_to_mtbdd ::
  "sylvan \<Rightarrow> 'm sylvan_maps \<Rightarrow> ptr \<Rightarrow> mstate \<Rightarrow> (mtpndd_error \<times> bdd option \<times> mstate) option" where
  "mtpndd_to_mtbdd S X node s =
     (if \<not> mtpndd_is_initialized s
      then Some (MTPNDD_ERROR_NOT_INITIALIZED, None, mtpndd_set_error MTPNDD_ERROR_NOT_INITIALIZED ''mtpndd_to_mtbdd'' 2375 s)
      else if node = NULL
      then Some (MTPNDD_ERROR_NULL_POINTER, None, mtpndd_set_error MTPNDD_ERROR_NULL_POINTER ''mtpndd_to_mtbdd'' 2376 s)
      else do {
        (cache, s) \<leftarrow> mtpndd_to_mtbdd_cache_init 64 s;
        case cache of
          None \<Rightarrow> Some (MTPNDD_ERROR_OUT_OF_MEMORY, None, s)
        | Some cache \<Rightarrow> do {
            (status, tmp, cache, s) \<leftarrow> mtpndd_to_mtbdd_rec (op_fuel s) S X node cache s;
            if status \<noteq> MTPNDD_SUCCESS
            then let (cache, s) = mtpndd_to_mtbdd_cache_destroy cache s in Some (status, None, s)
            else let s = sylvan_ref tmp s;
                     (cache, s) = mtpndd_to_mtbdd_cache_destroy cache s
                 in Some (MTPNDD_SUCCESS, Some tmp, sylvan_deref tmp s)
          }
      })"

section \<open>Counting on the BDD\<close>

definition mtpndd_total_bdd_vars :: "mstate \<Rightarrow> nat option" where
  "mtpndd_total_bdd_vars s =
     foldl (\<lambda>total i. do { t \<leftarrow> total; bits \<leftarrow> field_bits i s; Some ((t + bits) mod 2 ^ 64) })
       (Some 0) [1..<Suc (field_count s)]"

definition mtpndd_satcount_mtbdd ::
  "sylvan \<Rightarrow> 'm sylvan_maps \<Rightarrow> sylvan_query \<Rightarrow> double_ops \<Rightarrow> ptr \<Rightarrow> mstate \<Rightarrow> (64 word \<times> mstate) option" where
  "mtpndd_satcount_mtbdd S X Q D node s =
     (if \<not> mtpndd_is_initialized s
      then Some (d_of_u64 D (nat (error_code MTPNDD_ERROR_NOT_INITIALIZED)),
                 mtpndd_set_error MTPNDD_ERROR_NOT_INITIALIZED ''mtpndd_satcount_mtbdd'' 2617 s)
      else if node = NULL
      then Some (d_of_u64 D (nat (error_code MTPNDD_ERROR_NULL_POINTER)),
                 mtpndd_set_error MTPNDD_ERROR_NULL_POINTER ''mtpndd_satcount_mtbdd'' 2618 s)
      else do {
        (status, b, s) \<leftarrow> mtpndd_to_mtbdd S X node s;
        if status \<noteq> MTPNDD_SUCCESS then Some (d_of_u64 D (nat (error_code status)), s)
        else do {
          b \<leftarrow> b;
          nvars \<leftarrow> mtpndd_total_bdd_vars s;
          Some (mtbdd_satcount Q b nvars, sylvan_deref b s)
        }
      })"

section \<open>From a BDD to a diagram\<close>

type_synonym from_rec = "bdd \<Rightarrow> mtbdd_to_mtpndd_cache \<Rightarrow> mstate
   \<Rightarrow> (mtpndd_error \<times> ptr \<times> mtbdd_to_mtpndd_cache \<times> mstate) option"

type_synonym collect_result = "(mtpndd_error \<times> mtbdd_to_mtpndd_cache \<times> mtpndd_edge \<times> mstate) option"

text \<open>The end of a path through the field: the child, and the edge to it under the cube of the path.\<close>

definition collect_leaf ::
  "sylvan \<Rightarrow> from_rec \<Rightarrow> bdd \<Rightarrow> bdd \<Rightarrow> mtbdd_to_mtpndd_cache \<Rightarrow> mtpndd_edge \<Rightarrow> mstate \<Rightarrow> collect_result" where
  "collect_leaf S rec current cube_bdd cache edges s = do {
     (status, child_node, cache, s) \<leftarrow> rec current cache s;
     if status \<noteq> MTPNDD_SUCCESS then Some (status, cache, edges, s)
     else do {
       let s = sylvan_ref cube_bdd s;
       (status, edges, s) \<leftarrow> mtpndd_add_edge S edges child_node cube_bdd s;
       Some (status, cache, edges, if status \<noteq> MTPNDD_SUCCESS then sylvan_deref cube_bdd s else s)
     }
   }"

function mtbdd_to_mtpndd_collect ::
  "sylvan \<Rightarrow> sylvan_query \<Rightarrow> sylvan_graph \<Rightarrow> from_rec \<Rightarrow> field_info \<Rightarrow> nat \<Rightarrow> nat \<Rightarrow> bdd \<Rightarrow> bdd \<Rightarrow> mtbdd_to_mtpndd_cache
   \<Rightarrow> mtpndd_edge \<Rightarrow> mstate \<Rightarrow> collect_result" where
  "mtbdd_to_mtpndd_collect S Q G rec field field_start offset current cube_bdd cache edges s =
     (if current = sylvan_false S then Some (MTPNDD_SUCCESS, cache, edges, s)
      else if fi_bit_width field \<le> offset \<or> mtbdd_isleaf G current
              \<or> (field_start + fi_bit_width field) mod 2 ^ 32 \<le> sylvan_var Q current
      then collect_leaf S rec current cube_bdd cache edges s
      else if length (fi_bdd_vars field) \<le> offset \<or> length (fi_bdd_not_vars field) \<le> offset then None
      else do {
        let on_var = (sylvan_var Q current = (field_start + offset) mod 2 ^ 32);
        let low_child = (if on_var then sylvan_low G current else current);
        let high_child = (if on_var then sylvan_high Q current else current);
        let cube_low = sylvan_and S cube_bdd (fi_bdd_not_vars field ! offset);
        let s = sylvan_ref cube_low s;
        (status, cache, edges, s) \<leftarrow>
          mtbdd_to_mtpndd_collect S Q G rec field field_start (offset + 1) low_child cube_low cache edges s;
        let s = sylvan_deref cube_low s;
        if status \<noteq> MTPNDD_SUCCESS then Some (status, cache, edges, s)
        else do {
          let cube_high = sylvan_and S cube_bdd (fi_bdd_vars field ! offset);
          let s = sylvan_ref cube_high s;
          (status, cache, edges, s) \<leftarrow>
            mtbdd_to_mtpndd_collect S Q G rec field field_start (offset + 1) high_child cube_high cache edges s;
          Some (status, cache, edges, sylvan_deref cube_high s)
        }
      })"
  by pat_completeness auto
termination
  by (relation "measure (\<lambda>(S, Q, G, rec, field, field_start, offset, _). fi_bit_width field - offset)") auto

declare mtbdd_to_mtpndd_collect.simps [simp del]

primrec mtbdd_to_mtpndd_rec :: "nat \<Rightarrow> sylvan \<Rightarrow> sylvan_query \<Rightarrow> sylvan_graph \<Rightarrow> from_rec" where
  "mtbdd_to_mtpndd_rec 0 S Q G = (\<lambda>b cache s. None)"
| "mtbdd_to_mtpndd_rec (Suc k) S Q G = (\<lambda>b cache s.
     if b = sylvan_false S then Some (MTPNDD_SUCCESS, MTPNDD_FALSE, cache, s)
     else if b = sylvan_true S then Some (MTPNDD_SUCCESS, MTPNDD_TRUE, cache, s)
     else do {
       cached \<leftarrow> mtbdd_to_mtpndd_cache_lookup cache b;
       case cached of
         Some node \<Rightarrow> Some (MTPNDD_SUCCESS, node, cache, s)
       | None \<Rightarrow> do {
           field \<leftarrow> mtpndd_find_field_by_expanded_var (sylvan_var Q b) s;
           case field of
             None \<Rightarrow> Some (MTPNDD_ERROR_INVALID_FIELD, NULL, cache,
                           mtpndd_set_error MTPNDD_ERROR_INVALID_FIELD ''mtbdd_to_mtpndd_rec'' 2484 s)
           | Some field \<Rightarrow> do {
               field_start \<leftarrow> mtpndd_field_expanded_start (fi_field_id field) s;
               case mtpndd_memory_acquire_edge_map s of
                 (None, s) \<Rightarrow> Some (MTPNDD_ERROR_OUT_OF_MEMORY, NULL, cache,
                                    mtpndd_set_error MTPNDD_ERROR_OUT_OF_MEMORY ''mtbdd_to_mtpndd_rec'' 2491 s)
               | (Some edges, s) \<Rightarrow> do {
                   edges \<leftarrow> mtpndd_edge_map_init s edges;
                   (status, cache, edges, s) \<leftarrow>
                     mtbdd_to_mtpndd_collect S Q G (mtbdd_to_mtpndd_rec k S Q G) field field_start 0 b (sylvan_true S) cache edges s;
                   if status \<noteq> MTPNDD_SUCCESS
                   then do { s \<leftarrow> mtpndd_edge_map_free edges s; Some (status, NULL, cache, s) }
                   else do {
                     (node, s) \<leftarrow> mtpndd_mk S (fi_field_id field) edges s;
                     if node = NULL
                     then do {
                       s \<leftarrow> mtpndd_edge_map_free edges s;
                       Some (ei_code (mtpndd_get_last_error s), NULL, cache, s)
                     }
                     else do {
                       (_, cache, s) \<leftarrow> mtbdd_to_mtpndd_cache_insert cache b node s;
                       Some (MTPNDD_SUCCESS, node, cache, s)
                     }
                   }
                 }
             }
         }
     })"

definition mtbdd_to_mtpndd ::
  "sylvan \<Rightarrow> sylvan_query \<Rightarrow> sylvan_graph \<Rightarrow> bdd \<Rightarrow> mstate \<Rightarrow> (mtpndd_error \<times> ptr option \<times> mstate) option" where
  "mtbdd_to_mtpndd S Q G b s =
     (if \<not> mtpndd_is_initialized s
      then Some (MTPNDD_ERROR_NOT_INITIALIZED, None, mtpndd_set_error MTPNDD_ERROR_NOT_INITIALIZED ''mtbdd_to_mtpndd'' 2515 s)
      else do {
        (cache, s) \<leftarrow> mtbdd_to_mtpndd_cache_init 64 s;
        case cache of
          None \<Rightarrow> Some (MTPNDD_ERROR_OUT_OF_MEMORY, None, s)
        | Some cache \<Rightarrow> do {
            (status, tmp, cache, s) \<leftarrow> mtbdd_to_mtpndd_rec (op_fuel s) S Q G b cache s;
            let cache = mtbdd_to_mtpndd_cache_destroy cache;
            Some (status, if status \<noteq> MTPNDD_SUCCESS then None else Some tmp, s)
          }
      })"

end
