(* ===== verification/Exact_Double.thy ===== *)
theory Exact_Double
  imports Arith_Ops "HOL-Library.Log_Nat"
begin

text \<open>
  What counting in floating point relies on: natural numbers below \<open>2 ^ 53\<close> have a double, and sums,
  products, exact quotients and powers of two that stay below are exact.  IEEE 754 binary64
  guarantees this; the locale \<open>exact_doubles\<close> states it, \<open>rep x n\<close> for the double \<open>x\<close> that is the
  number \<open>n\<close>.  The instance encodes naturals in the binary64 format.
\<close>

locale exact_doubles =
  fixes D :: double_ops and rep :: "64 word \<Rightarrow> nat \<Rightarrow> bool"
  assumes rep_unique: "rep x a \<Longrightarrow> rep x b \<Longrightarrow> a = b"
    and rep_of: "n < 2 ^ 53 \<Longrightarrow> rep (d_of_u64 D n) n"
    and rep_add: "rep x a \<Longrightarrow> rep y b \<Longrightarrow> a + b < 2 ^ 53 \<Longrightarrow> rep (d_add D x y) (a + b)"
    and rep_mul: "rep x a \<Longrightarrow> rep y b \<Longrightarrow> a * b < 2 ^ 53 \<Longrightarrow> rep (d_mul D x y) (a * b)"
    and rep_div: "rep x (a * b) \<Longrightarrow> rep y b \<Longrightarrow> b \<noteq> 0 \<Longrightarrow> rep (d_div D x y) a"
    and rep_pow: "n < 53 \<Longrightarrow> rep (d_pow D (d_of_u64 D 2) (d_of_u64 D n)) (2 ^ n)"

section \<open>Naturals in the binary64 format\<close>

text \<open>The exponent is the position of the leading bit, biased by 1023; the leading bit is implicit.\<close>

definition d_encode :: "nat \<Rightarrow> 64 word" where
  "d_encode n =
     (if n = 0 then 0
      else let e = floorlog 2 n - 1 in word_of_nat ((1023 + e) * 2 ^ 52 + (n * 2 ^ (52 - e) - 2 ^ 52)))"

definition d_decode :: "64 word \<Rightarrow> nat" where
  "d_decode w =
     (if w = 0 then 0
      else let e = unat w div 2 ^ 52 - 1023 in (2 ^ 52 + unat w mod 2 ^ 52) div 2 ^ (52 - e))"

definition nat_doubles :: double_ops where
  "nat_doubles =
     \<lparr>d_add = (\<lambda>x y. d_encode (d_decode x + d_decode y)),
      d_sub = (\<lambda>x y. d_encode (d_decode x - d_decode y)),
      d_mul = (\<lambda>x y. d_encode (d_decode x * d_decode y)),
      d_div = (\<lambda>x y. d_encode (d_decode x div d_decode y)),
      d_neg = (\<lambda>x. x XOR push_bit 63 1),
      d_is_zero = (\<lambda>x. x = 0 \<or> x = push_bit 63 1),
      d_of_u64 = d_encode, d_to_i64 = (\<lambda>x. Some (int (d_decode x))),
      d_pow = (\<lambda>x y. d_encode (d_decode x ^ d_decode y))\<rparr>"

lemma leading_bit:
  assumes "0 < n" "n < 2 ^ 53"
  shows "floorlog 2 n - 1 < 53" "2 ^ (floorlog 2 n - 1) \<le> n" "n < 2 * 2 ^ (floorlog 2 n - 1)"
proof -
  have l: "2 ^ (floorlog 2 n - 1) \<le> n" "n < 2 ^ floorlog 2 n" 
    using floorlog_bounds[OF assms(1), of 2] by simp_all
  have l0: "floorlog 2 n \<noteq> 0" using floorlog_eq_zero_iff[of 2 n] assms(1) by linarith
  show "2 ^ (floorlog 2 n - 1) \<le> n" by (rule l(1))
  show "n < 2 * 2 ^ (floorlog 2 n - 1)" using l(2) l0 by (cases "floorlog 2 n") simp_all
  have "(2::nat) ^ (floorlog 2 n - 1) < 2 ^ 53" using l(1) assms(2) by linarith
  then show "floorlog 2 n - 1 < 53" by (rule power_less_imp_less_exp[rotated]) simp
qed

lemma unat_word_of_nat: "n < 2 ^ 64 \<Longrightarrow> unat (word_of_nat n :: 64 word) = n"
  by (simp add: unat_of_nat)

lemma d_decode_encode:
  assumes "n < 2 ^ 53" shows "d_decode (d_encode n) = n"
proof (cases "n = 0")
  case True
  then show ?thesis by (simp add: d_encode_def d_decode_def)
next
  case False
  define e where "e = floorlog 2 n - 1"
  note b = leading_bit[of n, folded e_def]
  have e: "e < 53" "2 ^ e \<le> n" "n < 2 * 2 ^ e" using b False assms by simp_all
  then have p: "(2::nat) ^ e * 2 ^ (52 - e) = 2 ^ 52" by (simp flip: power_add)
  have lo: "2 ^ 52 \<le> n * 2 ^ (52 - e)" using mult_right_mono[OF e(2), of "2 ^ (52 - e)"] p by simp
  have hi: "n * 2 ^ (52 - e) < 2 * 2 ^ 52" 
    using mult_strict_right_mono[OF e(3), of "2 ^ (52 - e)"] p by (simp add: mult.assoc)
  define k where "k = n * 2 ^ (52 - e) - 2 ^ 52"
  have k: "k < 2 ^ 52" "n * 2 ^ (52 - e) = 2 ^ 52 + k" using lo hi by (simp_all add: k_def)
  have u: "unat (d_encode n) = (1023 + e) * 2 ^ 52 + k"
  proof -
    have "e \<le> 52" using e(1) by simp
    then have "(1023 + e) * 2 ^ 52 + k < (1024 + 52) * 2 ^ 52" using k(1) by simp
    then have "(1023 + e) * 2 ^ 52 + k < 2 ^ 64" by simp
    moreover have "d_encode n = word_of_nat ((1023 + e) * 2 ^ 52 + k)"
      using False by (simp only: d_encode_def Let_def e_def k_def if_False)
    ultimately show ?thesis using unat_word_of_nat by metis
  qed
  have "unat (d_encode n) \<noteq> 0" using u by simp
  then have nz: "d_encode n \<noteq> 0" by (metis unat_0)
  have "unat (d_encode n) div 2 ^ 52 = 1023 + e" "unat (d_encode n) mod 2 ^ 52 = k"
    unfolding u using k(1) mod_mult_self3[of "1023 + e" "2 ^ 52" k] by simp_all
  moreover have "(2 ^ 52 + k) div 2 ^ (52 - e) = n" unfolding k(2)[symmetric] by simp
  ultimately show ?thesis using nz by (simp add: d_decode_def)
qed

lemma d_encode_inj: "a < 2 ^ 53 \<Longrightarrow> b < 2 ^ 53 \<Longrightarrow> d_encode a = d_encode b \<Longrightarrow> a = b"
  by (metis d_decode_encode)

interpretation ieee: exact_doubles nat_doubles "\<lambda>x n. n < 2 ^ 53 \<and> x = d_encode n"
proof
  fix x y :: "64 word" and a b :: nat
  assume x: "a * b < 2 ^ 53 \<and> x = d_encode (a * b)" and y: "b < 2 ^ 53 \<and> y = d_encode b" and b: "b \<noteq> 0"
  then have "a * 1 \<le> a * b" by (intro mult_le_mono2) simp
  then have "a < 2 ^ 53" using x by linarith
  then show "a < 2 ^ 53 \<and> d_div nat_doubles x y = d_encode a"
    using x y b by (simp add: nat_doubles_def d_decode_encode)
next
  fix n :: nat assume "n < 53"
  moreover have "(2::nat) ^ n < 2 ^ 53" by (rule power_strict_increasing[OF calculation]) simp
  ultimately show "2 ^ n < (2::nat) ^ 53 \<and> d_pow nat_doubles (d_of_u64 nat_doubles 2) (d_of_u64 nat_doubles n) = d_encode (2 ^ n)"
    by (simp add: nat_doubles_def d_decode_encode)
qed (use d_decode_encode d_encode_inj in \<open>auto simp: nat_doubles_def\<close>)

end
