(* ===== verification/Validate_Correct.thy ===== *)
theory Validate_Correct
  imports Diagram_Walk Exact_Double
begin

text \<open>
  What \<open>mtpndd_abstract_plus_validate\<close> decides: that every edge label under the root depends only
  on the BDD variables of the field of its node.  The locale \<open>sylvan_support\<close> states what the
  traversal relies on from Sylvan, that the support of a label is the cube of the variables it
  depends on; the truth tables are an instance.
\<close>

section \<open>Supports\<close>

definition depends :: "bdd_model \<Rightarrow> bdd \<Rightarrow> nat set" where
  "depends M l = {i. \<exists>v. bdd_sem M l (v(i := True)) \<noteq> bdd_sem M l (v(i := False))}"

inductive cube :: "sylvan \<Rightarrow> sylvan_query \<Rightarrow> bdd \<Rightarrow> nat set \<Rightarrow> bool" for S Q where
  cube_true: "cube S Q (sylvan_true S) {}"
| cube_var: "b \<noteq> sylvan_true S \<Longrightarrow> b \<noteq> sylvan_false S \<Longrightarrow> cube S Q (sylvan_high Q b) V
     \<Longrightarrow> cube S Q b (insert (sylvan_var Q b) V)"

lemma support_within_range_cube:
  assumes "cube S Q b V"
  shows "support_within_range S Q b lo w = Some (V \<subseteq> {lo..<(lo + w) mod 2 ^ 32})"
  using assms
proof (induction rule: cube.induct)
  case cube_true
  then show ?case by (subst support_within_range.simps) simp
next
  case (cube_var b V)
  then show ?case by (subst support_within_range.simps) (auto simp: Let_def)
qed

locale sylvan_support = sylvan_laws +
  fixes Q :: sylvan_query
  assumes support_cube: "bdd_ok M l \<Longrightarrow> cube S Q (mtbdd_support Q l) (depends M l)"
begin

lemma label_in_range_depends:
  assumes "bdd_ok M l"
  shows "label_in_range S Q l lo w = Some (depends M l \<subseteq> {lo..<(lo + w) mod 2 ^ 32})"
proof (cases "l = sylvan_true S \<or> l = sylvan_false S")
  case True
  then have "depends M l = {}" by (auto simp: depends_def)
  then show ?thesis using True by (simp add: label_in_range_def)
next
  case False
  then show ?thesis using support_within_range_cube[OF support_cube[OF assms]] by (simp add: label_in_range_def)
qed

end

section \<open>Valid diagrams\<close>

text \<open>The variables of a field, as its information record gives them.\<close>

definition field_vars :: "mstate \<Rightarrow> nat \<Rightarrow> nat set" where
  "field_vars s f = (case field_infos s f of None \<Rightarrow> {} | Some i \<Rightarrow> {fi_start_var i..<fi_start_var i + fi_bit_width i})"

definition infos_ok :: "mstate \<Rightarrow> bool" where
  "infos_ok s \<longleftrightarrow> (\<forall>f\<in>{1..field_count s}. \<exists>i. field_infos s f = Some i \<and> fi_start_var i + fi_bit_width i < 2 ^ 32)"

definition valid_node :: "bdd_model \<Rightarrow> mstate \<Rightarrow> ptr \<Rightarrow> bool" where
  "valid_node M s p \<longleftrightarrow> (\<forall>f m. content s p = Some (f, NEdges m) \<longrightarrow>
     (\<forall>l\<in>ran (emap m). depends M l \<subseteq> field_vars s f))"

definition valid_diagram :: "bdd_model \<Rightarrow> mstate \<Rightarrow> ptr \<Rightarrow> bool" where
  "valid_diagram M s p \<longleftrightarrow> (\<forall>q\<in>reach s p. valid_node M s q)"

lemma valid_calm [simp]:
  assumes "calm s s'"
  shows "field_vars s' = field_vars s" "infos_ok s' = infos_ok s" "valid_node M s' = valid_node M s"
    "valid_diagram M s' = valid_diagram M s"
  using assms by (simp_all add: field_vars_def infos_ok_def valid_node_def valid_diagram_def fun_eq_iff)

lemma valid_leaf [simp]: "leaf_at s p \<Longrightarrow> valid_node M s p"
  by (auto simp: leaf_at_def valid_node_def)

lemma leaf_no_child: "leaf_at s x \<Longrightarrow> \<not> child s x c"
  by (auto simp: leaf_at_def child_def)

lemma calm_set_error: "calm s (mtpndd_set_error e fn line s)"
  unfolding calm_def mtpndd_set_error_def by (intro exI[of _ "c_heap_of s"] exI) simp

definition val_post :: "bdd_model \<Rightarrow> mstate \<Rightarrow> ptr set \<Rightarrow> visited_set \<Rightarrow> bool \<Rightarrow> visited_set \<Rightarrow> mstate \<Rightarrow> bool" where
  "val_post M s P vs ok vs' s' \<longleftrightarrow> calm s s' \<and> visited_ok s' vs' \<and> visited vs \<subseteq> visited vs'
     \<and> (ok \<longrightarrow> \<not> failed s' \<longrightarrow> (\<forall>p\<in>P. leaf_at s p \<or> p \<in> visited vs')
          \<and> (\<forall>x\<in>visited vs' - visited vs. valid_node M s x \<and> (\<forall>c. child s x c \<longrightarrow> leaf_at s c \<or> c \<in> visited vs')))
     \<and> (\<not> ok \<longrightarrow> (\<exists>p\<in>P. \<not> valid_diagram M s p))"

lemma val_post_seq:
  assumes "val_post M s P vs True vs1 s1" "val_post M s1 Q vs1 ok vs2 s2"
  shows "val_post M s (P \<union> Q) vs ok vs2 s2"
proof -
  have c: "calm s s1" "calm s1 s2" using assms by (simp_all add: val_post_def)
  have sub: "visited vs \<subseteq> visited vs1" "visited vs1 \<subseteq> visited vs2" using assms by (simp_all add: val_post_def)
  have "(\<forall>p\<in>P \<union> Q. leaf_at s p \<or> p \<in> visited vs2)
      \<and> (\<forall>x\<in>visited vs2 - visited vs. valid_node M s x \<and> (\<forall>c. child s x c \<longrightarrow> leaf_at s c \<or> c \<in> visited vs2))"
    if "ok" "\<not> failed s2"
  proof -
    have p: "\<forall>p\<in>P. leaf_at s p \<or> p \<in> visited vs1"
      "\<forall>x\<in>visited vs1 - visited vs. valid_node M s x \<and> (\<forall>c. child s x c \<longrightarrow> leaf_at s c \<or> c \<in> visited vs1)"
      using assms(1) calm_failed[OF c(2) that(2)] by (simp_all add: val_post_def)
    have q: "\<forall>p\<in>Q. leaf_at s p \<or> p \<in> visited vs2"
      "\<forall>x\<in>visited vs2 - visited vs1. valid_node M s x \<and> (\<forall>c. child s x c \<longrightarrow> leaf_at s c \<or> c \<in> visited vs2)"
      using assms(2) that c by (simp_all add: val_post_def)
    show ?thesis using p q sub by blast
  qed
  moreover have "\<not> ok \<longrightarrow> (\<exists>p\<in>P \<union> Q. \<not> valid_diagram M s p)" using assms(2) c by (auto simp: val_post_def)
  moreover have "visited_ok s2 vs2" using assms(2) by (simp add: val_post_def)
  ultimately show ?thesis unfolding val_post_def by (intro conjI calm_trans[OF c] order_trans[OF sub] impI) simp_all
qed
text \<open>The loop over the edges of one node, and the node.\<close>

definition edges_post ::
  "bdd_model \<Rightarrow> mstate \<Rightarrow> nat set \<Rightarrow> edge_bucket_entry list \<Rightarrow> visited_set \<Rightarrow> bool \<Rightarrow> visited_set \<Rightarrow> mstate \<Rightarrow> bool" where
  "edges_post M s R es vs ok vs' s' \<longleftrightarrow> calm s s' \<and> visited_ok s' vs' \<and> visited vs \<subseteq> visited vs'
     \<and> (if ok then val_post M s (ee_child ` set es) vs True vs' s' \<and> (\<forall>e\<in>set es. depends M (ee_label e) \<subseteq> R)
        else \<exists>e\<in>set es. \<not> depends M (ee_label e) \<subseteq> R \<or> \<not> valid_diagram M s (ee_child e))"

context sylvan_support
begin

lemma validate_edges_post:
  assumes "\<And>e vs s'. e \<in> set es \<Longrightarrow> calm s s' \<Longrightarrow> visited_ok s' vs \<Longrightarrow>
      \<exists>ok vs' s''. walk (ee_child e) vs s' = Some (ok, vs', s'') \<and> val_post M s' {ee_child e} vs ok vs' s''"
    and "\<And>e. e \<in> set es \<Longrightarrow> bdd_ok M (ee_label e)" and "visited_ok s vs"
  shows "\<exists>ok vs' s'. validate_edges S Q walk lo w es vs s = Some (ok, vs', s')
     \<and> edges_post M s {lo..<(lo + w) mod 2 ^ 32} es vs ok vs' s'"
  using assms
proof (induction es arbitrary: vs s)
  case Nil
  then show ?case by (intro exI[of _ True]) (simp add: edges_post_def val_post_def calm_refl)
next
  case (Cons e es)
  let ?R = "{lo..<(lo + w) mod 2 ^ 32}"
  have r: "label_in_range S Q (mtpndd_edge_label_load S (Some e)) lo w = Some (depends M (ee_label e) \<subseteq> ?R)"
    using label_in_range_depends Cons.prems(2)[of e] by (simp add: mtpndd_edge_label_load_def)
  show ?case
  proof (cases "depends M (ee_label e) \<subseteq> ?R")
    case False
    then show ?thesis using r Cons.prems(3) calm_set_error visited_ok_calm[OF calm_set_error]
      by (intro exI[of _ False]) (simp add: edges_post_def)
  next
    case True
    obtain ok vs1 s1 where 1: "walk (ee_child e) vs s = Some (ok, vs1, s1)" "val_post M s {ee_child e} vs ok vs1 s1"
      using Cons.prems(1)[of e s vs] Cons.prems(3) calm_refl by auto
    have c: "calm s s1" "visited_ok s1 vs1" "visited vs \<subseteq> visited vs1" using 1(2) by (simp_all add: val_post_def)
    show ?thesis
    proof (cases ok)
      case False
      then show ?thesis using 1 c r True by (intro exI[of _ False]) (simp add: edges_post_def val_post_def)
    next
      case ok: True
      obtain ok2 vs2 s2 where 2: "validate_edges S Q walk lo w es vs1 s1 = Some (ok2, vs2, s2)"
        "edges_post M s1 ?R es vs1 ok2 vs2 s2"
        using Cons.IH[OF _ _ c(2)] Cons.prems(1,2) calm_trans[OF c(1)] by (metis list.set_intros(2))
      have "edges_post M s ?R (e # es) vs ok2 vs2 s2"
        using 1(2) 2(2) ok True c calm_trans[OF c(1), of s2] val_post_seq[of M s "{ee_child e}" vs vs1 s1 "ee_child ` set es" True vs2 s2]
        by (cases ok2) (auto simp: edges_post_def)
      then show ?thesis using r True 1(1) ok 2(1) by simp
    qed
  qed
qed

lemma val_post_node:
  assumes "calm s s1" "p \<notin> visited vs" "visited vs1 = insert p (visited vs)"
    and p: "content s p = Some (f, NEdges m)" "wf_map s' m" "field_vars s f = R"
    and post: "edges_post M s1 R (entries m) vs1 ok vs2 s2"
  shows "val_post M s {p} vs ok vs2 s2"
proof -
  have ch: "child s p c \<longleftrightarrow> c \<in> ee_child ` set (entries m)" for c using p(1) by (simp add: child_def dom_emap)
  have ran: "ran (emap m) = ee_label ` set (entries m)" 
    using emap_Some[of m] p(2) by (force simp: ran_def wf_map_def)
  have v: "valid_node M s p \<longleftrightarrow> (\<forall>e\<in>set (entries m). depends M (ee_label e) \<subseteq> R)"
    using p(1,3) by (simp add: valid_node_def ran)
  have c: "calm s1 s2" "visited_ok s2 vs2" "visited vs \<subseteq> visited vs2" "p \<in> visited vs2"
    using post assms(3) by (auto simp: edges_post_def)
  show ?thesis
  proof (cases ok)
    case True
    then have "val_post M s1 (ee_child ` set (entries m)) vs1 True vs2 s2" "valid_node M s p"
      using post v by (simp_all add: edges_post_def)
    then have 1: "valid_node M s p" and 2: "\<not> failed s2 \<longrightarrow> (\<forall>c\<in>ee_child ` set (entries m). leaf_at s c \<or> c \<in> visited vs2)"
      and 3: "\<not> failed s2 \<longrightarrow> (\<forall>x\<in>visited vs2 - insert p (visited vs).
        valid_node M s x \<and> (\<forall>c. child s x c \<longrightarrow> leaf_at s c \<or> c \<in> visited vs2))"
      using assms(1,3) by (simp_all add: val_post_def)
    have "\<forall>x\<in>visited vs2 - visited vs. valid_node M s x \<and> (\<forall>c. child s x c \<longrightarrow> leaf_at s c \<or> c \<in> visited vs2)"
      if f: "\<not> failed s2"
    proof
      fix x assume "x \<in> visited vs2 - visited vs"
      then show "valid_node M s x \<and> (\<forall>c. child s x c \<longrightarrow> leaf_at s c \<or> c \<in> visited vs2)"
        using 1 2 3 f ch by (cases "x = p") blast+
    qed
    then show ?thesis using True c calm_trans[OF assms(1) c(1)] by (simp add: val_post_def)
  next
    case False
    then obtain e where e: "e \<in> set (entries m)" "\<not> depends M (ee_label e) \<subseteq> R \<or> \<not> valid_diagram M s (ee_child e)"
      using post assms(1) by (auto simp: edges_post_def)
    have "reach s (ee_child e) \<subseteq> reach s p" using reach_child ch e(1) by blast
    then have "\<not> valid_diagram M s p" using e v by (auto simp: valid_diagram_def)
    then show ?thesis using False c calm_trans[OF assms(1) c(1)] by (simp add: val_post_def)
  qed
qed
lemma validate_rec_post:
  assumes "walkable S M s" "infos_ok s" "mtpndd_is_initialized s" "deep s k p" "visited_ok s vs"
  shows "\<exists>ok vs' s'. mtpndd_validate_rec k S Q p vs s = Some (ok, vs', s') \<and> val_post M s {p} vs ok vs' s'"
  using assms
proof (induction k arbitrary: p vs s)
  case 0
  then show ?case by (simp add: deep_def)
next
  case (Suc k)
  have p: "p \<noteq> NULL" "nodes s p \<noteq> None" "0 < brk (c_heap_of s)" using Suc.prems by (simp_all add: deep_def walkable_def)
  from Suc.prems(1) p(2) show ?case
  proof (cases rule: walk_node)
    case leaf
    then show ?thesis using p Suc.prems(5) by (intro exI[of _ True]) (simp add: val_post_def calm_refl)
  next
    case (node f m)
    obtain new vs1 s1 where i: "visited_insert vs p s = Some (new, vs1, s1)" "calm s s1" "visited_ok s1 vs1"
      "if new then p \<notin> visited vs \<and> visited vs1 = insert p (visited vs) else vs1 = vs \<and> (p \<in> visited vs \<or> failed s1)"
      using visited_insert_spec[OF Suc.prems(5) p] by blast
    show ?thesis
    proof (cases new)
      case False
      then show ?thesis using i p node(1)
        by (intro exI[of _ True]) (auto simp: validate_visited_mark_def val_post_def)
    next
      case True
      have inv: "sinv S M s" using Suc.prems(1) by (simp add: walkable_def)
      note n = sinv_node[OF inv node(4)]
      obtain info where info: "field_infos s f = Some info" "fi_start_var info + fi_bit_width info < 2 ^ 32"
        using Suc.prems(2) n(1,2) unfolding infos_ok_def by (meson atLeastAtMost_iff)
      have get: "mtpndd_get_field_info f s1 = (Some info, s1)"
        using info(1) Suc.prems(3) n(1,2) i(2) by (simp add: mtpndd_get_field_info_def)
      have w: "walkable S M s1" by (rule walkable_calm[OF i(2) Suc.prems(1)])
      have "\<exists>ok vs' s''. mtpndd_validate_rec k S Q (ee_child e) vs s' = Some (ok, vs', s'') \<and> val_post M s' {ee_child e} vs ok vs' s''"
        if "e \<in> set (entries m)" "calm s1 s'" "visited_ok s' vs" for e vs s'
      proof -
        have "deep s k (ee_child e)" using deep_child[OF Suc.prems(1,4)] node(7) that(1) by simp
        then show ?thesis using Suc.IH[OF walkable_calm[OF that(2) w]] that i(2) Suc.prems(2,3) by simp
      qed
      moreover have "bdd_ok M (ee_label e)" if "e \<in> set (entries m)" for e
        using n(3,6) that emap_Some[of m] unfolding map_wf_def labels_ok_def wf_map_def by blast
      ultimately obtain ok vs2 s2 where 2:
        "validate_edges S Q (mtpndd_validate_rec k S Q) (fi_start_var info) (fi_bit_width info) (entries m) vs1 s1 = Some (ok, vs2, s2)"
        "edges_post M s1 {fi_start_var info..<(fi_start_var info + fi_bit_width info) mod 2 ^ 32} (entries m) vs1 ok vs2 s2"
        using validate_edges_post[OF _ _ i(3), where walk = "mtpndd_validate_rec k S Q"] by blast
      have "val_post M s {p} vs ok vs2 s2"
        by (rule val_post_node[OF i(2) _ _ node(4) n(6) _ 2(2)]) (use i(4) True info in \<open>simp_all add: field_vars_def\<close>)
      moreover have "node_field s1 p = Some f" using node(4) i(2) by (simp add: node_field_content)
      ultimately show ?thesis using p node i(1,2) True get 2(1) by (simp add: validate_visited_mark_def)
    qed
  qed
qed
text \<open>The answer is right unless an allocation failed; a rejection without a failed set-up is always right.\<close>

lemma validate_spec:
  assumes "walkable S M s" "infos_ok s" "mtpndd_is_initialized s" "nodes s p \<noteq> None"
  shows "\<exists>ok s'. mtpndd_abstract_plus_validate S Q p s = Some (ok, s') \<and> calm s s'
     \<and> (\<not> failed s' \<longrightarrow> ok = valid_diagram M s p)
     \<and> (\<not> ok \<longrightarrow> \<not> valid_diagram M s p \<or> ei_code (last_error s') = MTPNDD_ERROR_OUT_OF_MEMORY)"
proof -
  have p: "p \<noteq> NULL" using assms(1,4) unfolding walkable_def by metis
  obtain q s1 where m: "malloc (1024 * 8) s = (q, s1)" by fastforce
  have c: "calm s s1" "q = NULL \<longrightarrow> failed s1" using calm_malloc[OF m] assms(1) by (auto simp: walkable_def)
  let ?vs = "\<lparr>vs_bucket_count = 1024, vs_buckets = replicate 1024 []\<rparr>"
  show ?thesis
  proof (cases "q = NULL")
    case True
    let ?s = "mtpndd_set_error MTPNDD_ERROR_OUT_OF_MEMORY ''mtpndd_abstract_plus_validate'' 1636 s1"
    have "mtpndd_abstract_plus_validate S Q p s = Some (False, ?s)"
      using True p assms(3) m by (simp add: mtpndd_abstract_plus_validate_def validate_visited_init_def)
    moreover have "failed ?s" "ei_code (last_error ?s) = MTPNDD_ERROR_OUT_OF_MEMORY"
      using c True by (simp_all add: mtpndd_set_error_def)
    ultimately show ?thesis using calm_trans[OF c(1) calm_set_error] by blast
  next
    case False
    have "visited_ok s1 ?vs" using is_pow2_power[of 10] by (simp add: visited_ok_def)
    moreover have "deep s1 (op_fuel s1) p" using assms(4) p c by (simp add: deep_def op_fuel_def)
    ultimately obtain ok vs s' where r: "mtpndd_validate_rec (op_fuel s1) S Q p ?vs s1 = Some (ok, vs, s')"
      "val_post M s1 {p} ?vs ok vs s'"
      using validate_rec_post[OF walkable_calm[OF c(1) assms(1)]] assms(2,3) c(1) by (metis calm_fields(8) valid_calm(2))
    have "visited ?vs = {}" by (simp add: visited_def)
    then have ok: "leaf_at s p \<or> p \<in> visited vs" "\<forall>x\<in>visited vs. valid_node M s x \<and> (\<forall>c. child s x c \<longrightarrow> leaf_at s c \<or> c \<in> visited vs)"
      if "ok" "\<not> failed s'" using r(2) that c(1) by (simp_all add: val_post_def)
    have "valid_diagram M s p" if "ok" "\<not> failed s'"
    proof -
      have "reach s p \<subseteq> {x. leaf_at s x \<or> x \<in> visited vs}"
        by (rule reach_least) (use ok[OF that] leaf_no_child in blast)+
      then show ?thesis using ok[OF that] valid_leaf by (auto simp: valid_diagram_def)
    qed
    moreover have "\<not> ok \<longrightarrow> \<not> valid_diagram M s p" using r(2) c(1) by (simp add: val_post_def)
    moreover have "mtpndd_abstract_plus_validate S Q p s = Some (ok, s')"
      using False p assms(3) m r(1) by (simp add: mtpndd_abstract_plus_validate_def validate_visited_init_def)
    moreover have "calm s s'" using calm_trans[OF c(1)] r(2) by (simp add: val_post_def)
    ultimately show ?thesis by blast
  qed
qed

end
section \<open>Supports of truth tables\<close>

definition tt_cofactor :: "nat \<Rightarrow> bool \<Rightarrow> bdd \<Rightarrow> bdd" where
  "tt_cofactor i b w = horner_sum of_bool 2 (map (\<lambda>n. bit w (tt_index ((bit n)(i := b)))) [0..<64])"

definition tt_vars_of :: "bdd \<Rightarrow> nat list" where
  "tt_vars_of w = filter (\<lambda>i. tt_cofactor i True w \<noteq> tt_cofactor i False w) [0..<6]"

definition tt_query :: sylvan_query where
  "tt_query =
     \<lparr>mtbdd_satcount = (\<lambda>w n. d_encode (length (filter (\<lambda>A. bit w (tt_index (\<lambda>i. i \<in> set A))) (subseqs [0..<n])))),
      mtbdd_support = (\<lambda>w. fold (\<lambda>i c. sylvan_ithvar tt_sylvan i AND c) (tt_vars_of w) (- 1)),
      sylvan_var = (\<lambda>w. hd (tt_vars_of w)),
      sylvan_high = (\<lambda>w. tt_cofactor (hd (tt_vars_of w)) True w)\<rparr>"

lemma tt_ok: "bdd_ok tt_model w"
  by (simp add: tt_model_def)

lemma tt_eq: "u = w \<longleftrightarrow> (\<forall>v. bdd_sem tt_model u v = bdd_sem tt_model w v)"
  using tt.canonical[OF tt_ok tt_ok, of u w] by (auto simp: fun_eq_iff)

lemma tt_index_cong: "(\<And>i. i < 6 \<Longrightarrow> v i = u i) \<Longrightarrow> tt_index v = tt_index u"
  by (simp add: tt_index_def)

lemma tt_cofactor_sem: "bdd_sem tt_model (tt_cofactor i b w) v \<longleftrightarrow> bdd_sem tt_model w (v(i := b))"
proof -
  have "tt_index ((bit (tt_index v))(i := b)) = tt_index (v(i := b))"
    by (rule tt_index_cong) (simp add: tt_index_bit)
  then show ?thesis using tt_index_less[of v]
    by (simp add: tt_model_def tt_cofactor_def bit_horner_sum_bit_iff)
qed

lemma tt_depends: "depends tt_model w = set (tt_vars_of w)"
proof (rule set_eqI)
  fix i
  have "i \<in> depends tt_model w \<longleftrightarrow> tt_cofactor i True w \<noteq> tt_cofactor i False w"
    unfolding depends_def mem_Collect_eq tt_cofactor_sem[symmetric] tt_eq by simp
  moreover have "i < 6" if "i \<in> depends tt_model w"
  proof (rule ccontr)
    assume "\<not> i < 6"
    then have "tt_index (v(i := True)) = tt_index (v(i := False))" for v by (intro tt_index_cong) auto
    then show False using that by (simp add: depends_def tt_model_def)
  qed
  ultimately show "i \<in> depends tt_model w \<longleftrightarrow> i \<in> set (tt_vars_of w)" by (auto simp: tt_vars_of_def)
qed

definition tt_conj :: "nat list \<Rightarrow> bdd" where
  "tt_conj is = fold (\<lambda>i c. sylvan_ithvar tt_sylvan i AND c) is (- 1)"

lemma tt_conj_sem: "set is \<subseteq> {..<6} \<Longrightarrow> bdd_sem tt_model (tt_conj is) v \<longleftrightarrow> (\<forall>i\<in>set is. v i)"
proof -
  have "set is \<subseteq> {..<6} \<Longrightarrow> bit (fold (\<lambda>i c. sylvan_ithvar tt_sylvan i AND c) is c) (tt_index v)
      \<longleftrightarrow> bit c (tt_index v) \<and> (\<forall>i\<in>set is. v i)" for c
    by (induction "is" arbitrary: c) (auto simp: bit_and_iff tt_ithvar)
  then show "set is \<subseteq> {..<6} \<Longrightarrow> bdd_sem tt_model (tt_conj is) v \<longleftrightarrow> (\<forall>i\<in>set is. v i)"
    using tt_index_less[of v] by (simp add: tt_conj_def tt_model_def)
qed

lemma tt_conj_depends:
  assumes "set is \<subseteq> {..<6}" shows "depends tt_model (tt_conj is) = set is"
proof
  show "depends tt_model (tt_conj is) \<subseteq> set is" using assms by (auto simp: depends_def tt_conj_sem split: if_splits)
  show "set is \<subseteq> depends tt_model (tt_conj is)"
    using assms by (auto simp: depends_def tt_conj_sem intro!: exI[of _ "\<lambda>_. True"])
qed

lemma tt_conj_cube:
  assumes "sorted is" "distinct is" "set is \<subseteq> {..<6}"
  shows "cube tt_sylvan tt_query (tt_conj is) (set is)"
  using assms
proof (induction "is")
  case Nil
  have "tt_conj [] = sylvan_true tt_sylvan" by (simp add: tt_conj_def tt_sylvan_def)
  then show ?case by (simp add: cube_true)
next
  case (Cons i "is")
  have s: "set (tt_vars_of (tt_conj (i # is))) = set (i # is)" using tt_conj_depends[of "i # is"] Cons.prems tt_depends by simp
  have "sorted (tt_vars_of w) \<and> distinct (tt_vars_of w)" for w by (simp add: tt_vars_of_def sorted_wrt_filter)
  then have v: "tt_vars_of (tt_conj (i # is)) = i # is"
    using s Cons.prems sorted_distinct_set_unique by metis
  have "tt_cofactor i True (tt_conj (i # is)) = tt_conj is"
    by (rule tt.canonical[OF tt_ok tt_ok]) (use Cons.prems in \<open>auto simp: fun_eq_iff tt_cofactor_sem tt_conj_sem\<close>)
  moreover have "tt_conj (i # is) \<noteq> sylvan_true tt_sylvan" "tt_conj (i # is) \<noteq> sylvan_false tt_sylvan"
    using tt_conj_sem[of "i # is" "\<lambda>_. False"] tt_conj_sem[of "i # is" "\<lambda>_. True"] Cons.prems tt.sem_true tt.sem_false by auto
  ultimately show ?case using cube_var[of "tt_conj (i # is)" tt_sylvan tt_query "set is"] Cons v
    by (simp add: tt_query_def)
qed

interpretation ttq: sylvan_support tt_sylvan tt_model tt_query
proof
  fix l assume "bdd_ok tt_model l"
  have "cube tt_sylvan tt_query (tt_conj (tt_vars_of l)) (set (tt_vars_of l))"
    by (rule tt_conj_cube) (auto simp: tt_vars_of_def sorted_wrt_filter)
  then show "cube tt_sylvan tt_query (mtbdd_support tt_query l) (depends tt_model l)"
    by (simp add: tt_depends) (simp add: tt_query_def tt_conj_def)
qed

end
