(* ===== verification/Sat_Correct.thy ===== *)
theory Sat_Correct
  imports Sat_Count Validate_Correct "HOL-Library.FuncSet"
begin

text \<open>
  \<open>mtpndd_satcount\<close> is the number of assignments of the variables of all fields under which the
  diagram holds, provided that the labels use the variables of their field only and the total
  width is at most 52 bits, so that all intermediate results are exact doubles.
\<close>

section \<open>Assignments\<close>

text \<open>For every field from \<open>f\<close> on the set of its variables that are true.\<close>

definition assigns :: "mstate \<Rightarrow> nat \<Rightarrow> (nat \<Rightarrow> nat set) set" where
  "assigns s f = PiE {f..field_count s} (\<lambda>g. Pow (field_vars s g))"

definition env_of :: "(nat \<Rightarrow> nat set) \<Rightarrow> env" where
  "env_of \<sigma> = (\<lambda>g i. i \<in> \<sigma> g)"

definition sat_assigns :: "bdd_model \<Rightarrow> mstate \<Rightarrow> nat \<Rightarrow> ptr \<Rightarrow> (nat \<Rightarrow> nat set) set" where
  "sat_assigns M s f p = {\<sigma> \<in> assigns s f. holds M s (env_of \<sigma>) p}"

definition label_sats :: "bdd_model \<Rightarrow> nat set \<Rightarrow> bdd \<Rightarrow> nat set set" where
  "label_sats M V l = {A \<in> Pow V. bdd_sem M l (\<lambda>i. i \<in> A)}"

lemma env_of_upd: "env_of (\<sigma>(f := A)) = (env_of \<sigma>)(f := (\<lambda>i. i \<in> A))"
  by (auto simp: env_of_def)

lemma finite_field_vars [simp]: "finite (field_vars s f)"
  by (simp add: field_vars_def split: option.splits)

lemma finite_assigns [simp]: "finite (assigns s f)"
  by (simp add: assigns_def finite_PiE)

lemma card_assigns: "card (assigns s f) = (\<Prod>g\<in>{f..field_count s}. 2 ^ card (field_vars s g))"
  by (simp add: assigns_def card_PiE card_Pow)

lemma card_assigns_Suc:
  "f \<le> field_count s \<Longrightarrow> card (assigns s f) = 2 ^ card (field_vars s f) * card (assigns s (Suc f))"
  by (simp add: card_assigns atLeastAtMost_insertL[symmetric] prod.insert[of "{Suc f..field_count s}" f])

text \<open>Choosing the first field first.\<close>

lemma card_split:
  assumes "f \<le> field_count s"
  shows "card {\<sigma> \<in> assigns s f. P \<sigma>}
    = (\<Sum>A\<in>Pow (field_vars s f). card {\<tau> \<in> assigns s (Suc f). P (\<tau>(f := A))})"
proof -
  let ?B = "\<lambda>g. Pow (field_vars s g)" and ?I = "{Suc f..field_count s}"
  let ?T = "\<lambda>A. {\<tau> \<in> assigns s (Suc f). P (\<tau>(f := A))}"
  have "assigns s f = (\<lambda>(A, \<tau>). \<tau>(f := A)) ` (?B f \<times> assigns s (Suc f))"
    using PiE_insert_eq[of f ?I ?B] atLeastAtMost_insertL[OF assms] by (simp add: assigns_def)
  then have eq: "{\<sigma> \<in> assigns s f. P \<sigma>} = (\<lambda>(A, \<tau>). \<tau>(f := A)) ` (SIGMA A:?B f. ?T A)" by (auto simp: image_iff)
  have "inj_on (\<lambda>(A, \<tau>). \<tau>(f := A)) (?B f \<times> assigns s (Suc f))"
    unfolding assigns_def by (rule inj_combinator) simp
  then have "inj_on (\<lambda>(A, \<tau>). \<tau>(f := A)) (SIGMA A:?B f. ?T A)" by (rule inj_on_subset) auto
  then show ?thesis unfolding eq by (simp add: card_image)
qed

section \<open>Counting at a node\<close>

lemma count_skip:
  assumes "sinv S M s" "f < fieldof s p" "f \<le> field_count s"
  shows "card (sat_assigns N s f p) = 2 ^ card (field_vars s f) * card (sat_assigns N s (Suc f) p)"
proof -
  have "holds N s (env_of (\<tau>(f := A))) p \<longleftrightarrow> holds N s (env_of \<tau>) p" for \<tau> A
    unfolding env_of_upd by (rule holds_env_upd[OF assms(1,2)])
  then show ?thesis by (simp add: sat_assigns_def card_split[OF assms(3)] card_Pow)
qed

lemma count_node:
  assumes inv: "sinv S M s" and p: "content s p = Some (f, NEdges m)"
  shows "card (sat_assigns M s f p)
    = (\<Sum>c\<in>dom (emap m). card (label_sats M (field_vars s f) (the (emap m c))) * card (sat_assigns M s (Suc f) c))"
proof -
  let ?D = "dom (emap m)" and ?V = "field_vars s f" and ?T = "\<lambda>c. sat_assigns M s (Suc f) c"
  let ?on = "\<lambda>c A. bdd_sem M (the (emap m c)) (\<lambda>i. i \<in> A)"
  note n = sinv_node[OF inv p]
  have fin: "finite ?D" by (simp add: dom_emap)
  have child: "holds M s (env_of (\<tau>(f := A))) c \<longleftrightarrow> holds M s (env_of \<tau>) c" if "c \<in> ?D" for \<tau> A c
    unfolding env_of_upd by (rule holds_env_upd[OF inv]) (use sinv_child[OF inv p that] in \<open>simp add: child_ok_def\<close>)
  have node: "holds M s (env_of (\<tau>(f := A))) p \<longleftrightarrow> (\<exists>c\<in>?D. ?on c A \<and> holds M s (env_of \<tau>) c)" for \<tau> A
  proof -
    have "holds M s (env_of (\<tau>(f := A))) p \<longleftrightarrow> (\<exists>c\<in>?D. ?on c A \<and> holds M s (env_of (\<tau>(f := A))) c)"
      by (subst holds_node[OF inv p]) (force simp: env_of_upd dom_def)
    then show ?thesis using child by blast
  qed
  have one: "{\<tau> \<in> assigns s (Suc f). holds M s (env_of (\<tau>(f := A))) p} = (\<Union>c\<in>{c \<in> ?D. ?on c A}. ?T c)" for A
    by (auto simp: node sat_assigns_def)
  have disj: "c = d" if "c \<in> ?D" "d \<in> ?D" "?on c A" "?on d A" for c d A
    using n(3) that unfolding map_wf_def labels_ok_def by (metis domD option.sel)
  have "card {\<tau> \<in> assigns s (Suc f). holds M s (env_of (\<tau>(f := A))) p} = (\<Sum>c\<in>?D. if ?on c A then card (?T c) else 0)" for A
  proof -
    have "card (\<Union>c\<in>{c \<in> ?D. ?on c A}. ?T c) = (\<Sum>c\<in>{c \<in> ?D. ?on c A}. card (?T c))"
      by (rule card_UN_disjoint) (use fin disj in \<open>auto simp: sat_assigns_def\<close>)
    then show ?thesis unfolding one using fin by (simp add: sum.inter_filter)
  qed
  then have "card (sat_assigns M s f p) = (\<Sum>A\<in>Pow ?V. \<Sum>c\<in>?D. if ?on c A then card (?T c) else 0)"
    by (simp add: sat_assigns_def[of M s f p] card_split[OF n(2)])
  also have "\<dots> = (\<Sum>c\<in>?D. \<Sum>A\<in>Pow ?V. if ?on c A then card (?T c) else 0)" by (rule sum.swap)
  also have "\<dots> = (\<Sum>c\<in>?D. card (label_sats M ?V (the (emap m c))) * card (?T c))"
    by (rule sum.cong) (simp_all add: label_sats_def flip: sum.inter_filter)
  finally show ?thesis .
qed
section \<open>Counting the assignments of a label\<close>

lemma depends_agree:
  assumes "finite F" "\<And>i. i \<notin> F \<Longrightarrow> u i = v i" "F \<inter> depends M l = {}"
  shows "bdd_sem M l u = bdd_sem M l v"
  using assms
proof (induction F arbitrary: u rule: finite_induct)
  case empty
  then have "u = v" by (simp add: fun_eq_iff)
  then show ?case by simp
next
  case (insert i F)
  have flip: "bdd_sem M l (w(i := True)) = bdd_sem M l (w(i := False))" for w
    using insert.prems(2) by (auto simp: depends_def)
  have "bdd_sem M l u = bdd_sem M l (u(i := v i))"
    using flip[of u] fun_upd_triv[of u i] by (cases "u i"; cases "v i") simp_all
  also have "\<dots> = bdd_sem M l v" by (rule insert.IH) (use insert.prems in auto)
  finally show ?case .
qed

text \<open>Variables outside \<open>V\<close> are free: each doubles the count.\<close>

lemma label_sats_widen:
  assumes "finite U" "V \<subseteq> U" "depends M l \<subseteq> V"
  shows "card (label_sats M U l) = card (label_sats M V l) * 2 ^ (card U - card V)"
proof -
  have fin: "finite V" by (rule finite_subset[OF assms(2,1)])
  have sem: "bdd_sem M l (\<lambda>i. i \<in> A) = bdd_sem M l (\<lambda>i. i \<in> A \<inter> V)" if "A \<subseteq> U" for A
    by (rule depends_agree[of "A - V"]) (use that assms finite_subset[OF that assms(1)] in auto)
  have "label_sats M U l = (\<lambda>(A, B). A \<union> B) ` (label_sats M V l \<times> Pow (U - V))"
  proof (rule set_eqI, rule iffI)
    fix A assume "A \<in> label_sats M U l"
    then have "(A \<inter> V, A - V) \<in> label_sats M V l \<times> Pow (U - V)" using sem by (auto simp: label_sats_def)
    then show "A \<in> (\<lambda>(A, B). A \<union> B) ` (label_sats M V l \<times> Pow (U - V))" 
      by (rule rev_image_eqI) (simp, blast)
  next
    fix A assume "A \<in> (\<lambda>(A, B). A \<union> B) ` (label_sats M V l \<times> Pow (U - V))"
    then obtain B C where a: "A = B \<union> C" "B \<in> label_sats M V l" "C \<subseteq> U - V" by auto
    then have "A \<inter> V = B" "A \<subseteq> U" using assms(2) by (auto simp: label_sats_def)
    then show "A \<in> label_sats M U l" using a(2) sem[of A] unfolding label_sats_def by simp
  qed
  moreover have "inj_on (\<lambda>(A, B). A \<union> B) (label_sats M V l \<times> Pow (U - V))"
    by (auto simp: inj_on_def label_sats_def)
  ultimately show ?thesis using assms fin by (simp add: card_image card_cartesian_product card_Pow card_Diff_subset)
qed

lemma label_sats_true: "bdd_sem M l = (\<lambda>_. True) \<Longrightarrow> finite V \<Longrightarrow> card (label_sats M V l) = 2 ^ card V"
  by (simp add: label_sats_def card_Pow flip: Pow_def)
section \<open>The recursion\<close>

text \<open>
  The layout of the variables that \<open>mtpndd_generate_fields\<close> sets up: a field of width \<open>w\<close> uses the
  last \<open>w\<close> of the shared variables.
\<close>

definition width :: "mstate \<Rightarrow> nat \<Rightarrow> nat" where
  "width s f = pending_field_bit_widths s ! (f - 1)"

definition layout_ok :: "mstate \<Rightarrow> bool" where
  "layout_ok s \<longleftrightarrow> field_count s \<le> length (pending_field_bit_widths s)
     \<and> (\<forall>f\<in>{1..field_count s}. \<exists>i. field_infos s f = Some i \<and> fi_bit_width i = width s f
          \<and> fi_start_var i = max_bit_width s - width s f \<and> width s f \<le> max_bit_width s)"

definition total_width :: "mstate \<Rightarrow> nat" where
  "total_width s = (\<Sum>f\<in>{1..field_count s}. width s f)"

lemma layout_vars:
  assumes "layout_ok s" "1 \<le> f" "f \<le> field_count s"
  shows "field_bits f s = Some (width s f)" "field_vars s f = {max_bit_width s - width s f..<max_bit_width s}"
    "card (field_vars s f) = width s f" "width s f \<le> max_bit_width s"
proof -
  obtain i where i: "field_infos s f = Some i" "fi_bit_width i = width s f"
    "fi_start_var i = max_bit_width s - width s f" "width s f \<le> max_bit_width s" "field_count s \<le> length (pending_field_bit_widths s)"
    using assms unfolding layout_ok_def by (meson atLeastAtMost_iff)
  then show "field_bits f s = Some (width s f)" "width s f \<le> max_bit_width s"
    using assms by (simp_all add: field_bits_def width_def)
  show v: "field_vars s f = {max_bit_width s - width s f..<max_bit_width s}" using i by (simp add: field_vars_def)
  show "card (field_vars s f) = width s f" using i(4) by (simp add: v)
qed

lemma assigns_bound:
  assumes "layout_ok s" "1 \<le> f" shows "card (assigns s f) \<le> 2 ^ total_width s"
proof -
  have "card (assigns s f) = (\<Prod>g\<in>{f..field_count s}. 2 ^ width s g)"
    unfolding card_assigns using layout_vars(3)[OF assms(1)] assms(2) by (intro prod.cong) auto
  also have "\<dots> = 2 ^ (\<Sum>g\<in>{f..field_count s}. width s g)" by (rule power_sum[symmetric])
  also have "\<dots> \<le> 2 ^ total_width s"
    unfolding total_width_def using assms(2) by (intro power_increasing sum_mono2) auto
  finally show ?thesis .
qed

lemma sat_assigns_le: "card (sat_assigns M s f p) \<le> card (assigns s f)"
  by (rule card_mono) (auto simp: sat_assigns_def)

definition edge_weight :: "bdd_model \<Rightarrow> mstate \<Rightarrow> nat \<Rightarrow> edge_bucket_entry \<Rightarrow> nat" where
  "edge_weight M s f e = card (label_sats M (field_vars s f) (ee_label e)) * card (sat_assigns M s (Suc f) (ee_child e))"

lemma count_entries:
  assumes "sinv S M s" "content s p = Some (f, NEdges m)"
  shows "card (sat_assigns M s f p) = sum_list (map (edge_weight M s f) (entries m))"
proof -
  have d: "distinct (map ee_child (entries m))" using sinv_node(6)[OF assms] by (simp add: wf_map_def)
  then have "the (emap m (ee_child e)) = ee_label e" if "e \<in> set (entries m)" for e
    using that emap_Some[OF d, of "ee_child e" "ee_label e"] by force
  then have "(\<Sum>c\<in>dom (emap m). card (label_sats M (field_vars s f) (the (emap m c))) * card (sat_assigns M s (Suc f) c))
      = (\<Sum>e\<in>set (entries m). edge_weight M s f e)"
    unfolding dom_emap using d by (subst sum.reindex) (auto simp: distinct_map edge_weight_def)
  then show ?thesis using d by (simp add: count_node[OF assms] sum_list_distinct_conv_sum_set distinct_map)
qed

text \<open>What counting relies on from Sylvan, together with the support of a label.\<close>

locale sylvan_counting = sylvan_laws S M + exact_doubles D rep
  for S :: sylvan and M :: bdd_model and D :: double_ops and rep +
  fixes Q :: sylvan_query
  assumes satcount_label: "bdd_ok M l \<Longrightarrow> depends M l \<subseteq> {..<n} \<Longrightarrow> n < 53 \<Longrightarrow>
    rep (mtbdd_satcount Q l n) (card (label_sats M {..<n} l))"
begin

lemma remaining_measure_spec:
  assumes "layout_ok s" "1 \<le> f" "total_width s < 53" "rep x a" "a * card (assigns s f) < 2 ^ 53"
  shows "\<exists>y. remaining_measure D [f..<Suc (field_count s)] x s = Some y \<and> rep y (a * card (assigns s f))"
  using assms(2,4,5)
proof (induction "Suc (field_count s) - f" arbitrary: f x a)
  case 0
  then have "{f..field_count s} = {}" "[f..<Suc (field_count s)] = []" by simp_all
  then show ?case using 0 by (simp add: card_assigns)
next
  case (Suc k)
  then have f: "f \<le> field_count s" by simp
  note l = layout_vars[OF assms(1) Suc.prems(1) f]
  have w: "width s f < 53" using f Suc.prems(1) assms(3) member_le_sum[of f "{1..field_count s}" "width s"]
    by (simp add: total_width_def)
  have eq: "a * card (assigns s f) = a * 2 ^ width s f * card (assigns s (Suc f))"
    using card_assigns_Suc[OF f] l(3) by simp
  have pos: "0 < card (assigns s (Suc f))" by (simp add: card_assigns)
  have "a * 2 ^ width s f * 1 \<le> a * 2 ^ width s f * card (assigns s (Suc f))" using pos by (intro mult_le_mono2) simp
  then have "a * 2 ^ width s f < 2 ^ 53" using Suc.prems(3) eq by linarith
  then have r: "rep (d_mul D x (pow2_double D (width s f))) (a * 2 ^ width s f)"
    unfolding pow2_double_def by (intro rep_mul Suc.prems(2) rep_pow w)
  obtain y where "remaining_measure D [Suc f..<Suc (field_count s)] (d_mul D x (pow2_double D (width s f))) s = Some y"
    "rep y (a * 2 ^ width s f * card (assigns s (Suc f)))"
  proof -
    have "k = Suc (field_count s) - Suc f" "1 \<le> Suc f" using Suc.hyps(2) by simp_all
    from Suc.hyps(1)[OF this r] show ?thesis using that Suc.prems(3) unfolding eq by blast
  qed
  then show ?case unfolding eq using l(1) f by (simp add: upt_conv_Cons del: upt_Suc)
qed
text \<open>One label, its free variables divided out.\<close>

lemma label_quotient:
  assumes "layout_ok s" "max_bit_width s < 53" "1 \<le> f" "f \<le> field_count s" "bdd_ok M l" "depends M l \<subseteq> field_vars s f"
  shows "rep (d_div D (if l = sylvan_true S then pow2_double D (max_bit_width s) else mtbdd_satcount Q l (max_bit_width s))
      (pow2_double D ((max_bit_width s + 2 ^ 32 - width s f) mod 2 ^ 32))) (card (label_sats M (field_vars s f) l))"
proof -
  note l = layout_vars[OF assms(1,3,4)]
  have m: "(max_bit_width s + 2 ^ 32 - width s f) mod 2 ^ 32 = max_bit_width s - width s f"
    using l(4) assms(2) by (simp add: mod_if)
  have V: "field_vars s f \<subseteq> {..<max_bit_width s}" by (auto simp: l(2))
  have c: "card (label_sats M {..<max_bit_width s} l) = card (label_sats M (field_vars s f) l) * 2 ^ (max_bit_width s - width s f)"
    using label_sats_widen[OF _ V assms(6)] l(3) by simp
  have "rep (if l = sylvan_true S then pow2_double D (max_bit_width s) else mtbdd_satcount Q l (max_bit_width s))
      (card (label_sats M {..<max_bit_width s} l))"
    using rep_pow[OF assms(2)] satcount_label[OF assms(5) _ assms(2)] V assms(6) label_sats_true[of M l "{..<max_bit_width s}"]
    by (auto simp: pow2_double_def fun_eq_iff)
  then show ?thesis unfolding c m pow2_double_def[of D "max_bit_width s - width s f"]
    by (rule rep_div) (use rep_pow assms(2) in simp_all)
qed

lemma satcount_edges_spec:
  assumes "layout_ok s" "max_bit_width s < 53" "1 \<le> f" "f \<le> field_count s"
    and "\<And>e. e \<in> set es \<Longrightarrow> bdd_ok M (ee_label e) \<and> ee_label e \<noteq> sylvan_false S \<and> ee_child e \<noteq> NULL
           \<and> depends M (ee_label e) \<subseteq> field_vars s f"
    and "\<And>e. e \<in> set es \<Longrightarrow> \<exists>y. rec (ee_child e) s = Some y \<and> rep y (card (sat_assigns M s (Suc f) (ee_child e)))"
    and "rep x a" "a + sum_list (map (edge_weight M s f) es) < 2 ^ 53"
  shows "\<exists>y. satcount_edges S Q D rec (pow2_double D ((max_bit_width s + 2 ^ 32 - width s f) mod 2 ^ 32)) es x s = Some y
     \<and> rep y (a + sum_list (map (edge_weight M s f) es))"
  using assms(5-)
proof (induction es arbitrary: x a)
  case (Cons e es)
  have e: "bdd_ok M (ee_label e)" "ee_label e \<noteq> sylvan_false S" "ee_child e \<noteq> NULL" "depends M (ee_label e) \<subseteq> field_vars s f"
    using Cons.prems(1)[of e] by simp_all
  obtain y where y: "rec (ee_child e) s = Some y" "rep y (card (sat_assigns M s (Suc f) (ee_child e)))"
    using Cons.prems(2)[of e] by auto
  note q = label_quotient[OF assms(1-4) e(1,4)]
  have lt: "edge_weight M s f e < 2 ^ 53" "a + edge_weight M s f e < 2 ^ 53" using Cons.prems(4) by simp_all
  note r = rep_add[OF Cons.prems(3) rep_mul[OF q y(2), folded edge_weight_def, OF lt(1)] lt(2)]
  have "a + edge_weight M s f e + sum_list (map (edge_weight M s f) es) < 2 ^ 53" using Cons.prems(4) by (simp add: add.assoc)
  from Cons.IH[OF Cons.prems(1,2) r this] obtain z where
    "satcount_edges S Q D rec (pow2_double D ((max_bit_width s + 2 ^ 32 - width s f) mod 2 ^ 32)) (e # es) x s = Some z"
    "rep z (a + edge_weight M s f e + sum_list (map (edge_weight M s f) es))"
    using y(1) e(2,3) by (auto simp: mtpndd_edge_label_load_def Let_def)
  then show ?case by (auto simp: add.assoc)
qed simp
lemma sat_assigns_bound:
  assumes "layout_ok s" "total_width s < 53" "1 \<le> f"
  shows "card (sat_assigns M s f p) < 2 ^ 53" "card (assigns s f) < 2 ^ 53"
proof -
  have "(2::nat) ^ total_width s < 2 ^ 53" by (rule power_strict_increasing[OF assms(2)]) simp
  then show a: "card (assigns s f) < 2 ^ 53" by (rule le_less_trans[OF assigns_bound[OF assms(1,3)]])
  show "card (sat_assigns M s f p) < 2 ^ 53" by (rule le_less_trans[OF sat_assigns_le a])
qed

lemma satcount_true:
  assumes "sinv S M s" "layout_ok s" "total_width s < 53" "1 \<le> f"
  shows "\<exists>x. mtpndd_satcount_rec (Suc k) S Q D f MTPNDD_TRUE s = Some x \<and> rep x (card (sat_assigns M s f MTPNDD_TRUE))"
proof -
  have c: "content s MTPNDD_TRUE = Some (MTPNDD_FRACTION_LEAF_FIELD_ID, NLeaf (mtpndd_pack_fraction 1 1))"
    using assms(1) by (simp add: sinv_def sentinels_ok_def)
  have "mtpndd_unpack_numer (mtpndd_pack_fraction 1 1) \<noteq> 0" by code_simp
  then have t: "mtpndd_is_terminal s MTPNDD_TRUE = Some True" "leaf_is_zero D MTPNDD_TRUE s = Some False" "\<not> mtpndd_is_false MTPNDD_TRUE"
    using c sinv_leaf[OF assms(1) c] unfolding mtpndd_unpack_numer_def
    by (auto simp: terminal_content leaf_is_zero_def node_field_content leaf_word_def content_def
        mtpndd_is_false_def MTPNDD_TRUE_def MTPNDD_FALSE_def)
  have a: "sat_assigns M s f MTPNDD_TRUE = assigns s f" by (auto simp: sat_assigns_def)
  have one: "rep (d_of_u64 D 1) 1" by (rule rep_of) simp
  have "1 * card (assigns s f) < 2 ^ 53" using sat_assigns_bound(2)[OF assms(2-4)] by simp
  from remaining_measure_spec[OF assms(2,4,3) one this] show ?thesis
    using t a one by (cases "field_count s < f") (auto simp: card_assigns simp del: upt_Suc)
qed

lemma entry_facts:
  assumes inv: "sinv S M s" "nodes s NULL = None" and p: "content s p = Some (f, NEdges m)" "boolean s p" "valid_diagram M s p"
    and e: "e \<in> set (entries m)"
  shows "valid_diagram M s (ee_child e)" "boolean s (ee_child e)" "Suc f \<le> fieldof s (ee_child e)" "ee_child e \<noteq> NULL"
    "bdd_ok M (ee_label e)" "ee_label e \<noteq> sylvan_false S" "depends M (ee_label e) \<subseteq> field_vars s f"
proof -
  note f = edge_facts[OF inv p(1) e]
  show "valid_diagram M s (ee_child e)" using p(3) f(1) reach_child[of s p] unfolding valid_diagram_def by blast
  show "boolean s (ee_child e)" "Suc f \<le> fieldof s (ee_child e)" "ee_child e \<noteq> NULL" "bdd_ok M (ee_label e)"
    "ee_label e \<noteq> sylvan_false S" using f p(2) by simp_all
  have "valid_node M s p" using p(3) by (simp add: valid_diagram_def)
  then show "depends M (ee_label e) \<subseteq> field_vars s f" using p(1) ranI[of "emap m" "ee_child e", OF f(6)] by (simp add: valid_node_def)
qed

lemma satcount_node:
  assumes inv: "sinv S M s" "nodes s NULL = None" and lay: "layout_ok s" "total_width s < 53" "max_bit_width s < 53"
    and p: "content s p = Some (g, NEdges m)" "boolean s p" "valid_diagram M s p" "1 \<le> f" "f \<le> g"
    and IH: "\<And>q. boolean s q \<Longrightarrow> valid_diagram M s q \<Longrightarrow> Suc f \<le> fieldof s q \<Longrightarrow>
        \<exists>x. mtpndd_satcount_rec k S Q D (Suc f) q s = Some x \<and> rep x (card (sat_assigns M s (Suc f) q))"
  shows "\<exists>x. mtpndd_satcount_rec (Suc k) S Q D f p s = Some x \<and> rep x (card (sat_assigns M s f p))"
proof -
  note n = sinv_node[OF inv(1) p(1)]
  have f: "f \<le> field_count s" using n(2) p(5) by simp
  note l = layout_vars[OF lay(1) p(4) f] and lt = sat_assigns_bound(1)[OF lay(1,2) p(4), of p]
  have t: "mtpndd_is_terminal s p = Some False" "node_field s p = Some g" "node_edges s p = Some m" "\<not> mtpndd_is_false p"
    using p(1) n(7) internal_not_sentinel[OF inv(1) p(1)]
    by (auto simp: terminal_content node_field_content node_edges_content mtpndd_is_false_def)
  show ?thesis
  proof (cases "f = g")
    case False
    then have fg: "f < fieldof s p" using p(5) t(2) by simp
    then obtain x where x: "mtpndd_satcount_rec k S Q D (Suc f) p s = Some x" "rep x (card (sat_assigns M s (Suc f) p))"
      using IH[OF p(2,3)] by auto
    have eq: "card (sat_assigns M s f p) = 2 ^ width s f * card (sat_assigns M s (Suc f) p)"
      using count_skip[OF inv(1) fg f] l(3) by simp
    have "rep (d_mul D (pow2_double D (width s f)) x) (card (sat_assigns M s f p))"
      unfolding eq pow2_double_def by (rule rep_mul[OF rep_pow x(2)]) (use l(4) lay(3) lt eq in simp_all)
    then show ?thesis using t l(1) False x(1) by simp
  next
    case True
    note v = entry_facts[OF inv p(1-3)]
    have ih: "\<exists>x. mtpndd_satcount_rec k S Q D (Suc f) (ee_child e) s = Some x \<and> rep x (card (sat_assigns M s (Suc f) (ee_child e)))"
      if "e \<in> set (entries m)" for e by (rule IH) (use v[OF that] True in simp_all)
    have lab: "bdd_ok M (ee_label e) \<and> ee_label e \<noteq> sylvan_false S \<and> ee_child e \<noteq> NULL \<and> depends M (ee_label e) \<subseteq> field_vars s f"
      if "e \<in> set (entries m)" for e using v[OF that] True by simp
    note c = count_entries[OF inv(1) p(1)]
    have "0 + sum_list (map (edge_weight M s f) (entries m)) < 2 ^ 53" using lt c True by simp
    from satcount_edges_spec[where rec = "mtpndd_satcount_rec k S Q D (Suc f)" and es = "entries m" and x = "d_of_u64 D 0",
        OF lay(1,3) p(4) f lab ih rep_of this] obtain y where
      "satcount_edges S Q D (mtpndd_satcount_rec k S Q D (Suc f)) (pow2_double D ((max_bit_width s + 2 ^ 32 - width s f) mod 2 ^ 32))
         (entries m) (d_of_u64 D 0) s = Some y" "rep y (card (sat_assigns M s f p))" using c True by auto
    moreover have "buckets m \<noteq> []" using wf_map_bounds[OF n(6)] n(6) by (auto simp: wf_map_def)
    ultimately show ?thesis using t l(1) True n(6) by simp
  qed
qed
lemma satcount_rec_spec:
  assumes inv: "sinv S M s" "nodes s NULL = None" and lay: "layout_ok s" "total_width s < 53" "max_bit_width s < 53"
    and "boolean s p" "valid_diagram M s p" "1 \<le> f" "f \<le> fieldof s p" "Suc (field_count s) < k + f" "f \<le> Suc (field_count s)"
  shows "\<exists>x. mtpndd_satcount_rec k S Q D f p s = Some x \<and> rep x (card (sat_assigns M s f p))"
  using assms(6-)
proof (induction k arbitrary: f p)
  case (Suc k)
  consider "p = MTPNDD_FALSE" | "p = MTPNDD_TRUE" | g m where "content s p = Some (g, NEdges m)"
    using Suc.prems(1) by (cases rule: boolean.cases) auto
  then show ?case
  proof cases
    case 1
    have "sat_assigns M s f p = {}" using holds_false[OF inv(1)] 1 by (simp add: sat_assigns_def)
    then show ?thesis using 1 rep_of[of 0] by (simp add: mtpndd_is_false_def)
  next
    case 2
    then show ?thesis using satcount_true[OF inv(1) lay(1,2) Suc.prems(3)] by simp
  next
    case (3 g m)
    have fg: "f \<le> g" using Suc.prems(4) fieldof_content[OF 3] by simp
    have ih: "\<exists>x. mtpndd_satcount_rec k S Q D (Suc f) q s = Some x \<and> rep x (card (sat_assigns M s (Suc f) q))"
      if "boolean s q" "valid_diagram M s q" "Suc f \<le> fieldof s q" for q
      by (rule Suc.IH) (use that Suc.prems(5) fg sinv_node(2)[OF inv(1) 3] in simp_all)
    show ?thesis by (rule satcount_node[OF inv lay 3 Suc.prems(1-3) fg ih])
  qed
qed linarith
lemma satcount_spec:
  assumes "hinv S M E s" "layout_ok s" "total_width s < 53" "max_bit_width s < 53" "mtpndd_is_initialized s"
    and "boolean s p" "valid_diagram M s p"
  shows "\<exists>x. mtpndd_satcount S Q D p s = Some (x, s) \<and> rep x (card (sat_assigns M s 1 p))"
proof -
  have inv: "sinv S M s" "nodes s NULL = None" using hinv_walkable[OF assms(1)] by (simp_all add: walkable_def)
  have n: "nodes s p \<noteq> None" "p \<noteq> NULL" using holdable_known[OF assms(1) boolean_holdable[OF assms(6)]] by simp_all
  have "1 \<le> fieldof s p"
  proof (cases rule: boolean.cases[OF assms(6)])
    case (3 f m)
    then show ?thesis using sinv_node(1)[OF inv(1)] by (auto simp: fieldof_content)
  qed (use sentinel_field[OF inv(1)] in \<open>simp_all add: MTPNDD_FRACTION_LEAF_FIELD_ID_def\<close>)
  then obtain x where "mtpndd_satcount_rec (op_fuel s) S Q D 1 p s = Some x" "rep x (card (sat_assigns M s 1 p))"
    using satcount_rec_spec[OF inv assms(2-4,6,7), of 1 "op_fuel s"] by (auto simp: op_fuel_def)
  then show ?thesis using assms(5) n(2) by (simp add: mtpndd_satcount_def mtpndd_satcount_ndd_def)
qed

end

section \<open>Truth tables\<close>

lemma tt_label_sats:
  "card (label_sats tt_model {..<n} w) = length (filter (\<lambda>A. bit w (tt_index (\<lambda>i. i \<in> set A))) (subseqs [0..<n]))"
proof -
  let ?P = "\<lambda>A. bit w (tt_index (\<lambda>i. i \<in> A))"
  have "label_sats tt_model {..<n} w = {A \<in> set ` set (subseqs [0..<n]). ?P A}"
    using subseqs_powset[of "[0..<n]"] by (simp add: label_sats_def tt_model_def atLeast0LessThan)
  also have "\<dots> = set ` set (filter (\<lambda>A. ?P (set A)) (subseqs [0..<n]))" by auto
  finally have "label_sats tt_model {..<n} w = set ` set (filter (\<lambda>A. ?P (set A)) (subseqs [0..<n]))" .
  moreover have "inj_on set (set (filter (\<lambda>A. ?P (set A)) (subseqs [0..<n])))"
    using distinct_set_subseqs[of "[0..<n]"] by (auto simp: distinct_map intro: inj_on_subset)
  moreover have "distinct (subseqs [0..<n])" using distinct_set_subseqs[of "[0..<n]"] by (simp add: distinct_map)
  ultimately show ?thesis using distinct_card[of "filter (\<lambda>A. ?P (set A)) (subseqs [0..<n])"] by (simp add: card_image)
qed

interpretation ttc: sylvan_counting tt_sylvan tt_model nat_doubles "\<lambda>x n. n < 2 ^ 53 \<and> x = d_encode n" tt_query
proof
  fix l :: bdd and n :: nat
  assume n: "n < 53"
  have "card (label_sats tt_model {..<n} l) \<le> card (Pow {..<n})" by (rule card_mono) (auto simp: label_sats_def)
  also have "\<dots> = 2 ^ n" by (simp add: card_Pow)
  also have "\<dots> < 2 ^ 53" by (rule power_strict_increasing[OF n]) simp
  finally show "card (label_sats tt_model {..<n} l) < 2 ^ 53
      \<and> mtbdd_satcount tt_query l n = d_encode (card (label_sats tt_model {..<n} l))"
    by (simp add: tt_query_def tt_label_sats)
qed

end
