(* ===== verification/Convert_Correct.thy ===== *)
theory Convert_Correct
  imports Convert_Ops Sat_Correct
begin

text \<open>
  \<open>mtpndd_to_mtbdd\<close> returns the BDD of the function of the diagram over the expanded variables, provided
  that the first field is the widest (\<open>mtpndd_replace_shared_to_expanded\<close> does not rename the labels of a
  field that starts below the largest width).  The locale \<open>sylvan_substitution\<close> states what the
  renaming relies on from Sylvan; the truth tables are an instance.
\<close>

section \<open>Expanded variables\<close>

definition estart :: "mstate \<Rightarrow> nat \<Rightarrow> nat" where
  "estart s f = (\<Sum>g\<in>{1..<f}. width s g)"

text \<open>The environment of a diagram that an assignment of the expanded variables gives.\<close>

definition expand :: "mstate \<Rightarrow> assignment \<Rightarrow> env" where
  "expand s v f i = (if i \<in> field_vars s f then v (estart s f + (i - (max_bit_width s - width s f))) else v i)"

lemma estart_Suc: "1 \<le> f \<Longrightarrow> estart s (Suc f) = estart s f + width s f"
  by (simp add: estart_def)

lemma estart_1 [simp]: "estart s 1 = 0" "estart s (Suc 0) = 0"
  by (simp_all add: estart_def)

lemma estart_mono: "1 \<le> f \<Longrightarrow> f \<le> g \<Longrightarrow> estart s f \<le> estart s g"
  unfolding estart_def by (rule sum_mono2) auto

lemma estart_end: "1 \<le> f \<Longrightarrow> f \<le> field_count s \<Longrightarrow> estart s f + width s f \<le> total_width s"
proof -
  assume f: "1 \<le> f" "f \<le> field_count s"
  have "estart s f + width s f = estart s (Suc f)" using estart_Suc f by simp
  also have "\<dots> \<le> estart s (Suc (field_count s))" by (rule estart_mono) (use f in simp_all)
  also have "\<dots> = total_width s" by (simp add: estart_def total_width_def atLeastLessThanSuc_atLeastAtMost)
  finally show ?thesis .
qed

lemma expanded_start_loop_sum:
  assumes "layout_ok s" "total_width s < 2 ^ 32" "1 \<le> a" "a \<le> f" "f \<le> Suc (field_count s)"
  shows "expanded_start_loop [a..<f] (estart s a) s = Some (estart s f)"
  using assms(3,4)
proof (induction "f - a" arbitrary: a)
  case (Suc d)
  have a: "1 \<le> a" "a \<le> field_count s" "a < f" using Suc.hyps(2) Suc.prems assms(5) by simp_all
  have "(estart s a + width s a) mod 2 ^ 32 = estart s (Suc a)"
    using estart_end[OF a(1,2)] assms(2) estart_Suc[OF a(1)] by simp
  moreover have "expanded_start_loop [Suc a..<f] (estart s (Suc a)) s = Some (estart s f)"
    by (rule Suc.hyps(1)) (use Suc.hyps(2) a in simp_all)
  ultimately show ?case using layout_vars(1)[OF assms(1) a(1,2)] a(3) by (simp add: upt_conv_Cons)
qed simp

lemma field_expanded_start:
  assumes "layout_ok s" "total_width s < 2 ^ 32" "1 \<le> f" "f \<le> field_count s"
  shows "mtpndd_field_expanded_start f s = Some (estart s f)"
  using expanded_start_loop_sum[OF assms(1,2), of 1 f] assms(3,4) by (simp add: mtpndd_field_expanded_start_def)

section \<open>Renaming\<close>

locale sylvan_substitution = sylvan_vars S M nvars for S M nvars +
  fixes X :: "'m sylvan_maps" and map_ok :: "'m \<Rightarrow> bool" and map_sem :: "'m \<Rightarrow> nat \<rightharpoonup> bdd"
  assumes map_empty [simp]: "map_ok (sylvan_map_empty X)" "map_sem (sylvan_map_empty X) = Map.empty"
    and map_add [simp]: "map_ok m \<Longrightarrow> bdd_ok M b \<Longrightarrow> map_ok (sylvan_map_add X m k b)"
      "map_ok m \<Longrightarrow> bdd_ok M b \<Longrightarrow> map_sem (sylvan_map_add X m k b) = (map_sem m)(k \<mapsto> b)"
    and compose: "bdd_ok M a \<Longrightarrow> map_ok m \<Longrightarrow> bdd_ok M (sylvan_compose X a m)"
      "bdd_ok M a \<Longrightarrow> map_ok m \<Longrightarrow> bdd_sem M (sylvan_compose X a m) v
         \<longleftrightarrow> bdd_sem M a (\<lambda>i. case map_sem m i of None \<Rightarrow> v i | Some b \<Rightarrow> bdd_sem M b v)"
begin

lemma expansion_map_sem:
  assumes "off + w < 2 ^ 32" "start + w < 2 ^ 32" "start + w \<le> nvars"
  shows "map_ok (expansion_map S X off start w) \<and> map_sem (expansion_map S X off start w)
    = (\<lambda>k. if k \<in> {off..<off + w} then Some (sylvan_ithvar S (start + (k - off))) else None)"
  using assms
proof (induction w)
  case 0
  then show ?case by (simp add: expansion_map_def)
next
  case (Suc w)
  then have "map_ok (expansion_map S X off start w)" "map_sem (expansion_map S X off start w)
    = (\<lambda>k. if k \<in> {off..<off + w} then Some (sylvan_ithvar S (start + (k - off))) else None)" by simp_all
  moreover have "expansion_map S X off start (Suc w)
      = sylvan_map_add X (expansion_map S X off start w) (off + w) (sylvan_ithvar S (start + w))"
    using Suc.prems by (simp add: expansion_map_def)
  ultimately show ?case using Suc.prems by (auto simp: fun_eq_iff)
qed

lemma compose_expand:
  assumes "layout_ok s" "1 \<le> f" "f \<le> field_count s" "total_width s < 2 ^ 32" "total_width s \<le> nvars" "max_bit_width s < 2 ^ 32"
    and "bdd_ok M b"
  shows "bdd_ok M (sylvan_compose X b (expansion_map S X (max_bit_width s - width s f) (estart s f) (width s f)))"
    "bdd_sem M (sylvan_compose X b (expansion_map S X (max_bit_width s - width s f) (estart s f) (width s f))) v
       \<longleftrightarrow> bdd_sem M b (expand s v f)"
proof -
  note l = layout_vars[OF assms(1-3)] and e = estart_end[OF assms(2,3)]
  note m = expansion_map_sem[of "max_bit_width s - width s f" "width s f" "estart s f"]
  show "bdd_ok M (sylvan_compose X b (expansion_map S X (max_bit_width s - width s f) (estart s f) (width s f)))"
    by (rule compose(1)[OF assms(7)]) (use m l(4) e assms(4-6) in simp)
  have "(\<lambda>i. case map_sem (expansion_map S X (max_bit_width s - width s f) (estart s f) (width s f)) i of
      None \<Rightarrow> v i | Some b \<Rightarrow> bdd_sem M b v) = expand s v f"
    using m l(2,4) e assms(4-6) by (auto simp: fun_eq_iff expand_def)
  then show "bdd_sem M (sylvan_compose X b (expansion_map S X (max_bit_width s - width s f) (estart s f) (width s f))) v
       \<longleftrightarrow> bdd_sem M b (expand s v f)"
    using compose(2)[OF assms(7)] m l(4) e assms(4-6) by simp
qed

end

text \<open>What the conversion needs of the layout of the variables.\<close>

definition first_widest :: "mstate \<Rightarrow> nat \<Rightarrow> bool" where
  "first_widest s nvars \<longleftrightarrow> layout_ok s \<and> total_width s < 2 ^ 32 \<and> total_width s \<le> nvars \<and> max_bit_width s < 2 ^ 32
     \<and> width s 1 = max_bit_width s"

lemma expand_first:
  assumes "first_widest s nvars" "1 \<le> field_count s"
  shows "expand s v 1 = v"
  using layout_vars(2)[of s 1] assms by (simp add: fun_eq_iff expand_def first_widest_def)

context sylvan_substitution
begin

lemma replace_spec:
  assumes "first_widest s nvars" "1 \<le> f" "f \<le> field_count s" "bdd_ok M b"
  shows "\<exists>r. mtpndd_replace_shared_to_expanded S X b f s = Some (r, sylvan_ref r s) \<and> bdd_ok M r
     \<and> (\<forall>v. bdd_sem M r v \<longleftrightarrow> bdd_sem M b (expand s v f))"
proof (cases "b = sylvan_false S \<or> b = sylvan_true S")
  case True
  then show ?thesis using assms(4) by (auto simp: mtpndd_replace_shared_to_expanded_def)
next
  case False
  have lay: "layout_ok s" "total_width s < 2 ^ 32" "total_width s \<le> nvars" "max_bit_width s < 2 ^ 32" "width s 1 = max_bit_width s"
    using assms(1) by (simp_all add: first_widest_def)
  note l = layout_vars[OF lay(1) assms(2,3)]
  have off: "(max_bit_width s + 2 ^ 32 - width s f) mod 2 ^ 32 = max_bit_width s - width s f"
    using l(4) lay(4) by (simp add: mod_if)
  have r: "mtpndd_replace_shared_to_expanded S X b f s =
      (if estart s f < max_bit_width s then Some (b, sylvan_ref b s)
       else let r = sylvan_compose X b (expansion_map S X (max_bit_width s - width s f) (estart s f) (width s f)) in Some (r, sylvan_ref r s))"
    using False l(1) off field_expanded_start[OF lay(1,2) assms(2,3)] by (simp add: mtpndd_replace_shared_to_expanded_def)
  show ?thesis
  proof (cases "estart s f < max_bit_width s")
    case True
    have "f = 1"
    proof (rule ccontr)
      assume "f \<noteq> 1"
      then have "estart s (Suc 1) \<le> estart s f" using assms(2) by (intro estart_mono) simp_all
      then show False using True estart_Suc[of 1 s] lay(5) by simp
    qed
    then show ?thesis using r True assms(4) expand_first[OF assms(1)] assms(3) by simp
  next
    case False
    then show ?thesis using r compose_expand[OF lay(1) assms(2,3) lay(2-4) assms(4)] by (simp add: Let_def)
  qed
qed

end

section \<open>The conversion is right\<close>

lemma placid_fields [simp]:
  assumes "placid s s'"
  shows "content s' = content s" "nodes s' = nodes s" "node_edges s' p = node_edges s p" "node_field s' p = node_field s p"
    "field_bits f s' = field_bits f s" "max_bit_width s' = max_bit_width s" "op_fuel s' = op_fuel s"
    "field_infos s' = field_infos s" "field_count s' = field_count s" "width s' f = width s f"
    "mtpndd_is_initialized s' = mtpndd_is_initialized s"
  using assms by (auto simp: placid_def content_def fun_eq_iff node_edges_def node_field_def field_bits_def op_fuel_def width_def
      mtpndd_is_initialized_def)

lemma placid_layout [simp]:
  assumes "placid s s'"
  shows "first_widest s' n = first_widest s n" "expand s' = expand s" "total_width s' = total_width s"
proof -
  have p: "pending_field_bit_widths s' = pending_field_bit_widths s" using assms by (auto simp: placid_def)
  have t: "total_width s' = total_width s" using assms by (simp add: total_width_def)
  then show "first_widest s' n = first_widest s n" using assms p by (simp add: first_widest_def layout_ok_def)
  show "expand s' = expand s" using assms by (simp add: expand_def field_vars_def estart_def fun_eq_iff)
  show "total_width s' = total_width s" by (rule t)
qed

definition den :: "bdd_model \<Rightarrow> mstate \<Rightarrow> bdd \<Rightarrow> ptr \<Rightarrow> bool" where
  "den M s b p \<longleftrightarrow> bdd_ok M b \<and> (\<forall>v. bdd_sem M b v \<longleftrightarrow> holds M s (expand s v) p)"

definition cache_good :: "bdd_model \<Rightarrow> mstate \<Rightarrow> mtpndd_to_mtbdd_cache \<Rightarrow> bool" where
  "cache_good M s c \<longleftrightarrow> cache_wf node_key_hash c \<and> (\<forall>k b. cache_map c k = Some b \<longrightarrow> den M s b k)"

text \<open>The keys a call adds are nodes of the fields from \<open>n\<close> on.\<close>

definition adds_from :: "mstate \<Rightarrow> nat \<Rightarrow> mtpndd_to_mtbdd_cache \<Rightarrow> mtpndd_to_mtbdd_cache \<Rightarrow> bool" where
  "adds_from s n c c' \<longleftrightarrow> (\<forall>k. cache_map c k = None \<longrightarrow> cache_map c' k \<noteq> None \<longrightarrow> n \<le> fieldof s k)"

lemma adds_from_refl [simp]: "adds_from s n c c"
  by (simp add: adds_from_def)

lemma adds_from_trans: "adds_from s n c c' \<Longrightarrow> adds_from s n c' c'' \<Longrightarrow> adds_from s n c c''"
  unfolding adds_from_def by metis

lemma adds_from_mono: "adds_from s n c c' \<Longrightarrow> m \<le> n \<Longrightarrow> adds_from s m c c'"
  unfolding adds_from_def by (meson order_trans)

text \<open>The contract of a call on the node \<open>p\<close> in a state \<open>s\<close>; the diagram is that of \<open>s0\<close>.\<close>

definition to_post ::
  "bdd_model \<Rightarrow> mstate \<Rightarrow> ptr \<Rightarrow> mtpndd_to_mtbdd_cache \<Rightarrow> mstate
   \<Rightarrow> (mtpndd_error \<times> bdd \<times> mtpndd_to_mtbdd_cache \<times> mstate) option \<Rightarrow> bool" where
  "to_post M s0 p c s out \<longleftrightarrow> (\<exists>err b c' s'. out = Some (err, b, c', s') \<and> placid s s' \<and> cache_good M s0 c'
     \<and> adds_from s0 (fieldof s0 p) c c' \<and> (if err = MTPNDD_SUCCESS then den M s0 b p else failed s'))"

lemma to_post_seq:
  assumes "placid s s1" "to_post M s0 p c1 s1 out" "adds_from s0 (fieldof s0 p) c c1"
  shows "to_post M s0 p c s out"
proof -
  obtain err b c' s' where "out = Some (err, b, c', s')" "placid s1 s'" "cache_good M s0 c'"
    "adds_from s0 (fieldof s0 p) c1 c'" "if err = MTPNDD_SUCCESS then den M s0 b p else failed s'"
    using assms(2) by (auto simp: to_post_def)
  then show ?thesis unfolding to_post_def using placid_trans[OF assms(1)] adds_from_trans[OF assms(3)] by fast
qed

lemma hinv_room: "hinv S M E s \<Longrightarrow> room s"
  using hinv_walkable[of S M E s] by (simp add: room_def walkable_def hinv_def rinv_def)

lemma emap_entry:
  assumes "wf_map s m" "emap m c = Some l"
  shows "\<exists>e\<in>set (entries m). ee_child e = c \<and> ee_label e = l"
  using assms emap_Some[of m c l] by (auto simp: wf_map_def)

context sylvan_substitution
begin

text \<open>One edge: the disjunction of the accumulator with the conjunction of label and child.\<close>

lemma join_edge:
  assumes "bdd_ok M acc" "bdd_ok M l" "bdd_ok M b"
    and "acc1 = (if sylvan_and S l b \<noteq> sylvan_false S then sylvan_or S acc (sylvan_and S l b) else acc)"
  shows "bdd_ok M acc1" "bdd_sem M acc1 v \<longleftrightarrow> bdd_sem M acc v \<or> (bdd_sem M l v \<and> bdd_sem M b v)"
proof -
  have ok: "bdd_ok M (sylvan_and S l b)" using assms by simp
  show "bdd_ok M acc1" using ok assms by simp
  show "bdd_sem M acc1 v \<longleftrightarrow> bdd_sem M acc v \<or> (bdd_sem M l v \<and> bdd_sem M b v)"
    using assms eq_false_iff[OF ok] by auto
qed

lemma to_mtbdd_edges_spec:
  assumes lay: "first_widest s0 nvars" "1 \<le> f" "f \<le> field_count s0"
    and es: "\<And>e. e \<in> set es \<Longrightarrow> bdd_ok M (ee_label e) \<and> ee_label e \<noteq> sylvan_false S \<and> ee_child e \<noteq> NULL \<and> f < fieldof s0 (ee_child e)"
    and rec: "\<And>e c s. e \<in> set es \<Longrightarrow> placid s0 s \<Longrightarrow> room s \<Longrightarrow> cache_good M s0 c \<Longrightarrow> to_post M s0 (ee_child e) c s (rec (ee_child e) c s)"
    and st: "placid s0 s" "room s" "cache_good M s0 c" "bdd_ok M acc"
  shows "\<exists>err acc' c' s'. to_mtbdd_edges S X rec f es acc c s = Some (err, acc', c', s') \<and> placid s s' \<and> cache_good M s0 c'
     \<and> adds_from s0 (Suc f) c c' \<and> (if err = MTPNDD_SUCCESS
         then bdd_ok M acc' \<and> (\<forall>v. bdd_sem M acc' v \<longleftrightarrow> bdd_sem M acc v
           \<or> (\<exists>e\<in>set es. bdd_sem M (ee_label e) (expand s0 v f) \<and> holds M s0 (expand s0 v) (ee_child e)))
         else failed s')"
  using es rec st
proof (induction es arbitrary: acc c s)
  case Nil
  then show ?case by (simp add: placid_base(1))
next
  case (Cons e es)
  have e: "bdd_ok M (ee_label e)" "ee_label e \<noteq> sylvan_false S" "ee_child e \<noteq> NULL" "f < fieldof s0 (ee_child e)"
    using Cons.prems(1)[of e] by simp_all
  obtain err b c1 s1 where r: "rec (ee_child e) c s = Some (err, b, c1, s1)" "placid s s1" "cache_good M s0 c1"
    "adds_from s0 (fieldof s0 (ee_child e)) c c1" "if err = MTPNDD_SUCCESS then den M s0 b (ee_child e) else failed s1"
    using Cons.prems(2)[of e s c] Cons.prems(3-5) by (auto simp: to_post_def)
  have ad: "adds_from s0 (Suc f) c c1" by (rule adds_from_mono[OF r(4)]) (use e(4) in simp)
  show ?case
  proof (cases "err = MTPNDD_SUCCESS")
    case False
    then show ?thesis using r e ad by (simp add: mtpndd_edge_label_load_def)
  next
    case True
    have s01: "placid s0 s1" by (rule placid_trans[OF Cons.prems(3) r(2)])
    have lay1: "first_widest s1 nvars" "f \<le> field_count s1" "expand s1 = expand s0" using s01 lay by simp_all
    obtain l where l: "mtpndd_replace_shared_to_expanded S X (ee_label e) f s1 = Some (l, sylvan_ref l s1)" "bdd_ok M l"
      "\<And>v. bdd_sem M l v \<longleftrightarrow> bdd_sem M (ee_label e) (expand s0 v f)"
      using replace_spec[OF lay1(1) lay(2) lay1(2) e(1)] lay1(3) by auto
    have b: "bdd_ok M b" "\<And>v. bdd_sem M b v \<longleftrightarrow> holds M s0 (expand s0 v) (ee_child e)" using r(5) True by (simp_all add: den_def)
    define acc1 where "acc1 = (if sylvan_and S l b \<noteq> sylvan_false S then sylvan_or S acc (sylvan_and S l b) else acc)"
    have acc1: "bdd_ok M acc1" "bdd_sem M acc1 v \<longleftrightarrow> bdd_sem M acc v
        \<or> (bdd_sem M (ee_label e) (expand s0 v f) \<and> holds M s0 (expand s0 v) (ee_child e))" for v
      using join_edge[OF Cons.prems(6) l(2) b(1) acc1_def] l(3) b(2) by simp_all
    define s2 where "s2 = (let s = sylvan_deref l (sylvan_ref (sylvan_and S l b) (sylvan_ref l s1)) in
        if sylvan_and S l b \<noteq> sylvan_false S
        then sylvan_deref (sylvan_and S l b) (sylvan_deref acc (sylvan_ref (sylvan_or S acc (sylvan_and S l b)) s))
        else sylvan_deref (sylvan_and S l b) s)"
    have s2: "placid s s2" using r(2) by (auto simp: s2_def Let_def intro!: placid_step)
    have eq: "to_mtbdd_edges S X rec f (e # es) acc c s = to_mtbdd_edges S X rec f es acc1 c1 s2"
      using r(1) l(1) True e(2,3) by (simp add: mtpndd_edge_label_load_def acc1_def s2_def Let_def)
    have "\<exists>err acc' c' s'. to_mtbdd_edges S X rec f es acc1 c1 s2 = Some (err, acc', c', s') \<and> placid s2 s' \<and> cache_good M s0 c'
     \<and> adds_from s0 (Suc f) c1 c' \<and> (if err = MTPNDD_SUCCESS
         then bdd_ok M acc' \<and> (\<forall>v. bdd_sem M acc' v \<longleftrightarrow> bdd_sem M acc1 v
           \<or> (\<exists>e\<in>set es. bdd_sem M (ee_label e) (expand s0 v f) \<and> holds M s0 (expand s0 v) (ee_child e)))
         else failed s')"
      by (rule Cons.IH) (use Cons.prems(1,2) placid_trans[OF Cons.prems(3) s2] placid_room[OF s2 Cons.prems(4)] r(3) acc1(1) in auto)
    then show ?thesis unfolding eq acc1(2) using placid_trans[OF s2] adds_from_trans[OF ad] by fastforce
  qed
qed

lemma to_mtbdd_store:
  assumes "cache_good M s0 c" "room s" "cache_map c p = None" "p \<noteq> NULL" "den M s0 acc p"
  shows "to_post M s0 p c s (do {
      (err, c, s) \<leftarrow> mtpndd_to_mtbdd_cache_insert c p acc s;
      if err \<noteq> MTPNDD_SUCCESS then Some (err, sylvan_false S, c, sylvan_deref acc s) else Some (MTPNDD_SUCCESS, acc, c, s)
    })"
proof -
  have wf: "cache_wf node_key_hash c" using assms(1) by (simp add: cache_good_def)
  obtain err c' s' where r: "mtpndd_to_mtbdd_cache_insert c p acc s = Some (err, c', s')" "placid s s'" "cache_wf node_key_hash c'"
    "if err = MTPNDD_SUCCESS then cache_map c' = (cache_map c)(p \<mapsto> acc)
     else err = MTPNDD_ERROR_OUT_OF_MEMORY \<and> cache_map c' = cache_map c \<and> failed s'"
    using to_memo.ins_law[OF wf assms(2,4,3)] by blast
  have good: "cache_good M s0 c'" using assms(1,5) r(3,4) by (auto simp: cache_good_def split: if_splits)
  have ad: "adds_from s0 (fieldof s0 p) c c'" using r(4) by (auto simp: adds_from_def split: if_splits)
  show ?thesis
  proof (cases "err = MTPNDD_SUCCESS")
    case False
    then show ?thesis unfolding to_post_def using r good ad by (auto intro!: placid_step intro: placid_failed[OF placid_base(4)])
  qed (use r good ad assms(5) in \<open>simp add: to_post_def\<close>)
qed

lemma to_mtbdd_node:
  assumes inv: "sinv S M s0" "nodes s0 NULL = None" and lay: "first_widest s0 nvars"
    and p: "content s0 p = Some (f, NEdges m)" "boolean s0 p"
    and IH: "\<And>q c s. boolean s0 q \<Longrightarrow> Suc f \<le> fieldof s0 q \<Longrightarrow> placid s0 s \<Longrightarrow> room s \<Longrightarrow> cache_good M s0 c
        \<Longrightarrow> to_post M s0 q c s (mtpndd_to_mtbdd_rec k S X q c s)"
    and st: "placid s0 s" "room s" "cache_good M s0 c"
  shows "to_post M s0 p c s (mtpndd_to_mtbdd_rec (Suc k) S X p c s)"
proof -
  note n = sinv_node[OF inv(1) p(1)] and np = internal_not_sentinel[OF inv(1) p(1)] and ef = edge_facts[OF inv p(1)]
  have fp: "fieldof s0 p = f" by (rule fieldof_content[OF p(1)])
  have es: "bdd_ok M (ee_label e) \<and> ee_label e \<noteq> sylvan_false S \<and> ee_child e \<noteq> NULL \<and> f < fieldof s0 (ee_child e)"
    if "e \<in> set (entries m)" for e using ef[OF that] by simp
  have rec: "to_post M s0 (ee_child e) c s (mtpndd_to_mtbdd_rec k S X (ee_child e) c s)"
    if "e \<in> set (entries m)" "placid s0 s" "room s" "cache_good M s0 c" for e c s
    by (rule IH) (use that ef[OF that(1)] p(2) in simp_all)
  have wf: "cache_wf node_key_hash c" using st(3) by (simp add: cache_good_def)
  obtain s1 where l: "mtpndd_to_mtbdd_cache_lookup c p s = Some (cache_map c p, s1)" "placid s s1" using to_memo.look_law[OF wf] by blast
  show ?thesis
  proof (cases "cache_map c p")
    case (Some b)
    then have "den M s0 b p" using st(3) by (simp add: cache_good_def)
    then show ?thesis using l Some np st(3) by (simp add: to_post_def mtpndd_is_true_def mtpndd_is_false_def)
  next
    case None
    define s2 where "s2 = sylvan_ref (sylvan_false S) s1"
    have s2: "placid s s2" using l(2) by (auto simp: s2_def)
    have s02: "placid s0 s2" by (rule placid_trans[OF st(1) s2])
    have rd: "node_edges s2 p = Some m" "node_field s2 p = Some f" "for_each_entry s2 m = Some (entries m)" "buckets m \<noteq> []"
      using s02 p(1) n(6) wf_map_bounds[OF n(6)] by (auto simp: node_edges_content node_field_content wf_map_def)
    obtain err acc c1 s3 where r: "to_mtbdd_edges S X (mtpndd_to_mtbdd_rec k S X) f (entries m) (sylvan_false S) c s2 = Some (err, acc, c1, s3)"
      "placid s2 s3" "cache_good M s0 c1" "adds_from s0 (Suc f) c c1" "if err = MTPNDD_SUCCESS
         then bdd_ok M acc \<and> (\<forall>v. bdd_sem M acc v \<longleftrightarrow> bdd_sem M (sylvan_false S) v
           \<or> (\<exists>e\<in>set (entries m). bdd_sem M (ee_label e) (expand s0 v f) \<and> holds M s0 (expand s0 v) (ee_child e)))
         else failed s3"
      using to_mtbdd_edges_spec[where rec = "mtpndd_to_mtbdd_rec k S X", OF lay n(1,2) es rec s02 placid_room[OF s2 st(2)] st(3) ok_false]
      by blast
    have s3: "placid s s3" by (rule placid_trans[OF s2 r(2)])
    have eq: "mtpndd_to_mtbdd_rec (Suc k) S X p c s =
       (if err \<noteq> MTPNDD_SUCCESS then Some (err, sylvan_false S, c1, sylvan_deref acc s3)
        else do {
          (err, c, s) \<leftarrow> mtpndd_to_mtbdd_cache_insert c1 p acc s3;
          if err \<noteq> MTPNDD_SUCCESS then Some (err, sylvan_false S, c, sylvan_deref acc s) else Some (MTPNDD_SUCCESS, acc, c, s)
        })"
      using l(1) None np rd r(1) by (simp add: mtpndd_is_true_def mtpndd_is_false_def s2_def[symmetric])
    have ad: "adds_from s0 f c c1" by (rule adds_from_mono[OF r(4)]) simp
    show ?thesis
    proof (cases "err = MTPNDD_SUCCESS")
      case False
      then show ?thesis unfolding eq to_post_def using r(3,5) s3 ad fp by (auto intro!: placid_step intro: placid_failed[OF placid_base(4)])
    next
      case True
      then have acc: "bdd_ok M acc" "\<And>v. bdd_sem M acc v \<longleftrightarrow>
          (\<exists>e\<in>set (entries m). bdd_sem M (ee_label e) (expand s0 v f) \<and> holds M s0 (expand s0 v) (ee_child e))"
        using r(5) by simp_all
      have hn: "holds M s0 (expand s0 v) p \<longleftrightarrow> bdd_sem M acc v" for v
        unfolding acc(2) holds_node[OF inv(1) p(1)] using ef(6) emap_entry[OF n(6)] by metis
      have "cache_map c1 p = None" using r(4) None fp unfolding adds_from_def by (metis Suc_n_not_le_n)
      moreover have "p \<noteq> NULL" using inv(2) p(1) by (metis content_def map_option_is_None option.distinct(1))
      ultimately have "to_post M s0 p c1 s3 (mtpndd_to_mtbdd_rec (Suc k) S X p c s)"
        unfolding eq using to_mtbdd_store[OF r(3) placid_room[OF s3 st(2)]] acc(1) hn True by (simp add: den_def)
      then show ?thesis by (rule to_post_seq[OF s3]) (use ad fp in simp)
    qed
  qed
qed

lemma to_mtbdd_rec_spec:
  assumes inv: "sinv S M s0" "nodes s0 NULL = None" and lay: "first_widest s0 nvars"
    and "boolean s0 p" "field_count s0 + 2 \<le> k + fieldof s0 p" "0 < k" "placid s0 s" "room s" "cache_good M s0 c"
  shows "to_post M s0 p c s (mtpndd_to_mtbdd_rec k S X p c s)"
  using assms(4-)
proof (induction k arbitrary: p c s)
  case (Suc k)
  consider "p = MTPNDD_FALSE" | "p = MTPNDD_TRUE" | f m where "content s0 p = Some (f, NEdges m)"
    using Suc.prems(1) by (cases rule: boolean.cases) auto
  then show ?case
  proof cases
    case 1
    then show ?thesis using Suc.prems(6) holds_false[OF inv(1)]
      by (simp add: to_post_def den_def mtpndd_is_true_def mtpndd_is_false_def MTPNDD_TRUE_def MTPNDD_FALSE_def placid_base(1))
  next
    case 2
    then show ?thesis using Suc.prems(6) by (simp add: to_post_def den_def mtpndd_is_true_def placid_base(1))
  next
    case (3 f m)
    have f: "fieldof s0 p = f" "f \<le> field_count s0" using fieldof_content[OF 3] sinv_node(2)[OF inv(1) 3] by simp_all
    have ih: "to_post M s0 q c s (mtpndd_to_mtbdd_rec k S X q c s)"
      if "boolean s0 q" "Suc f \<le> fieldof s0 q" "placid s0 s" "room s" "cache_good M s0 c" for q c s
      by (rule Suc.IH) (use that Suc.prems(2) f in simp_all)
    show ?thesis by (rule to_mtbdd_node[OF inv lay 3 Suc.prems(1) ih Suc.prems(4-6)])
  qed
next
  case 0
  from 0(3) show ?case by (simp only: less_irrefl)
qed

lemma destroy_placid: "mtpndd_to_mtbdd_cache_destroy c s = (c', s') \<Longrightarrow> placid s s'"
proof -
  have "placid s (fold (\<lambda>(k, v). sylvan_deref v) es s)" for es :: "(ptr \<times> bdd) list"
    by (induction es arbitrary: s) (auto simp: placid_base(1) intro: placid_trans[OF placid_base(4)])
  then show "mtpndd_to_mtbdd_cache_destroy c s = (c', s') \<Longrightarrow> placid s s'"
    by (auto simp: mtpndd_to_mtbdd_cache_destroy_def placid_base(1) split: if_splits)
qed

lemma to_mtbdd_spec:
  assumes "hinv S M E s" "first_widest s nvars" "mtpndd_is_initialized s" "boolean s p"
  shows "\<exists>err r s'. mtpndd_to_mtbdd S X p s = Some (err, r, s') \<and> placid s s'
     \<and> (if err = MTPNDD_SUCCESS then \<exists>b. r = Some b \<and> den M s b p else r = None \<and> failed s')"
proof -
  have inv: "sinv S M s" "nodes s NULL = None" and rm: "room s"
    using hinv_walkable[OF assms(1)] hinv_room[OF assms(1)] by (simp_all add: walkable_def)
  have p: "p \<noteq> NULL" using holdable_known[OF assms(1) boolean_holdable[OF assms(4)]] by simp
  obtain c s1 where i: "mtpndd_to_mtbdd_cache_init 64 s = Some (c, s1)" "placid s s1"
    "case c of None \<Rightarrow> failed s1 | Some c \<Rightarrow> cache_wf node_key_hash c \<and> cache_map c = Map.empty"
    using to_memo.init_law[OF rm, of 64] by auto
  show ?thesis
  proof (cases c)
    case None
    then show ?thesis using i assms(3) p by (simp add: mtpndd_to_mtbdd_def)
  next
    case (Some c0)
    have good: "cache_good M s c0" using i(3) Some by (simp add: cache_good_def)
    obtain err b c' s2 where r: "mtpndd_to_mtbdd_rec (op_fuel s1) S X p c0 s1 = Some (err, b, c', s2)" "placid s1 s2"
      "if err = MTPNDD_SUCCESS then den M s b p else failed s2"
      using to_mtbdd_rec_spec[OF inv assms(2,4) _ _ i(2) placid_room[OF i(2) rm] good, of "op_fuel s1"] i(2)
      by (auto simp: to_post_def op_fuel_def)
    have s2: "placid s s2" by (rule placid_trans[OF i(2) r(2)])
    define t where "t = (if err = MTPNDD_SUCCESS then sylvan_ref b s2 else s2)"
    obtain c2 s3 where d: "mtpndd_to_mtbdd_cache_destroy c' t = (c2, s3)" by fastforce
    have t: "placid s t" using s2 by (auto simp: t_def)
    have s3: "placid s s3" by (rule placid_trans[OF t destroy_placid[OF d]])
    show ?thesis
    proof (cases "err = MTPNDD_SUCCESS")
      case True
      then show ?thesis using i(1) Some r assms(3) p d s3 by (auto simp: mtpndd_to_mtbdd_def t_def intro!: placid_step)
    next
      case False
      then show ?thesis using i(1) Some r assms(3) p d s3 placid_failed[OF destroy_placid[OF d]] by (auto simp: mtpndd_to_mtbdd_def t_def)
    qed
  qed
qed

end

end
