(* ===== verification/Convert_Count.thy ===== *)
theory Convert_Count
  imports Convert_Correct
begin

text \<open>
  Counting on the BDD and counting on the diagram give the same number: the assignments of the expanded
  variables correspond one to one to the assignments of the fields.  The second part instantiates the
  substitution of Sylvan with truth tables.
\<close>

section \<open>Only the variables of the fields matter\<close>

lemma holds_valid_cong:
  assumes inv: "sinv S M s" and "holds M s env p" "valid_diagram M s p"
    and eq: "\<And>f i. f \<in> {1..field_count s} \<Longrightarrow> i \<in> field_vars s f \<Longrightarrow> env' f i = env f i"
    and fin: "\<And>f. f \<in> {1..field_count s} \<Longrightarrow> finite {i. env f i \<noteq> env' f i}"
  shows "holds M s env' p"
  using assms(2,3)
proof (induction rule: holds.induct)
  case (holds_edge p f m c l)
  have f: "f \<in> {1..field_count s}" using sinv_node(1,2)[OF inv holds_edge(1)] by simp
  have "valid_node M s p" using holds_edge.prems by (simp add: valid_diagram_def)
  then have d: "depends M l \<subseteq> field_vars s f" using holds_edge(1) ranI[of "emap m" c, OF holds_edge(2)] by (simp add: valid_node_def)
  have "bdd_sem M l (env f) = bdd_sem M l (env' f)"
    by (rule depends_agree[OF fin[OF f]]) (use eq[OF f] d in auto)
  moreover have "child s p c" using holds_edge(1,2) by (auto simp: child_def)
  then have "valid_diagram M s c" using holds_edge.prems reach_child unfolding valid_diagram_def by blast
  ultimately show ?case using holds_edge by (metis holds.holds_edge)
qed simp

lemma holds_valid_iff:
  assumes "sinv S M s" "valid_diagram M s p"
    and "\<And>f i. f \<in> {1..field_count s} \<Longrightarrow> i \<in> field_vars s f \<Longrightarrow> env' f i = env f i"
    and "\<And>f. f \<in> {1..field_count s} \<Longrightarrow> finite {i. env f i \<noteq> env' f i}"
  shows "holds M s env' p \<longleftrightarrow> holds M s env p"
proof
  have fin: "finite {i. env' f i \<noteq> env f i}" if "f \<in> {1..field_count s}" for f
    using assms(4)[OF that] by (simp only: eq_commute)
  show "holds M s env p" if "holds M s env' p" by (rule holds_valid_cong[OF assms(1) that assms(2) assms(3)[symmetric] fin])
  show "holds M s env' p" if "holds M s env p" by (rule holds_valid_cong[OF assms(1) that assms(2-4)])
qed

section \<open>Assignments of the expanded variables\<close>

definition fields_of :: "mstate \<Rightarrow> nat set \<Rightarrow> nat \<Rightarrow> nat set" where
  "fields_of s A = (\<lambda>f\<in>{1..field_count s}. {i \<in> field_vars s f. estart s f + (i - (max_bit_width s - width s f)) \<in> A})"

lemma estart_cover:
  assumes "j < estart s (Suc n)"
  shows "\<exists>f\<in>{1..n}. estart s f \<le> j \<and> j < estart s f + width s f"
  using assms
proof (induction n)
  case (Suc n)
  show ?case
  proof (cases "j < estart s (Suc n)")
    case True
    then obtain f where "f \<in> {1..n}" "estart s f \<le> j \<and> j < estart s f + width s f" using Suc.IH by blast
    then show ?thesis by (intro bexI[of _ f]) auto
  next
    case False
    then show ?thesis using Suc.prems estart_Suc[of "Suc n" s] by (intro bexI[of _ "Suc n"]) simp_all
  qed
qed simp

lemma total_estart: "total_width s = estart s (Suc (field_count s))"
  by (simp add: estart_def total_width_def atLeastLessThanSuc_atLeastAtMost)

lemma fields_of_sub:
  assumes "layout_ok s" "fields_of s A = fields_of s B" "A \<subseteq> {..<total_width s}"
  shows "A \<subseteq> B"
proof
  fix j assume j: "j \<in> A"
  then have "j < estart s (Suc (field_count s))" using assms(3) total_estart[of s] by auto
  then obtain f where f: "f \<in> {1..field_count s}" "estart s f \<le> j" "j < estart s f + width s f"
    using estart_cover by blast
  note l = layout_vars[OF assms(1), of f]
  define i where "i = (max_bit_width s - width s f) + (j - estart s f)"
  have i: "i \<in> field_vars s f" "estart s f + (i - (max_bit_width s - width s f)) = j" using f l(2,4) by (auto simp: i_def)
  then have "i \<in> fields_of s A f" using f(1) j by (simp add: fields_of_def)
  then have "i \<in> fields_of s B f" using assms(2) by simp
  then show "j \<in> B" using f(1) i(2) by (simp add: fields_of_def)
qed

lemma fields_of_bij:
  assumes "layout_ok s"
  shows "bij_betw (fields_of s) (Pow {..<total_width s}) (assigns s 1)"
proof -
  have inj: "inj_on (fields_of s) (Pow {..<total_width s})"
    using fields_of_sub[OF assms] by (intro inj_onI equalityI) (simp_all add: fields_of_sub[OF assms] Pow_def)
  have sub: "fields_of s ` Pow {..<total_width s} \<subseteq> assigns s 1" by (auto simp: fields_of_def assigns_def)
  have "card (assigns s 1) = (\<Prod>g\<in>{1..field_count s}. 2 ^ width s g)"
    unfolding card_assigns using layout_vars(3)[OF assms] by (intro prod.cong) auto
  also have "\<dots> = card (Pow {..<total_width s})" by (simp add: card_Pow total_width_def power_sum)
  finally have "card (fields_of s ` Pow {..<total_width s}) = card (assigns s 1)" using card_image[OF inj] by simp
  then show ?thesis using inj card_subset_eq[OF finite_assigns sub] by (simp add: bij_betw_def)
qed

lemma holds_expand_fields:
  assumes "sinv S M s" "layout_ok s" "valid_diagram M s p" "A \<subseteq> {..<total_width s}"
  shows "holds M s (expand s (\<lambda>i. i \<in> A)) p \<longleftrightarrow> holds M s (env_of (fields_of s A)) p"
proof -
  have A: "finite A" by (rule finite_subset[OF assms(4)]) simp
  have eq: "expand s (\<lambda>i. i \<in> A) f i = env_of (fields_of s A) f i" if "f \<in> {1..field_count s}" "i \<in> field_vars s f" for f i
    using that by (simp add: expand_def env_of_def fields_of_def)
  have "{i. expand s (\<lambda>i. i \<in> A) f i \<noteq> env_of (fields_of s A) f i} \<subseteq> A" if "f \<in> {1..field_count s}" for f
    using that eq[OF that] by (auto simp: expand_def env_of_def fields_of_def split: if_splits)
  then have fin: "finite {i. expand s (\<lambda>i. i \<in> A) f i \<noteq> env_of (fields_of s A) f i}" if "f \<in> {1..field_count s}" for f
    using finite_subset[OF _ A] that by blast
  show ?thesis by (rule holds_valid_iff[OF assms(1,3)]) (use eq fin in \<open>simp_all add: eq_commute[of "env_of _ _ _"]\<close>)
qed

lemma card_expanded:
  assumes "sinv S M s" "layout_ok s" "valid_diagram M s p" "\<And>v. bdd_sem M b v \<longleftrightarrow> holds M s (expand s v) p"
  shows "card (label_sats M {..<total_width s} b) = card (sat_assigns M s 1 p)"
proof -
  let ?B = "{..<total_width s}"
  note bij = fields_of_bij[OF assms(2)]
  have "label_sats M ?B b = {A \<in> Pow ?B. holds M s (env_of (fields_of s A)) p}"
    using holds_expand_fields[OF assms(1-3)] assms(4) by (auto simp: label_sats_def)
  then have "fields_of s ` label_sats M ?B b = sat_assigns M s 1 p"
    using bij_betw_imp_surj_on[OF bij] by (auto simp: sat_assigns_def)
  moreover have "inj_on (fields_of s) (label_sats M ?B b)"
    by (rule inj_on_subset[OF bij_betw_imp_inj_on[OF bij]]) (auto simp: label_sats_def)
  ultimately show ?thesis using card_image by metis
qed

lemma expanded_depends:
  assumes "sinv S M s" "layout_ok s" "valid_diagram M s p" "\<And>v. bdd_sem M b v \<longleftrightarrow> holds M s (expand s v) p"
  shows "depends M b \<subseteq> {..<total_width s}"
proof
  fix j assume "j \<in> depends M b"
  then obtain v where v: "bdd_sem M b (v(j := True)) \<noteq> bdd_sem M b (v(j := False))" by (auto simp: depends_def)
  show "j \<in> {..<total_width s}"
  proof (rule ccontr)
    assume j: "j \<notin> {..<total_width s}"
    have lt: "estart s f + (i - (max_bit_width s - width s f)) < total_width s" if "f \<in> {1..field_count s}" "i \<in> field_vars s f" for f i
      using that layout_vars(2,4)[OF assms(2), of f] estart_end[of f s] by auto
    have eq: "expand s (v(j := True)) f i = expand s (v(j := False)) f i" if "f \<in> {1..field_count s}" "i \<in> field_vars s f" for f i
      using lt[OF that] that j by (simp add: expand_def)
    have "finite {i. expand s (v(j := False)) f i \<noteq> expand s (v(j := True)) f i}" for f
      by (rule finite_subset[of _ "insert j (field_vars s f)"]) (auto simp only: expand_def fun_upd_apply finite_insert finite_field_vars split: if_splits)
    then have "holds M s (expand s (v(j := True))) p \<longleftrightarrow> holds M s (expand s (v(j := False))) p"
      by (intro holds_valid_iff[OF assms(1,3) eq])
    then show False using v assms(4) by simp
  qed
qed

lemma total_bdd_vars:
  assumes "layout_ok s" "total_width s < 2 ^ 64"
  shows "mtpndd_total_bdd_vars s = Some (total_width s)"
proof -
  have "foldl (\<lambda>total i. do { t \<leftarrow> total; bits \<leftarrow> field_bits i s; Some ((t + bits) mod 2 ^ 64) }) (Some 0) [1..<Suc n]
      = Some (estart s (Suc n))" if "n \<le> field_count s" for n
    using that
  proof (induction n)
    case (Suc n)
    have "estart s (Suc n) + width s (Suc n) \<le> total_width s" by (rule estart_end) (use Suc.prems in simp_all)
    then show ?case using Suc layout_vars(1)[OF assms(1), of "Suc n"] estart_Suc[of "Suc n" s] assms(2) by simp
  qed simp
  then show ?thesis using total_estart[of s] by (simp add: mtpndd_total_bdd_vars_def del: upt_Suc)
qed

lemma satcount_mtbdd_spec:
  assumes sub: "sylvan_substitution S M nvars X map_ok map_sem" and cnt: "sylvan_counting S M D rep Q"
    and "hinv S M E s" "first_widest s nvars" "total_width s < 53" "mtpndd_is_initialized s" "boolean s p" "valid_diagram M s p"
  shows "\<exists>x s'. mtpndd_satcount_mtbdd S X Q D p s = Some (x, s') \<and> placid s s'
     \<and> (\<not> failed s' \<longrightarrow> rep x (card (sat_assigns M s 1 p)))"
proof -
  obtain err r s1 where r: "mtpndd_to_mtbdd S X p s = Some (err, r, s1)" "placid s s1"
    "if err = MTPNDD_SUCCESS then \<exists>b. r = Some b \<and> den M s b p else r = None \<and> failed s1"
    using sylvan_substitution.to_mtbdd_spec[OF sub assms(3,4,6,7)] by blast
  have p: "p \<noteq> NULL" using holdable_known[OF assms(3) boolean_holdable[OF assms(7)]] by simp
  show ?thesis
  proof (cases "err = MTPNDD_SUCCESS")
    case False
    then show ?thesis using r assms(6) p by (simp add: mtpndd_satcount_mtbdd_def)
  next
    case True
    then obtain b where b: "r = Some b" "bdd_ok M b" "\<And>v. bdd_sem M b v \<longleftrightarrow> holds M s (expand s v) p"
      using r(3) by (auto simp: den_def)
    have inv: "sinv S M s" and lay: "layout_ok s" using assms(3,4) by (simp_all add: hinv_def first_widest_def)
    have "rep (mtbdd_satcount Q b (total_width s)) (card (sat_assigns M s 1 p))"
      using sylvan_counting.satcount_label[OF cnt b(2) expanded_depends[OF inv lay assms(8) b(3)] assms(5)]
        card_expanded[OF inv lay assms(8) b(3)] by simp
    moreover have "mtpndd_total_bdd_vars s1 = Some (total_width s)"
      using total_bdd_vars[OF lay] assms(5) r(2) by (simp add: mtpndd_total_bdd_vars_def)
    ultimately show ?thesis using r(1,2) True b(1) assms(6) p placid_step(3)[OF r(2)] by (simp add: mtpndd_satcount_mtbdd_def)
  qed
qed

section \<open>Variables outside the fields\<close>

lemma find_field_outside:
  assumes "layout_ok s" "total_width s < 2 ^ 32" "total_width s \<le> var" "1 \<le> a" "a \<le> Suc (field_count s)"
  shows "find_field_loop [a..<Suc (field_count s)] var (estart s a) s = Some None"
  using assms(4,5)
proof (induction "Suc (field_count s) - a" arbitrary: a)
  case (Suc d)
  have a: "1 \<le> a" "a \<le> field_count s" using Suc.hyps(2) Suc.prems by simp_all
  have w: "estart s (Suc a) \<le> total_width s" "(estart s a + width s a) mod 2 ^ 32 = estart s (Suc a)"
    using estart_end[OF a] estart_Suc[OF a(1), of s] assms(2) by simp_all
  have "find_field_loop [Suc a..<Suc (field_count s)] var (estart s (Suc a)) s = Some None"
    by (rule Suc.hyps(1)) (use Suc.hyps(2) a in simp_all)
  then show ?case using layout_vars(1)[OF assms(1) a] a(2) w assms(3) by (simp add: upt_conv_Cons del: upt_Suc)
qed simp

lemma from_mtbdd_outside:
  assumes "room s" "layout_ok s" "total_width s < 2 ^ 32" "mtpndd_is_initialized s"
    and "b \<noteq> sylvan_false S" "b \<noteq> sylvan_true S" "total_width s \<le> sylvan_var Q b"
  shows "\<exists>err s'. mtbdd_to_mtpndd S Q G b s = Some (err, None, s') \<and> placid s s'
     \<and> (\<not> failed s' \<longrightarrow> err = MTPNDD_ERROR_INVALID_FIELD \<and> ei_code (mtpndd_get_last_error s') = MTPNDD_ERROR_INVALID_FIELD)"
proof -
  obtain c s1 where i: "mtbdd_to_mtpndd_cache_init 64 s = Some (c, s1)" "placid s s1"
    "case c of None \<Rightarrow> failed s1 | Some c \<Rightarrow> cache_wf mtpndd_hash_u64 c \<and> cache_map c = Map.empty"
    using from_memo.init_law[OF assms(1), of 64] by auto
  show ?thesis
  proof (cases c)
    case None
    then show ?thesis using i assms(4) by (simp add: mtbdd_to_mtpndd_def)
  next
    case (Some c0)
    then have "mtbdd_to_mtpndd_cache_lookup c0 b = Some None" using i(3) by (simp add: mtbdd_to_mtpndd_cache_lookup_def cache_lookup_map)
    moreover have "mtpndd_find_field_by_expanded_var (sylvan_var Q b) s1 = Some None"
    proof -
      have "layout_ok s1" using assms(2) i(2) by (auto simp: layout_ok_def placid_def width_def)
      then show ?thesis using find_field_outside[of s1 "sylvan_var Q b" 1] assms(3,7) i(2)
        by (simp add: mtpndd_find_field_by_expanded_var_def del: upt_Suc)
    qed
    ultimately have "mtbdd_to_mtpndd S Q G b s = Some (MTPNDD_ERROR_INVALID_FIELD, None,
        mtpndd_set_error MTPNDD_ERROR_INVALID_FIELD ''mtbdd_to_mtpndd_rec'' 2484 s1)"
      using i(1) Some assms(4-6) by (simp add: mtbdd_to_mtpndd_def op_fuel_def)
    moreover have "ei_code (mtpndd_get_last_error (mtpndd_set_error MTPNDD_ERROR_INVALID_FIELD fn line s1)) = MTPNDD_ERROR_INVALID_FIELD"
      for fn line by (simp add: mtpndd_get_last_error_def mtpndd_set_error_def)
    ultimately show ?thesis using placid_step(1)[OF i(2)] by simp
  qed
qed

section \<open>Substitution on truth tables\<close>

definition tt_subst :: "(nat \<times> bdd) list \<Rightarrow> nat \<Rightarrow> assignment" where
  "tt_subst m n i = (case map_of m i of None \<Rightarrow> bit n i | Some b \<Rightarrow> bit b n)"

definition tt_maps :: "(nat \<times> bdd) list sylvan_maps" where
  "tt_maps =
     \<lparr>sylvan_map_empty = [], sylvan_map_add = (\<lambda>m k b. (k, b) # m),
      sylvan_compose = (\<lambda>w m. horner_sum of_bool 2 (map (\<lambda>n. bit w (tt_index (tt_subst m n))) [0..<64]))\<rparr>"

interpretation ttx: sylvan_substitution tt_sylvan tt_model 6 tt_maps "\<lambda>_. True" map_of
proof
  fix w m v
  have "tt_index (tt_subst m (tt_index v)) = tt_index (\<lambda>i. case map_of m i of None \<Rightarrow> v i | Some b \<Rightarrow> bdd_sem tt_model b v)"
    by (rule tt_index_cong) (simp add: tt_subst_def tt_index_bit tt_model_def split: option.splits)
  moreover have "bdd_sem tt_model (sylvan_compose tt_maps w m) v \<longleftrightarrow> bdd_sem tt_model w (bit (tt_index (tt_subst m (tt_index v))))"
    using tt_index_less[of v] tt_index_surj[OF tt_index_less] by (simp add: tt_model_def tt_maps_def bit_horner_sum_bit_iff)
  ultimately show "bdd_sem tt_model (sylvan_compose tt_maps w m) v
      \<longleftrightarrow> bdd_sem tt_model w (\<lambda>i. case map_of m i of None \<Rightarrow> v i | Some b \<Rightarrow> bdd_sem tt_model b v)"
    using tt_index_surj[OF tt_index_less] by (simp add: tt_model_def)
qed (simp_all add: tt_maps_def tt_ok)

end
