(* ===== verification/Dot_Output.thy ===== *)
theory Dot_Output
  imports Convert_Correct
begin

text \<open>
  The DOT output of \<open>mtpndd_node.c\<close>.  The output is the list of the strings the calls of \<open>fprintf\<close> write.
  Nodes get numbers in the order in which they are met.  The child of an edge gets its number before
  it is visited, and the visit of a node that has a number does nothing: so the output has the root
  and its edges only.  A leaf as root is read through the wrong member of a union.
\<close>

section \<open>Definitions\<close>

text \<open>The conversions \<open>%zu\<close>, \<open>%u\<close>, \<open>%d\<close> and \<open>%lx\<close> of \<open>fprintf\<close> on natural numbers.\<close>

definition digit_char :: "nat \<Rightarrow> char" where
  "digit_char d = ''0123456789abcdef'' ! d"

fun print_base :: "nat \<Rightarrow> nat \<Rightarrow> string" where
  "print_base b n = (if n < b \<or> b < 2 then [digit_char n] else print_base b (n div b) @ [digit_char (n mod b)])"

declare print_base.simps [simp del]

definition dec :: "nat \<Rightarrow> string" where
  "dec n = print_base 10 n"

record dot_ctx =
  dc_visited :: "(ptr \<times> nat) list"
  dc_next_id :: nat
  dc_root :: ptr
  dc_error :: bool

definition mtpndd_dot_ctx_get_id :: "dot_ctx \<Rightarrow> ptr \<Rightarrow> mstate \<Rightarrow> nat \<times> bool \<times> dot_ctx \<times> mstate" where
  "mtpndd_dot_ctx_get_id ctx node s =
     (if node = NULL then (0, False, ctx, s)
      else case map_of (dc_visited ctx) node of
        Some i \<Rightarrow> (i, False, ctx, s)
      | None \<Rightarrow>
          let (e, s) = malloc 24 s
          in if e = NULL then (0, False, ctx\<lparr>dc_error := True\<rparr>, s)
             else (dc_next_id ctx, True,
                   ctx\<lparr>dc_visited := (node, dc_next_id ctx) # dc_visited ctx, dc_next_id := dc_next_id ctx + 1\<rparr>, s))"

definition mtpndd_dot_ctx_cleanup :: "dot_ctx \<Rightarrow> dot_ctx" where
  "mtpndd_dot_ctx_cleanup ctx = ctx\<lparr>dc_visited := [], dc_next_id := 0, dc_error := False\<rparr>"

definition mtpndd_dot_format_edge_label :: "sylvan \<Rightarrow> bdd \<Rightarrow> string" where
  "mtpndd_dot_format_edge_label S lab =
     (if lab = sylvan_true S then ''TRUE''
      else if lab = sylvan_false S then ''FALSE''
      else ''0x'' @ print_base 16 (unat lab))"

definition newline :: string where
  "newline = [CHR 0x0A]"

definition escaped_n :: string where
  "escaped_n = [CHR 0x5C, CHR ''n'']"

definition terminal_line :: "string \<Rightarrow> string \<Rightarrow> nat \<Rightarrow> bool \<Rightarrow> string" where
  \<open>terminal_line name color node_id highlight_root =
     ''    n'' @ dec node_id @ '' [label="'' @ name @ ''", shape=box, style="filled", fillcolor="'' @ color
     @ ''", peripheries='' @ dec (if highlight_root then 2 else 1) @ ''];'' @ newline\<close>

definition mtpndd_dot_emit_node :: "ptr \<Rightarrow> nat \<Rightarrow> bool \<Rightarrow> mstate \<Rightarrow> string option" where
  \<open>mtpndd_dot_emit_node node node_id highlight_root s =
     (if mtpndd_is_true node then Some (terminal_line ''TRUE'' ''#dff0d8'' node_id highlight_root)
      else if mtpndd_is_false node then Some (terminal_line ''FALSE'' ''#f2dede'' node_id highlight_root)
      else do {
        f \<leftarrow> node_field s node;
        count \<leftarrow> node_edge_count s node;
        let bits = (if 0 < f \<and> f \<le> field_count s
                    then (case field_infos s f of Some info \<Rightarrow> fi_bit_width info | None \<Rightarrow> 0) else 0);
        Some (''    n'' @ dec node_id @ '' [label="Field '' @ dec f @ escaped_n @ ''Bits '' @ dec bits @ escaped_n
              @ ''Edges '' @ dec count @ ''", shape=ellipse, peripheries='' @ dec (if highlight_root then 2 else 1)
              @ ''];'' @ newline)
      })\<close>

definition edge_line :: "sylvan \<Rightarrow> nat \<Rightarrow> nat \<Rightarrow> bdd \<Rightarrow> string" where
  \<open>edge_line S node_id child_id lab =
     ''    n'' @ dec node_id @ '' -> n'' @ dec child_id @ '' [label="'' @ mtpndd_dot_format_edge_label S lab @ ''"];'' @ newline\<close>

type_synonym dot_rec = "ptr \<Rightarrow> string list \<Rightarrow> dot_ctx \<Rightarrow> mstate \<Rightarrow> (string list \<times> dot_ctx \<times> mstate) option"

fun dot_edges :: "sylvan \<Rightarrow> dot_rec \<Rightarrow> nat \<Rightarrow> edge_bucket_entry list \<Rightarrow> string list \<Rightarrow> dot_ctx \<Rightarrow> mstate
   \<Rightarrow> (string list \<times> dot_ctx \<times> mstate) option" where
  "dot_edges S rec node_id [] out ctx s = Some (out, ctx, s)"
| "dot_edges S rec node_id (e # es) out ctx s =
     (if ee_child e = NULL then dot_edges S rec node_id es out ctx s
      else let (child_id, child_is_new, ctx, s) = mtpndd_dot_ctx_get_id ctx (ee_child e) s
           in if dc_error ctx then Some (out, ctx, s)
              else let out = out @ [edge_line S node_id child_id (ee_label e)]
                   in do {
                     (out, ctx, s) \<leftarrow> (if child_is_new then rec (ee_child e) out ctx s else Some (out, ctx, s));
                     dot_edges S rec node_id es out ctx s
                   })"

primrec mtpndd_fprint_dot_rec :: "nat \<Rightarrow> sylvan \<Rightarrow> dot_rec" where
  "mtpndd_fprint_dot_rec 0 S = (\<lambda>node out ctx s. None)"
| "mtpndd_fprint_dot_rec (Suc k) S = (\<lambda>node out ctx s.
     if node = NULL \<or> dc_error ctx then Some (out, ctx, s)
     else let (node_id, is_new, ctx, s) = mtpndd_dot_ctx_get_id ctx node s
          in if dc_error ctx \<or> \<not> is_new then Some (out, ctx, s)
             else do {
               l \<leftarrow> mtpndd_dot_emit_node node node_id (node = dc_root ctx) s;
               let out = out @ [l];
               count \<leftarrow> node_edge_count s node;
               if count = 0 then Some (out, ctx, s)
               else do {
                 m \<leftarrow> node_edges s node;
                 es \<leftarrow> for_each_entry s m;
                 dot_edges S (mtpndd_fprint_dot_rec k S) node_id es out ctx s
               }
             })"

definition dot_preamble :: "string list" where
  \<open>dot_preamble =
     [''digraph MTPNDD {'' @ newline,
      ''    rankdir=TB;'' @ newline,
      ''    node [fontname="Helvetica"];'' @ newline,
      ''    edge [fontname="Helvetica"];'' @ newline]\<close>

definition mtpndd_fprint_dot :: "sylvan \<Rightarrow> ptr \<Rightarrow> mstate \<Rightarrow> (string list \<times> mstate) option" where
  "mtpndd_fprint_dot S root_node s =
     (if root_node = NULL then Some ([], s)
      else do {
        (out, ctx, s) \<leftarrow> mtpndd_fprint_dot_rec (op_fuel s) S root_node dot_preamble
          \<lparr>dc_visited = [], dc_next_id = 0, dc_root = root_node, dc_error = False\<rparr> s;
        Some (out @ [''}'' @ newline], s)
      })"

text \<open>Where the output goes: to the file when a path is given and it can be opened, to \<open>stdout\<close> otherwise.\<close>

datatype dot_target = Stdout | File string

definition mtpndd_print_dot ::
  "(string \<Rightarrow> bool) \<Rightarrow> sylvan \<Rightarrow> ptr \<Rightarrow> string option \<Rightarrow> mstate \<Rightarrow> (dot_target \<times> string list \<times> mstate) option" where
  "mtpndd_print_dot fopen_ok S root_node path s = do {
     let target = (case path of
                     None \<Rightarrow> Stdout
                   | Some p \<Rightarrow> if p \<noteq> [] \<and> fopen_ok p then File p else Stdout);
     (out, s) \<leftarrow> mtpndd_fprint_dot S root_node s;
     Some (target, out, s)
   }"

section \<open>What is printed\<close>

lemma get_id_known:
  "p \<noteq> NULL \<Longrightarrow> map_of (dc_visited ctx) p = Some i \<Longrightarrow> mtpndd_dot_ctx_get_id ctx p s = (i, False, ctx, s)"
  by (simp add: mtpndd_dot_ctx_get_id_def)

text \<open>The visit of a node that has a number.\<close>

lemma dot_rec_known:
  assumes "0 < k" "p \<noteq> NULL" "map_of (dc_visited ctx) p \<noteq> None"
  shows "mtpndd_fprint_dot_rec k S p out ctx s = Some (out, ctx, s)"
  using assms get_id_known[of p ctx] by (cases k) auto

lemma get_id_new:
  assumes "p \<noteq> NULL" "map_of (dc_visited ctx) p = None" "room s"
  shows "\<exists>i new ctx' s'. mtpndd_dot_ctx_get_id ctx p s = (i, new, ctx', s') \<and> placid s s' \<and> dc_root ctx' = dc_root ctx
     \<and> (if new then i = dc_next_id ctx \<and> dc_error ctx' = dc_error ctx \<and> dc_visited ctx' = (p, i) # dc_visited ctx
          \<and> dc_next_id ctx' = Suc i else dc_error ctx' \<and> failed s')"
proof -
  obtain e s1 where m: "malloc 24 s = (e, s1)" by fastforce
  show ?thesis using placid_malloc[OF m] assms m by (cases "e = NULL") (auto simp: mtpndd_dot_ctx_get_id_def room_def)
qed

lemma dot_edges_spec:
  assumes "0 < k" "room s" "\<And>e. e \<in> set es \<Longrightarrow> ee_child e \<noteq> NULL \<and> map_of (dc_visited ctx) (ee_child e) = None"
    and "distinct (map ee_child es)" "\<not> dc_error ctx"
  shows "\<exists>out' ctx' s'. dot_edges S (mtpndd_fprint_dot_rec k S) i es out ctx s = Some (out', ctx', s') \<and> placid s s'
     \<and> (\<not> failed s' \<longrightarrow> out' = out @ map (\<lambda>(j, e). edge_line S i j (ee_label e)) (enumerate (dc_next_id ctx) es))"
  using assms(2-)
proof (induction es arbitrary: out ctx s)
  case Nil
  then show ?case by (simp add: placid_base(1))
next
  case (Cons e es)
  have e: "ee_child e \<noteq> NULL" "map_of (dc_visited ctx) (ee_child e) = None" using Cons.prems(2)[of e] by simp_all
  obtain j new ctx1 s1 where g: "mtpndd_dot_ctx_get_id ctx (ee_child e) s = (j, new, ctx1, s1)" "placid s s1"
    "if new then j = dc_next_id ctx \<and> dc_error ctx1 = dc_error ctx \<and> dc_visited ctx1 = (ee_child e, j) # dc_visited ctx
       \<and> dc_next_id ctx1 = Suc j else dc_error ctx1 \<and> failed s1"
    using get_id_new[OF e Cons.prems(1)] by blast
  show ?case
  proof (cases new)
    case False
    then show ?thesis using g e(1) by (simp add: neq0_conv[symmetric] del: neq0_conv)
  next
    case True
    then have c: "j = dc_next_id ctx" "\<not> dc_error ctx1" "dc_visited ctx1 = (ee_child e, j) # dc_visited ctx" "dc_next_id ctx1 = Suc j"
      using g(3) Cons.prems(4) by simp_all
    let ?out = "out @ [edge_line S i j (ee_label e)]"
    have "\<exists>out' ctx' s'. dot_edges S (mtpndd_fprint_dot_rec k S) i es ?out ctx1 s1 = Some (out', ctx', s') \<and> placid s1 s'
       \<and> (\<not> failed s' \<longrightarrow> out' = ?out @ map (\<lambda>(j, e). edge_line S i j (ee_label e)) (enumerate (dc_next_id ctx1) es))"
    proof (rule Cons.IH)
      fix e' assume e': "e' \<in> set es"
      then have "ee_child e' \<in> set (map ee_child es)" by simp
      then have "ee_child e' \<noteq> ee_child e" using Cons.prems(3) by fastforce
      then show "ee_child e' \<noteq> NULL \<and> map_of (dc_visited ctx1) (ee_child e') = None" using Cons.prems(2)[of e'] e' c(3) by simp
    qed (use placid_room[OF g(2) Cons.prems(1)] Cons.prems(3) c(2) in simp_all)
    then obtain out' ctx' s' where r: "dot_edges S (mtpndd_fprint_dot_rec k S) i es ?out ctx1 s1 = Some (out', ctx', s')" "placid s1 s'"
      "\<not> failed s' \<longrightarrow> out' = ?out @ map (\<lambda>(j, e). edge_line S i j (ee_label e)) (enumerate (dc_next_id ctx1) es)" by blast
    have "mtpndd_fprint_dot_rec k S (ee_child e) ?out ctx1 s1 = Some (?out, ctx1, s1)"
      by (rule dot_rec_known[OF assms(1) e(1)]) (simp add: c(3))
    then have "dot_edges S (mtpndd_fprint_dot_rec k S) i (e # es) out ctx s = Some (out', ctx', s')"
      using g(1) e(1) c(2) True r(1) by simp
    then show ?thesis using placid_trans[OF g(2) r(2)] r(3) c(1,4) by simp
  qed
qed

lemma fprint_dot_spec:
  assumes "hinv S M E s" "content s p = Some (f, NEdges m)"
  shows "\<exists>out s'. mtpndd_fprint_dot S p s = Some (out, s') \<and> placid s s' \<and> (\<not> failed s' \<longrightarrow>
     (\<exists>l. mtpndd_dot_emit_node p 0 True s = Some l
        \<and> out = dot_preamble @ [l] @ map (\<lambda>(j, e). edge_line S 0 j (ee_label e)) (enumerate 1 (entries m)) @ [''}'' @ newline]))"
proof -
  have inv: "sinv S M s" "nodes s NULL = None" and rm: "room s"
    using hinv_walkable[OF assms(1)] hinv_room[OF assms(1)] by (simp_all add: walkable_def)
  note n = sinv_node[OF inv(1) assms(2)] and ef = edge_facts[OF inv assms(2)]
  have p0: "p \<noteq> NULL" using inv(2) assms(2) by (metis content_def map_option_is_None option.distinct(1))
  let ?c0 = "\<lparr>dc_visited = [], dc_next_id = 0, dc_root = p, dc_error = False\<rparr>"
  obtain i new ctx1 s1 where g: "mtpndd_dot_ctx_get_id ?c0 p s = (i, new, ctx1, s1)" "placid s s1" "dc_root ctx1 = p"
    "if new then i = 0 \<and> \<not> dc_error ctx1 \<and> dc_visited ctx1 = [(p, 0)] \<and> dc_next_id ctx1 = 1 else dc_error ctx1 \<and> failed s1"
    using get_id_new[OF p0 _ rm, of ?c0] by auto
  have k: "op_fuel s = Suc (Suc (field_count s))" by (simp add: op_fuel_def)
  show ?thesis
  proof (cases new)
    case False
    then have "mtpndd_fprint_dot_rec (op_fuel s) S p dot_preamble ?c0 s = Some (dot_preamble, ctx1, s1)"
      using g p0 k by simp
    then show ?thesis using False g p0 by (simp add: mtpndd_fprint_dot_def)
  next
    case True
    then have c: "i = 0" "\<not> dc_error ctx1" "dc_visited ctx1 = [(p, 0)]" "dc_next_id ctx1 = 1" using g(4) by simp_all
    have np: "\<not> mtpndd_is_true p" "\<not> mtpndd_is_false p"
      using internal_not_sentinel[OF inv(1) assms(2)] by (simp_all add: mtpndd_is_true_def mtpndd_is_false_def)
    have ec: "node_edge_count s1 p = Some (edge_count m)" "node_edge_count s p = Some (edge_count m)" "node_field s p = Some f"
      using assms(2) g(2) by (auto simp: node_edge_count_def content_def node_field_def)
    have ne: "edge_count m \<noteq> 0" using n(5,6) by (auto simp: reduced_def wf_map_def emap_def)
    obtain l where l: "mtpndd_dot_emit_node p 0 True s = Some l" "mtpndd_dot_emit_node p 0 True s1 = Some l"
      using np ec g(2) by (auto simp: mtpndd_dot_emit_node_def)
    have rd: "node_edges s1 p = Some m" "for_each_entry s1 m = Some (entries m)"
      using g(2) assms(2) n(6) by (simp_all add: node_edges_content)
    have fresh: "ee_child e \<noteq> NULL \<and> map_of (dc_visited ctx1) (ee_child e) = None" if "e \<in> set (entries m)" for e
      using ef(2,3)[OF that] fieldof_content[OF assms(2)] by (auto simp: c(3))
    obtain out ctx2 s2 where r: "dot_edges S (mtpndd_fprint_dot_rec (Suc (field_count s)) S) 0 (entries m) (dot_preamble @ [l]) ctx1 s1
        = Some (out, ctx2, s2)" "placid s1 s2"
      "\<not> failed s2 \<longrightarrow> out = (dot_preamble @ [l]) @ map (\<lambda>(j, e). edge_line S 0 j (ee_label e)) (enumerate (dc_next_id ctx1) (entries m))"
      using dot_edges_spec[OF zero_less_Suc placid_room[OF g(2) rm] fresh _ c(2)] n(6) unfolding wf_map_def by blast
    have "mtpndd_fprint_dot_rec (op_fuel s) S p dot_preamble ?c0 s = Some (out, ctx2, s2)"
      using g(1,3) c(1,2) True p0 k l(2) ec(1) ne rd r(1) by simp
    then show ?thesis using placid_trans[OF g(2) r(2)] r(3) l(1) c(4) p0 by (simp add: mtpndd_fprint_dot_def)
  qed
qed

text \<open>A terminal as root: the visit follows the packed fraction as if it were the address of an edge map.\<close>

lemma fprint_dot_terminal:
  assumes "hinv S M E s" "p = MTPNDD_TRUE \<or> p = MTPNDD_FALSE" "brk (c_heap_of s) + 24 \<le> mem_limit (c_heap_of s)"
  shows "mtpndd_fprint_dot S p s = None"
proof -
  have inv: "sinv S M s" and w: "walkable S M s" using hinv_walkable[OF assms(1)] assms(1) by (simp_all add: hinv_def)
  have nz: "mtpndd_pack_fraction 1 1 \<noteq> 0" "mtpndd_pack_fraction 0 1 \<noteq> 0" by code_simp+
  obtain v where v: "content s p = Some (MTPNDD_FRACTION_LEAF_FIELD_ID, NLeaf v)" "v \<noteq> 0"
    using inv assms(2) nz by (auto simp: sinv_def sentinels_ok_def)
  have ne: "node_edge_count (s\<lparr>c_heap_of := h\<rparr>) p = None" for h using v by (auto simp: node_edge_count_def content_def)
  have "p \<noteq> NULL" using assms(2) by (auto simp: MTPNDD_TRUE_def MTPNDD_FALSE_def)
  then show ?thesis using assms(3) w ne
    by (auto simp: mtpndd_fprint_dot_def op_fuel_def mtpndd_dot_ctx_get_id_def malloc_def c_malloc_def walkable_def Let_def
        split: option.splits)
qed

end
