(* ===== verification/Demo_State.thy ===== *)
theory Demo_State
  imports Engine_Quit Arith_Cache Convert_Count Dot_Output
begin

text \<open>
  A state with one field and two protected nodes, the variables 0 and 1 of the field, as
  \<open>mtpndd_generate_fields\<close> leaves them; the instance of the interface is the truth tables.  The
  theorems about operations are applied here.
\<close>

definition pool_made :: "nat \<Rightarrow> ptr list \<Rightarrow> slab_pool" where
  "pool_made n bs =
     \<lparr>object_size = n, objects_per_slab = 2, free_list = [], blocks = bs, slab_count = length bs,
      in_use_global = 0, refill_batch = 1, local_max = 2, lock_initialized = True, locals = []\<rparr>"

definition sentinel_node :: "64 word \<Rightarrow> mtpndd_node" where
  "sentinel_node v = \<lparr>ref_count = - 1, field_id = MTPNDD_FRACTION_LEAF_FIELD_ID, body = NLeaf v\<rparr>"

definition true_node :: mtpndd_node where "true_node = sentinel_node (mtpndd_pack_fraction 1 1)"
definition false_node :: mtpndd_node where "false_node = sentinel_node (mtpndd_pack_fraction 0 1)"

definition var_map :: "ptr \<Rightarrow> bdd \<Rightarrow> mtpndd_edge" where
  "var_map a l =
     (let e = \<lparr>ee_addr = a + 1, ee_child = MTPNDD_TRUE, ee_label = l\<rparr>
      in \<lparr>em_addr = a, edge_count = 1, cached_hash = entry_hash e,
          buckets = (replicate 8 [])[mask_index (node_hash true_node) 8 := [e]],
          bucket_count = 8, load_threshold = 7, buckets_malloced = False\<rparr>)"

definition var_node :: "ptr \<Rightarrow> bdd \<Rightarrow> mtpndd_node" where
  "var_node a l = \<lparr>ref_count = - 1, field_id = 1, body = NEdges (var_map a l)\<rparr>"

definition var_entry :: "ptr \<Rightarrow> ptr \<Rightarrow> bdd \<Rightarrow> nodetable_bucket_entry" where
  "var_entry p a l = \<lparr>nte_addr = a + 2, nte_edges = var_map a l, nte_node = p,
     nte_hash = cached_hash (var_map a l)\<rparr>"

definition x0 :: bdd where "x0 = sylvan_ithvar tt_sylvan 0"
definition x1 :: bdd where "x1 = sylvan_ithvar tt_sylvan 1"

definition demo_entries :: "nodetable_bucket_entry list" where
  "demo_entries = [var_entry 64 200 x0, var_entry 80 300 x1]"

definition demo_table :: mtpndd_nodetable where
  "demo_table =
     (let bs = map (\<lambda>i. filter (\<lambda>e. mask_index (nte_hash e) 16 = i) demo_entries) [0..<16]
      in \<lparr>nodetable_bucket_count = 16, nt_buckets = bs, nt_entry_count = length (concat bs),
          nt_load_threshold = 12, nt_bucket_lock_count = 16\<rparr>)"

definition demo :: mstate where
  "demo =
     \<lparr>c_heap_of = \<lparr>brk = 4096, mem_limit = 2 ^ 40, mem_failed = False\<rparr>,
      g_node_pool = pool_made 16 [56], g_edge_entry_pool = pool_made 24 [],
      g_nodetable_entry_pool = pool_made 40 [], g_edge_map_pool = pool_made 112 [],
      g_edge_bucket_count = 8, cur_worker = - 1, lace_workers = 1,
      nodes = [MTPNDD_TRUE \<mapsto> true_node, MTPNDD_FALSE \<mapsto> false_node, 64 \<mapsto> var_node 200 x0, 80 \<mapsto> var_node 300 x1],
      g_pal_config = \<lparr>n_workers = 1, lace_dqsize = 1, bdd_nodetable_size = 1, mtpndd_nodetable_size = 1000,
        op_cache_size = 16, quick_growth_threshold = 0, edge_bucket_count = 8, nodetable_bucket_count_cfg = 16,
        node_slab_capacity = 2, edge_entry_slab_capacity = 2, nodetable_entry_slab_capacity = 2, edge_map_slab_capacity = 2\<rparr>,
      g_node_count = 2, field_count = 1, node_tables_by_field = [1 \<mapsto> demo_table],
      and_cache = None, or_cache = None, not_cache = None, leaf_table = None, double_leaf_table = None,
      temp_refs_pool = mtpndd_temp_ref_pool_init, temp_ref_pool_count = 1, gc_running = False, gc_prehooks = [], gc_posthooks = [],
      hook_log = [], two_phase_threshold = 0,
      last_error = \<lparr>ei_code = MTPNDD_SUCCESS, ei_message = None, ei_function = None, ei_line = 0\<rparr>,
      syl_log = [], pending_field_bit_widths = 2 # replicate 7 0, pending_field_count = 1, pending_field_capacity = 8, field_capacity = 8, max_bit_width = 2,
      fields_generated = True, shared_bdd_vars = [x0, x1], shared_bdd_not_vars = [NOT x0, NOT x1],
      field_infos = Map.empty\<rparr>"

definition demo_cache :: mtpndd_op_cache where
  "demo_cache = \<lparr>oc_entries = replicate 16 empty_entry, oc_capacity = 16, oc_mask = 15, oc_arity = 2\<rparr>"

definition demo_pushed :: mstate where
  "demo_pushed = demo\<lparr>temp_refs_pool := mtpndd_temp_ref_pool_init\<lparr>tr_items := [80, 64]\<rparr>\<rparr>"

text \<open>A node with three counted references, two of them in the open frame.\<close>

definition demo_counted :: mstate where
  "demo_counted = demo\<lparr>nodes := (nodes demo)(80 \<mapsto> (var_node 300 x1)\<lparr>ref_count := 3\<rparr>),
     temp_refs_pool := mtpndd_temp_ref_pool_init\<lparr>tr_items := [80, 80, 64]\<rparr>\<rparr>"

text \<open>The state before \<open>mtpndd_init\<close>: no node, no configuration.\<close>

definition demo_config :: pal_config where "demo_config = g_pal_config demo"

definition demo_cold :: mstate where
  "demo_cold = demo\<lparr>nodes := Map.empty, field_count := 0, node_tables_by_field := Map.empty, fields_generated := False,
     g_pal_config := demo_config\<lparr>lace_dqsize := 0, bdd_nodetable_size := 0, mtpndd_nodetable_size := 0, op_cache_size := 0\<rparr>\<rparr>"

text \<open>The same state with the information record of its field.\<close>

definition demo_info :: mstate where
  "demo_info = demo\<lparr>field_infos := [1 \<mapsto> \<lparr>fi_field_id = 1, fi_bit_width = 2, fi_start_var = 0, fi_bdd_vars = [x0, x1],
     fi_bdd_not_vars = [NOT x0, NOT x1], fi_mtpndd_vars = [64, 80], fi_mtpndd_not_vars = []\<rparr>]\<rparr>"

text \<open>A cache of OR that holds the disjunction of the two nodes, at the address 96, in whatever slot it is looked for.\<close>

definition demo_hit :: mstate where
  "demo_hit = demo\<lparr>nodes := (nodes demo)(96 \<mapsto> var_node 400 (x0 OR x1)),
     or_cache := Some (demo_cache\<lparr>oc_entries := replicate 16 \<lparr>oc_op0 = 64, oc_op1 = 80, oc_result = 96\<rparr>\<rparr>)\<rparr>"

section \<open>It satisfies the invariant\<close>

lemmas address_defs = MTPNDD_TRUE_def MTPNDD_FALSE_def

lemma mask_8: "mask_index h 8 < 8" and mask_16: "mask_index h 16 < 16"
  using mask_index_less[of 8 h] mask_index_less[of 16 h] is_pow2_power[of 3] is_pow2_power[of 4] by simp_all

lemma demo_nodes:
  "nodes demo MTPNDD_TRUE = Some true_node" "nodes demo MTPNDD_FALSE = Some false_node"
  "nodes demo 64 = Some (var_node 200 x0)" "nodes demo 80 = Some (var_node 300 x1)"
  "dom (nodes demo) = {MTPNDD_TRUE, MTPNDD_FALSE, 64, 80}"
  by (auto simp: demo_def address_defs split: if_splits)

lemma demo_content:
  "content demo p = Some nd \<longleftrightarrow>
     p = MTPNDD_TRUE \<and> nd = (MTPNDD_FRACTION_LEAF_FIELD_ID, NLeaf (mtpndd_pack_fraction 1 1))
     \<or> p = MTPNDD_FALSE \<and> nd = (MTPNDD_FRACTION_LEAF_FIELD_ID, NLeaf (mtpndd_pack_fraction 0 1))
     \<or> p = 64 \<and> nd = (1, NEdges (var_map 200 x0)) \<or> p = 80 \<and> nd = (1, NEdges (var_map 300 x1))"
  by (auto simp: content_def demo_def address_defs true_node_def false_node_def sentinel_node_def var_node_def
      split: if_splits)

lemma var_map_entries: "entries (var_map a l) = [\<lparr>ee_addr = a + 1, ee_child = MTPNDD_TRUE, ee_label = l\<rparr>]"
proof -
  have "concat ((replicate 8 [])[i := [e]]) = [e]" if "i < 8" for i and e :: edge_bucket_entry
    using that by (simp add: less_Suc_eq numeral_eq_Suc) auto
  then show ?thesis using mask_8 by (simp add: entries_def var_map_def Let_def)
qed

lemma var_map_emap: "emap (var_map a l) = [MTPNDD_TRUE \<mapsto> l]"
  by (simp add: emap_def var_map_entries)

lemma var_map_wf: "wf_map demo (var_map a l)"
proof -
  let ?e = "\<lparr>ee_addr = a + 1, ee_child = MTPNDD_TRUE, ee_label = l\<rparr>"
  have h: "mtpndd_hash_node_identity demo MTPNDD_TRUE = Some (node_hash true_node)"
    using demo_nodes(1) by (simp add: mtpndd_hash_node_identity_def address_defs)
  have "placed demo 8 ((replicate 8 [])[mask_index (node_hash true_node) 8 := [?e]])"
    unfolding placed_def using h by (auto simp: nth_list_update mask_8 split: if_splits)
  then show ?thesis using var_map_entries[of a l] is_pow2_power[of 3]
    by (simp add: wf_map_def MTPNDD_DEFAULT_EDGE_BUCKET_COUNT_def) (simp add: var_map_def Let_def)
qed

lemma var_labels: "bdd_ok tt_model l" "x0 \<noteq> sylvan_false tt_sylvan" "x1 \<noteq> sylvan_false tt_sylvan"
  "x0 \<noteq> sylvan_true tt_sylvan" "x1 \<noteq> sylvan_true tt_sylvan" "x0 \<noteq> x1"
  by (simp_all add: tt_model_def tt_sylvan_def x0_def x1_def)

lemma var_node_wf:
  assumes l: "l = x0 \<or> l = x1" shows "node_wf tt_sylvan tt_model demo (1, NEdges (var_map a l))"
proof -
  have "child_ok demo 1 MTPNDD_TRUE" using demo_nodes(1)
    by (simp add: child_ok_def node_field_def true_node_def sentinel_node_def MTPNDD_FRACTION_LEAF_FIELD_ID_def address_defs)
  moreover have "labels_ok tt_sylvan tt_model [MTPNDD_TRUE \<mapsto> l]" using var_labels l by (auto simp: labels_ok_def)
  ultimately have "map_wf tt_sylvan tt_model demo 1 (var_map a l)" using var_map_wf by (simp add: map_wf_def var_map_emap)
  moreover have "hash_ok (var_map a l)" by (simp add: hash_ok_def var_map_entries) (simp add: var_map_def Let_def xor_fold_def)
  moreover have "[MTPNDD_TRUE \<mapsto> l] \<noteq> [c \<mapsto> sylvan_true tt_sylvan]" for c
  proof
    assume eq: "[MTPNDD_TRUE \<mapsto> l] = [c \<mapsto> sylvan_true tt_sylvan]"
    have "[MTPNDD_TRUE \<mapsto> l] MTPNDD_TRUE = [c \<mapsto> sylvan_true tt_sylvan] MTPNDD_TRUE" by (rule fun_cong[OF eq])
    then show False using var_labels l by (auto split: if_splits)
  qed
  then have "reduced tt_sylvan [MTPNDD_TRUE \<mapsto> l]" by (simp add: reduced_def)
  moreover have "1 \<in> tabled demo" by (simp add: demo_def tabled_def)
  ultimately show ?thesis by (simp add: node_wf_def var_map_emap)
qed


lemma demo_table_entries: "set (tentries demo_table) = set demo_entries"
  using mask_16 by (auto simp: tentries_def demo_table_def Let_def)

lemma demo_table_shape: "table_shape demo_table"
proof -
  let ?b = "\<lambda>i. filter (\<lambda>e. mask_index (nte_hash e) 16 = i) demo_entries"
  have inj: "e = e'" if "e \<in> set demo_entries" "e' \<in> set demo_entries" "nte_node e = nte_node e'" for e e'
    using that by (auto simp: demo_entries_def var_entry_def)
  have "distinct (map nte_node (concat (map ?b is)))" if "distinct is" for "is"
    using that
  proof (induction "is")
    case (Cons i "is")
    have "distinct (map nte_node (?b i))" by (simp add: demo_entries_def var_entry_def)
    moreover have "nte_node e \<noteq> nte_node e'" if "e \<in> set (?b i)" "e' \<in> set (concat (map ?b is))" for e e'
    proof
      have "e \<in> set demo_entries" "e' \<in> set demo_entries" using that by auto
      moreover assume "nte_node e = nte_node e'"
      ultimately have "e = e'" using inj by blast
      then show False using that Cons.prems by auto
    qed
    ultimately show ?case using Cons by fastforce
  qed simp
  then have "distinct (map nte_node (tentries demo_table))" by (simp add: tentries_def demo_table_def Let_def)
  moreover have "is_pow2 16" using is_pow2_power[of 4] by simp
  ultimately show ?thesis by (simp add: table_shape_def tentries_def) (simp add: demo_table_def Let_def)
qed

lemma demo_sinv: "sinv tt_sylvan tt_model demo"
proof -
  have wf: "\<forall>p nd. content demo p = Some nd \<longrightarrow> node_wf tt_sylvan tt_model demo nd"
    unfolding demo_content using var_node_wf by (auto simp: node_wf_def)
  have "table_wf demo 1 demo_table"
    unfolding table_wf_def demo_table_entries
  proof (intro conjI allI impI ballI)
    show "table_shape demo_table" by (rule demo_table_shape)
  next
    fix e assume "e \<in> set demo_entries"
    then show "entry_ok demo 1 e" unfolding entry_ok_def demo_content
      by (auto simp: demo_entries_def var_entry_def address_defs)
  next
    fix p m assume "content demo p = Some (1, NEdges m)"
    then show "p \<in> nte_node ` set demo_entries" unfolding demo_content by (auto simp: demo_entries_def var_entry_def)
  qed
  then have tab: "tables_ok demo" by (simp add: tables_ok_def tabled_def demo_def)
  have "emap (var_map 200 x0) \<noteq> emap (var_map 300 x1)" using var_labels(6) by (simp add: var_map_emap) (metis fun_upd_same option.inject)
  then have un: "unique_nodes demo" unfolding unique_nodes_def demo_content by auto
  have se: "sentinels_ok demo" by (simp add: sentinels_ok_def demo_content)
  have lt: "leaf_tables_ok demo" by (simp add: leaf_tables_ok_def leaf_table_of_def demo_def)
  have "field_count demo < MTPNDD_LEAF_FIELD_ID_MIN"
    by (simp add: demo_def MTPNDD_LEAF_FIELD_ID_MIN_def MTPNDD_DOUBLE_LEAF_FIELD_ID_def)
  with wf tab un se lt show ?thesis unfolding sinv_def by blast
qed

lemma demo_hinv:
  assumes "set_mset E \<subseteq> {MTPNDD_TRUE, 64, 80}" shows "hinv tt_sylvan tt_model E demo"
proof -
  have "refs_ok E demo"
    unfolding refs_ok_def
  proof (intro conjI allI impI)
    fix p nd assume "nodes demo p = Some nd"
    then show "case body nd of NLeaf v \<Rightarrow> ref_count nd = - 1
        | NEdges m \<Rightarrow> ref_count nd = - 1 \<or> card (parents demo p) + count E p \<le> unat (ref_count nd)"
      by (auto simp: demo_def true_node_def false_node_def sentinel_node_def var_node_def split: if_splits node_body.splits)
  next
    show "\<forall>p\<in>#E. internal demo p \<or> p = MTPNDD_TRUE \<or> p = MTPNDD_FALSE"
      using assms by (auto simp: internal_content demo_content)
  qed
  moreover have "rinv demo"
  proof -
    have "dom (nodes demo) - {MTPNDD_TRUE, MTPNDD_FALSE} = {64, 80}" using demo_nodes(5) by (auto simp: address_defs)
    moreover have "slab_sized (pool_made 16 [56])" by (simp add: slab_sized_def pool_made_def slab_capacity_def)
    then have "pool_ok (pool_made 16 [56]) {64, 80} (c_heap_of demo)"
      by (simp add: pool_ok_def) (simp add: pool_made_def pool_objects_def pool_free_def slab_objects_def slab_capacity_def demo_def
          upt_rec numeral_2_eq_2)
    moreover have "is_pow2 8" using is_pow2_power[of 3] by simp
    ultimately show ?thesis by (simp add: rinv_def bucket_cfg_ok_def) (simp add: demo_def)
  qed
  ultimately show ?thesis using demo_sinv by (simp add: hinv_def)
qed

lemma demo_counted_hinv: "hinv tt_sylvan tt_model ({#64#} + mset [80, 80]) demo_counted"
proof -
  have n: "nodes demo_counted = (nodes demo)(80 \<mapsto> (var_node 300 x1)\<lparr>ref_count := 3\<rparr>)" by (simp add: demo_counted_def)
  have c: "content demo_counted = content demo" using demo_nodes(4) n by (auto simp: content_def fun_eq_iff)
  have "sinv tt_sylvan tt_model demo_counted = sinv tt_sylvan tt_model demo"
    by (rule sinv_cong[OF c]) (simp_all add: demo_counted_def)
  moreover have "rinv demo_counted"
  proof -
    have "dom (nodes demo_counted) = dom (nodes demo)" using n demo_nodes(4) by auto
    moreover have "rinv demo" using demo_hinv[of "{#}"] by (simp add: hinv_def)
    ultimately show ?thesis by (simp add: rinv_def bucket_cfg_ok_def) (simp add: demo_counted_def)
  qed
  moreover have "refs_ok ({#64#} + mset [80, 80]) demo_counted"
  proof -
    have "parents demo_counted 80 = {}"
      unfolding parents_def c using demo_content by (auto simp: var_map_emap address_defs split: if_splits)
    then have "case body nd of NLeaf v \<Rightarrow> ref_count nd = - 1
        | NEdges m \<Rightarrow> ref_count nd = - 1 \<or> card (parents demo_counted p) + count ({#64#} + mset [80, 80]) p \<le> unat (ref_count nd)"
      if "nodes demo_counted p = Some nd" for p nd
    proof (cases "p = 80")
      case False
      then have "nodes demo p = Some nd" using that by (simp add: n)
      then show ?thesis
        by (auto simp: demo_def true_node_def false_node_def sentinel_node_def var_node_def split: if_splits node_body.splits)
    qed (use that in \<open>auto simp: n var_node_def\<close>)
    moreover have "\<forall>p\<in># {#64#} + mset [80, 80]. internal demo_counted p \<or> p = MTPNDD_TRUE \<or> p = MTPNDD_FALSE"
      by (auto simp: internal_content c demo_content)
    ultimately show ?thesis unfolding refs_ok_def by blast
  qed
  ultimately show ?thesis using demo_sinv by (simp add: hinv_def)
qed

lemma demo_cinv: "cinv tt_model demo"
  by (simp add: cinv_def ctx_ok_def caches_shape_def opt_cache_ok_def cached_def pools_ready_def pool_ready_def
      pool_made_def demo_def slab_sized_def slab_capacity_def)

lemma demo_live: "live E demo 64" "live E demo 80"
  using demo_nodes(3,4) live_protected[of demo 64 "var_node 200 x0"] live_protected[of demo 80 "var_node 300 x1"]
  by (simp_all add: internal_content demo_content var_node_def)

lemma demo_boolean: "boolean demo 64" "boolean demo 80"
proof -
  have c: "content demo 64 = Some (1, NEdges (var_map 200 x0))" "content demo 80 = Some (1, NEdges (var_map 300 x1))"
    by (simp_all add: demo_content)
  show "boolean demo 64" "boolean demo 80"
    using boolean_node[OF c(1)] boolean_node[OF c(2)] by (simp_all add: var_map_emap)
qed

lemma demo_not_failed: "\<not> failed demo"
  by (simp add: demo_def)

lemma demo_cold: "cold demo_cold"
  by (simp add: cold_def demo_cold_def demo_def mtpndd_is_initialized_def mtpndd_temp_ref_pool_init_def)

lemma demo_config: "config_ok demo_config" "edge_bucket_count demo_config \<le> 2 ^ 60" "slabs_fit demo_config"
proof -
  have "round_up_pow2_nat 8 = 8" by code_simp
  then show "config_ok demo_config" "edge_bucket_count demo_config \<le> 2 ^ 60" "slabs_fit demo_config"
    by (simp_all add: config_ok_def demo_config_def demo_def slabs_fit_def or_default_def MTPNDD_DEFAULT_EDGE_BUCKET_COUNT_def)
qed

lemma demo_info_hinv:
  assumes "set_mset E \<subseteq> {MTPNDD_TRUE, 64, 80}" shows "hinv tt_sylvan tt_model E demo_info"
proof -
  have "content demo_info = content demo" by (simp add: demo_info_def content_def fun_eq_iff)
  then have "sinv tt_sylvan tt_model demo_info = sinv tt_sylvan tt_model demo"
    by (rule sinv_cong) (simp_all add: demo_info_def)
  moreover have "refs_ok E demo_info = refs_ok E demo"
  proof -
    have "parents demo_info = parents demo" "internal demo_info = internal demo" "nodes demo_info = nodes demo"
      by (simp_all add: parents_def internal_def node_edges_def content_def demo_info_def fun_eq_iff)
    then show ?thesis unfolding refs_ok_def by (simp only:)
  qed
  moreover have "rinv demo_info = rinv demo" by (simp add: rinv_def bucket_cfg_ok_def demo_info_def)
  ultimately show ?thesis using demo_hinv[OF assms] by (simp add: hinv_def)
qed

lemma demo_info_content: "content demo_info p = content demo p"
  by (simp add: demo_info_def content_def)

lemma demo_info_layout: "layout_ok demo_info" "total_width demo_info < 53" "max_bit_width demo_info < 53"
  "infos_ok demo_info" "mtpndd_is_initialized demo_info" "boolean demo_info 64"
proof -
  have i: "field_count demo_info = 1" "max_bit_width demo_info = 2" "width demo_info 1 = 2"
    by (simp_all add: demo_info_def demo_def width_def)
  have one: "{Suc 0..Suc 0} = {Suc 0}" by auto
  show "layout_ok demo_info" "total_width demo_info < 53" "max_bit_width demo_info < 53" "infos_ok demo_info" "mtpndd_is_initialized demo_info"
    using i one by (simp_all add: layout_ok_def total_width_def infos_ok_def demo_info_def demo_def mtpndd_is_initialized_def)
  have "content demo_info 64 = Some (1, NEdges (var_map 200 x0))" by (simp add: demo_info_content demo_content)
  then show "boolean demo_info 64" by (rule boolean_node) (simp add: var_map_emap)
qed

lemma demo_info_valid: "valid_diagram tt_model demo_info 64"
proof -
  have "reach demo_info 64 \<subseteq> {64, MTPNDD_TRUE}"
    by (rule reach_least) (auto simp: child_def demo_info_content demo_content var_map_emap address_defs)
  moreover have "depends tt_model x0 = {0}" by (auto simp: depends_def x0_def)
  moreover have c: "content demo_info 64 = Some (1, NEdges (var_map 200 x0))"
    "content demo_info MTPNDD_TRUE = Some (MTPNDD_FRACTION_LEAF_FIELD_ID, NLeaf (mtpndd_pack_fraction 1 1))"
    by (simp_all add: demo_info_content demo_content)
  moreover have "field_vars demo_info 1 = {0..<2}" by (simp add: field_vars_def demo_info_def numeral_2_eq_2)
  ultimately have "valid_node tt_model demo_info 64" "valid_node tt_model demo_info MTPNDD_TRUE"
    by (simp_all add: valid_node_def var_map_emap)
  then show ?thesis using \<open>reach demo_info 64 \<subseteq> {64, MTPNDD_TRUE}\<close> by (auto simp: valid_diagram_def)
qed

lemma demo_hit_or: "mtpndd_or tt_sylvan 64 80 demo_hit = Some (96, demo_hit)" "mtpndd_is_initialized demo_hit"
  "both mtpndd_is_leaf demo_hit 64 80 = Some False"
proof -
  have "cache_ok (demo_cache\<lparr>oc_entries := replicate 16 \<lparr>oc_op0 = 64, oc_op1 = 80, oc_result = 96\<rparr>\<rparr>)"
    using is_pow2_power[of 4] by (simp add: cache_ok_def demo_cache_def kMtpnddOpCacheWriteLock_def)
  moreover have c: "or_cache demo_hit = Some (demo_cache\<lparr>oc_entries := replicate 16 \<lparr>oc_op0 = 64, oc_op1 = 80, oc_result = 96\<rparr>\<rparr>)"
    (is "_ = Some ?c") by (simp add: demo_hit_def)
  moreover have n: "nodes demo_hit 64 = Some (var_node 200 x0)" "nodes demo_hit 80 = Some (var_node 300 x1)" by (simp_all add: demo_hit_def demo_nodes)
  then obtain i where i: "mtpndd_op_cache_hash_binary_index demo_hit ?c 64 80 = Some i"
    by (simp add: mtpndd_op_cache_hash_binary_index_def mtpndd_hash_node_identity_def Let_def)
  ultimately have "i < 16" using binary_index_less[of ?c demo_hit 64 80 i] by simp
  then have "cache_slot ?c i = Some \<lparr>oc_op0 = 64, oc_op1 = 80, oc_result = 96\<rparr>" by (simp add: cache_slot_def)
  then have "mtpndd_op_cache_lookup_binary demo_hit (or_cache demo_hit) 64 80 = Some 96"
    using i by (simp add: mtpndd_op_cache_lookup_binary_def c kMtpnddOpCacheWriteLock_def) (simp add: demo_cache_def)
  then show "mtpndd_or tt_sylvan 64 80 demo_hit = Some (96, demo_hit)"
    by (simp add: mtpndd_or_def op_fuel_def or_body_def sort_operands_def mtpndd_is_true_def mtpndd_is_false_def address_defs)
  show "mtpndd_is_initialized demo_hit" by (simp add: demo_hit_def demo_def mtpndd_is_initialized_def)
  show "both mtpndd_is_leaf demo_hit 64 80 = Some False"
    by (simp add: both_def mtpndd_is_leaf_def n var_node_def MTPNDD_LEAF_FIELD_ID_MIN_def MTPNDD_DOUBLE_LEAF_FIELD_ID_def)
qed

lemma demo_info_widest: "first_widest demo_info 6" "total_width demo_info = 2"
proof -
  have "width demo_info 1 = 2" "max_bit_width demo_info = 2" "field_count demo_info = 1" by (simp_all add: demo_info_def demo_def width_def)
  then show "first_widest demo_info 6" "total_width demo_info = 2"
    using demo_info_layout(1) by (simp_all add: first_widest_def total_width_def)
qed

text \<open>The highest variable of the truth tables is in no field of the state.\<close>

definition x5 :: bdd where
  "x5 = sylvan_ithvar tt_sylvan 5"

definition tt_graph :: sylvan_graph where
  "tt_graph = \<lparr>sylvan_low = (\<lambda>w. tt_cofactor (hd (tt_vars_of w)) False w), mtbdd_isleaf = (\<lambda>w. w = 0 \<or> w = - 1)\<rparr>"

lemma x5_var: "sylvan_var tt_query x5 = 5" "x5 \<noteq> sylvan_false tt_sylvan" "x5 \<noteq> sylvan_true tt_sylvan"
proof -
  have sem: "bdd_sem tt_model x5 v \<longleftrightarrow> v 5" for v by (simp add: x5_def)
  have "tt_cofactor i True x5 \<noteq> tt_cofactor i False x5 \<longleftrightarrow> i = 5" for i
    unfolding tt_eq tt_cofactor_sem sem by auto
  then have "tt_vars_of x5 = filter (\<lambda>i. i = 5) [0..<6]" by (simp add: tt_vars_of_def)
  moreover have "filter (\<lambda>i. i = 5) [0..<6] = [5 :: nat]" by code_simp
  ultimately show "sylvan_var tt_query x5 = 5" by (simp add: tt_query_def)
qed (simp_all add: tt_sylvan_def x5_def)

end
