(* ===== verification/Cache_Interleave.thy ===== *)
theory Cache_Interleave
  imports Op_Cache
begin

text \<open>
  One slot of a binary operation cache under concurrent stores, clearings and lookups
  (\<open>mtpndd_operation_cache.c\<close>), with the memory orders of the source.  Every load, store and
  compare-exchange of the slot is one step of the thread that executes it, in any interleaving.

  Memory is not sequentially consistent.  Each of the three words of a slot keeps the history of the
  values written to it, and each thread has a view: for every word, the oldest entry of its history
  the thread may still read.  A load picks any entry that is not older than the view and moves the view
  there.  A store with \<open>memory_order_release\<close>, and the lock, attach the writer's view of the operands to
  the entry; a load with \<open>memory_order_acquire\<close> adds the attached view to the reader's.  A load or store
  with \<open>memory_order_relaxed\<close> does neither, so a lookup may read operands that are newer than both of its
  reads of the result.  The lock reads the newest entry of the result.  A writer appends to the
  histories: it holds the lock while it writes, and nobody else writes to a locked slot.
\<close>

section \<open>Threads and steps\<close>

text \<open>Where a thread is: the next access it executes, with the values it has so far.\<close>

datatype cache_pc =
  Idle
  | StLoad ptr ptr ptr
  | StCas ptr ptr ptr ptr
  | StOp0 ptr ptr ptr
  | StOp1 ptr ptr ptr
  | StPublish ptr ptr ptr
  | LkFirst ptr ptr
  | LkOp0 ptr ptr ptr
  | LkOp1 ptr ptr ptr ptr
  | LkLast ptr ptr ptr ptr ptr
  | LkDone ptr ptr ptr

type_synonym publication = "ptr \<times> ptr \<times> ptr"

record slot_view =
  v_res :: nat
  v_op0 :: nat
  v_op1 :: nat

record res_message =
  msg_val :: ptr
  msg_op0 :: nat
  msg_op1 :: nat

text \<open>The list of publications records the stores that are complete; no step reads it.\<close>

record slot_state =
  res_log :: "res_message list"
  op0_log :: "ptr list"
  op1_log :: "ptr list"
  pcs :: "nat \<Rightarrow> cache_pc"
  views :: "nat \<Rightarrow> slot_view"
  published :: "publication list"

text \<open>\<open>atomic_load_explicit(&entry->result, memory_order_acquire)\<close>, reading entry \<open>i\<close>.\<close>

definition load_result :: "nat \<Rightarrow> slot_view \<Rightarrow> slot_state \<Rightarrow> (ptr \<times> slot_view) option" where
  "load_result i v s =
     (if v_res v \<le> i \<and> i < length (res_log s)
      then let m = res_log s ! i
           in Some (msg_val m, \<lparr>v_res = i, v_op0 = max (v_op0 v) (msg_op0 m), v_op1 = max (v_op1 v) (msg_op1 m)\<rparr>)
      else None)"

text \<open>\<open>atomic_load_explicit(&entry->operands[k], memory_order_relaxed)\<close>, reading entry \<open>i\<close>.\<close>

definition load_op0 :: "nat \<Rightarrow> slot_view \<Rightarrow> slot_state \<Rightarrow> (ptr \<times> slot_view) option" where
  "load_op0 i v s =
     (if v_op0 v \<le> i \<and> i < length (op0_log s) then Some (op0_log s ! i, v\<lparr>v_op0 := i\<rparr>) else None)"

definition load_op1 :: "nat \<Rightarrow> slot_view \<Rightarrow> slot_state \<Rightarrow> (ptr \<times> slot_view) option" where
  "load_op1 i v s =
     (if v_op1 v \<le> i \<and> i < length (op1_log s) then Some (op1_log s ! i, v\<lparr>v_op1 := i\<rparr>) else None)"

text \<open>The relaxed stores of the operands and the release store of the result.\<close>

definition write_op0 :: "ptr \<Rightarrow> slot_view \<Rightarrow> slot_state \<Rightarrow> slot_view \<times> slot_state" where
  "write_op0 x v s = (v\<lparr>v_op0 := length (op0_log s)\<rparr>, s\<lparr>op0_log := op0_log s @ [x]\<rparr>)"

definition write_op1 :: "ptr \<Rightarrow> slot_view \<Rightarrow> slot_state \<Rightarrow> slot_view \<times> slot_state" where
  "write_op1 x v s = (v\<lparr>v_op1 := length (op1_log s)\<rparr>, s\<lparr>op1_log := op1_log s @ [x]\<rparr>)"

definition write_result :: "ptr \<Rightarrow> slot_view \<Rightarrow> slot_state \<Rightarrow> slot_view \<times> slot_state" where
  "write_result x v s =
     (v\<lparr>v_res := length (res_log s)\<rparr>,
      s\<lparr>res_log := res_log s @ [\<lparr>msg_val = x, msg_op0 = v_op0 v, msg_op1 = v_op1 v\<rparr>]\<rparr>)"

text \<open>
  The weak compare-exchange of the result for the write lock.  It succeeds when it reads the newest
  entry and finds the expected value there; it fails when it reads another entry, and it may fail for no
  reason, which is the choice of an index behind the history.
\<close>

definition exchange_lock :: "nat \<Rightarrow> ptr \<Rightarrow> slot_view \<Rightarrow> slot_state \<Rightarrow> (bool \<times> slot_view \<times> slot_state) option" where
  "exchange_lock i expected v s =
     (if i = length (res_log s) then Some (False, v, s)
      else case load_result i v s of
        None \<Rightarrow> None
      | Some (x, v) \<Rightarrow>
          if x = expected \<and> Suc i = length (res_log s)
          then let (v, s) = write_result kMtpnddOpCacheWriteLock v s in Some (True, v, s)
          else Some (False, v, s))"

text \<open>
  The next action of a store; \<open>StLoad\<close> and \<open>StCas\<close> are the loop of \<open>mtpndd_op_cache_lock_entry\<close>.  The index
  is the entry that a load reads.
\<close>

fun store_act :: "nat \<Rightarrow> cache_pc \<Rightarrow> slot_view \<Rightarrow> slot_state \<Rightarrow> (cache_pc \<times> slot_view \<times> slot_state) option" where
  "store_act i (StLoad lhs rhs r) v s =
     (case load_result i v s of
        None \<Rightarrow> None
      | Some (expected, v) \<Rightarrow>
          Some (if expected = kMtpnddOpCacheWriteLock then StLoad lhs rhs r else StCas lhs rhs r expected, v, s))"
| "store_act i (StCas lhs rhs r expected) v s =
     (case exchange_lock i expected v s of
        None \<Rightarrow> None
      | Some (ok, v, s) \<Rightarrow> Some (if ok then StOp0 lhs rhs r else StLoad lhs rhs r, v, s))"
| "store_act i (StOp0 lhs rhs r) v s = (let (v, s) = write_op0 lhs v s in Some (StOp1 lhs rhs r, v, s))"
| "store_act i (StOp1 lhs rhs r) v s = (let (v, s) = write_op1 rhs v s in Some (StPublish lhs rhs r, v, s))"
| "store_act i (StPublish lhs rhs r) v s =
     (let (v, s) = write_result r v s in Some (Idle, v, s\<lparr>published := published s @ [(lhs, rhs, r)]\<rparr>))"
| "store_act i pc v s = None"

text \<open>The next action of a lookup; the result of a miss is \<open>NULL\<close>.\<close>

fun lookup_act :: "nat \<Rightarrow> cache_pc \<Rightarrow> slot_view \<Rightarrow> slot_state \<Rightarrow> (cache_pc \<times> slot_view) option" where
  "lookup_act i (LkFirst lhs rhs) v s =
     (case load_result i v s of
        None \<Rightarrow> None
      | Some (res_before, v) \<Rightarrow>
          Some (if res_before = NULL \<or> res_before = kMtpnddOpCacheWriteLock then LkDone lhs rhs NULL
                else LkOp0 lhs rhs res_before, v))"
| "lookup_act i (LkOp0 lhs rhs res_before) v s =
     (case load_op0 i v s of None \<Rightarrow> None | Some (op0, v) \<Rightarrow> Some (LkOp1 lhs rhs res_before op0, v))"
| "lookup_act i (LkOp1 lhs rhs res_before op0) v s =
     (case load_op1 i v s of None \<Rightarrow> None | Some (op1, v) \<Rightarrow> Some (LkLast lhs rhs res_before op0 op1, v))"
| "lookup_act i (LkLast lhs rhs res_before op0 op1) v s =
     (case load_result i v s of
        None \<Rightarrow> None
      | Some (res_after, v) \<Rightarrow>
          Some (if res_before \<noteq> res_after \<or> res_after = NULL \<or> res_after = kMtpnddOpCacheWriteLock
                then LkDone lhs rhs NULL
                else LkDone lhs rhs (if op0 = lhs \<and> op1 = rhs then res_after else NULL), v))"
| "lookup_act i pc v s = None"

definition goto :: "nat \<Rightarrow> cache_pc \<Rightarrow> slot_view \<Rightarrow> slot_state \<Rightarrow> slot_state" where
  "goto t pc v s = s\<lparr>pcs := (pcs s)(t := pc), views := (views s)(t := v)\<rparr>"

text \<open>An action of a thread; a choice of an entry that the thread cannot read is no step.\<close>

definition thread_act :: "nat \<Rightarrow> nat \<Rightarrow> slot_state \<Rightarrow> slot_state" where
  "thread_act t i s =
     (case store_act i (pcs s t) (views s t) s of
        Some (pc, v, s') \<Rightarrow> goto t pc v s'
      | None \<Rightarrow> (case lookup_act i (pcs s t) (views s t) s of
                  Some (pc, v) \<Rightarrow> goto t pc v s
                | None \<Rightarrow> s))"

text \<open>What a thread may start: a store of a result that is not null, a clearing of the slot, a lookup.\<close>

definition call_ok :: "cache_pc \<Rightarrow> bool" where
  "call_ok pc \<longleftrightarrow> (case pc of
      StLoad lhs rhs r \<Rightarrow> r \<noteq> kMtpnddOpCacheWriteLock \<and> (r = NULL \<longrightarrow> lhs = NULL \<and> rhs = NULL)
    | LkFirst lhs rhs \<Rightarrow> True
    | _ \<Rightarrow> False)"

definition at_rest :: "cache_pc \<Rightarrow> bool" where
  "at_rest pc \<longleftrightarrow> (case pc of Idle \<Rightarrow> True | LkDone lhs rhs r \<Rightarrow> True | _ \<Rightarrow> False)"

inductive cache_step :: "slot_state \<Rightarrow> slot_state \<Rightarrow> bool" where
  call: "at_rest (pcs s t) \<Longrightarrow> call_ok pc \<Longrightarrow> cache_step s (goto t pc (views s t) s)"
| action: "cache_step s (thread_act t i s)"

definition fresh_slot :: slot_state where
  "fresh_slot = \<lparr>res_log = [\<lparr>msg_val = NULL, msg_op0 = 0, msg_op1 = 0\<rparr>], op0_log = [NULL], op1_log = [NULL],
     pcs = (\<lambda>_. Idle), views = (\<lambda>_. \<lparr>v_res = 0, v_op0 = 0, v_op1 = 0\<rparr>), published = []\<rparr>"

text \<open>The newest entry of the result is the write lock.\<close>

definition locked :: "slot_state \<Rightarrow> bool" where
  "locked s \<longleftrightarrow> msg_val (last (res_log s)) = kMtpnddOpCacheWriteLock"

section \<open>The invariant\<close>

fun owns :: "cache_pc \<Rightarrow> bool" where
  "owns (StOp0 a b r) = True"
| "owns (StOp1 a b r) = True"
| "owns (StPublish a b r) = True"
| "owns pc = False"

text \<open>Store number \<open>k\<close>, counted from zero, writes the entries \<open>k + 1\<close> of the operands.\<close>

definition written :: "nat \<Rightarrow> ptr list \<Rightarrow> ptr \<Rightarrow> bool" where
  "written k xs x \<longleftrightarrow> (\<exists>i. k < i \<and> i < length xs \<and> xs ! i = x)"

definition result_of :: "slot_state \<Rightarrow> nat \<Rightarrow> ptr" where
  "result_of s k = snd (snd (published s ! k))"

fun thread_inv :: "slot_state \<Rightarrow> slot_view \<Rightarrow> cache_pc \<Rightarrow> bool" where
  "thread_inv s v (StLoad a b r) \<longleftrightarrow> r \<noteq> kMtpnddOpCacheWriteLock"
| "thread_inv s v (StCas a b r x) \<longleftrightarrow> r \<noteq> kMtpnddOpCacheWriteLock \<and> x \<noteq> kMtpnddOpCacheWriteLock"
| "thread_inv s v (StOp0 a b r) \<longleftrightarrow> r \<noteq> kMtpnddOpCacheWriteLock
     \<and> length (op0_log s) = Suc (length (published s)) \<and> length (op1_log s) = Suc (length (published s))"
| "thread_inv s v (StOp1 a b r) \<longleftrightarrow> r \<noteq> kMtpnddOpCacheWriteLock
     \<and> length (op0_log s) = Suc (Suc (length (published s))) \<and> length (op1_log s) = Suc (length (published s))
     \<and> last (op0_log s) = a \<and> length (published s) < v_op0 v"
| "thread_inv s v (StPublish a b r) \<longleftrightarrow> r \<noteq> kMtpnddOpCacheWriteLock
     \<and> length (op0_log s) = Suc (Suc (length (published s))) \<and> length (op1_log s) = Suc (Suc (length (published s)))
     \<and> last (op0_log s) = a \<and> last (op1_log s) = b \<and> length (published s) < v_op0 v \<and> length (published s) < v_op1 v"
| "thread_inv s v (LkOp0 a b r) \<longleftrightarrow> (\<exists>k<length (published s). result_of s k = r \<and> k < v_op0 v \<and> k < v_op1 v)"
| "thread_inv s v (LkOp1 a b r x) \<longleftrightarrow>
     (\<exists>k<length (published s). result_of s k = r \<and> written k (op0_log s) x \<and> k < v_op1 v)"
| "thread_inv s v (LkLast a b r x y) \<longleftrightarrow>
     (\<exists>k<length (published s). result_of s k = r \<and> written k (op0_log s) x \<and> written k (op1_log s) y)"
| "thread_inv s v (LkDone a b r) \<longleftrightarrow>
     (r \<noteq> NULL \<longrightarrow> (\<exists>k<length (published s). result_of s k = r \<and> written k (op0_log s) a \<and> written k (op1_log s) b))"
| "thread_inv s v pc \<longleftrightarrow> True"

text \<open>An entry of the result that a lookup accepts carries a view of the operands stored with it.\<close>

definition message_ok :: "slot_state \<Rightarrow> res_message \<Rightarrow> bool" where
  "message_ok s m \<longleftrightarrow> msg_val m = NULL \<or> msg_val m = kMtpnddOpCacheWriteLock
     \<or> (\<exists>k<length (published s). result_of s k = msg_val m \<and> k < msg_op0 m \<and> k < msg_op1 m)"

definition logs_ok :: "slot_state \<Rightarrow> bool" where
  "logs_ok s \<longleftrightarrow> (\<forall>k<length (published s).
     Suc k < length (op0_log s) \<and> Suc k < length (op1_log s)
     \<and> fst (published s ! k) = op0_log s ! Suc k \<and> fst (snd (published s ! k)) = op1_log s ! Suc k)"

definition slot_inv :: "slot_state \<Rightarrow> bool" where
  "slot_inv s \<longleftrightarrow> res_log s \<noteq> [] \<and> logs_ok s \<and> (\<forall>m\<in>set (res_log s). message_ok s m)
     \<and> (\<forall>t. owns (pcs s t) \<longrightarrow> locked s) \<and> (locked s \<longrightarrow> (\<exists>t. owns (pcs s t)))
     \<and> (\<forall>t u. owns (pcs s t) \<longrightarrow> owns (pcs s u) \<longrightarrow> t = u)
     \<and> (\<not> locked s \<longrightarrow> length (op0_log s) = Suc (length (published s)) \<and> length (op1_log s) = Suc (length (published s)))
     \<and> (\<forall>t. thread_inv s (views s t) (pcs s t))"

text \<open>The histories only grow, and what the threads that hold no lock rely on survives that.\<close>

definition extends :: "slot_state \<Rightarrow> slot_state \<Rightarrow> bool" where
  "extends s s' \<longleftrightarrow> (\<exists>ps xs ys. published s' = published s @ ps \<and> op0_log s' = op0_log s @ xs \<and> op1_log s' = op1_log s @ ys)"

lemma written_append: "written k xs x \<Longrightarrow> written k (xs @ ys) x"
  unfolding written_def by (metis length_append nth_append trans_less_add1)

lemma extends_result: "extends s s' \<Longrightarrow> k < length (published s) \<Longrightarrow> k < length (published s') \<and> result_of s' k = result_of s k"
  by (auto simp: extends_def result_of_def nth_append)

lemma thread_inv_extends:
  assumes "thread_inv s v pc" "\<not> owns pc" "extends s s'"
  shows "thread_inv s' v pc"
proof -
  have w: "written k (op0_log s) x \<Longrightarrow> written k (op0_log s') x" "written k (op1_log s) x \<Longrightarrow> written k (op1_log s') x" for k x
    using assms(3) written_append by (auto simp: extends_def)
  note r = extends_result[OF assms(3)]
  show ?thesis
  proof (cases pc)
    case (LkOp0 a b x)
    then show ?thesis using assms(1) by simp (metis r)
  next
    case (LkOp1 a b x y)
    then show ?thesis using assms(1) by simp (metis r w)
  next
    case (LkLast a b x y z)
    then show ?thesis using assms(1) by simp (metis r w)
  next
    case (LkDone a b x)
    then show ?thesis using assms(1) by simp (metis r w)
  qed (use assms(1,2) in auto)
qed

lemma message_ok_extends: "message_ok s m \<Longrightarrow> extends s s' \<Longrightarrow> message_ok s' m"
  unfolding message_ok_def using extends_result by metis

text \<open>A step that leaves the histories alone and does not touch the lock.\<close>

lemma goto_inv:
  assumes "slot_inv s" "\<not> owns (pcs s t)" "\<not> owns pc" "thread_inv s v pc"
  shows "slot_inv (goto t pc v s)"
proof -
  have eq: "res_log (goto t pc v s) = res_log s" "op0_log (goto t pc v s) = op0_log s" "op1_log (goto t pc v s) = op1_log s"
    "published (goto t pc v s) = published s" by (simp_all add: goto_def)
  have ti: "thread_inv (goto t pc v s) w q = thread_inv s w q" for w q by (cases q) (simp_all add: eq result_of_def)
  have own: "owns (pcs (goto t pc v s) u) \<longleftrightarrow> owns (pcs s u)" for u using assms(2,3) by (simp add: goto_def)
  have th: "thread_inv s (views (goto t pc v s) u) (pcs (goto t pc v s) u)" for u
    using assms(1,4) by (simp add: goto_def slot_inv_def)
  have "message_ok (goto t pc v s) = message_ok s" "logs_ok (goto t pc v s) = logs_ok s" "locked (goto t pc v s) = locked s"
    by (simp_all add: fun_eq_iff message_ok_def logs_ok_def locked_def result_of_def eq)
  then show ?thesis unfolding slot_inv_def eq own ti using assms(1) th by (simp add: slot_inv_def)
qed

text \<open>A step of the thread that takes or holds the lock.\<close>

lemma writer_inv:
  assumes inv: "slot_inv s" and others: "\<And>u. u \<noteq> t \<Longrightarrow> \<not> owns (pcs s u)" and ext: "extends s s'"
    and res: "res_log s' \<noteq> []" "\<forall>m\<in>set (res_log s'). m \<in> set (res_log s) \<or> message_ok s' m" and logs: "logs_ok s'"
    and lock: "owns pc \<longleftrightarrow> locked s'"
    and free: "\<not> locked s' \<Longrightarrow> length (op0_log s') = Suc (length (published s')) \<and> length (op1_log s') = Suc (length (published s'))"
    and ti: "thread_inv s' v pc" and same: "pcs s' = pcs s" "views s' = views s"
  shows "slot_inv (goto t pc v s')"
proof -
  let ?s = "goto t pc v s'"
  have eq: "res_log ?s = res_log s'" "op0_log ?s = op0_log s'" "op1_log ?s = op1_log s'" "published ?s = published s'"
    by (simp_all add: goto_def)
  have tq: "thread_inv ?s w q = thread_inv s' w q" for w q by (cases q) (simp_all add: eq result_of_def)
  have p: "pcs ?s u = (if u = t then pc else pcs s u)" "views ?s u = (if u = t then v else views s u)" for u
    by (simp_all add: goto_def same)
  have th: "thread_inv ?s (views ?s u) (pcs ?s u)" for u
    using ti thread_inv_extends[OF _ others ext] inv unfolding p tq by (simp add: slot_inv_def)
  have own: "owns (pcs ?s u) \<longleftrightarrow> u = t \<and> locked s'" for u using others lock unfolding p by auto
  have "message_ok s' m" if "m \<in> set (res_log s')" for m
    using that res(2) message_ok_extends[OF _ ext] inv unfolding slot_inv_def by blast
  moreover have "message_ok ?s = message_ok s'" "logs_ok ?s = logs_ok s'" "locked ?s = locked s'"
    by (simp_all add: fun_eq_iff message_ok_def logs_ok_def locked_def result_of_def eq)
  ultimately show ?thesis unfolding slot_inv_def own eq using th res(1) logs free by auto
qed

lemma inv_parts:
  assumes "slot_inv s"
  shows "res_log s \<noteq> []" "logs_ok s" "\<And>m. m \<in> set (res_log s) \<Longrightarrow> message_ok s m" "\<And>t. owns (pcs s t) \<Longrightarrow> locked s"
    "locked s \<Longrightarrow> \<exists>t. owns (pcs s t)" "\<And>t u. owns (pcs s t) \<Longrightarrow> owns (pcs s u) \<Longrightarrow> t = u"
    "\<And>t. thread_inv s (views s t) (pcs s t)"
    "\<not> locked s \<Longrightarrow> length (op0_log s) = Suc (length (published s)) \<and> length (op1_log s) = Suc (length (published s))"
  using assms unfolding slot_inv_def by blast+

lemma logs_ok_append: "logs_ok s \<Longrightarrow> logs_ok (s\<lparr>op0_log := op0_log s @ xs, op1_log := op1_log s @ ys\<rparr>)"
  by (auto simp: logs_ok_def nth_append)

text \<open>The four steps that write: the lock, the two operands, the publication.\<close>

lemma lock_inv:
  assumes inv: "slot_inv s" and pc: "pcs s t = StCas a b r x" and last: "msg_val (last (res_log s)) = x"
  shows "slot_inv (goto t (StOp0 a b r) w (snd (write_result kMtpnddOpCacheWriteLock v s)))"
proof -
  note I = inv_parts[OF inv]
  have x: "x \<noteq> kMtpnddOpCacheWriteLock" "r \<noteq> kMtpnddOpCacheWriteLock" using I(7)[of t] pc by auto
  have free: "\<not> locked s" using last x(1) by (simp add: locked_def)
  then have "\<not> owns (pcs s u)" for u using I(4) by blast
  then show ?thesis
    using I(1,2) I(8)[OF free] x(2)
    by (intro writer_inv[OF inv])
      (auto simp: extends_def write_result_def message_ok_def locked_def logs_ok_def)
qed

lemma op0_inv:
  assumes inv: "slot_inv s" and pc: "pcs s t = StOp0 a b r"
  shows "slot_inv (goto t (StOp1 a b r) (fst (write_op0 a v s)) (snd (write_op0 a v s)))"
proof -
  note I = inv_parts[OF inv]
  have t: "locked s" "\<And>u. u \<noteq> t \<Longrightarrow> \<not> owns (pcs s u)" using I(4)[of t] I(6)[of t] pc by auto
  have "thread_inv s (views s t) (StOp0 a b r)" using I(7)[of t] pc by simp
  then show ?thesis
    using I(1,2) t(1) logs_ok_append[OF I(2), where xs = "[a]" and ys = "[]"]
    by (intro writer_inv[OF inv t(2)]) (auto simp: extends_def write_op0_def locked_def)
qed

lemma op1_inv:
  assumes inv: "slot_inv s" and pc: "pcs s t = StOp1 a b r"
  shows "slot_inv (goto t (StPublish a b r) (fst (write_op1 b (views s t) s)) (snd (write_op1 b (views s t) s)))"
proof -
  note I = inv_parts[OF inv]
  have t: "locked s" "\<And>u. u \<noteq> t \<Longrightarrow> \<not> owns (pcs s u)" using I(4)[of t] I(6)[of t] pc by auto
  have "thread_inv s (views s t) (StOp1 a b r)" using I(7)[of t] pc by simp
  then show ?thesis
    using I(1,2) t(1) logs_ok_append[OF I(2), where xs = "[]" and ys = "[b]"]
    by (intro writer_inv[OF inv t(2)]) (auto simp: extends_def write_op1_def locked_def)
qed

lemma publish_inv:
  assumes inv: "slot_inv s" and pc: "pcs s t = StPublish a b r"
  shows "slot_inv (goto t Idle w (snd (write_result r (views s t) s)\<lparr>published := published s @ [(a, b, r)]\<rparr>))"
proof -
  let ?s = "snd (write_result r (views s t) s)\<lparr>published := published s @ [(a, b, r)]\<rparr>" and ?n = "length (published s)"
  note I = inv_parts[OF inv]
  have t: "\<And>u. u \<noteq> t \<Longrightarrow> \<not> owns (pcs s u)" using I(6)[of t] pc by auto
  have T: "thread_inv s (views s t) (StPublish a b r)" using I(7)[of t] pc by simp
  have l: "op0_log s ! Suc ?n = a" "op1_log s ! Suc ?n = b"
    using T last_conv_nth[of "op0_log s"] last_conv_nth[of "op1_log s"] by force+
  have logs: "logs_ok ?s" using I(2) T l by (auto simp: logs_ok_def write_result_def nth_append less_Suc_eq)
  have "result_of ?s ?n = r" by (simp add: result_of_def write_result_def)
  then have m: "message_ok ?s \<lparr>msg_val = r, msg_op0 = v_op0 (views s t), msg_op1 = v_op1 (views s t)\<rparr>"
    using T unfolding message_ok_def by (auto simp: write_result_def intro!: exI[of _ ?n])
  show ?thesis
  proof (rule writer_inv[OF inv t _ _ _ logs])
    show "extends s ?s" by (auto simp: extends_def write_result_def)
    show "res_log ?s \<noteq> []" "pcs ?s = pcs s" "views ?s = views s" by (simp_all add: write_result_def)
    show "\<forall>m\<in>set (res_log ?s). m \<in> set (res_log s) \<or> message_ok ?s m" using m by (simp add: write_result_def)
    show "owns Idle = locked ?s" using T by (simp add: write_result_def locked_def)
    show "length (op0_log ?s) = Suc (length (published ?s)) \<and> length (op1_log ?s) = Suc (length (published ?s))"
      using T by (simp add: write_result_def)
  qed simp_all
qed

lemma store_step_inv:
  assumes inv: "slot_inv s" and st: "store_act i (pcs s t) (views s t) s = Some (pc, v, s')"
  shows "slot_inv (goto t pc v s')"
proof (cases "pcs s t")
  case (StLoad a b r)
  obtain x v1 where "load_result i (views s t) s = Some (x, v1)"
    using st StLoad by (cases "load_result i (views s t) s") auto
  then have p: "pc = (if x = kMtpnddOpCacheWriteLock then StLoad a b r else StCas a b r x)" "s' = s"
    using st StLoad by simp_all
  have "r \<noteq> kMtpnddOpCacheWriteLock" using inv_parts(7)[OF inv, of t] StLoad by simp
  then have "thread_inv s v pc" "\<not> owns pc" "\<not> owns (pcs s t)" using p(1) StLoad by simp_all
  then show ?thesis using goto_inv[OF inv] p(2) by blast
next
  case (StCas a b r x)
  then obtain ok v1 s1 where e: "exchange_lock i x (views s t) s = Some (ok, v1, s1)"
    "pc = (if ok then StOp0 a b r else StLoad a b r)" "v = v1" "s' = s1"
    using st by (auto split: option.splits)
  show ?thesis
  proof (cases ok)
    case True
    then obtain y w where l: "load_result i (views s t) s = Some (y, w)" "y = x" "Suc i = length (res_log s)"
      "s1 = snd (write_result kMtpnddOpCacheWriteLock w s)"
      using e(1) by (auto simp: exchange_lock_def write_result_def split: if_splits option.splits)
    have "length (res_log s) - 1 = i" using l(3) by simp
    then have "msg_val (last (res_log s)) = x"
      using l(1,2) last_conv_nth[OF inv_parts(1)[OF inv]] by (auto simp: load_result_def Let_def split: if_splits)
    then show ?thesis using lock_inv[OF inv StCas] e l(4) True by auto
  next
    case False
    then have "s1 = s" using e(1)
      by (auto simp: exchange_lock_def write_result_def Let_def split: if_splits option.splits)
    then show ?thesis using goto_inv[OF inv, of t pc v] e False StCas inv_parts(7)[OF inv, of t] by simp
  qed
next
  case (StOp0 a b r)
  then show ?thesis using op0_inv[OF inv StOp0] st by (auto simp: write_op0_def)
next
  case (StOp1 a b r)
  then show ?thesis using op1_inv[OF inv StOp1] st by (auto simp: write_op1_def)
next
  case (StPublish a b r)
  then show ?thesis using publish_inv[OF inv StPublish] st by (auto simp: write_result_def)
qed (use st in auto)

text \<open>A step of a lookup: what it reads is not older than the publication its first read saw.\<close>

lemma lookup_act_inv:
  assumes inv: "slot_inv s" and lk: "lookup_act i (pcs s t) (views s t) s = Some (pc, v)"
  shows "thread_inv s v pc" "\<not> owns pc" "\<not> owns (pcs s t)"
proof -
  show "\<not> owns pc" "\<not> owns (pcs s t)" using lk by (cases "pcs s t"; auto split: option.splits if_splits)+
  have T: "thread_inv s (views s t) (pcs s t)" by (rule inv_parts(7)[OF inv])
  show "thread_inv s v pc"
  proof (cases "pcs s t")
    case (LkFirst a b)
    show ?thesis
    proof (cases "i < length (res_log s)")
      case True
      then have "message_ok s (res_log s ! i)" using inv_parts(3)[OF inv] by simp
      then show ?thesis using lk LkFirst
        by (fastforce simp: load_result_def message_ok_def Let_def split: if_splits)
    qed (use lk LkFirst in \<open>simp add: load_result_def\<close>)
  next
    case (LkOp0 a b r)
    obtain k where k: "k < length (published s)" "result_of s k = r" "k < v_op0 (views s t)" "k < v_op1 (views s t)"
      using T LkOp0 by auto
    moreover have "pc = LkOp1 a b r (op0_log s ! i)" "v_op0 (views s t) \<le> i" "i < length (op0_log s)" "v_op1 v = v_op1 (views s t)"
      using lk LkOp0 by (auto simp: load_op0_def split: if_splits)
    ultimately have "written k (op0_log s) (op0_log s ! i)" by (auto simp: written_def intro!: exI[of _ i])
    then show ?thesis using k \<open>pc = LkOp1 a b r (op0_log s ! i)\<close> \<open>v_op1 v = v_op1 (views s t)\<close> by auto
  next
    case (LkOp1 a b r x)
    obtain k where k: "k < length (published s)" "result_of s k = r" "written k (op0_log s) x" "k < v_op1 (views s t)"
      using T LkOp1 by auto
    moreover have "pc = LkLast a b r x (op1_log s ! i)" "v_op1 (views s t) \<le> i" "i < length (op1_log s)"
      using lk LkOp1 by (auto simp: load_op1_def split: if_splits)
    ultimately have "written k (op1_log s) (op1_log s ! i)" by (auto simp: written_def intro!: exI[of _ i])
    then show ?thesis using k \<open>pc = LkLast a b r x (op1_log s ! i)\<close> by auto
  next
    case (LkLast a b r x y)
    then show ?thesis using lk T by (auto split: option.splits if_splits)
  qed (use lk in auto)
qed

lemma cache_step_inv:
  assumes "cache_step s s'" "slot_inv s"
  shows "slot_inv s'"
  using assms
proof (induction rule: cache_step.induct)
  case (call s t pc)
  have "\<not> owns (pcs s t)" using call(1) by (cases "pcs s t") (simp_all add: at_rest_def)
  moreover have "\<not> owns pc" "thread_inv s (views s t) pc" using call(2) by (cases pc; simp add: call_ok_def)+
  ultimately show ?case using goto_inv[OF call(3)] by blast
next
  case (action s t i)
  show ?case
  proof (cases "store_act i (pcs s t) (views s t) s")
    case (Some x)
    then show ?thesis using store_step_inv[OF action] by (cases x) (simp add: thread_act_def)
  next
    case st: None
    show ?thesis
    proof (cases "lookup_act i (pcs s t) (views s t) s")
      case None
      then show ?thesis using st action by (simp add: thread_act_def)
    next
      case (Some x)
      then show ?thesis using goto_inv[OF action] lookup_act_inv[OF action] st by (cases x) (simp add: thread_act_def)
    qed
  qed
qed

lemma reachable_inv:
  assumes "cache_step\<^sup>*\<^sup>* fresh_slot s"
  shows "slot_inv s"
  using assms
proof (induction rule: rtranclp_induct)
  case base
  show ?case
    by (simp add: slot_inv_def fresh_slot_def logs_ok_def message_ok_def locked_def kMtpnddOpCacheWriteLock_def)
qed (rule cache_step_inv)

section \<open>Schedules\<close>

text \<open>A schedule: at every step a thread either starts a call or takes its next action on the entry chosen.\<close>

fun run_schedule :: "(nat \<times> (cache_pc + nat)) list \<Rightarrow> slot_state \<Rightarrow> slot_state option" where
  "run_schedule [] s = Some s"
| "run_schedule ((t, Inl pc) # es) s =
     (if at_rest (pcs s t) \<and> call_ok pc then run_schedule es (goto t pc (views s t) s) else None)"
| "run_schedule ((t, Inr i) # es) s = run_schedule es (thread_act t i s)"

lemma run_schedule_steps:
  assumes "run_schedule es s = Some s'"
  shows "cache_step\<^sup>*\<^sup>* s s'"
  using assms
proof (induction es s rule: run_schedule.induct)
  case (2 t pc es s)
  then show ?case by (auto split: if_splits intro: converse_rtranclp_into_rtranclp cache_step.call)
next
  case (3 t i es s)
  then show ?case by (auto intro: converse_rtranclp_into_rtranclp cache_step.action)
qed simp

text \<open>A store that finds the slot unlocked, with \<open>n\<close> entries in the history of the result.\<close>

definition store_run :: "nat \<Rightarrow> ptr \<Rightarrow> ptr \<Rightarrow> ptr \<Rightarrow> nat \<Rightarrow> (nat \<times> (cache_pc + nat)) list" where
  "store_run t a b r n = [(t, Inl (StLoad a b r)), (t, Inr (n - 1)), (t, Inr (n - 1)), (t, Inr 0), (t, Inr 0), (t, Inr 0)]"

text \<open>
  Two stores with the same result and a lookup that reads one operand of each.
\<close>

definition torn_schedule :: "ptr \<Rightarrow> ptr \<Rightarrow> ptr \<Rightarrow> ptr \<Rightarrow> ptr \<Rightarrow> (nat \<times> (cache_pc + nat)) list" where
  "torn_schedule a b c d r =
     store_run 0 a b r 1 @ [(2, Inl (LkFirst a d)), (2, Inr 2), (2, Inr 1)]
     @ store_run 1 c d r 3 @ [(2, Inr 2), (2, Inr 4)]"

text \<open>
  A lookup that reads an operand of a store under way and then, still, the result from before it: the
  relaxed load of the operand does not make the lock visible.
\<close>

definition stale_schedule :: "ptr \<Rightarrow> ptr \<Rightarrow> ptr \<Rightarrow> ptr \<Rightarrow> ptr \<Rightarrow> ptr \<Rightarrow> (nat \<times> (cache_pc + nat)) list" where
  "stale_schedule a b c d r r' =
     store_run 0 a b r 1 @ [(2, Inl (LkFirst a d)), (2, Inr 2), (2, Inr 1)]
     @ butlast (store_run 1 c d r' 3) @ [(2, Inr 2), (2, Inr 2)]"

lemmas schedule_simps = store_run_def fresh_slot_def at_rest_def call_ok_def thread_act_def goto_def
  load_result_def load_op0_def load_op1_def write_op0_def write_op1_def write_result_def exchange_lock_def
  Let_def kMtpnddOpCacheWriteLock_def

lemma torn_run:
  assumes "r \<noteq> NULL" "r \<noteq> kMtpnddOpCacheWriteLock"
  shows "\<exists>s. run_schedule (torn_schedule a b c d r) fresh_slot = Some s \<and> pcs s 2 = LkDone a d r
     \<and> published s = [(a, b, r), (c, d, r)]"
  using assms by (simp add: torn_schedule_def schedule_simps numeral_2_eq_2 numeral_3_eq_3)

lemma stale_run:
  assumes "r \<noteq> NULL" "r \<noteq> kMtpnddOpCacheWriteLock" "r' \<noteq> NULL" "r' \<noteq> kMtpnddOpCacheWriteLock"
  shows "\<exists>s. run_schedule (stale_schedule a b c d r r') fresh_slot = Some s \<and> pcs s 1 = StPublish c d r' \<and> pcs s 2 = LkDone a d r
     \<and> published s = [(a, b, r)]"
  using assms by (simp add: stale_schedule_def schedule_simps numeral_2_eq_2 numeral_3_eq_3)

text \<open>The owner of a locked slot releases it with its next three actions, whatever they read.\<close>

lemma owner_releases:
  assumes "slot_inv s" "owns (pcs s t)"
  shows "\<exists>k\<le>3. \<forall>i. \<not> locked ((thread_act t i ^^ k) s)"
proof -
  have ti: "thread_inv s (views s t) (pcs s t)" using assms(1) by (rule inv_parts(7))
  note simps = thread_act_def goto_def write_op0_def write_op1_def write_result_def locked_def
  consider a b r where "pcs s t = StOp0 a b r" | a b r where "pcs s t = StOp1 a b r" | a b r where "pcs s t = StPublish a b r"
    using assms(2) by (cases "pcs s t") auto
  then show ?thesis
  proof cases
    case 1
    then show ?thesis using ti by (intro exI[of _ 3]) (simp add: simps numeral_3_eq_3)
  next
    case 2
    then show ?thesis using ti by (intro exI[of _ 2]) (simp add: simps numeral_2_eq_2)
  next
    case 3
    then show ?thesis using ti by (intro exI[of _ 1]) (simp add: simps)
  qed
qed

end
