(* ===== verification/Spec2Isabelle.thy ===== *)
theory Spec2Isabelle
  imports Demo_State Cache_Interleave
begin

text \<open>
  Verification of the MTPNDD library (\<open>src/mtpndd\<close>): multi-terminal parallel network decision
  diagrams in C on top of the BDD package Sylvan and the task scheduler Lace.

  \<^bold>\<open>The program.\<close>  A diagram is a directed graph of nodes.  An internal node belongs to a field
  \<open>1 .. field_count\<close> and has an edge map: a chained hash map from child nodes to BDD labels over the
  bits of the field.  Leaves hold a packed fraction or a double; TRUE and FALSE are the leaves 1/1
  and 0/1.  Nodes are unique: \<open>mtpndd_mk\<close> looks an edge map up in the table of its field before it
  makes a node, and equality of diagrams is equality of pointers.  Internal nodes are reference
  counted; when the tables are full \<open>gcOrGrow\<close> sweeps the unreferenced ones, clears the operation
  caches, sweeps unused leaves and grows the tables.  The Boolean operations are recursive Lace
  tasks with result caches; what they build is protected from a collection by a stack of temporary
  references.  All objects come from slab pools.

  \<^bold>\<open>The model.\<close>  \<open>MTPNDD_State\<close> has one record \<open>mstate\<close> for the global variables and the heap: a map from
  addresses to nodes, the pools, the tables, the caches, the last error and a bump allocator with a
  limit.  A C function is a function on this state in the option monad.  \<open>None\<close> is a run the C
  program cannot make sense of (a dereference of a null or freed pointer, an index out of range) or
  fuel that has run out; every error of the source is a value: a \<open>NULL\<close> result and the last error,
  or a status code.  Allocation may fail at any point: the limit of the allocator is arbitrary and
  \<open>mem_failed\<close> records that it was hit.  Reference counts and hashes are machine words.

  The theories, from the bottom:
  \<^item> \<open>MTPNDD_Prelude\<close>, \<open>MTPNDD_State\<close>: the option monad, the state, errors, hashing
    (\<open>mtpndd_common.h\<close>, \<open>mtpndd_node.h\<close>).
  \<^item> \<open>Sylvan_Interface\<close>: Sylvan is not part of the repository.  Its operations are the record \<open>sylvan\<close>,
    its documented behaviour the locale \<open>sylvan_laws\<close>, its instance the truth tables \<open>tt_sylvan\<close>.
  \<^item> \<open>Memory_Pool\<close> (\<open>mtpndd_memory_pool.c\<close>): the slab pools; interface \<open>object_pool\<close>.
  \<^item> \<open>Ref_Count\<close>: \<open>mtpndd_ref\<close> and its companions, the stack of temporary references.
  \<^item> \<open>Edge_Map\<close>: the edge maps of \<open>mtpndd_node.c\<close>; interface \<open>label_map\<close>.
  \<^item> \<open>Op_Cache\<close> (\<open>mtpndd_operation_cache.c\<close>): the caches; interface \<open>memo_table\<close>.  \<open>Cache_Interleave\<close>: concurrent
    stores and lookups on one slot under the memory orders of the source.
  \<^item> \<open>Leaf_Value\<close>, \<open>Leaf_Table\<close> (\<open>mtpndd_leaf.c\<close>, \<open>mtpndd_leaf_table.c\<close>, the leaf helpers of
    \<open>mtpndd_arith.c\<close>): fractions, the tables of leaves and their collection.
  \<^item> \<open>Node_Table\<close> (\<open>mtpndd_nodetable.c\<close>): the unique tables, the sweep, \<open>gcOrGrow\<close>, \<open>mtpndd_mk\<close>.
  \<^item> \<open>Heap_Invariant\<close>: the invariant \<open>hinv S M E s\<close>.  Every node is well formed and reduced, has later
    fields below it and is in the table of its field exactly once; no two nodes have the same
    edges; the reference count of an internal node is at least the number of its parents plus the
    references \<open>E\<close> that the program and the temporary stack hold; the pools own what is not in use.
    \<open>keeps E s s'\<close>: the nodes reachable from \<open>E\<close> or protected have not changed.
  \<^item> \<open>Sweep_Correct\<close>, \<open>Leaf_Gc_Correct\<close>, \<open>Gc_Correct\<close>, \<open>Mk_Correct\<close>: collection and \<open>mtpndd_mk\<close> keep it.
  \<^item> \<open>Diagram_Semantics\<close>: \<open>holds M s env p\<close>, the Boolean function of a node, and canonicity.
  \<^item> \<open>Bool_Ops\<close>: AND, OR, NOT, difference, quantification, the batch and reduce forms, as definitions.
  \<^item> \<open>Bool_Build\<close>, \<open>Task_Loop\<close>, \<open>Op_Close\<close>, \<open>Item_Task\<close>, \<open>Residual_Map\<close>: the steps the three operations
    share (the map under construction, the loop that spawns and drains tasks, the closing \<open>mtpndd_mk\<close>,
    one task, the residual labels), each with its contract.
  \<^item> \<open>And_Correct\<close>, \<open>Or_Correct\<close>, \<open>Not_Correct\<close>: the three recursions refine conjunction,
    disjunction and complement; \<open>Bool_Laws\<close>: the wrappers and the derived operations.
  \<^item> \<open>Engine\<close> (\<open>mtpndd_common.c\<close>): \<open>mtpndd_init\<close>, declaration and generation of fields, the accessors and
    \<open>mtpndd_quit\<close>, as definitions.  \<open>Engine_Init\<close>: initialisation establishes the invariants.
    \<open>Setup_Frame\<close>: what \<open>mtpndd_mk\<close> and all below it leave alone.  \<open>Engine_Fields\<close>, \<open>Engine_Vars\<close>: generation
    gives every bit its two variable nodes.  \<open>Engine_Quit\<close>: shutdown returns to the initial state.
  \<^item> \<open>Arith_Ops\<close> (\<open>mtpndd_arith.c\<close>): negation, addition, subtraction, multiplication, division and
    \<open>mtpndd_abstract_plus\<close>, as definitions.  The arithmetic of doubles is the record \<open>double_ops\<close>, the
    functions of Sylvan that read a BDD are the record \<open>sylvan_query\<close>.  \<open>Arith_Cache\<close>: addition finds
    what OR has left in its cache.
  \<^item> \<open>Diagram_Walk\<close> (\<open>mtpndd_arith.c\<close>): \<open>mtpndd_leafcount\<close> and \<open>mtpndd_abstract_plus_validate\<close> with their
    visited sets; the walk visits every reachable node once.  \<open>Validate_Correct\<close>: the validator decides
    whether all labels depend on the variables of their fields; interface \<open>sylvan_support\<close>.
  \<^item> \<open>Exact_Double\<close>: what is exact in binary64 below \<open>2 ^ 53\<close>, as the interface \<open>exact_doubles\<close>.
    \<open>Sat_Count\<close> (\<open>mtpndd_node.c\<close>): \<open>mtpndd_satcount\<close>.  \<open>Sat_Correct\<close>: it counts the satisfying
    assignments; interface \<open>sylvan_counting\<close>.
  \<^item> \<open>Convert_Cache\<close> (\<open>mtpndd_node.c\<close>): the two caches of the conversion to and from BDDs, hash tables with
    linear probing; interface \<open>probe_memo\<close>.  \<open>Convert_Ops\<close>: the conversions and the count on the BDD, as
    definitions.  \<open>Convert_Correct\<close>: the BDD of a diagram denotes the function of the diagram; interface
    \<open>sylvan_substitution\<close>.  \<open>Convert_Count\<close>: both ways to count agree.
  \<^item> \<open>Dot_Output\<close> (\<open>mtpndd_node.c\<close>): the text of the DOT output.
  \<^item> \<open>Demo_State\<close>: a concrete state that satisfies the invariant, where the theorems are applied.
  \<^item> This theory: the properties that span components.

  \<^bold>\<open>Fuel.\<close>  \<open>mtpndd_and_rec\<close>, \<open>mtpndd_or_rec\<close>, \<open>mtpndd_not_rec\<close> and \<open>mtpndd_exist_rec\<close> take fuel.  Each call
  goes to a later field, so \<open>op_fuel\<close>, the number of fields plus two, is enough; that the operations
  return is part of the theorems.  The recursions of \<open>Arith_Ops\<close>, \<open>Diagram_Walk\<close>, \<open>Sat_Count\<close>,
  \<open>Convert_Ops\<close> and \<open>Dot_Output\<close> have the same fuel, and the theorems on the walks, the counts, the conversion
  to BDDs and the output show that they return.  The probes of the conversion caches and the walk
  down a support are partial functions; the theorems show that they return.  All other loops are structural or have a termination proof.

  \<^bold>\<open>Tasks.\<close>  A spawned task runs when it is synchronised, newest first, in the worker that spawned it.
  Tasks stolen by another worker and locks are not modelled; the operations run to completion one
  after the other.  The results hold for every choice of what is spawned.  The exception is
  \<open>Cache_Interleave\<close>: a slot of an operation cache as a step relation on any number of threads, with every
  atomic access a step of its own and with the memory orders of the source: histories of the three
  words, views of the threads, release and acquire on the result, relaxed accesses to the operands.

  \<^bold>\<open>Sizes.\<close>  The size of a slab is computed modulo \<open>2 ^ 64\<close>, as in the source, and no check guards it.  The
  invariants include that it does not wrap around; \<open>slabs_fit\<close> is this condition on the capacities of a
  configuration, and the properties on initialisation assume it.  \<open>edge_bucket_count\<close> is at most \<open>2 ^ 60\<close>
  there.  The allocator has at most \<open>2 ^ 60\<close> bytes.

  \<^bold>\<open>Sylvan's own collections.\<close>  Sylvan may start a collection inside any BDD operation and then calls
  \<open>mtpndd_gc_before_sylvan\<close> first.  The operations of the model are functions of the labels only, so a
  collection runs in the model where the library asks for one, in \<open>gcOrGrow\<close>.  That the hook is safe
  whenever it is called, for every node that is held at this point, is a property of its own; that
  the operations hold all they need at each of their BDD operations is not claimed.

  \<^bold>\<open>Not modelled.\<close>  Statistics, profiling and log output; the JNI binding and the benchmark programs.
  Difference, quantification, the reduce forms, the arithmetic on diagrams and the conversion from
  BDDs are defined, but no correctness is claimed for their results: the nodes they work on are not
  held (the arithmetic makes leaves that no linked node refers to yet), so a collection inside them
  may free an operand.  Of the conversion from BDDs the cache and the error for a variable outside
  the fields are covered.
\<close>

section \<open>Boolean operations\<close>

lemma op_result:
  assumes "op_post S M E s lo H r s'"
  shows "hinv S M E s' \<and> cinv M s' \<and> keeps E s s' \<and> stack s' = stack s
     \<and> (if r = NULL then failed s'
        else boolean s' r \<and> (\<not> failed s' \<longrightarrow> (\<forall>env. holds M s' env r \<longleftrightarrow> H env)))"
  using assms by (auto simp: op_post_def res_ok_def split: if_splits)

text \<open>
  C1. Conjunction.  On two diagrams the caller holds, \<open>mtpndd_and\<close> always returns.  Every node that
  was live is unchanged, the temporary stack is as it was, the heap and the caches satisfy their
  invariants; a null result means that an allocation failed, and unless one failed the result
  denotes the conjunction.
\<close>

theorem and_correct:
  assumes "sylvan_laws S M" and "hinv S M E s" "cinv M s" and "live E s a" "live E s b" and "boolean s a" "boolean s b"
  shows "\<exists>r s'. mtpndd_and S a b s = Some (r, s')
     \<and> hinv S M E s' \<and> cinv M s' \<and> keeps E s s' \<and> stack s' = stack s
     \<and> (if r = NULL then failed s'
        else boolean s' r \<and> (\<not> failed s' \<longrightarrow> (\<forall>env. holds M s' env r \<longleftrightarrow> holds M s env a \<and> holds M s env b)))"
proof -
  obtain r s' where r: "mtpndd_and S a b s = Some (r, s')" "op_post S M E s 1 (\<lambda>env. holds M s env a \<and> holds M s env b) r s'"
    by (rule refines2D[OF sylvan_laws.and_refines[OF assms(1)] assms(2-)])
  show ?thesis by (intro exI, rule conjI[OF r(1)], rule op_result[OF r(2)])
qed

theorem and_correct_witness:
  "\<exists>r s'. mtpndd_and tt_sylvan 64 80 demo = Some (r, s')
     \<and> hinv tt_sylvan tt_model {#64, 80#} s' \<and> cinv tt_model s' \<and> keeps {#64, 80#} demo s' \<and> stack s' = stack demo
     \<and> (if r = NULL then failed s'
        else boolean s' r \<and> (\<not> failed s' \<longrightarrow> (\<forall>env. holds tt_model s' env r
             \<longleftrightarrow> holds tt_model demo env 64 \<and> holds tt_model demo env 80)))"
  by (rule and_correct[OF tt_laws demo_hinv demo_cinv demo_live demo_boolean]) simp

text \<open>
  C2. Disjunction, with the same guarantees as conjunction.
\<close>

theorem or_correct:
  assumes "sylvan_laws S M" and "hinv S M E s" "cinv M s" and "live E s a" "live E s b" and "boolean s a" "boolean s b"
  shows "\<exists>r s'. mtpndd_or S a b s = Some (r, s')
     \<and> hinv S M E s' \<and> cinv M s' \<and> keeps E s s' \<and> stack s' = stack s
     \<and> (if r = NULL then failed s'
        else boolean s' r \<and> (\<not> failed s' \<longrightarrow> (\<forall>env. holds M s' env r \<longleftrightarrow> holds M s env a \<or> holds M s env b)))"
proof -
  obtain r s' where r: "mtpndd_or S a b s = Some (r, s')" "op_post S M E s 1 (\<lambda>env. holds M s env a \<or> holds M s env b) r s'"
    by (rule refines2D[OF sylvan_laws.or_refines[OF assms(1)] assms(2-)])
  show ?thesis by (intro exI, rule conjI[OF r(1)], rule op_result[OF r(2)])
qed

theorem or_correct_witness:
  "\<exists>r s'. mtpndd_or tt_sylvan 64 80 demo = Some (r, s')
     \<and> hinv tt_sylvan tt_model {#64, 80#} s' \<and> cinv tt_model s' \<and> keeps {#64, 80#} demo s' \<and> stack s' = stack demo
     \<and> (if r = NULL then failed s'
        else boolean s' r \<and> (\<not> failed s' \<longrightarrow> (\<forall>env. holds tt_model s' env r
             \<longleftrightarrow> holds tt_model demo env 64 \<or> holds tt_model demo env 80)))"
  by (rule or_correct[OF tt_laws demo_hinv demo_cinv demo_live demo_boolean]) simp

text \<open>
  C3. Negation, with the same guarantees.
\<close>

theorem not_correct:
  assumes "sylvan_laws S M" and "hinv S M E s" "cinv M s" and "live E s a" and "boolean s a"
  shows "\<exists>r s'. mtpndd_not S a s = Some (r, s')
     \<and> hinv S M E s' \<and> cinv M s' \<and> keeps E s s' \<and> stack s' = stack s
     \<and> (if r = NULL then failed s'
        else boolean s' r \<and> (\<not> failed s' \<longrightarrow> (\<forall>env. holds M s' env r \<longleftrightarrow> \<not> holds M s env a)))"
proof -
  obtain r s' where r: "mtpndd_not S a s = Some (r, s')" "op_post S M E s 1 (\<lambda>env. \<not> holds M s env a) r s'"
    by (rule refines1D[OF sylvan_laws.not_refines[OF assms(1)] assms(2-)])
  show ?thesis by (intro exI, rule conjI[OF r(1)], rule op_result[OF r(2)])
qed

theorem not_correct_witness:
  "\<exists>r s'. mtpndd_not tt_sylvan 64 demo = Some (r, s')
     \<and> hinv tt_sylvan tt_model {#64#} s' \<and> cinv tt_model s' \<and> keeps {#64#} demo s' \<and> stack s' = stack demo
     \<and> (if r = NULL then failed s'
        else boolean s' r \<and> (\<not> failed s' \<longrightarrow> (\<forall>env. holds tt_model s' env r \<longleftrightarrow> \<not> holds tt_model demo env 64)))"
  by (rule not_correct[OF tt_laws demo_hinv demo_cinv demo_live(1) demo_boolean(1)]) simp

section \<open>Canonicity\<close>

text \<open>
  C20. Negating twice gives the node back: when the caller holds the first result, the second
  negation returns the operand itself.
\<close>

theorem not_not_same_node:
  assumes "sylvan_laws S M" and "hinv S M E s" "cinv M s" and "live E s a" and "boolean s a"
  shows "\<exists>r s1. mtpndd_not S a s = Some (r, s1) \<and> (r \<noteq> NULL \<longrightarrow>
     (\<exists>s2 q s3. mtpndd_ref r s1 = Some (MTPNDD_SUCCESS, s2) \<and> mtpndd_not S r s2 = Some (q, s3)
        \<and> (\<not> failed s3 \<longrightarrow> q = a)))"
proof -
  note nr = sylvan_laws.not_refines[OF assms(1)]
  obtain r s1 where r: "mtpndd_not S a s = Some (r, s1)" "op_post S M E s 1 (\<lambda>env. \<not> holds M s env a) r s1"
    by (rule refines1D[OF nr assms(2-)])
  note P = op_postD[OF r(2)]
  have "\<exists>s2 q s3. mtpndd_ref r s1 = Some (MTPNDD_SUCCESS, s2) \<and> mtpndd_not S r s2 = Some (q, s3) \<and> (\<not> failed s3 \<longrightarrow> q = a)"
    if r0: "r \<noteq> NULL"
  proof -
    obtain s2 where s2: "mtpndd_ref r s1 = Some (MTPNDD_SUCCESS, s2)" "touch s1 s2" "hinv S M (add_mset r E) s2"
      "cinv M s2" "live (add_mset r E) s2 r" using ref_step[OF P(1,2) P(7)[OF r0]] by blast
    have b2: "boolean s2 r" using P(7)[OF r0] touch_sem(1)[OF s2(2)] by simp
    obtain q s3 where q: "mtpndd_not S r s2 = Some (q, s3)" "op_post S M (add_mset r E) s2 1 (\<lambda>env. \<not> holds M s2 env r) q s3"
      by (rule refines1D[OF nr s2(3-5) b2])
    note Q = op_postD[OF q(2)]
    note ka = keeps_sem[OF P(3) assms(4)]
    have la: "live (add_mset r E) s2 a" by (rule live_mono[OF touch_sem(3)[OF s2(2) ka(1)]]) simp
    note ka2 = keeps_sem[OF Q(3) la]
    have "q = a" if nf: "\<not> failed s3"
    proof -
      have q0: "q \<noteq> NULL" using Q(6) nf by blast
      have n1: "\<not> failed s1" using nf res_mono_failed[OF Q(4)] touch_sem(5)[OF s2(2)] by blast
      have "holds M s3 env q \<longleftrightarrow> holds M s3 env a" for env
        using Q(8)[OF q0 nf] P(8)[OF r0 n1] ka2(3) ka(3) touch_sem(2)[OF s2(2)] by simp
      moreover have "boolean s3 a" using ka2(2) ka(2) touch_sem(1)[OF s2(2)] assms(5) by simp
      ultimately show ?thesis
        using sylvan_laws.canonical_ptr[OF assms(1) hinvD(1)[OF Q(1)] Q(7)[OF q0]] by (simp add: same_den_def)
    qed
    then show ?thesis using s2(1) q(1) by blast
  qed
  then show ?thesis using r(1) by blast
qed

theorem not_not_same_node_witness:
  "\<exists>r s1. mtpndd_not tt_sylvan 64 demo = Some (r, s1) \<and> (r \<noteq> NULL \<longrightarrow>
     (\<exists>s2 q s3. mtpndd_ref r s1 = Some (MTPNDD_SUCCESS, s2) \<and> mtpndd_not tt_sylvan r s2 = Some (q, s3)
        \<and> (\<not> failed s3 \<longrightarrow> q = 64)))"
  by (rule not_not_same_node[OF tt_laws demo_hinv[of "{#}"] demo_cinv demo_live(1) demo_boolean(1)]) simp

text \<open>
  C19. The disjunction by De Morgan's law and the direct disjunction compute the same node.
\<close>

theorem demorgan_same_node:
  assumes "sylvan_laws S M" and "hinv S M E s" "cinv M s" and "live E s a" "live E s b" and "boolean s a" "boolean s b"
  shows "\<exists>r s1. mtpndd_or S a b s = Some (r, s1) \<and> (r \<noteq> NULL \<longrightarrow>
     (\<exists>s2 q s3. mtpndd_ref r s1 = Some (MTPNDD_SUCCESS, s2) \<and> mtpndd_or_demorgan S a b s2 = Some (q, s3)
        \<and> (\<not> failed s3 \<longrightarrow> q = r)))"
proof -
  let ?H = "\<lambda>env. holds M s env a \<or> holds M s env b"
  obtain r s1 where r: "mtpndd_or S a b s = Some (r, s1)" "op_post S M E s 1 ?H r s1"
    by (rule refines2D[OF sylvan_laws.or_refines[OF assms(1)] assms(2-)])
  note P = op_postD[OF r(2)]
  have "\<exists>s2 q s3. mtpndd_ref r s1 = Some (MTPNDD_SUCCESS, s2) \<and> mtpndd_or_demorgan S a b s2 = Some (q, s3) \<and> (\<not> failed s3 \<longrightarrow> q = r)"
    if r0: "r \<noteq> NULL"
  proof -
    obtain s2 where s2: "mtpndd_ref r s1 = Some (MTPNDD_SUCCESS, s2)" "touch s1 s2" "hinv S M (add_mset r E) s2" "cinv M s2"
      using ref_step[OF P(1,2) P(7)[OF r0]] by blast
    note ka = keeps_sem[OF P(3) assms(4)] and kb = keeps_sem[OF P(3) assms(5)]
    have l: "live (add_mset r E) s2 a" "live (add_mset r E) s2 b"
      using live_mono[OF touch_sem(3)[OF s2(2) ka(1)]] live_mono[OF touch_sem(3)[OF s2(2) kb(1)]] by simp_all
    have bo: "boolean s2 a" "boolean s2 b" "boolean s2 r" using ka(2) kb(2) assms(6,7) P(7)[OF r0] touch_sem(1)[OF s2(2)] by simp_all
    obtain q s3 where q: "mtpndd_or_demorgan S a b s2 = Some (q, s3)"
      "derived_post S M (add_mset r E) s2 (\<lambda>env. holds M s2 env a \<or> holds M s2 env b) q s3"
      using sylvan_laws.demorgan_ok[OF assms(1) s2(3,4) l bo(1,2)] by blast
    have m: "midway S M (add_mset r E) s2 {#} s3" using q(2) by (simp add: derived_post_def)
    have "q = r" if nf: "\<not> failed s3"
    proof -
      have q0: "q \<noteq> NULL" "boolean s3 q" "\<And>env. holds M s3 env q \<longleftrightarrow> holds M s2 env a \<or> holds M s2 env b"
        using q(2) nf by (auto simp: derived_post_def split: if_splits)
      have n1: "\<not> failed s1" using nf midwayD(4)[OF m] touch_sem(4)[OF s2(2)] by blast
      have "holds M s3 env q \<longleftrightarrow> holds M s3 env r" for env
        using q0(3) midwayD(6)[OF m _ bo(3)] P(8)[OF r0 n1] ka(3) kb(3) touch_sem(2)[OF s2(2)] by simp
      moreover have "boolean s3 r" using midwayD(5)[OF m _ bo(3)] by simp
      moreover have "sinv S M s3" using midwayD(1)[OF m] by (simp add: hinv_def)
      ultimately show ?thesis using sylvan_laws.canonical_ptr[OF assms(1) _ q0(2)] by (simp add: same_den_def)
    qed
    then show ?thesis using s2(1) q(1) by blast
  qed
  then show ?thesis using r(1) by blast
qed

theorem demorgan_same_node_witness:
  "\<exists>r s1. mtpndd_or tt_sylvan 64 80 demo = Some (r, s1) \<and> (r \<noteq> NULL \<longrightarrow>
     (\<exists>s2 q s3. mtpndd_ref r s1 = Some (MTPNDD_SUCCESS, s2) \<and> mtpndd_or_demorgan tt_sylvan 64 80 s2 = Some (q, s3)
        \<and> (\<not> failed s3 \<longrightarrow> q = r)))"
  by (rule demorgan_same_node[OF tt_laws demo_hinv[of "{#}"] demo_cinv demo_live demo_boolean]) simp

section \<open>Batches\<close>

text \<open>
  C21. The batch conjunction returns one result per pair.  Each result is referenced, so that later
  pairs do not collect it: at the end every non-null result denotes the conjunction of its pair,
  unless an allocation failed, and the caller holds all of them.
\<close>

theorem and_batch_correct:
  assumes "sylvan_laws S M" and "hinv S M E s" "cinv M s" and "pairs \<noteq> []"
    and "\<forall>(l, r)\<in>set pairs. l \<in># E \<and> r \<in># E \<and> boolean s l \<and> boolean s r"
  shows "\<exists>res s'. mtpndd_and_batch S pairs s = Some (res, s')
     \<and> (case res of
          None \<Rightarrow> failed s'
        | Some rs \<Rightarrow> length rs = length pairs \<and> hinv S M (E + mset (filter (\<lambda>r. r \<noteq> NULL) rs)) s'
            \<and> (\<forall>i<length pairs. if rs ! i = NULL then failed s' else boolean s' (rs ! i)
                 \<and> (\<not> failed s' \<longrightarrow> (\<forall>env. holds M s' env (rs ! i)
                      \<longleftrightarrow> holds M s env (fst (pairs ! i)) \<and> holds M s env (snd (pairs ! i))))))"
proof -
  have w: "work S M E s [] s" by (rule work_refl[OF assms(2,3)])
  obtain p s1 where p: "malloc (length pairs * 8) s = (p, s1)" by fastforce
  note mw = malloc_work[OF w p] and t = quiet_touch[OF malloc_quiet[OF p]]
  show ?thesis
  proof (cases "p = NULL")
    case True
    then show ?thesis using p mw(2) assms(4) by (simp add: mtpndd_and_batch_def)
  next
    case False
    have h1: "hinv S M E s1" "cinv M s1" using workD(1,2)[OF mw(1)] by simp_all
    have "\<forall>(l, r)\<in>set pairs. l \<in># E \<and> r \<in># E \<and> boolean s1 l \<and> boolean s1 r"
      using assms(5) touch_sem(1)[OF t] by auto
    from sylvan_laws.and_batch_loop_ok[OF assms(1) h1 this] obtain rs s' where
      r: "and_batch_loop S pairs s1 = Some (rs, s')" "midway S M E s1 (mset (filter (\<lambda>r. r \<noteq> NULL) rs)) s'"
        "list_all2 (batch_item M s1 s') pairs rs" by blast
    have "batch_item M s s' (pairs ! i) (rs ! i)" if "i < length pairs" for i
      using list_all2_nthD[OF r(3) that] touch_sem(2)[OF t] by (simp add: batch_item_def)
    then show ?thesis using r p False assms(4) list_all2_lengthD[OF r(3)] midwayD(1)[OF r(2)]
      by (auto simp: mtpndd_and_batch_def batch_item_def)
  qed
qed

theorem and_batch_correct_witness:
  "\<exists>res s'. mtpndd_and_batch tt_sylvan [(64, 80), (80, 80)] demo = Some (res, s')
     \<and> (case res of
          None \<Rightarrow> failed s'
        | Some rs \<Rightarrow> length rs = length [(64 :: ptr, 80 :: ptr), (80, 80)]
            \<and> hinv tt_sylvan tt_model ({#64, 80#} + mset (filter (\<lambda>r. r \<noteq> NULL) rs)) s'
            \<and> (\<forall>i<length [(64 :: ptr, 80 :: ptr), (80, 80)]. if rs ! i = NULL then failed s' else boolean s' (rs ! i)
                 \<and> (\<not> failed s' \<longrightarrow> (\<forall>env. holds tt_model s' env (rs ! i)
                      \<longleftrightarrow> holds tt_model demo env (fst ([(64 :: ptr, 80 :: ptr), (80, 80)] ! i))
                        \<and> holds tt_model demo env (snd ([(64 :: ptr, 80 :: ptr), (80, 80)] ! i))))))"
  by (rule and_batch_correct[OF tt_laws demo_hinv demo_cinv]) (use demo_boolean in simp_all)

section \<open>Nodes and garbage collection\<close>

text \<open>
  C5. \<open>mtpndd_mk\<close> on a well-formed edge map returns the reduced node: FALSE for no edge, the child
  for a single edge with the full label, else a node with exactly these edges; live nodes are
  unchanged.  A null result means that an allocation failed.
\<close>

theorem mk_correct:
  assumes "hinv S M E s" and "ctx_ok s" and "f \<in> tabled s" and "map_wf S M s f m"
    and "\<forall>c\<in>dom (emap m). internal s c \<or> live E s c"
  shows "\<exists>r s'. mtpndd_mk S f m s = Some (r, s') \<and> hinv S M E s' \<and> keeps E s s'
     \<and> (if r = NULL then failed s'
        else if emap m = Map.empty then r = MTPNDD_FALSE
        else if \<exists>c. emap m = [c \<mapsto> sylvan_true S] then emap m = [r \<mapsto> sylvan_true S]
        else \<exists>m'. content s' r = Some (f, NEdges m') \<and> emap m' = emap m)"
proof -
  obtain r s' where r: "mtpndd_mk S f m s = Some (r, s')" "made S M E s f (emap m) r s'"
    using mk_spec[OF assms] by blast
  then show ?thesis by (intro exI[of _ r] exI[of _ s']) (auto simp: made_def mk_result_def has_edges_def split: if_splits)
qed

theorem mk_correct_witness:
  "\<exists>r s'. mtpndd_mk tt_sylvan 1 (var_map 400 x0) demo = Some (r, s') \<and> hinv tt_sylvan tt_model {#} s' \<and> keeps {#} demo s'
     \<and> (if r = NULL then failed s'
        else if emap (var_map 400 x0) = Map.empty then r = MTPNDD_FALSE
        else if \<exists>c. emap (var_map 400 x0) = [c \<mapsto> sylvan_true tt_sylvan] then emap (var_map 400 x0) = [r \<mapsto> sylvan_true tt_sylvan]
        else \<exists>m'. content s' r = Some (1, NEdges m') \<and> emap m' = emap (var_map 400 x0))"
proof (rule mk_correct)
  show "hinv tt_sylvan tt_model {#} demo" by (rule demo_hinv) simp
  show "ctx_ok demo" by (rule cinvD(1)[OF demo_cinv])
  show "1 \<in> tabled demo" by (simp add: demo_def tabled_def)
  show "map_wf tt_sylvan tt_model demo 1 (var_map 400 x0)" using var_node_wf[of x0 400] by (simp add: node_wf_def)
  show "\<forall>c\<in>dom (emap (var_map 400 x0)). internal demo c \<or> live {#} demo c" by (simp add: var_map_emap live.live_true)
qed

text \<open>
  C4. A collection is safe and complete: \<open>gcOrGrow\<close> always returns, keeps the invariant and every live
  node, empties the operation caches, and leaves no internal node without references.
\<close>

theorem gc_correct:
  assumes "hinv S M E s" and "caches_shape s" and "\<not> gc_running s"
  shows "\<exists>s'. gcOrGrow s = Some s' \<and> hinv S M E s' \<and> keeps E s s' \<and> caches_empty s' \<and> stack s' = stack s
     \<and> dom (nodes s') \<subseteq> dom (nodes s)
     \<and> (\<forall>p nd m. nodes s' p = Some nd \<longrightarrow> body nd = NEdges m \<longrightarrow> ref_count nd \<noteq> 0)"
proof -
  obtain s' where s': "gcOrGrow s = Some s'" "hinv S M E s'" "keeps E s s'" "collected s s'"
    using gcOrGrow_spec[OF assms] by blast
  have "ref_count nd \<noteq> 0" if "nodes s' p = Some nd" "body nd = NEdges m" for p nd m
  proof -
    have "internal s' p" using that by (simp add: internal_def node_edges_def)
    then show ?thesis using s'(4) that(1) by (auto simp: collected_def referenced_def)
  qed
  then show ?thesis using s' unfolding collected_def by auto
qed

theorem gc_correct_witness:
  "\<exists>s'. gcOrGrow demo = Some s' \<and> hinv tt_sylvan tt_model {#64#} s' \<and> keeps {#64#} demo s' \<and> caches_empty s' \<and> stack s' = stack demo
     \<and> dom (nodes s') \<subseteq> dom (nodes demo)
     \<and> (\<forall>p nd m. nodes s' p = Some nd \<longrightarrow> body nd = NEdges m \<longrightarrow> ref_count nd \<noteq> 0)"
proof (rule gc_correct)
  show "hinv tt_sylvan tt_model {#64#} demo" by (rule demo_hinv) simp
  show "caches_shape demo" "\<not> gc_running demo" using cinvD(1)[OF demo_cinv] by (simp_all add: ctx_ok_def)
qed

text \<open>
  C18. The hook that every collection of Sylvan calls first.  While a collection of the library is under
  way it does nothing, so the collection that \<open>gcOrGrow\<close> itself asks for does not start another one.
  Otherwise, called at any time, it returns, keeps the invariant and every live node, empties the
  operation caches, leaves no internal node without references and allows the next collection.
\<close>

theorem sylvan_hook_correct:
  assumes "hinv S M E s" and "caches_shape s"
  shows "\<exists>s'. mtpndd_gc_before_sylvan s = Some s' \<and> hinv S M E s' \<and> keeps E s s' \<and> stack s' = stack s
     \<and> gc_running s' = gc_running s
     \<and> (if gc_running s then s' = s
        else caches_empty s' \<and> dom (nodes s') \<subseteq> dom (nodes s)
           \<and> (\<forall>p nd m. nodes s' p = Some nd \<longrightarrow> body nd = NEdges m \<longrightarrow> ref_count nd \<noteq> 0))"
proof (cases "gc_running s")
  case True
  then show ?thesis using assms(1) by (simp add: mtpndd_gc_before_sylvan_def keeps_def)
next
  case False
  obtain s' where s': "mtpndd_gc_before_sylvan s = Some s'" "hinv S M E s'" "keeps E s s'" "collected s s'"
    using gc_before_sylvan_spec[OF assms False] by blast
  have "ref_count nd \<noteq> 0" if "nodes s' p = Some nd" "body nd = NEdges m" for p nd m
  proof -
    have "internal s' p" using that by (simp add: internal_def node_edges_def)
    then show ?thesis using s'(4) that(1) by (auto simp: collected_def referenced_def)
  qed
  then show ?thesis using s' False unfolding collected_def by auto
qed

theorem sylvan_hook_correct_witness:
  "\<exists>s'. mtpndd_gc_before_sylvan demo = Some s' \<and> hinv tt_sylvan tt_model {#64#} s' \<and> keeps {#64#} demo s' \<and> stack s' = stack demo
     \<and> gc_running s' = gc_running demo
     \<and> (if gc_running demo then s' = demo
        else caches_empty s' \<and> dom (nodes s') \<subseteq> dom (nodes demo)
           \<and> (\<forall>p nd m. nodes s' p = Some nd \<longrightarrow> body nd = NEdges m \<longrightarrow> ref_count nd \<noteq> 0))"
proof (rule sylvan_hook_correct)
  show "hinv tt_sylvan tt_model {#64#} demo" by (rule demo_hinv) simp
  show "caches_shape demo" using cinvD(1)[OF demo_cinv] by (simp add: ctx_ok_def)
qed

text \<open>
  C33. The sweep reports exactly the number of nodes it removed.
\<close>

theorem gc_sweep_counts:
  assumes "hinv S M E s"
  shows "\<exists>n s'. mtpndd_gc_sweep s = Some (n, s') \<and> hinv S M E s' \<and> keeps E s s'
     \<and> n + card (dom (nodes s')) = card (dom (nodes s))"
  using gc_sweep_spec[OF assms] by blast

theorem gc_sweep_counts_witness:
  "\<exists>n s'. mtpndd_gc_sweep demo = Some (n, s') \<and> hinv tt_sylvan tt_model {#} s' \<and> keeps {#} demo s'
     \<and> n + card (dom (nodes s')) = card (dom (nodes demo))"
  by (rule gc_sweep_counts[OF demo_hinv]) simp

text \<open>
  C34. The collection of leaves keeps the invariant and every live node, changes no internal node, and
  reports exactly the number of leaves it removed.
\<close>

theorem leaf_gc_correct:
  assumes "hinv S M E s"
  shows "\<exists>n s'. mtpndd_leaf_gc s = Some (n, s') \<and> hinv S M E s' \<and> keeps E s s'
     \<and> n + card (dom (nodes s')) = card (dom (nodes s)) \<and> (\<forall>p. internal s p \<longrightarrow> nodes s' p = nodes s p)"
  using leaf_gc_spec[OF assms] by blast

theorem leaf_gc_correct_witness:
  "\<exists>n s'. mtpndd_leaf_gc demo = Some (n, s') \<and> hinv tt_sylvan tt_model {#} s' \<and> keeps {#} demo s'
     \<and> n + card (dom (nodes s')) = card (dom (nodes demo)) \<and> (\<forall>p. internal demo p \<longrightarrow> nodes s' p = nodes demo p)"
  by (rule leaf_gc_correct[OF demo_hinv]) simp

section \<open>Life cycle\<close>

text \<open>
  C22. Initialisation establishes the invariants: from any state that is not initialised and a valid
  configuration whose slab sizes fit in \<open>size_t\<close> \<open>mtpndd_init\<close> returns; when it reports success the heap and the caches satisfy
  their invariants, TRUE and FALSE are the only nodes and no field exists; otherwise an allocation failed.
\<close>

theorem init_correct:
  assumes "cold s" and "config_ok config" and "edge_bucket_count config \<le> 2 ^ 60" "slabs_fit config"
  shows "\<exists>st s'. mtpndd_init lace_start (Some config) s = Some (st, s')
     \<and> (if st = MTPNDD_SUCCESS
        then hinv S M {#} s' \<and> cinv M s' \<and> mtpndd_is_initialized s'
           \<and> dom (nodes s') = {MTPNDD_TRUE, MTPNDD_FALSE} \<and> field_count s' = 0 \<and> pending_field_count s' = 0
        else failed s')"
proof -
  obtain st s' where r: "mtpndd_init lace_start (Some config) s = Some (st, s')"
    "if st = MTPNDD_SUCCESS then warm S M s' else failed s'"
    using init_spec[OF assms] by blast
  have "dom (nodes s') = {MTPNDD_TRUE, MTPNDD_FALSE} \<and> field_count s' = 0 \<and> pending_field_count s' = 0"
      "hinv S M {#} s' \<and> cinv M s' \<and> mtpndd_is_initialized s'" if "warm S M s'"
    using that by (auto simp: warm_def boot_def static_nodes_def split: if_splits)
  then show ?thesis using r by (intro exI[of _ st] exI[of _ s']) simp
qed

theorem init_correct_witness:
  "\<exists>st s'. mtpndd_init (\<lambda>_ _. 1) (Some demo_config) demo_cold = Some (st, s')
     \<and> (if st = MTPNDD_SUCCESS
        then hinv tt_sylvan tt_model {#} s' \<and> cinv tt_model s' \<and> mtpndd_is_initialized s'
           \<and> dom (nodes s') = {MTPNDD_TRUE, MTPNDD_FALSE} \<and> field_count s' = 0 \<and> pending_field_count s' = 0
        else failed s')"
proof (rule init_correct)
  show "cold demo_cold" by (rule demo_cold)
  show "config_ok demo_config" "edge_bucket_count demo_config \<le> 2 ^ 60" "slabs_fit demo_config" by (rule demo_config)+
qed

text \<open>
  C6. From an uninitialised state, a valid configuration whose slab sizes fit in \<open>size_t\<close> and a list of
  positive field widths that Sylvan has variables for, the library comes up:
  \<open>mtpndd_init\<close>, \<open>mtpndd_declare_field\<close> for every width and \<open>mtpndd_generate_fields\<close> return, and unless an
  allocation failed every bit \<open>i\<close> of every field \<open>f\<close> has a node for its variable and one for its negation.  The
  accessors return them, no collection removes them, and they denote bit \<open>max - width + i\<close> of the
  field's assignment and its negation.
\<close>

theorem variables_correct:
  assumes "sylvan_vars S M nvars" and "cold s" and "config_ok config" "edge_bucket_count config \<le> 2 ^ 60" "slabs_fit config"
    and "W \<noteq> []" "length W < 2 ^ 31" "\<forall>w\<in>set W. 0 < w \<and> w \<le> nvars"
  shows "\<exists>st s'. bring_up S lace_start config W s = Some (st, s') \<and> (failed s' \<or>
     st = MTPNDD_SUCCESS \<and> hinv S M {#} s' \<and> cinv M s' \<and> field_count s' = length W
     \<and> (\<forall>f i. 1 \<le> f \<longrightarrow> f \<le> length W \<longrightarrow> i < W ! (f - 1) \<longrightarrow>
          (\<exists>p q. mtpndd_get_var f i s' = Some (p, s') \<and> mtpndd_get_not_var f i s' = Some (q, s')
             \<and> live {#} s' p \<and> live {#} s' q \<and> boolean s' p \<and> boolean s' q
             \<and> (\<forall>env. holds M s' env p \<longleftrightarrow> env f (fold max W 0 - W ! (f - 1) + i))
             \<and> (\<forall>env. holds M s' env q \<longleftrightarrow> \<not> env f (fold max W 0 - W ! (f - 1) + i)))))"
proof -
  obtain st s' where r: "bring_up S lace_start config W s = Some (st, s')"
    "failed s' \<or> st = MTPNDD_SUCCESS \<and> fields_ready S M W s'"
    using sylvan_vars.bring_up_spec[OF assms] by blast
  have main: "hinv S M {#} s' \<and> cinv M s' \<and> field_count s' = length W" if "fields_ready S M W s'"
    using that idle_cinv by (auto simp: fields_ready_def idle_def)
  have "\<exists>p q. mtpndd_get_var f i s' = Some (p, s') \<and> mtpndd_get_not_var f i s' = Some (q, s')
      \<and> live {#} s' p \<and> live {#} s' q \<and> boolean s' p \<and> boolean s' q
      \<and> (\<forall>env. holds M s' env p \<longleftrightarrow> env f (fold max W 0 - W ! (f - 1) + i))
      \<and> (\<forall>env. holds M s' env q \<longleftrightarrow> \<not> env f (fold max W 0 - W ! (f - 1) + i))"
    if R: "fields_ready S M W s'" and f: "1 \<le> f" "f \<le> length W" "i < W ! (f - 1)" for f i
    using sylvan_vars.ready_vars[OF assms(1) R f] assms(8) by blast
  then show ?thesis using r main by blast
qed

theorem variables_correct_witness:
  "\<exists>st s'. bring_up tt_sylvan (\<lambda>_ _. 1) demo_config [2, 4] demo_cold = Some (st, s') \<and> (failed s' \<or>
     st = MTPNDD_SUCCESS \<and> hinv tt_sylvan tt_model {#} s' \<and> cinv tt_model s' \<and> field_count s' = length [2 :: nat, 4]
     \<and> (\<forall>f i. 1 \<le> f \<longrightarrow> f \<le> length [2 :: nat, 4] \<longrightarrow> i < [2, 4] ! (f - 1) \<longrightarrow>
          (\<exists>p q. mtpndd_get_var f i s' = Some (p, s') \<and> mtpndd_get_not_var f i s' = Some (q, s')
             \<and> live {#} s' p \<and> live {#} s' q \<and> boolean s' p \<and> boolean s' q
             \<and> (\<forall>env. holds tt_model s' env p \<longleftrightarrow> env f (fold max [2, 4] 0 - [2, 4] ! (f - 1) + i))
             \<and> (\<forall>env. holds tt_model s' env q \<longleftrightarrow> \<not> env f (fold max [2, 4] 0 - [2, 4] ! (f - 1) + i)))))"
  by (rule variables_correct[OF tt_vars demo_cold demo_config]) simp_all

text \<open>
  C24. The life cycle closes: after the library has come up \<open>mtpndd_quit\<close> returns success, and its
  state is one from which \<open>mtpndd_init\<close> can start again.
\<close>

theorem quit_after_bring_up:
  assumes "sylvan_vars S M nvars" and "cold s" and "config_ok config" "edge_bucket_count config \<le> 2 ^ 60" "slabs_fit config"
    and "W \<noteq> []" "length W < 2 ^ 31" "\<forall>w\<in>set W. 0 < w \<and> w \<le> nvars"
  shows "\<exists>st s'. bring_up S lace_start config W s = Some (st, s')
     \<and> (failed s' \<or> (\<exists>s''. mtpndd_quit s' = Some (MTPNDD_SUCCESS, s'') \<and> cold s''))"
proof -
  obtain st s' where r: "bring_up S lace_start config W s = Some (st, s')"
    "failed s' \<or> st = MTPNDD_SUCCESS \<and> fields_ready S M W s'"
    using sylvan_vars.bring_up_spec[OF assms] by blast
  have "\<exists>s''. mtpndd_quit s' = Some (MTPNDD_SUCCESS, s'') \<and> cold s''" if R: "fields_ready S M W s'"
  proof (rule sylvan_vars.quit_spec[OF assms(1)])
    show "hinv S M ({#} + mset (stack s')) s'" "\<not> gc_running s'" using R by (simp_all add: fields_ready_def idle_def ctx_ok_def)
    show "fields_live S M nvars s'" using sylvan_vars.ready_live[OF assms(1) R] assms(8) by blast
    show "mtpndd_is_initialized s'" using R assms(6) by (simp add: fields_ready_def mtpndd_is_initialized_def)
  qed
  then show ?thesis using r by blast
qed

theorem quit_after_bring_up_witness:
  "\<exists>st s'. bring_up tt_sylvan (\<lambda>_ _. 1) demo_config [2, 4] demo_cold = Some (st, s')
     \<and> (failed s' \<or> (\<exists>s''. mtpndd_quit s' = Some (MTPNDD_SUCCESS, s'') \<and> cold s''))"
  by (rule quit_after_bring_up[OF tt_vars demo_cold demo_config]) simp_all

text \<open>
  C23. What \<open>mtpndd_init\<close> accepts.  On an uninitialised library it reports an invalid parameter exactly
  when the number of workers is negative or one of the four sizes is zero; then the state is as before
  but for the last error, which names the call.  After an initialisation that succeeded every further
  call is refused, with any configuration, and changes nothing but the last error.
\<close>

theorem init_once:
  assumes "cold s" and "edge_bucket_count config \<le> 2 ^ 60" "slabs_fit config"
  shows "\<exists>st s'. mtpndd_init lace_start (Some config) s = Some (st, s')
     \<and> (st = MTPNDD_ERROR_INVALID_PARAM \<longleftrightarrow> n_workers config < 0 \<or> lace_dqsize config = 0 \<or> bdd_nodetable_size config = 0
          \<or> mtpndd_nodetable_size config = 0 \<or> op_cache_size config = 0)
     \<and> (st = MTPNDD_ERROR_INVALID_PARAM \<longrightarrow> s' = s\<lparr>last_error := \<lparr>ei_code = MTPNDD_ERROR_INVALID_PARAM,
          ei_message = Some ''Invalid parameter'', ei_function = Some ''mtpndd_init'', ei_line = 584\<rparr>\<rparr>)
     \<and> (st = MTPNDD_SUCCESS \<longrightarrow> (\<forall>lace config'. mtpndd_init lace config' s' = Some (MTPNDD_ERROR_IS_INITIALIZED,
          s'\<lparr>last_error := \<lparr>ei_code = MTPNDD_ERROR_IS_INITIALIZED, ei_message = Some ''NDD system already initialized'',
             ei_function = Some ''mtpndd_init'', ei_line = 575\<rparr>\<rparr>)))"
proof (cases "config_ok config")
  case True
  obtain st s' where r: "mtpndd_init lace_start (Some config) s = Some (st, s')"
    "if st = MTPNDD_SUCCESS then warm tt_sylvan tt_model s' else failed s'" using init_spec[OF assms(1) True assms(2,3)] by blast
  have ni: "\<not> mtpndd_is_initialized s" using assms(1) by (simp add: cold_def)
  have "st \<noteq> MTPNDD_ERROR_INVALID_PARAM" by (rule init_status[OF ni True r(1)])
  moreover have "mtpndd_is_initialized s'" if "st = MTPNDD_SUCCESS" using r(2) that by (simp add: warm_def)
  then have "mtpndd_init lace config' s' = Some (return_error MTPNDD_ERROR_IS_INITIALIZED ''mtpndd_init'' 575 s')"
    if "st = MTPNDD_SUCCESS" for lace config' using that by (simp add: mtpndd_init_def)
  ultimately show ?thesis using True
    by (intro exI[of _ st] exI[of _ s'])
      (simp add: r(1) config_ok_def return_error_def error_messages mtpndd_set_error_def)
next
  case False
  then have i: "mtpndd_init lace_start (Some config) s = Some (return_error MTPNDD_ERROR_INVALID_PARAM ''mtpndd_init'' 584 s)"
    using assms(1) by (simp add: mtpndd_init_def cold_def)
  show ?thesis using False unfolding i
    by (simp add: config_ok_def return_error_def mtpndd_set_error_def error_messages) arith
qed

theorem init_once_witness:
  "\<exists>st s'. mtpndd_init (\<lambda>_ _. 1) (Some (demo_config\<lparr>n_workers := - 1\<rparr>)) demo_cold = Some (st, s')
     \<and> st = MTPNDD_ERROR_INVALID_PARAM
     \<and> s' = demo_cold\<lparr>last_error := \<lparr>ei_code = MTPNDD_ERROR_INVALID_PARAM,
          ei_message = Some ''Invalid parameter'', ei_function = Some ''mtpndd_init'', ei_line = 584\<rparr>\<rparr>"
proof -
  have "edge_bucket_count (demo_config\<lparr>n_workers := - 1\<rparr>) \<le> 2 ^ 60" "slabs_fit (demo_config\<lparr>n_workers := - 1\<rparr>)"
    using demo_config(2,3) by (simp_all add: slabs_fit_def)
  from init_once[OF demo_cold this, of "\<lambda>_ _. 1"] show ?thesis by auto
qed

section \<open>Edge maps\<close>

text \<open>
  C25. After \<open>mtpndd_add_edge\<close> the map has the new label joined to the old label of that child, and every
  other child as before; an edge to FALSE changes nothing, and neither does a failed insertion.
\<close>

theorem add_edge_lookup:
  assumes "edge_map_ok s m" and "node_known s c" "node_known s d"
  shows "succeeds (mtpndd_add_edge S m c l s) (\<lambda>(st, m', s').
     edge_label_of s' m' d =
       Some (if st = MTPNDD_SUCCESS \<and> d = c \<and> c \<noteq> MTPNDD_FALSE
             then Some (sylvan_or S (case emap m c of None \<Rightarrow> sylvan_false S | Some x \<Rightarrow> x) l)
             else emap m d))"
  by (rule succeeds_mono[OF em.add_val[OF assms(1,2)]]) (use assms(3) em.look_val in \<open>auto split: if_splits\<close>)

theorem add_edge_lookup_witness:
  "succeeds (mtpndd_add_edge tt_sylvan (var_map 200 x0) MTPNDD_TRUE x1 demo) (\<lambda>(st, m', s').
     edge_label_of s' m' MTPNDD_TRUE =
       Some (if st = MTPNDD_SUCCESS \<and> MTPNDD_TRUE = MTPNDD_TRUE \<and> MTPNDD_TRUE \<noteq> MTPNDD_FALSE
             then Some (sylvan_or tt_sylvan (case emap (var_map 200 x0) MTPNDD_TRUE of None \<Rightarrow> sylvan_false tt_sylvan | Some x \<Rightarrow> x) x1)
             else emap (var_map 200 x0) MTPNDD_TRUE))"
proof (rule add_edge_lookup)
  show "edge_map_ok demo (var_map 200 x0)" using var_map_wf by (simp add: edge_map_ok_def demo_def)
  show "node_known demo MTPNDD_TRUE" "node_known demo MTPNDD_TRUE" using demo_nodes(1) by (simp_all add: node_known_def address_defs)
qed

text \<open>
  C26. The node table's comparison of two edge maps decides whether they are the same function from
  children to labels, whatever the order of their entries and the number of their buckets.
\<close>

theorem edges_equal_decides:
  assumes "wf_map s a" "hash_ok a" and "wf_map s b" "hash_ok b"
  shows "nodetable_edges_equal s a b = Some (emap a = emap b)"
  by (rule edges_equal_spec[OF assms])

theorem edges_equal_decides_witness:
  "nodetable_edges_equal demo (var_map 200 x0) (var_map 300 x0) = Some (emap (var_map 200 x0) = emap (var_map 300 x0))"
  by (rule edges_equal_decides) (use var_map_wf var_node_wf[of x0] in \<open>simp_all add: node_wf_def\<close>)

text \<open>
  C27. The deep copy of an edge map has the same edges; it fails only when an allocation failed.
\<close>

theorem deep_clone_correct:
  assumes "hinv S M E s" "cinv M s" and "wf_map s m" "\<forall>c\<in>dom (emap m). nodes s c \<noteq> None" and "fresh_map d"
  shows "\<exists>st d' s'. mtpndd_edge_map_deep_clone m d s = Some (st, d', s') \<and> hinv S M E s' \<and> keeps E s s'
     \<and> (if st = MTPNDD_SUCCESS then wf_map s' d' \<and> emap d' = emap m else failed s')"
proof -
  obtain st d' s' where "mtpndd_edge_map_deep_clone m d s = Some (st, d', s')" "work S M E s [] s'"
    "if st = MTPNDD_SUCCESS then wf_map s' d' \<and> emap d' = emap m else failed s'"
    using deep_clone_spec[OF work_refl[OF assms(1,2)] assms(3-)] by blast
  then show ?thesis using workD(3,7)[of S M E s "[]" s'] by blast
qed

theorem deep_clone_correct_witness:
  "\<exists>st d' s'. mtpndd_edge_map_deep_clone (var_map 200 x0) ((var_map 500 x0)\<lparr>buckets := replicate 8 []\<rparr>) demo = Some (st, d', s')
     \<and> hinv tt_sylvan tt_model {#} s' \<and> keeps {#} demo s'
     \<and> (if st = MTPNDD_SUCCESS then wf_map s' d' \<and> emap d' = emap (var_map 200 x0) else failed s')"
proof (rule deep_clone_correct)
  show "hinv tt_sylvan tt_model {#} demo" by (rule demo_hinv) simp
  show "cinv tt_model demo" by (rule demo_cinv)
  show "wf_map demo (var_map 200 x0)" by (rule var_map_wf)
  show "\<forall>c\<in>dom (emap (var_map 200 x0)). nodes demo c \<noteq> None" using demo_nodes(1) by (simp add: var_map_emap)
  show "fresh_map ((var_map 500 x0)\<lparr>buckets := replicate 8 []\<rparr>)" by (simp add: fresh_map_def) (simp add: var_map_def Let_def)
qed

section \<open>Caches and temporary references\<close>

text \<open>
  C28. A hit of the binary operation cache is a result that was stored under these operands since the
  last clearing, whatever slots the operations in between have overwritten.
\<close>

theorem cache_hit_was_stored:
  assumes "opt_cache_ok 2 c" and "\<forall>a b r. \<not> cached c a b r"
    and "list_all (memo_cmd_ok (\<lambda>k. node_known s (fst k) \<and> node_known s (snd k)) (\<lambda>r. r \<noteq> kMtpnddOpCacheWriteLock)) cmds"
    and "node_known s a" "node_known s b"
  shows "\<exists>c' r. memo_run (\<lambda>c k. mtpndd_op_cache_store_binary s c (fst k) (snd k)) mtpndd_op_cache_clear cmds c = Some c'
     \<and> mtpndd_op_cache_lookup_binary s c' a b = Some r \<and> (r \<noteq> NULL \<longrightarrow> ((a, b), r) \<in> memo_log cmds {})"
  using bin.hit_was_stored[of c s cmds "(a, b)"] assms by simp

theorem cache_hit_was_stored_witness:
  "\<exists>c' r. memo_run (\<lambda>c k. mtpndd_op_cache_store_binary demo c (fst k) (snd k)) mtpndd_op_cache_clear
        [MStore (64 :: ptr, 80 :: ptr) (80 :: ptr), MClear, MStore (80, 64) 64] (Some demo_cache) = Some c'
     \<and> mtpndd_op_cache_lookup_binary demo c' 80 64 = Some r
     \<and> (r \<noteq> NULL \<longrightarrow> ((80, 64), r) \<in> memo_log [MStore (64 :: ptr, 80 :: ptr) (80 :: ptr), MClear, MStore (80, 64) 64] {})"
proof (rule cache_hit_was_stored)
  have "is_pow2 16" using is_pow2_power[of 4] by simp
  then show "opt_cache_ok 2 (Some demo_cache)"
    by (simp add: opt_cache_ok_def cache_ok_def demo_cache_def empty_entry_def kMtpnddOpCacheWriteLock_def)
  show "\<forall>a b r. \<not> cached (Some demo_cache) a b r" by (auto simp: cached_def demo_cache_def empty_entry_def)
  show "list_all (memo_cmd_ok (\<lambda>k. node_known demo (fst k) \<and> node_known demo (snd k)) (\<lambda>r. r \<noteq> kMtpnddOpCacheWriteLock))
      [MStore (64 :: ptr, 80 :: ptr) (80 :: ptr), MClear, MStore (80, 64) 64]" "node_known demo 80" "node_known demo 64"
    using demo_nodes(3,4) by (simp_all add: node_known_def kMtpnddOpCacheWriteLock_def)
qed

text \<open>
  C32. Releasing a frame of temporary references takes the stack back to where the frame began and
  gives back exactly the references the frame held: the count of every node goes down by the number of
  times the node is in the frame, without wrapping around, except for a protected node, which keeps its
  count.  Nothing else of a node changes, no node is added or removed.
\<close>

theorem temp_refs_release_correct:
  assumes "hinv S M (E + mset frame) s" and "stack s = frame @ base"
  shows "\<exists>s'. mtpndd_temp_refs_release (length base) s = Some s' \<and> hinv S M E s' \<and> stack s' = base
     \<and> content s' = content s \<and> dom (nodes s') = dom (nodes s)
     \<and> (\<forall>p nd nd'. nodes s p = Some nd \<longrightarrow> nodes s' p = Some nd' \<longrightarrow>
          (if ref_count nd = - 1 then ref_count nd' = - 1
           else unat (ref_count nd) = unat (ref_count nd') + count (mset frame) p))"
proof -
  obtain s' where s': "mtpndd_temp_refs_release (length base) s = Some s'" "touch s s'" "hinv S M E s'" "stack s' = base"
    using temp_refs_release_spec[OF assms] by blast
  note c = temp_refs_release_counts[OF assms s'(1)]
  have "count (mset frame) p \<le> unat (ref_count nd)" if "nodes s p = Some nd" "ref_count nd \<noteq> - 1" for p nd
    using refs_ok_bound[OF hinvD(2)[OF assms(1)] that] by simp
  then have "if ref_count nd = - 1 then ref_count nd' = - 1 else unat (ref_count nd) = unat (ref_count nd') + count (mset frame) p"
    if "nodes s p = Some nd" "nodes s' p = Some nd'" for p nd nd'
    using that c[of p] drop_refs_unat[of nd "count (mset frame) p"] by (auto simp: drop_refs_def)
  moreover have "dom (nodes s') = dom (nodes s)" using c by (auto simp: dom_def)
  moreover have "content s' = content s" using s'(2) by (simp add: touch_def)
  ultimately show ?thesis using s'(1,3,4) by blast
qed

theorem temp_refs_release_correct_witness:
  "\<exists>s' nd. mtpndd_temp_refs_release (length [64 :: ptr]) demo_counted = Some s' \<and> hinv tt_sylvan tt_model {#64#} s' \<and> stack s' = [64]
     \<and> nodes s' 80 = Some nd \<and> unat (ref_count nd) = 1"
proof -
  have st: "stack demo_counted = [80, 80] @ [64]" by (simp add: demo_counted_def)
  have n: "nodes demo_counted 80 = Some ((var_node 300 x1)\<lparr>ref_count := 3\<rparr>)" by (simp add: demo_counted_def)
  obtain s' where s': "mtpndd_temp_refs_release (length [64 :: ptr]) demo_counted = Some s'" "hinv tt_sylvan tt_model {#64#} s'"
    "stack s' = [64]" "dom (nodes s') = dom (nodes demo_counted)"
    "\<forall>p nd nd'. nodes demo_counted p = Some nd \<longrightarrow> nodes s' p = Some nd' \<longrightarrow>
       (if ref_count nd = - 1 then ref_count nd' = - 1 else unat (ref_count nd) = unat (ref_count nd') + count (mset [80, 80]) p)"
    using temp_refs_release_correct[OF demo_counted_hinv st] by auto
  obtain nd where nd: "nodes s' 80 = Some nd" using s'(4) n by blast
  have "(3 :: 32 word) \<noteq> - 1" by code_simp
  then have "unat (ref_count nd) = 1" using s'(5)[rule_format, OF n nd] by simp
  then show ?thesis using s'(1-3) nd by blast
qed

section \<open>Traversals, counting and arithmetic\<close>

text \<open>
  C13. \<open>mtpndd_leafcount\<close> always returns and changes no node.  Unless an allocation failed, the result is
  the number of leaves that can be reached from the root; after a failure it is at most that.
\<close>

theorem leafcount_correct:
  assumes "hinv S M E s" "nodes s p \<noteq> None"
  shows "\<exists>n s'. mtpndd_leafcount p s = Some (n, s') \<and> nodes s' = nodes s
     \<and> n \<le> card (leaves s p) \<and> (\<not> failed s' \<longrightarrow> n = card (leaves s p))"
proof -
  obtain n s' V where r: "mtpndd_leafcount p s = Some (n, s')" "calm s s'" "\<not> failed s' \<longrightarrow> n = card (leaves s p)"
    "V \<subseteq> leaves s p" "n = card V"
    using leafcount_spec[OF hinv_walkable[OF assms(1)] assms(2)] by blast
  have "n \<le> card (leaves s p)" using r(4,5) card_mono[OF finite_leaves[OF assms(1)]] by simp
  then show ?thesis using r by auto
qed

theorem leafcount_correct_witness:
  "\<exists>n s'. mtpndd_leafcount 64 demo = Some (n, s') \<and> nodes s' = nodes demo
     \<and> n \<le> card (leaves demo 64) \<and> (\<not> failed s' \<longrightarrow> n = card (leaves demo 64))"
  by (rule leafcount_correct[OF demo_hinv, of "{#}"]) (simp_all add: demo_nodes)

text \<open>
  C8. \<open>mtpndd_abstract_plus_validate\<close> always returns and changes no node.  Unless an allocation failed, it
  accepts exactly the diagrams in which every edge label depends only on the BDD variables of the field
  of its node.
\<close>

theorem validate_correct:
  assumes "sylvan_support S M Q" "hinv S M E s" "infos_ok s" "mtpndd_is_initialized s" "nodes s p \<noteq> None"
  shows "\<exists>ok s'. mtpndd_abstract_plus_validate S Q p s = Some (ok, s') \<and> nodes s' = nodes s
     \<and> (\<not> failed s' \<longrightarrow> ok = valid_diagram M s p)"
  using sylvan_support.validate_spec[OF assms(1) hinv_walkable[OF assms(2)] assms(3-)] by fastforce

theorem validate_correct_witness:
  "\<exists>ok s'. mtpndd_abstract_plus_validate tt_sylvan tt_query 64 demo_info = Some (ok, s') \<and> nodes s' = nodes demo_info
     \<and> (\<not> failed s' \<longrightarrow> ok = valid_diagram tt_model demo_info 64)"
  by (rule validate_correct[OF ttq.sylvan_support_axioms demo_info_hinv demo_info_layout(4,5), of "{#}"])
    (simp_all add: demo_info_def demo_nodes)

text \<open>
  C7. \<open>mtpndd_satcount\<close> is exact: on a Boolean diagram whose labels use the variables of their fields only,
  with fields of at most 52 bits in total, the double it returns is the number of assignments of the
  variables of all fields under which the diagram holds.
\<close>

theorem satcount_correct:
  assumes "sylvan_counting S M D rep Q" "hinv S M E s" "layout_ok s" "total_width s < 53" "max_bit_width s < 53"
    and "mtpndd_is_initialized s" "boolean s p" "valid_diagram M s p"
  shows "\<exists>x. mtpndd_satcount S Q D p s = Some (x, s)
     \<and> rep x (card {\<sigma> \<in> PiE {1..field_count s} (\<lambda>f. Pow (field_vars s f)). holds M s (env_of \<sigma>) p})"
  using sylvan_counting.satcount_spec[OF assms] by (simp only: sat_assigns_def assigns_def)

theorem satcount_correct_witness:
  "\<exists>x. mtpndd_satcount tt_sylvan tt_query nat_doubles 64 demo_info = Some (x, demo_info)
     \<and> (\<lambda>x n. n < 2 ^ 53 \<and> x = d_encode n) x
          (card {\<sigma> \<in> PiE {1..field_count demo_info} (\<lambda>f. Pow (field_vars demo_info f)). holds tt_model demo_info (env_of \<sigma>) 64})"
  by (rule satcount_correct[OF ttc.sylvan_counting_axioms demo_info_hinv demo_info_layout(1-3,5,6) demo_info_valid, of "{#}"]) simp

text \<open>
  C14. Addition shares the cache of OR: after a disjunction of two inner nodes, the addition of the same
  nodes returns the node of the disjunction.  So where both diagrams are 1, the sum is 1 and not 2.
\<close>

theorem plus_after_or:
  assumes "mtpndd_or S a b s = Some (r, s1)" "r \<noteq> NULL" "r \<noteq> kMtpnddOpCacheWriteLock" "a \<noteq> b"
    and "a \<notin> {NULL, MTPNDD_TRUE, MTPNDD_FALSE}" "b \<notin> {NULL, MTPNDD_TRUE, MTPNDD_FALSE}"
    and "both mtpndd_is_leaf s1 a b = Some False" "mtpndd_is_initialized s1"
    and "or_cache s1 = Some c" "oc_arity c = 2" "oc_capacity c \<noteq> 0"
  shows "mtpndd_plus S D a b s1 = Some (r, s1)"
proof (rule plus_hit[OF assms(8,7)])
  show "mtpndd_op_cache_lookup_binary s1 (or_cache s1) (fst (sort_operands a b)) (snd (sort_operands a b)) = Some r"
    by (rule or_then_lookup[OF assms(1-3) _ _ assms(4,9-11)]) (use assms(5,6) in auto)
qed (use assms(2,5,6) in auto)

theorem plus_after_or_witness: "mtpndd_plus tt_sylvan nat_doubles 64 80 demo_hit = Some (96, demo_hit)"
  by (rule plus_after_or[where c = "the (or_cache demo_hit)", OF demo_hit_or(1) _ _ _ _ _ demo_hit_or(3,2)])
    (simp_all add: demo_hit_def demo_cache_def kMtpnddOpCacheWriteLock_def address_defs)

section \<open>Conversion and output\<close>

text \<open>
  C11. The cache of the conversion to BDDs, with linear probing and growth at three quarters, always
  returns: after an initialisation and any sequence of insertions of distinct keys either an allocation
  has failed, or every lookup ends and finds exactly the values stored.
\<close>

theorem to_cache_finds:
  assumes "0 < brk (c_heap_of s)" "mem_limit (c_heap_of s) \<le> 2 ^ 60" "n \<le> 2 ^ 60" "distinct (map fst es)" "NULL \<notin> fst ` set es"
  shows "\<exists>c0 s0. mtpndd_to_mtbdd_cache_init n s = Some (c0, s0) \<and> (case c0 of None \<Rightarrow> failed s0 | Some c0 \<Rightarrow>
     \<exists>err c s'. run_inserts mtpndd_to_mtbdd_cache_insert es c0 s0 = Some (err, c, s')
       \<and> (if err = MTPNDD_SUCCESS then \<forall>k. \<exists>s''. mtpndd_to_mtbdd_cache_lookup c k s' = Some (map_of es k, s'') else failed s'))"
  by (rule to_memo.fill_and_find) (use assms in \<open>simp_all add: room_def\<close>)

theorem to_cache_finds_witness:
  "\<exists>c0 s0. mtpndd_to_mtbdd_cache_init 64 demo = Some (c0, s0) \<and> (case c0 of None \<Rightarrow> failed s0 | Some c0 \<Rightarrow>
     \<exists>err c s'. run_inserts mtpndd_to_mtbdd_cache_insert (map (\<lambda>i. (i, x0)) [1..<100]) c0 s0 = Some (err, c, s')
       \<and> (if err = MTPNDD_SUCCESS then \<forall>k. \<exists>s''. mtpndd_to_mtbdd_cache_lookup c k s' = Some (map_of (map (\<lambda>i. (i, x0)) [1..<100]) k, s'')
          else failed s'))"
  by (rule to_cache_finds) (simp_all add: demo_def comp_def image_image)

text \<open>
  C12. The same for the cache of the conversion from BDDs, where insertion and growth call each other:
  two levels of calls are enough.
\<close>

theorem from_cache_finds:
  assumes "0 < brk (c_heap_of s)" "mem_limit (c_heap_of s) \<le> 2 ^ 60" "n \<le> 2 ^ 60" "distinct (map fst es)" "0 \<notin> fst ` set es"
  shows "\<exists>c0 s0. mtbdd_to_mtpndd_cache_init n s = Some (c0, s0) \<and> (case c0 of None \<Rightarrow> failed s0 | Some c0 \<Rightarrow>
     \<exists>err c s'. run_inserts mtbdd_to_mtpndd_cache_insert es c0 s0 = Some (err, c, s')
       \<and> (if err = MTPNDD_SUCCESS then \<forall>k. mtbdd_to_mtpndd_cache_lookup c k = Some (map_of es k) else failed s'))"
proof -
  have rm: "room s" using assms(1,2) by (simp add: room_def)
  have eq: "(\<exists>s''. map_option (\<lambda>v. (v, s')) found = Some (x, s'')) \<longleftrightarrow> found = Some x" for found x and s' :: mstate
    by (cases found) auto
  from from_memo.fill_and_find[OF rm assms(3-5)] show ?thesis unfolding eq .
qed

theorem from_cache_finds_witness:
  "\<exists>c0 s0. mtbdd_to_mtpndd_cache_init 64 demo = Some (c0, s0) \<and> (case c0 of None \<Rightarrow> failed s0 | Some c0 \<Rightarrow>
     \<exists>err c s'. run_inserts mtbdd_to_mtpndd_cache_insert [(x0, 64), (x1, 80)] c0 s0 = Some (err, c, s')
       \<and> (if err = MTPNDD_SUCCESS then \<forall>k. mtbdd_to_mtpndd_cache_lookup c k = Some (map_of [(x0, 64), (x1, 80)] k) else failed s'))"
  by (rule from_cache_finds) (simp_all add: demo_def x0_def x1_def tt_sylvan_def)

text \<open>
  C9. If the first field is the widest and Sylvan has a variable for every bit, \<open>mtpndd_to_mtbdd\<close> always
  returns and changes no node.  The result is the BDD of the function of the diagram over the expanded variables, where bit \<open>k\<close> of a field is the
  variable with the number of the bits of all fields before it plus \<open>k\<close>; an error means that an
  allocation failed.
\<close>

theorem to_mtbdd_correct:
  assumes "sylvan_substitution S M nvars X map_ok map_sem" "hinv S M E s" "first_widest s nvars" "mtpndd_is_initialized s" "boolean s p"
  shows "\<exists>err r s'. mtpndd_to_mtbdd S X p s = Some (err, r, s') \<and> nodes s' = nodes s
     \<and> (if err = MTPNDD_SUCCESS then \<exists>b. r = Some b \<and> bdd_ok M b \<and> (\<forall>v. bdd_sem M b v \<longleftrightarrow> holds M s (expand s v) p)
        else r = None \<and> failed s')"
proof -
  obtain err r s' where "mtpndd_to_mtbdd S X p s = Some (err, r, s')" "placid s s'"
    "if err = MTPNDD_SUCCESS then \<exists>b. r = Some b \<and> den M s b p else r = None \<and> failed s'"
    using sylvan_substitution.to_mtbdd_spec[OF assms] by blast
  then show ?thesis by (auto simp: den_def split: if_splits)
qed

theorem to_mtbdd_correct_witness:
  "\<exists>err r s'. mtpndd_to_mtbdd tt_sylvan tt_maps 64 demo_info = Some (err, r, s') \<and> nodes s' = nodes demo_info
     \<and> (if err = MTPNDD_SUCCESS then \<exists>b. r = Some b \<and> bdd_ok tt_model b
          \<and> (\<forall>v. bdd_sem tt_model b v \<longleftrightarrow> holds tt_model demo_info (expand demo_info v) 64)
        else r = None \<and> failed s')"
  by (rule to_mtbdd_correct[OF ttx.sylvan_substitution_axioms demo_info_hinv demo_info_widest(1) demo_info_layout(5,6), of "{#}"]) simp

text \<open>
  C10. The two ways to count agree when the first field is the widest, the fields have fewer than 53 bits in
  all, Sylvan has a variable for every bit and each label of the diagram depends on the variables of its
  field only: then \<open>mtpndd_satcount_mtbdd\<close>, which converts to a BDD and lets Sylvan count, gives the number
  of assignments of the fields under which the diagram holds, and so does \<open>mtpndd_satcount\<close>, unless an
  allocation failed.  The condition on the first field is needed: with a wider field after it the
  conversion does not move the variables of the fields apart.
\<close>

theorem satcount_mtbdd_agrees:
  assumes "sylvan_substitution S M nvars X map_ok map_sem" "sylvan_counting S M D rep Q"
    and "hinv S M E s" "first_widest s nvars" "total_width s < 53" "max_bit_width s < 53"
    and "mtpndd_is_initialized s" "boolean s p" "valid_diagram M s p"
  shows "\<exists>x y s'. mtpndd_satcount_mtbdd S X Q D p s = Some (x, s') \<and> mtpndd_satcount S Q D p s = Some (y, s) \<and> nodes s' = nodes s
     \<and> (\<not> failed s' \<longrightarrow> (\<exists>n. n = card (sat_assigns M s 1 p) \<and> rep x n \<and> rep y n))"
proof -
  have "layout_ok s" using assms(4) by (simp add: first_widest_def)
  then obtain y where "mtpndd_satcount S Q D p s = Some (y, s)" "rep y (card (sat_assigns M s 1 p))"
    using sylvan_counting.satcount_spec[OF assms(2,3) _ assms(5-9)] by blast
  moreover obtain x s' where "mtpndd_satcount_mtbdd S X Q D p s = Some (x, s')" "placid s s'"
    "\<not> failed s' \<longrightarrow> rep x (card (sat_assigns M s 1 p))" using satcount_mtbdd_spec[OF assms(1-5,7-9)] by blast
  ultimately show ?thesis by simp
qed

theorem satcount_mtbdd_agrees_witness:
  "\<exists>x y s'. mtpndd_satcount_mtbdd tt_sylvan tt_maps tt_query nat_doubles 64 demo_info = Some (x, s')
     \<and> mtpndd_satcount tt_sylvan tt_query nat_doubles 64 demo_info = Some (y, demo_info) \<and> nodes s' = nodes demo_info
     \<and> (\<not> failed s' \<longrightarrow> (\<exists>n. n = card (sat_assigns tt_model demo_info 1 64)
          \<and> (\<lambda>x n. n < 2 ^ 53 \<and> x = d_encode n) x n \<and> (\<lambda>x n. n < 2 ^ 53 \<and> x = d_encode n) y n))"
  by (rule satcount_mtbdd_agrees[OF ttx.sylvan_substitution_axioms ttc.sylvan_counting_axioms demo_info_hinv demo_info_widest(1)
        demo_info_layout(2,3,5,6) demo_info_valid, of "{#}"]) simp

text \<open>
  C15. \<open>mtbdd_to_mtpndd\<close> refuses a BDD whose top variable belongs to no field: it returns no node, and the
  error \<open>MTPNDD_ERROR_INVALID_FIELD\<close> unless an allocation failed before.
\<close>

theorem from_mtbdd_refuses_unknown_variable:
  assumes "hinv S M E s" "layout_ok s" "total_width s < 2 ^ 32" "mtpndd_is_initialized s"
    and "b \<noteq> sylvan_false S" "b \<noteq> sylvan_true S" "total_width s \<le> sylvan_var Q b"
  shows "\<exists>err s'. mtbdd_to_mtpndd S Q G b s = Some (err, None, s') \<and> nodes s' = nodes s
     \<and> (\<not> failed s' \<longrightarrow> err = MTPNDD_ERROR_INVALID_FIELD \<and> ei_code (mtpndd_get_last_error s') = MTPNDD_ERROR_INVALID_FIELD)"
  using from_mtbdd_outside[OF hinv_room[OF assms(1)] assms(2-), of G] by auto

theorem from_mtbdd_refuses_unknown_variable_witness:
  "\<exists>err s'. mtbdd_to_mtpndd tt_sylvan tt_query tt_graph x5 demo_info = Some (err, None, s') \<and> nodes s' = nodes demo_info
     \<and> (\<not> failed s' \<longrightarrow> err = MTPNDD_ERROR_INVALID_FIELD \<and> ei_code (mtpndd_get_last_error s') = MTPNDD_ERROR_INVALID_FIELD)"
  by (rule from_mtbdd_refuses_unknown_variable[OF demo_info_hinv demo_info_layout(1) _ demo_info_layout(5) x5_var(2,3), of "{#}"])
    (simp_all add: demo_info_widest(2) x5_var(1))

text \<open>
  C16. The DOT output of an inner node: unless an allocation failed, it is the preamble, the line of the
  root, one line for every edge of the root with the children numbered from 1 in the order of the
  edges, and the closing brace.  Children have no line, and nothing below them is printed.
\<close>

theorem dot_prints_root_only:
  assumes "hinv S M E s" "content s p = Some (f, NEdges m)"
  shows "\<exists>out s'. mtpndd_fprint_dot S p s = Some (out, s') \<and> nodes s' = nodes s \<and> (\<not> failed s' \<longrightarrow>
     (\<exists>l. mtpndd_dot_emit_node p 0 True s = Some l
        \<and> out = dot_preamble @ [l] @ map (\<lambda>(j, e). edge_line S 0 j (ee_label e)) (enumerate 1 (entries m)) @ [''}'' @ newline]))"
  using fprint_dot_spec[OF assms] by fastforce

theorem dot_prints_root_only_witness:
  "\<exists>out s'. mtpndd_fprint_dot tt_sylvan 64 demo = Some (out, s') \<and> nodes s' = nodes demo \<and> (\<not> failed s' \<longrightarrow>
     (\<exists>l. mtpndd_dot_emit_node 64 0 True demo = Some l
        \<and> out = dot_preamble @ [l] @ map (\<lambda>(j, e). edge_line tt_sylvan 0 j (ee_label e)) (enumerate 1 (entries (var_map 200 x0)))
            @ [''}'' @ newline]))"
  by (rule dot_prints_root_only[OF demo_hinv, of "{#}" 64 1]) (simp_all add: demo_content)

text \<open>
  C17. The DOT output of a terminal is undefined: it follows the packed fraction of the leaf as the
  address of an edge map.
\<close>

theorem dot_terminal_undefined:
  assumes "hinv S M E s" "p = MTPNDD_TRUE \<or> p = MTPNDD_FALSE" "brk (c_heap_of s) + 24 \<le> mem_limit (c_heap_of s)"
  shows "mtpndd_fprint_dot S p s = None"
  by (rule fprint_dot_terminal[OF assms])

theorem dot_terminal_undefined_witness: "mtpndd_fprint_dot tt_sylvan MTPNDD_TRUE demo = None"
  by (rule dot_terminal_undefined[OF demo_hinv, of "{#}"]) (simp_all add: demo_def)

section \<open>Concurrent use of a cache slot\<close>

text \<open>
  C29. What a hit of a lookup on a slot guarantees, in every interleaving with stores and clearings and
  under the memory orders of the source.  The result was published by some store, and neither operand
  that the lookup compared is older than that store: each was written by it or by a later store.  If no
  later store has begun to write, the result was stored under exactly these operands.
\<close>

theorem seqlock_hit_not_older:
  assumes "cache_step\<^sup>*\<^sup>* fresh_slot s" "pcs s t = LkDone lhs rhs r" "r \<noteq> NULL"
  shows "\<exists>k<length (published s). snd (snd (published s ! k)) = r
     \<and> (\<exists>i>k. i < length (op0_log s) \<and> op0_log s ! i = lhs) \<and> (\<exists>j>k. j < length (op1_log s) \<and> op1_log s ! j = rhs)
     \<and> fst (published s ! k) = op0_log s ! Suc k \<and> fst (snd (published s ! k)) = op1_log s ! Suc k
     \<and> (length (op0_log s) = k + 2 \<longrightarrow> length (op1_log s) = k + 2 \<longrightarrow> published s ! k = (lhs, rhs, r))"
proof -
  note inv = reachable_inv[OF assms(1)]
  obtain k where k: "k < length (published s)" "result_of s k = r" "written k (op0_log s) lhs" "written k (op1_log s) rhs"
    using inv_parts(7)[OF inv, of t] assms(2,3) by auto
  have l: "fst (published s ! k) = op0_log s ! Suc k" "fst (snd (published s ! k)) = op1_log s ! Suc k"
    using inv_parts(2)[OF inv] k(1) by (simp_all add: logs_ok_def)
  have last: "xs ! Suc k = x" if w: "written k xs x" "length xs = k + 2" for xs :: "ptr list" and x
  proof -
    obtain i where i: "k < i" "i < k + 2" "xs ! i = x" using w by (auto simp: written_def)
    then have "i = Suc k" by simp
    then show ?thesis using i(3) by simp
  qed
  show ?thesis using k l last[OF k(3)] last[OF k(4)]
    by (intro exI[of _ k]) (auto simp: written_def result_of_def prod_eq_iff)
qed

theorem seqlock_hit_not_older_witness:
  "\<exists>s. run_schedule (store_run 0 64 80 96 1 @ [(1, Inl (LkFirst 64 80)), (1, Inr 2), (1, Inr 1), (1, Inr 1), (1, Inr 2)]) fresh_slot = Some s
     \<and> pcs s 1 = LkDone 64 80 96 \<and> published s ! 0 = (64, 80, 96)"
proof -
  have "\<exists>s. run_schedule (store_run 0 64 80 96 1 @ [(1, Inl (LkFirst 64 80)), (1, Inr 2), (1, Inr 1), (1, Inr 1), (1, Inr 2)]) fresh_slot = Some s
     \<and> pcs s 1 = LkDone 64 80 96 \<and> length (op0_log s) = 2 \<and> length (op1_log s) = 2 \<and> length (published s) = 1"
    by (simp add: schedule_simps numeral_2_eq_2)
  then obtain s where s: "run_schedule (store_run 0 64 80 96 1 @ [(1, Inl (LkFirst 64 80)), (1, Inr 2), (1, Inr 1), (1, Inr 1), (1, Inr 2)]) fresh_slot = Some s"
    "pcs s 1 = LkDone 64 80 96" "length (op0_log s) = 2" "length (op1_log s) = 2" "length (published s) = 1" by blast
  from seqlock_hit_not_older[OF run_schedule_steps[OF s(1)] s(2)] have "published s ! 0 = (64, 80, 96)" using s(3-5) by auto
  then show ?thesis using s(1,2) by blast
qed

text \<open>
  C31. The second read of the result does not protect a lookup against a torn observation of the
  operands.  After stores of the same result under \<open>(a, b)\<close> and \<open>(c, d)\<close> there is an interleaving in which
  the lookup of \<open>(a, d)\<close>, under which nothing was stored, returns this result.  The same happens with two
  different results, before the second store has published anything: the lookup reads the first operand
  from before the second store, the other one after it was written, and the result from before.
\<close>

theorem seqlock_torn_hit:
  assumes "r \<noteq> NULL" "r \<noteq> kMtpnddOpCacheWriteLock" "r' \<noteq> NULL" "r' \<noteq> kMtpnddOpCacheWriteLock" "a \<noteq> c" "b \<noteq> d"
  shows "(\<exists>s. cache_step\<^sup>*\<^sup>* fresh_slot s \<and> pcs s 2 = LkDone a d r \<and> published s = [(a, b, r), (c, d, r)]
       \<and> (\<forall>x. (a, d, x) \<notin> set (published s)))
     \<and> (\<exists>s. cache_step\<^sup>*\<^sup>* fresh_slot s \<and> pcs s 1 = StPublish c d r' \<and> pcs s 2 = LkDone a d r \<and> published s = [(a, b, r)]
       \<and> (\<forall>x. (a, d, x) \<notin> set (published s)))"
proof
  obtain s where "run_schedule (torn_schedule a b c d r) fresh_slot = Some s" "pcs s 2 = LkDone a d r" "published s = [(a, b, r), (c, d, r)]"
    using torn_run[OF assms(1,2)] by blast
  then show "\<exists>s. cache_step\<^sup>*\<^sup>* fresh_slot s \<and> pcs s 2 = LkDone a d r \<and> published s = [(a, b, r), (c, d, r)]
       \<and> (\<forall>x. (a, d, x) \<notin> set (published s))" using run_schedule_steps assms(5,6) by fastforce
next
  obtain s where "run_schedule (stale_schedule a b c d r r') fresh_slot = Some s" "pcs s 1 = StPublish c d r'" "pcs s 2 = LkDone a d r"
    "published s = [(a, b, r)]" using stale_run[OF assms(1-4)] by blast
  then show "\<exists>s. cache_step\<^sup>*\<^sup>* fresh_slot s \<and> pcs s 1 = StPublish c d r' \<and> pcs s 2 = LkDone a d r \<and> published s = [(a, b, r)]
       \<and> (\<forall>x. (a, d, x) \<notin> set (published s))" using run_schedule_steps assms(5,6) by fastforce
qed

theorem seqlock_torn_hit_witness:
  "(\<exists>s. cache_step\<^sup>*\<^sup>* fresh_slot s \<and> pcs s 2 = LkDone 64 128 96 \<and> published s = [(64, 80, 96), (112, 128, 96)]
       \<and> (\<forall>x. (64, 128, x) \<notin> set (published s)))
     \<and> (\<exists>s. cache_step\<^sup>*\<^sup>* fresh_slot s \<and> pcs s 1 = StPublish 112 128 144 \<and> pcs s 2 = LkDone 64 128 96 \<and> published s = [(64, 80, 96)]
       \<and> (\<forall>x. (64, 128, x) \<notin> set (published s)))"
  by (rule seqlock_torn_hit) (simp_all add: kMtpnddOpCacheWriteLock_def)

text \<open>
  C30. A slot never stays locked for good: in every reachable state with a locked slot there is a writer
  that holds it, and its next three actions at most release it.
\<close>

theorem slot_lock_released:
  assumes "cache_step\<^sup>*\<^sup>* fresh_slot s" "locked s"
  shows "\<exists>t. \<exists>k\<le>3. \<forall>i. \<not> locked ((thread_act t i ^^ k) s)"
proof -
  note inv = reachable_inv[OF assms(1)]
  obtain t where "owns (pcs s t)" using inv_parts(5)[OF inv assms(2)] by blast
  then show ?thesis using owner_releases[OF inv] by blast
qed

theorem slot_lock_released_witness:
  "\<exists>s. run_schedule (take 3 (store_run 0 64 80 96 1)) fresh_slot = Some s \<and> locked s
     \<and> (\<exists>t. \<exists>k\<le>3. \<forall>i. \<not> locked ((thread_act t i ^^ k) s))"
proof -
  have "\<exists>s. run_schedule (take 3 (store_run 0 64 80 96 1)) fresh_slot = Some s \<and> locked s"
    by (simp add: schedule_simps locked_def)
  then show ?thesis using slot_lock_released[OF run_schedule_steps] by blast
qed

end
